(* ===== verification/Prelude.thy ===== *)
theory Prelude
  imports Main "HOL-Library.Word" "HOL-Library.Finite_Map" "HOL-Library.Multiset"
begin

text \<open>
  Shared vocabulary of the development: the machine integers of the Rust code as words, the
  integer operations of the Rust standard library the code relies on (\<open>saturating_add\<close>,
  \<open>saturating_sub\<close>, \<open>checked_add\<close>, \<open>checked_sub\<close>, big-endian byte strings), hash maps as finite
  maps with \<open>retain\<close>, and the interfaces several components share: an event-driven machine with
  terminal states, and a binary codec.
\<close>

named_theorems arith_defs \<open>definitions of the Rust integer operations\<close>

section \<open>Machine integers\<close>

type_synonym u8 = "8 word"
type_synonym u16 = "16 word"
type_synonym u32 = "32 word"
type_synonym u64 = "64 word"
type_synonym bytes = "u8 list"

text \<open>The bytes of an ASCII literal.\<close>

definition str_bytes :: "string \<Rightarrow> bytes" where
  "str_bytes s = map of_char s"

definition saturating_add :: "'a::len word \<Rightarrow> 'a word \<Rightarrow> 'a word" where
  [arith_defs]: "saturating_add a b = (if unat a + unat b < 2 ^ LENGTH('a) then a + b else - 1)"

definition saturating_sub :: "'a::len word \<Rightarrow> 'a word \<Rightarrow> 'a word" where
  [arith_defs]: "saturating_sub a b = (if b \<le> a then a - b else 0)"

definition saturating_mul :: "'a::len word \<Rightarrow> 'a word \<Rightarrow> 'a word" where
  [arith_defs]: "saturating_mul a b = (if unat a * unat b < 2 ^ LENGTH('a) then a * b else - 1)"

definition checked_add :: "'a::len word \<Rightarrow> 'a word \<Rightarrow> 'a word option" where
  [arith_defs]: "checked_add a b = (if unat a + unat b < 2 ^ LENGTH('a) then Some (a + b) else None)"

definition checked_sub :: "'a::len word \<Rightarrow> 'a word \<Rightarrow> 'a word option" where
  [arith_defs]: "checked_sub a b = (if b \<le> a then Some (a - b) else None)"

lemma unat_max_word: "unat (- 1 :: 'a::len word) = 2 ^ LENGTH('a) - 1"
  by (simp add: unsigned_minus_1_eq_mask mask_eq_exp_minus_1)

lemma unat_le_max: "unat a \<le> 2 ^ LENGTH('a) - 1" for a :: "'a::len word"
proof -
  have "unat a < 2 ^ LENGTH('a)" by (rule unsigned_less)
  then show ?thesis by linarith
qed

lemma unat_saturating_add:
  "unat (saturating_add a b) = min (unat a + unat b) (2 ^ LENGTH('a) - 1)" for a b :: "'a::len word"
proof (cases "unat a + unat b < 2 ^ LENGTH('a)")
  case True
  then have "unat a + unat b \<le> 2 ^ LENGTH('a) - 1" by linarith
  then show ?thesis using True by (simp add: saturating_add_def unat_word_ariths)
next
  case False
  then show ?thesis by (simp add: saturating_add_def unat_max_word)
qed

lemma unat_saturating_sub: "unat (saturating_sub a b) = unat a - unat b"
  by (auto simp: saturating_sub_def unat_sub word_le_nat_alt)

lemma unat_saturating_mul:
  "unat (saturating_mul a b) = min (unat a * unat b) (2 ^ LENGTH('a) - 1)" for a b :: "'a::len word"
proof (cases "unat a * unat b < 2 ^ LENGTH('a)")
  case True
  then have "unat a * unat b \<le> 2 ^ LENGTH('a) - 1" by linarith
  then show ?thesis using True by (simp add: saturating_mul_def unat_word_ariths)
next
  case False
  then show ?thesis by (simp add: saturating_mul_def unat_max_word)
qed

lemma checked_add_Some:
  "checked_add a b = Some c \<Longrightarrow> unat c = unat a + unat b" for a b :: "'a::len word"
  by (auto simp: checked_add_def unat_add_lem split: if_splits)

lemma checked_sub_Some: "checked_sub a b = Some c \<Longrightarrow> unat c = unat a - unat b \<and> unat b \<le> unat a"
  by (auto simp: checked_sub_def unat_sub word_le_nat_alt split: if_splits)

lemma saturating_add_ge: "a \<le> saturating_add a b"
  using unat_le_max [of a] by (auto simp: word_le_nat_alt unat_saturating_add)

lemma unat_min_word: "unat (min a b) = min (unat a) (unat b)"
  by (simp add: min_def word_le_nat_alt)

lemma unat_max_of: "unat (max a b) = max (unat a) (unat b)"
  by (simp add: max_def word_le_nat_alt)

lemma unat_pred: "0 < x \<Longrightarrow> unat (x - 1) = unat x - 1" for x :: "'a::len word"
  by (metis unat_minus_one word_neq_0_conv)

lemma unat_plus_one: "x < y \<Longrightarrow> unat (x + 1) = Suc (unat x)" for x y :: "'a::len word"
proof -
  assume "x < y"
  then have "unat x < unat y" by (simp add: word_less_nat_alt)
  moreover have "unat y < 2 ^ LENGTH('a)" by (rule unsigned_less)
  ultimately have "unat x + 1 < 2 ^ LENGTH('a)" by linarith
  then show ?thesis by (simp add: unat_word_ariths)
qed

lemmas unat_ops = unat_saturating_add unat_saturating_sub unat_saturating_mul unat_min_word
  unat_max_of unat_max_word

section \<open>Big-endian byte strings\<close>

text \<open>\<open>be_bytes n v\<close> is \<open>to_be_bytes\<close> of an \<open>n\<close>-byte unsigned integer, \<open>be_val\<close> is \<open>from_be_bytes\<close>.\<close>

fun be_bytes :: "nat \<Rightarrow> nat \<Rightarrow> bytes" where
  "be_bytes 0 v = []"
| "be_bytes (Suc n) v = be_bytes n (v div 256) @ [word_of_nat v]"

definition be_val :: "bytes \<Rightarrow> nat" where
  "be_val bs = foldl (\<lambda>a b. a * 256 + unat b) 0 bs"

lemma length_be_bytes [simp]: "length (be_bytes n v) = n"
  by (induction n arbitrary: v) auto

lemma be_val_Nil [simp]: "be_val [] = 0"
  by (simp add: be_val_def)

lemma be_val_snoc [simp]: "be_val (bs @ [b]) = be_val bs * 256 + unat b"
  by (simp add: be_val_def)

lemma unat_byte_of_nat: "unat (word_of_nat v :: u8) = v mod 256"
  by (simp add: unat_of_nat)

lemma be_val_be_bytes: "v < 256 ^ n \<Longrightarrow> be_val (be_bytes n v) = v"
proof (induction n arbitrary: v)
  case 0
  then show ?case by simp
next
  case (Suc n)
  then have "v div 256 < 256 ^ n" by (simp add: less_mult_imp_div_less mult.commute)
  then show ?case using Suc.IH by (simp add: unat_byte_of_nat)
qed

lemma be_bytes_be_val: "be_bytes (length bs) (be_val bs) = bs"
proof (induction bs rule: rev_induct)
  case Nil
  then show ?case by simp
next
  case (snoc b bs)
  have b: "unat b < 256" using unsigned_less [of b] by simp
  have "(be_val bs * 256 + unat b) div 256 = be_val bs" using b by simp
  moreover have "(word_of_nat (be_val bs * 256 + unat b) :: u8) = b"
  proof (rule word_unat_eq_iff [THEN iffD2])
    show "unat (word_of_nat (be_val bs * 256 + unat b) :: u8) = unat b"
      using b by (simp only: unat_byte_of_nat) simp
  qed
  ultimately show ?case using snoc by simp
qed

lemma be_val_less: "be_val bs < 256 ^ length bs"
proof (induction bs rule: rev_induct)
  case Nil
  then show ?case by simp
next
  case (snoc b bs)
  have "unat b < 256" using unsigned_less [of b] by simp
  with snoc show ?case by simp
qed

lemma be_bytes_cong: "length bs = n \<Longrightarrow> be_bytes n (be_val bs) = bs"
  using be_bytes_be_val by metis

lemma be_val_less_pow: "length bs = n \<Longrightarrow> be_val bs < 256 ^ n"
  using be_val_less by metis

lemma word_be: "8 * n = LENGTH('a :: len) \<Longrightarrow> (word_of_nat (be_val (be_bytes n (unat w))) :: 'a word) = w"
proof -
  assume n: "8 * n = LENGTH('a)"
  have pow: "(256 :: nat) ^ n = 2 ^ LENGTH('a)" unfolding n [symmetric] by (simp add: power_mult)
  show ?thesis using unsigned_less [of w] by (simp add: be_val_be_bytes pow)
qed

lemma be_word: "8 * n = LENGTH('a :: len) \<Longrightarrow> length x = n \<Longrightarrow> be_bytes n (unat (word_of_nat (be_val x) :: 'a word)) = x"
proof -
  assume n: "8 * n = LENGTH('a)" and x: "length x = n"
  have pow: "(256 :: nat) ^ n = 2 ^ LENGTH('a)" unfolding n [symmetric] by (simp add: power_mult)
  then show ?thesis using be_val_less_pow [OF x] be_bytes_cong [OF x] by (simp add: unat_of_nat)
qed

section \<open>Fallible computations\<close>

text \<open>When a chain of checks and calls succeeds.\<close>

lemma case_option_Inr:
  "(case g of None \<Rightarrow> Inl e | Some x \<Rightarrow> f x) = Inr r \<longleftrightarrow> (\<exists>x. g = Some x \<and> f x = Inr r)"
  by (auto split: option.splits)

lemma case_sum_Inr:
  "(case g of Inl e \<Rightarrow> Inl e | Inr x \<Rightarrow> f x) = Inr r \<longleftrightarrow> (\<exists>x. g = Inr x \<and> f x = Inr r)"
  by (auto split: sum.splits)

lemma if_Inl_Inr: "(if P then Inl e else g) = Inr r \<longleftrightarrow> \<not> P \<and> g = Inr r"
  by auto

lemma case_prod_Inr:
  "(case g of Inl e \<Rightarrow> Inl e | Inr (x, y) \<Rightarrow> f x y) = Inr r \<longleftrightarrow> (\<exists>x y. g = Inr (x, y) \<and> f x y = Inr r)"
  by (auto split: sum.splits)

lemma case_triple_Inr:
  "(case g of Inl e \<Rightarrow> Inl e | Inr (x, y, z) \<Rightarrow> f x y z) = Inr r \<longleftrightarrow> (\<exists>x y z. g = Inr (x, y, z) \<and> f x y z = Inr r)"
  by (auto split: sum.splits)

lemmas Inr_simps = case_option_Inr case_sum_Inr if_Inl_Inr

section \<open>Hash maps\<close>

text \<open>
  A \<open>HashMap\<close> is a finite map. \<open>fmsize\<close> is \<open>len\<close>, \<open>fmretain\<close> is \<open>retain\<close>; the order in which Rust
  iterates over a map is unspecified; a definition whose result can depend on it takes the order as an argument.
\<close>

abbreviation fmsize :: "('k, 'v) fmap \<Rightarrow> nat" where
  "fmsize m \<equiv> fcard (fmdom m)"

definition fmretain :: "('k \<Rightarrow> 'v \<Rightarrow> bool) \<Rightarrow> ('k, 'v) fmap \<Rightarrow> ('k, 'v) fmap" where
  "fmretain P m = fmfilter (\<lambda>k. case fmlookup m k of None \<Rightarrow> False | Some v \<Rightarrow> P k v) m"

lemma fmlookup_retain [simp]:
  "fmlookup (fmretain P m) k =
     (case fmlookup m k of None \<Rightarrow> None | Some v \<Rightarrow> if P k v then Some v else None)"
  by (simp add: fmretain_def split: option.split)

lemma fmretain_empty [simp]: "fmretain P fmempty = fmempty"
  by (simp add: fmretain_def)

lemma fmretain_retain: "fmretain P (fmretain Q m) = fmretain (\<lambda>k v. P k v \<and> Q k v) m"
  by (rule fmap_ext) (simp split: option.split)

lemma fmdom_retain_subset: "fmdom (fmretain P m) |\<subseteq>| fmdom m"
  by (auto simp: fmretain_def)

lemma fmsize_retain_le: "fmsize (fmretain P m) \<le> fmsize m"
  by (rule fcard_mono) (rule fmdom_retain_subset)

lemma fmsize_upd: "fmsize (fmupd k v m) = (if k |\<in>| fmdom m then fmsize m else Suc (fmsize m))"
  by (simp add: fcard_finsert_if)

lemma fmsize_drop: "fmsize (fmdrop k m) = (if k |\<in>| fmdom m then fmsize m - 1 else fmsize m)"
  by (simp add: fcard_fminus_fsingleton_if)

lemma fmlookup_None_iff: "fmlookup m k = None \<longleftrightarrow> k |\<notin>| fmdom m"
  by (metis fmdom_notD fmdom_notI)

lemma fmdrop_absent: "fmlookup m k = None \<Longrightarrow> fmdrop k m = m"
  by (rule fmap_ext) simp

lemma fmdom_upd_idle: "k |\<in>| fmdom m \<Longrightarrow> fmdom (fmupd k v m) = fmdom m"
  by auto

section \<open>Event-driven machines\<close>

text \<open>
  The contract of a component driven by a sequence of events: a step function that keeps an
  invariant. \<open>foldl step\<close> is a whole run. A machine with terminal states never leaves them; a
  budgeted machine pays for some events from a potential other events may refill, so the total
  spent over any run is bounded by the initial potential plus what was given back.
\<close>

primrec run_sum :: "('s \<Rightarrow> 'e \<Rightarrow> 's) \<Rightarrow> ('s \<Rightarrow> 'e \<Rightarrow> nat) \<Rightarrow> 's \<Rightarrow> 'e list \<Rightarrow> nat" where
  "run_sum step f s [] = 0"
| "run_sum step f s (e # es) = f s e + run_sum step f (step s e) es"

text \<open>A condition that holds at every state of a run, and the last step of a run that made it true.\<close>

primrec throughout :: "('s \<Rightarrow> 'e \<Rightarrow> 's) \<Rightarrow> ('s \<Rightarrow> bool) \<Rightarrow> 's \<Rightarrow> 'e list \<Rightarrow> bool" where
  "throughout step P s [] \<longleftrightarrow> P s"
| "throughout step P s (e # es) \<longleftrightarrow> P s \<and> throughout step P (step s e) es"

lemma throughout_snoc: "throughout step P s (es @ [e]) \<longleftrightarrow> throughout step P s es \<and> P (foldl step s (es @ [e]))"
  by (induction es arbitrary: s) auto

lemma last_entry:
  assumes "\<not> P s" and "P (foldl step s es)"
  obtains a e c where "es = a @ e # c" and "\<not> P (foldl step s a)" and "throughout step P (foldl step s (a @ [e])) c"
proof -
  have "\<exists>a e c. es = a @ e # c \<and> \<not> P (foldl step s a) \<and> throughout step P (foldl step s (a @ [e])) c"
    using assms(2)
  proof (induction es rule: rev_induct)
    case (snoc x es)
    show ?case
    proof (cases "P (foldl step s es)")
      case True
      with snoc.IH obtain a e c where "es = a @ e # c" "\<not> P (foldl step s a)" "throughout step P (foldl step s (a @ [e])) c" by blast
      then show ?thesis using snoc.prems by (intro exI [of _ a] exI [of _ e] exI [of _ "c @ [x]"]) (simp add: throughout_snoc)
    next
      case False
      then show ?thesis using snoc.prems by (intro exI [of _ es] exI [of _ x] exI [of _ "[]"]) simp
    qed
  qed (use assms(1) in simp)
  then show ?thesis using that by blast
qed

locale machine =
  fixes step :: "'s \<Rightarrow> 'e \<Rightarrow> 's" and inv :: "'s \<Rightarrow> bool"
  assumes inv_step: "inv s \<Longrightarrow> inv (step s e)"
begin

lemma inv_run: "inv s \<Longrightarrow> inv (foldl step s es)"
  by (induction es arbitrary: s) (auto intro: inv_step)

end

locale terminal_machine = machine +
  fixes terminal :: "'s \<Rightarrow> bool"
  assumes terminal_step: "inv s \<Longrightarrow> terminal s \<Longrightarrow> step s e = s"
begin

lemma terminal_run: "inv s \<Longrightarrow> terminal s \<Longrightarrow> foldl step s es = s"
  by (induction es) (simp_all add: terminal_step)

lemma terminal_once: "inv s \<Longrightarrow> terminal (foldl step s es) \<Longrightarrow> foldl step s (es @ fs) = foldl step s es"
  by (simp add: terminal_run inv_run)

end

locale budget_machine = machine +
  fixes pot :: "'s \<Rightarrow> nat" and spend :: "'s \<Rightarrow> 'e \<Rightarrow> nat" and gain :: "'s \<Rightarrow> 'e \<Rightarrow> nat"
  assumes pot_step: "inv s \<Longrightarrow> pot (step s e) + spend s e \<le> pot s + gain s e"
begin

lemma pot_run:
  "inv s \<Longrightarrow> pot (foldl step s es) + run_sum step spend s es \<le> pot s + run_sum step gain s es"
proof (induction es arbitrary: s)
  case Nil
  then show ?case by simp
next
  case (Cons e es)
  then have "pot (foldl step (step s e) es) + run_sum step spend (step s e) es
      \<le> pot (step s e) + run_sum step gain (step s e) es"
    using inv_step by blast
  with pot_step [OF Cons.prems, of e] show ?case by simp
qed

corollary spend_run: "inv s \<Longrightarrow> run_sum step spend s es \<le> pot s + run_sum step gain s es"
  using pot_run [of s es] by simp

end

section \<open>Binary codecs\<close>

text \<open>
  The contract of a wire format: encoding a well-formed value and decoding it gives the value
  back, only well-formed values are ever decoded, and the decoder accepts exactly the canonical
  encoding, so no two byte strings stand for one value.
\<close>

locale codec =
  fixes enc :: "'a \<Rightarrow> bytes" and dec :: "bytes \<Rightarrow> 'e + 'a" and wf :: "'a \<Rightarrow> bool"
  assumes dec_enc: "wf x \<Longrightarrow> dec (enc x) = Inr x"
    and dec_wf: "dec b = Inr x \<Longrightarrow> wf x"
    and enc_dec: "dec b = Inr x \<Longrightarrow> enc x = b"
begin

lemma dec_iff: "dec b = Inr x \<longleftrightarrow> wf x \<and> enc x = b"
proof
  assume "dec b = Inr x"
  then show "wf x \<and> enc x = b" using dec_wf enc_dec by simp
next
  assume "wf x \<and> enc x = b"
  then show "dec b = Inr x" using dec_enc by auto
qed

lemma enc_inj:
  assumes "wf x" and "wf y" and "enc x = enc y"
  shows "x = y"
proof -
  have "dec (enc y) = Inr x" using dec_enc [OF assms(1)] assms(3) by simp
  moreover have "dec (enc y) = Inr y" using dec_enc [OF assms(2)] .
  ultimately show ?thesis by simp
qed

lemma dec_canonical:
  assumes "dec b = Inr x" and "dec c = Inr x"
  shows "b = c"
  using enc_dec [OF assms(1)] enc_dec [OF assms(2)] by (rule subst)

end

end
