(* ===== verification/Directed_Envelope.thy ===== *)
theory Directed_Envelope
  imports Prelude
begin

text \<open>
  The directed-share envelope and its confirmation challenge, from
  \<^verbatim>\<open>crates/miasma-core/src/directed/envelope.rs\<close> and \<^verbatim>\<open>challenge.rs\<close>: envelope states, retention
  periods and their clamping on receipt, and the challenge code the recipient shows and the
  sender types back. The hash and the Unicode tables are parameters (record \<open>ext\<close>).
\<close>

section \<open>Envelope states and retention\<close>

datatype envelope_state =
    Pending | ChallengeIssued | Confirmed | Retrieved | SenderRevoked
  | RecipientDeleted | Expired | ChallengeFailed | PasswordFailed

fun is_terminal :: "envelope_state \<Rightarrow> bool" where
  "is_terminal Retrieved = True"
| "is_terminal SenderRevoked = True"
| "is_terminal RecipientDeleted = True"
| "is_terminal Expired = True"
| "is_terminal ChallengeFailed = True"
| "is_terminal PasswordFailed = True"
| "is_terminal _ = False"

fun is_retrievable :: "envelope_state \<Rightarrow> bool" where
  "is_retrievable Confirmed = True"
| "is_retrievable _ = False"

datatype retention_period = TenMinutes | OneHour | OneDay | SevenDays | ThirtyDays | Custom u64

definition MIN_RETENTION_SECS :: u64 where "MIN_RETENTION_SECS = 600"
definition MAX_RETENTION_SECS :: u64 where "MAX_RETENTION_SECS = 2592000"

fun as_secs :: "retention_period \<Rightarrow> u64" where
  "as_secs TenMinutes = 600"
| "as_secs OneHour = 3600"
| "as_secs OneDay = 86400"
| "as_secs SevenDays = 604800"
| "as_secs ThirtyDays = 2592000"
| "as_secs (Custom s) = s"

datatype retention_error = InvalidRetention u64

definition checked_secs :: "retention_period \<Rightarrow> retention_error + u64" where
  "checked_secs r =
     (let secs = as_secs r in
      if MIN_RETENTION_SECS \<le> secs \<and> secs \<le> MAX_RETENTION_SECS then Inr secs
      else Inl (InvalidRetention secs))"

record directed_envelope =
  envelope_id :: bytes
  version :: u8
  sender_pubkey :: bytes
  recipient_pubkey :: bytes
  ephemeral_pubkey :: bytes
  encrypted_payload :: bytes
  payload_nonce :: bytes
  password_salt :: bytes
  expires_at :: u64
  created_at :: u64
  env_state :: envelope_state
  challenge_hash :: "bytes option"
  password_attempts_remaining :: u8
  challenge_attempts_remaining :: u8
  challenge_expires_at :: u64
  retention_secs :: u64

definition is_expired :: "directed_envelope \<Rightarrow> u64 \<Rightarrow> bool" where
  "is_expired env now_secs \<longleftrightarrow> expires_at env \<le> now_secs"

definition set_retention :: "directed_envelope \<Rightarrow> u64 \<Rightarrow> directed_envelope" where
  "set_retention env secs =
     env\<lparr>expires_at := saturating_add (created_at env) secs, retention_secs := secs\<rparr>"

datatype retention_window_error = EndsBeforeItStarts

definition normalize_received_retention ::
  "directed_envelope \<Rightarrow> u64 \<Rightarrow> retention_window_error + directed_envelope" where
  "normalize_received_retention env now_secs =
     (if expires_at env \<le> created_at env then Inl EndsBeforeItStarts
      else Inr (env\<lparr>expires_at := min (expires_at env) (saturating_add now_secs MAX_RETENTION_SECS),
                    retention_secs := min (retention_secs env) MAX_RETENTION_SECS\<rparr>))"

definition is_challenge_expired :: "directed_envelope \<Rightarrow> u64 \<Rightarrow> bool" where
  "is_challenge_expired env now_secs \<longleftrightarrow>
     0 < challenge_expires_at env \<and> challenge_expires_at env \<le> now_secs"

definition check_expiry :: "directed_envelope \<Rightarrow> u64 \<Rightarrow> directed_envelope" where
  "check_expiry env now_secs =
     (if is_expired env now_secs \<and> \<not> is_terminal (env_state env)
      then env\<lparr>env_state := Expired\<rparr> else env)"

section \<open>Strings\<close>

text \<open>
  A Rust string is a list of Unicode scalar values; its \<open>len\<close> and its slice indices count UTF-8
  bytes. \<open>split_at_byte n s\<close> is the pair \<open>(&s[..n], &s[n..])\<close>, \<open>None\<close> standing for the panic of a
  slice index that is out of range or not on a character boundary.
\<close>

type_synonym ustr = "nat list"

definition utf8_char :: "nat \<Rightarrow> bytes" where
  "utf8_char c =
     (if c < 128 then [word_of_nat c]
      else if c < 2048 then [word_of_nat (192 + c div 64), word_of_nat (128 + c mod 64)]
      else if c < 65536 then
        [word_of_nat (224 + c div 4096), word_of_nat (128 + c div 64 mod 64),
         word_of_nat (128 + c mod 64)]
      else
        [word_of_nat (240 + c div 262144), word_of_nat (128 + c div 4096 mod 64),
         word_of_nat (128 + c div 64 mod 64), word_of_nat (128 + c mod 64)])"

definition utf8 :: "ustr \<Rightarrow> bytes" where
  "utf8 s = concat (map utf8_char s)"

abbreviation str_len :: "ustr \<Rightarrow> nat" where
  "str_len s \<equiv> length (utf8 s)"

fun split_at_byte :: "nat \<Rightarrow> ustr \<Rightarrow> (ustr \<times> ustr) option" where
  "split_at_byte n [] = (if n = 0 then Some ([], []) else None)"
| "split_at_byte n (c # s) =
     (if n = 0 then Some ([], c # s)
      else if length (utf8_char c) \<le> n
      then map_option (apfst ((#) c)) (split_at_byte (n - length (utf8_char c)) s)
      else None)"

text \<open>
  What lies outside the repository: the BLAKE3 hash, the Unicode tables of the standard library
  beyond ASCII (upper-case mapping, alphanumeric and white-space classes), and the hexadecimal
  text of a byte string.
\<close>

record ext =
  blake3 :: "bytes \<Rightarrow> bytes"
  uc_upper :: "nat \<Rightarrow> nat list"
  uc_alnum :: "nat \<Rightarrow> bool"
  uc_white :: "nat \<Rightarrow> bool"
  hex_encode :: "bytes \<Rightarrow> string"

definition id_hex :: "ext \<Rightarrow> directed_envelope \<Rightarrow> string" where
  "id_hex X env = hex_encode X (envelope_id env)"

definition char_upper :: "ext \<Rightarrow> nat \<Rightarrow> nat list" where
  "char_upper X c = (if c < 128 then [if 97 \<le> c \<and> c \<le> 122 then c - 32 else c] else uc_upper X c)"

definition is_alphanumeric :: "ext \<Rightarrow> nat \<Rightarrow> bool" where
  "is_alphanumeric X c \<longleftrightarrow>
     (if c < 128 then 48 \<le> c \<and> c \<le> 57 \<or> 65 \<le> c \<and> c \<le> 90 \<or> 97 \<le> c \<and> c \<le> 122 else uc_alnum X c)"

definition is_whitespace :: "ext \<Rightarrow> nat \<Rightarrow> bool" where
  "is_whitespace X c \<longleftrightarrow> (if c < 128 then c = 32 \<or> 9 \<le> c \<and> c \<le> 13 else uc_white X c)"

definition trim :: "ext \<Rightarrow> ustr \<Rightarrow> ustr" where
  "trim X s = rev (dropWhile (is_whitespace X) (rev (dropWhile (is_whitespace X) s)))"

definition to_uppercase :: "ext \<Rightarrow> ustr \<Rightarrow> ustr" where
  "to_uppercase X s = concat (map (char_upper X) s)"

section \<open>The confirmation challenge\<close>

definition CHALLENGE_TTL_SECS :: u64 where "CHALLENGE_TTL_SECS = 300"
definition CHALLENGE_MAX_ATTEMPTS :: u8 where "CHALLENGE_MAX_ATTEMPTS = 3"
definition PASSWORD_MAX_ATTEMPTS :: u8 where "PASSWORD_MAX_ATTEMPTS = 3"

definition CHALLENGE_ALPHABET :: ustr where
  "CHALLENGE_ALPHABET = map of_char ''23456789ABCDEFGHJKMNPQRSTUVWXYZ''"

text \<open>The eight draws of the random generator are the argument \<open>idxs\<close>.\<close>

definition generate_challenge :: "ext \<Rightarrow> nat list \<Rightarrow> ustr \<times> bytes" where
  "generate_challenge X idxs =
     (let raw = map (\<lambda>i. CHALLENGE_ALPHABET ! i) idxs;
          formatted = take 4 raw @ [45] @ drop 4 raw
      in (formatted, blake3 X (utf8 formatted)))"

definition normalize_challenge :: "ext \<Rightarrow> ustr \<Rightarrow> ustr option" where
  "normalize_challenge X input =
     (let clean = filter (is_alphanumeric X) (to_uppercase X (trim X input)) in
      if str_len clean = 8
      then map_option (\<lambda>(a, b). a @ [45] @ b) (split_at_byte 4 clean)
      else Some clean)"

definition verify_challenge :: "ext \<Rightarrow> ustr \<Rightarrow> bytes \<Rightarrow> bool option" where
  "verify_challenge X input expected_hash =
     map_option (\<lambda>normalized. blake3 X (utf8 normalized) = expected_hash) (normalize_challenge X input)"

section \<open>Retention\<close>

lemmas retention_consts = MIN_RETENTION_SECS_def MAX_RETENTION_SECS_def

lemma checked_secs_iff:
  "checked_secs r = Inr s \<longleftrightarrow> s = as_secs r \<and> MIN_RETENTION_SECS \<le> s \<and> s \<le> MAX_RETENTION_SECS"
  by (auto simp: checked_secs_def Let_def)

lemma checked_secs_presets: "(\<And>s. r \<noteq> Custom s) \<Longrightarrow> checked_secs r = Inr (as_secs r)"
  by (cases r) (auto simp: checked_secs_def retention_consts)

text \<open>
  Normalising a received envelope refuses exactly an empty retention window, caps the expiry
  at now plus thirty days and the displayed retention at thirty days, never changes whether the
  envelope is already expired, leaves every other field alone, and is idempotent.
\<close>

theorem normalize_received_retention_spec:
  "(expires_at env \<le> created_at env \<longrightarrow>
      normalize_received_retention env now = Inl EndsBeforeItStarts) \<and>
   (created_at env < expires_at env \<longrightarrow>
      (\<exists>env'. normalize_received_retention env now = Inr env' \<and>
         unat (expires_at env') \<le> unat now + 2592000 \<and>
         expires_at env' \<le> expires_at env \<and>
         retention_secs env' \<le> MAX_RETENTION_SECS \<and>
         (is_expired env' now \<longleftrightarrow> is_expired env now) \<and>
         env' = env\<lparr>expires_at := expires_at env', retention_secs := retention_secs env'\<rparr> \<and>
         (created_at env' < expires_at env' \<longrightarrow> normalize_received_retention env' now = Inr env')))"
proof (intro conjI impI)
  assume "expires_at env \<le> created_at env"
  then show "normalize_received_retention env now = Inl EndsBeforeItStarts"
    by (simp add: normalize_received_retention_def)
next
  let ?c = "saturating_add now MAX_RETENTION_SECS"
  let ?env = "env\<lparr>expires_at := min (expires_at env) ?c,
                   retention_secs := min (retention_secs env) MAX_RETENTION_SECS\<rparr>"
  assume "created_at env < expires_at env"
  then have "normalize_received_retention env now = Inr ?env"
    by (simp add: normalize_received_retention_def)
  moreover have "unat (expires_at ?env) \<le> unat now + 2592000"
    by (simp add: unat_ops MAX_RETENTION_SECS_def)
  moreover have "?c \<le> now \<Longrightarrow> expires_at env \<le> now"
    using unat_le_max [of "expires_at env"] unat_le_max [of now]
    by (simp add: word_le_nat_alt unat_ops MAX_RETENTION_SECS_def)
  then have "is_expired ?env now \<longleftrightarrow> is_expired env now"
    by (auto simp: is_expired_def min_le_iff_disj)
  moreover have "created_at ?env < expires_at ?env \<Longrightarrow> normalize_received_retention ?env now = Inr ?env"
    by (simp add: normalize_received_retention_def min_le_iff_disj not_le)
  ultimately show "\<exists>env'. normalize_received_retention env now = Inr env' \<and>
         unat (expires_at env') \<le> unat now + 2592000 \<and>
         expires_at env' \<le> expires_at env \<and>
         retention_secs env' \<le> MAX_RETENTION_SECS \<and>
         (is_expired env' now \<longleftrightarrow> is_expired env now) \<and>
         env' = env\<lparr>expires_at := expires_at env', retention_secs := retention_secs env'\<rparr> \<and>
         (created_at env' < expires_at env' \<longrightarrow> normalize_received_retention env' now = Inr env')"
    by (intro exI [of _ ?env]) simp
qed

section \<open>Challenge codes\<close>

definition ascii :: "ustr \<Rightarrow> bool" where
  "ascii s \<longleftrightarrow> (\<forall>c \<in> set s. c < 128)"

lemma ascii_simps [simp]: "ascii []" "ascii (c # s) \<longleftrightarrow> c < 128 \<and> ascii s"
  "ascii (s @ t) \<longleftrightarrow> ascii s \<and> ascii t"
  by (auto simp: ascii_def)

lemma utf8_simps [simp]: "utf8 [] = []" "utf8 (c # s) = utf8_char c @ utf8 s"
  by (simp_all add: utf8_def)

lemma utf8_append [simp]: "utf8 (s @ t) = utf8 s @ utf8 t"
  by (simp add: utf8_def)

lemma utf8_ascii: "ascii s \<Longrightarrow> utf8 s = map word_of_nat s"
  by (induction s) (auto simp: utf8_char_def)

lemma split_at_byte_ascii:
  "ascii s \<Longrightarrow> n \<le> length s \<Longrightarrow> split_at_byte n s = Some (take n s, drop n s)"
proof (induction s arbitrary: n)
  case Nil
  then show ?case by simp
next
  case (Cons c s)
  then have l: "length (utf8_char c) = 1" by (simp add: utf8_char_def)
  show ?case
  proof (cases n)
    case 0
    then show ?thesis by simp
  next
    case (Suc m)
    then have "split_at_byte m s = Some (take m s, drop m s)" using Cons by simp
    then show ?thesis using Suc l by simp
  qed
qed

lemma high_byte_of_nat: "128 \<le> n \<Longrightarrow> n < 256 \<Longrightarrow> \<not> (word_of_nat n :: u8) < 128"
  by (simp add: word_less_nat_alt unat_of_nat)

lemma utf8_char_high: "\<not> c < 128 \<Longrightarrow> \<exists>b \<in> set (utf8_char c). \<not> b < 128"
proof -
  have "\<not> (word_of_nat (128 + c mod 64) :: u8) < 128" by (rule high_byte_of_nat) auto
  then show "\<not> c < 128 \<Longrightarrow> \<exists>b \<in> set (utf8_char c). \<not> b < 128"
    by (auto simp: utf8_char_def)
qed

lemma low_byte_of_nat: "c < 128 \<Longrightarrow> (word_of_nat c :: u8) < 128"
  by (simp add: word_less_nat_alt unat_of_nat)

lemma utf8_low_ascii: "\<forall>b \<in> set (utf8 s). b < 128 \<Longrightarrow> ascii s"
proof (induction s)
  case Nil
  then show ?case by simp
next
  case (Cons c s)
  then have "c < 128" using utf8_char_high [of c] by auto
  with Cons show ?case by simp
qed

lemma word_of_nat_inj_ascii:
  assumes "c < 128" and "d < 128" and "(word_of_nat c :: u8) = word_of_nat d"
  shows "c = d"
proof -
  have "unat (word_of_nat c :: u8) = unat (word_of_nat d :: u8)" using assms(3) by simp
  then show ?thesis using assms(1,2) unfolding unat_byte_of_nat by simp
qed

lemma utf8_inj_ascii:
  assumes "ascii t" and "utf8 s = utf8 t"
  shows "s = t"
proof -
  have "\<forall>b \<in> set (utf8 s). b < 128"
    using assms by (auto simp: utf8_ascii ascii_def low_byte_of_nat)
  then have s: "ascii s" by (rule utf8_low_ascii)
  with assms have "map (word_of_nat :: nat \<Rightarrow> u8) s = map word_of_nat t" by (simp add: utf8_ascii)
  moreover have "inj_on (word_of_nat :: nat \<Rightarrow> u8) (set s \<union> set t)"
    using s assms(1) by (intro inj_onI) (auto simp: ascii_def intro: word_of_nat_inj_ascii)
  ultimately show ?thesis using inj_on_map_eq_map by blast
qed

text \<open>Trimming never removes a character the filter would keep.\<close>

lemma white_not_kept:
  "c < 128 \<Longrightarrow> is_whitespace X c \<Longrightarrow> filter (is_alphanumeric X) (char_upper X c) = []"
proof -
  assume "c < 128" "is_whitespace X c"
  then have "c \<le> 32" by (auto simp: is_whitespace_def)
  then show ?thesis by (simp add: char_upper_def is_alphanumeric_def)
qed

lemma filter_upper_dropWhile_white:
  "ascii s \<Longrightarrow> filter (is_alphanumeric X) (to_uppercase X (dropWhile (is_whitespace X) s)) =
    filter (is_alphanumeric X) (to_uppercase X s)"
  by (induction s) (simp_all add: to_uppercase_def white_not_kept)

lemma filter_upper_rev:
  "ascii s \<Longrightarrow> filter (is_alphanumeric X) (to_uppercase X (rev s)) =
    rev (filter (is_alphanumeric X) (to_uppercase X s))"
  by (induction s) (auto simp: to_uppercase_def char_upper_def)

lemma ascii_dropWhile: "ascii s \<Longrightarrow> ascii (dropWhile P s)"
  by (auto simp: ascii_def dest: set_dropWhileD)

lemma ascii_rev [simp]: "ascii (rev s) \<longleftrightarrow> ascii s"
  by (simp add: ascii_def)

abbreviation clean_code :: "ext \<Rightarrow> ustr \<Rightarrow> ustr" where
  "clean_code X s \<equiv> filter (is_alphanumeric X) (to_uppercase X s)"

lemma clean_code_trim: "ascii s \<Longrightarrow> clean_code X (trim X s) = clean_code X s"
proof -
  assume a: "ascii s"
  let ?d = "dropWhile (is_whitespace X)"
  have "clean_code X (rev (?d (rev (?d s)))) = rev (clean_code X (?d (rev (?d s))))"
    using a by (simp add: filter_upper_rev ascii_dropWhile)
  also have "\<dots> = rev (clean_code X (rev (?d s)))"
    using a by (simp add: filter_upper_dropWhile_white ascii_dropWhile)
  also have "\<dots> = clean_code X s"
    using a by (simp add: filter_upper_rev filter_upper_dropWhile_white ascii_dropWhile)
  finally show ?thesis by (simp add: trim_def)
qed

lemma ascii_clean_code: "ascii s \<Longrightarrow> ascii (clean_code X s)"
  by (auto simp: ascii_def to_uppercase_def char_upper_def split: if_splits)

lemma normalize_challenge_ascii:
  assumes "ascii s"
  shows "normalize_challenge X s = Some
    (if length (clean_code X s) = 8
     then take 4 (clean_code X s) @ [45] @ drop 4 (clean_code X s) else clean_code X s)"
  using assms ascii_clean_code [of s X]
  by (simp add: normalize_challenge_def Let_def clean_code_trim utf8_ascii split_at_byte_ascii)

lemma alphabet_chars: "\<forall>c \<in> set CHALLENGE_ALPHABET. c < 128 \<and> (50 \<le> c \<and> c \<le> 57 \<or> 65 \<le> c \<and> c \<le> 90)"
  by (simp add: CHALLENGE_ALPHABET_def)

lemma length_alphabet: "length CHALLENGE_ALPHABET = 31"
  by (simp add: CHALLENGE_ALPHABET_def)

lemma clean_code_alphabet: "set raw \<subseteq> set CHALLENGE_ALPHABET \<Longrightarrow> clean_code X raw = raw"
proof (induction raw)
  case Nil
  then show ?case by (simp add: to_uppercase_def)
next
  case (Cons c raw)
  then have "c < 128 \<and> (50 \<le> c \<and> c \<le> 57 \<or> 65 \<le> c \<and> c \<le> 90)" using alphabet_chars by auto
  with Cons show ?case by (auto simp: to_uppercase_def char_upper_def is_alphanumeric_def)
qed

lemma generated_code:
  assumes "length idxs = 8" and "\<forall>i \<in> set idxs. i < 31" and "generate_challenge X idxs = (code, h)"
  obtains raw where "set raw \<subseteq> set CHALLENGE_ALPHABET" and "length raw = 8"
    and "code = take 4 raw @ [45] @ drop 4 raw" and "h = blake3 X (utf8 code)" and "ascii code"
    and "clean_code X code = raw"
proof -
  let ?raw = "map (\<lambda>i. CHALLENGE_ALPHABET ! i) idxs"
  have s: "set ?raw \<subseteq> set CHALLENGE_ALPHABET"
    using assms(2) by (auto simp: length_alphabet intro: nth_mem)
  have sub: "set (take 4 ?raw) \<subseteq> set CHALLENGE_ALPHABET" "set (drop 4 ?raw) \<subseteq> set CHALLENGE_ALPHABET"
    using s set_take_subset [of 4 ?raw] set_drop_subset [of 4 ?raw] by blast+
  have code: "code = take 4 ?raw @ [45] @ drop 4 ?raw" and h: "h = blake3 X (utf8 code)"
    using assms(3) by (auto simp: generate_challenge_def Let_def)
  have asc: "ascii t" if "set t \<subseteq> set CHALLENGE_ALPHABET" for t
    using that alphabet_chars unfolding ascii_def by blast
  have hyphen: "clean_code X [45] = []"
    by (simp add: to_uppercase_def char_upper_def is_alphanumeric_def)
  have "clean_code X code = clean_code X (take 4 ?raw) @ clean_code X [45] @ clean_code X (drop 4 ?raw)"
    by (simp add: code to_uppercase_def)
  also have "\<dots> = take 4 ?raw @ drop 4 ?raw"
    using clean_code_alphabet [OF sub(1)] clean_code_alphabet [OF sub(2)] hyphen by (simp only: append_Nil)
  finally have "clean_code X code = ?raw" by (simp only: append_take_drop_id)
  moreover have "ascii code" using asc [OF sub(1)] asc [OF sub(2)] by (simp add: code)
  ultimately show ?thesis using that [OF s _ code h] assms(1) by simp
qed

lemma clean_code_no_hyphen: "45 \<notin> set (clean_code X s)"
  by (simp add: is_alphanumeric_def)

text \<open>
  A typed code is accepted exactly when it spells the generated code up to letter case, spaces
  and punctuation: every such ASCII spelling verifies against the stored hash, and any other ASCII
  input is refused unless it exhibits a second preimage of the stored hash.
\<close>

theorem challenge_verify_iff:
  assumes idxs: "length idxs = 8" "\<forall>i \<in> set idxs. i < 31"
    and gen: "generate_challenge X idxs = (code, h)" and typed: "ascii typed"
  shows "(clean_code X typed = clean_code X code \<longrightarrow> verify_challenge X typed h = Some True) \<and>
    (clean_code X typed \<noteq> clean_code X code \<longrightarrow> (\<forall>m. blake3 X m = h \<longrightarrow> m = utf8 code) \<longrightarrow>
       verify_challenge X typed h = Some False)"
proof -
  obtain raw where raw: "length raw = 8" and code: "code = take 4 raw @ [45] @ drop 4 raw"
    and h: "h = blake3 X (utf8 code)" and asc: "ascii code" and clean: "clean_code X code = raw"
    using generated_code [OF idxs gen] by metis
  obtain n where n: "normalize_challenge X typed = Some n" by (simp add: normalize_challenge_ascii [OF typed])
  have same: "clean_code X typed = raw \<Longrightarrow> n = code"
    using n raw by (simp add: normalize_challenge_ascii [OF typed] code)
  have "n = code \<Longrightarrow> clean_code X typed = raw"
  proof -
    assume nc: "n = code"
    have "length (clean_code X typed) = 8"
    proof (rule ccontr)
      assume "length (clean_code X typed) \<noteq> 8"
      then have "code = clean_code X typed" using n nc by (simp add: normalize_challenge_ascii [OF typed])
      moreover have "45 \<in> set code" by (simp add: code)
      ultimately show False using clean_code_no_hyphen [of X typed] by simp
    qed
    then have "take 4 (clean_code X typed) @ [45] @ drop 4 (clean_code X typed) = take 4 raw @ [45] @ drop 4 raw"
      using n nc by (simp add: normalize_challenge_ascii [OF typed] code)
    then have "take 4 (clean_code X typed) = take 4 raw \<and> drop 4 (clean_code X typed) = drop 4 raw"
      using raw \<open>length (clean_code X typed) = 8\<close> by (simp add: append_eq_append_conv)
    then show ?thesis by (metis append_take_drop_id)
  qed
  then have differ: "clean_code X typed \<noteq> raw \<Longrightarrow> utf8 n \<noteq> utf8 code"
    using utf8_inj_ascii [OF asc] by blast
  show ?thesis using same differ n by (auto simp: verify_challenge_def h clean)
qed

text \<open>A stand-in for the parameters, used by the witnesses: the identity as hash, ASCII only.\<close>

definition demo_ext :: ext where
  "demo_ext = \<lparr>blake3 = id, uc_upper = (\<lambda>c. [c]), uc_alnum = (\<lambda>c. 192 \<le> c), uc_white = (\<lambda>_. False),
     hex_encode = map (\<lambda>b. char_of (unat b))\<rparr>"

text \<open>The lower-case spelling \<open>2345 6789\<close> of the code drawn by the indices 0 to 7.\<close>

theorem challenge_verify_iff_witness:
  "verify_challenge demo_ext [32, 50, 51, 52, 53, 32, 54, 55, 56, 57]
     (snd (generate_challenge demo_ext [0, 1, 2, 3, 4, 5, 6, 7])) = Some True"
proof -
  let ?g = "generate_challenge demo_ext [0, 1, 2, 3, 4, 5, 6, 7]"
  have code: "fst ?g = [50, 51, 52, 53, 45, 54, 55, 56, 57]" by code_simp
  have "clean_code demo_ext [32, 50, 51, 52, 53, 32, 54, 55, 56, 57] =
      clean_code demo_ext [50, 51, 52, 53, 45, 54, 55, 56, 57]" by code_simp
  then show ?thesis
    using challenge_verify_iff [of "[0, 1, 2, 3, 4, 5, 6, 7]" demo_ext "fst ?g" "snd ?g"
        "[32, 50, 51, 52, 53, 32, 54, 55, 56, 57]"] code by simp
qed

text \<open>
  Verification is total on ASCII input, but an input whose cleaned form has eight bytes with a
  two-byte character across byte four (here \<open>AAAEAAA\<close> with an acute E, U+00C9) panics: the slice
  of the cleaned string cuts through the character.
\<close>

theorem verify_challenge_panic:
  "(\<forall>s. ascii s \<longrightarrow> verify_challenge X s h \<noteq> None) \<and>
   (uc_alnum X 201 \<and> uc_white X 201 = False \<and> uc_upper X 201 = [201] \<longrightarrow>
      verify_challenge X [65, 65, 65, 201, 65, 65, 65] h = None)"
proof (intro conjI allI impI)
  fix s assume "ascii s"
  then show "verify_challenge X s h \<noteq> None"
    by (simp add: verify_challenge_def normalize_challenge_ascii)
next
  assume u: "uc_alnum X 201 \<and> uc_white X 201 = False \<and> uc_upper X 201 = [201]"
  have "trim X [65, 65, 65, 201, 65, 65, 65] = [65, 65, 65, 201, 65, 65, 65]"
    by (simp add: trim_def is_whitespace_def)
  moreover have "clean_code X [65, 65, 65, 201, 65, 65, 65] = [65, 65, 65, 201, 65, 65, 65]"
    using u by (simp add: to_uppercase_def char_upper_def is_alphanumeric_def)
  ultimately show "verify_challenge X [65, 65, 65, 201, 65, 65, 65] h = None"
    by (simp add: verify_challenge_def normalize_challenge_def utf8_char_def)
qed

theorem verify_challenge_panic_witness:
  "verify_challenge demo_ext [65, 65, 65, 201, 65, 65, 65] [] = None \<and>
   verify_challenge demo_ext [65] [] \<noteq> None"
  using verify_challenge_panic [of demo_ext "[]"] by (simp add: demo_ext_def)

theorem normalize_received_retention_spec_witness:
  "normalize_received_retention
     \<lparr>envelope_id = [], version = 1, sender_pubkey = [], recipient_pubkey = [], ephemeral_pubkey = [],
      encrypted_payload = [], payload_nonce = [], password_salt = [], expires_at = 5, created_at = 9,
      env_state = Pending, challenge_hash = None, password_attempts_remaining = 3,
      challenge_attempts_remaining = 3, challenge_expires_at = 0, retention_secs = 0\<rparr> 7
   = Inl EndsBeforeItStarts"
  by (rule normalize_received_retention_spec [THEN conjunct1, THEN mp]) simp

end
