(* ===== verification/Directed_State.thy ===== *)
theory Directed_State
  imports Directed_Envelope
begin

text \<open>
  The recipient and sender records of a directed share as explicit state machines, from
  \<^verbatim>\<open>crates/miasma-core/src/directed/state.rs\<close> (data, construction, migration) and
  \<^verbatim>\<open>state_step.rs\<close> (the two transition functions). A step returns the record after the call
  together with \<open>Inl\<close> of the error or \<open>Inr\<close> of the effects, so that what an error leaves behind is
  part of the model. \<open>Panicked\<close> is the unwinding of the slice panic of the challenge check.
\<close>

section \<open>Records\<close>

datatype protection = V2 | LegacyV1

record invite_ext_v2 =
  credential :: bytes

record mono_deadline =
  issued_mono_ms :: u64
  ttl_ms :: u64
  wall_expires_at :: u64

definition mono_is_expired :: "mono_deadline \<Rightarrow> u64 \<Rightarrow> bool" where
  "mono_is_expired d now_mono_ms =
     (case checked_sub now_mono_ms (issued_mono_ms d) of
        Some elapsed \<Rightarrow> ttl_ms d \<le> elapsed
      | None \<Rightarrow> False)"

record challenge_local =
  cl_hash :: bytes
  cl_attempts_remaining :: u8
  cl_expires :: mono_deadline

record incoming_local =
  il_state :: envelope_state
  il_challenge :: "challenge_local option"
  il_password_attempts_remaining :: u8
  il_password_attempt_pending :: bool
  il_received_at :: u64
  il_effective_expires_at :: u64
  il_sender_peer_id :: string
  il_protection :: protection
  il_transcript_hash :: "bytes option"
  il_r_eph_secret :: "bytes option"

text \<open>\<open>clear_r_eph\<close> overwrites the secret and drops it; what remains is \<open>None\<close>.\<close>

definition clear_r_eph :: "incoming_local \<Rightarrow> incoming_local" where
  "clear_r_eph l = l\<lparr>il_r_eph_secret := None\<rparr>"

record now =
  wall_secs :: u64
  mono_ms :: u64

datatype incoming_event =
    Confirm ustr | PasswordAttemptStart | RetrievedOk | PasswordWrong | RetrievalNetworkFailure
  | SenderRevoke | RecipientDelete | ExpiryTick | ChallengeTimeout

record effects =
  fx_clear_challenge :: bool
  fx_clear_r_eph :: bool
  fx_reached_terminal :: bool
  fx_delete_file :: bool
  fx_no_write :: bool

definition no_effects :: effects where
  "no_effects = \<lparr>fx_clear_challenge = False, fx_clear_r_eph = False, fx_reached_terminal = False,
                 fx_delete_file = False, fx_no_write = False\<rparr>"

datatype step_error = Illegal | Panicked

record incoming_record =
  ir_wire :: directed_envelope
  ir_ext :: "invite_ext_v2 option"
  ir_local :: "incoming_local option"

datatype outgoing_phase =
    OFresh | OAwaitingRecipient | ODelivered | ODeliveredLegacy | OConfirmed | OExpired
  | OSenderRevoked | ODeliveryFailed | OChallengeFailed

fun phase_is_terminal :: "outgoing_phase \<Rightarrow> bool" where
  "phase_is_terminal OExpired = True"
| "phase_is_terminal OSenderRevoked = True"
| "phase_is_terminal ODeliveryFailed = True"
| "phase_is_terminal OChallengeFailed = True"
| "phase_is_terminal _ = False"

datatype outgoing_event =
    EvPublished | EvInviteStored | EvDeliveredLegacy | EvRetentionPassed | EvUserRevoke
  | EvDeliveryFailed | EvConfirmOk | EvConfirmWrong u8

record outgoing_record =
  or_wire :: directed_envelope
  or_phase :: outgoing_phase
  or_recipient_attempts_remaining :: "u8 option"

definition LEGACY_SENDER :: string where "LEGACY_SENDER = ''<legacy/unbound>''"

definition clamp_expiry :: "u64 \<Rightarrow> u64 \<Rightarrow> u64" where
  "clamp_expiry sender_expires_at received_wall_secs =
     min sender_expires_at (saturating_add received_wall_secs MAX_RETENTION_SECS)"

definition new_incoming ::
  "directed_envelope \<Rightarrow> invite_ext_v2 option \<Rightarrow> string \<Rightarrow> protection \<Rightarrow> challenge_local \<Rightarrow> u8 \<Rightarrow> bytes option
   \<Rightarrow> now \<Rightarrow> incoming_record" where
  "new_incoming wire ext sender_peer_id protection challenge attempts r_eph now =
     \<lparr>ir_wire = wire, ir_ext = ext,
      ir_local = Some
        \<lparr>il_state = ChallengeIssued, il_challenge = Some challenge,
         il_password_attempts_remaining = attempts, il_password_attempt_pending = False,
         il_received_at = wall_secs now,
         il_effective_expires_at = clamp_expiry (expires_at wire) (wall_secs now),
         il_sender_peer_id = sender_peer_id, il_protection = protection,
         il_transcript_hash = None, il_r_eph_secret = r_eph\<rparr>\<rparr>"

definition migrate_v1 ::
  "incoming_record \<Rightarrow> string option \<Rightarrow> challenge_local option \<Rightarrow> challenge_local option \<Rightarrow> now
   \<Rightarrow> incoming_record" where
  "migrate_v1 r sender_peer_id rebuilt_challenge existing_challenge now =
     (if ir_local r \<noteq> None then r
      else
        let file_state = env_state (ir_wire r);
            (state, challenge) =
              (if file_state = Pending then (ChallengeIssued, rebuilt_challenge)
               else (file_state, existing_challenge))
        in r\<lparr>ir_local := Some
              \<lparr>il_state = state, il_challenge = challenge,
               il_password_attempts_remaining = password_attempts_remaining (ir_wire r),
               il_password_attempt_pending = False,
               il_received_at = wall_secs now,
               il_effective_expires_at = clamp_expiry (expires_at (ir_wire r)) (wall_secs now),
               il_sender_peer_id = (case sender_peer_id of Some p \<Rightarrow> p | None \<Rightarrow> LEGACY_SENDER),
               il_protection = LegacyV1, il_transcript_hash = None, il_r_eph_secret = None\<rparr>\<rparr>)"

definition effective_state :: "incoming_record \<Rightarrow> envelope_state" where
  "effective_state r = (case ir_local r of Some l \<Rightarrow> il_state l | None \<Rightarrow> env_state (ir_wire r))"

section \<open>The recipient transition function\<close>

text \<open>The block that ends a record whose challenge failed, which the code repeats three times.\<close>

definition challenge_failed :: "incoming_local \<Rightarrow> incoming_local \<times> (step_error + effects)" where
  "challenge_failed l =
     (clear_r_eph (l\<lparr>il_state := ChallengeFailed, il_challenge := None\<rparr>),
      Inr (no_effects\<lparr>fx_clear_challenge := True, fx_clear_r_eph := True,
                      fx_reached_terminal := True, fx_delete_file := True\<rparr>))"

definition step_confirm ::
  "ext \<Rightarrow> incoming_local \<Rightarrow> ustr \<Rightarrow> now \<Rightarrow> incoming_local \<times> (step_error + effects)" where
  "step_confirm X l code n =
     (case il_challenge l of
        None \<Rightarrow> (l, Inl Illegal)
      | Some ch \<Rightarrow>
          if mono_is_expired (cl_expires ch) (mono_ms n) then challenge_failed l
          else (case verify_challenge X code (cl_hash ch) of
              None \<Rightarrow> (l, Inl Panicked)
            | Some True \<Rightarrow>
                (l\<lparr>il_state := Confirmed, il_challenge := None\<rparr>,
                 Inr (no_effects\<lparr>fx_clear_challenge := True\<rparr>))
            | Some False \<Rightarrow>
                if 1 < cl_attempts_remaining ch then
                  (l\<lparr>il_challenge := Some (ch\<lparr>cl_attempts_remaining := cl_attempts_remaining ch - 1\<rparr>)\<rparr>,
                   Inr no_effects)
                else challenge_failed l))"

text \<open>Return the pre-spent password try when one is outstanding.\<close>

definition give_back :: "incoming_local \<Rightarrow> incoming_local" where
  "give_back l =
     (if il_password_attempt_pending l
      then l\<lparr>il_password_attempts_remaining := saturating_add (il_password_attempts_remaining l) 1,
             il_password_attempt_pending := False\<rparr>
      else l)"

text \<open>The three endings that apply to any live record.\<close>

definition end_record :: "envelope_state \<Rightarrow> incoming_local \<Rightarrow> incoming_local \<times> (step_error + effects)" where
  "end_record s l =
     (clear_r_eph (l\<lparr>il_state := s, il_challenge := None\<rparr>),
      Inr (no_effects\<lparr>fx_clear_challenge := True, fx_clear_r_eph := True, fx_reached_terminal := True\<rparr>))"

definition step_expiry :: "incoming_local \<Rightarrow> now \<Rightarrow> incoming_local \<times> (step_error + effects)" where
  "step_expiry l n =
     (if wall_secs n < il_effective_expires_at l then (l, Inl Illegal) else end_record Expired l)"

definition step_password_start :: "incoming_local \<Rightarrow> incoming_local \<times> (step_error + effects)" where
  "step_password_start l =
     (if il_password_attempts_remaining l = 0 then (l, Inl Illegal)
      else (l\<lparr>il_password_attempts_remaining := il_password_attempts_remaining l - 1,
              il_password_attempt_pending := True\<rparr>, Inr no_effects))"

definition step_retrieved :: "incoming_local \<Rightarrow> incoming_local \<times> (step_error + effects)" where
  "step_retrieved l =
     (clear_r_eph ((give_back l)\<lparr>il_state := Retrieved\<rparr>),
      Inr (no_effects\<lparr>fx_clear_r_eph := True, fx_reached_terminal := True\<rparr>))"

definition step_password_wrong :: "incoming_local \<Rightarrow> incoming_local \<times> (step_error + effects)" where
  "step_password_wrong l =
     (let l = l\<lparr>il_password_attempt_pending := False\<rparr> in
      if il_password_attempts_remaining l = 0
      then (clear_r_eph (l\<lparr>il_state := PasswordFailed\<rparr>),
            Inr (no_effects\<lparr>fx_clear_r_eph := True, fx_reached_terminal := True\<rparr>))
      else (l, Inr no_effects))"

fun step_live ::
  "ext \<Rightarrow> envelope_state \<Rightarrow> incoming_event \<Rightarrow> now \<Rightarrow> incoming_local
   \<Rightarrow> incoming_local \<times> (step_error + effects)" where
  "step_live X ChallengeIssued (Confirm code) n l = step_confirm X l code n"
| "step_live X ChallengeIssued ChallengeTimeout n l = challenge_failed l"
| "step_live X Confirmed PasswordAttemptStart n l = step_password_start l"
| "step_live X Confirmed RetrievedOk n l = step_retrieved l"
| "step_live X Confirmed PasswordWrong n l = step_password_wrong l"
| "step_live X Confirmed RetrievalNetworkFailure n l = (give_back l, Inr no_effects)"
| "step_live X ChallengeIssued SenderRevoke n l = end_record SenderRevoked l"
| "step_live X Confirmed SenderRevoke n l = end_record SenderRevoked l"
| "step_live X ChallengeIssued RecipientDelete n l = end_record RecipientDeleted l"
| "step_live X Confirmed RecipientDelete n l = end_record RecipientDeleted l"
| "step_live X ChallengeIssued ExpiryTick n l = step_expiry l n"
| "step_live X Confirmed ExpiryTick n l = step_expiry l n"
| "step_live X _ _ n l = (l, Inl Illegal)"

definition step_local ::
  "ext \<Rightarrow> incoming_local \<Rightarrow> incoming_event \<Rightarrow> now \<Rightarrow> incoming_local \<times> (step_error + effects)" where
  "step_local X l e n =
     (if is_terminal (il_state l) then
        (if e = SenderRevoke \<and> il_state l = SenderRevoked
         then (l, Inr (no_effects\<lparr>fx_no_write := True\<rparr>))
         else (l, Inl Illegal))
      else step_live X (il_state l) e n l)"

definition step_incoming ::
  "ext \<Rightarrow> incoming_record \<Rightarrow> incoming_event \<Rightarrow> now \<Rightarrow> incoming_record \<times> (step_error + effects)" where
  "step_incoming X r e n =
     (case ir_local r of
        None \<Rightarrow> (r, Inl Illegal)
      | Some l \<Rightarrow> (let (l', res) = step_local X l e n in (r\<lparr>ir_local := Some l'\<rparr>, res)))"

section \<open>The sender transition function\<close>

fun phase_step :: "outgoing_phase \<Rightarrow> outgoing_event \<Rightarrow> (outgoing_phase \<times> effects) option" where
  "phase_step OFresh EvPublished = Some (OAwaitingRecipient, no_effects)"
| "phase_step OFresh EvInviteStored = Some (ODelivered, no_effects\<lparr>fx_clear_r_eph := True\<rparr>)"
| "phase_step OAwaitingRecipient EvInviteStored = Some (ODelivered, no_effects\<lparr>fx_clear_r_eph := True\<rparr>)"
| "phase_step OFresh EvDeliveredLegacy = Some (ODeliveredLegacy, no_effects\<lparr>fx_clear_r_eph := True\<rparr>)"
| "phase_step OAwaitingRecipient EvDeliveredLegacy =
     Some (ODeliveredLegacy, no_effects\<lparr>fx_clear_r_eph := True\<rparr>)"
| "phase_step OAwaitingRecipient EvRetentionPassed =
     Some (OExpired, no_effects\<lparr>fx_clear_r_eph := True, fx_reached_terminal := True\<rparr>)"
| "phase_step OAwaitingRecipient EvUserRevoke =
     Some (OSenderRevoked, no_effects\<lparr>fx_clear_r_eph := True, fx_reached_terminal := True\<rparr>)"
| "phase_step OFresh EvDeliveryFailed =
     Some (ODeliveryFailed, no_effects\<lparr>fx_clear_r_eph := True, fx_reached_terminal := True\<rparr>)"
| "phase_step OAwaitingRecipient EvDeliveryFailed =
     Some (ODeliveryFailed, no_effects\<lparr>fx_clear_r_eph := True, fx_reached_terminal := True\<rparr>)"
| "phase_step ODelivered EvConfirmOk = Some (OConfirmed, no_effects)"
| "phase_step ODeliveredLegacy EvConfirmOk = Some (OConfirmed, no_effects)"
| "phase_step ODelivered (EvConfirmWrong k) =
     (if k = 0 then Some (OChallengeFailed, no_effects\<lparr>fx_reached_terminal := True\<rparr>)
      else Some (ODelivered, no_effects))"
| "phase_step ODeliveredLegacy (EvConfirmWrong k) =
     (if k = 0 then Some (OChallengeFailed, no_effects\<lparr>fx_reached_terminal := True\<rparr>)
      else Some (ODeliveredLegacy, no_effects))"
| "phase_step ODelivered EvUserRevoke = Some (OSenderRevoked, no_effects\<lparr>fx_reached_terminal := True\<rparr>)"
| "phase_step OConfirmed EvUserRevoke = Some (OSenderRevoked, no_effects\<lparr>fx_reached_terminal := True\<rparr>)"
| "phase_step ODelivered EvRetentionPassed = Some (OExpired, no_effects\<lparr>fx_reached_terminal := True\<rparr>)"
| "phase_step OConfirmed EvRetentionPassed = Some (OExpired, no_effects\<lparr>fx_reached_terminal := True\<rparr>)"
| "phase_step _ _ = None"

definition step_outgoing ::
  "outgoing_record \<Rightarrow> outgoing_event \<Rightarrow> now \<Rightarrow> outgoing_record \<times> (step_error + effects)" where
  "step_outgoing r e n =
     (case phase_step (or_phase r) e of
        None \<Rightarrow> (r, Inl Illegal)
      | Some (p, fx) \<Rightarrow>
          (r\<lparr>or_phase := p,
             or_recipient_attempts_remaining :=
               (case e of EvConfirmWrong k \<Rightarrow> Some k | _ \<Rightarrow> or_recipient_attempts_remaining r)\<rparr>,
           Inr fx))"

section \<open>The transition table of the recipient\<close>

text \<open>
  The rows of the design's recipient table as a step relation: which events a live record accepts,
  under which conditions, what the record becomes and what the caller has to do with the write.
\<close>

abbreviation live :: "envelope_state \<Rightarrow> bool" where
  "live s \<equiv> s = ChallengeIssued \<or> s = Confirmed"

abbreviation fx_end :: effects where
  "fx_end \<equiv> no_effects\<lparr>fx_clear_challenge := True, fx_clear_r_eph := True, fx_reached_terminal := True\<rparr>"

inductive row :: "ext \<Rightarrow> incoming_local \<Rightarrow> incoming_event \<Rightarrow> now \<Rightarrow> incoming_local \<Rightarrow> effects \<Rightarrow> bool"
  for X where
  confirm_late:
    "il_state l = ChallengeIssued \<Longrightarrow> il_challenge l = Some ch \<Longrightarrow> mono_is_expired (cl_expires ch) (mono_ms n)
     \<Longrightarrow> row X l (Confirm code) n
           (l\<lparr>il_state := ChallengeFailed, il_challenge := None, il_r_eph_secret := None\<rparr>)
           (fx_end\<lparr>fx_delete_file := True\<rparr>)"
| confirm_ok:
    "il_state l = ChallengeIssued \<Longrightarrow> il_challenge l = Some ch \<Longrightarrow> \<not> mono_is_expired (cl_expires ch) (mono_ms n)
     \<Longrightarrow> verify_challenge X code (cl_hash ch) = Some True
     \<Longrightarrow> row X l (Confirm code) n (l\<lparr>il_state := Confirmed, il_challenge := None\<rparr>)
           (no_effects\<lparr>fx_clear_challenge := True\<rparr>)"
| confirm_wrong:
    "il_state l = ChallengeIssued \<Longrightarrow> il_challenge l = Some ch \<Longrightarrow> \<not> mono_is_expired (cl_expires ch) (mono_ms n)
     \<Longrightarrow> verify_challenge X code (cl_hash ch) = Some False \<Longrightarrow> 1 < cl_attempts_remaining ch
     \<Longrightarrow> row X l (Confirm code) n
           (l\<lparr>il_challenge := Some (ch\<lparr>cl_attempts_remaining := cl_attempts_remaining ch - 1\<rparr>)\<rparr>) no_effects"
| confirm_last:
    "il_state l = ChallengeIssued \<Longrightarrow> il_challenge l = Some ch \<Longrightarrow> \<not> mono_is_expired (cl_expires ch) (mono_ms n)
     \<Longrightarrow> verify_challenge X code (cl_hash ch) = Some False \<Longrightarrow> cl_attempts_remaining ch \<le> 1
     \<Longrightarrow> row X l (Confirm code) n
           (l\<lparr>il_state := ChallengeFailed, il_challenge := None, il_r_eph_secret := None\<rparr>)
           (fx_end\<lparr>fx_delete_file := True\<rparr>)"
| timeout:
    "il_state l = ChallengeIssued
     \<Longrightarrow> row X l ChallengeTimeout n
           (l\<lparr>il_state := ChallengeFailed, il_challenge := None, il_r_eph_secret := None\<rparr>)
           (fx_end\<lparr>fx_delete_file := True\<rparr>)"
| password_start:
    "il_state l = Confirmed \<Longrightarrow> il_password_attempts_remaining l \<noteq> 0
     \<Longrightarrow> row X l PasswordAttemptStart n
           (l\<lparr>il_password_attempts_remaining := il_password_attempts_remaining l - 1,
              il_password_attempt_pending := True\<rparr>) no_effects"
| retrieved:
    "il_state l = Confirmed
     \<Longrightarrow> row X l RetrievedOk n ((give_back l)\<lparr>il_state := Retrieved, il_r_eph_secret := None\<rparr>)
           (no_effects\<lparr>fx_clear_r_eph := True, fx_reached_terminal := True\<rparr>)"
| password_wrong:
    "il_state l = Confirmed \<Longrightarrow> il_password_attempts_remaining l \<noteq> 0
     \<Longrightarrow> row X l PasswordWrong n (l\<lparr>il_password_attempt_pending := False\<rparr>) no_effects"
| password_last:
    "il_state l = Confirmed \<Longrightarrow> il_password_attempts_remaining l = 0
     \<Longrightarrow> row X l PasswordWrong n
           (l\<lparr>il_password_attempt_pending := False, il_state := PasswordFailed, il_r_eph_secret := None\<rparr>)
           (no_effects\<lparr>fx_clear_r_eph := True, fx_reached_terminal := True\<rparr>)"
| network_failure:
    "il_state l = Confirmed \<Longrightarrow> row X l RetrievalNetworkFailure n (give_back l) no_effects"
| revoke:
    "live (il_state l)
     \<Longrightarrow> row X l SenderRevoke n
           (l\<lparr>il_state := SenderRevoked, il_challenge := None, il_r_eph_secret := None\<rparr>) fx_end"
| recipient_delete:
    "live (il_state l)
     \<Longrightarrow> row X l RecipientDelete n
           (l\<lparr>il_state := RecipientDeleted, il_challenge := None, il_r_eph_secret := None\<rparr>) fx_end"
| expire:
    "live (il_state l) \<Longrightarrow> il_effective_expires_at l \<le> wall_secs n
     \<Longrightarrow> row X l ExpiryTick n
           (l\<lparr>il_state := Expired, il_challenge := None, il_r_eph_secret := None\<rparr>) fx_end"
| revoke_replay:
    "il_state l = SenderRevoked \<Longrightarrow> row X l SenderRevoke n l (no_effects\<lparr>fx_no_write := True\<rparr>)"

lemmas step_parts =
  step_confirm_def challenge_failed_def step_expiry_def end_record_def step_password_start_def
  step_retrieved_def step_password_wrong_def clear_r_eph_def Let_def

lemma terminal_not_live: "is_terminal s \<longleftrightarrow> \<not> live s \<and> s \<noteq> Pending"
  by (cases s) simp_all

lemma live_row:
  assumes "step_live X (il_state l) e n l = (l', Inr fx)"
  shows "row X l e n l' fx"
  using assms
  by (cases "(X, il_state l, e, n, l)" rule: step_live.cases)
    (auto simp: step_parts not_less split: option.splits bool.splits if_splits
      intro: row.intros simp del: One_nat_def)

lemma step_local_row: "step_local X l e n = (l', Inr fx) \<Longrightarrow> row X l e n l' fx"
  by (auto simp: step_local_def intro: row.revoke_replay live_row split: if_splits)

lemma row_step_local: "row X l e n l' fx \<Longrightarrow> step_local X l e n = (l', Inr fx)"
  by (induction rule: row.induct) (auto simp: step_local_def step_parts)

lemma step_local_table: "step_local X l e n = (l', Inr fx) \<longleftrightarrow> row X l e n l' fx"
  using step_local_row row_step_local by blast

lemma step_live_error: "step_live X s e n l = (l', Inl err) \<Longrightarrow> l' = l"
  by (cases "(X, s, e, n, l)" rule: step_live.cases)
    (auto simp: step_parts split: option.splits bool.splits if_splits)

lemma step_local_error: "step_local X l e n = (l', Inl err) \<Longrightarrow> l' = l"
  by (auto simp: step_local_def dest: step_live_error split: if_splits)

section \<open>Runs of a recipient record\<close>

text \<open>A run applies events with their clock readings in order; the results are dropped.\<close>

definition istep :: "ext \<Rightarrow> incoming_record \<Rightarrow> incoming_event \<times> now \<Rightarrow> incoming_record" where
  "istep X r ev = fst (step_incoming X r (fst ev) (snd ev))"

definition local_ok :: "(incoming_local \<Rightarrow> bool) \<Rightarrow> incoming_record \<Rightarrow> bool" where
  "local_ok P r = (case ir_local r of None \<Rightarrow> False | Some l \<Rightarrow> P l)"

lemma step_incoming_Some:
  "ir_local r = Some l \<Longrightarrow>
     step_incoming X r e n = (r\<lparr>ir_local := Some (fst (step_local X l e n))\<rparr>, snd (step_local X l e n))"
  by (simp add: step_incoming_def split_beta)

lemma local_upd_idle: "ir_local r = Some l \<Longrightarrow> r\<lparr>ir_local := Some l\<rparr> = r"
  by (cases r) simp

lemma step_incoming_error: "step_incoming X r e n = (r', Inl err) \<Longrightarrow> r' = r"
  by (cases "ir_local r"; cases "step_local X (the (ir_local r)) e n")
    (auto simp: step_incoming_def local_upd_idle dest: step_local_error)

lemma step_incoming_row:
  "step_incoming X r e n = (r', Inr fx) \<longleftrightarrow>
     (\<exists>l l'. ir_local r = Some l \<and> row X l e n l' fx \<and> r' = r\<lparr>ir_local := Some l'\<rparr>)"
  by (cases "ir_local r"; cases "step_local X (the (ir_local r)) e n")
    (auto simp: step_incoming_def simp flip: step_local_table)

lemma istep_cases:
  obtains (same) "istep X r (e, n) = r"
  | (row) l l' fx where "ir_local r = Some l" "row X l e n l' fx" "istep X r (e, n) = r\<lparr>ir_local := Some l'\<rparr>"
proof (cases "step_incoming X r e n")
  case (Pair r' res)
  show thesis
  proof (cases res)
    case (Inl err)
    with Pair same show thesis by (auto simp: istep_def dest: step_incoming_error)
  next
    case (Inr fx)
    with Pair obtain l l' where "ir_local r = Some l" "row X l e n l' fx" "r' = r\<lparr>ir_local := Some l'\<rparr>"
      by (auto simp: step_incoming_row)
    with Pair show thesis by (intro row) (simp_all add: istep_def)
  qed
qed

lemma local_ok_istep:
  assumes "local_ok P r" and "\<And>l e n l' fx. P l \<Longrightarrow> row X l e n l' fx \<Longrightarrow> P l'"
  shows "local_ok P (istep X r ev)"
proof (cases ev)
  case (Pair e n)
  show ?thesis
    unfolding Pair by (cases rule: istep_cases [of X r e n]) (use assms in \<open>auto simp: local_ok_def\<close>)
qed

text \<open>
  The record invariant: a challenge is kept exactly while one is outstanding, an ended record holds
  no ephemeral secret, outstanding and remaining password tries together never exceed the allowance,
  and the expiry the node enforces never moves.
\<close>

definition tidy :: "nat \<Rightarrow> u64 \<Rightarrow> incoming_local \<Rightarrow> bool" where
  "tidy b x l \<longleftrightarrow>
     il_state l \<noteq> Pending \<and> (il_challenge l \<noteq> None \<longleftrightarrow> il_state l = ChallengeIssued) \<and>
     (is_terminal (il_state l) \<longrightarrow> il_r_eph_secret l = None) \<and>
     unat (il_password_attempts_remaining l) + of_bool (il_password_attempt_pending l) \<le> b \<and>
     il_effective_expires_at l = x"

lemma give_back_tidy: "tidy b x l \<Longrightarrow> tidy b x (give_back l)"
  by (auto simp: tidy_def give_back_def unat_saturating_add)

lemma tidy_ended:
  "tidy b x l \<Longrightarrow> is_terminal s \<Longrightarrow> tidy b x (l\<lparr>il_state := s, il_challenge := None, il_r_eph_secret := None\<rparr>)"
  by (cases s) (auto simp: tidy_def)

lemma unat_pred_plus_one: "(w :: 'a :: len word) \<noteq> 0 \<Longrightarrow> Suc (unat (w - 1)) = unat w"
  using unat_minus_one [of w] unat_gt_0 [of w] by linarith

lemma row_tidy: "row X l e n l' fx \<Longrightarrow> tidy b x l \<Longrightarrow> tidy b x l'"
proof (induction rule: row.induct)
  case (retrieved l n)
  then show ?case using give_back_tidy [of b x l] by (auto simp: tidy_def give_back_def)
qed (auto simp: tidy_ended give_back_tidy, auto simp: tidy_def unat_pred_plus_one)

interpretation inc: terminal_machine "istep X" "local_ok (tidy b x)" "\<lambda>r. is_terminal (effective_state r)"
  for X b x
proof
  show "local_ok (tidy b x) (istep X r ev)" if "local_ok (tidy b x) r" for r ev
    using that by (rule local_ok_istep) (rule row_tidy)
next
  show "istep X r ev = r" if "local_ok (tidy b x) r" "is_terminal (effective_state r)" for r ev
    using that
    by (cases "ir_local r") (auto simp: local_ok_def istep_def effective_state_def step_incoming_def
        step_local_def local_upd_idle)
qed

lemma new_incoming_tidy:
  "local_ok (tidy (unat att) (clamp_expiry (expires_at w) (wall_secs n0)))
     (new_incoming w xt peer prot ch att re n0)"
  by (simp add: local_ok_def tidy_def new_incoming_def)

lemmas fresh_run = inc.inv_run [OF new_incoming_tidy]

section \<open>Budgets\<close>

text \<open>How many codes are compared with the stored hash, and the tries that pay for them.\<close>

definition codes_compared :: "ext \<Rightarrow> incoming_record \<Rightarrow> incoming_event \<times> now \<Rightarrow> nat" where
  "codes_compared X r ev =
     (case (ir_local r, fst ev) of
        (Some l, Confirm code) \<Rightarrow>
          (case il_challenge l of
             Some ch \<Rightarrow> of_bool (il_state l = ChallengeIssued \<and>
               \<not> mono_is_expired (cl_expires ch) (mono_ms (snd ev)) \<and>
               verify_challenge X code (cl_hash ch) \<noteq> None)
           | None \<Rightarrow> 0)
      | _ \<Rightarrow> 0)"

definition challenge_tries :: "incoming_local \<Rightarrow> nat" where
  "challenge_tries l = (case il_challenge l of None \<Rightarrow> 0 | Some ch \<Rightarrow> max 1 (unat (cl_attempts_remaining ch)))"

definition tries_of :: "incoming_record \<Rightarrow> nat" where
  "tries_of r = (case ir_local r of None \<Rightarrow> 0 | Some l \<Rightarrow> challenge_tries l)"

text \<open>A password attempt begins; an outstanding attempt is handed back.\<close>

definition password_started :: "ext \<Rightarrow> incoming_record \<Rightarrow> incoming_event \<times> now \<Rightarrow> nat" where
  "password_started X r ev =
     of_bool (fst ev = PasswordAttemptStart \<and> (\<exists>fx. snd (step_incoming X r (fst ev) (snd ev)) = Inr fx))"

definition password_returned :: "incoming_record \<Rightarrow> incoming_event \<times> now \<Rightarrow> nat" where
  "password_returned r ev =
     of_bool (fst ev \<in> {RetrievedOk, RetrievalNetworkFailure} \<and>
       (\<exists>l. ir_local r = Some l \<and> il_state l = Confirmed \<and> il_password_attempt_pending l))"

definition password_left :: "incoming_record \<Rightarrow> nat" where
  "password_left r = (case ir_local r of None \<Rightarrow> 0 | Some l \<Rightarrow> unat (il_password_attempts_remaining l))"

lemma give_back_challenge [simp]: "il_challenge (give_back l) = il_challenge l"
  by (simp add: give_back_def)

lemma one_less_unat: "(1 :: u8) < w \<longleftrightarrow> 1 < unat w"
  by (simp add: word_less_nat_alt)

lemma unat_pred_gt1: "Suc 0 < unat w \<Longrightarrow> unat (w - 1) = unat w - 1" for w :: u8
  using unat_minus_one [of w] by fastforce

lemma row_challenge_tries: "row X l e n l' fx \<Longrightarrow> challenge_tries l' \<le> challenge_tries l"
  by (induction rule: row.induct)
    (auto simp: challenge_tries_def one_less_unat unat_pred_gt1 split: option.splits)

lemma row_compare_costs:
  assumes "il_challenge l = Some ch" and "row X l (Confirm code) n l' fx"
    and "\<not> mono_is_expired (cl_expires ch) (mono_ms n)"
  shows "challenge_tries l' + 1 \<le> challenge_tries l"
  using assms(2,1,3)
proof (cases rule: row.cases)
  case (confirm_wrong c)
  with assms have "1 < unat (cl_attempts_remaining ch)" by (simp add: one_less_unat)
  then show ?thesis using confirm_wrong assms by (auto simp: challenge_tries_def unat_pred_gt1)
qed (auto simp: challenge_tries_def)

lemma compare_accepted:
  assumes "il_state l = ChallengeIssued" and "il_challenge l = Some ch"
    and "verify_challenge X code (cl_hash ch) = Some v"
  obtains l' fx where "row X l (Confirm code) n l' fx"
proof -
  have "\<exists>l' fx. step_local X l (Confirm code) n = (l', Inr fx)"
    using assms by (cases v) (auto simp: step_local_def step_parts)
  with that show thesis by (auto simp: step_local_table)
qed

lemma tries_of_istep: "tries_of (istep X r ev) + codes_compared X r ev \<le> tries_of r"
proof (cases ev)
  case [simp]: (Pair e n)
  show ?thesis
  proof (cases "codes_compared X r ev = 0")
    case True
    then show ?thesis
      unfolding Pair by (cases rule: istep_cases [of X r e n]) (auto simp: tries_of_def dest: row_challenge_tries)
  next
    case False
    then obtain l ch code v where *: "ir_local r = Some l" "e = Confirm code" "il_challenge l = Some ch"
        "il_state l = ChallengeIssued" "\<not> mono_is_expired (cl_expires ch) (mono_ms n)"
        "verify_challenge X code (cl_hash ch) = Some v"
      by (auto simp: codes_compared_def split: option.splits incoming_event.splits)
    then obtain l' fx where row: "row X l (Confirm code) n l' fx" by (elim compare_accepted)
    then have "istep X r ev = r\<lparr>ir_local := Some l'\<rparr>"
      using * by (simp add: istep_def step_incoming_Some row_step_local)
    then show ?thesis
      using row_compare_costs [OF *(3) row *(5)] * by (simp add: tries_of_def codes_compared_def)
  qed
qed

interpretation codes: budget_machine "istep X" "\<lambda>_. True" tries_of "codes_compared X" "\<lambda>_ _. 0"
  for X
  by unfold_locales (simp_all add: tries_of_istep)

lemma run_sum_zero [simp]: "run_sum st (\<lambda>_ _. 0) s es = 0"
  by (induction es arbitrary: s) simp_all

lemma row_password_left:
  "row X l e n l' fx \<Longrightarrow>
     unat (il_password_attempts_remaining l') + of_bool (e = PasswordAttemptStart)
     \<le> unat (il_password_attempts_remaining l) +
         of_bool (e \<in> {RetrievedOk, RetrievalNetworkFailure} \<and> il_state l = Confirmed \<and> il_password_attempt_pending l)"
  by (induction rule: row.induct) (auto simp: unat_pred_plus_one give_back_def unat_saturating_add)

lemma password_istep:
  "password_left (istep X r ev) + password_started X r ev \<le> password_left r + password_returned r ev"
proof (cases ev)
  case [simp]: (Pair e n)
  show ?thesis
  proof (cases "step_incoming X r e n")
    case (Pair r' res)
    show ?thesis
    proof (cases res)
      case (Inl err)
      with Pair step_incoming_error [of X r e n r' err] show ?thesis
        by (simp add: istep_def password_started_def)
    next
      case (Inr fx)
      with Pair obtain l l' where "ir_local r = Some l" "row X l e n l' fx" "r' = r\<lparr>ir_local := Some l'\<rparr>"
        by (auto simp: step_incoming_row)
      with Pair Inr row_password_left [of X l e n l' fx] show ?thesis
        by (simp add: istep_def password_started_def password_returned_def password_left_def)
    qed
  qed
qed

interpretation passwords: budget_machine "istep X" "\<lambda>_. True" password_left "password_started X" password_returned
  for X
  by unfold_locales (simp_all add: password_istep)

section \<open>What a recipient record promises\<close>

definition demo_env :: directed_envelope where
  "demo_env =
     \<lparr>envelope_id = [7], version = 1, sender_pubkey = [], recipient_pubkey = [], ephemeral_pubkey = [],
      encrypted_payload = [], payload_nonce = [], password_salt = [], expires_at = 5000, created_at = 1000,
      env_state = Pending, challenge_hash = None, password_attempts_remaining = 3,
      challenge_attempts_remaining = 3, challenge_expires_at = 0, retention_secs = 4000\<rparr>"

definition demo_challenge :: challenge_local where
  "demo_challenge =
     \<lparr>cl_hash = utf8 [50, 51, 52, 53, 45, 54, 55, 56, 57], cl_attempts_remaining = 3,
      cl_expires = \<lparr>issued_mono_ms = 100, ttl_ms = 300000, wall_expires_at = 1300\<rparr>\<rparr>"

definition demo_now :: now where "demo_now = \<lparr>wall_secs = 1000, mono_ms = 200\<rparr>"

definition demo_incoming :: incoming_record where
  "demo_incoming = new_incoming demo_env None ''p'' V2 demo_challenge 3 (Some [9]) demo_now"

definition demo_code :: ustr where "demo_code = [50, 51, 52, 53, 54, 55, 56, 57]"

lemmas demo_defs = demo_env_def demo_challenge_def demo_now_def demo_incoming_def demo_code_def new_incoming_def

text \<open>
  \<open>IncomingRecord::step\<close> implements the design's recipient table. It succeeds with some effects
  exactly when a row of the table applies to the local part, the wire part and the extension are
  never touched, and every failing call leaves the record as it was.
\<close>

theorem step_incoming_table:
  "(step_incoming X r e n = (r', Inr fx) \<longleftrightarrow>
      (\<exists>l l'. ir_local r = Some l \<and> row X l e n l' fx \<and> r' = r\<lparr>ir_local := Some l'\<rparr>)) \<and>
   (step_incoming X r e n = (r', Inl err) \<longrightarrow> r' = r)"
  using step_incoming_row step_incoming_error by blast

theorem step_incoming_table_witness:
  "fst (step_incoming demo_ext demo_incoming PasswordAttemptStart demo_now) = demo_incoming"
  using step_incoming_table [of demo_ext demo_incoming PasswordAttemptStart demo_now
      "fst (step_incoming demo_ext demo_incoming PasswordAttemptStart demo_now)" no_effects Illegal]
  by (simp add: demo_defs step_incoming_def step_local_def)

lemma row_effects:
  "row X l e n l' fx \<Longrightarrow>
     fx_reached_terminal fx = (\<not> is_terminal (il_state l) \<and> is_terminal (il_state l')) \<and>
     fx_clear_r_eph fx = fx_reached_terminal fx \<and>
     fx_delete_file fx = (fx_reached_terminal fx \<and> il_state l' = ChallengeFailed) \<and>
     fx_clear_challenge fx =
       (il_state l' \<noteq> il_state l \<and> il_state l' \<noteq> Retrieved \<and> il_state l' \<noteq> PasswordFailed) \<and>
     (if fx_no_write fx then l' = l else \<not> is_terminal (il_state l))"
  by (induction rule: row.induct) (auto simp: no_effects_def give_back_def)

text \<open>
  The effects of an accepted step are exact. Terminal entry, dropping the ephemeral secret and
  deleting the file are reported precisely when the record ends (deletion only for a failed
  challenge), the challenge is dropped precisely when the record leaves \<open>ChallengeIssued\<close> or is ended
  from outside, and a step without a write changed nothing.
\<close>

theorem incoming_effects_exact:
  assumes "step_incoming X r e n = (r', Inr fx)"
  shows "fx_reached_terminal fx = (\<not> is_terminal (effective_state r) \<and> is_terminal (effective_state r')) \<and>
    fx_clear_r_eph fx = fx_reached_terminal fx \<and>
    fx_delete_file fx = (fx_reached_terminal fx \<and> effective_state r' = ChallengeFailed) \<and>
    fx_clear_challenge fx =
      (effective_state r' \<noteq> effective_state r \<and> effective_state r' \<noteq> Retrieved \<and>
       effective_state r' \<noteq> PasswordFailed) \<and>
    (if fx_no_write fx then r' = r else \<not> is_terminal (effective_state r))"
  using assms row_effects by (fastforce simp: step_incoming_row effective_state_def local_upd_idle)

theorem incoming_effects_exact_witness:
  "fx_delete_file (no_effects\<lparr>fx_clear_challenge := True, fx_clear_r_eph := True,
     fx_reached_terminal := True, fx_delete_file := True\<rparr>)"
  using incoming_effects_exact [of demo_ext demo_incoming ChallengeTimeout demo_now
      "fst (step_incoming demo_ext demo_incoming ChallengeTimeout demo_now)"
      "no_effects\<lparr>fx_clear_challenge := True, fx_clear_r_eph := True,
         fx_reached_terminal := True, fx_delete_file := True\<rparr>"]
  by (simp add: demo_defs step_incoming_def step_local_def step_parts effective_state_def)

text \<open>
  Over every history of a freshly stored invite, an ended record holds neither the challenge nor
  the ephemeral retrieval secret, the password tries never rise above the allowance (give-backs
  included), and the enforced expiry is the clamped one for good.
\<close>

theorem incoming_secrets_dropped:
  "case ir_local (foldl (istep X) (new_incoming w xt peer prot ch att re n0) es) of
     None \<Rightarrow> False
   | Some l \<Rightarrow>
       (is_terminal (il_state l) \<longrightarrow> il_challenge l = None \<and> il_r_eph_secret l = None) \<and>
       il_password_attempts_remaining l \<le> att \<and>
       il_effective_expires_at l = clamp_expiry (expires_at w) (wall_secs n0)"
  using fresh_run [of att w n0 X xt peer prot ch re es]
  by (auto simp: local_ok_def tidy_def word_le_nat_alt split: option.splits)

theorem incoming_secrets_dropped_witness:
  "\<exists>l. ir_local (foldl (istep demo_ext) demo_incoming [(RecipientDelete, demo_now)]) = Some l \<and>
       il_state l = RecipientDeleted \<and> il_challenge l = None \<and> il_r_eph_secret l = None"
  using incoming_secrets_dropped [where X = demo_ext and w = demo_env and xt = None and peer = "''p''"
      and prot = V2 and ch = demo_challenge and att = 3 and re = "Some [9]" and ?n0.0 = demo_now
      and es = "[(RecipientDelete, demo_now)]"]
  by (simp add: demo_incoming_def new_incoming_def istep_def step_incoming_def step_local_def step_parts)

text \<open>
  An ended record is final. Once a history of a freshly stored invite has reached a terminal
  state, no further sequence of events changes any field of the record.
\<close>

theorem incoming_terminal_final:
  assumes "is_terminal (effective_state (foldl (istep X) (new_incoming w xt peer prot ch att re n0) es))"
  shows "foldl (istep X) (new_incoming w xt peer prot ch att re n0) (es @ fs) =
    foldl (istep X) (new_incoming w xt peer prot ch att re n0) es"
  using new_incoming_tidy assms by (rule inc.terminal_once)

theorem incoming_terminal_final_witness:
  "foldl (istep demo_ext) demo_incoming ([(SenderRevoke, demo_now)] @ [(Confirm demo_code, demo_now)]) =
   foldl (istep demo_ext) demo_incoming [(SenderRevoke, demo_now)]"
  unfolding demo_incoming_def
  by (rule incoming_terminal_final)
    (simp add: new_incoming_def istep_def step_incoming_def step_local_def step_parts effective_state_def)

text \<open>
  At most \<open>max 1 n\<close> confirmation codes are ever compared with the stored hash, for a challenge
  issued with \<open>n\<close> tries, whatever other events are interleaved.
\<close>

theorem challenge_guess_bound:
  "run_sum (istep X) (codes_compared X) (new_incoming w xt peer prot ch att re n0) es
   \<le> max 1 (unat (cl_attempts_remaining ch))"
  using codes.spend_run [where s = "new_incoming w xt peer prot ch att re n0" and X = X and es = es]
  by (simp add: tries_of_def challenge_tries_def new_incoming_def)

text \<open>
  The password attempts ever started are at most the allowance plus the attempts handed back, so
  without a hand-back no more than the allowance, however the process is interleaved or restarted
  between start and outcome.
\<close>

theorem password_attempt_bound:
  "run_sum (istep X) (password_started X) (new_incoming w xt peer prot ch att re n0) es
   \<le> unat att + run_sum (istep X) password_returned (new_incoming w xt peer prot ch att re n0) es"
  using passwords.spend_run [where s = "new_incoming w xt peer prot ch att re n0" and X = X and es = es]
  by (simp add: password_left_def new_incoming_def)

section \<open>Confirmation and expiry\<close>

text \<open>The states a record can only be in after a confirmation.\<close>

definition passed :: "envelope_state \<Rightarrow> bool" where
  "passed s \<longleftrightarrow> s \<in> {Confirmed, Retrieved, PasswordFailed}"

definition right_code :: "ext \<Rightarrow> challenge_local \<Rightarrow> incoming_event \<times> now \<Rightarrow> bool" where
  "right_code X ch ev \<longleftrightarrow>
     (\<exists>code. fst ev = Confirm code \<and> verify_challenge X code (cl_hash ch) = Some True) \<and>
     \<not> mono_is_expired (cl_expires ch) (mono_ms (snd ev))"

text \<open>The stored challenge is the issued one up to its try counter, or the record was not confirmed.\<close>

definition awaiting :: "challenge_local \<Rightarrow> incoming_local \<Rightarrow> bool" where
  "awaiting ch l \<longleftrightarrow> \<not> passed (il_state l) \<and>
     (case il_challenge l of
        None \<Rightarrow> True | Some c \<Rightarrow> cl_hash c = cl_hash ch \<and> cl_expires c = cl_expires ch)"

lemma row_awaiting: "row X l e n l' fx \<Longrightarrow> awaiting ch l \<Longrightarrow> \<not> right_code X ch (e, n) \<Longrightarrow> awaiting ch l'"
  by (induction rule: row.induct) (simp_all add: awaiting_def passed_def right_code_def)

lemma run_awaiting:
  "local_ok (awaiting ch) r \<Longrightarrow> \<forall>ev\<in>set es. \<not> right_code X ch ev \<Longrightarrow> local_ok (awaiting ch) (foldl (istep X) r es)"
proof (induction es arbitrary: r)
  case (Cons ev es)
  obtain e n where ev: "ev = (e, n)" by (cases ev)
  have "local_ok (awaiting ch) (istep X r ev)"
    unfolding ev using Cons.prems row_awaiting [of X _ e n _ _ ch]
    by (cases rule: istep_cases [of X r e n]) (auto simp: local_ok_def ev)
  with Cons show ?case by simp
qed simp

text \<open>
  C26: a share is opened only after the right code. If any history of a freshly stored invite leaves
  it confirmed, retrieved or with its password tries used up, the history contains a \<open>Confirm\<close> whose
  code verifies against the issued hash and that arrived before the monotonic deadline.
\<close>

theorem confirmed_only_by_code:
  assumes "passed (effective_state (foldl (istep X) (new_incoming w xt peer prot ch att re n0) es))"
  shows "\<exists>ev\<in>set es. right_code X ch ev"
proof (rule ccontr)
  assume none: "\<not> ?thesis"
  have "local_ok (awaiting ch) (new_incoming w xt peer prot ch att re n0)"
    by (simp add: local_ok_def awaiting_def passed_def new_incoming_def)
  then have "local_ok (awaiting ch) (foldl (istep X) (new_incoming w xt peer prot ch att re n0) es)"
    using none by (intro run_awaiting) auto
  with assms show False
    by (auto simp: local_ok_def awaiting_def effective_state_def split: option.splits)
qed

lemma demo_verifies: "verify_challenge demo_ext demo_code (cl_hash demo_challenge) = Some True"
  by code_simp

theorem confirmed_only_by_code_witness:
  "effective_state (foldl (istep demo_ext) demo_incoming [(Confirm demo_code, demo_now)]) = Confirmed \<and>
   right_code demo_ext demo_challenge (Confirm demo_code, demo_now)"
proof -
  have "\<not> mono_is_expired (cl_expires demo_challenge) (mono_ms demo_now)" by code_simp
  then have "effective_state (foldl (istep demo_ext) demo_incoming [(Confirm demo_code, demo_now)]) = Confirmed"
    by (simp add: demo_incoming_def new_incoming_def istep_def step_incoming_def step_local_def step_parts
        demo_verifies effective_state_def)
  then show ?thesis
    using confirmed_only_by_code [where X = demo_ext and w = demo_env and xt = None and peer = "''p''"
      and prot = V2 and ch = demo_challenge and att = 3 and re = "Some [9]" and ?n0.0 = demo_now
      and es = "[(Confirm demo_code, demo_now)]"]
    by (simp add: demo_incoming_def passed_def)
qed

lemma clamp_expiry_le: "unat (clamp_expiry x t) \<le> unat t + 2592000" "clamp_expiry x t \<le> x"
  by (simp_all add: clamp_expiry_def unat_ops MAX_RETENTION_SECS_def)

text \<open>
  C34: no sender value keeps a share past the node's retention. Whatever happened before, an expiry
  check thirty days after receipt, or at any time from the sender's own expiry on, ends the record;
  a check before the clamped expiry is refused.
\<close>

theorem expiry_enforced:
  "let r = foldl (istep X) (new_incoming w xt peer prot ch att re n0) es in
     (unat (wall_secs n0) + 2592000 \<le> unat (wall_secs n) \<or> expires_at w \<le> wall_secs n \<longrightarrow>
        is_terminal (effective_state (istep X r (ExpiryTick, n)))) \<and>
     (wall_secs n < clamp_expiry (expires_at w) (wall_secs n0) \<longrightarrow>
        step_incoming X r ExpiryTick n = (r, Inl Illegal))"
proof -
  let ?r = "foldl (istep X) (new_incoming w xt peer prot ch att re n0) es"
  obtain l where l: "ir_local ?r = Some l" "tidy (unat att) (clamp_expiry (expires_at w) (wall_secs n0)) l"
    using fresh_run [of att w n0 X xt peer prot ch re es] by (auto simp: local_ok_def split: option.splits)
  then have x: "il_effective_expires_at l = clamp_expiry (expires_at w) (wall_secs n0)" "il_state l \<noteq> Pending"
    by (simp_all add: tidy_def)
  have due: "il_effective_expires_at l \<le> wall_secs n"
    if "unat (wall_secs n0) + 2592000 \<le> unat (wall_secs n) \<or> expires_at w \<le> wall_secs n"
    using that clamp_expiry_le [of "expires_at w" "wall_secs n0"] x by (auto simp: word_le_nat_alt)
  have "is_terminal (effective_state (istep X ?r (ExpiryTick, n)))" if "il_effective_expires_at l \<le> wall_secs n"
    using that l(1) x(2)
    by (cases "il_state l") (auto simp: istep_def step_incoming_def step_local_def step_parts effective_state_def)
  moreover have "step_incoming X ?r ExpiryTick n = (?r, Inl Illegal)" if "wall_secs n < il_effective_expires_at l"
    using that l(1) x(2)
    by (cases "il_state l") (auto simp: step_incoming_def step_local_def step_parts local_upd_idle)
  ultimately show ?thesis using due x(1) by (simp add: Let_def)
qed

theorem expiry_enforced_witness:
  "is_terminal (effective_state (istep demo_ext
     (foldl (istep demo_ext) demo_incoming [(Confirm demo_code, demo_now)])
     (ExpiryTick, \<lparr>wall_secs = 5000, mono_ms = 0\<rparr>)))"
  unfolding demo_incoming_def
  by (rule expiry_enforced [unfolded Let_def, THEN conjunct1, THEN mp]) (simp add: demo_env_def)

section \<open>The sender record\<close>

text \<open>Progress of a share on the sender's side: every change of phase moves up.\<close>

fun phase_rank :: "outgoing_phase \<Rightarrow> nat" where
  "phase_rank OFresh = 0"
| "phase_rank OAwaitingRecipient = 1"
| "phase_rank ODelivered = 2"
| "phase_rank ODeliveredLegacy = 2"
| "phase_rank OConfirmed = 3"
| "phase_rank _ = 4"

definition ostep :: "outgoing_record \<Rightarrow> outgoing_event \<times> now \<Rightarrow> outgoing_record" where
  "ostep r ev = fst (step_outgoing r (fst ev) (snd ev))"

definition phase_changed :: "outgoing_record \<Rightarrow> outgoing_event \<times> now \<Rightarrow> nat" where
  "phase_changed r ev = of_bool (or_phase (ostep r ev) \<noteq> or_phase r)"

lemma phase_step_rank:
  "phase_step p e = Some (q, fx) \<Longrightarrow>
     phase_rank p < phase_rank q \<or> q = p \<and> (\<exists>k. e = EvConfirmWrong k \<and> k \<noteq> 0)"
  by (cases "(p, e)" rule: phase_step.cases) (auto split: if_splits)

lemma phase_step_effects:
  "phase_step p e = Some (q, fx) \<Longrightarrow>
     fx_reached_terminal fx = phase_is_terminal q \<and> \<not> phase_is_terminal p \<and>
     fx_clear_r_eph fx = (phase_rank p < 2 \<and> 2 \<le> phase_rank q) \<and>
     \<not> fx_clear_challenge fx \<and> \<not> fx_delete_file fx \<and> \<not> fx_no_write fx"
  by (cases "(p, e)" rule: phase_step.cases) (auto simp: no_effects_def split: if_splits)

lemma phase_rank_le: "phase_rank p \<le> 4"
  by (cases p) simp_all

lemma ostep_rank: "(4 - phase_rank (or_phase (ostep r ev))) + phase_changed r ev \<le> 4 - phase_rank (or_phase r)"
proof (cases "phase_step (or_phase r) (fst ev)")
  case None
  then show ?thesis by (simp add: ostep_def step_outgoing_def phase_changed_def)
next
  case (Some qf)
  then obtain q fx where q: "phase_step (or_phase r) (fst ev) = Some (q, fx)" by (cases qf) auto
  then have "or_phase (ostep r ev) = q" by (simp add: ostep_def step_outgoing_def)
  with phase_step_rank [OF q] phase_rank_le [of q] show ?thesis by (auto simp: phase_changed_def)
qed

interpretation out: budget_machine ostep "\<lambda>_. True" "\<lambda>r. 4 - phase_rank (or_phase r)" phase_changed "\<lambda>_ _. 0"
  by unfold_locales (simp_all add: ostep_rank)

interpretation out_final: terminal_machine ostep "\<lambda>_. True" "\<lambda>r. phase_is_terminal (or_phase r)"
proof
  fix r :: outgoing_record and ev :: "outgoing_event \<times> now" assume "phase_is_terminal (or_phase r)"
  then have "phase_step (or_phase r) (fst ev) = None"
    by (cases "phase_step (or_phase r) (fst ev)") (auto dest: phase_step_effects)
  then show "ostep r ev = r" by (simp add: ostep_def step_outgoing_def)
qed

text \<open>
  A sender record changes its phase at most four times in any history, and once the phase is
  terminal nothing in the record changes any more.
\<close>

theorem outgoing_progress:
  "run_sum ostep phase_changed r es \<le> 4 - phase_rank (or_phase r) \<and>
   (phase_is_terminal (or_phase (foldl ostep r es)) \<longrightarrow> foldl ostep r (es @ fs) = foldl ostep r es)"
  using out.spend_run [of r es] out_final.terminal_once [of r es fs] by simp

definition demo_outgoing :: "outgoing_phase \<Rightarrow> outgoing_record" where
  "demo_outgoing p = \<lparr>or_wire = demo_env, or_phase = p, or_recipient_attempts_remaining = None\<rparr>"

theorem outgoing_progress_witness:
  "foldl ostep (demo_outgoing OFresh) ([(EvDeliveryFailed, demo_now)] @ [(EvPublished, demo_now)]) =
   foldl ostep (demo_outgoing OFresh) [(EvDeliveryFailed, demo_now)]"
  by (rule outgoing_progress [THEN conjunct2, THEN mp])
    (simp add: demo_outgoing_def ostep_def step_outgoing_def)

text \<open>
  A delivered share stays under its sender's control except on the legacy path. Revocation and
  the retention limit are accepted exactly in \<open>AwaitingRecipient\<close>, \<open>Delivered\<close> and \<open>Confirmed\<close>; a
  record in \<open>DeliveredLegacy\<close>, although not terminal, refuses both and stays unchanged.
\<close>

theorem outgoing_endable:
  "e = EvUserRevoke \<or> e = EvRetentionPassed \<Longrightarrow>
   (if or_phase r \<in> {OAwaitingRecipient, ODelivered, OConfirmed}
    then phase_is_terminal (or_phase (fst (step_outgoing r e n)))
    else step_outgoing r e n = (r, Inl Illegal))"
  by (cases "or_phase r") (auto simp: step_outgoing_def)

theorem outgoing_endable_witness:
  "step_outgoing (demo_outgoing ODeliveredLegacy) EvUserRevoke demo_now =
     (demo_outgoing ODeliveredLegacy, Inl Illegal)"
  using outgoing_endable [of EvUserRevoke "demo_outgoing ODeliveredLegacy" demo_now]
  by (simp add: demo_outgoing_def)

end
