(* ===== verification/Directed_Inbox.thy ===== *)
theory Directed_Inbox
  imports Directed_State
begin

text \<open>
  The on-disk store of directed shares, \<^verbatim>\<open>crates/miasma-core/src/directed/inbox.rs\<close>. A
  directory is a finite map from the hexadecimal envelope identifier to what the file of that name
  and extension holds; \<open>None\<close> in the range is a file that cannot be decrypted or decoded. Document
  writes are atomic in the code (a synced temporary file, then a rename or a hard link), so a failing
  write leaves the old file. The outcomes of the coming writes and removals are the field
  \<open>io\<close>: every one takes the next outcome, and an empty list means that no more faults occur.
  The per-identifier lock makes each operation on a v2 record one step.
\<close>

section \<open>State\<close>

definition MAX_ENVELOPES :: nat where "MAX_ENVELOPES = 10000"

record inbox =
  inc_json :: "(string, directed_envelope option) fmap"
  inc_challenge :: "(string, ustr option) fmap"
  inc_peer :: "(string, ustr option) fmap"
  out_json :: "(string, directed_envelope option) fmap"
  out_peer :: "(string, ustr option) fmap"
  v2_json :: "(string, incoming_record option) fmap"
  io :: "bool list"

datatype inbox_error =
  InboxFull | IoError | Unreadable | BoundToOther | StepIllegal | StepPanicked

definition io_ok :: "inbox \<Rightarrow> bool" where
  "io_ok s = (case io s of [] \<Rightarrow> True | b # _ \<Rightarrow> b)"

definition io_next :: "inbox \<Rightarrow> inbox" where
  "io_next s = s\<lparr>io := tl (io s)\<rparr>"

text \<open>
  Reading gives the document only when the file is there and decodes. \<open>attempt f s\<close> performs one
  fallible disk change \<open>f\<close>.
\<close>

definition read_doc :: "(string, 'a option) fmap \<Rightarrow> string \<Rightarrow> 'a option" where
  "read_doc d i = (case fmlookup d i of Some (Some v) \<Rightarrow> Some v | _ \<Rightarrow> None)"

definition attempt :: "(inbox \<Rightarrow> inbox) \<Rightarrow> inbox \<Rightarrow> inbox \<times> (inbox_error + unit)" where
  "attempt f s = (if io_ok s then (f (io_next s), Inr ()) else (io_next s, Inl IoError))"

section \<open>Sender side\<close>

definition save_outgoing :: "ext \<Rightarrow> directed_envelope \<Rightarrow> inbox \<Rightarrow> inbox \<times> (inbox_error + unit)" where
  "save_outgoing X env = attempt (\<lambda>s. s\<lparr>out_json := fmupd (id_hex X env) (Some env) (out_json s)\<rparr>)"

definition load_outgoing :: "inbox \<Rightarrow> string \<Rightarrow> directed_envelope option" where
  "load_outgoing s i = read_doc (out_json s) i"

definition delete_outgoing :: "string \<Rightarrow> inbox \<Rightarrow> inbox \<times> (inbox_error + unit)" where
  "delete_outgoing i s =
     (if i |\<in>| fmdom (out_json s) then attempt (\<lambda>s. s\<lparr>out_json := fmdrop i (out_json s)\<rparr>) s
      else (s, Inr ()))"

definition save_outgoing_peer_id :: "string \<Rightarrow> ustr \<Rightarrow> inbox \<Rightarrow> inbox" where
  "save_outgoing_peer_id i p s = fst (attempt (\<lambda>s. s\<lparr>out_peer := fmupd i (Some p) (out_peer s)\<rparr>) s)"

definition load_outgoing_peer_id :: "inbox \<Rightarrow> string \<Rightarrow> ustr option" where
  "load_outgoing_peer_id s i = read_doc (out_peer s) i"

section \<open>Recipient side\<close>

definition check_limit :: "(string, 'a) fmap \<Rightarrow> bool" where
  "check_limit d \<longleftrightarrow> fmsize d < MAX_ENVELOPES"

definition save_incoming :: "ext \<Rightarrow> directed_envelope \<Rightarrow> inbox \<Rightarrow> inbox \<times> (inbox_error + unit)" where
  "save_incoming X env s =
     (if id_hex X env |\<notin>| fmdom (inc_json s) \<and> \<not> check_limit (inc_json s) then (s, Inl InboxFull)
      else attempt (\<lambda>s. s\<lparr>inc_json := fmupd (id_hex X env) (Some env) (inc_json s)\<rparr>) s)"

definition load_incoming :: "inbox \<Rightarrow> string \<Rightarrow> directed_envelope option" where
  "load_incoming s i = read_doc (inc_json s) i"

text \<open>The three removals of \<open>delete_incoming\<close>; the first failure returns.\<close>

definition remove_json :: "string \<Rightarrow> inbox \<Rightarrow> inbox \<times> (inbox_error + unit)" where
  "remove_json i s =
     (if i |\<in>| fmdom (inc_json s) then attempt (\<lambda>s. s\<lparr>inc_json := fmdrop i (inc_json s)\<rparr>) s
      else (s, Inr ()))"

definition remove_challenge :: "string \<Rightarrow> inbox \<Rightarrow> inbox \<times> (inbox_error + unit)" where
  "remove_challenge i s =
     (if i |\<in>| fmdom (inc_challenge s) then attempt (\<lambda>s. s\<lparr>inc_challenge := fmdrop i (inc_challenge s)\<rparr>) s
      else (s, Inr ()))"

definition remove_peer :: "string \<Rightarrow> inbox \<Rightarrow> inbox \<times> (inbox_error + unit)" where
  "remove_peer i s =
     (if i |\<in>| fmdom (inc_peer s) then attempt (\<lambda>s. s\<lparr>inc_peer := fmdrop i (inc_peer s)\<rparr>) s
      else (s, Inr ()))"

definition and_then ::
  "inbox \<times> (inbox_error + unit) \<Rightarrow> (inbox \<Rightarrow> inbox \<times> (inbox_error + 'a)) \<Rightarrow> inbox \<times> (inbox_error + 'a)" where
  "and_then m f = (case m of (s, Inr _) \<Rightarrow> f s | (s, Inl e) \<Rightarrow> (s, Inl e))"

definition delete_incoming :: "string \<Rightarrow> inbox \<Rightarrow> inbox \<times> (inbox_error + unit)" where
  "delete_incoming i s = and_then (and_then (remove_json i s) (remove_challenge i)) (remove_peer i)"

definition update_incoming_state ::
  "ext \<Rightarrow> string \<Rightarrow> envelope_state \<Rightarrow> inbox \<Rightarrow> inbox \<times> (inbox_error + directed_envelope)" where
  "update_incoming_state X i st s =
     (case load_incoming s i of
        None \<Rightarrow> (s, Inl Unreadable)
      | Some env \<Rightarrow>
          and_then (save_incoming X (env\<lparr>env_state := st\<rparr>) s) (\<lambda>s. (s, Inr (env\<lparr>env_state := st\<rparr>))))"

definition update_outgoing_state ::
  "ext \<Rightarrow> string \<Rightarrow> envelope_state \<Rightarrow> inbox \<Rightarrow> inbox \<times> (inbox_error + directed_envelope)" where
  "update_outgoing_state X i st s =
     (case load_outgoing s i of
        None \<Rightarrow> (s, Inl Unreadable)
      | Some env \<Rightarrow>
          and_then (save_outgoing X (env\<lparr>env_state := st\<rparr>) s) (\<lambda>s. (s, Inr (env\<lparr>env_state := st\<rparr>))))"

definition cleanup_challenge :: "string \<Rightarrow> inbox \<Rightarrow> inbox" where
  "cleanup_challenge i s = fst (remove_challenge i s)"

text \<open>
  \<open>expire_all\<close> visits the files in the order the directory lists them, given as the two lists. The
  rewrite goes to the path it was read from. No function puts a challenge file into the outgoing
  directory, so only the incoming one is cleaned.
\<close>

definition expire_incoming :: "u64 \<Rightarrow> inbox \<Rightarrow> string \<Rightarrow> inbox" where
  "expire_incoming now s i =
     (case load_incoming s i of
        None \<Rightarrow> s
      | Some env \<Rightarrow>
          (let due = is_expired env now \<and> \<not> is_terminal (env_state env);
               env' = (if due then env\<lparr>env_state := Expired\<rparr> else env);
               s' = (if due then fst (attempt (\<lambda>s. s\<lparr>inc_json := fmupd i (Some env') (inc_json s)\<rparr>) s) else s)
           in if is_terminal (env_state env') then cleanup_challenge i s' else s'))"

definition expire_outgoing :: "u64 \<Rightarrow> inbox \<Rightarrow> string \<Rightarrow> inbox" where
  "expire_outgoing now s i =
     (case load_outgoing s i of
        None \<Rightarrow> s
      | Some env \<Rightarrow>
          if is_expired env now \<and> \<not> is_terminal (env_state env)
          then fst (attempt (\<lambda>s. s\<lparr>out_json := fmupd i (Some (env\<lparr>env_state := Expired\<rparr>)) (out_json s)\<rparr>) s)
          else s)"

definition expire_all :: "u64 \<Rightarrow> string list \<Rightarrow> string list \<Rightarrow> inbox \<Rightarrow> inbox" where
  "expire_all now ins outs s = foldl (expire_outgoing now) (foldl (expire_incoming now) s ins) outs"

definition save_challenge_code :: "string \<Rightarrow> ustr \<Rightarrow> inbox \<Rightarrow> inbox \<times> (inbox_error + unit)" where
  "save_challenge_code i code = attempt (\<lambda>s. s\<lparr>inc_challenge := fmupd i (Some code) (inc_challenge s)\<rparr>)"

definition load_challenge_code :: "inbox \<Rightarrow> string \<Rightarrow> ustr option" where
  "load_challenge_code s i = read_doc (inc_challenge s) i"

definition delete_challenge_code :: "string \<Rightarrow> inbox \<Rightarrow> inbox" where
  "delete_challenge_code i s = fst (attempt (\<lambda>s. s\<lparr>inc_challenge := fmdrop i (inc_challenge s)\<rparr>) s)"

text \<open>The create-only write of a sender binding; the first binding wins.\<close>

definition bind_incoming_peer_id :: "ext \<Rightarrow> string \<Rightarrow> ustr \<Rightarrow> inbox \<Rightarrow> inbox \<times> (inbox_error + unit)" where
  "bind_incoming_peer_id X i p s =
     (if i |\<in>| fmdom (inc_peer s) then
        (case read_doc (inc_peer s) i of
           None \<Rightarrow> (s, Inl Unreadable)
         | Some q \<Rightarrow> (s, if trim X q = p then Inr () else Inl BoundToOther))
      else attempt (\<lambda>s. s\<lparr>inc_peer := fmupd i (Some p) (inc_peer s)\<rparr>) s)"

definition load_incoming_peer_id :: "ext \<Rightarrow> inbox \<Rightarrow> string \<Rightarrow> ustr option" where
  "load_incoming_peer_id X s i = map_option (trim X) (read_doc (inc_peer s) i)"

definition incoming_peer_is_bound :: "ext \<Rightarrow> inbox \<Rightarrow> string \<Rightarrow> ustr \<Rightarrow> bool" where
  "incoming_peer_is_bound X s i p \<longleftrightarrow> load_incoming_peer_id X s i = Some p"

section \<open>Records of the second version\<close>

definition store_incoming_v2_new :: "ext \<Rightarrow> incoming_record \<Rightarrow> inbox \<Rightarrow> inbox \<times> (inbox_error + bool)" where
  "store_incoming_v2_new X r s =
     (let i = id_hex X (ir_wire r) in
      if i |\<in>| fmdom (v2_json s) then (s, Inr False)
      else if \<not> check_limit (v2_json s) then (s, Inl InboxFull)
      else and_then (attempt (\<lambda>s. s\<lparr>v2_json := fmupd i (Some r) (v2_json s)\<rparr>) s) (\<lambda>s. (s, Inr True)))"

definition load_incoming_v2 :: "inbox \<Rightarrow> string \<Rightarrow> incoming_record option" where
  "load_incoming_v2 s i = read_doc (v2_json s) i"

definition step_incoming_v2 ::
  "ext \<Rightarrow> string \<Rightarrow> incoming_event \<Rightarrow> now \<Rightarrow> inbox \<Rightarrow> inbox \<times> (inbox_error + effects)" where
  "step_incoming_v2 X i e n s =
     (case load_incoming_v2 s i of
        None \<Rightarrow> (s, Inl Unreadable)
      | Some r \<Rightarrow>
          (case step_incoming X r e n of
             (r', Inl Illegal) \<Rightarrow> (s, Inl StepIllegal)
           | (r', Inl Panicked) \<Rightarrow> (s, Inl StepPanicked)
           | (r', Inr fx) \<Rightarrow>
               if fx_no_write fx then (s, Inr fx)
               else if fx_delete_file fx then
                 and_then (attempt (\<lambda>s. s\<lparr>v2_json := fmdrop i (v2_json s)\<rparr>) s) (\<lambda>s. (s, Inr fx))
               else
                 and_then (attempt (\<lambda>s. s\<lparr>v2_json := fmupd i (Some r') (v2_json s)\<rparr>) s) (\<lambda>s. (s, Inr fx))))"

definition delete_incoming_v2 :: "string \<Rightarrow> inbox \<Rightarrow> inbox \<times> (inbox_error + unit)" where
  "delete_incoming_v2 i s =
     (if i |\<in>| fmdom (v2_json s) then attempt (\<lambda>s. s\<lparr>v2_json := fmdrop i (v2_json s)\<rparr>) s
      else (s, Inr ()))"

section \<open>Sequences of operations\<close>

datatype inbox_op =
    OpSaveOutgoing directed_envelope | OpDeleteOutgoing string | OpOutgoingPeer string ustr
  | OpSaveIncoming directed_envelope | OpDeleteIncoming string
  | OpUpdateIncoming string envelope_state | OpUpdateOutgoing string envelope_state
  | OpCleanup string | OpExpireAll u64 "string list" "string list"
  | OpSaveCode string ustr | OpDeleteCode string | OpBind string ustr
  | OpStoreV2 incoming_record | OpStepV2 string incoming_event now | OpDeleteV2 string

fun inbox_step :: "ext \<Rightarrow> inbox \<Rightarrow> inbox_op \<Rightarrow> inbox" where
  "inbox_step X s (OpSaveOutgoing env) = fst (save_outgoing X env s)"
| "inbox_step X s (OpDeleteOutgoing i) = fst (delete_outgoing i s)"
| "inbox_step X s (OpOutgoingPeer i p) = save_outgoing_peer_id i p s"
| "inbox_step X s (OpSaveIncoming env) = fst (save_incoming X env s)"
| "inbox_step X s (OpDeleteIncoming i) = fst (delete_incoming i s)"
| "inbox_step X s (OpUpdateIncoming i st) = fst (update_incoming_state X i st s)"
| "inbox_step X s (OpUpdateOutgoing i st) = fst (update_outgoing_state X i st s)"
| "inbox_step X s (OpCleanup i) = cleanup_challenge i s"
| "inbox_step X s (OpExpireAll now ins outs) = expire_all now ins outs s"
| "inbox_step X s (OpSaveCode i code) = fst (save_challenge_code i code s)"
| "inbox_step X s (OpDeleteCode i) = delete_challenge_code i s"
| "inbox_step X s (OpBind i p) = fst (bind_incoming_peer_id X i p s)"
| "inbox_step X s (OpStoreV2 r) = fst (store_incoming_v2_new X r s)"
| "inbox_step X s (OpStepV2 i e n) = fst (step_incoming_v2 X i e n s)"
| "inbox_step X s (OpDeleteV2 i) = fst (delete_incoming_v2 i s)"

lemmas io_defs = attempt_def io_next_def and_then_def

lemmas sender_defs =
  save_outgoing_def delete_outgoing_def save_outgoing_peer_id_def update_outgoing_state_def expire_outgoing_def

lemmas recipient_defs =
  save_incoming_def delete_incoming_def remove_json_def remove_challenge_def remove_peer_def
  update_incoming_state_def cleanup_challenge_def expire_incoming_def save_challenge_code_def
  delete_challenge_code_def bind_incoming_peer_id_def

lemmas v2_defs = store_incoming_v2_new_def step_incoming_v2_def delete_incoming_v2_def

text \<open>A property survives a fallible change, or a chain of them, when it survives each part.\<close>

lemma attempt_keeps: "P (io_next s) \<Longrightarrow> P (f (io_next s)) \<Longrightarrow> P (fst (attempt f s))"
  by (simp add: attempt_def)

lemma and_then_keeps: "P (fst m) \<Longrightarrow> (\<And>s. P s \<Longrightarrow> P (fst (f s))) \<Longrightarrow> P (fst (and_then m f))"
  by (cases m; cases "snd m") (auto simp: and_then_def)

lemma and_then_fst: "fst (and_then m (\<lambda>s. (s, r))) = fst m"
  by (cases m; cases "snd m") (auto simp: and_then_def)

text \<open>What each group of operations leaves alone.\<close>

lemma foldl_keeps: "(\<And>s x. x \<in> set xs \<Longrightarrow> g (f s x) = g s) \<Longrightarrow> g (foldl f s xs) = g s"
  by (induction xs arbitrary: s) simp_all

lemma expire_outgoing_keeps:
  "inc_json (expire_outgoing now s i) = inc_json s" "inc_peer (expire_outgoing now s i) = inc_peer s"
  "v2_json (expire_outgoing now s i) = v2_json s" "inc_challenge (expire_outgoing now s i) = inc_challenge s"
  by (simp_all add: expire_outgoing_def io_defs split: option.splits)

lemma remove_challenge_keeps [simp]:
  "inc_json (fst (remove_challenge i s)) = inc_json s" "inc_peer (fst (remove_challenge i s)) = inc_peer s"
  "v2_json (fst (remove_challenge i s)) = v2_json s" "out_json (fst (remove_challenge i s)) = out_json s"
  by (simp_all add: remove_challenge_def io_defs)

lemma expire_incoming_keeps:
  "inc_peer (expire_incoming now s i) = inc_peer s" "v2_json (expire_incoming now s i) = v2_json s"
  by (simp_all add: expire_incoming_def cleanup_challenge_def io_defs Let_def split: option.splits)

lemma expire_incoming_json:
  "inc_json (expire_incoming now s i) =
     (case load_incoming s i of
        Some env \<Rightarrow>
          if is_expired env now \<and> \<not> is_terminal (env_state env) \<and> io_ok s
          then fmupd i (Some (env\<lparr>env_state := Expired\<rparr>)) (inc_json s) else inc_json s
      | None \<Rightarrow> inc_json s)"
  by (simp add: expire_incoming_def cleanup_challenge_def io_defs Let_def split: option.splits)

lemma load_in_dom: "load_incoming s i = Some env \<Longrightarrow> i |\<in>| fmdom (inc_json s)"
  by (auto simp: load_incoming_def read_doc_def fmlookup_dom_iff split: option.splits)

lemma expire_incoming_dom: "fmdom (inc_json (expire_incoming now s i)) = fmdom (inc_json s)"
  by (auto simp: expire_incoming_json dest: load_in_dom split: option.splits)

lemma expire_all_json: "inc_json (expire_all now ins outs s) = inc_json (foldl (expire_incoming now) s ins)"
  unfolding expire_all_def by (rule foldl_keeps) (rule expire_outgoing_keeps)

lemma expire_all_dom: "fmdom (inc_json (expire_all now ins outs s)) = fmdom (inc_json s)"
  unfolding expire_all_json by (rule foldl_keeps [where g = "\<lambda>s. fmdom (inc_json s)"]) (rule expire_incoming_dom)

lemma expire_all_peer: "inc_peer (expire_all now ins outs s) = inc_peer s"
  unfolding expire_all_def
  by (rule trans [OF foldl_keeps foldl_keeps]) (rule expire_outgoing_keeps expire_incoming_keeps)+

lemma expire_all_v2: "v2_json (expire_all now ins outs s) = v2_json s"
  unfolding expire_all_def
  by (rule trans [OF foldl_keeps foldl_keeps]) (rule expire_outgoing_keeps expire_incoming_keeps)+

lemmas expire_all_keeps = expire_all_dom expire_all_peer expire_all_v2

section \<open>Capacity\<close>

definition within_limits :: "inbox \<Rightarrow> bool" where
  "within_limits s \<longleftrightarrow> fmsize (inc_json s) \<le> MAX_ENVELOPES \<and> fmsize (v2_json s) \<le> MAX_ENVELOPES"

lemma fmsize_drop_le: "fmsize (fmdrop i d) \<le> fmsize d"
  by (simp add: fmsize_drop del: fmdom_drop)

lemma fmsize_drop_bound: "fmsize d \<le> m \<Longrightarrow> fmsize (fmdrop i d) \<le> m"
  using fmsize_drop_le [of i d] by (rule order.trans)

lemma fmsize_upd_bound: "fmsize d \<le> m \<Longrightarrow> i |\<in>| fmdom d \<or> fmsize d < m \<Longrightarrow> fmsize (fmupd i v d) \<le> m"
  by (auto simp: fmsize_upd simp del: fmdom_fmupd)

lemmas fmsize_bounds = fmsize_drop_bound fmsize_upd_bound

lemma step_v2_json:
  "v2_json (fst (step_incoming_v2 X i e n s)) =
     (case load_incoming_v2 s i of
        None \<Rightarrow> v2_json s
      | Some r \<Rightarrow>
          (case step_incoming X r e n of
             (r', Inl _) \<Rightarrow> v2_json s
           | (r', Inr fx) \<Rightarrow>
               if fx_no_write fx \<or> \<not> io_ok s then v2_json s
               else if fx_delete_file fx then fmdrop i (v2_json s) else fmupd i (Some r') (v2_json s)))"
  by (simp add: step_incoming_v2_def io_defs split: option.splits prod.splits sum.splits step_error.splits)

lemma load_v2_in_dom: "load_incoming_v2 s i = Some r \<Longrightarrow> i |\<in>| fmdom (v2_json s)"
  by (auto simp: load_incoming_v2_def read_doc_def fmlookup_dom_iff split: option.splits)

lemma step_v2_size:
  "fmsize (v2_json s) \<le> m \<Longrightarrow> fmsize (v2_json (fst (step_incoming_v2 X i e n s))) \<le> m"
  unfolding step_v2_json
  by (auto split: option.splits prod.splits sum.splits dest: load_v2_in_dom intro!: fmsize_bounds
      simp del: fmdom_fmupd fmdom_drop)

lemma step_v2_keeps:
  "inc_json (fst (step_incoming_v2 X i e n s)) = inc_json s" "inc_peer (fst (step_incoming_v2 X i e n s)) = inc_peer s"
  by (simp_all add: step_incoming_v2_def io_defs split: option.splits prod.splits sum.splits step_error.splits)

lemma within_limits_io_next [simp]: "within_limits (io_next s) = within_limits s"
  by (simp add: within_limits_def io_next_def)

lemmas limits_keeps = attempt_keeps [where P = within_limits] and_then_keeps [where P = within_limits]

lemma within_limits_save_incoming: "within_limits s \<Longrightarrow> within_limits (fst (save_incoming X env s))"
  unfolding save_incoming_def
  by (auto simp: check_limit_def intro!: limits_keeps)
    (auto simp: within_limits_def io_next_def fmsize_bounds simp del: fmdom_fmupd)

lemma within_limits_removals:
  "within_limits s \<Longrightarrow> within_limits (fst (remove_json i s))"
  "within_limits s \<Longrightarrow> within_limits (fst (remove_challenge i s))"
  "within_limits s \<Longrightarrow> within_limits (fst (remove_peer i s))"
  by (auto simp: remove_json_def remove_challenge_def remove_peer_def intro!: limits_keeps)
    (auto simp: within_limits_def io_next_def fmsize_bounds simp del: fmdom_drop)

lemma within_limits_step: "within_limits s \<Longrightarrow> within_limits (inbox_step X s op)"
proof (cases op)
  case (OpStepV2 i e n)
  then show "within_limits s \<Longrightarrow> ?thesis" by (simp add: within_limits_def step_v2_size step_v2_keeps)
next
  case (OpExpireAll now ins outs)
  then show "within_limits s \<Longrightarrow> ?thesis" by (simp add: within_limits_def expire_all_keeps)
next
  case (OpDeleteIncoming i)
  then show "within_limits s \<Longrightarrow> ?thesis"
    by (auto simp: delete_incoming_def within_limits_removals intro!: limits_keeps)
next
  case (OpUpdateIncoming i st)
  then show "within_limits s \<Longrightarrow> ?thesis"
    by (auto simp: update_incoming_state_def and_then_fst within_limits_save_incoming split: option.splits)
next
  case (OpStoreV2 r)
  then show "within_limits s \<Longrightarrow> ?thesis"
    by (auto simp: store_incoming_v2_new_def Let_def and_then_fst intro!: limits_keeps)
      (auto simp: within_limits_def io_next_def check_limit_def fmsize_bounds simp del: fmdom_fmupd)
next
  case (OpDeleteV2 i)
  then show "within_limits s \<Longrightarrow> ?thesis"
    by (auto simp: delete_incoming_v2_def intro!: limits_keeps)
      (auto simp: within_limits_def io_next_def fmsize_bounds simp del: fmdom_drop)
qed (auto simp: sender_defs save_challenge_code_def delete_challenge_code_def bind_incoming_peer_id_def
    cleanup_challenge_def within_limits_save_incoming within_limits_removals and_then_fst
    intro!: limits_keeps split: option.splits, auto simp: within_limits_def io_next_def)

interpretation boxes: machine "inbox_step X" within_limits
  for X
  by unfold_locales (rule within_limits_step)

definition empty_inbox :: "bool list \<Rightarrow> inbox" where
  "empty_inbox faults =
     \<lparr>inc_json = fmempty, inc_challenge = fmempty, inc_peer = fmempty, out_json = fmempty, out_peer = fmempty,
      v2_json = fmempty, io = faults\<rparr>"

text \<open>
  In every sequence of inbox operations, with any pattern of failing writes, neither incoming
  directory ever holds more than ten thousand envelopes.
\<close>

theorem inbox_capacity:
  "fmsize (inc_json (foldl (inbox_step X) (empty_inbox faults) ops)) \<le> 10000 \<and>
   fmsize (v2_json (foldl (inbox_step X) (empty_inbox faults) ops)) \<le> 10000"
  using boxes.inv_run [of "empty_inbox faults" X ops]
  by (simp add: within_limits_def empty_inbox_def MAX_ENVELOPES_def fcard_fempty)

section \<open>Sender bindings\<close>

lemma inc_peer_io_next [simp]: "inc_peer (io_next s) = inc_peer s"
  by (simp add: io_next_def)

lemma peer_kept_removals [simp]: "inc_peer (fst (remove_json i s)) = inc_peer s"
  by (simp add: remove_json_def attempt_def)

lemma peer_kept_delete: "j \<noteq> i \<Longrightarrow> fmlookup (inc_peer (fst (delete_incoming i s))) j = fmlookup (inc_peer s) j"
  unfolding delete_incoming_def
  by (rule and_then_keeps [where P = "\<lambda>t. fmlookup (inc_peer t) j = fmlookup (inc_peer s) j"],
      rule and_then_keeps [where P = "\<lambda>t. fmlookup (inc_peer t) j = fmlookup (inc_peer s) j"])
    (auto simp: remove_peer_def attempt_def)

lemma peer_kept_step:
  assumes "i |\<in>| fmdom (inc_peer s)" and "op \<noteq> OpDeleteIncoming i"
  shows "fmlookup (inc_peer (inbox_step X s op)) i = fmlookup (inc_peer s) i"
proof (cases op)
  case (OpDeleteIncoming j)
  with assms show ?thesis by (simp add: peer_kept_delete)
next
  case (OpBind j p)
  with assms show ?thesis by (auto simp: bind_incoming_peer_id_def attempt_def split: option.splits)
next
  case (OpExpireAll now ins outs)
  then show ?thesis by (simp add: expire_all_keeps)
next
  case (OpStepV2 j e n)
  then show ?thesis by (simp add: step_v2_keeps)
qed (simp_all add: sender_defs save_incoming_def update_incoming_state_def cleanup_challenge_def
    save_challenge_code_def delete_challenge_code_def store_incoming_v2_new_def delete_incoming_v2_def
    attempt_def and_then_fst Let_def split: option.splits)

lemma peer_kept_run:
  "i |\<in>| fmdom (inc_peer s) \<Longrightarrow> OpDeleteIncoming i \<notin> set ops \<Longrightarrow>
     fmlookup (inc_peer (foldl (inbox_step X) s ops)) i = fmlookup (inc_peer s) i"
proof (induction ops arbitrary: s)
  case (Cons op ops)
  then have "fmlookup (inc_peer (inbox_step X s op)) i = fmlookup (inc_peer s) i" by (intro peer_kept_step) auto
  moreover from this have "i |\<in>| fmdom (inc_peer (inbox_step X s op))"
    using Cons.prems by (simp add: fmlookup_dom_iff)
  ultimately show ?case using Cons by simp
qed simp

lemma bind_binds:
  assumes "snd (bind_incoming_peer_id X i p s) = Inr ()" and "trim X p = p"
  shows "incoming_peer_is_bound X (fst (bind_incoming_peer_id X i p s)) i p"
  using assms
  by (auto simp: bind_incoming_peer_id_def incoming_peer_is_bound_def load_incoming_peer_id_def read_doc_def
      attempt_def split: if_splits option.splits)

lemma bound_in_dom: "incoming_peer_is_bound X s i p \<Longrightarrow> i |\<in>| fmdom (inc_peer s)"
  by (auto simp: incoming_peer_is_bound_def load_incoming_peer_id_def read_doc_def fmlookup_dom_iff
      split: option.splits)

text \<open>
  A sender binding is immutable. Once binding an identifier to a peer succeeded, that peer and no
  other passes the binding check after any operations, later binding attempts and write failures
  included, until the envelope itself is deleted.
\<close>

theorem peer_binding_immutable:
  assumes "snd (bind_incoming_peer_id X i p s) = Inr ()" and "trim X p = p"
    and "OpDeleteIncoming i \<notin> set ops"
  shows "incoming_peer_is_bound X (foldl (inbox_step X) (fst (bind_incoming_peer_id X i p s)) ops) i q \<longleftrightarrow> q = p"
proof -
  let ?s = "fst (bind_incoming_peer_id X i p s)"
  have b: "incoming_peer_is_bound X ?s i p" by (rule bind_binds) (use assms in auto)
  then have "fmlookup (inc_peer (foldl (inbox_step X) ?s ops)) i = fmlookup (inc_peer ?s) i"
    using bound_in_dom [OF b] assms(3) by (rule_tac peer_kept_run)
  with b show ?thesis
    by (auto simp: incoming_peer_is_bound_def load_incoming_peer_id_def read_doc_def)
qed

theorem peer_binding_immutable_witness:
  "\<forall>q. incoming_peer_is_bound demo_ext
     (foldl (inbox_step demo_ext) (fst (bind_incoming_peer_id demo_ext ''a'' [65] (empty_inbox [])))
        [OpBind ''a'' [66], OpSaveIncoming demo_env]) ''a'' q = (q = [65])"
  by (intro allI peer_binding_immutable)
    (simp_all add: bind_incoming_peer_id_def empty_inbox_def attempt_def io_ok_def trim_def is_whitespace_def)

section \<open>Deletion\<close>

text \<open>
  A deletion that reports success leaves nothing of the envelope behind: neither the envelope nor
  its confirmation code nor its sender binding, whatever was on disk before.
\<close>

theorem delete_incoming_complete:
  assumes "delete_incoming i s = (s', Inr ())"
  shows "i |\<notin>| fmdom (inc_json s') \<and> i |\<notin>| fmdom (inc_challenge s') \<and> i |\<notin>| fmdom (inc_peer s')"
  using assms
  by (auto simp: delete_incoming_def remove_json_def remove_challenge_def remove_peer_def io_defs
      split: if_splits)

theorem delete_incoming_complete_witness:
  "''a'' |\<notin>| fmdom (inc_challenge (fst (delete_incoming ''a''
     ((empty_inbox [])\<lparr>inc_challenge := fmupd ''a'' (Some [50]) fmempty\<rparr>))))"
  using delete_incoming_complete [of "''a''" "(empty_inbox [])\<lparr>inc_challenge := fmupd ''a'' (Some [50]) fmempty\<rparr>"
      "empty_inbox []"]
  by (simp add: delete_incoming_def remove_json_def remove_challenge_def remove_peer_def io_defs empty_inbox_def io_ok_def)

section \<open>Expiry sweep\<close>

lemma io_empty_keeps [simp]: "io s = [] \<Longrightarrow> io_next s = s"
  by (cases s) (simp add: io_next_def)

lemma attempt_ok: "io s = [] \<Longrightarrow> attempt f s = (f s, Inr ())"
  by (simp add: attempt_def io_ok_def)

lemma check_expiry_idem [simp]: "check_expiry (check_expiry env now) now = check_expiry env now"
  by (simp add: check_expiry_def is_expired_def)

lemma remove_challenge_ok:
  assumes "io s = []"
  shows "fmlookup (inc_challenge (fst (remove_challenge i s))) j = (if j = i then None else fmlookup (inc_challenge s) j)"
    and "io (fst (remove_challenge i s)) = []"
  using assms by (auto simp: remove_challenge_def attempt_ok fmlookup_None_iff)

lemma expire_incoming_load:
  "io s = [] \<Longrightarrow> load_incoming (expire_incoming now s i) j =
      (if j = i then map_option (\<lambda>e. check_expiry e now) (load_incoming s i) else load_incoming s j)"
  unfolding load_incoming_def [of "expire_incoming now s i"] expire_incoming_json
  by (cases "load_incoming s i")
    (auto simp: load_incoming_def read_doc_def check_expiry_def io_ok_def split: option.split_asm)

lemma expire_incoming_sidecar:
  assumes "io s = []"
  shows "fmlookup (inc_challenge (expire_incoming now s i)) j =
      (if j = i \<and> (\<exists>e. load_incoming s i = Some e \<and> is_terminal (env_state (check_expiry e now)))
       then None else fmlookup (inc_challenge s) j)"
    and "io (expire_incoming now s i) = []"
    and "out_json (expire_incoming now s i) = out_json s"
  using assms
  by (cases "load_incoming s i";
      simp add: expire_incoming_def cleanup_challenge_def remove_challenge_ok attempt_ok check_expiry_def Let_def)+

lemmas expire_incoming_ok = expire_incoming_load expire_incoming_sidecar

lemma expire_incoming_run:
  "io s = [] \<Longrightarrow>
     load_incoming (foldl (expire_incoming now) s ins) i =
       (if i \<in> set ins then map_option (\<lambda>e. check_expiry e now) (load_incoming s i) else load_incoming s i) \<and>
     fmlookup (inc_challenge (foldl (expire_incoming now) s ins)) i =
       (if i \<in> set ins \<and> (\<exists>e. load_incoming s i = Some e \<and> is_terminal (env_state (check_expiry e now)))
        then None else fmlookup (inc_challenge s) i) \<and>
     io (foldl (expire_incoming now) s ins) = [] \<and>
     out_json (foldl (expire_incoming now) s ins) = out_json s"
proof (induction ins arbitrary: s)
  case (Cons j ins)
  show ?case
    using Cons.IH [OF expire_incoming_sidecar(2) [OF Cons.prems, of now j]] Cons.prems
    by (cases "load_incoming s i") (auto simp: expire_incoming_ok option.map_comp comp_def)
qed simp

lemma expire_outgoing_ok:
  assumes "io s = []"
  shows "load_outgoing (expire_outgoing now s i) j =
      (if j = i then map_option (\<lambda>e. check_expiry e now) (load_outgoing s i) else load_outgoing s j)"
    and "io (expire_outgoing now s i) = []"
  using assms
  by (cases "load_outgoing s i";
      force simp: expire_outgoing_def attempt_ok check_expiry_def load_outgoing_def read_doc_def
        split: option.split_asm)+

lemma expire_outgoing_run:
  "io s = [] \<Longrightarrow>
     load_outgoing (foldl (expire_outgoing now) s outs) i =
       (if i \<in> set outs then map_option (\<lambda>e. check_expiry e now) (load_outgoing s i) else load_outgoing s i)"
proof (induction outs arbitrary: s)
  case (Cons j outs)
  show ?case
    using Cons.IH [OF expire_outgoing_ok(2) [OF Cons.prems, of now j]] Cons.prems
    by (cases "load_outgoing s i") (auto simp: expire_outgoing_ok option.map_comp comp_def)
qed simp

lemma expire_outgoing_challenge: "inc_challenge (foldl (expire_outgoing now) s outs) = inc_challenge s"
  by (rule foldl_keeps) (rule expire_outgoing_keeps)

lemma load_outgoing_cong: "out_json s = out_json t \<Longrightarrow> load_outgoing s i = load_outgoing t i"
  by (simp add: load_outgoing_def)

text \<open>
  The sweep is the per-envelope expiry check applied to every file. When no write fails and the
  directory listings name every file, each readable incoming and outgoing envelope afterwards is
  \<open>check_expiry\<close> of what it was, in whatever order the files are visited, and no ended incoming
  envelope keeps its confirmation code.
\<close>

theorem expire_all_is_check_expiry:
  assumes "io s = []" and "fset (fmdom (inc_json s)) \<subseteq> set ins" and "fset (fmdom (out_json s)) \<subseteq> set outs"
  shows "load_incoming (expire_all now ins outs s) i = map_option (\<lambda>e. check_expiry e now) (load_incoming s i) \<and>
    load_outgoing (expire_all now ins outs s) i = map_option (\<lambda>e. check_expiry e now) (load_outgoing s i) \<and>
    (\<forall>e. load_incoming (expire_all now ins outs s) i = Some e \<and> is_terminal (env_state e) \<longrightarrow>
       load_challenge_code (expire_all now ins outs s) i = None)"
proof -
  let ?m = "foldl (expire_incoming now) s ins"
  have m: "io ?m = []" "out_json ?m = out_json s" using expire_incoming_run [OF assms(1)] by blast+
  have j: "inc_json (expire_all now ins outs s) = inc_json ?m" by (rule expire_all_json)
  have li: "load_incoming (expire_all now ins outs s) i = map_option (\<lambda>e. check_expiry e now) (load_incoming s i)"
    using expire_incoming_run [OF assms(1), of now ins i] assms(2) load_in_dom [of s i]
    by (cases "load_incoming s i") (auto simp: j load_incoming_def)
  have out_dom: "i \<in> set outs" if "load_outgoing s i \<noteq> None"
    using that assms(3) by (auto simp: load_outgoing_def read_doc_def fmlookup_dom_iff split: option.splits)
  have lo: "load_outgoing (expire_all now ins outs s) i = map_option (\<lambda>e. check_expiry e now) (load_outgoing s i)"
    using expire_outgoing_run [OF m(1), of now outs i] out_dom load_outgoing_cong [OF m(2), of i]
    by (cases "load_outgoing s i") (auto simp: expire_all_def)
  have ch: "fmlookup (inc_challenge (expire_all now ins outs s)) i = fmlookup (inc_challenge ?m) i"
    by (simp add: expire_all_def expire_outgoing_challenge)
  have "load_challenge_code (expire_all now ins outs s) i = None"
    if "load_incoming (expire_all now ins outs s) i = Some e" "is_terminal (env_state e)" for e
    using that li ch expire_incoming_run [OF assms(1), of now ins i] assms(2) load_in_dom [of s i]
    by (cases "load_incoming s i") (auto simp: load_challenge_code_def read_doc_def)
  with li lo show ?thesis by blast
qed

definition demo_box :: inbox where
  "demo_box = (empty_inbox [])\<lparr>inc_json := fmupd ''a'' (Some (demo_env\<lparr>env_state := Confirmed\<rparr>)) fmempty,
     inc_challenge := fmupd ''a'' (Some demo_code) fmempty\<rparr>"

theorem expire_all_is_check_expiry_witness:
  "load_incoming (expire_all 9000 [''a''] [] demo_box) ''a'' = Some (demo_env\<lparr>env_state := Expired\<rparr>) \<and>
   load_challenge_code (expire_all 9000 [''a''] [] demo_box) ''a'' = None"
  using expire_all_is_check_expiry [of demo_box "[''a'']" "[]" 9000 "''a''"]
  by (simp add: demo_box_def empty_inbox_def load_incoming_def read_doc_def check_expiry_def is_expired_def demo_env_def)

section \<open>Stored records follow the state machine\<close>

lemma load_v2_upd: "read_doc (fmupd i v d) j = (if j = i then v else read_doc d j)"
  by (simp add: read_doc_def split: option.splits)

lemma load_v2_drop: "read_doc (fmdrop i d) j = (if j = i then None else read_doc d j)"
  by (simp add: read_doc_def)

lemma step_v2_result:
  "snd (step_incoming_v2 X i e n s) =
     (case load_incoming_v2 s i of
        None \<Rightarrow> Inl Unreadable
      | Some r \<Rightarrow>
          (case snd (step_incoming X r e n) of
             Inl Illegal \<Rightarrow> Inl StepIllegal
           | Inl Panicked \<Rightarrow> Inl StepPanicked
           | Inr fx \<Rightarrow> if fx_no_write fx \<or> io_ok s then Inr fx else Inl IoError))"
  by (simp add: step_incoming_v2_def io_defs split: option.splits prod.splits sum.splits step_error.splits)

lemma no_write_unchanged:
  "step_incoming X r e n = (r', Inr fx) \<Longrightarrow> fx_no_write fx \<Longrightarrow> r' = r \<and> \<not> fx_delete_file fx"
  using row_effects by (fastforce simp: step_incoming_row local_upd_idle)

lemma step_v2_other: "j \<noteq> i \<Longrightarrow> load_incoming_v2 (fst (step_incoming_v2 X i e n s)) j = load_incoming_v2 s j"
  by (simp add: load_incoming_v2_def [of "fst (step_incoming_v2 X i e n s)"] step_v2_json load_v2_upd load_v2_drop
      split: option.splits prod.splits sum.splits) (simp add: load_incoming_v2_def)

text \<open>
  A stored record moves exactly as the state machine says and only when the call succeeds. After
  a failed call, a write failure included, the record on disk is the old one; after a successful one
  it is the stepped record, or gone when the step asks for deletion. Records of other identifiers
  never change.
\<close>

theorem step_v2_refines:
  "(case snd (step_incoming_v2 X i e n s) of
      Inl _ \<Rightarrow> load_incoming_v2 (fst (step_incoming_v2 X i e n s)) i = load_incoming_v2 s i
    | Inr fx \<Rightarrow>
        (\<exists>r r'. load_incoming_v2 s i = Some r \<and> step_incoming X r e n = (r', Inr fx) \<and>
           load_incoming_v2 (fst (step_incoming_v2 X i e n s)) i = (if fx_delete_file fx then None else Some r'))) \<and>
   (j = i \<or> load_incoming_v2 (fst (step_incoming_v2 X i e n s)) j = load_incoming_v2 s j)"
proof (cases "load_incoming_v2 s i")
  case None
  then show ?thesis by (simp add: step_v2_result load_incoming_v2_def step_v2_json)
next
  case (Some r)
  obtain r' res where step: "step_incoming X r e n = (r', res)" by fastforce
  show ?thesis
  proof (cases res)
    case (Inl err)
    then show ?thesis using Some step
      by (cases err) (simp_all add: step_v2_result load_incoming_v2_def step_v2_json)
  next
    case (Inr fx)
    then show ?thesis using Some step no_write_unchanged [of X r e n r' fx]
      by (auto simp: step_v2_result load_incoming_v2_def step_v2_json load_v2_upd load_v2_drop)
  qed
qed

text \<open>Every record on disk is a run of the state machine from what was stored.\<close>

definition stores_v2 :: "ext \<Rightarrow> string \<Rightarrow> inbox_op \<Rightarrow> bool" where
  "stores_v2 X i op = (case op of OpStoreV2 r \<Rightarrow> id_hex X (ir_wire r) = i | _ \<Rightarrow> False)"

definition reached :: "ext \<Rightarrow> incoming_record \<Rightarrow> incoming_record option \<Rightarrow> bool" where
  "reached X r x \<longleftrightarrow> (\<forall>r'. x = Some r' \<longrightarrow> (\<exists>es. r' = foldl (istep X) r es))"

lemma v2_kept_step:
  "(\<And>e n. op \<noteq> OpStepV2 i e n) \<Longrightarrow> \<not> stores_v2 X i op \<Longrightarrow>
     load_incoming_v2 (inbox_step X s op) i \<in> {None, load_incoming_v2 s i}"
proof (cases op)
  case (OpDeleteIncoming j)
  have "v2_json (fst (delete_incoming j s)) = v2_json s"
    unfolding delete_incoming_def
    by (rule and_then_keeps [where P = "\<lambda>t. v2_json t = v2_json s"],
        rule and_then_keeps [where P = "\<lambda>t. v2_json t = v2_json s"])
      (auto simp: remove_json_def remove_challenge_def remove_peer_def attempt_def io_next_def)
  then show ?thesis by (simp add: OpDeleteIncoming load_incoming_v2_def)
next
  case (OpStepV2 j e n)
  assume "\<And>e n. op \<noteq> OpStepV2 i e n"
  with OpStepV2 have "j \<noteq> i" by auto
  then show ?thesis using step_v2_other by (simp add: OpStepV2)
qed (auto simp: load_incoming_v2_def stores_v2_def load_v2_upd load_v2_drop expire_all_keeps sender_defs
    save_incoming_def update_incoming_state_def cleanup_challenge_def save_challenge_code_def
    delete_challenge_code_def bind_incoming_peer_id_def store_incoming_v2_new_def delete_incoming_v2_def
    attempt_def io_next_def and_then_fst Let_def split: option.splits)

lemma reached_step:
  assumes "reached X r (load_incoming_v2 s i)" and "\<not> stores_v2 X i op"
  shows "reached X r (load_incoming_v2 (inbox_step X s op) i)"
proof (cases "\<exists>e n. op = OpStepV2 i e n")
  case True
  then obtain e n where op: "op = OpStepV2 i e n" by blast
  { fix q r' fx assume q: "load_incoming_v2 s i = Some q" and "step_incoming X q e n = (r', Inr fx)"
    then obtain es where "q = foldl (istep X) r es" using assms(1) by (auto simp: reached_def)
    with \<open>step_incoming X q e n = (r', Inr fx)\<close> have "r' = foldl (istep X) r (es @ [(e, n)])"
      by (simp add: istep_def)
    then have "\<exists>es. r' = foldl (istep X) r es" by blast }
  with assms(1) show ?thesis
    unfolding op reached_def
    by (auto simp: load_incoming_v2_def [of "fst (step_incoming_v2 X i e n s)"] step_v2_json load_v2_upd load_v2_drop
        split: option.splits prod.splits sum.splits if_splits)
       (auto simp: load_incoming_v2_def)
next
  case False
  then show ?thesis using v2_kept_step [of op i X s] assms by (auto simp: reached_def)
qed

text \<open>
  C28: whatever the inbox does, interleaved in any order and with any write failures, a record found on
  disk under an identifier is the result of running events of the state machine on the record that
  was there, as long as no new record is stored under the identifier. So the guarantees of the state
  machine hold of the disk.
\<close>

theorem v2_record_history:
  assumes "load_incoming_v2 s i = Some r" and "\<forall>op\<in>set ops. \<not> stores_v2 X i op"
    and "load_incoming_v2 (foldl (inbox_step X) s ops) i = Some r'"
  shows "\<exists>es. r' = foldl (istep X) r es"
proof -
  have "reached X r (load_incoming_v2 s i)"
    unfolding reached_def using assms(1) by (auto intro: exI [of _ "[]"])
  then have "reached X r (load_incoming_v2 (foldl (inbox_step X) s ops) i)"
    using assms(2) by (induction ops arbitrary: s) (auto simp: reached_step)
  with assms(3) show ?thesis by (auto simp: reached_def)
qed

definition demo_v2_box :: inbox where
  "demo_v2_box = (empty_inbox [])\<lparr>v2_json := fmupd ''a'' (Some demo_incoming) fmempty\<rparr>"

theorem v2_record_history_witness:
  "\<exists>r' es. load_incoming_v2 (foldl (inbox_step demo_ext) demo_v2_box [OpStepV2 ''a'' RecipientDelete demo_now]) ''a''
      = Some r' \<and> effective_state r' = RecipientDeleted \<and> r' = foldl (istep demo_ext) demo_incoming es"
proof -
  have r: "step_incoming demo_ext demo_incoming RecipientDelete demo_now =
      (fst (step_incoming demo_ext demo_incoming RecipientDelete demo_now), Inr fx_end)"
    and d: "effective_state (fst (step_incoming demo_ext demo_incoming RecipientDelete demo_now)) = RecipientDeleted"
    by (simp_all add: demo_incoming_def new_incoming_def step_incoming_def step_local_def step_parts effective_state_def)
  have l: "load_incoming_v2 (foldl (inbox_step demo_ext) demo_v2_box [OpStepV2 ''a'' RecipientDelete demo_now]) ''a''
      = Some (fst (step_incoming demo_ext demo_incoming RecipientDelete demo_now))"
    by (simp add: load_incoming_v2_def step_v2_json demo_v2_box_def empty_inbox_def io_ok_def load_v2_upd, subst r)
      (simp add: no_effects_def load_v2_upd)
  have "load_incoming_v2 demo_v2_box ''a'' = Some demo_incoming"
    by (simp add: load_incoming_v2_def demo_v2_box_def load_v2_upd)
  from v2_record_history [OF this _ l] d l show ?thesis by (auto simp: stores_v2_def)
qed

end
