(* ===== verification/Directed_Protocol.thy ===== *)
theory Directed_Protocol
  imports Directed_Inbox
begin

text \<open>
  The first version of the directed sharing protocol: the inbound request handler of the network task
  (\<^verbatim>\<open>handle_directed_sharing_event\<close> in \<^verbatim>\<open>crates/miasma-core/src/network/node.rs\<close>), the
  daemon's side of it (the topology events, confirmation, retrieval, revocation and collection from
  holders in \<^verbatim>\<open>crates/miasma-core/src/daemon/mod.rs\<close>), and the messages of
  \<^verbatim>\<open>directed/protocol.rs\<close>. A peer is its textual identifier as the transport authenticated it.
\<close>

section \<open>Messages and node state\<close>

datatype directed_request =
    ReqInvite directed_envelope
  | ReqConfirm bytes ustr
  | ReqSenderRevoke bytes
  | ReqStatusQuery bytes

datatype reject =
    UnsupportedVersion u8 | NoRecipientKey | RecipientMismatch | BadRetention retention_window_error
  | PersistenceUnavailable | OpenInbox | AlreadyExists | AlreadyClaimed | QueueUnavailable
  | Unauthorized | NotChallengeIssued envelope_state | ChallengeExpired | NoChallengeHash
  | Persist inbox_error | CannotRevoke envelope_state | NotAvailable | StatusViaIpc

datatype directed_response =
    InviteAccepted bytes
  | RespConfirmed bytes
  | RespChallengeFailed bytes u8
  | RespRevoked bytes
  | RespStatus bytes envelope_state
  | RespError reject

text \<open>\<open>Panic\<close> is the panic of the challenge check, which unwinds out of the handler.\<close>

datatype reply = Reply directed_response | Panic

datatype topology_event =
    PeerConnected ustr
  | PeerRoutable ustr
  | PeerDisconnected ustr
  | DirectedEnvelopeReceived ustr directed_envelope
  | DirectedRevokeReceived bytes

definition TOPOLOGY_QUEUE :: nat where "TOPOLOGY_QUEUE = 64"

text \<open>
  \<open>nd_retrievals\<close> are the local calls of a retrieval that wait for the network, each with the copy of the envelope it
  loaded before: the variables of the suspended function.
\<close>

record node =
  nd_key :: "bytes option"
  nd_data_dir :: bool
  nd_can_open :: bool
  nd_box :: inbox
  nd_topology :: "topology_event list option"
  nd_retrievals :: "(string \<times> directed_envelope) list"

section \<open>Inbound requests\<close>

definition handle_invite :: "ext \<Rightarrow> node \<Rightarrow> ustr \<Rightarrow> directed_envelope \<Rightarrow> u64 \<Rightarrow> node \<times> reply" where
  "handle_invite X nd peer env now =
     (if version env \<noteq> 1 then (nd, Reply (RespError (UnsupportedVersion (version env))))
      else if nd_key nd = None then (nd, Reply (RespError NoRecipientKey))
      else if nd_key nd \<noteq> Some (recipient_pubkey env) then (nd, Reply (RespError RecipientMismatch))
      else (case normalize_received_retention env now of
          Inl reason \<Rightarrow> (nd, Reply (RespError (BadRetention reason)))
        | Inr env' \<Rightarrow>
            if \<not> nd_data_dir nd then (nd, Reply (RespError PersistenceUnavailable))
            else if \<not> nd_can_open nd then (nd, Reply (RespError OpenInbox))
            else (let i = id_hex X env' in
              if load_incoming (nd_box nd) i \<noteq> None then
                (if incoming_peer_is_bound X (nd_box nd) i peer
                 then (nd, Reply (InviteAccepted (envelope_id env')))
                 else (nd, Reply (RespError AlreadyExists)))
              else (case nd_topology nd of
                  None \<Rightarrow> (nd, Reply (RespError PersistenceUnavailable))
                | Some q \<Rightarrow>
                    (case bind_incoming_peer_id X i peer (nd_box nd) of
                       (b, Inl _) \<Rightarrow> (nd\<lparr>nd_box := b\<rparr>, Reply (RespError AlreadyClaimed))
                     | (b, Inr _) \<Rightarrow>
                         if length q < TOPOLOGY_QUEUE
                         then (nd\<lparr>nd_box := b, nd_topology := Some (q @ [DirectedEnvelopeReceived peer env'])\<rparr>,
                               Reply (InviteAccepted (envelope_id env')))
                         else (nd\<lparr>nd_box := b\<rparr>, Reply (RespError QueueUnavailable)))))))"

text \<open>Persisting an ended or confirmed envelope: the code file goes only when the write succeeded.\<close>

definition save_and_clean ::
  "ext \<Rightarrow> inbox \<Rightarrow> string \<Rightarrow> directed_envelope \<Rightarrow> bool \<Rightarrow> directed_response \<Rightarrow> inbox \<times> directed_response" where
  "save_and_clean X b i env clean resp =
     (case save_incoming X env b of
        (b', Inr _) \<Rightarrow> (if clean then cleanup_challenge i b' else b', resp)
      | (b', Inl e) \<Rightarrow> (b', RespError (Persist e)))"

definition confirm_envelope ::
  "ext \<Rightarrow> inbox \<Rightarrow> string \<Rightarrow> bytes \<Rightarrow> directed_envelope \<Rightarrow> ustr \<Rightarrow> u64 \<Rightarrow> (inbox \<times> directed_response) option" where
  "confirm_envelope X b i eid env code now =
     (if env_state env \<noteq> ChallengeIssued then Some (b, RespError (NotChallengeIssued (env_state env)))
      else if challenge_attempts_remaining env = 0 then
        Some (save_and_clean X b i (env\<lparr>env_state := ChallengeFailed\<rparr>) True (RespChallengeFailed eid 0))
      else if challenge_expires_at env = 0 \<or> challenge_expires_at env < now then
        Some (save_and_clean X b i (env\<lparr>env_state := ChallengeFailed\<rparr>) True (RespError ChallengeExpired))
      else (case challenge_hash env of
          None \<Rightarrow> Some (b, RespError NoChallengeHash)
        | Some h \<Rightarrow>
            (case verify_challenge X code h of
               None \<Rightarrow> None
             | Some True \<Rightarrow>
                 Some (save_and_clean X b i (env\<lparr>env_state := Confirmed\<rparr>) True (RespConfirmed eid))
             | Some False \<Rightarrow>
                 (let left = saturating_sub (challenge_attempts_remaining env) 1;
                      env1 = env\<lparr>challenge_attempts_remaining := left\<rparr>;
                      env2 = (if left = 0 then env1\<lparr>env_state := ChallengeFailed\<rparr> else env1)
                  in Some (save_and_clean X b i env2 (left = 0) (RespChallengeFailed eid left))))))"

definition handle_confirm :: "ext \<Rightarrow> node \<Rightarrow> ustr \<Rightarrow> bytes \<Rightarrow> ustr \<Rightarrow> u64 \<Rightarrow> node \<times> reply" where
  "handle_confirm X nd peer eid code now =
     (let i = hex_encode X eid in
      if \<not> nd_data_dir nd then (nd, Reply (RespError NotAvailable))
      else if \<not> nd_can_open nd then (nd, Reply (RespError OpenInbox))
      else if \<not> incoming_peer_is_bound X (nd_box nd) i peer then (nd, Reply (RespError Unauthorized))
      else (case load_incoming (nd_box nd) i of
          None \<Rightarrow> (nd, Reply (RespError Unauthorized))
        | Some env \<Rightarrow>
            (case confirm_envelope X (nd_box nd) i eid env code now of
               None \<Rightarrow> (nd, Panic)
             | Some (b, resp) \<Rightarrow> (nd\<lparr>nd_box := b\<rparr>, Reply resp))))"

definition handle_sender_revoke :: "ext \<Rightarrow> node \<Rightarrow> ustr \<Rightarrow> bytes \<Rightarrow> node \<times> reply" where
  "handle_sender_revoke X nd peer eid =
     (let i = hex_encode X eid in
      if \<not> nd_data_dir nd then (nd, Reply (RespError NotAvailable))
      else if \<not> nd_can_open nd then (nd, Reply (RespError OpenInbox))
      else if \<not> incoming_peer_is_bound X (nd_box nd) i peer then (nd, Reply (RespError Unauthorized))
      else (case load_incoming (nd_box nd) i of
          None \<Rightarrow> (nd, Reply (RespError Unauthorized))
        | Some env \<Rightarrow>
            if env_state env = SenderRevoked then (nd, Reply (RespRevoked eid))
            else if is_terminal (env_state env) then (nd, Reply (RespError (CannotRevoke (env_state env))))
            else (let (b, resp) = save_and_clean X (nd_box nd) i (env\<lparr>env_state := SenderRevoked\<rparr>) True (RespRevoked eid)
                  in (nd\<lparr>nd_box := b\<rparr>, Reply resp))))"

fun handle_directed_request :: "ext \<Rightarrow> node \<Rightarrow> ustr \<Rightarrow> directed_request \<Rightarrow> u64 \<Rightarrow> node \<times> reply" where
  "handle_directed_request X nd peer (ReqInvite env) now = handle_invite X nd peer env now"
| "handle_directed_request X nd peer (ReqConfirm eid code) now = handle_confirm X nd peer eid code now"
| "handle_directed_request X nd peer (ReqSenderRevoke eid) now = handle_sender_revoke X nd peer eid"
| "handle_directed_request X nd peer (ReqStatusQuery eid) now = (nd, Reply (RespError StatusViaIpc))"

section \<open>The daemon\<close>

text \<open>
  The daemon stores a queued envelope: the sender's bytes first, then the code file, then the
  envelope again with the security-sensitive fields set locally. \<open>idxs\<close> are the draws of the random
  generator for the code.
\<close>

definition receive_envelope :: "ext \<Rightarrow> ustr \<Rightarrow> directed_envelope \<Rightarrow> nat list \<Rightarrow> u64 \<Rightarrow> inbox \<Rightarrow> inbox" where
  "receive_envelope X peer env idxs now b =
     (let i = id_hex X env in
      if load_incoming b i \<noteq> None then b
      else (case bind_incoming_peer_id X i peer b of
          (b1, Inl _) \<Rightarrow> b1
        | (b1, Inr _) \<Rightarrow>
            (case save_incoming X env b1 of
               (b2, Inl _) \<Rightarrow> b2
             | (b2, Inr _) \<Rightarrow>
                 (let (code, hash) = generate_challenge X idxs;
                      b3 = fst (save_challenge_code i code b2)
                  in case load_incoming b3 i of
                       None \<Rightarrow> b3
                     | Some e \<Rightarrow>
                         fst (save_incoming X
                           (e\<lparr>env_state := ChallengeIssued, challenge_hash := Some hash,
                              challenge_attempts_remaining := CHALLENGE_MAX_ATTEMPTS,
                              password_attempts_remaining := PASSWORD_MAX_ATTEMPTS,
                              challenge_expires_at := saturating_add now CHALLENGE_TTL_SECS\<rparr>) b3)))))"

fun handle_topology :: "ext \<Rightarrow> topology_event \<Rightarrow> nat list \<Rightarrow> u64 \<Rightarrow> inbox \<Rightarrow> inbox" where
  "handle_topology X (DirectedEnvelopeReceived peer env) idxs now b = receive_envelope X peer env idxs now b"
| "handle_topology X (DirectedRevokeReceived eid) idxs now b =
     fst (update_incoming_state X (hex_encode X eid) SenderRevoked b)"
| "handle_topology X _ idxs now b = b"

definition topology_recv :: "ext \<Rightarrow> node \<Rightarrow> nat list \<Rightarrow> u64 \<Rightarrow> node" where
  "topology_recv X nd idxs now =
     (case nd_topology nd of
        Some (ev # q) \<Rightarrow>
          nd\<lparr>nd_topology := Some q,
             nd_box := (if nd_can_open nd then handle_topology X ev idxs now (nd_box nd) else nd_box nd)\<rparr>
      | _ \<Rightarrow> nd)"

text \<open>
  Retrieval asks, in this order, for the decrypted payload, the content key, the parsed content
  identifier and the content from the network, and finally decrypts it; the fields are the outcomes
  of these calls.
\<close>

record retrieval =
  rt_payload :: bool
  rt_key :: bool
  rt_mid :: bool
  rt_network :: bool
  rt_plaintext :: "bytes option"

datatype retrieve_error =
    LoadFailed | NotRetrievable envelope_state | EnvelopeExpired | NoPasswordAttempts
  | RetrievalFailed | WrongPassword u8

text \<open>The part up to the request to the network, and the part after its answer, which still has the envelope of the first.\<close>

definition retrieve_begin ::
  "ext \<Rightarrow> string \<Rightarrow> u64 \<Rightarrow> retrieval \<Rightarrow> inbox \<Rightarrow> inbox \<times> (retrieve_error + directed_envelope)" where
  "retrieve_begin X i now rt b =
     (case load_incoming b i of
        None \<Rightarrow> (b, Inl LoadFailed)
      | Some env \<Rightarrow>
          if \<not> is_retrievable (env_state env) then (b, Inl (NotRetrievable (env_state env)))
          else if is_expired env now then
            (fst (save_incoming X (env\<lparr>env_state := Expired\<rparr>) b), Inl EnvelopeExpired)
          else if password_attempts_remaining env = 0 then
            (fst (save_incoming X (env\<lparr>env_state := PasswordFailed\<rparr>) b), Inl NoPasswordAttempts)
          else if \<not> (rt_payload rt \<and> rt_key rt \<and> rt_mid rt) then (b, Inl RetrievalFailed)
          else (b, Inr env))"

definition retrieve_end ::
  "ext \<Rightarrow> string \<Rightarrow> directed_envelope \<Rightarrow> retrieval \<Rightarrow> inbox \<Rightarrow> inbox \<times> (retrieve_error + bytes)" where
  "retrieve_end X i env rt b =
     (if \<not> rt_network rt then (b, Inl RetrievalFailed)
      else (case rt_plaintext rt of
          Some plaintext \<Rightarrow>
            (cleanup_challenge i (fst (save_incoming X (env\<lparr>env_state := Retrieved\<rparr>) b)), Inr plaintext)
        | None \<Rightarrow>
            (let left = saturating_sub (password_attempts_remaining env) 1;
                 env1 = env\<lparr>password_attempts_remaining := left\<rparr>;
                 env2 = (if left = 0 then env1\<lparr>env_state := PasswordFailed\<rparr> else env1);
                 b1 = (if left = 0 then cleanup_challenge i b else b)
             in (fst (save_incoming X env2 b1), Inl (WrongPassword left)))))"

definition process_directed_retrieve ::
  "ext \<Rightarrow> string \<Rightarrow> u64 \<Rightarrow> retrieval \<Rightarrow> inbox \<Rightarrow> inbox \<times> (retrieve_error + bytes)" where
  "process_directed_retrieve X i now rt b =
     (case retrieve_begin X i now rt b of
        (b1, Inl err) \<Rightarrow> (b1, Inl err)
      | (b1, Inr env) \<Rightarrow> retrieve_end X i env rt b1)"

lemmas retrieve_defs = process_directed_retrieve_def retrieve_begin_def retrieve_end_def

datatype local_error = LocalStorage | LocalTerminal envelope_state | LocalNotFound | WrongCode u8
  | NoPeerStored | BadPeerStored | RecipientRejected | Unreachable | UnexpectedResponse

text \<open>
  Revocation from the local interface, with the request that is sent to the recipient when its
  identifier is on disk and parses (\<open>peer_ok\<close>); the answer is only logged.
\<close>

definition process_directed_revoke ::
  "ext \<Rightarrow> (ustr \<Rightarrow> bool) \<Rightarrow> string \<Rightarrow> bytes \<Rightarrow> inbox \<Rightarrow> inbox \<times> (local_error + (ustr \<times> directed_request) option)" where
  "process_directed_revoke X peer_ok i key b =
     (let incoming =
        (case load_incoming b i of
           Some env \<Rightarrow>
             if recipient_pubkey env = key then
               (if is_terminal (env_state env) then (b, Inl (LocalTerminal (env_state env)))
                else (case save_incoming X (env\<lparr>env_state := RecipientDeleted\<rparr>) b of
                        (b1, Inl _) \<Rightarrow> (b1, Inl LocalStorage)
                      | (b1, Inr _) \<Rightarrow> (cleanup_challenge i b1, Inr None)))
             else (b, Inl LocalNotFound)
         | None \<Rightarrow> (b, Inl LocalNotFound))
      in case load_outgoing b i of
           Some env \<Rightarrow>
             if sender_pubkey env = key then
               (if is_terminal (env_state env) then (b, Inl (LocalTerminal (env_state env)))
                else (case save_outgoing X (env\<lparr>env_state := SenderRevoked\<rparr>) b of
                        (b1, Inl _) \<Rightarrow> (b1, Inl LocalStorage)
                      | (b1, Inr _) \<Rightarrow>
                          (let b2 = cleanup_challenge i b1 in
                           (b2, Inr (case load_outgoing_peer_id b2 i of
                              Some p \<Rightarrow> if peer_ok p then Some (p, ReqSenderRevoke (envelope_id env)) else None
                            | None \<Rightarrow> None)))))
             else incoming
         | None \<Rightarrow> incoming)"

text \<open>The sender's confirmation; \<open>answer\<close> is what the recipient responds, \<open>None\<close> a network error.\<close>

definition process_directed_confirm ::
  "ext \<Rightarrow> (ustr \<Rightarrow> bool) \<Rightarrow> string \<Rightarrow> directed_response option \<Rightarrow> inbox \<Rightarrow> inbox \<times> (local_error + unit)" where
  "process_directed_confirm X peer_ok i answer b =
     (case load_outgoing b i of
        None \<Rightarrow> (b, Inl LocalStorage)
      | Some env \<Rightarrow>
          (case load_outgoing_peer_id b i of
             None \<Rightarrow> (b, Inl NoPeerStored)
           | Some p \<Rightarrow>
               if \<not> peer_ok p then (b, Inl BadPeerStored)
               else (case answer of
                   Some (RespConfirmed _) \<Rightarrow>
                     (case save_outgoing X (env\<lparr>env_state := Confirmed\<rparr>) b of
                        (b1, Inl _) \<Rightarrow> (b1, Inl LocalStorage)
                      | (b1, Inr _) \<Rightarrow> (b1, Inr ()))
                 | Some (RespChallengeFailed _ left) \<Rightarrow>
                     (let env1 = env\<lparr>challenge_attempts_remaining := left\<rparr>;
                          env2 = (if left = 0 then env1\<lparr>env_state := ChallengeFailed\<rparr> else env1)
                      in (fst (save_outgoing X env2 b), Inl (WrongCode left)))
                 | Some (RespError _) \<Rightarrow> (b, Inl RecipientRejected)
                 | None \<Rightarrow> (b, Inl Unreachable)
                 | _ \<Rightarrow> (b, Inl UnexpectedResponse))))"

text \<open>One invite kept by a holder; the argument is what decoding its bytes gave.\<close>

definition collect_directed_invite :: "ext \<Rightarrow> bytes \<Rightarrow> directed_envelope option \<Rightarrow> inbox \<Rightarrow> inbox \<times> bool" where
  "collect_directed_invite X me decoded b =
     (case decoded of
        None \<Rightarrow> (b, False)
      | Some env \<Rightarrow>
          if recipient_pubkey env \<noteq> me then (b, False)
          else (let (b1, r) = save_incoming X env b in (b1, r = Inr ())))"

section \<open>What a save does to the envelopes on disk\<close>

lemma save_incoming_load:
  "load_incoming (fst (save_incoming X env b)) j =
     (if j = id_hex X env \<and> snd (save_incoming X env b) = Inr () then Some env else load_incoming b j)"
  by (auto simp: save_incoming_def attempt_def io_next_def load_incoming_def load_v2_upd)

lemma save_incoming_existing:
  "load_incoming b (id_hex X env) = Some e \<Longrightarrow>
     snd (save_incoming X env b) = (if io_ok b then Inr () else Inl IoError)"
  by (auto simp: save_incoming_def attempt_def dest: load_in_dom)

lemma cleanup_load [simp]: "load_incoming (cleanup_challenge i b) j = load_incoming b j"
  by (simp add: load_incoming_def cleanup_challenge_def)

lemma code_load [simp]: "load_incoming (fst (save_challenge_code i c b)) j = load_incoming b j"
  by (simp add: load_incoming_def save_challenge_code_def attempt_def io_next_def)

lemma bind_load [simp]: "load_incoming (fst (bind_incoming_peer_id X i p b)) j = load_incoming b j"
  by (simp add: load_incoming_def bind_incoming_peer_id_def attempt_def io_next_def split: option.splits)

lemma save_and_clean_existing:
  assumes "load_incoming b (id_hex X env) = Some e"
  shows "load_incoming (fst (save_and_clean X b i env c resp)) j =
      (if j = id_hex X env \<and> io_ok b then Some env else load_incoming b j)"
    and "snd (save_and_clean X b i env c resp) = (if io_ok b then resp else RespError (Persist IoError))"
  using save_incoming_load [of X env b] save_incoming_existing [OF assms]
  by (auto simp: save_and_clean_def split: prod.splits sum.splits if_splits)

text \<open>The envelope a confirmation request writes back, if it writes one.\<close>

definition confirm_change :: "ext \<Rightarrow> directed_envelope \<Rightarrow> ustr \<Rightarrow> u64 \<Rightarrow> directed_envelope option" where
  "confirm_change X env code now =
     (if env_state env \<noteq> ChallengeIssued then None
      else if challenge_attempts_remaining env = 0 \<or> challenge_expires_at env = 0 \<or> challenge_expires_at env < now
      then Some (env\<lparr>env_state := ChallengeFailed\<rparr>)
      else (case challenge_hash env of
          None \<Rightarrow> None
        | Some h \<Rightarrow>
            (case verify_challenge X code h of
               None \<Rightarrow> None
             | Some True \<Rightarrow> Some (env\<lparr>env_state := Confirmed\<rparr>)
             | Some False \<Rightarrow>
                 (let env1 = env\<lparr>challenge_attempts_remaining := challenge_attempts_remaining env - 1\<rparr>
                  in Some (if challenge_attempts_remaining env = 1 then env1\<lparr>env_state := ChallengeFailed\<rparr> else env1)))))"

lemma sat_sub_one: "(w :: u8) \<noteq> 0 \<Longrightarrow> saturating_sub w 1 = w - 1"
  by (simp add: saturating_sub_def) (metis word_gt_0 word_le_nat_alt word_less_nat_alt unat_1 Suc_leI One_nat_def unat_0)

lemma minus_one_zero: "(w :: u8) \<noteq> 0 \<Longrightarrow> (w - 1 = 0) = (w = 1)"
  by (metis diff_self eq_iff_diff_eq_0)

lemma confirm_writes:
  assumes "confirm_change X env code now = Some e"
  shows "\<exists>c r. confirm_envelope X b i eid env code now = Some (save_and_clean X b i e c r)"
    and "id_hex X e = id_hex X env"
proof -
  show "\<exists>c r. confirm_envelope X b i eid env code now = Some (save_and_clean X b i e c r)"
    using assms
    by (cases "challenge_hash env"; cases "verify_challenge X code (the (challenge_hash env))")
      (auto simp: confirm_change_def confirm_envelope_def sat_sub_one minus_one_zero Let_def split: if_splits bool.splits)
  show "id_hex X e = id_hex X env"
    using assms by (auto simp: confirm_change_def id_hex_def Let_def split: if_splits option.splits bool.splits)
qed

lemma confirm_idle:
  assumes "confirm_change X env code now = None" and "confirm_envelope X b i eid env code now = Some (b', resp)"
  shows "b' = b"
  using assms
  by (cases "challenge_hash env"; cases "verify_challenge X code (the (challenge_hash env))")
    (auto simp: confirm_change_def confirm_envelope_def Let_def split: if_splits bool.splits)

lemma confirm_envelope_load:
  assumes "load_incoming b i = Some env" and "id_hex X env = i"
    and "confirm_envelope X b i eid env code now = Some (b', resp)"
  shows "load_incoming b' j =
    (if j = i \<and> io_ok b then (case confirm_change X env code now of Some e \<Rightarrow> Some e | None \<Rightarrow> Some env)
     else load_incoming b j)"
proof (cases "confirm_change X env code now")
  case None
  with assms confirm_idle [OF None assms(3)] show ?thesis by simp
next
  case (Some e)
  obtain c r where "confirm_envelope X b i eid env code now = Some (save_and_clean X b i e c r)"
    using confirm_writes(1) [OF Some] by blast
  with assms(3) have "b' = fst (save_and_clean X b i e c r)" by simp
  with Some confirm_writes(2) [OF Some] assms(1,2) show ?thesis by (simp add: save_and_clean_existing)
qed

section \<open>Steps of a node\<close>

text \<open>
  What happens to a node: the requests of peers, the events the daemon takes from its queue, and the calls of the local
  interface, namely collecting an invite from a holder, the two parts of a retrieval, revoking, confirming an own
  share and expiring. Each runs to its end before the next one; a retrieval is two operations because it lets others in
  while it waits for the network.
\<close>

datatype node_op =
    NRequest ustr directed_request u64
  | NTopology "nat list" u64
  | NPeer topology_event
  | NCollect "directed_envelope option"
  | NRetrieve string u64 retrieval
  | NRetrieved nat retrieval
  | NRevoke "ustr \<Rightarrow> bool" string
  | NConfirm "ustr \<Rightarrow> bool" string "directed_response option"
  | NExpire u64 "string list" "string list"

fun is_peer_event :: "topology_event \<Rightarrow> bool" where
  "is_peer_event (DirectedEnvelopeReceived _ _) = False"
| "is_peer_event (DirectedRevokeReceived _) = False"
| "is_peer_event _ = True"

text \<open>Other parts of the network task put their connection events into the same queue.\<close>

fun node_step :: "ext \<Rightarrow> node \<Rightarrow> node_op \<Rightarrow> node" where
  "node_step X nd (NRequest peer req now) = fst (handle_directed_request X nd peer req now)"
| "node_step X nd (NTopology idxs now) = topology_recv X nd idxs now"
| "node_step X nd (NPeer ev) =
     (case nd_topology nd of
        Some q \<Rightarrow>
          if is_peer_event ev \<and> length q < TOPOLOGY_QUEUE then nd\<lparr>nd_topology := Some (q @ [ev])\<rparr> else nd
      | None \<Rightarrow> nd)"
| "node_step X nd (NCollect decoded) =
     (case nd_key nd of
        Some me \<Rightarrow>
          if nd_can_open nd then nd\<lparr>nd_box := fst (collect_directed_invite X me decoded (nd_box nd))\<rparr> else nd
      | None \<Rightarrow> nd)"
| "node_step X nd (NRetrieve i now rt) =
     (if nd_can_open nd then
        (case retrieve_begin X i now rt (nd_box nd) of
           (b, Inr env) \<Rightarrow> nd\<lparr>nd_box := b, nd_retrievals := nd_retrievals nd @ [(i, env)]\<rparr>
         | (b, Inl _) \<Rightarrow> nd\<lparr>nd_box := b\<rparr>)
      else nd)"
| "node_step X nd (NRetrieved k rt) =
     (if k < length (nd_retrievals nd) then
        (let (i, env) = nd_retrievals nd ! k in
         nd\<lparr>nd_box := fst (retrieve_end X i env rt (nd_box nd)),
            nd_retrievals := take k (nd_retrievals nd) @ drop (Suc k) (nd_retrievals nd)\<rparr>)
      else nd)"
| "node_step X nd (NRevoke peer_ok i) =
     (case nd_key nd of
        Some me \<Rightarrow>
          if nd_can_open nd then nd\<lparr>nd_box := fst (process_directed_revoke X peer_ok i me (nd_box nd))\<rparr> else nd
      | None \<Rightarrow> nd)"
| "node_step X nd (NConfirm peer_ok i answer) =
     (if nd_can_open nd then nd\<lparr>nd_box := fst (process_directed_confirm X peer_ok i answer (nd_box nd))\<rparr> else nd)"
| "node_step X nd (NExpire now ins outs) =
     (if nd_can_open nd then nd\<lparr>nd_box := expire_all now ins outs (nd_box nd)\<rparr> else nd)"

text \<open>
  Every envelope lies under its own identifier, and the queue holds no revocation events: the handler
  revokes directly and nothing else sends them.
\<close>

definition named :: "ext \<Rightarrow> inbox \<Rightarrow> bool" where
  "named X b \<longleftrightarrow> (\<forall>j e. load_incoming b j = Some e \<longrightarrow> id_hex X e = j)"

definition queue_ok :: "node \<Rightarrow> bool" where
  "queue_ok nd \<longleftrightarrow> (\<forall>q eid. nd_topology nd = Some q \<longrightarrow> DirectedRevokeReceived eid \<notin> set q)"

text \<open>A waiting retrieval loaded a confirmed envelope.\<close>

definition waiting_ok :: "ext \<Rightarrow> node \<Rightarrow> bool" where
  "waiting_ok X nd \<longleftrightarrow> list_all (\<lambda>(i, env). id_hex X env = i \<and> env_state env = Confirmed) (nd_retrievals nd)"

definition node_ok :: "ext \<Rightarrow> node \<Rightarrow> bool" where
  "node_ok X nd \<longleftrightarrow> named X (nd_box nd) \<and> queue_ok nd \<and> waiting_ok X nd"

lemma named_save: "named X b \<Longrightarrow> named X (fst (save_incoming X env b))"
  by (auto simp: named_def save_incoming_load)

lemma named_load: "(\<And>j. load_incoming b' j = load_incoming b j) \<Longrightarrow> named X b \<Longrightarrow> named X b'"
  by (simp add: named_def)

lemma receive_envelope_load:
  "load_incoming (receive_envelope X peer env idxs now b) j = load_incoming b j \<or>
   (load_incoming b j = None \<and> j = id_hex X env \<and>
    (\<exists>e. load_incoming (receive_envelope X peer env idxs now b) j = Some e \<and> id_hex X e = j))"
proof (cases "load_incoming b (id_hex X env)")
  case None
  let ?b1 = "fst (bind_incoming_peer_id X (id_hex X env) peer b)"
  obtain b2 r2 where save: "save_incoming X env ?b1 = (b2, r2)" by fastforce
  show ?thesis
  proof (cases "snd (bind_incoming_peer_id X (id_hex X env) peer b)")
    case (Inl e)
    then show ?thesis using None by (auto simp: receive_envelope_def split_beta)
  next
    case (Inr u)
    show ?thesis
      using None Inr save save_incoming_load [of X env ?b1]
      by (cases r2) (auto simp: receive_envelope_def split_beta Let_def save_incoming_load id_hex_def
          split: option.splits)
  qed
qed (simp add: receive_envelope_def)

lemma named_receive: "named X b \<Longrightarrow> named X (receive_envelope X peer env idxs now b)"
  unfolding named_def
proof (intro allI impI)
  fix j e
  assume n: "\<forall>j e. load_incoming b j = Some e \<longrightarrow> id_hex X e = j"
    and l: "load_incoming (receive_envelope X peer env idxs now b) j = Some e"
  show "id_hex X e = j" using receive_envelope_load [of X peer env idxs now b j] n l by auto
qed

lemma named_save_and_clean: "named X b \<Longrightarrow> named X (fst (save_and_clean X b i env c r))"
  using named_save [of X b env]
  by (auto simp: save_and_clean_def named_def split: prod.splits sum.splits)

lemma named_confirm:
  "named X b \<Longrightarrow> confirm_envelope X b i eid env code now = Some (b', resp) \<Longrightarrow> named X b'"
proof (cases "confirm_change X env code now")
  case None
  assume "named X b" "confirm_envelope X b i eid env code now = Some (b', resp)"
  with confirm_idle [OF None, of b i eid b' resp] show ?thesis by simp
next
  case (Some e)
  assume n: "named X b" and c: "confirm_envelope X b i eid env code now = Some (b', resp)"
  obtain k r where "confirm_envelope X b i eid env code now = Some (save_and_clean X b i e k r)"
    using confirm_writes(1) [OF Some] by blast
  with c have "b' = fst (save_and_clean X b i e k r)" by simp
  then show ?thesis using n by (simp add: named_save_and_clean)
qed

lemma is_retrievable_iff: "is_retrievable s \<longleftrightarrow> s = Confirmed"
  by (cases s) simp_all

text \<open>Every envelope stays as it is, or one that has not ended is ended.\<close>

definition only_ends :: "inbox \<Rightarrow> inbox \<Rightarrow> bool" where
  "only_ends b b' \<longleftrightarrow>
     (\<forall>j. load_incoming b' j = load_incoming b j \<or>
        (\<exists>e s. load_incoming b j = Some e \<and> \<not> is_terminal (env_state e) \<and> is_terminal s \<and>
           load_incoming b' j = Some (e\<lparr>env_state := s\<rparr>)))"

lemma only_ends_refl [simp]: "only_ends b b"
  by (simp add: only_ends_def)

lemma only_ends_load: "(\<And>j. load_incoming b' j = load_incoming b j) \<Longrightarrow> only_ends b b'"
  by (simp add: only_ends_def)

lemma only_ends_trans: "only_ends a b \<Longrightarrow> only_ends b c \<Longrightarrow> only_ends a c"
proof -
  assume ab: "only_ends a b" and bc: "only_ends b c"
  have "load_incoming c j = load_incoming a j \<or>
      (\<exists>e s. load_incoming a j = Some e \<and> \<not> is_terminal (env_state e) \<and> is_terminal s \<and>
        load_incoming c j = Some (e\<lparr>env_state := s\<rparr>))" for j
    using ab [unfolded only_ends_def, rule_format, of j]
  proof
    assume "load_incoming b j = load_incoming a j"
    then show ?thesis using bc [unfolded only_ends_def, rule_format, of j] by simp
  next
    assume "\<exists>e s. load_incoming a j = Some e \<and> \<not> is_terminal (env_state e) \<and> is_terminal s \<and>
      load_incoming b j = Some (e\<lparr>env_state := s\<rparr>)"
    then show ?thesis using bc [unfolded only_ends_def, rule_format, of j] by auto
  qed
  then show ?thesis by (simp add: only_ends_def)
qed

lemma only_ends_named: "only_ends b b' \<Longrightarrow> named X b \<Longrightarrow> named X b'"
proof -
  assume o: "only_ends b b'" and n: "named X b"
  have "id_hex X e = j" if l: "load_incoming b' j = Some e" for j e
  proof -
    from o [unfolded only_ends_def, rule_format, of j] l obtain e0 s where "load_incoming b j = Some e0" "e = e0 \<or> e = e0\<lparr>env_state := s\<rparr>"
      by (metis option.inject)
    then show ?thesis using n by (auto simp: named_def id_hex_def)
  qed
  then show ?thesis by (simp add: named_def)
qed

lemma save_only_ends:
  assumes "named X b" and "load_incoming b i = Some e" and "\<not> is_terminal (env_state e)" and "is_terminal s"
  shows "only_ends b (fst (save_incoming X (e\<lparr>env_state := s\<rparr>) b))"
proof -
  have "id_hex X (e\<lparr>env_state := s\<rparr>) = i" using assms(1,2) by (auto simp: named_def id_hex_def)
  then show ?thesis using assms(2-4) by (auto simp: only_ends_def save_incoming_load)
qed

lemma begin_only_ends: "named X b \<Longrightarrow> only_ends b (fst (retrieve_begin X i now rt b))"
  by (auto simp: retrieve_begin_def save_only_ends is_retrievable_iff split: option.split)

lemma revoke_only_ends: "named X b \<Longrightarrow> only_ends b (fst (process_directed_revoke X peer_ok i me b))"
proof -
  assume n: "named X b"
  have out: "load_incoming (fst (save_outgoing X env b)) j = load_incoming b j" for env j
    by (simp add: save_outgoing_def attempt_def io_next_def load_incoming_def)
  have inc: "only_ends b b1" if "load_incoming b i = Some e" "\<not> is_terminal (env_state e)"
    "save_incoming X (e\<lparr>env_state := RecipientDeleted\<rparr>) b = (b1, r)" for e b1 r
    using save_only_ends [OF n that(1,2), of RecipientDeleted] that(3) by simp
  then have clean: "only_ends b (cleanup_challenge i b1)" if "load_incoming b i = Some e" "\<not> is_terminal (env_state e)"
    "save_incoming X (e\<lparr>env_state := RecipientDeleted\<rparr>) b = (b1, r)" for e b1 r
    using only_ends_trans [OF inc [OF that] only_ends_load] by simp
  have "only_ends b b1" "only_ends b (cleanup_challenge i b1)" if "save_outgoing X env b = (b1, r)" for env b1 r
    using out [of env] that by (simp_all add: only_ends_def)
  then show ?thesis using inc clean
    by (auto simp: process_directed_revoke_def Let_def split: option.split prod.split sum.split)
qed

lemma expire_only_ends: "only_ends b (expire_all now ins outs b)"
proof -
  have one: "only_ends s (expire_incoming now s i)" for s i
    by (auto simp: only_ends_def load_incoming_def expire_incoming_json load_v2_upd split: option.split)
      (metis is_terminal.simps(4))
  have "only_ends b (foldl (expire_incoming now) s ins)" if "only_ends b s" for s
    using that
  proof (induction ins arbitrary: s)
    case (Cons i ins)
    then show ?case using only_ends_trans [OF Cons.prems one] by simp
  qed simp
  moreover have "load_incoming (expire_all now ins outs b) j = load_incoming (foldl (expire_incoming now) b ins) j" for j
    by (simp add: load_incoming_def expire_all_json)
  ultimately show ?thesis by (meson only_ends_load only_ends_refl only_ends_trans)
qed

lemma sender_confirm_load [simp]:
  "load_incoming (fst (process_directed_confirm X peer_ok i answer b)) j = load_incoming b j"
proof -
  have out: "load_incoming (fst (save_outgoing X env b)) j = load_incoming b j" for env
    by (simp add: save_outgoing_def attempt_def io_next_def load_incoming_def)
  then have "load_incoming b1 j = load_incoming b j" if "save_outgoing X env b = (b1, r)" for env b1 r
    using that by (metis fst_conv)
  with out show ?thesis
    by (auto simp: process_directed_confirm_def Let_def split: option.split directed_response.split prod.split sum.split)
qed

text \<open>The end of a retrieval writes the envelope it loaded, ended or with one password try less.\<close>

lemma retrieve_end_load:
  "load_incoming (fst (retrieve_end X i c rt b)) j = load_incoming b j \<or>
   (j = id_hex X c \<and> (\<exists>e. load_incoming (fst (retrieve_end X i c rt b)) j = Some e \<and> id_hex X e = j \<and>
      (is_terminal (env_state e) \<or> env_state e = env_state c)))"
  by (simp add: retrieve_end_def Let_def save_incoming_load id_hex_def split: option.split)

lemma collect_load:
  "load_incoming (fst (collect_directed_invite X me decoded b)) j = load_incoming b j \<or>
   (\<exists>env. decoded = Some env \<and> recipient_pubkey env = me \<and> id_hex X env = j \<and>
      load_incoming (fst (collect_directed_invite X me decoded b)) j = Some env)"
  by (simp add: collect_directed_invite_def split_beta Let_def save_incoming_load split: option.split)

lemma local_box_named:
  assumes "named X b"
  shows "named X (fst (collect_directed_invite X me decoded b))" and "named X (fst (retrieve_end X i c rt b))"
proof -
  show "named X (fst (collect_directed_invite X me decoded b))"
    unfolding named_def
  proof (intro allI impI)
    fix j e assume "load_incoming (fst (collect_directed_invite X me decoded b)) j = Some e"
    then show "id_hex X e = j" using collect_load [of X me decoded b j] assms by (auto simp: named_def)
  qed
  show "named X (fst (retrieve_end X i c rt b))"
    unfolding named_def
  proof (intro allI impI)
    fix j e assume "load_incoming (fst (retrieve_end X i c rt b)) j = Some e"
    then show "id_hex X e = j" using retrieve_end_load [of X i c rt b j] assms by (auto simp: named_def)
  qed
qed

lemma begin_waits:
  "retrieve_begin X i now rt b = (b', Inr env) \<Longrightarrow> load_incoming b i = Some env \<and> env_state env = Confirmed \<and> b' = b"
  by (auto simp: retrieve_begin_def is_retrievable_iff split: option.splits if_splits)

lemma handle_invite_box:
  "nd_box (fst (handle_invite X nd peer env now)) = nd_box nd \<or>
   (\<exists>i. nd_box (fst (handle_invite X nd peer env now)) = fst (bind_incoming_peer_id X i peer (nd_box nd)))"
  by (auto simp: handle_invite_def split_beta Let_def split: sum.splits option.splits)

lemma handle_invite_load [simp]:
  "load_incoming (nd_box (fst (handle_invite X nd peer env now))) j = load_incoming (nd_box nd) j"
  using handle_invite_box [of X nd peer env now] by auto

lemma handle_invite_queue:
  "queue_ok nd \<Longrightarrow> queue_ok (fst (handle_invite X nd peer env now))"
  by (auto simp: handle_invite_def queue_ok_def split_beta Let_def split: sum.splits option.splits)

lemma request_waits: "nd_retrievals (fst (handle_directed_request X nd peer req now)) = nd_retrievals nd"
  by (cases req) (auto simp: handle_invite_def handle_confirm_def handle_sender_revoke_def split_beta Let_def
      split: sum.splits option.splits)

lemma request_ok: "node_ok X nd \<Longrightarrow> node_ok X (node_step X nd (NRequest peer req now))"
proof -
  assume ok: "node_ok X nd"
  have "waiting_ok X (node_step X nd (NRequest peer req now))" using ok by (simp add: node_ok_def waiting_ok_def request_waits)
  moreover have "named X (nd_box (node_step X nd (NRequest peer req now))) \<and> queue_ok (node_step X nd (NRequest peer req now))"
  proof (cases req)
    case (ReqInvite env)
    then show ?thesis using ok by (simp add: node_ok_def handle_invite_queue named_def)
  next
    case (ReqConfirm eid code)
    then show ?thesis using ok
      by (auto simp: node_ok_def handle_confirm_def queue_ok_def Let_def dest: named_confirm split: option.splits)
  next
    case (ReqSenderRevoke eid)
    then show ?thesis using ok
      by (auto simp: node_ok_def handle_sender_revoke_def queue_ok_def Let_def split_beta named_save_and_clean
          split: option.splits)
  next
    case (ReqStatusQuery eid)
    then show ?thesis using ok by (simp add: node_ok_def)
  qed
  ultimately show ?thesis by (simp add: node_ok_def)
qed

lemma topology_ok: "node_ok X nd \<Longrightarrow> node_ok X (topology_recv X nd idxs now)"
proof (cases "nd_topology nd")
  case (Some q)
  assume "node_ok X nd"
  then show ?thesis using Some
    by (cases q; cases "hd q") (auto simp: node_ok_def topology_recv_def queue_ok_def waiting_ok_def named_receive)
qed (simp add: topology_recv_def)

lemma node_ok_box: "node_ok X nd \<Longrightarrow> named X b \<Longrightarrow> node_ok X (nd\<lparr>nd_box := b\<rparr>)"
  by (simp add: node_ok_def queue_ok_def waiting_ok_def)

lemma retrieve_ok: "node_ok X nd \<Longrightarrow> node_ok X (node_step X nd (NRetrieve i now rt))"
proof -
  assume ok: "node_ok X nd"
  obtain b r where r: "retrieve_begin X i now rt (nd_box nd) = (b, r)" by (metis surj_pair)
  then have n: "named X b" using begin_only_ends [of X "nd_box nd" i now rt] ok only_ends_named by (simp add: node_ok_def)
  have "id_hex X env = i \<and> env_state env = Confirmed" if "r = Inr env" for env
    using begin_waits [of X i now rt "nd_box nd" b env] r that ok by (auto simp: node_ok_def named_def)
  then show ?thesis
    using ok r n by (cases r) (auto simp: node_ok_def queue_ok_def waiting_ok_def)
qed

lemma retrieved_ok: "node_ok X nd \<Longrightarrow> node_ok X (node_step X nd (NRetrieved k rt))"
proof -
  assume ok: "node_ok X nd"
  have "list_all P (take k xs @ drop (Suc k) xs)" if "list_all P xs" for P and xs :: "(string \<times> directed_envelope) list"
    using that by (auto simp: list_all_iff dest: in_set_takeD in_set_dropD)
  then show ?thesis
    using ok local_box_named(2) [of X "nd_box nd"] by (simp add: node_ok_def queue_ok_def waiting_ok_def split_beta)
qed

lemma node_ok_step: "node_ok X nd \<Longrightarrow> node_ok X (node_step X nd op)"
proof -
  assume ok: "node_ok X nd"
  then have n: "named X (nd_box nd)" by (simp add: node_ok_def)
  show ?thesis
  proof (cases op)
    case (NPeer ev)
    then show ?thesis using ok by (auto simp: node_ok_def queue_ok_def waiting_ok_def split: option.splits)
  next
    case (NConfirm peer_ok i answer)
    then show ?thesis using ok n named_load [of "fst (process_directed_confirm X peer_ok i answer (nd_box nd))" "nd_box nd" X]
      by (simp add: node_ok_box)
  qed (use ok n in \<open>simp_all add: request_ok [simplified] topology_ok retrieve_ok [simplified] retrieved_ok [simplified] node_ok_box
      local_box_named only_ends_named [OF revoke_only_ends] only_ends_named [OF expire_only_ends] split: option.split\<close>)
qed

text \<open>The envelope under an identifier after one step, for an envelope that is there.\<close>

definition next_env :: "ext \<Rightarrow> node \<Rightarrow> string \<Rightarrow> directed_envelope \<Rightarrow> node_op \<Rightarrow> directed_envelope" where
  "next_env X nd i e op =
     (if \<not> (nd_data_dir nd \<and> nd_can_open nd \<and> io_ok (nd_box nd)) then e
      else (case op of
          NRequest peer (ReqConfirm eid code) now \<Rightarrow>
            if hex_encode X eid = i \<and> incoming_peer_is_bound X (nd_box nd) i peer
            then (case confirm_change X e code now of Some e' \<Rightarrow> e' | None \<Rightarrow> e) else e
        | NRequest peer (ReqSenderRevoke eid) now \<Rightarrow>
            if hex_encode X eid = i \<and> incoming_peer_is_bound X (nd_box nd) i peer \<and> \<not> is_terminal (env_state e)
            then e\<lparr>env_state := SenderRevoked\<rparr> else e
        | _ \<Rightarrow> e))"

lemma confirm_load_existing:
  assumes "named X (nd_box nd)" and "load_incoming (nd_box nd) i = Some e"
  shows "load_incoming (nd_box (fst (handle_confirm X nd peer eid code now))) i =
    Some (next_env X nd i e (NRequest peer (ReqConfirm eid code) now))"
proof (cases "load_incoming (nd_box nd) (hex_encode X eid)")
  case None
  with assms show ?thesis by (auto simp: handle_confirm_def next_env_def Let_def)
next
  case (Some env)
  then have id: "id_hex X env = hex_encode X eid" using assms(1) by (simp add: named_def)
  show ?thesis
  proof (cases "confirm_envelope X (nd_box nd) (hex_encode X eid) eid env code now")
    case None
    have "confirm_change X env code now = None"
      using confirm_writes(1) None by (metis not_None_eq)
    with None Some assms show ?thesis by (auto simp: handle_confirm_def next_env_def Let_def)
  next
    case (Some br)
    then obtain b resp where c: "confirm_envelope X (nd_box nd) (hex_encode X eid) eid env code now = Some (b, resp)"
      by (cases br) auto
    from confirm_envelope_load [OF \<open>load_incoming (nd_box nd) (hex_encode X eid) = Some env\<close> id c, of i]
    show ?thesis using c assms \<open>load_incoming (nd_box nd) (hex_encode X eid) = Some env\<close>
      by (auto simp: handle_confirm_def next_env_def Let_def split: option.splits)
  qed
qed

lemma revoke_load_existing:
  assumes "named X (nd_box nd)" and "load_incoming (nd_box nd) i = Some e"
  shows "load_incoming (nd_box (fst (handle_sender_revoke X nd peer eid))) i =
    Some (next_env X nd i e (NRequest peer (ReqSenderRevoke eid) now))"
proof (cases "load_incoming (nd_box nd) (hex_encode X eid)")
  case None
  with assms show ?thesis by (auto simp: handle_sender_revoke_def next_env_def Let_def)
next
  case (Some env)
  then have "id_hex X (env\<lparr>env_state := SenderRevoked\<rparr>) = hex_encode X eid"
    using assms(1) by (auto simp: named_def id_hex_def)
  with Some assms show ?thesis
    by (auto simp: handle_sender_revoke_def next_env_def Let_def split_beta save_and_clean_existing)
qed

fun is_local :: "node_op \<Rightarrow> bool" where
  "is_local (NRequest _ _ _) = False"
| "is_local (NTopology _ _) = False"
| "is_local (NPeer _) = False"
| "is_local _ = True"

lemma node_step_existing:
  assumes "node_ok X nd" and "load_incoming (nd_box nd) i = Some e" and "\<not> is_local op"
  shows "load_incoming (nd_box (node_step X nd op)) i = Some (next_env X nd i e op)"
proof (cases op)
  case (NRequest peer req now)
  then show ?thesis using assms
    by (cases req) (simp_all add: node_ok_def confirm_load_existing revoke_load_existing,
        simp_all add: next_env_def)
next
  case (NTopology idxs now)
  show ?thesis
  proof (cases "nd_topology nd")
    case None
    then show ?thesis using assms NTopology by (simp add: topology_recv_def next_env_def)
  next
    case (Some q)
    then show ?thesis using assms NTopology receive_envelope_load [of X _ _ idxs now "nd_box nd" i]
      by (cases q; cases "hd q") (fastforce simp: node_ok_def topology_recv_def queue_ok_def next_env_def)+
  qed
next
  case (NPeer ev)
  then show ?thesis using assms by (simp add: next_env_def split: option.splits)
qed (use assms(3) in simp_all)

text \<open>The operation collects this envelope from a holder, under the identifier \<open>i\<close>.\<close>

definition brings :: "ext \<Rightarrow> string \<Rightarrow> node \<Rightarrow> node_op \<Rightarrow> directed_envelope \<Rightarrow> bool" where
  "brings X i nd op env \<longleftrightarrow> op = NCollect (Some env) \<and> id_hex X env = i \<and> nd_key nd = Some (recipient_pubkey env)"

definition waits :: "string \<Rightarrow> node \<Rightarrow> bool" where
  "waits i nd \<longleftrightarrow> list_ex (\<lambda>(j, _). j = i) (nd_retrievals nd)"

definition local_move :: "ext \<Rightarrow> string \<Rightarrow> node \<Rightarrow> node_op \<Rightarrow> directed_envelope \<Rightarrow> directed_envelope \<Rightarrow> bool" where
  "local_move X i nd op e e' \<longleftrightarrow>
     e' = e \<or> (\<not> is_terminal (env_state e) \<and> is_terminal (env_state e')) \<or> brings X i nd op e' \<or>
     (waits i nd \<and> (is_terminal (env_state e') \<or> env_state e' = Confirmed))"

lemma only_ends_move:
  "only_ends b b' \<Longrightarrow> load_incoming b i = Some e \<Longrightarrow> \<exists>e'. load_incoming b' i = Some e' \<and> local_move X i nd op e e'"
  unfolding only_ends_def local_move_def by (drule spec [of _ i]) auto

lemma retrieved_move:
  assumes "node_ok X nd" and "load_incoming (nd_box nd) i = Some e"
  shows "\<exists>e'. load_incoming (nd_box (node_step X nd (NRetrieved k rt))) i = Some e' \<and> local_move X i nd (NRetrieved k rt) e e'"
proof (cases "k < length (nd_retrievals nd)")
  case True
  obtain j c where c: "nd_retrievals nd ! k = (j, c)" by (metis surj_pair)
  then have mem: "(j, c) \<in> set (nd_retrievals nd)" using True by (metis nth_mem)
  then have ok: "id_hex X c = j" "env_state c = Confirmed"
    using assms(1) by (auto simp: node_ok_def waiting_ok_def list_all_iff)
  have "waits i nd" if "i = j" using mem that by (auto simp: waits_def list_ex_iff)
  then show ?thesis
    using retrieve_end_load [of X j c rt "nd_box nd" i] assms(2) True c ok by (auto simp: local_move_def)
qed (use assms(2) in \<open>simp add: local_move_def\<close>)

lemma local_step_existing:
  assumes "node_ok X nd" and "load_incoming (nd_box nd) i = Some e" and "is_local op"
  shows "\<exists>e'. load_incoming (nd_box (node_step X nd op)) i = Some e' \<and> local_move X i nd op e e'"
proof -
  have n: "named X (nd_box nd)" using assms(1) by (simp add: node_ok_def)
  have same: ?thesis if "load_incoming (nd_box (node_step X nd op)) i = load_incoming (nd_box nd) i"
    using that assms(2) by (simp add: local_move_def)
  have ends: ?thesis if "only_ends (nd_box nd) (nd_box (node_step X nd op))"
    using only_ends_move [OF that assms(2)] .
  show ?thesis
  proof (cases op)
    case (NCollect decoded)
    show ?thesis
    proof (cases "nd_key nd = None \<or> \<not> nd_can_open nd")
      case True
      then show ?thesis using NCollect by (intro same) (auto split: option.split)
    next
      case False
      then obtain me where "nd_key nd = Some me" "nd_can_open nd" by auto
      then show ?thesis
        using collect_load [of X me decoded "nd_box nd" i] NCollect assms(2) by (auto simp: local_move_def brings_def)
    qed
  next
    case (NRetrieve j now rt)
    then show ?thesis
      using begin_only_ends [OF n, of j now rt] by (intro ends) (auto split: prod.split sum.split)
  next
    case (NRetrieved k rt)
    then show ?thesis using retrieved_move [OF assms(1,2)] by blast
  next
    case (NRevoke peer_ok j)
    then show ?thesis using revoke_only_ends [OF n] by (intro ends) (simp split: option.split)
  next
    case (NConfirm peer_ok j answer)
    then show ?thesis by (intro same) simp
  next
    case (NExpire now ins outs)
    then show ?thesis using expire_only_ends by (intro ends) simp
  qed (use assms(3) in simp_all)
qed

lemma step_existing:
  assumes "node_ok X nd" and "load_incoming (nd_box nd) i = Some e"
  obtains (request) "\<not> is_local op" "load_incoming (nd_box (node_step X nd op)) i = Some (next_env X nd i e op)"
  | (call) e' where "is_local op" "load_incoming (nd_box (node_step X nd op)) i = Some e'" "local_move X i nd op e e'"
  using node_step_existing [OF assms] local_step_existing [OF assms] by blast

text \<open>A retrieval starts to wait for an envelope only when that is confirmed.\<close>

lemma waits_step:
  assumes "\<not> waits i nd" and "load_incoming (nd_box nd) i = Some e" and "env_state e \<noteq> Confirmed"
  shows "\<not> waits i (node_step X nd op)"
proof (cases op)
  case (NRequest peer req now)
  then show ?thesis using assms(1) by (simp add: waits_def request_waits)
next
  case (NTopology idxs now)
  then show ?thesis using assms(1) by (simp add: waits_def topology_recv_def split: option.split list.split)
next
  case (NRetrieve j now rt)
  obtain b r where "retrieve_begin X j now rt (nd_box nd) = (b, r)" by (metis surj_pair)
  then show ?thesis
    using NRetrieve assms begin_waits [of X j now rt "nd_box nd" b] by (cases r) (auto simp: waits_def)
next
  case (NRetrieved k rt)
  then show ?thesis
    using assms(1) by (auto simp: waits_def list_ex_iff split_beta dest: in_set_takeD in_set_dropD)
qed (use assms(1) in \<open>simp_all add: waits_def split: option.split\<close>)

section \<open>Who can move an envelope\<close>

text \<open>
  Only the peer an envelope is bound to can act on it. A confirmation or revocation request of any
  other peer, and any further invite for an envelope that is stored, leaves the whole node unchanged;
  the first two are answered with an error.
\<close>

theorem unbound_peer_powerless:
  "(\<not> incoming_peer_is_bound X (nd_box nd) (hex_encode X eid) peer \<longrightarrow>
     (\<exists>r. handle_directed_request X nd peer (ReqConfirm eid code) now = (nd, Reply (RespError r))) \<and>
     (\<exists>r. handle_directed_request X nd peer (ReqSenderRevoke eid) now = (nd, Reply (RespError r)))) \<and>
   (load_incoming (nd_box nd) (id_hex X env) \<noteq> None \<longrightarrow>
     fst (handle_directed_request X nd peer (ReqInvite env) now) = nd)"
proof -
  have id: "id_hex X env' = id_hex X env" if "normalize_received_retention env now = Inr env'" for env'
    using that by (auto simp: normalize_received_retention_def set_retention_def id_hex_def split: if_splits)
  show ?thesis
    by (auto simp: handle_confirm_def handle_sender_revoke_def handle_invite_def Let_def id split: sum.splits)
qed

definition demo_node :: node where
  "demo_node = \<lparr>nd_key = Some [], nd_data_dir = True, nd_can_open = True, nd_box = demo_box, nd_topology = Some [],
     nd_retrievals = []\<rparr>"

theorem unbound_peer_powerless_witness:
  "\<exists>r. handle_directed_request demo_ext demo_node [66] (ReqConfirm [97] demo_code) 2000 =
     (demo_node, Reply (RespError r))"
  by (rule unbound_peer_powerless [THEN conjunct1, THEN mp, THEN conjunct1])
    (simp add: demo_node_def demo_box_def empty_inbox_def incoming_peer_is_bound_def load_incoming_peer_id_def read_doc_def)

text \<open>The code of a request is compared with the hash stored for \<open>i\<close>.\<close>

definition v1_compared :: "ext \<Rightarrow> string \<Rightarrow> node \<Rightarrow> node_op \<Rightarrow> nat" where
  "v1_compared X i nd op =
     (case op of
        NRequest peer (ReqConfirm eid code) now \<Rightarrow>
          of_bool (hex_encode X eid = i \<and> nd_data_dir nd \<and> nd_can_open nd \<and>
            incoming_peer_is_bound X (nd_box nd) i peer \<and>
            (case load_incoming (nd_box nd) i of
               None \<Rightarrow> False
             | Some e \<Rightarrow>
                 env_state e = ChallengeIssued \<and> challenge_attempts_remaining e \<noteq> 0 \<and>
                 challenge_expires_at e \<noteq> 0 \<and> now \<le> challenge_expires_at e \<and>
                 (case challenge_hash e of None \<Rightarrow> False | Some h \<Rightarrow> verify_challenge X code h \<noteq> None)))
      | _ \<Rightarrow> 0)"

definition v1_tries :: "string \<Rightarrow> node \<Rightarrow> nat" where
  "v1_tries i nd =
     (case load_incoming (nd_box nd) i of
        Some e \<Rightarrow> if env_state e = ChallengeIssued then unat (challenge_attempts_remaining e) else 0
      | None \<Rightarrow> 0)"

text \<open>The tries that an envelope collected from a holder brings with it.\<close>

definition v1_brought :: "ext \<Rightarrow> string \<Rightarrow> node \<Rightarrow> node_op \<Rightarrow> nat" where
  "v1_brought X i nd op =
     (case op of
        NCollect (Some env) \<Rightarrow> if brings X i nd op env then unat (challenge_attempts_remaining env) else 0
      | _ \<Rightarrow> 0)"

definition write_fails :: "node \<Rightarrow> node_op \<Rightarrow> nat" where
  "write_fails nd op = of_bool (\<not> io_ok (nd_box nd))"

definition tries_left :: "directed_envelope \<Rightarrow> nat" where
  "tries_left e = (if env_state e = ChallengeIssued then unat (challenge_attempts_remaining e) else 0)"

lemma confirm_change_tries: "confirm_change X e code now = Some e' \<Longrightarrow> tries_left e' \<le> tries_left e"
  by (auto simp: confirm_change_def tries_left_def Let_def unat_minus_one
      split: if_splits option.splits bool.splits)

lemma confirm_change_costs:
  assumes "env_state e = ChallengeIssued" "challenge_attempts_remaining e \<noteq> 0" "challenge_expires_at e \<noteq> 0"
    "now \<le> challenge_expires_at e" "challenge_hash e = Some h" "verify_challenge X code h = Some v"
  shows "\<exists>e'. confirm_change X e code now = Some e' \<and> tries_left e' + 1 \<le> tries_left e"
  using assms unat_pred_plus_one [of "challenge_attempts_remaining e"]
  by (cases v) (auto simp: confirm_change_def tries_left_def Let_def not_less)

lemma next_env_tries: "tries_left (next_env X nd i e op) \<le> tries_left e"
  by (auto simp: next_env_def tries_left_def [of "e\<lparr>env_state := SenderRevoked\<rparr>"] dest: confirm_change_tries
      split: node_op.splits directed_request.splits option.splits)

lemma v1_budget:
  assumes "node_ok X nd" and "load_incoming (nd_box nd) i = Some e" and "\<not> is_local op"
  shows "tries_left (next_env X nd i e op) + v1_compared X i nd op \<le> tries_left e + write_fails nd op"
proof (cases "v1_compared X i nd op = 0")
  case True
  then show ?thesis using next_env_tries [of X nd i e op] by simp
next
  case False
  then obtain peer eid code now h v where op: "op = NRequest peer (ReqConfirm eid code) now"
    and g: "hex_encode X eid = i" "nd_data_dir nd" "nd_can_open nd" "incoming_peer_is_bound X (nd_box nd) i peer"
    and e: "env_state e = ChallengeIssued" "challenge_attempts_remaining e \<noteq> 0" "challenge_expires_at e \<noteq> 0"
      "now \<le> challenge_expires_at e" "challenge_hash e = Some h" "verify_challenge X code h = Some v"
    using assms(2)
    by (fastforce simp: v1_compared_def split: node_op.splits directed_request.splits option.splits)
  from confirm_change_costs [OF e] obtain e' where "confirm_change X e code now = Some e'"
    "tries_left e' + 1 \<le> tries_left e" by blast
  moreover have "v1_compared X i nd op \<le> 1" by (simp add: v1_compared_def op)
  ultimately show ?thesis using g op by (auto simp: next_env_def write_fails_def)
qed

lemma v1_budget_local:
  assumes "is_local op" and "local_move X i nd op e e'"
  shows "tries_left e' + v1_compared X i nd op \<le> tries_left e + v1_brought X i nd op"
proof -
  have "v1_compared X i nd op = 0" using assms(1) by (cases op) (simp_all add: v1_compared_def)
  moreover have "tries_left e' = 0" if "is_terminal (env_state e') \<or> env_state e' = Confirmed"
    using that by (auto simp: tries_left_def)
  moreover have "tries_left e' \<le> v1_brought X i nd op" if "brings X i nd op e'"
    using that by (auto simp: v1_brought_def tries_left_def brings_def)
  ultimately show ?thesis using assms(2) by (auto simp: local_move_def)
qed

definition stored_ok :: "ext \<Rightarrow> string \<Rightarrow> node \<Rightarrow> bool" where
  "stored_ok X i nd \<longleftrightarrow> node_ok X nd \<and> load_incoming (nd_box nd) i \<noteq> None"

interpretation v1: budget_machine "node_step X" "stored_ok X i" "v1_tries i" "v1_compared X i"
  "\<lambda>nd op. write_fails nd op + v1_brought X i nd op"
  for X i
proof
  fix nd op assume "stored_ok X i nd"
  then obtain e where e: "node_ok X nd" "load_incoming (nd_box nd) i = Some e" by (auto simp: stored_ok_def)
  from e have "\<exists>e'. load_incoming (nd_box (node_step X nd op)) i = Some e' \<and>
      tries_left e' + v1_compared X i nd op \<le> tries_left e + (write_fails nd op + v1_brought X i nd op)"
  proof (cases rule: step_existing [where op = op])
    case request
    then show ?thesis using v1_budget [OF e] by fastforce
  next
    case (call e')
    then show ?thesis using v1_budget_local by fastforce
  qed
  then obtain e' where e': "load_incoming (nd_box (node_step X nd op)) i = Some e'"
    "tries_left e' + v1_compared X i nd op \<le> tries_left e + (write_fails nd op + v1_brought X i nd op)" by blast
  show "stored_ok X i (node_step X nd op)" using e e'(1) by (simp add: stored_ok_def node_ok_step)
  show "v1_tries i (node_step X nd op) + v1_compared X i nd op \<le> v1_tries i nd + (write_fails nd op + v1_brought X i nd op)"
    using e' e by (simp add: v1_tries_def tries_left_def)
qed

lemma run_sum_add: "run_sum f (\<lambda>s e. g s e + h s e) s es = run_sum f g s es + run_sum f h s es"
  by (induction es arbitrary: s) simp_all


definition demo_issued :: directed_envelope where
  "demo_issued = demo_env\<lparr>env_state := ChallengeIssued, challenge_hash := Some (cl_hash demo_challenge),
     challenge_expires_at := 1300\<rparr>"

definition demo_id :: string where "demo_id = id_hex demo_ext demo_env"

definition demo_issued_node :: node where
  "demo_issued_node = demo_node\<lparr>nd_box := (empty_inbox [])\<lparr>inc_json := fmupd demo_id (Some demo_issued) fmempty,
     inc_peer := fmupd demo_id (Some [65]) fmempty\<rparr>\<rparr>"

lemma demo_issued_load: "load_incoming (nd_box demo_issued_node) j = (if j = demo_id then Some demo_issued else None)"
  by (simp add: demo_issued_node_def load_incoming_def load_v2_upd) (simp add: empty_inbox_def read_doc_def)

lemma demo_issued_ok: "node_ok demo_ext demo_issued_node"
proof -
  have "named demo_ext (nd_box demo_issued_node)"
    by (auto simp: named_def demo_issued_load) (simp add: demo_id_def demo_issued_def id_hex_def)
  then show ?thesis by (simp add: node_ok_def queue_ok_def waiting_ok_def demo_issued_node_def demo_node_def)
qed

lemma demo_issued_bound: "incoming_peer_is_bound demo_ext (nd_box demo_issued_node) demo_id [65]"
  by (simp add: incoming_peer_is_bound_def load_incoming_peer_id_def demo_issued_node_def load_v2_upd
      trim_def is_whitespace_def)

lemma demo_issued_load_id: "load_incoming (nd_box demo_issued_node) demo_id = Some demo_issued"
  by (simp add: demo_issued_load)


section \<open>Final states and the way to confirmation\<close>

lemma next_env_terminal: "is_terminal (env_state e) \<Longrightarrow> next_env X nd i e op = e"
proof -
  assume t: "is_terminal (env_state e)"
  then have "confirm_change X e code now = None" for code now by (auto simp: confirm_change_def)
  with t show ?thesis by (simp add: next_env_def split: node_op.split directed_request.split)
qed

definition no_collection :: "node_op list \<Rightarrow> bool" where
  "no_collection ops = list_all (\<lambda>op. case op of NCollect _ \<Rightarrow> False | _ \<Rightarrow> True) ops"

text \<open>
  An envelope that has ended never changes again through requests of any peer, the daemon's processing of invites or
  local calls, it stays on disk field for field: unless an invite is collected from a holder or a retrieval had loaded it
  before it ended and still waits.
\<close>

theorem v1_terminal_final:
  assumes "node_ok X nd" and "load_incoming (nd_box nd) i = Some e" and "is_terminal (env_state e)"
    and "\<not> waits i nd" and "no_collection ops"
  shows "load_incoming (nd_box (foldl (node_step X) nd ops)) i = Some e"
  using assms
proof (induction ops arbitrary: nd)
  case (Cons op ops)
  from Cons.prems(1,2) have "load_incoming (nd_box (node_step X nd op)) i = Some e"
  proof (cases rule: step_existing [where op = op])
    case request
    then show ?thesis using next_env_terminal [OF Cons.prems(3)] by simp
  next
    case (call e')
    moreover have "\<not> brings X i nd op e'" using Cons.prems(5) by (auto simp: brings_def no_collection_def)
    ultimately show ?thesis using Cons.prems(3,4) by (auto simp: local_move_def)
  qed
  moreover have "\<not> waits i (node_step X nd op)" using waits_step [OF Cons.prems(4,2)] Cons.prems(3) by fastforce
  ultimately show ?case using Cons.IH [OF node_ok_step [OF Cons.prems(1)]] Cons.prems(3,5) by (simp add: no_collection_def)
qed simp

definition demo_revoked_node :: node where
  "demo_revoked_node = demo_issued_node\<lparr>nd_box := (nd_box demo_issued_node)
     \<lparr>inc_json := fmupd demo_id (Some (demo_issued\<lparr>env_state := SenderRevoked\<rparr>)) fmempty\<rparr>\<rparr>"

theorem v1_terminal_final_witness:
  "load_incoming (nd_box (foldl (node_step demo_ext) demo_revoked_node
      [NRequest [65] (ReqConfirm [7] demo_code) 1200])) demo_id = Some (demo_issued\<lparr>env_state := SenderRevoked\<rparr>)"
proof (rule v1_terminal_final)
  show l: "load_incoming (nd_box demo_revoked_node) demo_id = Some (demo_issued\<lparr>env_state := SenderRevoked\<rparr>)"
    by (simp add: demo_revoked_node_def load_incoming_def load_v2_upd)
  have "load_incoming (nd_box demo_revoked_node) j = (if j = demo_id then Some (demo_issued\<lparr>env_state := SenderRevoked\<rparr>) else None)" for j
    by (simp add: demo_revoked_node_def load_incoming_def load_v2_upd) (simp add: read_doc_def)
  then have "named demo_ext (nd_box demo_revoked_node)"
    by (auto simp: named_def) (simp add: demo_id_def demo_issued_def id_hex_def)
  then show "node_ok demo_ext demo_revoked_node"
    by (simp add: node_ok_def queue_ok_def waiting_ok_def demo_revoked_node_def demo_issued_node_def demo_node_def)
  show "\<not> waits demo_id demo_revoked_node"
    by (simp add: waits_def demo_revoked_node_def demo_issued_node_def demo_node_def)
qed (simp_all add: no_collection_def)

text \<open>
  A waiting retrieval can undo the end: the copy it loaded was confirmed, and when the password is wrong with tries left
  it is written back as it was, over a revocation that came in between.
\<close>

lemma waiting_retrieval_undoes_revoke:
  assumes "load_incoming b (id_hex X c) = Some e" and "env_state e = SenderRevoked" and "io_ok b"
    and "env_state c = Confirmed" and "1 < password_attempts_remaining c" and "rt_network rt" and "rt_plaintext rt = None"
  shows "load_incoming (fst (retrieve_end X i c rt b)) (id_hex X c) =
    Some (c\<lparr>password_attempts_remaining := password_attempts_remaining c - 1\<rparr>)"
proof -
  let ?c = "c\<lparr>password_attempts_remaining := password_attempts_remaining c - 1\<rparr>"
  have k: "saturating_sub (password_attempts_remaining c) 1 = password_attempts_remaining c - 1"
    "password_attempts_remaining c - 1 \<noteq> 0"
    using assms(5) by (auto intro!: sat_sub_one simp: minus_one_zero)
  have id: "id_hex X ?c = id_hex X c" by (simp add: id_hex_def)
  then have "snd (save_incoming X ?c b) = Inr ()" using save_incoming_existing [of b X ?c e] assms(1,3) by simp
  then show ?thesis using assms(6,7) k id by (simp add: retrieve_end_def Let_def save_incoming_load)
qed

text \<open>The bound peer confirms the envelope stored under \<open>i\<close> in time with the right code.\<close>

definition good_confirm :: "ext \<Rightarrow> string \<Rightarrow> node \<Rightarrow> node_op \<Rightarrow> bool" where
  "good_confirm X i nd op =
     (case (op, load_incoming (nd_box nd) i) of
        (NRequest peer (ReqConfirm eid code) now, Some e) \<Rightarrow>
          hex_encode X eid = i \<and> incoming_peer_is_bound X (nd_box nd) i peer \<and> env_state e = ChallengeIssued \<and>
          challenge_attempts_remaining e \<noteq> 0 \<and> now \<le> challenge_expires_at e \<and>
          (case challenge_hash e of None \<Rightarrow> False | Some h \<Rightarrow> verify_challenge X code h = Some True)
      | _ \<Rightarrow> False)"

text \<open>An invite collected from a holder says that it is confirmed already.\<close>

definition collects_confirmed :: "ext \<Rightarrow> string \<Rightarrow> node \<Rightarrow> node_op \<Rightarrow> bool" where
  "collects_confirmed X i nd op =
     (case op of NCollect (Some env) \<Rightarrow> brings X i nd op env \<and> env_state env = Confirmed | _ \<Rightarrow> False)"

lemma next_env_confirmed:
  "env_state (next_env X nd i e op) = Confirmed \<Longrightarrow> env_state e \<noteq> Confirmed \<Longrightarrow> load_incoming (nd_box nd) i = Some e \<Longrightarrow>
     good_confirm X i nd op"
  by (auto simp: good_confirm_def next_env_def confirm_change_def Let_def not_less
      split: node_op.splits directed_request.splits option.splits bool.splits if_splits)

definition unconfirmed :: "string \<Rightarrow> node \<Rightarrow> bool" where
  "unconfirmed i nd \<longleftrightarrow> (case load_incoming (nd_box nd) i of Some e \<Rightarrow> env_state e \<noteq> Confirmed | None \<Rightarrow> False)"

lemma step_confirmed:
  assumes "node_ok X nd" and "unconfirmed i nd" and "\<not> waits i nd" and "\<not> unconfirmed i (node_step X nd op)"
  shows "good_confirm X i nd op \<or> collects_confirmed X i nd op"
proof -
  obtain e where e: "load_incoming (nd_box nd) i = Some e" "env_state e \<noteq> Confirmed"
    using assms(2) by (auto simp: unconfirmed_def split: option.splits)
  from assms(1) e(1) show ?thesis
  proof (cases rule: step_existing [where op = op])
    case request
    then have "env_state (next_env X nd i e op) = Confirmed" using assms(4) by (simp add: unconfirmed_def)
    then show ?thesis using next_env_confirmed e by blast
  next
    case (call e')
    then have "env_state e' = Confirmed" using assms(4) by (simp add: unconfirmed_def)
    then show ?thesis using call(3) assms(3) e(2) by (auto simp: local_move_def collects_confirmed_def brings_def)
  qed
qed

lemma confirmed_run:
  "node_ok X nd \<Longrightarrow> unconfirmed i nd \<Longrightarrow> \<not> waits i nd \<Longrightarrow> \<not> unconfirmed i (foldl (node_step X) nd ops) \<Longrightarrow>
   \<exists>pre op post. ops = pre @ op # post \<and> throughout (node_step X) (unconfirmed i) nd pre \<and>
     (good_confirm X i (foldl (node_step X) nd pre) op \<or> collects_confirmed X i (foldl (node_step X) nd pre) op)"
proof (induction ops arbitrary: nd)
  case (Cons op ops)
  show ?case
  proof (cases "unconfirmed i (node_step X nd op)")
    case False
    then have "good_confirm X i nd op \<or> collects_confirmed X i nd op" using step_confirmed Cons.prems by blast
    then show ?thesis using Cons.prems(2) by (intro exI [of _ "[]"] exI [of _ op] exI [of _ ops]) simp
  next
    case True
    have "\<not> waits i (node_step X nd op)"
      using waits_step [OF Cons.prems(3)] Cons.prems(2) by (auto simp: unconfirmed_def split: option.splits)
    then obtain pre op' post where "ops = pre @ op' # post" "throughout (node_step X) (unconfirmed i) (node_step X nd op) pre"
      "good_confirm X i (foldl (node_step X) (node_step X nd op) pre) op' \<or>
       collects_confirmed X i (foldl (node_step X) (node_step X nd op) pre) op'"
      using Cons.IH [OF node_ok_step [OF Cons.prems(1)] True] Cons.prems(4) by auto
    then show ?thesis using Cons.prems(2) True by (intro exI [of _ "op # pre"] exI [of _ op'] exI [of _ post]) simp
  qed
qed simp

text \<open>
  C25: how a stored envelope becomes confirmed, when no retrieval waits that loaded it confirmed before. Over requests of
  any peers, the daemon's processing and all local calls in any order, the step that first makes it confirmed is
  either a request of its bound peer with a code that verifies against the hash stored at that time, with tries left and no
  later than the challenge's expiry, or the collection from a holder of an envelope for this node that carries the same
  identifier and already calls itself confirmed. The second way needs no code at all.
\<close>

theorem v1_confirmed_only_by_code:
  assumes "node_ok X nd" and "load_incoming (nd_box nd) i = Some e" and "env_state e \<noteq> Confirmed" and "\<not> waits i nd"
    and "load_incoming (nd_box (foldl (node_step X) nd ops)) i = Some e'" and "env_state e' = Confirmed"
  shows "\<exists>pre op post. ops = pre @ op # post \<and> throughout (node_step X) (unconfirmed i) nd pre \<and>
    (good_confirm X i (foldl (node_step X) nd pre) op \<or> collects_confirmed X i (foldl (node_step X) nd pre) op)"
  using assms by (intro confirmed_run) (simp_all add: unconfirmed_def)

lemma demo_confirm_change:
  "confirm_change demo_ext demo_issued demo_code 1200 = Some (demo_issued\<lparr>env_state := Confirmed\<rparr>)"
  using demo_verifies by (simp add: confirm_change_def demo_issued_def demo_env_def)

lemma demo_hex: "hex_encode demo_ext [7] = demo_id"
  by (simp add: demo_id_def id_hex_def demo_env_def)

lemma demo_confirm_run:
  "load_incoming (nd_box (foldl (node_step demo_ext) demo_issued_node [NRequest [65] (ReqConfirm [7] demo_code) 1200]))
     demo_id = Some (demo_issued\<lparr>env_state := Confirmed\<rparr>)"
proof -
  have "next_env demo_ext demo_issued_node demo_id demo_issued (NRequest [65] (ReqConfirm [7] demo_code) 1200) =
      demo_issued\<lparr>env_state := Confirmed\<rparr>"
    using demo_issued_bound
    by (simp add: next_env_def demo_confirm_change demo_hex demo_issued_node_def demo_node_def io_ok_def empty_inbox_def)
  with node_step_existing [OF demo_issued_ok demo_issued_load_id, of "NRequest [65] (ReqConfirm [7] demo_code) 1200"]
  show ?thesis by simp
qed

theorem v1_confirmed_only_by_code_witness:
  "\<exists>pre op post. [NRequest [65] (ReqConfirm [7] demo_code) 1200] = pre @ op # post \<and>
     throughout (node_step demo_ext) (unconfirmed demo_id) demo_issued_node pre \<and>
     (good_confirm demo_ext demo_id (foldl (node_step demo_ext) demo_issued_node pre) op \<or>
      collects_confirmed demo_ext demo_id (foldl (node_step demo_ext) demo_issued_node pre) op)"
  by (rule v1_confirmed_only_by_code [OF demo_issued_ok demo_issued_load_id _ _ demo_confirm_run])
    (simp_all add: demo_issued_def waits_def demo_issued_node_def demo_node_def)

section \<open>Storing an invite\<close>

text \<open>The envelope the daemon means to store: the sender's, with the local fields set.\<close>

definition localised :: "ext \<Rightarrow> nat list \<Rightarrow> u64 \<Rightarrow> directed_envelope \<Rightarrow> directed_envelope" where
  "localised X idxs now env =
     env\<lparr>env_state := ChallengeIssued, challenge_hash := Some (snd (generate_challenge X idxs)),
         challenge_attempts_remaining := 3, password_attempts_remaining := 3,
         challenge_expires_at := saturating_add now 300\<rparr>"

lemma id_hex_localised [simp]: "id_hex X (localised X idxs now env) = id_hex X env"
  by (simp add: id_hex_def localised_def)

lemma receive_bound:
  assumes "load_incoming b (id_hex X env) = None" and "incoming_peer_is_bound X b (id_hex X env) peer"
  shows "receive_envelope X peer env idxs now b =
    (case save_incoming X env b of
       (b2, Inl _) \<Rightarrow> b2
     | (b2, Inr _) \<Rightarrow>
         fst (save_incoming X (localised X idxs now env)
           (fst (save_challenge_code (id_hex X env) (fst (generate_challenge X idxs)) b2))))"
proof -
  have bind: "bind_incoming_peer_id X (id_hex X env) peer b = (b, Inr ())"
    using assms(2) bound_in_dom [OF assms(2)]
    by (auto simp: bind_incoming_peer_id_def incoming_peer_is_bound_def load_incoming_peer_id_def)
  show ?thesis
  proof (cases "snd (save_incoming X env b)")
    case (Inl e)
    then show ?thesis using assms(1) bind by (simp add: receive_envelope_def split_beta)
  next
    case (Inr u)
    then have "load_incoming (fst (save_incoming X env b)) (id_hex X env) = Some env"
      by (simp add: save_incoming_load)
    then show ?thesis using assms(1) bind Inr
      by (simp add: receive_envelope_def split_beta localised_def CHALLENGE_MAX_ATTEMPTS_def
          PASSWORD_MAX_ATTEMPTS_def CHALLENGE_TTL_SECS_def)
  qed
qed

lemma io_after_save: "snd (save_incoming X env b) = Inr () \<Longrightarrow> io (fst (save_incoming X env b)) = tl (io b)"
  by (auto simp: save_incoming_def attempt_def io_next_def split: if_splits)

lemma io_after_code: "io (fst (save_challenge_code i c b)) = tl (io b)"
  by (simp add: save_challenge_code_def attempt_def io_next_def)

text \<open>
  Storing a bound invite is safe exactly when its last write succeeds. With room in the inbox and
  the envelope's first write and the code file written, the stored envelope carries locally set
  state, tries, hash and expiry if the second write of the envelope succeeds; if that write fails, the
  envelope stays on disk just as the sender sent it, state and counters included.
\<close>

theorem receive_invite_outcome:
  assumes "load_incoming b (id_hex X env) = None" and "incoming_peer_is_bound X b (id_hex X env) peer"
    and "check_limit (inc_json b)" and "io b = [True, w, w2]"
  shows "load_incoming (receive_envelope X peer env idxs now b) (id_hex X env) =
    Some (if w2 then localised X idxs now env else env)"
proof -
  have s1: "snd (save_incoming X env b) = Inr ()"
    using assms(3,4) by (simp add: save_incoming_def attempt_def io_ok_def)
  let ?b3 = "fst (save_challenge_code (id_hex X env) (fst (generate_challenge X idxs)) (fst (save_incoming X env b)))"
  have l3: "load_incoming ?b3 (id_hex X env) = Some env" using s1 by (simp add: save_incoming_load)
  have "io ?b3 = [w2]" using io_after_save [OF s1] assms(4) by (simp add: io_after_code)
  then have "io_ok ?b3 = w2" by (simp add: io_ok_def)
  then show ?thesis
    using receive_bound [OF assms(1,2)] s1 l3 save_incoming_existing [of ?b3 X "localised X idxs now env" env]
    by (simp add: split_beta save_incoming_load)
qed

definition demo_fault_box :: inbox where
  "demo_fault_box = (empty_inbox [True, True, False])\<lparr>inc_peer := fmupd demo_id (Some [65]) fmempty\<rparr>"

text \<open>The sender marked the envelope confirmed; the failed write leaves it so.\<close>

theorem receive_invite_outcome_witness:
  "load_incoming (receive_envelope demo_ext [65] (demo_env\<lparr>env_state := Confirmed\<rparr>) [0, 1, 2, 3, 4, 5, 6, 7] 1000
      demo_fault_box) demo_id = Some (demo_env\<lparr>env_state := Confirmed\<rparr>)"
proof -
  have id: "id_hex demo_ext (demo_env\<lparr>env_state := Confirmed\<rparr>) = demo_id" by (simp add: demo_id_def id_hex_def)
  show ?thesis
    using receive_invite_outcome [of demo_fault_box demo_ext "demo_env\<lparr>env_state := Confirmed\<rparr>" "[65]" True False
        "[0, 1, 2, 3, 4, 5, 6, 7]" 1000]
    by (simp add: id demo_fault_box_def empty_inbox_def load_incoming_def read_doc_def incoming_peer_is_bound_def
        load_incoming_peer_id_def trim_def is_whitespace_def check_limit_def MAX_ENVELOPES_def fcard_fempty)
qed

text \<open>
  Collecting an invite from a holder bypasses the invite checks. Whenever the write succeeds, any
  envelope addressed to this node replaces what is stored under its identifier, an ended envelope
  included, exactly as the holder delivered it, and the sender binding of the identifier stays what
  it was.
\<close>

theorem collect_overwrites:
  assumes "recipient_pubkey env = me" and "collect_directed_invite X me (Some env) b = (b', True)"
  shows "load_incoming b' (id_hex X env) = Some env \<and> inc_peer b' = inc_peer b"
  using assms save_incoming_load [of X env b "id_hex X env"]
  by (auto simp: collect_directed_invite_def split_beta)
    (auto simp: save_incoming_def attempt_def io_next_def split: if_splits)

theorem collect_overwrites_witness:
  "load_incoming (fst (collect_directed_invite demo_ext [] (Some (demo_env\<lparr>env_state := Confirmed\<rparr>))
      (nd_box demo_revoked_node))) demo_id = Some (demo_env\<lparr>env_state := Confirmed\<rparr>)"
proof -
  have id: "id_hex demo_ext (demo_env\<lparr>env_state := Confirmed\<rparr>) = demo_id" by (simp add: demo_id_def id_hex_def)
  let ?r = "collect_directed_invite demo_ext [] (Some (demo_env\<lparr>env_state := Confirmed\<rparr>)) (nd_box demo_revoked_node)"
  have r: "recipient_pubkey demo_env = []" by (simp add: demo_env_def)
  have "snd ?r"
    by (simp add: collect_directed_invite_def save_incoming_def attempt_def io_ok_def id r
        demo_revoked_node_def demo_issued_node_def empty_inbox_def Let_def)
  then have "?r = (fst ?r, True)" by (cases ?r) simp
  from collect_overwrites [OF _ this] show ?thesis by (simp add: r id)
qed

section \<open>Retrieval\<close>

text \<open>A retrieval that got as far as trying the password.\<close>

definition password_tried :: "string \<Rightarrow> u64 \<Rightarrow> retrieval \<Rightarrow> inbox \<Rightarrow> bool" where
  "password_tried i now rt b \<longleftrightarrow>
     (\<exists>e. load_incoming b i = Some e \<and> env_state e = Confirmed \<and> now < expires_at e \<and>
        password_attempts_remaining e \<noteq> 0) \<and>
     rt_payload rt \<and> rt_key rt \<and> rt_mid rt \<and> rt_network rt"

text \<open>
  Retrieval hands out content only for a confirmed, unexpired envelope with tries left, and only
  the content that decrypted. A wrong password costs one try and the last one ends the envelope; a
  failure before the password is tried costs nothing. All of it holds of the disk when the write
  succeeds, and every other envelope stays as it is.
\<close>

theorem retrieve_outcome:
  assumes "named X b" and "load_incoming b i = Some e"
  shows "(case process_directed_retrieve X i now rt b of
      (b', Inr plain) \<Rightarrow>
        password_tried i now rt b \<and> rt_plaintext rt = Some plain \<and>
        load_incoming b' i = Some (if io_ok b then e\<lparr>env_state := Retrieved\<rparr> else e)
    | (b', Inl (WrongPassword left)) \<Rightarrow>
        password_tried i now rt b \<and> rt_plaintext rt = None \<and> left = password_attempts_remaining e - 1 \<and>
        (io b = [] \<longrightarrow>
          load_incoming b' i = Some (e\<lparr>password_attempts_remaining := left,
            env_state := if left = 0 then PasswordFailed else Confirmed\<rparr>))
    | (b', Inl err) \<Rightarrow>
        \<not> password_tried i now rt b \<and> (err = RetrievalFailed \<longrightarrow> b' = b)) \<and>
    (j = i \<or> load_incoming (fst (process_directed_retrieve X i now rt b)) j = load_incoming b j)"
    (is "?P (process_directed_retrieve X i now rt b) \<and> ?Q")
proof -
  have id: "id_hex X (e\<lparr>env_state := st\<rparr>) = i" "id_hex X (e\<lparr>password_attempts_remaining := k\<rparr>) = i"
    "id_hex X (e\<lparr>password_attempts_remaining := k, env_state := st\<rparr>) = i" for st k
    using assms by (auto simp: named_def id_hex_def)
  have ex: "snd (save_incoming X (e\<lparr>env_state := st\<rparr>) b') = (if io_ok b' then Inr () else Inl IoError)"
      "snd (save_incoming X (e\<lparr>password_attempts_remaining := k\<rparr>) b') = (if io_ok b' then Inr () else Inl IoError)"
      "snd (save_incoming X (e\<lparr>password_attempts_remaining := k, env_state := st\<rparr>) b') =
         (if io_ok b' then Inr () else Inl IoError)"
    if "load_incoming b' i = Some e" for st k b'
    using that by (simp_all add: save_incoming_existing id)
  have cl: "io_ok (cleanup_challenge i b)" "io_ok b" if "io b = []"
    using that remove_challenge_ok(2) [of b i] by (simp_all add: cleanup_challenge_def io_ok_def)
  have keep: "e\<lparr>password_attempts_remaining := k, env_state := Confirmed\<rparr> = e\<lparr>password_attempts_remaining := k\<rparr>"
    if "env_state e = Confirmed" for k
    using that by (cases e) simp
  have "j \<noteq> i \<Longrightarrow> load_incoming (fst (process_directed_retrieve X i now rt b)) j = load_incoming b j"
    using assms(2)
    by (simp add: retrieve_defs Let_def save_incoming_load id split: option.split)
  moreover have "?P (process_directed_retrieve X i now rt b)"
    using assms(2)
    by (auto simp: retrieve_defs password_tried_def is_retrievable_iff is_expired_def not_le
        Let_def sat_sub_one save_incoming_load ex id cl keep split: option.splits)
  ultimately show ?thesis by blast
qed

definition demo_retrieval :: retrieval where
  "demo_retrieval = \<lparr>rt_payload = True, rt_key = True, rt_mid = True, rt_network = True, rt_plaintext = Some [1, 2]\<rparr>"

definition demo_confirmed_box :: inbox where
  "demo_confirmed_box = (empty_inbox [])\<lparr>inc_json := fmupd demo_id (Some (demo_issued\<lparr>env_state := Confirmed\<rparr>)) fmempty\<rparr>"

theorem retrieve_outcome_witness:
  "load_incoming (fst (process_directed_retrieve demo_ext demo_id 1250 demo_retrieval demo_confirmed_box)) demo_id
     = Some (demo_issued\<lparr>env_state := Retrieved\<rparr>)"
proof -
  have l: "load_incoming demo_confirmed_box j = (if j = demo_id then Some (demo_issued\<lparr>env_state := Confirmed\<rparr>) else None)" for j
    by (simp add: demo_confirmed_box_def load_incoming_def load_v2_upd) (simp add: empty_inbox_def read_doc_def)
  have n: "named demo_ext demo_confirmed_box"
    by (auto simp: named_def l) (simp add: demo_id_def demo_issued_def id_hex_def)
  have "snd (process_directed_retrieve demo_ext demo_id 1250 demo_retrieval demo_confirmed_box) = Inr [1, 2]"
    by (simp add: retrieve_defs l demo_retrieval_def is_expired_def)
      (simp add: demo_issued_def demo_env_def)
  moreover have "io_ok demo_confirmed_box" by (simp add: demo_confirmed_box_def empty_inbox_def io_ok_def)
  ultimately show ?thesis
    using retrieve_outcome [OF n, of demo_id "demo_issued\<lparr>env_state := Confirmed\<rparr>" 1250 demo_retrieval demo_id]
    by (simp add: l split_beta)
qed

end
