(* ===== verification/Directed_Offers.thy ===== *)
theory Directed_Offers
  imports Directed_State
begin

text \<open>
  The in-memory table of pending prekey offers of
  \<^verbatim>\<open>crates/miasma-core/src/directed/v2/offer_table.rs\<close>: a map from peers to maps from offer
  identifiers to entries. Every operation takes the clock reading as an argument, as in the code.
\<close>

section \<open>The table\<close>

type_synonym peer_id = string
type_synonym offer_id = bytes

definition OFFER_TTL :: u64 where "OFFER_TTL = 20"

definition MAX_OFFERS_PER_PEER :: nat where "MAX_OFFERS_PER_PEER = 100"

datatype offer_table_error = TooManyForPeer

record 'v offer_entry =
  offer :: 'v
  created :: u64

definition is_live :: "u64 \<Rightarrow> 'v offer_entry \<Rightarrow> bool" where
  "is_live now e \<longleftrightarrow> saturating_sub now (created e) \<le> OFFER_TTL"

type_synonym 'v slot = "(offer_id, 'v offer_entry) fmap"
type_synonym 'v offer_table = "(peer_id, 'v slot) fmap"

definition slot_of :: "'v offer_table \<Rightarrow> peer_id \<Rightarrow> 'v slot" where
  "slot_of t p = (case fmlookup t p of Some s \<Rightarrow> s | None \<Rightarrow> fmempty)"

definition insert_offer ::
  "'v offer_table \<Rightarrow> peer_id \<Rightarrow> offer_id \<Rightarrow> 'v \<Rightarrow> u64 \<Rightarrow> 'v offer_table \<times> (offer_table_error + unit)" where
  "insert_offer t peer i v now =
     (let slot = fmretain (\<lambda>_ e. is_live now e) (slot_of t peer) in
      if fmlookup slot i = None \<and> MAX_OFFERS_PER_PEER \<le> fmsize slot
      then (if slot = fmempty then fmdrop peer t else fmupd peer slot t, Inl TooManyForPeer)
      else (fmupd peer (fmupd i \<lparr>offer = v, created = now\<rparr> slot) t, Inr ()))"

definition take_offer :: "'v offer_table \<Rightarrow> peer_id \<Rightarrow> offer_id \<Rightarrow> u64 \<Rightarrow> 'v offer_table \<times> 'v option" where
  "take_offer t peer i now =
     (case fmlookup t peer of
        None \<Rightarrow> (t, None)
      | Some slot \<Rightarrow>
          (case fmlookup slot i of
             None \<Rightarrow> (t, None)
           | Some e \<Rightarrow>
               (let slot' = fmdrop i slot;
                    t' = (if slot' = fmempty then fmdrop peer t else fmupd peer slot' t)
                in (t', if is_live now e then Some (offer e) else None))))"

definition sweep :: "'v offer_table \<Rightarrow> u64 \<Rightarrow> 'v offer_table" where
  "sweep t now =
     fmretain (\<lambda>_ slot. slot \<noteq> fmempty) (fmmap (fmretain (\<lambda>_ e. is_live now e)) t)"

definition len_for_peer :: "'v offer_table \<Rightarrow> peer_id \<Rightarrow> u64 \<Rightarrow> nat" where
  "len_for_peer t peer now =
     (case fmlookup t peer of
        Some slot \<Rightarrow> fmsize (fmretain (\<lambda>_ e. is_live now e) slot)
      | None \<Rightarrow> 0)"

definition has_capacity_for_new :: "'v offer_table \<Rightarrow> peer_id \<Rightarrow> u64 \<Rightarrow> bool" where
  "has_capacity_for_new t peer now \<longleftrightarrow> len_for_peer t peer now < MAX_OFFERS_PER_PEER"

text \<open>The calls of one table as data, so that interleavings are lists.\<close>

datatype 'v offer_op = OpInsert peer_id offer_id 'v u64 | OpTake peer_id offer_id u64 | OpSweep u64

fun offer_step :: "'v offer_table \<Rightarrow> 'v offer_op \<Rightarrow> 'v offer_table" where
  "offer_step t (OpInsert p i v now) = fst (insert_offer t p i v now)"
| "offer_step t (OpTake p i now) = fst (take_offer t p i now)"
| "offer_step t (OpSweep now) = sweep t now"

fun op_time :: "'v offer_op \<Rightarrow> u64" where
  "op_time (OpInsert _ _ _ now) = now"
| "op_time (OpTake _ _ now) = now"
| "op_time (OpSweep now) = now"

fun op_touches :: "peer_id \<Rightarrow> offer_id \<Rightarrow> 'v offer_op \<Rightarrow> bool" where
  "op_touches p i (OpInsert q j _ _) = (p = q \<and> i = j)"
| "op_touches p i (OpTake q j _) = (p = q \<and> i = j)"
| "op_touches p i (OpSweep _) = False"

definition raw :: "'v offer_table \<Rightarrow> peer_id \<Rightarrow> offer_id \<Rightarrow> 'v offer_entry option" where
  "raw t p i = fmlookup (slot_of t p) i"

section \<open>Lookup after each operation\<close>

lemma slot_of_upd [simp]: "slot_of (fmupd p s t) q = (if p = q then s else slot_of t q)"
  by (simp add: slot_of_def)

lemma slot_of_drop [simp]: "slot_of (fmdrop p t) q = (if p = q then fmempty else slot_of t q)"
  by (simp add: slot_of_def)

lemma slot_of_upd_or_drop:
  "slot_of (if s = fmempty then fmdrop p t else fmupd p s t) q = (if p = q then s else slot_of t q)"
  by simp

lemma slot_of_sweep: "slot_of (sweep t now) p = fmretain (\<lambda>_ e. is_live now e) (slot_of t p)"
  by (auto simp: slot_of_def sweep_def fmretain_empty split: option.splits)

lemma slot_of_insert:
  "slot_of (fst (insert_offer t p i v now)) q =
     (let slot = fmretain (\<lambda>_ e. is_live now e) (slot_of t p) in
      if p \<noteq> q then slot_of t q
      else if fmlookup slot i = None \<and> MAX_OFFERS_PER_PEER \<le> fmsize slot then slot
      else fmupd i \<lparr>offer = v, created = now\<rparr> slot)"
  by (simp add: insert_offer_def Let_def)

lemma slot_of_take: "slot_of (fst (take_offer t p i now)) q = (if p = q then fmdrop i (slot_of t q) else slot_of t q)"
  by (auto simp: take_offer_def Let_def slot_of_def fmdrop_absent split: option.splits)

lemma take_result:
  "snd (take_offer t p i now) =
     (case raw t p i of Some e \<Rightarrow> if is_live now e then Some (offer e) else None | None \<Rightarrow> None)"
  by (auto simp: take_offer_def raw_def slot_of_def Let_def split: option.splits)

lemma raw_empty [simp]: "raw fmempty p i = None"
  by (simp add: raw_def slot_of_def)

lemma insert_accepted:
  "(snd (insert_offer t p i v now) = Inr ()) =
     (let slot = fmretain (\<lambda>_ e. is_live now e) (slot_of t p) in
      \<not> (fmlookup slot i = None \<and> MAX_OFFERS_PER_PEER \<le> fmsize slot))"
  by (simp add: insert_offer_def Let_def)

definition live_part :: "u64 \<Rightarrow> 'v offer_entry option \<Rightarrow> 'v offer_entry option" where
  "live_part now x = (case x of Some e \<Rightarrow> if is_live now e then Some e else None | None \<Rightarrow> None)"

lemma raw_insert:
  "raw (fst (insert_offer t q j v now)) p i =
     (if q \<noteq> p then raw t p i
      else if j \<noteq> i then live_part now (raw t p i)
      else if snd (insert_offer t q j v now) = Inr () then Some \<lparr>offer = v, created = now\<rparr> else None)"
  by (auto simp: raw_def slot_of_insert insert_accepted Let_def live_part_def)

lemma raw_take: "raw (fst (take_offer t q j now)) p i = (if p = q \<and> i = j then None else raw t p i)"
  by (simp add: raw_def slot_of_take)

lemma raw_sweep: "raw (sweep t now) p i = live_part now (raw t p i)"
  by (simp add: raw_def slot_of_sweep live_part_def)

lemmas raw_ops = raw_insert raw_take raw_sweep

section \<open>Capacity\<close>

definition within_capacity :: "'v offer_table \<Rightarrow> bool" where
  "within_capacity t \<longleftrightarrow> (\<forall>p. fmsize (slot_of t p) \<le> MAX_OFFERS_PER_PEER)"

lemma fcard_empty [simp]: "fcard {||} = 0"
  by (simp add: fcard_fempty)

lemma within_capacity_step: "within_capacity t \<Longrightarrow> within_capacity (offer_step t op)"
proof (cases op)
  case (OpInsert p i v now)
  assume t: "within_capacity t"
  have *: "fmsize (fmretain P (slot_of t q)) \<le> MAX_OFFERS_PER_PEER" for P q
    using t fmsize_retain_le [of P "slot_of t q"] order.trans unfolding within_capacity_def by blast
  show ?thesis
    using t * unfolding OpInsert within_capacity_def
    by (auto simp: slot_of_insert Let_def fmsize_upd fmlookup_None_iff not_le Suc_le_eq simp del: fmdom_fmupd)
next
  case (OpTake p i now)
  then show "within_capacity t \<Longrightarrow> ?thesis"
    using fmsize_drop [of i "slot_of t p"]
    by (auto simp: within_capacity_def slot_of_take simp del: fmdom_drop intro: le_diff_conv [THEN iffD2] trans_le_add1)
next
  case (OpSweep now)
  then show "within_capacity t \<Longrightarrow> ?thesis"
    using fmsize_retain_le by (fastforce simp: within_capacity_def slot_of_sweep intro: order.trans)
qed

interpretation offers: machine offer_step within_capacity
  by unfold_locales (rule within_capacity_step)

lemma len_for_peer_slot: "len_for_peer t p now = fmsize (fmretain (\<lambda>_ e. is_live now e) (slot_of t p))"
  by (simp add: len_for_peer_def slot_of_def split: option.splits)

text \<open>
  However inserts, takes and sweeps are interleaved, with whatever clock readings, no peer ever
  holds more than one hundred entries, expired ones included.
\<close>

theorem offers_bounded: "fmsize (slot_of (foldl offer_step fmempty ops) p) \<le> 100"
  using offers.inv_run [of fmempty ops]
  by (simp add: within_capacity_def slot_of_def MAX_OFFERS_PER_PEER_def)

text \<open>
  The cheap capacity check agrees with the insert. For an identifier with no live entry,
  \<open>has_capacity_for_new\<close> holds exactly when the insert would be accepted; an identifier with a live
  entry is always accepted; and a refused insert keeps every live entry of every peer.
\<close>

theorem capacity_check_exact:
  "(snd (insert_offer t p i v now) = Inr ()) =
     (has_capacity_for_new t p now \<or> (\<exists>e. raw t p i = Some e \<and> is_live now e)) \<and>
   (snd (insert_offer t p i v now) \<noteq> Inr () \<longrightarrow>
     (\<forall>q j e. raw t q j = Some e \<and> is_live now e \<longrightarrow>
        raw (fst (insert_offer t p i v now)) q j = Some e))"
proof (intro conjI impI allI)
  show "(snd (insert_offer t p i v now) = Inr ()) =
     (has_capacity_for_new t p now \<or> (\<exists>e. raw t p i = Some e \<and> is_live now e))"
    by (auto simp: insert_accepted has_capacity_for_new_def len_for_peer_slot raw_def Let_def
        split: option.splits)
next
  fix q j e
  assume "snd (insert_offer t p i v now) \<noteq> Inr ()" and "raw t q j = Some e \<and> is_live now e"
  then show "raw (fst (insert_offer t p i v now)) q j = Some e"
    by (auto simp: slot_of_insert insert_accepted raw_def Let_def)
qed

theorem capacity_check_exact_witness:
  "snd (insert_offer (fmempty :: nat offer_table) ''p'' [1] 7 0) = Inr ()"
  using capacity_check_exact [of "fmempty :: nat offer_table" "''p''" "[1]" 7 0]
  by (simp add: has_capacity_for_new_def len_for_peer_def MAX_OFFERS_PER_PEER_def)

section \<open>One take per insert\<close>

text \<open>A call handed out, respectively stored, the offer of \<open>(p, i)\<close>.\<close>

fun handed_out :: "peer_id \<Rightarrow> offer_id \<Rightarrow> 'v offer_table \<Rightarrow> 'v offer_op \<Rightarrow> nat" where
  "handed_out p i t (OpTake q j now) = of_bool (p = q \<and> i = j \<and> snd (take_offer t q j now) \<noteq> None)"
| "handed_out p i t _ = 0"

fun stored :: "peer_id \<Rightarrow> offer_id \<Rightarrow> 'v offer_table \<Rightarrow> 'v offer_op \<Rightarrow> nat" where
  "stored p i t (OpInsert q j v now) = of_bool (p = q \<and> i = j \<and> snd (insert_offer t q j v now) = Inr ())"
| "stored p i t _ = 0"

lemma raw_budget:
  "of_bool (raw (offer_step t op) p i \<noteq> None) + handed_out p i t op
   \<le> (of_bool (raw t p i \<noteq> None) :: nat) + stored p i t op"
  by (cases op) (auto simp: raw_ops take_result live_part_def split: option.splits)

interpretation offer_tokens: budget_machine offer_step "\<lambda>_. True"
    "\<lambda>t. of_bool (raw t p i \<noteq> None)" "handed_out p i" "stored p i"
  for p i
  by unfold_locales (rule TrueI, rule raw_budget)

text \<open>
  An offer is handed out at most once per accepted insert. In every interleaving starting from the
  empty table, the successful takes of a peer and identifier never outnumber the accepted inserts of it.
\<close>

theorem offer_taken_at_most_once:
  "run_sum offer_step (handed_out p i) fmempty ops \<le> run_sum offer_step (stored p i) fmempty ops"
  using offer_tokens.spend_run [where s = fmempty and p = p and i = i and es = ops] by simp

lemma raw_kept:
  "raw t p i = Some e \<Longrightarrow> \<not> op_touches p i op \<Longrightarrow> is_live (op_time op) e \<Longrightarrow> raw (offer_step t op) p i = Some e"
  by (cases op) (auto simp: raw_ops live_part_def)

lemma raw_kept_run:
  "raw t p i = Some e \<Longrightarrow> \<forall>op\<in>set ops. \<not> op_touches p i op \<and> is_live (op_time op) e \<Longrightarrow>
     raw (foldl offer_step t ops) p i = Some e"
  by (induction ops arbitrary: t) (simp_all add: raw_kept)

lemma is_live_iff: "is_live now \<lparr>offer = v, created = t0\<rparr> \<longleftrightarrow> unat now \<le> unat t0 + 20"
  by (auto simp: is_live_def OFFER_TTL_def word_le_nat_alt unat_saturating_sub)

text \<open>
  An accepted offer is delivered. Whatever calls for other offers come in between, as long as
  their clock readings are at most twenty units after the insert, a take within the twenty units
  returns exactly the stored value; one unit later it returns nothing.
\<close>

theorem offer_delivered:
  assumes "snd (insert_offer t p i v t0) = Inr ()"
    and "\<forall>op\<in>set ops. \<not> op_touches p i op \<and> unat (op_time op) \<le> unat t0 + 20"
  shows "snd (take_offer (foldl offer_step (fst (insert_offer t p i v t0)) ops) p i now) =
    (if unat now \<le> unat t0 + 20 then Some v else None)"
proof -
  have "raw (foldl offer_step (fst (insert_offer t p i v t0)) ops) p i = Some \<lparr>offer = v, created = t0\<rparr>"
    using assms by (intro raw_kept_run) (auto simp: raw_insert is_live_iff)
  then show ?thesis by (simp add: take_result is_live_iff)
qed

theorem offer_delivered_witness:
  "snd (take_offer (foldl offer_step (fst (insert_offer fmempty ''p'' [1] (7 :: nat) 100))
      [OpInsert ''p'' [2] 8 110, OpSweep 120]) ''p'' [1] 120) = Some 7"
proof -
  have "snd (insert_offer fmempty ''p'' [1] (7 :: nat) 100) = Inr ()"
    by (simp add: insert_offer_def slot_of_def MAX_OFFERS_PER_PEER_def)
  from offer_delivered [OF this, of "[OpInsert ''p'' [2] 8 110, OpSweep 120]" 120] show ?thesis by simp
qed

end
