(* ===== verification/Byte_Reader.thy ===== *)
theory Byte_Reader
  imports Prelude
begin

text \<open>
  The bounds-checked cursor shared by the chat codecs (\<^verbatim>\<open>Rd\<close> in
  \<^verbatim>\<open>crates/miasma-core/src/chat/crypto.rs\<close>). A cursor is the part of the input that is still
  unread; a read that asks for more than is left fails without consuming anything. Each read has an
  equation that says what it accepts, which turns a decoder into a description of the bytes.
\<close>

definition rd_bytes :: "nat \<Rightarrow> bytes \<Rightarrow> (bytes \<times> bytes) option" where
  "rd_bytes n s = (if length s < n then None else Some (take n s, drop n s))"

definition rd_u8 :: "bytes \<Rightarrow> (u8 \<times> bytes) option" where
  "rd_u8 s = map_option (\<lambda>(x, s'). (hd x, s')) (rd_bytes 1 s)"

definition rd_u16 :: "bytes \<Rightarrow> (u16 \<times> bytes) option" where
  "rd_u16 s = map_option (\<lambda>(x, s'). (word_of_nat (be_val x), s')) (rd_bytes 2 s)"

definition rd_u32 :: "bytes \<Rightarrow> (u32 \<times> bytes) option" where
  "rd_u32 s = map_option (\<lambda>(x, s'). (word_of_nat (be_val x), s')) (rd_bytes 4 s)"

definition rd_u64 :: "bytes \<Rightarrow> (u64 \<times> bytes) option" where
  "rd_u64 s = map_option (\<lambda>(x, s'). (word_of_nat (be_val x), s')) (rd_bytes 8 s)"

definition rd_done :: "bytes \<Rightarrow> bool" where
  "rd_done s \<longleftrightarrow> s = []"

text \<open>A read followed by the rest of a decoder, with the error of a short read.\<close>

definition need :: "'e \<Rightarrow> ('a \<times> bytes) option \<Rightarrow> ('a \<Rightarrow> bytes \<Rightarrow> 'e + 'r) \<Rightarrow> 'e + 'r" where
  "need e g f = (case g of None \<Rightarrow> Inl e | Some (x, s) \<Rightarrow> f x s)"

section \<open>What the reads accept\<close>

lemma need_simps [simp]: "need e None f = Inl e" "need e (Some (x, s)) f = f x s"
  by (simp_all add: need_def)

lemma need_Inr: "need e g f = Inr r \<longleftrightarrow> (\<exists>x s. g = Some (x, s) \<and> f x s = Inr r)"
  by (auto simp: need_def split: option.splits)

lemmas Inr_iffs = need_Inr Inr_simps

lemma rd_bytes_iff: "rd_bytes n s = Some (x, s') \<longleftrightarrow> length x = n \<and> s = x @ s'"
  by (auto simp: rd_bytes_def)

lemma rd_u8_iff: "rd_u8 s = Some (x, s') \<longleftrightarrow> s = x # s'"
  by (cases s) (auto simp: rd_u8_def rd_bytes_def)

lemma rd_word:
  assumes "8 * n = LENGTH('a :: len)"
  shows "map_option (\<lambda>(x, s'). (word_of_nat (be_val x) :: 'a word, s')) (rd_bytes n s) = Some (w, s') \<longleftrightarrow>
    s = be_bytes n (unat w) @ s'"
  using assms by (auto simp: rd_bytes_iff be_word word_be)

lemma rd_u16_iff: "rd_u16 s = Some (w, s') \<longleftrightarrow> s = be_bytes 2 (unat w) @ s'"
  unfolding rd_u16_def by (rule rd_word) simp

lemma rd_u32_iff: "rd_u32 s = Some (w, s') \<longleftrightarrow> s = be_bytes 4 (unat w) @ s'"
  unfolding rd_u32_def by (rule rd_word) simp

lemma rd_u64_iff: "rd_u64 s = Some (w, s') \<longleftrightarrow> s = be_bytes 8 (unat w) @ s'"
  unfolding rd_u64_def by (rule rd_word) simp

lemmas rd_iffs = rd_bytes_iff rd_u8_iff rd_u16_iff rd_u32_iff rd_u64_iff

text \<open>Reading back what was written, for evaluating a decoder on an encoding.\<close>

lemma rd_bytes_app [simp]: "length x = n \<Longrightarrow> rd_bytes n (x @ s) = Some (x, s)"
  by (simp add: rd_bytes_iff)

lemma rd_bytes_all [simp]: "length x = n \<Longrightarrow> rd_bytes n x = Some (x, [])"
  by (simp add: rd_bytes_iff)

lemma rd_u8_cons [simp]: "rd_u8 (x # s) = Some (x, s)"
  by (simp add: rd_u8_iff)

lemma rd_u16_app [simp]: "rd_u16 (be_bytes 2 (unat w) @ s) = Some (w, s)"
  by (simp add: rd_u16_iff)

lemma rd_u32_app [simp]: "rd_u32 (be_bytes 4 (unat w) @ s) = Some (w, s)"
  by (simp add: rd_u32_iff)

lemma rd_u64_app [simp]: "rd_u64 (be_bytes 8 (unat w) @ s) = Some (w, s)"
  by (simp add: rd_u64_iff)

lemma rd_u64_all [simp]: "rd_u64 (be_bytes 8 (unat w)) = Some (w, [])"
  by (simp add: rd_u64_iff)

section \<open>Text and order of bytes\<close>

text \<open>\<open>utf8_valid\<close> is the check of \<^verbatim>\<open>str::from_utf8\<close>; a \<open>String\<close> is kept as its bytes.\<close>

definition cont :: "u8 \<Rightarrow> bool" where
  "cont b \<longleftrightarrow> 0x80 \<le> b \<and> b \<le> 0xBF"

fun utf8_valid :: "bytes \<Rightarrow> bool" where
  "utf8_valid [] = True"
| "utf8_valid [a] = (a < 0x80)"
| "utf8_valid [a, b] =
     (if a < 0x80 then utf8_valid [b] else 0xC2 \<le> a \<and> a \<le> 0xDF \<and> cont b)"
| "utf8_valid [a, b, c] =
     (if a < 0x80 then utf8_valid [b, c]
      else if 0xC2 \<le> a \<and> a \<le> 0xDF then cont b \<and> utf8_valid [c]
      else 0xE0 \<le> a \<and> a \<le> 0xEF \<and> cont b \<and> cont c \<and> (a = 0xE0 \<longrightarrow> 0xA0 \<le> b) \<and> (a = 0xED \<longrightarrow> b \<le> 0x9F))"
| "utf8_valid (a # b # c # d # s) =
     (if a < 0x80 then utf8_valid (b # c # d # s)
      else if 0xC2 \<le> a \<and> a \<le> 0xDF then cont b \<and> utf8_valid (c # d # s)
      else if 0xE0 \<le> a \<and> a \<le> 0xEF then
        cont b \<and> cont c \<and> (a = 0xE0 \<longrightarrow> 0xA0 \<le> b) \<and> (a = 0xED \<longrightarrow> b \<le> 0x9F) \<and> utf8_valid (d # s)
      else 0xF0 \<le> a \<and> a \<le> 0xF4 \<and> cont b \<and> cont c \<and> cont d \<and>
        (a = 0xF0 \<longrightarrow> 0x90 \<le> b) \<and> (a = 0xF4 \<longrightarrow> b \<le> 0x8F) \<and> utf8_valid s)"

text \<open>The order of byte arrays.\<close>

fun lex_less :: "bytes \<Rightarrow> bytes \<Rightarrow> bool" where
  "lex_less _ [] = False"
| "lex_less [] (_ # _) = True"
| "lex_less (x # xs) (y # ys) = (x < y \<or> x = y \<and> lex_less xs ys)"

lemma lex_less_irrefl: "\<not> lex_less x x"
  by (induction x) auto

lemma lex_less_asym: "lex_less x y \<Longrightarrow> \<not> lex_less y x"
  by (induction x y rule: lex_less.induct) auto

lemma lex_less_trans: "lex_less x y \<Longrightarrow> lex_less y z \<Longrightarrow> lex_less x z"
proof (induction x y arbitrary: z rule: lex_less.induct)
  case (2 y ys)
  then show ?case by (cases z) auto
next
  case (3 x xs y ys)
  then show ?case by (cases z) auto
qed simp

lemma lex_less_linear: "lex_less x y \<or> x = y \<or> lex_less y x"
  by (induction x y rule: lex_less.induct) (auto, metis neq_Nil_conv lex_less.simps(2))

lemma lex_least: "\<not> lex_less w b \<Longrightarrow> \<not> lex_less x w \<Longrightarrow> \<not> lex_less x b"
  using lex_less_linear [of b w] lex_less_trans [of x b w] by blast

end
