(* ===== verification/Call_Signal.thy ===== *)
theory Call_Signal
  imports Byte_Reader
begin

text \<open>
  The call signalling records and their strict binary codec,
  \<^verbatim>\<open>crates/miasma-core/src/chat/call/signal.rs\<close>: the kind byte, fixed-width fields in order
  and a length-prefixed capability block.
\<close>

section \<open>Records\<close>

definition CALL_ID_LEN :: nat where "CALL_ID_LEN = 16"
definition CALL_NONCE_LEN :: nat where "CALL_NONCE_LEN = 16"
definition KEY_SHARE_LEN :: nat where "KEY_SHARE_LEN = 32"
definition MAX_CAPABILITIES_LEN :: nat where "MAX_CAPABILITIES_LEN = 1024"

definition is_known :: "u8 \<Rightarrow> bool" where
  "is_known r \<longleftrightarrow> 0x00 \<le> r \<and> r \<le> 0x08"

datatype kind = KOffer | KAnswer | KReject | KBusy | KCancel | KBye | KAck | KCollide

fun kind_byte :: "kind \<Rightarrow> u8" where
  "kind_byte KOffer = 0x30"
| "kind_byte KAnswer = 0x31"
| "kind_byte KReject = 0x32"
| "kind_byte KBusy = 0x33"
| "kind_byte KCancel = 0x34"
| "kind_byte KBye = 0x35"
| "kind_byte KAck = 0x36"
| "kind_byte KCollide = 0x37"

definition from_byte :: "u8 \<Rightarrow> kind option" where
  "from_byte b =
     (if b = 0x30 then Some KOffer else if b = 0x31 then Some KAnswer else if b = 0x32 then Some KReject
      else if b = 0x33 then Some KBusy else if b = 0x34 then Some KCancel else if b = 0x35 then Some KBye
      else if b = 0x36 then Some KAck else if b = 0x37 then Some KCollide else None)"

text \<open>The arguments in the order of the source: call id, nonce, key share, times, reason, block.\<close>

datatype signal_record =
    SOffer bytes bytes bytes u64 u64 bytes
  | SAnswer bytes bytes bytes u64 bytes
  | SReject bytes u64 u8
  | SBusy bytes u64 u8
  | SCancel bytes u64 u8
  | SBye bytes u64
  | SAck bytes u8
  | SCollide bytes bytes u64

datatype signal_error = UnknownKind | UnknownReason | Truncated | Oversized | TrailingBytes | TooLong

fun record_kind :: "signal_record \<Rightarrow> kind" where
  "record_kind (SOffer _ _ _ _ _ _) = KOffer"
| "record_kind (SAnswer _ _ _ _ _) = KAnswer"
| "record_kind (SReject _ _ _) = KReject"
| "record_kind (SBusy _ _ _) = KBusy"
| "record_kind (SCancel _ _ _) = KCancel"
| "record_kind (SBye _ _) = KBye"
| "record_kind (SAck _ _) = KAck"
| "record_kind (SCollide _ _ _) = KCollide"

fun record_call_id :: "signal_record \<Rightarrow> bytes" where
  "record_call_id (SOffer i _ _ _ _ _) = i"
| "record_call_id (SAnswer i _ _ _ _) = i"
| "record_call_id (SReject i _ _) = i"
| "record_call_id (SBusy i _ _) = i"
| "record_call_id (SCancel i _ _) = i"
| "record_call_id (SBye i _) = i"
| "record_call_id (SAck i _) = i"
| "record_call_id (SCollide i _ _) = i"

section \<open>Codec\<close>

definition put_lp :: "bytes \<Rightarrow> signal_error + bytes" where
  "put_lp bs = (if MAX_CAPABILITIES_LEN < length bs then Inl TooLong else Inr (be_bytes 2 (length bs) @ bs))"

definition take_lp :: "bytes \<Rightarrow> signal_error + (bytes \<times> bytes)" where
  "take_lp s =
     need Truncated (rd_u16 s) (\<lambda>n s.
       if MAX_CAPABILITIES_LEN < unat n then Inl Oversized
       else need Truncated (rd_bytes (unat n) s) (\<lambda>x s. Inr (x, s)))"

text \<open>The fields of a record after the kind byte.\<close>

fun encode_fields :: "signal_record \<Rightarrow> signal_error + bytes" where
  "encode_fields (SOffer i n k c e caps) =
     (case put_lp caps of
        Inl err \<Rightarrow> Inl err
      | Inr lp \<Rightarrow> Inr (i @ n @ k @ be_bytes 8 (unat c) @ be_bytes 8 (unat e) @ lp))"
| "encode_fields (SAnswer i n k c caps) =
     (case put_lp caps of
        Inl err \<Rightarrow> Inl err
      | Inr lp \<Rightarrow> Inr (i @ n @ k @ be_bytes 8 (unat c) @ lp))"
| "encode_fields (SReject i c r) = Inr (i @ be_bytes 8 (unat c) @ [r])"
| "encode_fields (SBusy i c r) = Inr (i @ be_bytes 8 (unat c) @ [r])"
| "encode_fields (SCancel i c r) = Inr (i @ be_bytes 8 (unat c) @ [r])"
| "encode_fields (SBye i c) = Inr (i @ be_bytes 8 (unat c))"
| "encode_fields (SAck i k) = Inr (i @ [k])"
| "encode_fields (SCollide i p c) = Inr (i @ p @ be_bytes 8 (unat c))"

definition encode :: "signal_record \<Rightarrow> signal_error + bytes" where
  "encode r =
     (case encode_fields r of
        Inl err \<Rightarrow> Inl err
      | Inr fields \<Rightarrow> Inr (kind_byte (record_kind r) # fields))"

text \<open>The end check of the decoder.\<close>

definition finish :: "signal_record \<Rightarrow> bytes \<Rightarrow> signal_error + signal_record" where
  "finish r s = (if rd_done s then Inr r else Inl TrailingBytes)"

fun decode_fields :: "kind \<Rightarrow> bytes \<Rightarrow> signal_error + signal_record" where
  "decode_fields KOffer s =
     need Truncated (rd_bytes CALL_ID_LEN s) (\<lambda>i s.
     need Truncated (rd_bytes CALL_NONCE_LEN s) (\<lambda>n s.
     need Truncated (rd_bytes KEY_SHARE_LEN s) (\<lambda>k s.
     need Truncated (rd_u64 s) (\<lambda>c s.
     need Truncated (rd_u64 s) (\<lambda>e s.
     case take_lp s of Inl err \<Rightarrow> Inl err | Inr (caps, s) \<Rightarrow> finish (SOffer i n k c e caps) s)))))"
| "decode_fields KAnswer s =
     need Truncated (rd_bytes CALL_ID_LEN s) (\<lambda>i s.
     need Truncated (rd_bytes CALL_NONCE_LEN s) (\<lambda>n s.
     need Truncated (rd_bytes KEY_SHARE_LEN s) (\<lambda>k s.
     need Truncated (rd_u64 s) (\<lambda>c s.
     case take_lp s of Inl err \<Rightarrow> Inl err | Inr (caps, s) \<Rightarrow> finish (SAnswer i n k c caps) s))))"
| "decode_fields KBye s =
     need Truncated (rd_bytes CALL_ID_LEN s) (\<lambda>i s.
     need Truncated (rd_u64 s) (\<lambda>c s. finish (SBye i c) s))"
| "decode_fields KAck s =
     need Truncated (rd_bytes CALL_ID_LEN s) (\<lambda>i s.
     need Truncated (rd_u8 s) (\<lambda>k s.
     if from_byte k = None then Inl UnknownKind else finish (SAck i k) s))"
| "decode_fields KCollide s =
     need Truncated (rd_bytes CALL_ID_LEN s) (\<lambda>i s.
     need Truncated (rd_bytes CALL_ID_LEN s) (\<lambda>p s.
     need Truncated (rd_u64 s) (\<lambda>c s. finish (SCollide i p c) s)))"
| "decode_fields kd s =
     need Truncated (rd_bytes CALL_ID_LEN s) (\<lambda>i s.
     need Truncated (rd_u64 s) (\<lambda>c s.
     need Truncated (rd_u8 s) (\<lambda>r s.
     if \<not> is_known r then Inl UnknownReason
     else finish (case kd of KReject \<Rightarrow> SReject i c r | KBusy \<Rightarrow> SBusy i c r | _ \<Rightarrow> SCancel i c r) s)))"

definition decode :: "bytes \<Rightarrow> signal_error + signal_record" where
  "decode b =
     need Truncated (rd_u8 b) (\<lambda>k s.
       case from_byte k of None \<Rightarrow> Inl UnknownKind | Some kd \<Rightarrow> decode_fields kd s)"

section \<open>Correctness\<close>

text \<open>Well-formed records: what the types of the source guarantee, and the two decoder checks.\<close>

fun wf_record :: "signal_record \<Rightarrow> bool" where
  "wf_record (SOffer i n k _ _ caps) = (length i = 16 \<and> length n = 16 \<and> length k = 32 \<and> length caps \<le> 1024)"
| "wf_record (SAnswer i n k _ caps) = (length i = 16 \<and> length n = 16 \<and> length k = 32 \<and> length caps \<le> 1024)"
| "wf_record (SReject i _ r) = (length i = 16 \<and> is_known r)"
| "wf_record (SBusy i _ r) = (length i = 16 \<and> is_known r)"
| "wf_record (SCancel i _ r) = (length i = 16 \<and> is_known r)"
| "wf_record (SBye i _) = (length i = 16)"
| "wf_record (SAck i k) = (length i = 16 \<and> from_byte k \<noteq> None)"
| "wf_record (SCollide i p _) = (length i = 16 \<and> length p = 16)"

lemma from_byte_kind [simp]: "from_byte (kind_byte k) = Some k"
  by (cases k) (simp_all add: from_byte_def)

lemma from_byte_Some: "from_byte b = Some k \<longleftrightarrow> b = kind_byte k"
  by (cases k) (auto simp: from_byte_def)

lemma take_lp_iff:
  "take_lp s = Inr (x, s') \<longleftrightarrow> length x \<le> 1024 \<and> s = be_bytes 2 (length x) @ x @ s'"
proof -
  have u: "unat (word_of_nat (length x) :: u16) = length x" if "length x \<le> 1024"
    using that by (simp add: unat_of_nat)
  show ?thesis
    by (auto simp: take_lp_def need_Inr rd_iffs MAX_CAPABILITIES_LEN_def not_less split: if_splits)
      (metis u)
qed

lemma put_lp_iff: "put_lp x = Inr y \<longleftrightarrow> length x \<le> 1024 \<and> y = be_bytes 2 (length x) @ x"
  by (auto simp: put_lp_def MAX_CAPABILITIES_LEN_def)

lemma take_lp_app [simp]: "length x \<le> 1024 \<Longrightarrow> take_lp (be_bytes 2 (length x) @ x @ s) = Inr (x, s)"
  by (simp add: take_lp_iff)

lemma take_lp_all [simp]: "length x \<le> 1024 \<Longrightarrow> take_lp (be_bytes 2 (length x) @ x) = Inr (x, [])"
  using take_lp_app [of x "[]"] by simp

lemma finish_iff [simp]: "finish r s = Inr q \<longleftrightarrow> s = [] \<and> q = r"
  by (auto simp: finish_def rd_done_def)

lemmas signal_lens = CALL_ID_LEN_def CALL_NONCE_LEN_def KEY_SHARE_LEN_def

lemma encode_total: "wf_record r \<Longrightarrow> \<exists>b. encode r = Inr b"
  by (cases r) (auto simp: encode_def put_lp_def MAX_CAPABILITIES_LEN_def)

lemma decode_encode_fields: "wf_record r \<Longrightarrow> encode_fields r = Inr s \<Longrightarrow> decode_fields (record_kind r) s = Inr r"
  by (cases r) (auto simp: put_lp_def signal_lens MAX_CAPABILITIES_LEN_def)

lemma decode_encode: "wf_record r \<Longrightarrow> encode r = Inr b \<Longrightarrow> decode b = Inr r"
  by (auto simp: encode_def decode_def decode_encode_fields split: sum.splits)

lemma decode_fields_sound:
  "decode_fields k s = Inr r \<Longrightarrow> wf_record r \<and> record_kind r = k \<and> encode_fields r = Inr s"
  by (cases "(k, s)" rule: decode_fields.cases)
    (auto simp: need_Inr rd_iffs signal_lens case_sum_Inr take_lp_iff put_lp_def MAX_CAPABILITIES_LEN_def
      split: if_splits)

lemma decode_sound: "decode b = Inr r \<Longrightarrow> wf_record r \<and> encode r = Inr b"
  by (auto simp: decode_def encode_def need_Inr rd_u8_iff from_byte_Some dest!: decode_fields_sound
      split: option.splits)

text \<open>The codec as an instance of the wire contract, on encodings of well-formed records.\<close>

definition encode_bytes :: "signal_record \<Rightarrow> bytes" where
  "encode_bytes r = (case encode r of Inr b \<Rightarrow> b | Inl _ \<Rightarrow> [])"

interpretation signal: codec encode_bytes decode wf_record
proof
  show "decode (encode_bytes r) = Inr r" if "wf_record r" for r
    using that encode_total [OF that] by (auto simp: encode_bytes_def decode_encode)
  show "wf_record r" if "decode b = Inr r" for b r using decode_sound [OF that] ..
  show "encode_bytes r = b" if "decode b = Inr r" for b r using decode_sound [OF that] by (simp add: encode_bytes_def)
qed

text \<open>
  The signalling codec is an exact round trip. A byte string decodes to a record exactly when the
  record is well formed and the bytes are its encoding, so there is one encoding per record, nothing
  hostile decodes to an ill-formed record, and an encoding fails only for an over-long capability block.
\<close>

theorem signal_codec_exact:
  "(decode b = Inr r \<longleftrightarrow> wf_record r \<and> encode r = Inr b) \<and>
   (encode r = Inl err \<longrightarrow> err = TooLong \<and> \<not> wf_record r)"
proof
  show "decode b = Inr r \<longleftrightarrow> wf_record r \<and> encode r = Inr b"
    using signal.dec_iff [of b r] encode_total [of r] by (auto simp: encode_bytes_def)
  show "encode r = Inl err \<longrightarrow> err = TooLong \<and> \<not> wf_record r"
    using encode_total [of r] by (cases r) (auto simp: encode_def put_lp_def split: if_splits)
qed

theorem signal_codec_exact_witness:
  "encode (SOffer [] [] [] 0 0 (replicate 1025 0)) = Inl TooLong \<and>
   \<not> wf_record (SOffer [] [] [] 0 0 (replicate 1025 0))"
proof -
  have e: "encode (SOffer [] [] [] 0 0 (replicate 1025 0)) = Inl TooLong"
    by (simp add: encode_def put_lp_def MAX_CAPABILITIES_LEN_def)
  show ?thesis
    using signal_codec_exact [of "[]" "SOffer [] [] [] 0 0 (replicate 1025 0)" TooLong] e by simp
qed

end
