(* ===== verification/Call_State.thy ===== *)
theory Call_State
  imports Prelude
begin

text \<open>
  The per-call state machine of \<^verbatim>\<open>crates/miasma-core/src/chat/call/state.rs\<close>: four states,
  the user's actions, the peer's control messages and the two timeouts, with the effects the caller
  has to carry out. A call identifier is its byte string; zeroizing it leaves no field behind.
\<close>

section \<open>Data\<close>

type_synonym call_id = bytes
type_synonym call_peer = bytes

datatype ordering = Less | Equal | Greater

fun cmp_bytes :: "call_id \<Rightarrow> call_id \<Rightarrow> ordering" where
  "cmp_bytes [] [] = Equal"
| "cmp_bytes [] (_ # _) = Less"
| "cmp_bytes (_ # _) [] = Greater"
| "cmp_bytes (x # xs) (y # ys) = (if x < y then Less else if y < x then Greater else cmp_bytes xs ys)"

datatype call_state = Idle | Calling | Ringing | Connected

datatype call_role = Caller | Callee

record call_offer =
  of_call_id :: call_id
  of_peer_id :: call_peer
  from_contact :: bool
  of_expired :: bool
  other_call_active :: bool

datatype call_reason = Declined | Canceled | TimedOut | BusyReason | CollisionLost | EstablishmentFailed

datatype control = COffer | CAnswer | CReject | CBusy | CCancel | CBye | CCollide

datatype notice =
    IncomingRinging | Rejected | PeerBusy | NoAnswer | ConnectedNotice | CallEnded | PeerLost
  | EstablishmentFailedNotice | ClearIncoming

datatype call_effect =
    Send control call_id "call_reason option"
  | Collide call_id call_id
  | Show notice
  | ZeroizeKeys
  | ReplaceSasInput call_id

datatype call_event =
    UserDial call_id call_peer | UserAccept | UserReject | UserHangUp
  | ReceivedOffer call_offer | ReceivedAnswer call_id | ReceivedReject call_id
  | ReceivedHangUp call_id | ReceivedBusy call_id | ReceivedCancel call_id
  | Timeout | MediaSilence | DeviceOpenFailed

record transition =
  tr_next :: call_state
  tr_effects :: "call_effect list"

definition ignore :: "call_state \<Rightarrow> transition" where
  "ignore s = \<lparr>tr_next = s, tr_effects = []\<rparr>"

record call_machine =
  cm_state :: call_state
  cm_role :: "call_role option"
  cm_active :: "call_id option"
  cm_peer :: "call_peer option"

definition call_new :: call_machine where
  "call_new = \<lparr>cm_state = Idle, cm_role = None, cm_active = None, cm_peer = None\<rparr>"

definition matches_active :: "call_machine \<Rightarrow> call_id \<Rightarrow> bool" where
  "matches_active m i = (case cm_active m of Some a \<Rightarrow> a = i | None \<Rightarrow> False)"

definition clear :: "call_machine \<Rightarrow> call_machine" where
  "clear m = m\<lparr>cm_state := Idle, cm_role := None, cm_peer := None, cm_active := None\<rparr>"

section \<open>Transitions\<close>

text \<open>Ending a call: the notice to the peer carries the active identifier, if there is one.\<close>

definition send_active :: "call_machine \<Rightarrow> control \<Rightarrow> call_reason option \<Rightarrow> call_effect list" where
  "send_active m c r = (case cm_active m of Some i \<Rightarrow> [Send c i r] | None \<Rightarrow> [])"

definition end_call :: "call_machine \<Rightarrow> call_effect list \<Rightarrow> call_machine \<times> transition" where
  "end_call m effs = (clear m, \<lparr>tr_next = Idle, tr_effects = effs\<rparr>)"

text \<open>A control message is acted on only when its echoed identifier is the active one.\<close>

definition if_active ::
  "call_machine \<Rightarrow> call_id \<Rightarrow> call_machine \<times> transition \<Rightarrow> call_machine \<times> transition" where
  "if_active m i r = (if matches_active m i then r else (m, ignore (cm_state m)))"

definition on_offer_idle :: "call_machine \<Rightarrow> call_offer \<Rightarrow> call_machine \<times> transition" where
  "on_offer_idle m offer =
     (if \<not> from_contact offer then (m, ignore Idle)
      else if of_expired offer then (m, ignore Idle)
      else if other_call_active offer then
        (m, \<lparr>tr_next = Idle, tr_effects = [Send CBusy (of_call_id offer) (Some BusyReason)]\<rparr>)
      else
        (m\<lparr>cm_state := Ringing, cm_role := Some Callee, cm_active := Some (of_call_id offer),
           cm_peer := Some (of_peer_id offer)\<rparr>,
         \<lparr>tr_next = Ringing, tr_effects = [Show IncomingRinging]\<rparr>))"

definition on_offer_calling :: "call_machine \<Rightarrow> call_offer \<Rightarrow> call_machine \<times> transition" where
  "on_offer_calling m offer =
     (if \<not> from_contact offer then (m, ignore Calling)
      else if of_expired offer then (m, ignore Calling)
      else if cm_peer m \<noteq> Some (of_peer_id offer) \<or> other_call_active offer then
        (m, \<lparr>tr_next = Calling, tr_effects = [Send CBusy (of_call_id offer) (Some BusyReason)]\<rparr>)
      else (case cm_active m of
          None \<Rightarrow> (m, ignore Calling)
        | Some ours \<Rightarrow>
            (case cmp_bytes ours (of_call_id offer) of
               Less \<Rightarrow> (m, \<lparr>tr_next = Calling, tr_effects = [Collide ours (of_call_id offer)]\<rparr>)
             | Greater \<Rightarrow>
                 (m\<lparr>cm_state := Ringing, cm_role := Some Callee, cm_active := Some (of_call_id offer)\<rparr>,
                  \<lparr>tr_next = Ringing,
                   tr_effects = [Send CCancel ours (Some CollisionLost), ZeroizeKeys,
                     ReplaceSasInput (of_call_id offer), Show IncomingRinging]\<rparr>)
             | Equal \<Rightarrow> end_call m [ZeroizeKeys])))"

definition on_offer_busy :: "call_machine \<Rightarrow> call_offer \<Rightarrow> call_machine \<times> transition" where
  "on_offer_busy m offer =
     (if \<not> from_contact offer \<or> of_expired offer then (m, ignore (cm_state m))
      else (m, \<lparr>tr_next = cm_state m, tr_effects = [Send CBusy (of_call_id offer) (Some BusyReason)]\<rparr>))"

definition on_device_failed :: "call_machine \<Rightarrow> call_machine \<times> transition" where
  "on_device_failed m =
     end_call m (send_active m (if cm_state m = Connected then CBye else CReject) (Some EstablishmentFailed) @
       [ZeroizeKeys, Show EstablishmentFailedNotice])"

fun call_step_in :: "call_state \<Rightarrow> call_machine \<Rightarrow> call_event \<Rightarrow> call_machine \<times> transition" where
  "call_step_in Idle m (UserDial i p) =
     (m\<lparr>cm_state := Calling, cm_role := Some Caller, cm_active := Some i, cm_peer := Some p\<rparr>,
      \<lparr>tr_next = Calling, tr_effects = [Send COffer i None]\<rparr>)"
| "call_step_in Idle m (ReceivedOffer offer) = on_offer_idle m offer"
| "call_step_in Calling m (ReceivedAnswer i) =
     if_active m i (m\<lparr>cm_state := Connected\<rparr>, \<lparr>tr_next = Connected, tr_effects = [Show ConnectedNotice]\<rparr>)"
| "call_step_in Calling m (ReceivedReject i) = if_active m i (end_call m [Show Rejected])"
| "call_step_in Calling m (ReceivedBusy i) = if_active m i (end_call m [Show PeerBusy])"
| "call_step_in Calling m Timeout = end_call m (send_active m CCancel (Some TimedOut) @ [Show NoAnswer])"
| "call_step_in Calling m UserHangUp = end_call m (send_active m CCancel (Some Canceled))"
| "call_step_in Calling m (ReceivedOffer offer) = on_offer_calling m offer"
| "call_step_in Ringing m UserAccept =
     (case cm_active m of
        Some i \<Rightarrow> (m\<lparr>cm_state := Connected\<rparr>,
                   \<lparr>tr_next = Connected, tr_effects = [Send CAnswer i None, Show ConnectedNotice]\<rparr>)
      | None \<Rightarrow> (m, ignore Ringing))"
| "call_step_in Ringing m DeviceOpenFailed = on_device_failed m"
| "call_step_in Connected m DeviceOpenFailed = on_device_failed m"
| "call_step_in Ringing m UserReject = end_call m (send_active m CReject (Some Declined))"
| "call_step_in Ringing m (ReceivedCancel i) = if_active m i (end_call m [Show ClearIncoming])"
| "call_step_in Ringing m Timeout = end_call m [Show ClearIncoming]"
| "call_step_in Ringing m (UserDial i p) = (m, ignore Ringing)"
| "call_step_in Connected m (ReceivedHangUp i) = if_active m i (end_call m [ZeroizeKeys, Show CallEnded])"
| "call_step_in Connected m UserHangUp = end_call m (send_active m CBye None @ [ZeroizeKeys, Show CallEnded])"
| "call_step_in Connected m MediaSilence = end_call m [ZeroizeKeys, Show PeerLost]"
| "call_step_in Ringing m (ReceivedOffer offer) = on_offer_busy m offer"
| "call_step_in Connected m (ReceivedOffer offer) = on_offer_busy m offer"
| "call_step_in s m _ = (m, ignore s)"

definition call_step :: "call_machine \<Rightarrow> call_event \<Rightarrow> u64 \<Rightarrow> call_machine \<times> transition" where
  "call_step m e now_ms = call_step_in (cm_state m) m e"

section \<open>The machine invariant\<close>

definition call_ok :: "call_machine \<Rightarrow> bool" where
  "call_ok m \<longleftrightarrow>
     (cm_state m = Idle \<longleftrightarrow> cm_active m = None) \<and> (cm_state m = Idle \<longleftrightarrow> cm_peer m = None) \<and>
     (cm_state m = Idle \<longleftrightarrow> cm_role m = None) \<and>
     (cm_state m = Calling \<longrightarrow> cm_role m = Some Caller) \<and> (cm_state m = Ringing \<longrightarrow> cm_role m = Some Callee)"

lemmas call_defs =
  ignore_def clear_def end_call_def if_active_def on_offer_idle_def on_offer_calling_def on_offer_busy_def
  on_device_failed_def send_active_def matches_active_def

definition cstep :: "call_machine \<Rightarrow> call_event \<times> u64 \<Rightarrow> call_machine" where
  "cstep m ev = fst (call_step m (fst ev) (snd ev))"

lemma call_step_ok: "call_ok m \<Longrightarrow> call_ok (fst (call_step m e n))"
  unfolding call_step_def
  by (cases "(cm_state m, m, e)" rule: call_step_in.cases)
    (auto simp: call_ok_def call_defs split: option.splits ordering.splits)

interpretation call: machine cstep call_ok
  by unfold_locales (simp add: cstep_def call_step_ok)

lemma call_new_ok: "call_ok call_new"
  by (simp add: call_ok_def call_new_def)

lemma call_step_next: "tr_next (snd (call_step m e n)) = cm_state (fst (call_step m e n))"
  unfolding call_step_def
  by (cases "(cm_state m, m, e)" rule: call_step_in.cases)
    (auto simp: call_defs split: option.splits ordering.splits)

text \<open>
  In every history of a call machine, an idle machine holds no call identifier, peer or role and a
  busy one holds all three, the caller waits and the callee rings, and the state the transition reports
  is the state of the machine.
\<close>

theorem call_machine_invariant:
  "call_ok (foldl cstep call_new es) \<and>
   tr_next (snd (call_step m e n)) = cm_state (fst (call_step m e n))"
  using call.inv_run [OF call_new_ok, of es] call_step_next by blast

text \<open>
  Key hygiene. Every step that leaves a connected call returns to idle and orders the media keys
  to be wiped; so does losing or tying a simultaneous dial; and no step that wipes keys stays
  connected.
\<close>

theorem call_keys_wiped:
  "(cm_state m = Connected \<and> cm_state (fst (call_step m e n)) \<noteq> Connected \<longrightarrow>
     cm_state (fst (call_step m e n)) = Idle \<and> ZeroizeKeys \<in> set (tr_effects (snd (call_step m e n)))) \<and>
   (cm_state m = Calling \<and> cm_state (fst (call_step m e n)) = Ringing \<longrightarrow>
     ZeroizeKeys \<in> set (tr_effects (snd (call_step m e n)))) \<and>
   (ZeroizeKeys \<in> set (tr_effects (snd (call_step m e n))) \<longrightarrow>
     cm_state (fst (call_step m e n)) \<in> {Idle, Ringing})"
  unfolding call_step_def
  by (cases "(cm_state m, m, e)" rule: call_step_in.cases)
    (auto simp: call_defs split: option.splits ordering.splits)

definition demo_call :: call_machine where
  "demo_call = \<lparr>cm_state = Connected, cm_role = Some Caller, cm_active = Some [1], cm_peer = Some [2]\<rparr>"

theorem call_keys_wiped_witness:
  "ZeroizeKeys \<in> set (tr_effects (snd (call_step demo_call (ReceivedHangUp [1]) 0)))"
  using call_keys_wiped [of demo_call "ReceivedHangUp [1]" 0]
  by (simp add: demo_call_def call_step_def call_defs)

text \<open>The call identifier a received control message echoes.\<close>

fun echoed :: "call_event \<Rightarrow> call_id option" where
  "echoed (ReceivedAnswer i) = Some i"
| "echoed (ReceivedReject i) = Some i"
| "echoed (ReceivedHangUp i) = Some i"
| "echoed (ReceivedBusy i) = Some i"
| "echoed (ReceivedCancel i) = Some i"
| "echoed _ = None"

text \<open>
  Only messages of the active call have any effect. A control message that echoes another call
  identifier, and an offer from a stranger or past its expiry, leave the machine unchanged in every
  state and produce no effect at all.
\<close>

theorem foreign_messages_ignored:
  "(echoed e = Some i \<and> cm_active m \<noteq> Some i) \<or>
   (\<exists>offer. e = ReceivedOffer offer \<and> (\<not> from_contact offer \<or> of_expired offer)) \<Longrightarrow>
   call_step m e n = (m, ignore (cm_state m))"
  unfolding call_step_def
  by (cases "(cm_state m, m, e)" rule: call_step_in.cases)
    (auto simp: call_defs split: option.splits)

theorem foreign_messages_ignored_witness:
  "call_step demo_call (ReceivedHangUp [9]) 0 = (demo_call, ignore Connected)"
  using foreign_messages_ignored [of "ReceivedHangUp [9]" "[9]" demo_call 0] by (simp add: demo_call_def)

section \<open>Consent\<close>

definition at_call :: "call_state \<Rightarrow> call_id \<Rightarrow> call_machine \<Rightarrow> bool" where
  "at_call s i m \<longleftrightarrow> cm_state m = s \<and> cm_active m = Some i"

text \<open>The steps that enter a call, one lemma per state.\<close>

lemma call_entered:
  assumes "at_call s i (cstep m e)" and "\<not> at_call s i m"
  shows "s = Calling \<Longrightarrow> \<exists>p. fst e = UserDial i p"
    and "s = Ringing \<Longrightarrow> \<exists>offer. fst e = ReceivedOffer offer \<and> of_call_id offer = i \<and> from_contact offer \<and> \<not> of_expired offer"
    and "s = Connected \<Longrightarrow> at_call Calling i m \<and> fst e = ReceivedAnswer i \<or> at_call Ringing i m \<and> fst e = UserAccept"
  using assms unfolding cstep_def call_step_def
  by (cases "(cm_state m, m, fst e)" rule: call_step_in.cases;
    auto simp: at_call_def call_defs split: option.splits ordering.splits if_splits)+

text \<open>
  C40: no call without consent. When a history leaves the machine connected in a call, it tells how: at some step the user
  dialled that very call, the machine kept calling in it until the peer answered it, and it has been connected in it ever
  since; or at some step a contact offered that call unexpired, the machine kept ringing for it until the user accepted, and
  it has been connected in it ever since. An acceptance at any other moment or for any other call connects nothing.
\<close>

theorem connected_by_consent:
  assumes "cm_state (foldl cstep call_new es) = Connected"
  shows "\<exists>i a e1 b e2 c. es = a @ e1 # b @ e2 # c \<and> throughout cstep (at_call Connected i) (foldl cstep call_new (a @ e1 # b @ [e2])) c \<and>
    ((\<exists>p. fst e1 = UserDial i p) \<and> throughout cstep (at_call Calling i) (foldl cstep call_new (a @ [e1])) b \<and> fst e2 = ReceivedAnswer i \<or>
     (\<exists>offer. fst e1 = ReceivedOffer offer \<and> of_call_id offer = i \<and> from_contact offer \<and> \<not> of_expired offer) \<and>
       throughout cstep (at_call Ringing i) (foldl cstep call_new (a @ [e1])) b \<and> fst e2 = UserAccept)"
proof -
  have new: "\<not> at_call s i call_new" for s i by (simp add: at_call_def call_new_def)
  obtain i where "at_call Connected i (foldl cstep call_new es)"
    using assms call.inv_run [OF call_new_ok, of es] by (auto simp: at_call_def call_ok_def)
  from last_entry [OF new this] obtain d e2 c
    where d: "es = d @ e2 # c" "\<not> at_call Connected i (foldl cstep call_new d)" "throughout cstep (at_call Connected i) (foldl cstep call_new (d @ [e2])) c"
    by metis
  have "at_call Connected i (cstep (foldl cstep call_new d) e2)" using d(3) by (cases c) simp_all
  from call_entered(3) [OF this d(2) refl] obtain s
    where s: "at_call s i (foldl cstep call_new d)" "s = Calling \<and> fst e2 = ReceivedAnswer i \<or> s = Ringing \<and> fst e2 = UserAccept" by blast
  from last_entry [OF new s(1)] obtain a e1 b
    where b: "d = a @ e1 # b" "\<not> at_call s i (foldl cstep call_new a)" "throughout cstep (at_call s i) (foldl cstep call_new (a @ [e1])) b"
    by metis
  have "at_call s i (cstep (foldl cstep call_new a) e1)" using b(3) by (cases b) simp_all
  note call_entered(1,2) [OF this b(2)]
  then show ?thesis using s(2) b(1,3) d(1,3)
    by (intro exI [of _ i] exI [of _ a] exI [of _ e1] exI [of _ b] exI [of _ e2] exI [of _ c]) auto
qed

theorem connected_by_consent_witness:
  "\<exists>i a e1 b e2 c. [(UserDial [1] [2], 0), (ReceivedAnswer [1], 5)] = a @ e1 # b @ e2 # c \<and>
    throughout cstep (at_call Connected i) (foldl cstep call_new (a @ e1 # b @ [e2])) c \<and>
    ((\<exists>p. fst e1 = UserDial i p) \<and> throughout cstep (at_call Calling i) (foldl cstep call_new (a @ [e1])) b \<and> fst e2 = ReceivedAnswer i \<or>
     (\<exists>offer. fst e1 = ReceivedOffer offer \<and> of_call_id offer = i \<and> from_contact offer \<and> \<not> of_expired offer) \<and>
       throughout cstep (at_call Ringing i) (foldl cstep call_new (a @ [e1])) b \<and> fst e2 = UserAccept)"
  by (rule connected_by_consent [of "[(UserDial [1] [2], 0 :: u64), (ReceivedAnswer [1], 5)]"])
    (simp add: cstep_def call_step_def call_new_def call_defs)

section \<open>Two machines that dial each other\<close>

lemma cmp_bytes_Equal: "cmp_bytes a b = Equal \<longleftrightarrow> a = b"
  by (induction a b rule: cmp_bytes.induct) auto

lemma cmp_bytes_swap: "cmp_bytes a b = Less \<longleftrightarrow> cmp_bytes b a = Greater"
  by (induction a b rule: cmp_bytes.induct) auto

text \<open>
  What travels between the two ends, in order in each direction: offers, the other control messages
  and collision notices. The controller feeds no event for a received collision notice.
\<close>

datatype call_msg = MOffer call_id | MAnswer call_id | MReject call_id | MBusy call_id | MCancel call_id
  | MBye call_id | MCollide

fun msg_of :: "call_effect \<Rightarrow> call_msg list" where
  "msg_of (Send COffer i _) = [MOffer i]"
| "msg_of (Send CAnswer i _) = [MAnswer i]"
| "msg_of (Send CReject i _) = [MReject i]"
| "msg_of (Send CBusy i _) = [MBusy i]"
| "msg_of (Send CCancel i _) = [MCancel i]"
| "msg_of (Send CBye i _) = [MBye i]"
| "msg_of (Send CCollide i _) = []"
| "msg_of (Collide _ _) = [MCollide]"
| "msg_of _ = []"

fun event_of :: "call_peer \<Rightarrow> call_msg \<Rightarrow> call_event option" where
  "event_of p (MOffer i) = Some (ReceivedOffer \<lparr>of_call_id = i, of_peer_id = p, from_contact = True,
     of_expired = False, other_call_active = False\<rparr>)"
| "event_of p (MAnswer i) = Some (ReceivedAnswer i)"
| "event_of p (MReject i) = Some (ReceivedReject i)"
| "event_of p (MBusy i) = Some (ReceivedBusy i)"
| "event_of p (MCancel i) = Some (ReceivedCancel i)"
| "event_of p (MBye i) = Some (ReceivedHangUp i)"
| "event_of p MCollide = None"

record duo =
  du_a :: call_machine
  du_b :: call_machine
  to_a :: "call_msg list"
  to_b :: "call_msg list"

datatype duo_op = UserA call_event | UserB call_event | DeliverA | DeliverB

text \<open>The two ends are known to each other as \<open>pa\<close> and \<open>pb\<close>.\<close>

definition act_a :: "call_event \<Rightarrow> duo \<Rightarrow> duo" where
  "act_a e d =
     (let (m, t) = call_step (du_a d) e 0
      in d\<lparr>du_a := m, to_b := to_b d @ concat (map msg_of (tr_effects t))\<rparr>)"

definition act_b :: "call_event \<Rightarrow> duo \<Rightarrow> duo" where
  "act_b e d =
     (let (m, t) = call_step (du_b d) e 0
      in d\<lparr>du_b := m, to_a := to_a d @ concat (map msg_of (tr_effects t))\<rparr>)"

fun duo_step :: "call_peer \<Rightarrow> call_peer \<Rightarrow> duo \<Rightarrow> duo_op \<Rightarrow> duo" where
  "duo_step pa pb d (UserA e) = act_a e d"
| "duo_step pa pb d (UserB e) = act_b e d"
| "duo_step pa pb d DeliverA =
     (case to_a d of
        [] \<Rightarrow> d
      | msg # q \<Rightarrow> (case event_of pb msg of None \<Rightarrow> d\<lparr>to_a := q\<rparr> | Some e \<Rightarrow> act_a e (d\<lparr>to_a := q\<rparr>)))"
| "duo_step pa pb d DeliverB =
     (case to_b d of
        [] \<Rightarrow> d
      | msg # q \<Rightarrow> (case event_of pa msg of None \<Rightarrow> d\<lparr>to_b := q\<rparr> | Some e \<Rightarrow> act_b e (d\<lparr>to_b := q\<rparr>)))"

definition duo_new :: duo where
  "duo_new = \<lparr>du_a = call_new, du_b = call_new, to_a = [], to_b = []\<rparr>"

definition in_call :: "call_state \<Rightarrow> call_role \<Rightarrow> call_id \<Rightarrow> call_peer \<Rightarrow> call_machine" where
  "in_call s r i p = \<lparr>cm_state = s, cm_role = Some r, cm_active = Some i, cm_peer = Some p\<rparr>"

text \<open>
  Every configuration between the two dials and the acceptance, for \<open>a\<close> smaller than \<open>b\<close>: the end
  that dialled \<open>a\<close> keeps calling, the other one turns to ringing when the offer reaches it.
\<close>

definition before_offer :: "call_peer \<Rightarrow> call_peer \<Rightarrow> call_id \<Rightarrow> call_id \<Rightarrow> duo \<Rightarrow> bool" where
  "before_offer pa pb a b d \<longleftrightarrow>
     du_a d = in_call Calling Caller a pb \<and> du_b d = in_call Calling Caller b pa \<and>
     (to_a d = [MOffer b] \<and> to_b d = [MOffer a] \<or> to_a d = [] \<and> to_b d = [MOffer a, MCollide])"

definition after_offer :: "call_peer \<Rightarrow> call_peer \<Rightarrow> call_id \<Rightarrow> call_id \<Rightarrow> duo \<Rightarrow> bool" where
  "after_offer pa pb a b d \<longleftrightarrow>
     du_a d = in_call Calling Caller a pb \<and> du_b d = in_call Ringing Callee a pa \<and>
     to_a d \<in> {[MOffer b, MCancel b], [MCancel b], []} \<and> (\<forall>m\<in>set (to_b d). m = MCollide)"

definition accepted :: "call_peer \<Rightarrow> call_peer \<Rightarrow> call_id \<Rightarrow> call_id \<Rightarrow> duo \<Rightarrow> nat \<Rightarrow> bool" where
  "accepted pa pb a b d k \<longleftrightarrow>
     du_b d = in_call Connected Callee a pa \<and> (\<forall>m\<in>set (to_b d). m = MCollide) \<and>
     (du_a d = in_call Calling Caller a pb \<and>
        (\<exists>pre. to_a d = pre @ [MAnswer a] \<and> pre \<in> {[MOffer b, MCancel b], [MCancel b], []} \<and> length (to_a d) \<le> k) \<or>
      du_a d = in_call Connected Caller a pb \<and> to_a d = [])"

lemmas duo_defs = act_a_def act_b_def call_step_def in_call_def

lemma before_deliver:
  assumes "before_offer pa pb a b d" and "cmp_bytes a b = Less"
  shows "before_offer pa pb a b (duo_step pa pb d DeliverA)"
    and "after_offer pa pb a b (duo_step pa pb d DeliverB)"
  using assms cmp_bytes_swap [of a b]
  by (auto simp: before_offer_def after_offer_def duo_defs call_defs)

lemma after_deliver:
  assumes "after_offer pa pb a b d" and "cmp_bytes a b = Less"
  shows "after_offer pa pb a b (duo_step pa pb d DeliverA)"
    and "after_offer pa pb a b (duo_step pa pb d DeliverB)"
  using assms
  by (auto simp: after_offer_def duo_defs call_defs split: list.split)

lemma after_accept: "after_offer pa pb a b d \<Longrightarrow> accepted pa pb a b (duo_step pa pb d (UserB UserAccept)) 3"
  by (auto simp: after_offer_def accepted_def duo_defs)

lemma accepted_deliver:
  assumes "accepted pa pb a b d k" and "cmp_bytes a b = Less"
  shows "accepted pa pb a b (duo_step pa pb d DeliverA) (k - 1)"
    and "accepted pa pb a b (duo_step pa pb d DeliverB) k"
  using assms
  by (auto simp: accepted_def duo_defs call_defs split: list.split)

lemma deliveries_before:
  assumes "set ops \<subseteq> {DeliverA, DeliverB}" and "cmp_bytes a b = Less"
  shows "before_offer pa pb a b d \<Longrightarrow>
      (if DeliverB \<in> set ops then after_offer pa pb a b else before_offer pa pb a b) (foldl (duo_step pa pb) d ops)"
    and "after_offer pa pb a b d \<Longrightarrow> after_offer pa pb a b (foldl (duo_step pa pb) d ops)"
  using assms(1)
proof (induction ops arbitrary: d)
  case (Cons op ops)
  { case 1
    then show ?case using Cons.IH before_deliver [OF _ assms(2), of pa pb d] by auto
  next
    case 2
    then show ?case using Cons.IH after_deliver [OF _ assms(2), of pa pb d] by auto }
qed simp_all

lemma deliveries_accepted:
  assumes "cmp_bytes a b = Less"
  shows "accepted pa pb a b d k \<Longrightarrow> set ops \<subseteq> {DeliverA, DeliverB} \<Longrightarrow>
    accepted pa pb a b (foldl (duo_step pa pb) d ops) (k - count_list ops DeliverA)"
proof (induction ops arbitrary: d k)
  case (Cons op ops)
  then show ?case using accepted_deliver [OF Cons.prems(1) assms] by (auto dest: Cons.IH)
qed simp

text \<open>
  C39: simultaneous dialling converges. Two contacts dial each other, the smaller call identifier is
  \<open>a\<close>, and the messages are delivered in any interleaving (in order per direction). As soon as the
  offer of \<open>a\<close> has arrived its receiver rings with it while the other end is still calling with it;
  when the ringing end then accepts, any three deliveries to the caller, again in any interleaving,
  leave both ends connected in call \<open>a\<close>, the dialler as caller and the other one as callee.
\<close>

theorem collision_converges:
  assumes "cmp_bytes a b = Less"
    and "dials = [UserA (UserDial a pb), UserB (UserDial b pa)]"
    and "set ops \<subseteq> {DeliverA, DeliverB}" and "DeliverB \<in> set ops"
    and "set ops' \<subseteq> {DeliverA, DeliverB}" and "3 \<le> count_list ops' DeliverA"
  shows "du_a (foldl (duo_step pa pb) duo_new (dials @ ops)) = in_call Calling Caller a pb \<and>
    du_b (foldl (duo_step pa pb) duo_new (dials @ ops)) = in_call Ringing Callee a pa \<and>
    du_a (foldl (duo_step pa pb) duo_new (dials @ ops @ [UserB UserAccept] @ ops')) = in_call Connected Caller a pb \<and>
    du_b (foldl (duo_step pa pb) duo_new (dials @ ops @ [UserB UserAccept] @ ops')) = in_call Connected Callee a pa"
proof -
  have "before_offer pa pb a b (foldl (duo_step pa pb) duo_new dials)"
    by (simp add: assms(2) before_offer_def duo_new_def duo_defs call_new_def)
  then have after: "after_offer pa pb a b (foldl (duo_step pa pb) duo_new (dials @ ops))"
    using deliveries_before(1) [OF assms(3,1)] assms(4) by auto
  have "accepted pa pb a b (foldl (duo_step pa pb) duo_new (dials @ ops @ [UserB UserAccept] @ ops'))
      (3 - count_list ops' DeliverA)"
    using deliveries_accepted [OF assms(1) after_accept [OF after] assms(5)] by simp
  with after assms(6) show ?thesis by (auto simp: after_offer_def accepted_def)
qed

theorem collision_converges_witness:
  "du_a (foldl (duo_step [1] [2]) duo_new
     ([UserA (UserDial [5] [2]), UserB (UserDial [7] [1])] @ [DeliverA, DeliverB] @ [UserB UserAccept] @
      [DeliverA, DeliverA, DeliverA])) = in_call Connected Caller [5] [2]"
  using collision_converges [of "[5]" "[7]" "[UserA (UserDial [5] [2]), UserB (UserDial [7] [1])]" "[2]" "[1]"
      "[DeliverA, DeliverB]" "[DeliverA, DeliverA, DeliverA]"]
  by simp

end
