(* ===== verification/Chunks.thy ===== *)
theory Chunks
  imports Prelude
begin

text \<open>
  Byte-string operations of the Rust standard library the codecs and the erasure coding use: splitting
  into chunks, rounding up a division, resizing a vector and little-endian integers.
\<close>

text \<open>\<open>chunks k xs\<close> is \<^verbatim>\<open>xs.chunks(k)\<close> for a positive \<open>k\<close>.\<close>

function chunks :: "nat \<Rightarrow> bytes \<Rightarrow> bytes list" where
  "chunks k xs = (if xs = [] \<or> k = 0 then [] else take k xs # chunks k (drop k xs))"
  by pat_completeness auto
termination by (relation "measure (length \<circ> snd)") auto

declare chunks.simps [simp del]

definition div_ceil :: "nat \<Rightarrow> nat \<Rightarrow> nat" where
  "div_ceil n k = (n + k - 1) div k"

text \<open>\<^verbatim>\<open>Vec::resize\<close> and the little-endian form of an integer.\<close>

definition resize :: "nat \<Rightarrow> 'a \<Rightarrow> 'a list \<Rightarrow> 'a list" where
  "resize n x xs = take n xs @ replicate (n - length xs) x"

definition le_bytes :: "nat \<Rightarrow> nat \<Rightarrow> bytes" where
  "le_bytes n v = rev (be_bytes n v)"

lemma length_resize [simp]: "length (resize n x xs) = n"
  by (simp add: resize_def)

lemma take_resize [simp]: "length xs \<le> n \<Longrightarrow> take (length xs) (resize n x xs) = xs"
  by (simp add: resize_def)

lemma length_le_bytes [simp]: "length (le_bytes n v) = n"
  by (simp add: le_bytes_def)

lemma le_bytes_inj: "v < 256 ^ n \<Longrightarrow> w < 256 ^ n \<Longrightarrow> le_bytes n v = le_bytes n w \<longleftrightarrow> v = w"
  unfolding le_bytes_def rev_is_rev_conv by (metis be_val_be_bytes)

lemma div_ceil_le: "0 < k \<Longrightarrow> n \<le> div_ceil n k * k"
proof -
  assume k: "0 < k"
  have "n + k - 1 = (n + k - 1) div k * k + (n + k - 1) mod k" by simp
  moreover have "(n + k - 1) mod k \<le> k - 1" using k mod_less_divisor [of k "n + k - 1"] by linarith
  ultimately show ?thesis unfolding div_ceil_def using k by linarith
qed

lemma chunks_props:
  "0 < k \<Longrightarrow> concat (chunks k xs) = xs \<and> length (chunks k xs) = div_ceil (length xs) k \<and>
     (\<forall>c\<in>set (chunks k xs). c \<noteq> [] \<and> length c \<le> k)"
proof (induction k xs rule: chunks.induct)
  case (1 k xs)
  show ?case
  proof (cases "xs = []")
    case True
    then show ?thesis using 1(2) by (simp add: chunks.simps div_ceil_def)
  next
    case False
    have "div_ceil (length xs) k = Suc (div_ceil (length xs - k) k)"
    proof (cases "length xs \<le> k")
      case True
      have "length xs + k - 1 = k + (length xs - 1)" using False by (cases xs) auto
      then have "div_ceil (length xs) k = 1 + (length xs - 1) div k"
        using 1(2) div_add_self1 [of k "length xs - 1"] by (simp only: div_ceil_def)
      then show ?thesis using True False 1(2) by (cases xs) (auto simp: div_ceil_def)
    next
      case False
      then have "length xs + k - 1 = k + (length xs - k + k - 1)" by simp
      then have "(length xs + k - 1) div k = (length xs - k + k - 1) div k + 1"
        using 1(2) div_add_self1 [of k "length xs - k + k - 1"] by simp
      then show ?thesis by (simp only: div_ceil_def Suc_eq_plus1)
    qed
    then show ?thesis using 1 False by (subst (1 2 3) chunks.simps) auto
  qed
qed

lemmas chunks_concat = chunks_props [THEN conjunct1]
lemmas chunks_length = chunks_props [THEN conjunct2, THEN conjunct1]
lemmas chunks_size = chunks_props [THEN conjunct2, THEN conjunct2]

text \<open>A string whose length is a multiple of the chunk size splits into equal chunks.\<close>

lemma chunks_equal: "length xs = m * k \<Longrightarrow> 0 < k \<Longrightarrow> c \<in> set (chunks k xs) \<Longrightarrow> length c = k"
proof (induction m arbitrary: xs)
  case 0
  then show ?case by (simp add: chunks.simps)
next
  case (Suc m)
  then have "c = take k xs \<or> c \<in> set (chunks k (drop k xs))"
    by (subst (asm) chunks.simps) (auto split: if_splits)
  then show ?case using Suc.IH [of "drop k xs"] Suc.prems(1,2) by auto
qed

lemma chunks_count: "length xs = m * k \<Longrightarrow> 0 < k \<Longrightarrow> length (chunks k xs) = m"
proof (induction m arbitrary: xs)
  case 0
  then show ?case by (simp add: chunks.simps)
next
  case (Suc m)
  then have "xs \<noteq> []" by auto
  then show ?case using Suc by (subst chunks.simps) auto
qed

end
