(* ===== verification/Fragment.thy ===== *)
theory Fragment
  imports Chunks
begin

text \<open>
  Handshake fragment framing and bounded reassembly,
  \<^verbatim>\<open>crates/miasma-core/src/protocol/fragment.rs\<close>: the frame codec, splitting a message into
  fragments, and the reassembler with its limits. \<open>None\<close> as the result of a push stands for an index
  panic, which the invariant excludes.
\<close>

section \<open>Frames\<close>

definition FRAGMENT_VERSION :: u8 where "FRAGMENT_VERSION = 1"
definition HEADER_LEN :: nat where "HEADER_LEN = 1 + 8 + 2 + 2 + 2 + 4 + 4"
definition ABS_MAX_TOTAL_LEN :: u32 where "ABS_MAX_TOTAL_LEN = 1048576"
definition ABS_MAX_FRAGMENTS :: u16 where "ABS_MAX_FRAGMENTS = 1024"

datatype fragment_error =
    Truncated | UnsupportedVersion u8 | ZeroCount | IndexOutOfRange u16 u16 | BadTotalLen | BadPayloadLen
  | TooManyFragments | TrailingBytes | Conflict | TooManyHandshakes | Overflow | LengthMismatch

record handshake_fragment =
  fr_version :: u8
  handshake_id :: u64
  fr_suite :: u16
  fragment_index :: u16
  fragment_count :: u16
  fr_total_len :: u32
  fr_payload :: bytes

definition encode_fragment :: "handshake_fragment \<Rightarrow> bytes" where
  "encode_fragment f =
     [fr_version f] @ be_bytes 8 (unat (handshake_id f)) @ be_bytes 2 (unat (fr_suite f)) @
     be_bytes 2 (unat (fragment_index f)) @ be_bytes 2 (unat (fragment_count f)) @
     be_bytes 4 (unat (fr_total_len f)) @ be_bytes 4 (unat (word_of_nat (length (fr_payload f)) :: u32)) @
     fr_payload f"

definition slice :: "nat \<Rightarrow> nat \<Rightarrow> bytes \<Rightarrow> bytes" where
  "slice i j b = take (j - i) (drop i b)"

definition decode_fragment :: "bytes \<Rightarrow> fragment_error + handshake_fragment" where
  "decode_fragment buf =
     (if length buf < HEADER_LEN then Inl Truncated
      else if buf ! 0 \<noteq> FRAGMENT_VERSION then Inl (UnsupportedVersion (buf ! 0))
      else
        let hid = word_of_nat (be_val (slice 1 9 buf));
            suite = word_of_nat (be_val (slice 9 11 buf));
            index = word_of_nat (be_val (slice 11 13 buf));
            count = word_of_nat (be_val (slice 13 15 buf));
            total = word_of_nat (be_val (slice 15 19 buf));
            payload_len = be_val (slice 19 23 buf);
            body = drop HEADER_LEN buf
        in if count = 0 then Inl ZeroCount
           else if ABS_MAX_FRAGMENTS < count then Inl TooManyFragments
           else if count \<le> index then Inl (IndexOutOfRange index count)
           else if total = 0 \<or> ABS_MAX_TOTAL_LEN < total then Inl BadTotalLen
           else if payload_len = 0 \<or> unat total < payload_len then Inl BadPayloadLen
           else if unat total < unat count then Inl BadTotalLen
           else if length body < payload_len then Inl Truncated
           else if payload_len < length body then Inl TrailingBytes
           else Inr \<lparr>fr_version = buf ! 0, handshake_id = hid, fr_suite = suite, fragment_index = index,
                     fragment_count = count, fr_total_len = total, fr_payload = body\<rparr>)"

section \<open>Splitting\<close>

definition fragment :: "u64 \<Rightarrow> u16 \<Rightarrow> bytes \<Rightarrow> nat \<Rightarrow> fragment_error + handshake_fragment list" where
  "fragment hid suite data max_payload =
     (if data = [] \<or> unat ABS_MAX_TOTAL_LEN < length data then Inl BadTotalLen
      else if max_payload = 0 then Inl BadPayloadLen
      else let count = div_ceil (length data) max_payload in
        if unat ABS_MAX_FRAGMENTS < count then Inl TooManyFragments
        else Inr (map (\<lambda>(i, c). \<lparr>fr_version = FRAGMENT_VERSION, handshake_id = hid, fr_suite = suite,
                      fragment_index = word_of_nat i, fragment_count = word_of_nat count,
                      fr_total_len = word_of_nat (length data), fr_payload = c\<rparr>)
                   (enumerate 0 (chunks max_payload data))))"

section \<open>Reassembly\<close>

record reassembly_limits =
  max_total_len :: u32
  max_fragments :: u16
  max_concurrent :: nat
  timeout_ms :: u64

definition default_limits :: reassembly_limits where
  "default_limits = \<lparr>max_total_len = 65536, max_fragments = 64, max_concurrent = 16, timeout_ms = 10000\<rparr>"

datatype push_outcome = Pending | Duplicate | Complete u64 u16 bytes

record entry =
  en_suite :: u16
  en_count :: u16
  en_total_len :: u32
  started_ms :: u64
  received :: u16
  received_bytes :: u32
  slots :: "bytes option list"

record reassembler =
  limits :: reassembly_limits
  entries :: "(u64, entry) fmap"

definition reassembler_new :: "reassembly_limits \<Rightarrow> reassembler" where
  "reassembler_new l = \<lparr>limits = l, entries = fmempty\<rparr>"

definition in_progress :: "reassembler \<Rightarrow> nat" where
  "in_progress r = fmsize (entries r)"

definition expire :: "reassembler \<Rightarrow> u64 \<Rightarrow> reassembler \<times> nat" where
  "expire r now_ms =
     (let kept = fmretain (\<lambda>_ e. saturating_sub now_ms (started_ms e) < timeout_ms (limits r)) (entries r)
      in (r\<lparr>entries := kept\<rparr>, fmsize (entries r) - fmsize kept))"

definition discard :: "reassembler \<Rightarrow> u64 \<Rightarrow> reassembler \<times> bool" where
  "discard r hid = (r\<lparr>entries := fmdrop hid (entries r)\<rparr>, fmlookup (entries r) hid \<noteq> None)"

text \<open>The checks that do not look at the reassembler's state.\<close>

definition check_fragment :: "reassembly_limits \<Rightarrow> handshake_fragment \<Rightarrow> fragment_error option" where
  "check_fragment l f =
     (if fragment_count f = 0 then Some ZeroCount
      else if fragment_count f \<le> fragment_index f then Some (IndexOutOfRange (fragment_index f) (fragment_count f))
      else if min (max_fragments l) ABS_MAX_FRAGMENTS < fragment_count f then Some TooManyFragments
      else if fr_total_len f = 0 \<or> min (max_total_len l) ABS_MAX_TOTAL_LEN < fr_total_len f \<or>
        unat (fr_total_len f) < unat (fragment_count f) then Some BadTotalLen
      else if fr_payload f = [] \<or> unat (fr_total_len f) < length (fr_payload f) then Some BadPayloadLen
      else None)"

text \<open>Make sure the handshake has an entry, expiring old ones only when the table is full.\<close>

definition ensure_entry :: "reassembler \<Rightarrow> handshake_fragment \<Rightarrow> u64 \<Rightarrow> reassembler \<times> (fragment_error + unit)" where
  "ensure_entry r f now_ms =
     (if fmlookup (entries r) (handshake_id f) \<noteq> None then (r, Inr ())
      else
        let r1 = (if max_concurrent (limits r) \<le> fmsize (entries r) then fst (expire r now_ms) else r)
        in if max_concurrent (limits r) \<le> fmsize (entries r1) then (r1, Inl TooManyHandshakes)
           else (r1\<lparr>entries := fmupd (handshake_id f)
                   \<lparr>en_suite = fr_suite f, en_count = fragment_count f, en_total_len = fr_total_len f,
                    started_ms = now_ms, received = 0, received_bytes = 0,
                    slots = replicate (unat (fragment_count f)) None\<rparr> (entries r1)\<rparr>, Inr ()))"

definition flatten :: "bytes option list \<Rightarrow> bytes" where
  "flatten ss = concat (map (\<lambda>s. case s of Some p \<Rightarrow> p | None \<Rightarrow> []) ss)"

definition store_fragment ::
  "reassembler \<Rightarrow> entry \<Rightarrow> handshake_fragment \<Rightarrow> (reassembler \<times> (fragment_error + push_outcome)) option" where
  "store_fragment r e f =
     (let idx = unat (fragment_index f); hid = handshake_id f in
      if en_suite e \<noteq> fr_suite f \<or> en_count e \<noteq> fragment_count f \<or> en_total_len e \<noteq> fr_total_len f
      then Some (r, Inl Conflict)
      else if length (slots e) \<le> idx then None
      else (case slots e ! idx of
          Some existing \<Rightarrow> Some (r, if existing = fr_payload f then Inr Duplicate else Inl Conflict)
        | None \<Rightarrow>
            (case checked_add (received_bytes e) (word_of_nat (length (fr_payload f))) of
               None \<Rightarrow> Some (r, Inl Overflow)
             | Some new_bytes \<Rightarrow>
                 if en_total_len e < new_bytes then Some (r, Inl Overflow)
                 else
                   let e' = e\<lparr>received_bytes := new_bytes, received := received e + 1,
                              slots := (slots e)[idx := Some (fr_payload f)]\<rparr>
                   in if received e' < en_count e'
                      then Some (r\<lparr>entries := fmupd hid e' (entries r)\<rparr>, Inr Pending)
                      else Some (r\<lparr>entries := fmdrop hid (entries r)\<rparr>,
                        if received_bytes e' \<noteq> en_total_len e' then Inl LengthMismatch
                        else Inr (Complete hid (en_suite e') (flatten (slots e')))))))"

definition push ::
  "reassembler \<Rightarrow> handshake_fragment \<Rightarrow> u64 \<Rightarrow> (reassembler \<times> (fragment_error + push_outcome)) option" where
  "push r f now_ms =
     (case check_fragment (limits r) f of
        Some err \<Rightarrow> Some (r, Inl err)
      | None \<Rightarrow>
          (case ensure_entry r f now_ms of
             (r1, Inl err) \<Rightarrow> Some (r1, Inl err)
           | (r1, Inr _) \<Rightarrow>
               (case fmlookup (entries r1) (handshake_id f) of
                  None \<Rightarrow> None
                | Some e \<Rightarrow> store_fragment r1 e f)))"

section \<open>The frame codec\<close>

definition wf_fragment :: "handshake_fragment \<Rightarrow> bool" where
  "wf_fragment f \<longleftrightarrow>
     fr_version f = 1 \<and> 0 < unat (fragment_count f) \<and> unat (fragment_count f) \<le> 1024 \<and>
     unat (fragment_index f) < unat (fragment_count f) \<and>
     0 < unat (fr_total_len f) \<and> unat (fr_total_len f) \<le> 1048576 \<and>
     fr_payload f \<noteq> [] \<and> length (fr_payload f) \<le> unat (fr_total_len f) \<and>
     unat (fragment_count f) \<le> unat (fr_total_len f)"

lemma slice_app: "length x = i \<Longrightarrow> length y = j - i \<Longrightarrow> slice i j (x @ y @ z) = y"
  by (simp add: slice_def)

text \<open>A buffer of at least the header length is its seven header fields and the body.\<close>

lemma header_split:
  assumes "23 \<le> length buf"
  shows "buf = [buf ! 0] @ slice 1 9 buf @ slice 9 11 buf @ slice 11 13 buf @ slice 13 15 buf @ slice 15 19 buf @
    slice 19 23 buf @ drop 23 buf"
proof -
  have cut: "drop i buf = slice i j buf @ drop j buf" if "i \<le> j" for i j
    using that append_take_drop_id [of "j - i" "drop i buf"] by (simp add: slice_def)
  have "buf = [buf ! 0] @ drop 1 buf" using assms by (cases buf) auto
  then show ?thesis using cut [of 1 9] cut [of 9 11] cut [of 11 13] cut [of 13 15] cut [of 15 19] cut [of 19 23] by simp
qed

lemma slice_lengths: "23 \<le> length buf \<Longrightarrow> j \<le> 23 \<Longrightarrow> length (slice i j buf) = j - i"
  by (auto simp: slice_def)

lemma decode_ok:
  "decode_fragment buf = Inr f \<longleftrightarrow>
     23 \<le> length buf \<and>
     f = \<lparr>fr_version = buf ! 0, handshake_id = word_of_nat (be_val (slice 1 9 buf)),
          fr_suite = word_of_nat (be_val (slice 9 11 buf)), fragment_index = word_of_nat (be_val (slice 11 13 buf)),
          fragment_count = word_of_nat (be_val (slice 13 15 buf)), fr_total_len = word_of_nat (be_val (slice 15 19 buf)),
          fr_payload = drop 23 buf\<rparr> \<and>
     wf_fragment f \<and> be_val (slice 19 23 buf) = length (drop 23 buf)"
  unfolding decode_fragment_def Let_def
  by (auto simp: wf_fragment_def HEADER_LEN_def FRAGMENT_VERSION_def ABS_MAX_FRAGMENTS_def ABS_MAX_TOTAL_LEN_def
      word_le_nat_alt word_less_nat_alt unat_gt_0 not_less not_le split: if_splits)

lemma payload_len_word: "wf_fragment f \<Longrightarrow> unat (word_of_nat (length (fr_payload f)) :: u32) = length (fr_payload f)"
  by (simp add: wf_fragment_def unat_of_nat)

lemma encode_slices:
  "slice 1 9 (encode_fragment f) = be_bytes 8 (unat (handshake_id f))"
  "slice 9 11 (encode_fragment f) = be_bytes 2 (unat (fr_suite f))"
  "slice 11 13 (encode_fragment f) = be_bytes 2 (unat (fragment_index f))"
  "slice 13 15 (encode_fragment f) = be_bytes 2 (unat (fragment_count f))"
  "slice 15 19 (encode_fragment f) = be_bytes 4 (unat (fr_total_len f))"
  "slice 19 23 (encode_fragment f) = be_bytes 4 (unat (word_of_nat (length (fr_payload f)) :: u32))"
  "drop 23 (encode_fragment f) = fr_payload f" "encode_fragment f ! 0 = fr_version f"
  "length (encode_fragment f) = 23 + length (fr_payload f)"
  by (simp_all add: encode_fragment_def slice_def)

lemma decode_encode_fragment: "wf_fragment f \<Longrightarrow> decode_fragment (encode_fragment f) = Inr f"
proof -
  assume wf: "wf_fragment f"
  then have "length (fr_payload f) < 256 ^ 4" by (simp add: wf_fragment_def)
  then have n: "be_val (be_bytes 4 (unat (word_of_nat (length (fr_payload f)) :: u32))) = length (fr_payload f)"
    unfolding payload_len_word [OF wf] by (rule be_val_be_bytes)
  have "f = \<lparr>fr_version = fr_version f, handshake_id = handshake_id f, fr_suite = fr_suite f,
      fragment_index = fragment_index f, fragment_count = fragment_count f, fr_total_len = fr_total_len f,
      fr_payload = fr_payload f\<rparr>"
    by (cases f) simp
  then show ?thesis unfolding decode_ok encode_slices n using wf by (simp add: word_be)
qed

lemma encode_decode_fragment: "decode_fragment buf = Inr f \<Longrightarrow> encode_fragment f = buf"
proof -
  assume d: "decode_fragment buf = Inr f"
  then have len: "23 \<le> length buf" and wf: "wf_fragment f" and n: "be_val (slice 19 23 buf) = length (drop 23 buf)"
    and f: "f = \<lparr>fr_version = buf ! 0, handshake_id = word_of_nat (be_val (slice 1 9 buf)),
          fr_suite = word_of_nat (be_val (slice 9 11 buf)), fragment_index = word_of_nat (be_val (slice 11 13 buf)),
          fragment_count = word_of_nat (be_val (slice 13 15 buf)), fr_total_len = word_of_nat (be_val (slice 15 19 buf)),
          fr_payload = drop 23 buf\<rparr>"
    unfolding decode_ok by blast+
  have pl: "be_bytes 4 (unat (word_of_nat (length (drop 23 buf)) :: u32)) = slice 19 23 buf"
    unfolding n [symmetric] by (rule be_word) (use len in \<open>simp_all add: slice_lengths\<close>)
  show ?thesis
    by (subst header_split [OF len])
      (use len pl in \<open>simp add: encode_fragment_def f be_word slice_lengths\<close>)
qed

interpretation frames: codec encode_fragment decode_fragment wf_fragment
  by unfold_locales (auto simp: decode_encode_fragment encode_decode_fragment, simp add: decode_ok)

text \<open>
  The frame codec is an exact round trip: a buffer decodes to a fragment exactly when the fragment
  satisfies every documented limit and the buffer is its encoding.
\<close>

theorem fragment_codec_exact: "decode_fragment buf = Inr f \<longleftrightarrow> wf_fragment f \<and> encode_fragment f = buf"
  by (rule frames.dec_iff)

section \<open>Bounded memory\<close>

definition filled :: "bytes option list \<Rightarrow> nat" where
  "filled ss = length (filter (\<lambda>s. s \<noteq> None) ss)"

lemma filled_update: "i < length ss \<Longrightarrow> ss ! i = None \<Longrightarrow> filled (ss[i := Some p]) = Suc (filled ss)"
  by (induction ss arbitrary: i) (auto simp: filled_def nth_Cons split: nat.splits)

lemma flatten_update:
  "i < length ss \<Longrightarrow> ss ! i = None \<Longrightarrow> length (flatten (ss[i := Some p])) = length (flatten ss) + length p"
  by (induction ss arbitrary: i) (auto simp: flatten_def nth_Cons split: nat.splits)

lemma filled_le: "filled ss \<le> length ss"
  by (simp add: filled_def)

lemma filled_full: "filled ss = length ss \<Longrightarrow> i < length ss \<Longrightarrow> ss ! i \<noteq> None"
  using length_filter_less [of "ss ! i" ss "\<lambda>s. s \<noteq> None"] by (auto simp: filled_def)

definition entry_ok :: "reassembly_limits \<Rightarrow> entry \<Rightarrow> bool" where
  "entry_ok l e \<longleftrightarrow>
     length (slots e) = unat (en_count e) \<and> en_count e \<le> min (max_fragments l) ABS_MAX_FRAGMENTS \<and>
     en_total_len e \<le> min (max_total_len l) ABS_MAX_TOTAL_LEN \<and>
     unat (received e) = filled (slots e) \<and> received e < en_count e \<and>
     unat (received_bytes e) = length (flatten (slots e)) \<and> received_bytes e \<le> en_total_len e"

definition reassembler_ok :: "reassembler \<Rightarrow> bool" where
  "reassembler_ok r \<longleftrightarrow> fmsize (entries r) \<le> max_concurrent (limits r) \<and>
     (\<forall>h e. fmlookup (entries r) h = Some e \<longrightarrow> entry_ok (limits r) e)"

lemma flatten_none [simp]: "flatten (replicate n None) = []"
  by (simp add: flatten_def)

lemma filled_none [simp]: "filled (replicate n None) = 0"
  by (simp add: filled_def)

lemma expire_ok: "reassembler_ok r \<Longrightarrow> reassembler_ok (fst (expire r now))"
  using order.trans [OF fmsize_retain_le]
  by (fastforce simp: reassembler_ok_def expire_def Let_def split: option.splits)

lemma discard_ok: "reassembler_ok r \<Longrightarrow> reassembler_ok (fst (discard r h))"
  by (auto simp: reassembler_ok_def discard_def fmsize_drop simp del: fmdom_drop)

lemma ensure_entry_ok:
  assumes "reassembler_ok r" and "check_fragment (limits r) f = None" and "ensure_entry r f now = (r', res)"
  shows "reassembler_ok r'" and "limits r' = limits r"
    and "res = Inr () \<Longrightarrow> fmlookup (entries r') (handshake_id f) \<noteq> None"
proof -
  let ?new = "\<lparr>en_suite = fr_suite f, en_count = fragment_count f, en_total_len = fr_total_len f, started_ms = now,
      received = 0, received_bytes = 0, slots = replicate (unat (fragment_count f)) None\<rparr>"
  let ?r1 = "if max_concurrent (limits r) \<le> fmsize (entries r) then fst (expire r now) else r"
  have new: "entry_ok (limits r) ?new"
    using assms(2) by (auto simp: entry_ok_def check_fragment_def word_neq_0_conv not_less split: if_splits)
  have r1: "reassembler_ok ?r1" "limits ?r1 = limits r"
    using assms(1) expire_ok [of r now] by (auto simp: expire_def Let_def)
  have upd: "reassembler_ok (?r1\<lparr>entries := fmupd (handshake_id f) ?new (entries ?r1)\<rparr>)"
    if "fmsize (entries ?r1) < max_concurrent (limits r)"
    using r1 new that by (auto simp: reassembler_ok_def fmsize_upd simp del: fmdom_fmupd)
  show "reassembler_ok r'" and "limits r' = limits r"
    and "res = Inr () \<Longrightarrow> fmlookup (entries r') (handshake_id f) \<noteq> None"
    using assms(1,3) r1 upd by (auto simp: ensure_entry_def Let_def not_le split: if_splits)
qed

text \<open>The facts a checked fragment brings along.\<close>

lemma check_fragment_None:
  assumes "check_fragment l f = None"
  shows "unat (fragment_index f) < unat (fragment_count f)" "unat (fr_total_len f) \<le> 1048576"
    "length (fr_payload f) \<le> unat (fr_total_len f)" "fr_payload f \<noteq> []"
    "unat (word_of_nat (length (fr_payload f)) :: u32) = length (fr_payload f)"
proof -
  show t: "unat (fr_total_len f) \<le> 1048576" and p: "length (fr_payload f) \<le> unat (fr_total_len f)"
    and "unat (fragment_index f) < unat (fragment_count f)" and "fr_payload f \<noteq> []"
    using assms by (auto simp: check_fragment_def ABS_MAX_TOTAL_LEN_def word_less_nat_alt word_le_nat_alt not_less
        unat_min_word split: if_splits)
  show "unat (word_of_nat (length (fr_payload f)) :: u32) = length (fr_payload f)"
    using t p by (simp add: unat_of_nat)
qed

text \<open>One stored payload: the updated entry is in order, up to being complete.\<close>

definition with_payload :: "entry \<Rightarrow> handshake_fragment \<Rightarrow> u32 \<Rightarrow> entry" where
  "with_payload e f n =
     e\<lparr>received_bytes := n, received := received e + 1, slots := (slots e)[unat (fragment_index f) := Some (fr_payload f)]\<rparr>"

lemma with_payload_counts:
  assumes "entry_ok l e" and "unat (fragment_index f) < length (slots e)" and "slots e ! unat (fragment_index f) = None"
    and "checked_add (received_bytes e) (word_of_nat (length (fr_payload f))) = Some n"
    and "unat (word_of_nat (length (fr_payload f)) :: u32) = length (fr_payload f)"
  shows "unat (received (with_payload e f n)) = filled (slots (with_payload e f n))"
    and "unat n = length (flatten (slots (with_payload e f n)))"
    and "unat (received (with_payload e f n)) = Suc (unat (received e))"
proof -
  have "unat (received e) < 1024"
    using assms(1) by (auto simp: entry_ok_def ABS_MAX_FRAGMENTS_def word_less_nat_alt word_le_nat_alt unat_min_word)
  then have suc: "unat (received e + 1) = Suc (unat (received e))"
    by (simp add: unat_word_ariths(1))
  then show "unat (received (with_payload e f n)) = Suc (unat (received e))" by (simp add: with_payload_def)
  show "unat (received (with_payload e f n)) = filled (slots (with_payload e f n))"
    using assms(1-3) suc by (simp add: with_payload_def filled_update entry_ok_def)
  show "unat n = length (flatten (slots (with_payload e f n)))"
    using assms checked_add_Some [OF assms(4)] by (simp add: with_payload_def flatten_update entry_ok_def)
qed

definition stored_result :: "reassembler \<Rightarrow> entry \<Rightarrow> handshake_fragment \<Rightarrow> u32 \<Rightarrow> (reassembler \<times> (fragment_error + push_outcome)) option" where
  "stored_result r e f n =
     (if received (with_payload e f n) < en_count e
      then Some (r\<lparr>entries := fmupd (handshake_id f) (with_payload e f n) (entries r)\<rparr>, Inr Pending)
      else Some (r\<lparr>entries := fmdrop (handshake_id f) (entries r)\<rparr>,
        if n \<noteq> en_total_len e then Inl LengthMismatch
        else Inr (Complete (handshake_id f) (en_suite e) (flatten (slots (with_payload e f n))))))"

definition stores :: "reassembler \<Rightarrow> entry \<Rightarrow> handshake_fragment \<Rightarrow> u32 \<Rightarrow> bool" where
  "stores r e f n \<longleftrightarrow>
     en_suite e = fr_suite f \<and> en_count e = fragment_count f \<and> en_total_len e = fr_total_len f \<and>
     slots e ! unat (fragment_index f) = None \<and> unat (fragment_index f) < length (slots e) \<and>
     checked_add (received_bytes e) (word_of_nat (length (fr_payload f))) = Some n \<and> n \<le> en_total_len e \<and>
     store_fragment r e f = stored_result r e f n"

lemma store_fragment_cases:
  assumes ok: "entry_ok l e" and c: "check_fragment l f = None"
  shows "store_fragment r e f \<in> {Some (r, Inl Conflict), Some (r, Inr Duplicate), Some (r, Inl Overflow)} \<or>
    (\<exists>n. stores r e f n)"
proof (cases "en_suite e = fr_suite f \<and> en_count e = fragment_count f \<and> en_total_len e = fr_total_len f")
  case True
  then have idx: "unat (fragment_index f) < length (slots e)"
    using ok check_fragment_None(1) [OF c] by (simp add: entry_ok_def)
  show ?thesis
  proof (cases "slots e ! unat (fragment_index f)")
    case None
    show ?thesis
    proof (cases "checked_add (received_bytes e) (word_of_nat (length (fr_payload f)))")
      case None
      then show ?thesis using True idx \<open>slots e ! unat (fragment_index f) = None\<close>
        by (simp add: store_fragment_def Let_def)
    next
      case (Some n)
      then show ?thesis using True idx \<open>slots e ! unat (fragment_index f) = None\<close>
        by (cases "en_total_len e < n")
          (auto simp: store_fragment_def Let_def with_payload_def stores_def stored_result_def)
    qed
  next
    case (Some p)
    then show ?thesis using True idx by (simp add: store_fragment_def Let_def)
  qed
next
  case False
  then show ?thesis by (auto simp: store_fragment_def Let_def)
qed

lemma push_ok:
  assumes ok: "reassembler_ok r"
  shows "\<exists>r' res. push r f now = Some (r', res) \<and> reassembler_ok r' \<and> limits r' = limits r"
proof (cases "check_fragment (limits r) f")
  case (Some err)
  then show ?thesis using ok by (simp add: push_def)
next
  case c: None
  obtain r1 res where en: "ensure_entry r f now = (r1, res)" by fastforce
  note r1 = ensure_entry_ok [OF ok c en]
  show ?thesis
  proof (cases res)
    case (Inl err)
    then show ?thesis using c en r1 by (simp add: push_def)
  next
    case (Inr u)
    then obtain e where e: "fmlookup (entries r1) (handshake_id f) = Some e" using r1(3) by auto
    have p: "push r f now = store_fragment r1 e f" using c en Inr e by (simp add: push_def)
    have eok: "entry_ok (limits r) e" using r1(1,2) e by (auto simp: reassembler_ok_def)
    from store_fragment_cases [OF eok c, of r1] show ?thesis
    proof
      assume "store_fragment r1 e f \<in> {Some (r1, Inl Conflict), Some (r1, Inr Duplicate), Some (r1, Inl Overflow)}"
      then show ?thesis using p r1 by auto
    next
      assume "\<exists>n. stores r1 e f n"
      then obtain n where n: "slots e ! unat (fragment_index f) = None" "unat (fragment_index f) < length (slots e)"
          "checked_add (received_bytes e) (word_of_nat (length (fr_payload f))) = Some n" "n \<le> en_total_len e"
        and st: "store_fragment r1 e f = stored_result r1 e f n"
        by (auto simp: stores_def)
      note cnt = with_payload_counts [OF eok n(2,1,3) check_fragment_None(5) [OF c]]
      have new: "entry_ok (limits r) (with_payload e f n)" if "received (with_payload e f n) < en_count e"
        using that eok n(4) cnt(1,2) by (simp add: entry_ok_def) (simp add: with_payload_def)
      have "fmsize (fmupd (handshake_id f) (with_payload e f n) (entries r1)) = fmsize (entries r1)"
        using e by (simp add: fmsize_upd fmlookup_dom_iff del: fmdom_fmupd)
      then show ?thesis
        using p st new r1 by (auto simp: reassembler_ok_def stored_result_def fmsize_drop simp del: fmdom_fmupd fmdom_drop)
    qed
  qed
qed

datatype reasm_op = RPush handshake_fragment u64 | RExpire u64 | RDiscard u64

fun reasm_step :: "reassembler \<Rightarrow> reasm_op \<Rightarrow> reassembler" where
  "reasm_step r (RPush f now) = (case push r f now of Some (r', _) \<Rightarrow> r' | None \<Rightarrow> r)"
| "reasm_step r (RExpire now) = fst (expire r now)"
| "reasm_step r (RDiscard h) = fst (discard r h)"

definition reasm_inv :: "reassembly_limits \<Rightarrow> reassembler \<Rightarrow> bool" where
  "reasm_inv l r \<longleftrightarrow> reassembler_ok r \<and> limits r = l"

lemma reasm_step_inv: "reasm_inv l r \<Longrightarrow> reasm_inv l (reasm_step r op)"
proof (cases op)
  case (RPush f now)
  then show "reasm_inv l r \<Longrightarrow> ?thesis" using push_ok [of r f now] by (auto simp: reasm_inv_def)
qed (auto simp: reasm_inv_def expire_ok discard_ok, simp_all add: expire_def discard_def Let_def)

interpretation reasm: machine reasm_step "reasm_inv l"
  for l
  by unfold_locales (rule reasm_step_inv)

definition held_bytes :: "reassembler \<Rightarrow> nat" where
  "held_bytes r = (\<Sum>h\<in>fset (fmdom (entries r)). case fmlookup (entries r) h of
     Some e \<Rightarrow> length (flatten (slots e)) | None \<Rightarrow> 0)"

lemma held_bytes_bound:
  assumes "reasm_inv l r"
  shows "held_bytes r \<le> max_concurrent l * unat (max_total_len l)"
proof -
  have each: "(case fmlookup (entries r) h of Some e \<Rightarrow> length (flatten (slots e)) | None \<Rightarrow> 0) \<le> unat (max_total_len l)" for h
    using assms
    by (fastforce simp: reasm_inv_def reassembler_ok_def entry_ok_def word_le_nat_alt unat_min_word split: option.splits)
  have "held_bytes r \<le> of_nat (card (fset (fmdom (entries r)))) * unat (max_total_len l)"
    unfolding held_bytes_def by (rule sum_bounded_above) (rule each)
  also have "\<dots> \<le> max_concurrent l * unat (max_total_len l)"
    using assms by (auto simp: reasm_inv_def reassembler_ok_def fcard.rep_eq)
  finally show ?thesis .
qed

lemma reassembler_new_inv: "reasm_inv l (reassembler_new l)"
  by (simp add: reasm_inv_def reassembler_ok_def reassembler_new_def fcard_fempty)

text \<open>
  Reassembly is bounded and total. Under any sequence of pushes, expiries and discards, honest or
  hostile, at most \<open>max_concurrent\<close> handshakes are in progress, the payload bytes held never exceed
  \<open>max_concurrent * max_total_len\<close>, and the next push does not panic.
\<close>

theorem reassembly_bounded:
  "in_progress (foldl reasm_step (reassembler_new l) ops) \<le> max_concurrent l \<and>
   held_bytes (foldl reasm_step (reassembler_new l) ops) \<le> max_concurrent l * unat (max_total_len l) \<and>
   push (foldl reasm_step (reassembler_new l) ops) f now \<noteq> None"
proof -
  have inv: "reasm_inv l (foldl reasm_step (reassembler_new l) ops)"
    by (rule reasm.inv_run) (rule reassembler_new_inv)
  then show ?thesis
    using held_bytes_bound [OF inv] push_ok [of "foldl reasm_step (reassembler_new l) ops" f now]
    by (auto simp: reasm_inv_def reassembler_ok_def in_progress_def)
qed

section \<open>Any order completes\<close>

definition slot_map :: "bytes list \<Rightarrow> nat set \<Rightarrow> bytes option list" where
  "slot_map cs S = map (\<lambda>i. if i \<in> S then Some (cs ! i) else None) [0..<length cs]"

lemma slot_map_simps [simp]:
  "length (slot_map cs S) = length cs"
  "i < length cs \<Longrightarrow> slot_map cs S ! i = (if i \<in> S then Some (cs ! i) else None)"
  "slot_map cs {} = replicate (length cs) None"
  by (simp_all add: slot_map_def map_replicate_const)

lemma slot_map_update: "j < length cs \<Longrightarrow> (slot_map cs S)[j := Some (cs ! j)] = slot_map cs (insert j S)"
  by (rule nth_equalityI) (auto simp: nth_list_update)

lemma filled_slot_map: "S \<subseteq> {..<length cs} \<Longrightarrow> filled (slot_map cs S) = card S"
proof -
  assume S: "S \<subseteq> {..<length cs}"
  have "filled (slot_map cs S) = length (filter (\<lambda>i. i \<in> S) [0..<length cs])"
    by (simp add: filled_def slot_map_def filter_map comp_def if_distrib [of "\<lambda>x. x \<noteq> None"] cong: if_cong)
  also have "\<dots> = card S"
    using S by (subst distinct_card [symmetric]) (auto intro!: arg_cong [of _ _ card])
  finally show ?thesis .
qed

lemma flatten_slot_map_full: "{..<length cs} \<subseteq> S \<Longrightarrow> flatten (slot_map cs S) = concat cs"
proof -
  assume S: "{..<length cs} \<subseteq> S"
  have "map (\<lambda>s. case s of Some p \<Rightarrow> p | None \<Rightarrow> []) (slot_map cs S) = cs"
    by (rule nth_equalityI) (use S in auto)
  then show ?thesis by (simp add: flatten_def)
qed

lemma flatten_slot_map_le: "length (flatten (slot_map cs S)) \<le> length (concat cs)"
proof -
  have "length (flatten (slot_map cs S)) = sum_list (map (\<lambda>i. if i \<in> S then length (cs ! i) else 0) [0..<length cs])"
    by (simp add: flatten_def slot_map_def length_concat comp_def if_distrib cong: if_cong)
  also have "\<dots> \<le> sum_list (map (\<lambda>i. length (cs ! i)) [0..<length cs])" by (rule sum_list_mono) simp
  also have "\<dots> = length (concat (map (\<lambda>i. cs ! i) [0..<length cs]))" by (simp add: length_concat comp_def)
  finally show ?thesis by (simp add: map_nth)
qed

definition frag_at :: "u64 \<Rightarrow> u16 \<Rightarrow> bytes list \<Rightarrow> nat \<Rightarrow> handshake_fragment" where
  "frag_at hid suite cs i =
     \<lparr>fr_version = FRAGMENT_VERSION, handshake_id = hid, fr_suite = suite, fragment_index = word_of_nat i,
      fragment_count = word_of_nat (length cs), fr_total_len = word_of_nat (length (concat cs)), fr_payload = cs ! i\<rparr>"

text \<open>A message that was split within the limits of the reassembler.\<close>

definition fits :: "reassembly_limits \<Rightarrow> bytes list \<Rightarrow> bool" where
  "fits l cs \<longleftrightarrow>
     0 < length cs \<and> length cs \<le> min 1024 (unat (max_fragments l)) \<and>
     length (concat cs) \<le> min 1048576 (unat (max_total_len l)) \<and> (\<forall>c\<in>set cs. c \<noteq> [])"

lemma fragment_shape:
  assumes "fragment hid suite data k = Inr fs"
  shows "\<exists>cs. fs = map (frag_at hid suite cs) [0..<length cs] \<and> concat cs = data \<and> 0 < length cs \<and>
    length cs \<le> 1024 \<and> length data \<le> 1048576 \<and> (\<forall>c\<in>set cs. c \<noteq> [] \<and> length c \<le> k)"
proof -
  have k: "0 < k" and d: "data \<noteq> []" "length data \<le> 1048576" and n: "div_ceil (length data) k \<le> 1024"
    using assms
    by (auto simp: fragment_def Let_def ABS_MAX_TOTAL_LEN_def ABS_MAX_FRAGMENTS_def not_less split: if_splits)
  let ?cs = "chunks k data"
  have len: "length ?cs = div_ceil (length data) k" and cat: "concat ?cs = data"
    and sz: "\<forall>c\<in>set ?cs. c \<noteq> [] \<and> length c \<le> k"
    using chunks_length [OF k] chunks_concat [OF k] chunks_size [OF k] by blast+
  have "0 < length ?cs" using cat d(1) by auto
  moreover have "fs = map (frag_at hid suite ?cs) [0..<length ?cs]"
    using assms k d n
    by (auto simp: fragment_def Let_def len cat frag_at_def enumerate_eq_zip ABS_MAX_TOTAL_LEN_def
        ABS_MAX_FRAGMENTS_def intro!: nth_equalityI split: if_splits)
  ultimately show ?thesis using cat sz d n len by (intro exI [of _ ?cs] conjI) simp_all
qed

lemma fits_words:
  assumes "fits l cs"
  shows "unat (word_of_nat (length cs) :: u16) = length cs"
    and "unat (word_of_nat (length (concat cs)) :: u32) = length (concat cs)"
    and "i < length cs \<Longrightarrow> unat (word_of_nat i :: u16) = i"
    and "length cs \<le> length (concat cs)"
proof -
  show "unat (word_of_nat (length cs) :: u16) = length cs"
    "unat (word_of_nat (length (concat cs)) :: u32) = length (concat cs)"
    "i < length cs \<Longrightarrow> unat (word_of_nat i :: u16) = i"
    using assms by (auto simp: fits_def unat_of_nat)
  have "\<forall>c\<in>set cs. c \<noteq> [] \<Longrightarrow> length cs \<le> length (concat cs)"
    by (induction cs) (auto simp: neq_Nil_conv)
  then show "length cs \<le> length (concat cs)" using assms by (simp add: fits_def)
qed

lemma payload_le_total: "i < length cs \<Longrightarrow> length (cs ! i) \<le> length (concat cs)"
  using member_le_sum_list [of "length (cs ! i)" "map length cs"] by (auto simp: length_concat)

lemma fits_check:
  assumes "fits l cs" and "i < length cs"
  shows "check_fragment l (frag_at hid suite cs i) = None"
  using assms fits_words [OF assms(1)] fits_words(3) [OF assms] payload_le_total [OF assms(2)]
  by (auto simp: check_fragment_def frag_at_def fits_def word_less_nat_alt word_le_nat_alt word_unat_eq_iff
      unat_min_word ABS_MAX_FRAGMENTS_def ABS_MAX_TOTAL_LEN_def)

definition gathered :: "u64 \<Rightarrow> u16 \<Rightarrow> bytes list \<Rightarrow> nat set \<Rightarrow> reassembly_limits \<Rightarrow> entry \<Rightarrow> bool" where
  "gathered hid suite cs S l e \<longleftrightarrow>
     entry_ok l e \<and> en_suite e = suite \<and> en_count e = word_of_nat (length cs) \<and>
     en_total_len e = word_of_nat (length (concat cs)) \<and> slots e = slot_map cs S \<and> S \<subseteq> {..<length cs}"

lemma card_proper: "T \<subseteq> {..<n} \<Longrightarrow> card T < n \<longleftrightarrow> T \<noteq> {..<n}"
  using psubset_card_mono [of "{..<n}" T] by (auto simp: psubset_eq)

lemma store_gathered:
  assumes g: "gathered hid suite cs S l e" and fit: "fits l cs" and j: "j < length cs" "j \<notin> S"
  shows "if insert j S = {..<length cs}
    then store_fragment r e (frag_at hid suite cs j) =
      Some (r\<lparr>entries := fmdrop hid (entries r)\<rparr>, Inr (Complete hid suite (concat cs)))
    else \<exists>e'. store_fragment r e (frag_at hid suite cs j) =
        Some (r\<lparr>entries := fmupd hid e' (entries r)\<rparr>, Inr Pending) \<and> gathered hid suite cs (insert j S) l e'"
proof -
  let ?f = "frag_at hid suite cs j"
  have ok: "entry_ok l e" and S: "S \<subseteq> {..<length cs}" and sl: "slots e = slot_map cs S"
    and hd: "en_suite e = suite" "en_count e = word_of_nat (length cs)" "en_total_len e = word_of_nat (length (concat cs))"
    using g by (auto simp: gathered_def)
  have c: "check_fragment l ?f = None" by (rule fits_check) (use fit j in auto)
  have idx: "unat (fragment_index ?f) = j" using fits_words(3) [OF fit j(1)] by (simp add: frag_at_def)
  have new: "(slots e)[j := Some (fr_payload ?f)] = slot_map cs (insert j S)"
    using sl j(1) by (simp add: frag_at_def slot_map_update)
  have slot: "slots e ! unat (fragment_index ?f) = None" "unat (fragment_index ?f) < length (slots e)"
    using sl j idx by simp_all
  have bytes: "length (flatten (slot_map cs S)) + length (cs ! j) = length (flatten (slot_map cs (insert j S)))"
    using flatten_update [of j "slots e" "cs ! j"] sl j new idx slot by (simp add: frag_at_def)
  have le: "length (flatten (slot_map cs (insert j S))) \<le> length (concat cs)" by (rule flatten_slot_map_le)
  have len: "length (concat cs) \<le> 1048576" using fit by (simp add: fits_def)
  have pw: "unat (word_of_nat (length (fr_payload ?f)) :: u32) = length (fr_payload ?f)"
    by (rule check_fragment_None(5)) (rule c)
  have rb: "unat (received_bytes e) = length (flatten (slot_map cs S))" using ok sl by (simp add: entry_ok_def)
  obtain n where n: "checked_add (received_bytes e) (word_of_nat (length (fr_payload ?f))) = Some n"
    using rb pw bytes le len by (auto simp: checked_add_def frag_at_def)
  have un: "unat n = length (flatten (slot_map cs (insert j S)))"
    using checked_add_Some [OF n] rb pw bytes by (simp add: frag_at_def)
  have nle: "n \<le> en_total_len e" using un le fits_words(2) [OF fit] hd(3) by (simp add: word_le_nat_alt)
  have st: "store_fragment r e ?f = stored_result r e ?f n"
    using n nle hd slot by (auto simp: store_fragment_def stored_result_def with_payload_def Let_def frag_at_def not_less)
  note cnt = with_payload_counts [OF ok slot(2,1) n pw]
  have sw: "slots (with_payload e ?f n) = slot_map cs (insert j S)" using new idx by (simp add: with_payload_def)
  have card: "unat (received (with_payload e ?f n)) = card (insert j S)"
    using cnt(1) sw filled_slot_map [of "insert j S" cs] S j(1) by simp
  have lt: "received (with_payload e ?f n) < en_count e \<longleftrightarrow> insert j S \<noteq> {..<length cs}"
  proof -
    have "insert j S \<subseteq> {..<length cs}" using S j(1) by simp
    then have "card (insert j S) < length cs \<longleftrightarrow> insert j S \<noteq> {..<length cs}" by (rule card_proper)
    then show ?thesis using card hd(2) fits_words(1) [OF fit] by (simp add: word_less_nat_alt)
  qed
  show ?thesis
  proof (cases "insert j S = {..<length cs}")
    case True
    then have full: "flatten (slot_map cs (insert j S)) = concat cs" by (intro flatten_slot_map_full) simp
    then have "n = en_total_len e" using un fits_words(2) [OF fit] hd(3) by (simp add: word_unat_eq_iff)
    then show ?thesis using True st lt full sw hd by (simp add: stored_result_def frag_at_def)
  next
    case False
    have "gathered hid suite cs (insert j S) l (with_payload e ?f n)"
      using ok hd S j(1) sw cnt(1,2) nle lt False fits_words(1) [OF fit]
      by (simp add: gathered_def entry_ok_def) (simp add: with_payload_def)
    then show ?thesis using False st lt by (auto simp: stored_result_def frag_at_def)
  qed
qed

text \<open>Pushing a list of fragments with their arrival times, collecting the results.\<close>

fun push_all ::
  "reassembler \<Rightarrow> (handshake_fragment \<times> u64) list \<Rightarrow> (reassembler \<times> (fragment_error + push_outcome) list) option" where
  "push_all r [] = Some (r, [])"
| "push_all r ((f, now) # fs) =
     (case push r f now of
        None \<Rightarrow> None
      | Some (r', res) \<Rightarrow>
          (case push_all r' fs of None \<Rightarrow> None | Some (r'', rs) \<Rightarrow> Some (r'', res # rs)))"

lemma push_gathered:
  assumes "fmlookup (entries r) hid = Some e" and "fits (limits r) cs" and "j < length cs"
  shows "push r (frag_at hid suite cs j) now = store_fragment r e (frag_at hid suite cs j)"
  using assms fits_check [OF assms(2,3), of hid suite]
  by (simp add: push_def ensure_entry_def frag_at_def)

lemma push_rest:
  assumes "fits (limits r) cs" and "fmlookup (entries r) hid = Some e" and "gathered hid suite cs S (limits r) e"
    and "distinct js" and "set js = {..<length cs} - S" and "js \<noteq> []" and "length ts = length js"
  shows "\<exists>r'. push_all r (zip (map (frag_at hid suite cs) js) ts) =
      Some (r', replicate (length js - 1) (Inr Pending) @ [Inr (Complete hid suite (concat cs))]) \<and>
    entries r' = fmdrop hid (entries r)"
  using assms
proof (induction js arbitrary: r e S ts)
  case (Cons j js)
  obtain t ts' where ts: "ts = t # ts'" using Cons.prems(7) by (cases ts) auto
  have j: "j < length cs" "j \<notin> S" using Cons.prems(5) by auto
  have S: "S \<subseteq> {..<length cs}" using Cons.prems(3) by (simp add: gathered_def)
  have push: "push r (frag_at hid suite cs j) t = store_fragment r e (frag_at hid suite cs j)"
    using Cons.prems(2,1) j(1) by (rule push_gathered)
  note st = store_gathered [OF Cons.prems(3,1) j, of r]
  show ?case
  proof (cases "js = []")
    case True
    then have "insert j S = {..<length cs}" using Cons.prems(5) S by auto
    then show ?thesis using st push ts True by simp
  next
    case False
    then obtain x where x: "x \<in> set js" by (cases js) auto
    then have "x \<noteq> j" using Cons.prems(4) by auto
    moreover have "x \<notin> S" "x \<in> {..<length cs}" using Cons.prems(5) x by auto
    ultimately have ne: "insert j S \<noteq> {..<length cs}" by (metis insert_iff)
    with st obtain e' where s: "store_fragment r e (frag_at hid suite cs j) =
        Some (r\<lparr>entries := fmupd hid e' (entries r)\<rparr>, Inr Pending)"
      and g: "gathered hid suite cs (insert j S) (limits r) e'" by auto
    let ?r = "r\<lparr>entries := fmupd hid e' (entries r)\<rparr>"
    have "\<exists>r'. push_all ?r (zip (map (frag_at hid suite cs) js) ts') =
        Some (r', replicate (length js - 1) (Inr Pending) @ [Inr (Complete hid suite (concat cs))]) \<and>
      entries r' = fmdrop hid (entries ?r)"
      using Cons.prems g False ts by (intro Cons.IH [of ?r e' "insert j S"]) auto
    then obtain r' where p: "push_all ?r (zip (map (frag_at hid suite cs) js) ts') =
        Some (r', replicate (length js - 1) (Inr Pending) @ [Inr (Complete hid suite (concat cs))])"
      and ent: "entries r' = fmdrop hid (fmupd hid e' (entries r))" by auto
    have "fmdrop hid (fmupd hid e' (entries r)) = fmdrop hid (entries r)" by (rule fmap_ext) simp
    moreover have "replicate (length js) (Inr Pending :: fragment_error + push_outcome) =
        Inr Pending # replicate (length js - 1) (Inr Pending)"
      using False by (cases js) auto
    ultimately show ?thesis using push s p ent ts by simp
  qed
qed simp

text \<open>A reordering of the fragments is a reordering of their indices.\<close>

lemma permuted_indices:
  assumes fit: "fits l cs" and p: "mset fs' = mset (map (frag_at hid suite cs) [0..<length cs])"
  shows "\<exists>js. mset js = mset [0..<length cs] \<and> fs' = map (frag_at hid suite cs) js"
proof (intro exI conjI)
  let ?idx = "\<lambda>f. unat (fragment_index f)"
  have idx: "?idx (frag_at hid suite cs i) = i" if "i < length cs" for i
    using fits_words(3) [OF fit that] by (simp add: frag_at_def)
  have "mset (map ?idx fs') = mset (map ?idx (map (frag_at hid suite cs) [0..<length cs]))"
    unfolding mset_map p ..
  also have "map ?idx (map (frag_at hid suite cs) [0..<length cs]) = [0..<length cs]"
    using idx by (auto simp: comp_def intro!: map_idI)
  finally show "mset (map ?idx fs') = mset [0..<length cs]" .
  have "frag_at hid suite cs (?idx f) = f" if "f \<in> set fs'" for f
    using mset_eq_setD [OF p] that idx by auto
  then show "fs' = map (frag_at hid suite cs) (map ?idx fs')" by (simp add: map_idI)
qed

text \<open>The first fragment opens the entry.\<close>

lemma push_first:
  assumes ok: "reassembler_ok r" and none: "fmlookup (entries r) hid = None"
    and room: "fmsize (entries r) < max_concurrent (limits r)" and fit: "fits (limits r) cs" and j: "j < length cs"
  obtains e where "gathered hid suite cs {} (limits r) e"
    "push r (frag_at hid suite cs j) now = push (r\<lparr>entries := fmupd hid e (entries r)\<rparr>) (frag_at hid suite cs j) now"
proof -
  let ?f = "frag_at hid suite cs j"
  let ?e = "\<lparr>en_suite = suite, en_count = word_of_nat (length cs), en_total_len = word_of_nat (length (concat cs)),
      started_ms = now, received = 0, received_bytes = 0, slots = replicate (length cs) None\<rparr>"
  let ?r = "r\<lparr>entries := fmupd hid ?e (entries r)\<rparr>"
  have c: "check_fragment (limits r) ?f = None" by (rule fits_check) (use fit j in auto)
  have "ensure_entry r ?f now = (?r, Inr ())"
    using none room fits_words(1) [OF fit] by (simp add: ensure_entry_def frag_at_def Let_def)
  then have "reassembler_ok ?r" using ensure_entry_ok(1) [OF ok c] by blast
  then have "entry_ok (limits r) ?e" by (auto simp: reassembler_ok_def dest: spec [of _ hid])
  then have "gathered hid suite cs {} (limits r) ?e" by (simp add: gathered_def)
  moreover have "push r ?f now = push ?r ?f now"
    using c \<open>ensure_entry r ?f now = (?r, Inr ())\<close> by (simp add: push_def ensure_entry_def [of ?r]) (simp add: frag_at_def)
  ultimately show thesis by (rule that)
qed

text \<open>
  Reassembly returns the message. Split a message with \<open>fragment\<close> and push the fragments in any
  order and at any times into a reassembler that has room and whose limits the message meets: every
  push but the last answers \<open>Pending\<close>, the last one returns exactly the message with its suite, and
  the table is what it was before.
\<close>

theorem reassembly_any_order:
  assumes "fragment hid suite data k = Inr fs" and "mset fs' = mset fs" and "length ts = length fs'"
    and "reassembler_ok r" and "fmlookup (entries r) hid = None" and "fmsize (entries r) < max_concurrent (limits r)"
    and "length fs \<le> unat (max_fragments (limits r))" and "length data \<le> unat (max_total_len (limits r))"
  shows "\<exists>r'. push_all r (zip fs' ts) =
      Some (r', replicate (length fs - 1) (Inr Pending) @ [Inr (Complete hid suite data)]) \<and> entries r' = entries r"
proof -
  obtain cs where cs: "fs = map (frag_at hid suite cs) [0..<length cs]" "concat cs = data" "0 < length cs"
      "length cs \<le> 1024" "length data \<le> 1048576" "\<forall>c\<in>set cs. c \<noteq> [] \<and> length c \<le> k"
    using fragment_shape [OF assms(1)] by blast
  have fit: "fits (limits r) cs" using cs assms(7,8) by (simp add: fits_def)
  obtain js where js: "mset js = mset [0..<length cs]" "fs' = map (frag_at hid suite cs) js"
    using permuted_indices [OF fit, of fs' hid suite] assms(2) cs(1) by blast
  have set: "set js = {..<length cs}" "distinct js" "length js = length cs"
    using mset_eq_setD [OF js(1)] mset_eq_imp_distinct_iff [OF js(1)] mset_eq_length [OF js(1)]
    by (auto simp: atLeast0LessThan)
  then obtain j js' where j: "js = j # js'" using cs(3) by (cases js) auto
  obtain t ts' where t: "ts = t # ts'" using assms(3) js(2) j by (cases ts) auto
  have "j < length cs" using set(1) j by auto
  from push_first [OF assms(4,5,6) fit this, of suite t] obtain e where g: "gathered hid suite cs {} (limits r) e"
    and first: "push r (frag_at hid suite cs j) t = push (r\<lparr>entries := fmupd hid e (entries r)\<rparr>) (frag_at hid suite cs j) t" .
  let ?r = "r\<lparr>entries := fmupd hid e (entries r)\<rparr>"
  have "\<exists>r'. push_all ?r (zip (map (frag_at hid suite cs) js) ts) =
      Some (r', replicate (length js - 1) (Inr Pending) @ [Inr (Complete hid suite (concat cs))]) \<and>
    entries r' = fmdrop hid (entries ?r)"
    using fit g set assms(3) js(2) j by (intro push_rest) auto
  moreover have "push_all r (zip fs' ts) = push_all ?r (zip (map (frag_at hid suite cs) js) ts)"
    using first by (simp add: js(2) j t)
  moreover have "fmdrop hid (entries ?r) = entries r" using assms(5) by (intro fmap_ext) simp
  ultimately show ?thesis using cs(1,2) set(3) by simp
qed

definition demo_fragments :: "handshake_fragment list" where
  "demo_fragments = [frag_at 9 1 [[1, 2], [3]] 1, frag_at 9 1 [[1, 2], [3]] 0]"

theorem reassembly_any_order_witness:
  "\<exists>r'. push_all (reassembler_new default_limits) (zip demo_fragments [5, 6]) =
      Some (r', replicate 1 (Inr Pending) @ [Inr (Complete 9 1 [1, 2, 3])]) \<and> entries r' = fmempty"
proof -
  have "chunks 2 [1, 2, 3] = [[1, 2], [3 :: u8]]"
    by (simp add: chunks.simps [of 2 "[1, 2, 3]"] chunks.simps [of 2 "[3]"] chunks.simps [of 2 "[]"])
  then have f: "fragment 9 1 [1, 2, 3] 2 = Inr [frag_at 9 1 [[1, 2], [3]] 0, frag_at 9 1 [[1, 2], [3]] 1]"
    by (simp add: fragment_def ABS_MAX_TOTAL_LEN_def ABS_MAX_FRAGMENTS_def div_ceil_def Let_def frag_at_def)
  have "reassembler_ok (reassembler_new default_limits)"
    using reassembler_new_inv by (simp add: reasm_inv_def)
  from reassembly_any_order [OF f _ _ this, of demo_fragments "[5, 6]"] show ?thesis
    by (simp add: demo_fragments_def reassembler_new_def default_limits_def fcard_fempty)
qed

end
