(* ===== verification/Membership.thy ===== *)
theory Membership
  imports Byte_Reader
begin

text \<open>
  Signed group membership, \<^verbatim>\<open>crates/miasma-core/src/chat/group/membership.rs\<close>: the descriptor
  with its codec and checks, and the chain of descriptors a member holds. The Ed25519 operations and
  the keyed BLAKE3 hash are outside the repository and are the fields of \<open>gext\<close>. A \<open>String\<close> is its
  UTF-8 bytes.
\<close>

section \<open>Descriptors\<close>

definition DESCRIPTOR_VERSION :: u8 where "DESCRIPTOR_VERSION = 1"
definition MAX_MEMBERS :: nat where "MAX_MEMBERS = 32"
definition MAX_NAME_BYTES :: nat where "MAX_NAME_BYTES = 192"
definition MAX_HINT_BYTES :: nat where "MAX_HINT_BYTES = 24"
definition MAX_CHAIN :: nat where "MAX_CHAIN = 8"

definition HASH_LABEL :: string where "HASH_LABEL = ''miasma group v1 descriptor hash''"
definition SIGN_LABEL :: string where "SIGN_LABEL = ''miasma group v1 descriptor signature''"

datatype group_role = Member | Admin

fun role_code :: "group_role \<Rightarrow> u8" where
  "role_code Member = 0"
| "role_code Admin = 1"

definition from_code :: "u8 \<Rightarrow> group_role option" where
  "from_code c = (if c = 0 then Some Member else if c = 1 then Some Admin else None)"

record member =
  mb_id :: bytes
  mb_role :: group_role
  mb_hint :: bytes

datatype desc_error =
  Malformed | BadSignature | WrongGroup | BadChain | NotAuthorized | NoAdmin | TooManyMembers | Gap

record descriptor =
  gid :: bytes
  epoch :: u32
  ds_name :: bytes
  created_ms :: u64
  prev_hash :: bytes
  members :: "member list"
  signer :: bytes
  sig :: bytes

text \<open>
  \<open>valid_key\<close>: the bytes are a verifying key and not a weak one. \<open>verifying_key\<close> and \<open>ed_sign\<close>: the public
  key and the signature of a signing key. \<open>derive_hash label\<close>: the keyed hash.
  \<open>verify_strict key digest sig\<close>: the key parses and the signature verifies strictly.
\<close>

record gext =
  valid_key :: "bytes \<Rightarrow> bool"
  verifying_key :: "bytes \<Rightarrow> bytes"
  ed_sign :: "bytes \<Rightarrow> bytes \<Rightarrow> bytes"
  derive_hash :: "string \<Rightarrow> bytes \<Rightarrow> bytes"
  verify_strict :: "bytes \<Rightarrow> bytes \<Rightarrow> bytes \<Rightarrow> bool"

definition encode_member :: "member \<Rightarrow> bytes" where
  "encode_member m =
     mb_id m @ [role_code (mb_role m)] @ [word_of_nat (length (mb_hint m))] @ mb_hint m"

definition signed_part :: "descriptor \<Rightarrow> bytes" where
  "signed_part d =
     [DESCRIPTOR_VERSION] @ gid d @ be_bytes 4 (unat (epoch d)) @ be_bytes 8 (unat (created_ms d)) @ prev_hash d @
     be_bytes 2 (unat (word_of_nat (length (ds_name d)) :: u16)) @ ds_name d @
     [word_of_nat (length (members d))] @ concat (map encode_member (members d)) @ signer d"

definition digest_to_sign :: "gext \<Rightarrow> descriptor \<Rightarrow> bytes" where
  "digest_to_sign G d = derive_hash G SIGN_LABEL (signed_part d)"

definition encode_descriptor :: "descriptor \<Rightarrow> bytes" where
  "encode_descriptor d = signed_part d @ sig d"

definition desc_hash :: "gext \<Rightarrow> descriptor \<Rightarrow> bytes" where
  "desc_hash G d = derive_hash G HASH_LABEL (encode_descriptor d)"

text \<open>The loop of the shape check over the members; \<open>seen\<close> are the identifiers before.\<close>

fun check_members :: "gext \<Rightarrow> bytes list \<Rightarrow> member list \<Rightarrow> desc_error + unit" where
  "check_members G seen [] = Inr ()"
| "check_members G seen (m # ms) =
     (if MAX_HINT_BYTES < length (mb_hint m) \<or> \<not> valid_key G (mb_id m) then Inl Malformed
      else if mb_id m \<in> set seen then Inl Malformed
      else check_members G (seen @ [mb_id m]) ms)"

definition check_shape :: "gext \<Rightarrow> descriptor \<Rightarrow> desc_error + unit" where
  "check_shape G d =
     (if ds_name d = [] \<or> MAX_NAME_BYTES < length (ds_name d) then Inl Malformed
      else if members d = [] then Inl Malformed
      else if MAX_MEMBERS < length (members d) then Inl TooManyMembers
      else (case check_members G [] (members d) of
          Inl err \<Rightarrow> Inl err
        | Inr _ \<Rightarrow> if \<exists>m\<in>set (members d). mb_role m = Admin then Inr () else Inl NoAdmin))"

fun decode_members :: "nat \<Rightarrow> bytes \<Rightarrow> desc_error + (member list \<times> bytes)" where
  "decode_members 0 s = Inr ([], s)"
| "decode_members (Suc n) s =
     need Malformed (rd_bytes 32 s) (\<lambda>i s.
     need Malformed (rd_u8 s) (\<lambda>c s.
     case from_code c of
       None \<Rightarrow> Inl Malformed
     | Some role \<Rightarrow>
         need Malformed (rd_u8 s) (\<lambda>hl s.
         if MAX_HINT_BYTES < unat hl then Inl Malformed
         else need Malformed (rd_bytes (unat hl) s) (\<lambda>hint s.
           if \<not> utf8_valid hint then Inl Malformed
           else (case decode_members n s of
               Inl err \<Rightarrow> Inl err
             | Inr (ms, s) \<Rightarrow> Inr (\<lparr>mb_id = i, mb_role = role, mb_hint = hint\<rparr> # ms, s))))))"

definition decode_descriptor :: "gext \<Rightarrow> bytes \<Rightarrow> desc_error + descriptor" where
  "decode_descriptor G b =
     need Malformed (rd_u8 b) (\<lambda>v s.
     if v \<noteq> DESCRIPTOR_VERSION then Inl Malformed
     else
     need Malformed (rd_bytes 16 s) (\<lambda>g s.
     need Malformed (rd_u32 s) (\<lambda>ep s.
     need Malformed (rd_u64 s) (\<lambda>c s.
     need Malformed (rd_bytes 32 s) (\<lambda>p s.
     need Malformed (rd_u16 s) (\<lambda>nl s.
     if nl = 0 \<or> MAX_NAME_BYTES < unat nl then Inl Malformed
     else
     need Malformed (rd_bytes (unat nl) s) (\<lambda>nm s.
     if \<not> utf8_valid nm then Inl Malformed
     else
     need Malformed (rd_u8 s) (\<lambda>n s.
     if n = 0 \<or> MAX_MEMBERS < unat n then Inl Malformed
     else (case decode_members (unat n) s of
         Inl err \<Rightarrow> Inl err
       | Inr (ms, s) \<Rightarrow>
           need Malformed (rd_bytes 32 s) (\<lambda>sg s.
           need Malformed (rd_bytes 64 s) (\<lambda>sn s.
           if \<not> rd_done s \<or> ep = 0 then Inl Malformed
           else (let d = \<lparr>gid = g, epoch = ep, ds_name = nm, created_ms = c, prev_hash = p, members = ms,
                          signer = sg, sig = sn\<rparr>
                 in case check_shape G d of Inl err \<Rightarrow> Inl err | Inr _ \<Rightarrow> Inr d))))))))))))"

definition signed :: "gext \<Rightarrow> bytes \<Rightarrow> descriptor \<Rightarrow> descriptor" where
  "signed G key d =
     (let d' = d\<lparr>signer := verifying_key G key\<rparr> in d'\<lparr>sig := ed_sign G key (digest_to_sign G d')\<rparr>)"

definition verify_signature :: "gext \<Rightarrow> descriptor \<Rightarrow> desc_error + unit" where
  "verify_signature G d =
     (if verify_strict G (signer d) (digest_to_sign G d) (sig d) then Inr () else Inl BadSignature)"

definition find_member :: "descriptor \<Rightarrow> bytes \<Rightarrow> member option" where
  "find_member d i = find (\<lambda>m. mb_id m = i) (members d)"

definition is_member :: "descriptor \<Rightarrow> bytes \<Rightarrow> bool" where
  "is_member d i \<longleftrightarrow> find_member d i \<noteq> None"

definition is_admin :: "descriptor \<Rightarrow> bytes \<Rightarrow> bool" where
  "is_admin d i = (case find_member d i of Some m \<Rightarrow> mb_role m = Admin | None \<Rightarrow> False)"

definition is_leave_of :: "descriptor \<Rightarrow> descriptor \<Rightarrow> bytes \<Rightarrow> bool" where
  "is_leave_of old new who \<longleftrightarrow>
     is_member old who \<and> ds_name new = ds_name old \<and>
     (let expect = filter (\<lambda>m. mb_id m \<noteq> who) (members old)
      in length expect = length (members new) \<and> list_all2 (=) expect (members new))"

definition may_be_followed_by :: "gext \<Rightarrow> descriptor \<Rightarrow> descriptor \<Rightarrow> desc_error + unit" where
  "may_be_followed_by G old new =
     (if gid new \<noteq> gid old \<or> created_ms new \<noteq> created_ms old then Inl WrongGroup
      else if epoch new \<noteq> saturating_add (epoch old) 1 \<or> prev_hash new \<noteq> desc_hash G old then Inl BadChain
      else if is_admin old (signer new) \<or> is_leave_of old new (signer new) then Inr ()
      else Inl NotAuthorized)"

section \<open>Chains\<close>

text \<open>A chain is never empty: both constructors start from a root and no operation empties it.\<close>

type_synonym chain = "descriptor list"

datatype pushed = Advanced | Known | Replaced

definition latest :: "chain \<Rightarrow> descriptor" where
  "latest c = last c"

definition from_root :: "gext \<Rightarrow> descriptor \<Rightarrow> desc_error + chain" where
  "from_root G d =
     (case check_shape G d of
        Inl err \<Rightarrow> Inl err
      | Inr _ \<Rightarrow>
          (case verify_signature G d of
             Inl err \<Rightarrow> Inl err
           | Inr _ \<Rightarrow>
               if \<not> is_admin d (signer d) then Inl NotAuthorized
               else if epoch d = 1 \<and> prev_hash d \<noteq> replicate 32 0 then Inl BadChain
               else Inr [d]))"

text \<open>The three checks a new descriptor has to pass against its predecessor.\<close>

definition admissible :: "gext \<Rightarrow> descriptor \<Rightarrow> descriptor \<Rightarrow> desc_error + unit" where
  "admissible G old d =
     (case check_shape G d of
        Inl err \<Rightarrow> Inl err
      | Inr _ \<Rightarrow> (case verify_signature G d of Inl err \<Rightarrow> Inl err | Inr _ \<Rightarrow> may_be_followed_by G old d))"

definition push_descriptor :: "gext \<Rightarrow> chain \<Rightarrow> descriptor \<Rightarrow> chain \<times> (desc_error + pushed)" where
  "push_descriptor G c d =
     (if gid d \<noteq> gid (latest c) then (c, Inl WrongGroup)
      else if saturating_add (epoch (latest c)) 1 < epoch d then (c, Inl Gap)
      else if epoch d \<le> epoch (latest c) then
        (if epoch d < epoch (latest c) \<or> desc_hash G d = desc_hash G (latest c) then (c, Inr Known)
         else if prev_hash d \<noteq> prev_hash (latest c) \<or> \<not> lex_less (desc_hash G d) (desc_hash G (latest c))
         then (c, Inr Known)
         else if length c < 2 then (c, Inl BadChain)
         else (case admissible G (c ! (length c - 2)) d of
             Inl err \<Rightarrow> (c, Inl err)
           | Inr _ \<Rightarrow> (c[length c - 1 := d], Inr Replaced)))
      else (case admissible G (latest c) d of
          Inl err \<Rightarrow> (c, Inl err)
        | Inr _ \<Rightarrow>
            (let c' = c @ [d] in (if MAX_CHAIN < length c' then tl c' else c', Inr Advanced))))"

fun push_loop :: "gext \<Rightarrow> chain \<Rightarrow> descriptor list \<Rightarrow> chain \<times> (desc_error + unit)" where
  "push_loop G c [] = (c, Inr ())"
| "push_loop G c (d # ds) =
     (case push_descriptor G c d of (c', Inl err) \<Rightarrow> (c', Inl err) | (c', Inr _) \<Rightarrow> push_loop G c' ds)"

definition push_descriptors :: "gext \<Rightarrow> chain \<Rightarrow> descriptor list \<Rightarrow> chain \<times> (desc_error + bool)" where
  "push_descriptors G c ds =
     (let before = desc_hash G (latest c);
          (c', res) = push_loop G c ds;
          changed = desc_hash G (latest c') \<noteq> before
      in (c', case res of Inl err \<Rightarrow> if \<not> changed then Inl err else Inr changed | Inr _ \<Rightarrow> Inr changed))"

definition from_items :: "gext \<Rightarrow> descriptor list \<Rightarrow> desc_error + chain" where
  "from_items G items =
     (case items of
        [] \<Rightarrow> Inl Malformed
      | d # ds \<Rightarrow>
          (case from_root G d of
             Inl err \<Rightarrow> Inl err
           | Inr c \<Rightarrow> (case push_loop G c ds of (c', Inl err) \<Rightarrow> Inl err | (c', Inr _) \<Rightarrow> Inr c')))"

definition at_epoch :: "chain \<Rightarrow> u32 \<Rightarrow> descriptor option" where
  "at_epoch c ep = find (\<lambda>d. epoch d = ep) c"

definition ever_member :: "chain \<Rightarrow> bytes \<Rightarrow> bool" where
  "ever_member c i \<longleftrightarrow> (\<exists>d\<in>set c. is_member d i)"

section \<open>The codec\<close>

definition wf_member :: "member \<Rightarrow> bool" where
  "wf_member m \<longleftrightarrow> length (mb_id m) = 32 \<and> length (mb_hint m) \<le> MAX_HINT_BYTES \<and> utf8_valid (mb_hint m)"

definition wf_descriptor :: "gext \<Rightarrow> descriptor \<Rightarrow> bool" where
  "wf_descriptor G d \<longleftrightarrow>
     length (gid d) = 16 \<and> length (prev_hash d) = 32 \<and> length (signer d) = 32 \<and> length (sig d) = 64 \<and>
     epoch d \<noteq> 0 \<and> utf8_valid (ds_name d) \<and> (\<forall>m\<in>set (members d). wf_member m) \<and>
     check_shape G d = Inr ()"

lemma from_code_iff: "from_code c = Some r \<longleftrightarrow> c = role_code r"
  by (cases r) (auto simp: from_code_def)

lemma from_role_code [simp]: "from_code (role_code r) = Some r"
  by (simp add: from_code_iff)

lemma unat_short: "n < 256 \<Longrightarrow> unat (word_of_nat n :: u8) = n"
  by (simp add: unat_byte_of_nat)

lemma check_shape_lengths:
  "check_shape G d = Inr () \<Longrightarrow>
     ds_name d \<noteq> [] \<and> length (ds_name d) \<le> MAX_NAME_BYTES \<and> members d \<noteq> [] \<and> length (members d) \<le> MAX_MEMBERS"
  by (auto simp: check_shape_def split: if_splits)

lemma decode_members_Suc:
  "decode_members (Suc n) s = Inr (ms, s') \<longleftrightarrow>
     (\<exists>m ms' t. ms = m # ms' \<and> wf_member m \<and> s = encode_member m @ t \<and> decode_members n t = Inr (ms', s'))"
proof
  assume "decode_members (Suc n) s = Inr (ms, s')"
  then show "\<exists>m ms' t. ms = m # ms' \<and> wf_member m \<and> s = encode_member m @ t \<and> decode_members n t = Inr (ms', s')"
    by (auto simp: Inr_iffs rd_iffs from_code_iff wf_member_def encode_member_def)
next
  assume "\<exists>m ms' t. ms = m # ms' \<and> wf_member m \<and> s = encode_member m @ t \<and> decode_members n t = Inr (ms', s')"
  then show "decode_members (Suc n) s = Inr (ms, s')"
    by (auto simp: wf_member_def encode_member_def MAX_HINT_BYTES_def unat_short)
qed

lemma decode_members_iff:
  "decode_members n s = Inr (ms, s') \<longleftrightarrow>
     length ms = n \<and> (\<forall>m\<in>set ms. wf_member m) \<and> s = concat (map encode_member ms) @ s'"
proof (induction n arbitrary: s ms)
  case (Suc n)
  show ?case unfolding decode_members_Suc Suc by (cases ms) auto
qed auto

lemma descriptor_eta:
  "\<lparr>gid = gid d, epoch = epoch d, ds_name = ds_name d, created_ms = created_ms d, prev_hash = prev_hash d,
    members = members d, signer = signer d, sig = sig d\<rparr> = d"
  by simp

lemma decode_descriptor_iff:
  "decode_descriptor G b = Inr d \<longleftrightarrow> wf_descriptor G d \<and> encode_descriptor d = b"
proof
  assume "decode_descriptor G b = Inr d"
  then show "wf_descriptor G d \<and> encode_descriptor d = b"
    by (clarsimp simp: decode_descriptor_def Let_def Inr_iffs rd_iffs decode_members_iff rd_done_def
        wf_descriptor_def encode_descriptor_def signed_part_def)
next
  assume *: "wf_descriptor G d \<and> encode_descriptor d = b"
  then have len: "ds_name d \<noteq> []" "length (ds_name d) \<le> 192" "members d \<noteq> []" "length (members d) \<le> 32"
    using check_shape_lengths [of G d] by (auto simp: wf_descriptor_def MAX_NAME_BYTES_def MAX_MEMBERS_def)
  define nl :: u16 where "nl = word_of_nat (length (ds_name d))"
  define n :: u8 where "n = word_of_nat (length (members d))"
  have nl: "length (ds_name d) = unat nl" using len(2) by (simp add: nl_def unat_of_nat)
  have n: "length (members d) = unat n" using len(4) by (simp add: n_def unat_of_nat)
  have ms: "decode_members (unat n) (concat (map encode_member (members d)) @ t) = Inr (members d, t)" for t
    using * by (simp add: decode_members_iff wf_descriptor_def n)
  have nz: "nl \<noteq> 0" "n \<noteq> 0" using nl n len(1,3) by auto
  have "b = DESCRIPTOR_VERSION # gid d @ be_bytes 4 (unat (epoch d)) @ be_bytes 8 (unat (created_ms d)) @ prev_hash d @
    be_bytes 2 (unat nl) @ ds_name d @ n # concat (map encode_member (members d)) @ signer d @ sig d"
    using * by (simp add: encode_descriptor_def signed_part_def nl_def n_def)
  then show "decode_descriptor G b = Inr d"
    using * len nz by (simp add: descriptor_eta Let_def decode_descriptor_def nl n ms wf_descriptor_def rd_done_def MAX_NAME_BYTES_def MAX_MEMBERS_def)
qed

interpretation descriptor: codec encode_descriptor "decode_descriptor G" "wf_descriptor G" for G
  by unfold_locales (auto simp: decode_descriptor_iff)

section \<open>Chains stay linked and authorised\<close>

definition sound :: "gext \<Rightarrow> descriptor \<Rightarrow> bool" where
  "sound G d \<longleftrightarrow> check_shape G d = Inr () \<and> verify_signature G d = Inr ()"

text \<open>\<open>b\<close> is an authorised change of \<open>a\<close>.\<close>

definition link :: "gext \<Rightarrow> descriptor \<Rightarrow> descriptor \<Rightarrow> bool" where
  "link G a b \<longleftrightarrow>
     gid b = gid a \<and> created_ms b = created_ms a \<and> unat (epoch b) = unat (epoch a) + 1 \<and>
     prev_hash b = desc_hash G a \<and> (is_admin a (signer b) \<or> is_leave_of a b (signer b))"

definition chain_ok :: "gext \<Rightarrow> chain \<Rightarrow> bool" where
  "chain_ok G c \<longleftrightarrow>
     c \<noteq> [] \<and> length c \<le> MAX_CHAIN \<and> (\<forall>d\<in>set c. sound G d) \<and> successively (link G) c"

lemma admissible_Inr:
  "admissible G a d = Inr () \<longleftrightarrow> sound G d \<and> may_be_followed_by G a d = Inr ()"
  by (auto simp: admissible_def sound_def split: sum.splits)

lemma followed_link:
  "epoch a < epoch d \<Longrightarrow> may_be_followed_by G a d = Inr () \<longleftrightarrow> link G a d"
  using unat_le_max [of "epoch d"]
  by (auto simp: may_be_followed_by_def link_def word_unat_eq_iff word_less_nat_alt unat_saturating_add min_def
      split: if_splits)

lemma link_less: "link G a b \<Longrightarrow> epoch a < epoch b"
  by (simp add: link_def word_less_nat_alt)

text \<open>What a chain becomes when \<open>d\<close> extends it.\<close>

definition extend :: "chain \<Rightarrow> descriptor \<Rightarrow> chain" where
  "extend c d = (if MAX_CHAIN < Suc (length c) then tl c @ [d] else c @ [d])"

lemma extend_split:
  assumes "c \<noteq> []"
  obtains p where "\<And>d. extend c d = p @ [last c, d]"
proof (cases "MAX_CHAIN < Suc (length c)")
  case True
  then have "tl c \<noteq> []" by (cases c) (auto simp: MAX_CHAIN_def)
  then have "tl c = butlast (tl c) @ [last c]" by (metis append_butlast_last_id last_tl)
  then show ?thesis using that [of "butlast (tl c)"] True by (simp add: extend_def)
next
  case False
  then show ?thesis using that [of "butlast c"] assms by (simp add: extend_def)
qed

text \<open>The three things a push can do.\<close>

lemma push_older:
  assumes "epoch d \<le> epoch z"
  shows "push_descriptor G (p @ [a, z]) d = (p @ [a, d], Inr Replaced) \<and> sound G d \<and>
      may_be_followed_by G a d = Inr () \<and> epoch d = epoch z \<and> lex_less (desc_hash G d) (desc_hash G z) \<or>
    fst (push_descriptor G (p @ [a, z]) d) = p @ [a, z] \<and>
      snd (push_descriptor G (p @ [a, z]) d) \<notin> {Inr Advanced, Inr Replaced}"
  using assms by (auto simp: push_descriptor_def latest_def nth_append list_update_append admissible_Inr
      split: sum.splits)

lemma push_root:
  assumes "epoch d \<le> epoch z"
  shows "fst (push_descriptor G [z] d) = [z] \<and> snd (push_descriptor G [z] d) \<notin> {Inr Advanced, Inr Replaced}"
  using assms by (auto simp: push_descriptor_def latest_def)

lemma push_newer:
  assumes "epoch (last c) < epoch d" and "c \<noteq> []"
  shows "push_descriptor G c d = (extend c d, Inr Advanced) \<and> sound G d \<and> link G (last c) d \<or>
    fst (push_descriptor G c d) = c \<and> snd (push_descriptor G c d) \<notin> {Inr Advanced, Inr Replaced}"
  using assms by (auto simp: push_descriptor_def latest_def extend_def Let_def admissible_Inr followed_link
      split: sum.splits)

lemma push_cases:
  assumes "c \<noteq> []"
  obtains (Idle) "fst (push_descriptor G c d) = c" "snd (push_descriptor G c d) \<notin> {Inr Advanced, Inr Replaced}"
  | (Advance) "push_descriptor G c d = (extend c d, Inr Advanced)" "sound G d" "link G (last c) d"
  | (Replace) p a z where "c = p @ [a, z]" "push_descriptor G c d = (p @ [a, d], Inr Replaced)" "sound G d"
      "may_be_followed_by G a d = Inr ()" "epoch d = epoch z" "lex_less (desc_hash G d) (desc_hash G z)"
proof (cases "epoch (last c) < epoch d")
  case True
  then show ?thesis using push_newer [of c d G] assms Idle Advance by blast
next
  case False
  show ?thesis
  proof (cases c rule: rev_cases)
    case (snoc c' z)
    then show ?thesis
    proof (cases c' rule: rev_cases)
      case Nil
      then show ?thesis using push_root [of d z G] False snoc Idle by (auto simp: not_less)
    next
      case (snoc p a)
      then show ?thesis using push_older [of d z G p a] False \<open>c = c' @ [z]\<close> Idle Replace [of p a z] by (auto simp: not_less)
    qed
  qed (use assms in simp)
qed

lemma chain_ok_extend:
  assumes "chain_ok G c" and "sound G d" and "link G (last c) d"
  shows "chain_ok G (extend c d)"
proof -
  have ne: "c \<noteq> []" using assms(1) by (simp add: chain_ok_def)
  have "successively (link G) (c @ [d])"
    using assms ne by (simp add: chain_ok_def successively_append_iff)
  then have "successively (link G) (tl c @ [d])"
    using ne by (cases c) (auto simp: successively_Cons)
  then show ?thesis
    using assms ne \<open>successively (link G) (c @ [d])\<close>
    by (auto simp: chain_ok_def extend_def MAX_CHAIN_def dest: list.set_sel(2))
qed

lemma chain_ok_replace:
  assumes "chain_ok G (p @ [a, z])" and "sound G d" and "may_be_followed_by G a d = Inr ()" and "epoch d = epoch z"
  shows "chain_ok G (p @ [a, d])"
proof -
  have "link G a z" using assms(1) by (simp add: chain_ok_def successively_append_iff)
  then have "epoch a < epoch d" using assms(4) link_less by simp
  then have "link G a d" using assms(3) followed_link by simp
  then show ?thesis using assms(1,2) by (auto simp: chain_ok_def successively_append_iff)
qed

lemma push_chain_ok:
  assumes "chain_ok G c"
  shows "chain_ok G (fst (push_descriptor G c d))"
proof -
  have "c \<noteq> []" using assms by (simp add: chain_ok_def)
  then show ?thesis
    by (cases rule: push_cases [of c G d]) (use assms chain_ok_extend chain_ok_replace in auto)
qed

interpretation chain: machine "\<lambda>c d. fst (push_descriptor G c d)" "chain_ok G" for G
  by unfold_locales (rule push_chain_ok)

section \<open>What a run of pushes keeps\<close>

lemma last_extend [simp]: "last (extend c d) = d"
  by (simp add: extend_def)

lemma set_extend: "set (extend c d) \<subseteq> insert d (set c)"
  by (cases c) (auto simp: extend_def)

lemma push_monotone:
  assumes "chain_ok G c"
  shows "gid (latest (fst (push_descriptor G c d))) = gid (latest c)"
    and "created_ms (latest (fst (push_descriptor G c d))) = created_ms (latest c)"
    and "epoch (latest c) \<le> epoch (latest (fst (push_descriptor G c d)))"
proof -
  have "c \<noteq> []" using assms by (simp add: chain_ok_def)
  then have "gid (latest (fst (push_descriptor G c d))) = gid (latest c) \<and>
    created_ms (latest (fst (push_descriptor G c d))) = created_ms (latest c) \<and>
    epoch (latest c) \<le> epoch (latest (fst (push_descriptor G c d)))"
  proof (cases rule: push_cases [of c G d])
    case (Replace p a z)
    then have "link G a z" "link G a d"
      using assms chain_ok_replace [of G p a z d] by (auto simp: chain_ok_def successively_append_iff)
    then show ?thesis using Replace by (simp add: latest_def link_def)
  qed (auto simp: latest_def link_def word_le_nat_alt)
  then show "gid (latest (fst (push_descriptor G c d))) = gid (latest c)"
    and "created_ms (latest (fst (push_descriptor G c d))) = created_ms (latest c)"
    and "epoch (latest c) \<le> epoch (latest (fst (push_descriptor G c d)))"
    by auto
qed

definition pushes :: "gext \<Rightarrow> chain \<Rightarrow> descriptor list \<Rightarrow> chain" where
  "pushes G c ds = foldl (\<lambda>c d. fst (push_descriptor G c d)) c ds"

lemma pushes_simps [simp]:
  "pushes G c [] = c"
  "pushes G c (d # ds) = pushes G (fst (push_descriptor G c d)) ds"
  "pushes G c (ds @ es) = pushes G (pushes G c ds) es"
  by (simp_all add: pushes_def)

lemma pushes_ok: "chain_ok G c \<Longrightarrow> chain_ok G (pushes G c ds)"
  unfolding pushes_def by (rule chain.inv_run)

lemma pushes_monotone:
  "chain_ok G c \<Longrightarrow>
     gid (latest (pushes G c ds)) = gid (latest c) \<and> created_ms (latest (pushes G c ds)) = created_ms (latest c) \<and>
     epoch (latest c) \<le> epoch (latest (pushes G c ds))"
proof (induction ds arbitrary: c)
  case (Cons d ds)
  show ?case
    using Cons.IH [OF push_chain_ok [OF Cons.prems, of d]] push_monotone [OF Cons.prems, of d] by auto
qed simp

lemma from_root_ok: "from_root G d = Inr c \<Longrightarrow> c = [d] \<and> chain_ok G c"
  by (auto simp: from_root_def chain_ok_def sound_def MAX_CHAIN_def Inr_iffs)

lemma push_loop_pushes:
  "\<exists>es. fst (push_loop G c ds) = pushes G c es \<and> set es \<subseteq> set ds"
proof (induction ds arbitrary: c)
  case (Cons d ds)
  obtain es where es: "fst (push_loop G (fst (push_descriptor G c d)) ds) = pushes G (fst (push_descriptor G c d)) es"
    "set es \<subseteq> set ds" using Cons by blast
  show ?case
  proof (cases "snd (push_descriptor G c d)")
    case (Inl err)
    then show ?thesis by (intro exI [of _ "[d]"]) (auto split: prod.splits)
  next
    case (Inr r)
    then show ?thesis using es by (intro exI [of _ "d # es"]) (auto split: prod.splits)
  qed
qed (auto intro: exI [of _ "[]"])

lemma from_items_ok: "from_items G ds = Inr c \<Longrightarrow> chain_ok G c"
proof -
  assume *: "from_items G ds = Inr c"
  then obtain d es where ds: "ds = d # es" by (cases ds) (auto simp: from_items_def)
  then obtain r where r: "from_root G d = Inr r" "c = fst (push_loop G r es)"
    using * by (auto simp: from_items_def split: sum.splits prod.splits)
  then show ?thesis using from_root_ok push_loop_pushes [of G r es] pushes_ok by metis
qed

text \<open>
  C29: From whatever root or stored list a chain is started, and whatever descriptors arrive afterwards in
  whatever order, the chain stays non-empty with at most eight items, every item has a valid shape and
  signature, every item names the hash and the next epoch of the one before it and was signed by an admin of
  the one before or is the departure of the signer, and the group and its creation time never change while the
  epoch never falls.
\<close>

theorem chain_stays_authorised:
  assumes "from_items G items = Inr c"
  shows "chain_ok G (pushes G c ds) \<and> gid (latest (pushes G c ds)) = gid (latest c) \<and>
    created_ms (latest (pushes G c ds)) = created_ms (latest c) \<and> epoch (latest c) \<le> epoch (latest (pushes G c ds))"
  using pushes_ok pushes_monotone from_items_ok [OF assms] by blast

section \<open>No member without an admin\<close>

definition ever_admin :: "chain \<Rightarrow> bytes \<Rightarrow> bool" where
  "ever_admin c i \<longleftrightarrow> (\<exists>d\<in>set c. \<exists>m\<in>set (members d). mb_id m = i \<and> mb_role m = Admin)"

definition all_members :: "chain \<Rightarrow> member set" where
  "all_members c = (\<Union>d\<in>set c. set (members d))"

lemma is_admin_ever: "is_admin d i \<Longrightarrow> d \<in> set c \<Longrightarrow> ever_admin c i"
  by (force simp: is_admin_def find_member_def ever_admin_def find_Some_iff split: option.splits)

lemma leave_members: "is_leave_of a d who \<Longrightarrow> set (members d) \<subseteq> set (members a)"
  by (auto simp: is_leave_of_def Let_def list_all2_eq [symmetric] dest: sym)

lemma push_no_new_member:
  assumes "chain_ok G c" and "\<not> ever_admin c (signer d)"
  shows "all_members (fst (push_descriptor G c d)) \<subseteq> all_members c"
proof -
  have "c \<noteq> []" using assms by (simp add: chain_ok_def)
  then show ?thesis
  proof (cases rule: push_cases [of c G d])
    case Advance
    then have "set (members d) \<subseteq> set (members (last c))"
      using assms(2) \<open>c \<noteq> []\<close> is_admin_ever [of "last c" "signer d" c] leave_members [of "last c" d "signer d"]
      by (auto simp: link_def)
    then have "set (members d) \<subseteq> all_members c" using \<open>c \<noteq> []\<close> by (auto simp: all_members_def intro!: bexI [of _ "last c"])
    then show ?thesis using Advance set_extend [of c d] by (fastforce simp: all_members_def)
  next
    case (Replace p a z)
    then have "set (members d) \<subseteq> set (members a)"
      using assms(2) is_admin_ever [of a "signer d" c] leave_members
      by (auto simp: may_be_followed_by_def split: if_splits)
    then show ?thesis using Replace by (auto simp: all_members_def)
  qed auto
qed

lemma pushes_no_new_member:
  "chain_ok G c \<Longrightarrow> \<forall>d\<in>set ds. \<not> ever_admin c (signer d) \<Longrightarrow> all_members (pushes G c ds) \<subseteq> all_members c"
proof (induction ds arbitrary: c)
  case (Cons d ds)
  let ?c = "fst (push_descriptor G c d)"
  have sub: "all_members ?c \<subseteq> all_members c" using push_no_new_member Cons.prems by simp
  have "\<forall>e\<in>set ds. \<not> ever_admin ?c (signer e)"
    using Cons.prems(2) sub unfolding ever_admin_def all_members_def by fastforce
  then show ?case using Cons.IH [OF push_chain_ok [OF Cons.prems(1), of d]] sub by simp
qed simp

text \<open>Nobody joins by descriptors that no admin of a held descriptor signed.\<close>

lemma no_member_without_admin:
  assumes "from_items G items = Inr c" and "\<forall>d\<in>set ds. \<not> ever_admin c (signer d)"
  shows "all_members (pushes G c ds) \<subseteq> all_members c"
  using pushes_no_new_member [OF from_items_ok [OF assms(1)] assms(2)] .

lemma left_members: "is_leave_of a d who \<Longrightarrow> members d = filter (\<lambda>m. mb_id m \<noteq> who) (members a)"
  by (simp add: is_leave_of_def Let_def list_all2_eq [symmetric])

text \<open>
  C30: without an admin only leaving is possible. When a descriptor whose signer is no admin of the newest held descriptor
  nor of the one before it changes the chain, its signer was a member of the descriptor it follows, and the new member list
  is the list of that descriptor, in order and with roles and labels, without exactly the signer; the name of the group stays.
  It follows the newest descriptor, or it takes the place of the newest one and follows the one before it.
\<close>

theorem without_admin_only_leaving:
  assumes "from_items G items = Inr c" and "\<not> is_admin (latest c) (signer d)" and "\<not> is_admin (c ! (length c - 2)) (signer d)"
    and "push_descriptor G c d = (c', r)" and "c' \<noteq> c"
  shows "\<exists>base. (r = Inr Advanced \<and> base = latest c \<or> r = Inr Replaced \<and> base = c ! (length c - 2)) \<and> latest c' = d \<and>
    is_member base (signer d) \<and> ds_name d = ds_name base \<and> members d = filter (\<lambda>m. mb_id m \<noteq> signer d) (members base)"
proof -
  have c: "c \<noteq> []" using from_items_ok [OF assms(1)] by (simp add: chain_ok_def)
  have leave: "is_member a (signer d) \<and> ds_name d = ds_name a \<and> members d = filter (\<lambda>m. mb_id m \<noteq> signer d) (members a)"
    if "admissible G a d = Inr ()" "\<not> is_admin a (signer d)" for a
    using that left_members [of a d "signer d"] by (auto simp: admissible_Inr may_be_followed_by_def is_leave_of_def split: if_splits)
  show ?thesis
  proof (cases "epoch d \<le> epoch (latest c)")
    case True
    then have "admissible G (c ! (length c - 2)) d = Inr ()" "r = Inr Replaced" "c' = c[length c - 1 := d]"
      using assms(4,5) by (auto simp: push_descriptor_def split: if_splits sum.splits)
    then show ?thesis using leave assms(3) c by (simp add: latest_def last_list_update)
  next
    case False
    then have "admissible G (latest c) d = Inr ()" "r = Inr Advanced" "latest c' = d"
      using assms(4,5) c by (auto simp: push_descriptor_def latest_def Let_def last_tl split: if_splits sum.splits)
    then show ?thesis using leave assms(2) by blast
  qed
qed

section \<open>Competing changes\<close>

lemma push_advanced:
  assumes "c \<noteq> []" and "snd (push_descriptor G c d) = Inr Advanced"
  shows "push_descriptor G c d = (extend c d, Inr Advanced)" and "sound G d" and "link G (last c) d"
  using assms(1) by (cases rule: push_cases [of c G d]; use assms(2) in simp)+

lemma followed_Inr: "link G a d \<Longrightarrow> may_be_followed_by G a d = Inr ()"
  using followed_link link_less by blast

lemma push_tie:
  assumes c: "c \<noteq> []" and d: "link G (last c) d" and e: "sound G e" "link G (last c) e"
  shows "push_descriptor G (extend c d) e =
    (if lex_less (desc_hash G e) (desc_hash G d) then (extend c e, Inr Replaced) else (extend c d, Inr Known))"
proof -
  obtain p where p: "\<And>d. extend c d = p @ [last c, d]" using extend_split [OF c] by blast
  have "epoch e = epoch d" using d e(2) by (simp add: link_def word_unat_eq_iff)
  moreover have "admissible G (last c) e = Inr ()" using e followed_Inr by (simp add: admissible_Inr)
  moreover have "epoch d \<le> saturating_add (epoch d) 1" by (rule saturating_add_ge)
  ultimately show ?thesis
    using d e(2) lex_less_irrefl [of "desc_hash G d"]
    by (auto simp: p push_descriptor_def latest_def nth_append list_update_append link_def)
qed

definition competing :: "gext \<Rightarrow> chain \<Rightarrow> descriptor \<Rightarrow> bool" where
  "competing G c d \<longleftrightarrow> snd (push_descriptor G c d) = Inr Advanced"

lemma settle:
  assumes "c \<noteq> []"
  shows "\<forall>e\<in>insert d (set es). competing G c e \<Longrightarrow>
    \<exists>b\<in>insert d (set es). pushes G (extend c d) es = extend c b \<and>
      (\<forall>e\<in>insert d (set es). \<not> lex_less (desc_hash G e) (desc_hash G b))"
proof (induction es arbitrary: d)
  case Nil
  then show ?case using lex_less_irrefl by simp
next
  case (Cons e es)
  define w where "w = (if lex_less (desc_hash G e) (desc_hash G d) then e else d)"
  have "fst (push_descriptor G (extend c d) e) = extend c w"
    using push_tie [OF assms] push_advanced [OF assms] Cons.prems by (simp add: competing_def w_def)
  moreover obtain b where "b \<in> insert w (set es)" "pushes G (extend c w) es = extend c b"
    and least: "\<forall>e\<in>insert w (set es). \<not> lex_less (desc_hash G e) (desc_hash G b)"
    using Cons.IH [of w] Cons.prems by (auto simp: w_def)
  moreover have "\<not> lex_less (desc_hash G x) (desc_hash G b)" if "x \<in> {d, e}" for x
    using that lex_least [of "desc_hash G w" "desc_hash G b" "desc_hash G x"] least
    by (auto simp: w_def lex_less_irrefl split: if_splits dest: lex_less_asym)
  ultimately show ?case by (intro bexI [of _ b]) (auto simp: w_def split: if_splits)
qed

lemma pushes_settle:
  assumes "c \<noteq> []" and "ds \<noteq> []" and "\<forall>d\<in>set ds. competing G c d"
  obtains b where "b \<in> set ds" "pushes G c ds = extend c b"
    "\<forall>e\<in>set ds. \<not> lex_less (desc_hash G e) (desc_hash G b)"
proof -
  obtain d es where ds: "ds = d # es" using assms(2) by (cases ds) auto
  then have "fst (push_descriptor G c d) = extend c d"
    using push_advanced(1) [OF assms(1), of G d] assms(3) by (simp add: competing_def)
  then show ?thesis using settle [OF assms(1), of d es G] assms(3) that ds by auto
qed

text \<open>
  C31: Members that hold the same chain and receive the same competing changes of its newest descriptor, in
  whatever order and however often, end with the same chain, whose newest descriptor is the one with the
  smallest hash (for a hash that does not collide on them).
\<close>

theorem competing_changes_converge:
  assumes "from_items G items = Inr c" and "ds \<noteq> []" and "set ds = set es"
    and "\<forall>d\<in>set ds. snd (push_descriptor G c d) = Inr Advanced" and "inj_on (desc_hash G) (set ds)"
  shows "pushes G c ds = pushes G c es \<and>
    list_all (\<lambda>d. \<not> lex_less (desc_hash G d) (desc_hash G (latest (pushes G c ds)))) ds"
proof -
  have c: "c \<noteq> []" using from_items_ok [OF assms(1)] by (simp add: chain_ok_def)
  obtain a where a: "a \<in> set ds" "pushes G c ds = extend c a"
    "\<forall>e\<in>set ds. \<not> lex_less (desc_hash G e) (desc_hash G a)"
    using pushes_settle [OF c assms(2)] assms(4) by (auto simp: competing_def)
  have "es \<noteq> []" using assms(2,3) by auto
  then obtain b where b: "b \<in> set ds" "pushes G c es = extend c b"
    "\<forall>e\<in>set ds. \<not> lex_less (desc_hash G e) (desc_hash G b)"
    using pushes_settle [OF c, of es G] assms(3,4) by (auto simp: competing_def)
  have "desc_hash G a = desc_hash G b" using a b lex_less_linear by blast
  then have "a = b" using assms(5) a(1) b(1) by (simp add: inj_on_def)
  then show ?thesis using a b by (simp add: latest_def list_all_iff)
qed

text \<open>
  C32: The tie is only broken while the two competing changes are the newest ones. A member that has already
  applied a successor \<open>e\<close> of the losing change \<open>d1\<close> ignores the winner \<open>d2\<close>, while a member that applied the
  winner first rejects \<open>e\<close>: the same three valid descriptors in another order leave two different groups.
\<close>

theorem late_tie_forks:
  assumes "from_items G items = Inr c"
    and "snd (push_descriptor G c d1) = Inr Advanced" and "snd (push_descriptor G c d2) = Inr Advanced"
    and "lex_less (desc_hash G d2) (desc_hash G d1)"
    and "snd (push_descriptor G (pushes G c [d1]) e) = Inr Advanced"
  shows "latest (pushes G c [d1, e, d2]) = e \<and> latest (pushes G c [d1, d2, e]) = d2 \<and>
    snd (push_descriptor G (pushes G c [d1, d2]) e) = Inl BadChain"
proof -
  have c: "c \<noteq> []" using from_items_ok [OF assms(1)] by (simp add: chain_ok_def)
  note d1 = push_advanced [OF c assms(2)] and d2 = push_advanced [OF c assms(3)]
  have ne: "\<And>d. extend c d \<noteq> []" by (simp add: extend_def)
  have e: "push_descriptor G (extend c d1) e = (extend (extend c d1) e, Inr Advanced)" "sound G e" "link G d1 e"
    using push_advanced [OF ne, of G d1 e] assms(5) d1(1) by simp_all
  have ep: "epoch d1 = epoch d2" "gid d1 = gid d2" "created_ms d1 = created_ms d2"
    using d1(3) d2(3) by (simp_all add: link_def word_unat_eq_iff)
  have "fst (push_descriptor G (extend (extend c d1) e) d2) = extend (extend c d1) e"
    using link_less [OF e(3)] ep by (auto simp: push_descriptor_def latest_def)
  moreover have "fst (push_descriptor G (extend c d1) d2) = extend c d2"
    using push_tie [OF c d1(3) d2(2,3)] assms(4) by simp
  moreover have "push_descriptor G (extend c d2) e = (extend c d2, Inl BadChain)"
  proof -
    have "desc_hash G d1 \<noteq> desc_hash G d2" using assms(4) lex_less_irrefl by metis
    then have "admissible G d2 e = Inl BadChain"
      using e(2,3) ep by (auto simp: admissible_def sound_def may_be_followed_by_def link_def)
    moreover have "epoch e = saturating_add (epoch d2) 1"
      using followed_Inr [OF e(3)] ep by (auto simp: may_be_followed_by_def split: if_splits)
    ultimately show ?thesis
      using link_less [OF e(3)] e(3) ep by (auto simp: push_descriptor_def latest_def link_def)
  qed
  ultimately show ?thesis using d1(1) e(1) by (simp add: latest_def)
qed

text \<open>
  C33: a member who leaves undoes a removal. Let an admin sign a change that takes a member \<open>v\<close> out, and let another member
  who is no admin sign its own leaving of the same descriptor, with the smaller hash. A chain that applied the removal
  replaces it by the leaving, and \<open>v\<close> is a member again; in the other order the removal is not applied at all. The rule that
  the smaller hash wins is meant for two admins.
\<close>

theorem leave_undoes_removal:
  assumes "from_items G items = Inr c"
    and "snd (push_descriptor G c d) = Inr Advanced" and "is_admin (latest c) (signer d)" and "v \<in> set (members (latest c))" and "v \<notin> set (members d)"
    and "snd (push_descriptor G c e) = Inr Advanced" and "\<not> is_admin (latest c) (signer e)" and "mb_id v \<noteq> signer e"
    and "lex_less (desc_hash G e) (desc_hash G d)"
  shows "v \<notin> set (members (latest (pushes G c [d]))) \<and> snd (push_descriptor G (pushes G c [d]) e) = Inr Replaced \<and>
    v \<in> set (members (latest (pushes G c [d, e]))) \<and> pushes G c [e, d] = pushes G c [d, e]"
proof -
  have c: "c \<noteq> []" using from_items_ok [OF assms(1)] by (simp add: chain_ok_def)
  note d = push_advanced [OF c assms(2)] and e = push_advanced [OF c assms(6)]
  have "is_leave_of (last c) e (signer e)" using e(3) assms(7) by (auto simp: link_def latest_def)
  then have "v \<in> set (members e)" using assms(4,8) by (simp add: left_members latest_def)
  moreover have "\<not> lex_less (desc_hash G d) (desc_hash G e)" using assms(9) lex_less_asym by blast
  ultimately show ?thesis
    using push_tie [OF c d(3) e(2,3)] push_tie [OF c e(3) d(2,3)] assms(5,9) d(1) e(1) by (simp add: latest_def)
qed

section \<open>Examples\<close>

text \<open>
  A hash that keeps one byte (the number of members) and a signature that is the key followed by the digest; two admins and three
  changes of their group.
\<close>

definition demo_gext :: gext where
  "demo_gext =
     \<lparr>valid_key = (\<lambda>_. True), verifying_key = (\<lambda>k. k), ed_sign = (\<lambda>k d. k @ d),
      derive_hash = (\<lambda>_ b. replicate 31 0 @ [b ! 64]), verify_strict = (\<lambda>k d s. s = k @ d)\<rparr>"

definition demo_key :: "u8 \<Rightarrow> bytes" where
  "demo_key n = replicate 32 n"

definition demo_member :: "group_role \<Rightarrow> u8 \<Rightarrow> member" where
  "demo_member r n = \<lparr>mb_id = demo_key n, mb_role = r, mb_hint = []\<rparr>"

definition demo_desc :: "u8 \<Rightarrow> u32 \<Rightarrow> bytes \<Rightarrow> member list \<Rightarrow> descriptor" where
  "demo_desc k ep p ms =
     signed demo_gext (demo_key k)
       \<lparr>gid = replicate 16 9, epoch = ep, ds_name = [77], created_ms = 5, prev_hash = p,
        members = demo_member Admin 1 # demo_member Admin 2 # ms, signer = [], sig = []\<rparr>"

definition demo_root :: descriptor where
  "demo_root = demo_desc 1 1 (replicate 32 0) [demo_member Member 3]"

definition demo_a :: descriptor where
  "demo_a = demo_desc 1 2 (desc_hash demo_gext demo_root) []"

definition demo_b :: descriptor where
  "demo_b = demo_desc 2 2 (desc_hash demo_gext demo_root) [demo_member Member 3, demo_member Member 4]"

definition demo_c :: descriptor where
  "demo_c = demo_desc 1 3 (desc_hash demo_gext demo_b) []"

lemma push_link:
  assumes "c \<noteq> []" and "sound G d" and "link G (last c) d"
  shows "push_descriptor G c d = (extend c d, Inr Advanced)"
proof -
  have f: "may_be_followed_by G (last c) d = Inr ()" using followed_Inr assms(3) .
  then have "\<not> saturating_add (epoch (last c)) 1 < epoch d" "gid d = gid (last c)"
    by (auto simp: may_be_followed_by_def split: if_splits)
  moreover have "admissible G (last c) d = Inr ()" using assms(2) f by (simp add: admissible_Inr)
  moreover have "\<not> epoch d \<le> epoch (last c)" using link_less [OF assms(3)] by simp
  ultimately show ?thesis using assms(1) by (simp add: push_descriptor_def latest_def extend_def Let_def)
qed

lemma demo_hashes:
  "desc_hash demo_gext demo_root = replicate 31 0 @ [3]"
  "desc_hash demo_gext demo_a = replicate 31 0 @ [2]"
  "desc_hash demo_gext demo_b = replicate 31 0 @ [4]"
  by code_simp+

lemma demo_root_ok: "from_items demo_gext [demo_root] = Inr [demo_root]"
  by code_simp

lemma demo_sound: "sound demo_gext demo_a" "sound demo_gext demo_b" "sound demo_gext demo_c"
  by code_simp+

lemma demo_admins: "is_admin demo_root (demo_key 1)" "is_admin demo_root (demo_key 2)" "is_admin demo_b (demo_key 1)"
  by code_simp+

lemma demo_links:
  "link demo_gext demo_root demo_a" "link demo_gext demo_root demo_b" "link demo_gext demo_b demo_c"
  using demo_admins
  by (simp_all add: link_def demo_root_def demo_a_def demo_b_def demo_c_def demo_desc_def signed_def Let_def
      demo_gext_def)

lemmas demo_pushes =
  push_link [OF _ demo_sound(1), of "[demo_root]", simplified, OF demo_links(1)]
  push_link [OF _ demo_sound(2), of "[demo_root]", simplified, OF demo_links(2)]
  push_link [OF _ demo_sound(3), of "[demo_root, demo_b]", simplified, OF demo_links(3)]


theorem chain_stays_authorised_witness:
  "chain_ok demo_gext (pushes demo_gext [demo_root] [demo_b, demo_c]) \<and>
    gid (latest (pushes demo_gext [demo_root] [demo_b, demo_c])) = gid (latest [demo_root]) \<and>
    created_ms (latest (pushes demo_gext [demo_root] [demo_b, demo_c])) = created_ms (latest [demo_root]) \<and>
    epoch (latest [demo_root]) \<le> epoch (latest (pushes demo_gext [demo_root] [demo_b, demo_c]))"
  using chain_stays_authorised [OF demo_root_ok] .

text \<open>The member 3 leaves, while an admin takes out 4 and brings in 5.\<close>

definition demo_both :: descriptor where
  "demo_both = demo_desc 1 1 (replicate 32 0) [demo_member Member 3, demo_member Member 4]"

definition demo_removal :: descriptor where
  "demo_removal = demo_desc 2 2 (desc_hash demo_gext demo_both) [demo_member Member 3, demo_member Member 5]"

definition demo_leave :: descriptor where
  "demo_leave = demo_desc 3 2 (desc_hash demo_gext demo_both) [demo_member Member 4]"

lemma demo_both_ok: "from_items demo_gext [demo_both] = Inr [demo_both]"
  by code_simp

lemma demo_change_sound: "sound demo_gext demo_removal" "sound demo_gext demo_leave"
  by code_simp+

lemma demo_change_by: "is_admin demo_both (demo_key 2)" "is_leave_of demo_both demo_leave (demo_key 3)"
  by code_simp+

lemma demo_change_links: "link demo_gext demo_both demo_removal" "link demo_gext demo_both demo_leave"
  using demo_change_by
  by (simp_all add: link_def demo_both_def demo_removal_def demo_leave_def demo_desc_def signed_def Let_def demo_gext_def)

lemma demo_change_ok:
  "snd (push_descriptor demo_gext [demo_both] demo_removal) = Inr Advanced" "snd (push_descriptor demo_gext [demo_both] demo_leave) = Inr Advanced"
  using push_link [OF _ demo_change_sound(1), of "[demo_both]"] push_link [OF _ demo_change_sound(2), of "[demo_both]"] demo_change_links by simp_all

lemma demo_change_facts:
  "is_admin demo_both (signer demo_removal)" "\<not> is_admin demo_both (signer demo_leave)" "mb_id (demo_member Member 4) \<noteq> signer demo_leave"
  "lex_less (desc_hash demo_gext demo_leave) (desc_hash demo_gext demo_removal)"
  "demo_member Member 4 \<in> set (members demo_both)" "demo_member Member 4 \<notin> set (members demo_removal)"
  by code_simp+

theorem without_admin_only_leaving_witness:
  "latest (fst (push_descriptor demo_gext [demo_both] demo_leave)) = demo_leave \<and>
   members demo_leave = filter (\<lambda>m. mb_id m \<noteq> signer demo_leave) (members demo_both)"
proof -
  obtain c' where c': "push_descriptor demo_gext [demo_both] demo_leave = (c', Inr Advanced)"
    using demo_change_ok(2) by (metis prod.collapse)
  have "c' = extend [demo_both] demo_leave" using push_advanced(1) [OF _ demo_change_ok(2)] c' by simp
  then have "c' \<noteq> [demo_both]" by (simp add: extend_def MAX_CHAIN_def)
  from without_admin_only_leaving [OF demo_both_ok _ _ c' this] show ?thesis
    using demo_change_facts(2) c' by (simp add: latest_def)
qed

theorem leave_undoes_removal_witness:
  "demo_member Member 4 \<notin> set (members (latest (pushes demo_gext [demo_both] [demo_removal]))) \<and>
   demo_member Member 4 \<in> set (members (latest (pushes demo_gext [demo_both] [demo_removal, demo_leave])))"
  using leave_undoes_removal [OF demo_both_ok demo_change_ok(1) _ _ demo_change_facts(6) demo_change_ok(2) _ demo_change_facts(3,4)]
    demo_change_facts(1,2,5) by (simp add: latest_def)

theorem competing_changes_converge_witness:
  "pushes demo_gext [demo_root] [demo_a, demo_b] = pushes demo_gext [demo_root] [demo_b, demo_a, demo_b] \<and>
    list_all (\<lambda>d. \<not> lex_less (desc_hash demo_gext d)
      (desc_hash demo_gext (latest (pushes demo_gext [demo_root] [demo_a, demo_b])))) [demo_a, demo_b]"
  by (rule competing_changes_converge [OF demo_root_ok]) (auto simp: demo_pushes demo_hashes inj_on_def)

theorem late_tie_forks_witness:
  "latest (pushes demo_gext [demo_root] [demo_b, demo_c, demo_a]) = demo_c \<and>
    latest (pushes demo_gext [demo_root] [demo_b, demo_a, demo_c]) = demo_a \<and>
    snd (push_descriptor demo_gext (pushes demo_gext [demo_root] [demo_b, demo_a]) demo_c) = Inl BadChain"
proof -
  have "extend [demo_root] demo_b = [demo_root, demo_b]" by (simp add: extend_def MAX_CHAIN_def)
  moreover have "lex_less (desc_hash demo_gext demo_a) (desc_hash demo_gext demo_b)"
    unfolding demo_hashes by code_simp
  ultimately show ?thesis
    by (intro late_tie_forks [OF demo_root_ok]) (simp_all add: demo_pushes)
qed

text \<open>
  The descriptor codec is exact: a byte string decodes to a descriptor precisely when the descriptor has
  fields of their widths, UTF-8 text, a positive epoch and a valid shape and the bytes are its encoding.
\<close>

theorem descriptor_codec_exact:
  "decode_descriptor G b = Inr d \<longleftrightarrow> wf_descriptor G d \<and> encode_descriptor d = b"
  by (rule descriptor.dec_iff)

end
