(* ===== verification/Erasure.thy ===== *)
theory Erasure
  imports Chunks
begin

text \<open>
  Content identifiers, Reed-Solomon coding and key sharing: \<^verbatim>\<open>crypto/hash.rs\<close>, \<^verbatim>\<open>crypto/rs.rs\<close>,
  \<^verbatim>\<open>crypto/sss.rs\<close> and \<^verbatim>\<open>crypto/aead.rs\<close> under \<^verbatim>\<open>crates/miasma-core/src\<close>. The algorithms come from
  crates outside the repository and are the fields of \<open>cext\<close>; what the code relies on is \<open>aead_ok\<close>, \<open>rs_ok\<close>,
  \<open>sss_ok\<close> and \<open>iter_ok\<close>. Random values are arguments. A \<open>usize\<close> is a \<open>nat\<close>.
\<close>

section \<open>Errors and external functions\<close>

text \<open>The messages of the errors are dropped. \<open>Panic\<close> is an index out of range, not a value of the code.\<close>

datatype miasma_error =
    Encryption | Decryption | Sss | ReedSolomon | ShareIntegrity | InvalidMid
  | InsufficientShares nat nat
  | HashMismatch | KeyDerivation | Serialization | Dht | Network | Io | Storage | WrongPassword
  | UnsupportedStreamingFormat | InvalidManifest | InvalidShareId | ShareMismatch | PasswordRequired
  | WeakPassword
  | Panic

text \<open>
  \<open>aes_seal key nonce aad text\<close> and \<open>aes_open\<close>: AES-256-GCM. \<open>hkdf salt ikm info\<close>: HKDF-SHA256 with 32 bytes of
  output. \<open>rs_recovery k r len\<close>: the recovery shards of \<open>k\<close> original ones. \<open>rs_restore k r len originals
  recoveries\<close>: the restored originals by index. \<open>iter_order\<close>: the order in which a hash map is iterated.
  \<open>sss_dealer coefficients k secret\<close>: all shares the dealer can produce. \<open>sss_share_ok\<close>: the bytes parse as a share.
\<close>

record cext =
  blake3 :: "bytes \<Rightarrow> bytes"
  blake3_derive :: "string \<Rightarrow> bytes \<Rightarrow> bytes"
  aes_seal :: "bytes \<Rightarrow> bytes \<Rightarrow> bytes \<Rightarrow> bytes \<Rightarrow> bytes option"
  aes_open :: "bytes \<Rightarrow> bytes \<Rightarrow> bytes \<Rightarrow> bytes \<Rightarrow> bytes option"
  hkdf :: "bytes option \<Rightarrow> bytes \<Rightarrow> bytes \<Rightarrow> bytes"
  rs_recovery :: "nat \<Rightarrow> nat \<Rightarrow> nat \<Rightarrow> bytes list \<Rightarrow> bytes list option"
  rs_restore :: "nat \<Rightarrow> nat \<Rightarrow> nat \<Rightarrow> (nat \<times> bytes) list \<Rightarrow> (nat \<times> bytes) list \<Rightarrow> (nat \<times> bytes) list option"
  iter_order :: "(nat \<times> bytes) list \<Rightarrow> (nat \<times> bytes) list"
  sss_dealer :: "bytes \<Rightarrow> u8 \<Rightarrow> bytes \<Rightarrow> bytes list"
  sss_share_ok :: "bytes \<Rightarrow> bool"
  sss_recover :: "u8 \<Rightarrow> bytes list \<Rightarrow> bytes option"

section \<open>Content identifiers\<close>

definition MID_PREFIX_LEN :: nat where "MID_PREFIX_LEN = 8"

type_synonym content_id = bytes

definition mid_compute :: "cext \<Rightarrow> bytes \<Rightarrow> bytes \<Rightarrow> content_id" where
  "mid_compute C content params = blake3 C (content @ params)"

text \<open>The reader returns one buffer of at most 64 KiB per call; an empty read ends the loop.\<close>

fun read_all :: "bytes list \<Rightarrow> bytes" where
  "read_all [] = []"
| "read_all (buf # bufs) = (if buf = [] then [] else buf @ read_all bufs)"

definition compute_from_reader :: "cext \<Rightarrow> bytes list \<Rightarrow> bytes \<Rightarrow> content_id" where
  "compute_from_reader C bufs params = blake3 C (read_all bufs @ params)"

definition mid_prefix_of :: "content_id \<Rightarrow> bytes" where
  "mid_prefix_of mid = take MID_PREFIX_LEN mid"

section \<open>Authenticated encryption\<close>

definition KEY_LEN :: nat where "KEY_LEN = 32"
definition NONCE_LEN :: nat where "NONCE_LEN = 12"

definition encrypt_with_key :: "cext \<Rightarrow> bytes \<Rightarrow> bytes \<Rightarrow> bytes \<Rightarrow> miasma_error + bytes" where
  "encrypt_with_key C plaintext key nonce =
     (case aes_seal C key nonce [] plaintext of None \<Rightarrow> Inl Encryption | Some ct \<Rightarrow> Inr ct)"

definition decrypt :: "cext \<Rightarrow> bytes \<Rightarrow> bytes \<Rightarrow> bytes \<Rightarrow> miasma_error + bytes" where
  "decrypt C ciphertext key nonce =
     (case aes_open C key nonce [] ciphertext of None \<Rightarrow> Inl Decryption | Some p \<Rightarrow> Inr p)"

section \<open>Reed-Solomon coding\<close>

definition DEFAULT_DATA_SHARDS :: nat where "DEFAULT_DATA_SHARDS = 10"
definition DEFAULT_TOTAL_SHARDS :: nat where "DEFAULT_TOTAL_SHARDS = 20"

definition shard_len_for :: "nat \<Rightarrow> nat \<Rightarrow> nat" where
  "shard_len_for len k =
     (let s = max (div_ceil len k) 1 in if s mod 2 = 1 then s + 1 else s)"

definition rs_encode :: "cext \<Rightarrow> bytes \<Rightarrow> nat \<Rightarrow> nat \<Rightarrow> miasma_error + bytes list" where
  "rs_encode C data k n =
     (if n < k \<or> k = 0 then Inl ReedSolomon
      else
        let r = n - k;
            shard_len = shard_len_for (length data) k;
            padded = resize (shard_len * k) 0 data
        in if r = 0 then Inr (chunks shard_len padded)
           else (case rs_recovery C k r shard_len (chunks shard_len padded) of
               None \<Rightarrow> Inl ReedSolomon
             | Some recovery \<Rightarrow> Inr (chunks shard_len padded @ recovery)))"

text \<open>\<open>entry(i).or_insert(s)\<close> for each pair in turn: the first shard of an index stays.\<close>

definition or_insert :: "(nat \<times> bytes) list \<Rightarrow> nat \<times> bytes \<Rightarrow> (nat \<times> bytes) list" where
  "or_insert m p = (if fst p \<in> fst ` set m then m else m @ [p])"

definition first_wins :: "(nat \<times> bytes) list \<Rightarrow> (nat \<times> bytes) list" where
  "first_wins ps = foldl or_insert [] ps"

text \<open>The shards of the given indices, appended; \<open>None\<close> when one is missing.\<close>

fun gather :: "(nat \<Rightarrow> bytes option) \<Rightarrow> nat list \<Rightarrow> bytes option" where
  "gather m [] = Some []"
| "gather m (i # is) =
     (case m i of
        None \<Rightarrow> None
      | Some s \<Rightarrow> (case gather m is of None \<Rightarrow> None | Some out \<Rightarrow> Some (s @ out)))"

text \<open>The second half of the decoder: the shards by index, without and with the recovery shards.\<close>

definition rs_assemble ::
  "cext \<Rightarrow> nat \<Rightarrow> nat \<Rightarrow> nat \<Rightarrow> (nat \<times> bytes) list \<Rightarrow> (nat \<times> bytes) list \<Rightarrow> nat \<Rightarrow> miasma_error + bytes" where
  "rs_assemble C k r shard_len data_map recovery_map original_len =
     (if length data_map = k then
        (case gather (map_of data_map) [0..<k] of
           None \<Rightarrow> Inl Panic
         | Some out \<Rightarrow> Inr (take original_len out))
      else
        let missing = k - length data_map in
        if length recovery_map < missing then Inl (InsufficientShares k (length data_map + length recovery_map))
        else (case rs_restore C k r shard_len (iter_order C data_map) (take missing (iter_order C recovery_map)) of
            None \<Rightarrow> Inl ReedSolomon
          | Some restored \<Rightarrow>
              (case gather (map_of restored ++ map_of data_map) [0..<k] of
                 None \<Rightarrow> Inl ReedSolomon
               | Some out \<Rightarrow> Inr (take original_len out))))"

definition data_shards_of :: "nat \<Rightarrow> (nat \<times> bytes) list \<Rightarrow> (nat \<times> bytes) list" where
  "data_shards_of k avail = first_wins (filter (\<lambda>p. fst p < k) avail)"

definition recovery_shards_of :: "nat \<Rightarrow> nat \<Rightarrow> (nat \<times> bytes) list \<Rightarrow> (nat \<times> bytes) list" where
  "recovery_shards_of k r avail =
     first_wins (map (\<lambda>p. (fst p - k, snd p)) (filter (\<lambda>p. k \<le> fst p \<and> fst p - k < r) avail))"

definition rs_decode :: "cext \<Rightarrow> (nat \<times> bytes) list \<Rightarrow> nat \<Rightarrow> nat \<Rightarrow> nat \<Rightarrow> miasma_error + bytes" where
  "rs_decode C avail k n original_len =
     (if n < k \<or> k = 0 then Inl ReedSolomon
      else if avail = [] then Inl (InsufficientShares k 0)
      else
        let r = n - k; shard_len = length (snd (hd avail)) in
        if shard_len = 0 \<or> odd shard_len then Inl ReedSolomon
        else if \<exists>p\<in>set avail. length (snd p) \<noteq> shard_len then Inl ReedSolomon
        else rs_assemble C k r shard_len (data_shards_of k avail) (recovery_shards_of k r avail) original_len)"

section \<open>Secret sharing\<close>

definition sss_split :: "cext \<Rightarrow> bytes \<Rightarrow> bytes \<Rightarrow> u8 \<Rightarrow> u8 \<Rightarrow> miasma_error + bytes list" where
  "sss_split C coeffs secret k n =
     (if k = 0 \<or> n = 0 \<or> n < k then Inl Sss else Inr (take (unat n) (sss_dealer C coeffs k secret)))"

definition sss_combine :: "cext \<Rightarrow> bytes list \<Rightarrow> u8 \<Rightarrow> miasma_error + bytes" where
  "sss_combine C shares k =
     (if length shares < unat k then Inl (InsufficientShares (unat k) (length shares))
      else if \<exists>s\<in>set shares. \<not> sss_share_ok C s then Inl Sss
      else (case sss_recover C k shares of None \<Rightarrow> Inl Sss | Some secret \<Rightarrow> Inr secret))"

section \<open>What the code relies on\<close>

text \<open>AES-GCM opens what it sealed and adds a tag of 16 bytes.\<close>

definition aead_ok :: "cext \<Rightarrow> bool" where
  "aead_ok C \<longleftrightarrow> (\<forall>key nonce aad text. length key = KEY_LEN \<longrightarrow> length nonce = NONCE_LEN \<longrightarrow> length text < 2 ^ 32 \<longrightarrow>
     (\<exists>ct. aes_seal C key nonce aad text = Some ct \<and> length ct = length text + 16 \<and>
       aes_open C key nonce aad ct = Some text))"

definition kdf_ok :: "cext \<Rightarrow> bool" where
  "kdf_ok C \<longleftrightarrow> (\<forall>salt ikm info. length (hkdf C salt ikm info) = KEY_LEN)"

text \<open>Any \<open>k\<close> of the \<open>k + r\<close> shards restore the originals.\<close>

definition shard_of :: "bytes list \<Rightarrow> nat \<times> bytes \<Rightarrow> bool" where
  "shard_of shards p \<longleftrightarrow> fst p < length shards \<and> snd p = shards ! fst p"

definition restores :: "cext \<Rightarrow> nat \<Rightarrow> nat \<Rightarrow> nat \<Rightarrow> bytes list \<Rightarrow> bytes list \<Rightarrow> bool" where
  "restores C k r len orig rec \<longleftrightarrow>
     (\<forall>D R. distinct (map fst D) \<longrightarrow> distinct (map fst R) \<longrightarrow> list_all (shard_of orig) D \<longrightarrow>
       list_all (shard_of rec) R \<longrightarrow> k \<le> length D + length R \<longrightarrow>
       (\<exists>m. rs_restore C k r len D R = Some m \<and>
         (\<forall>i<k. i \<notin> fst ` set D \<longrightarrow> map_of m i = Some (orig ! i))))"

definition rs_ok :: "cext \<Rightarrow> nat \<Rightarrow> nat \<Rightarrow> bool" where
  "rs_ok C k r \<longleftrightarrow> (\<forall>len orig. 0 < len \<longrightarrow> even len \<longrightarrow> length orig = k \<longrightarrow> (\<forall>s\<in>set orig. length s = len) \<longrightarrow>
     (\<exists>rec. rs_recovery C k r len orig = Some rec \<and> length rec = r \<and> (\<forall>s\<in>set rec. length s = len) \<and>
       restores C k r len orig rec))"

text \<open>Any \<open>k\<close> distinct shares of the first \<open>n\<close> give the secret back.\<close>

definition sss_ok :: "cext \<Rightarrow> u8 \<Rightarrow> u8 \<Rightarrow> bool" where
  "sss_ok C k n \<longleftrightarrow> (\<forall>coeffs secret. unat n \<le> length (sss_dealer C coeffs k secret) \<and>
     (\<forall>is. distinct is \<longrightarrow> list_all (\<lambda>i. i < unat n) is \<longrightarrow> unat k \<le> length is \<longrightarrow>
       list_all (\<lambda>i. sss_share_ok C (sss_dealer C coeffs k secret ! i)) is \<and>
       sss_recover C k (map ((!) (sss_dealer C coeffs k secret)) is) = Some secret))"

definition iter_ok :: "cext \<Rightarrow> bool" where
  "iter_ok C \<longleftrightarrow> (\<forall>m. mset (iter_order C m) = mset m)"

section \<open>The decoder inverts the encoder\<close>

lemma set_or_insert: "set (or_insert m p) \<subseteq> insert p (set m)"
  by (auto simp: or_insert_def)

lemma keys_or_insert: "fst ` set (or_insert m p) = insert (fst p) (fst ` set m)"
  by (auto simp: or_insert_def)

lemma distinct_or_insert: "distinct (map fst m) \<Longrightarrow> distinct (map fst (or_insert m p))"
  by (auto simp: or_insert_def)

lemma foldl_or_insert:
  "distinct (map fst m) \<Longrightarrow>
     distinct (map fst (foldl or_insert m ps)) \<and> set (foldl or_insert m ps) \<subseteq> set m \<union> set ps \<and>
     fst ` set (foldl or_insert m ps) = fst ` set m \<union> fst ` set ps"
proof (induction ps arbitrary: m)
  case (Cons p ps)
  then show ?case using Cons.IH [OF distinct_or_insert [OF Cons.prems], of p] set_or_insert [of m p] keys_or_insert [of m p]
    by auto
qed simp

lemma first_wins_distinct: "distinct (map fst (first_wins ps))"
  and first_wins_subset: "set (first_wins ps) \<subseteq> set ps"
  and first_wins_keys: "fst ` set (first_wins ps) = fst ` set ps"
  using foldl_or_insert [of "[]" ps] by (simp_all add: first_wins_def)

lemma first_wins_length: "length (first_wins ps) = card (fst ` set ps)"
  using first_wins_distinct first_wins_keys by (metis distinct_card length_map list.set_map)

lemma gather_concat: "(\<And>i. i \<in> set is \<Longrightarrow> m i = Some (f i)) \<Longrightarrow> gather m is = Some (concat (map f is))"
  by (induction "is") auto

lemma gather_shards:
  "(\<And>i. i < length orig \<Longrightarrow> m i = Some (orig ! i)) \<Longrightarrow> gather m [0..<length orig] = Some (concat orig)"
  by (subst gather_concat [where f = "(!) orig"]) (auto simp: map_nth)

lemma shard_len_for_props:
  assumes "0 < k"
  shows "0 < shard_len_for len k" and "even (shard_len_for len k)" and "len \<le> shard_len_for len k * k"
proof -
  let ?s = "max (div_ceil len k) 1"
  have "len \<le> ?s * k" using div_ceil_le [OF assms, of len] mult_le_mono1 [of "div_ceil len k" ?s k] by linarith
  moreover have "?s \<le> shard_len_for len k" by (simp add: shard_len_for_def Let_def max_def)
  ultimately show "len \<le> shard_len_for len k * k" by (meson le_trans mult_le_mono1)
  show "0 < shard_len_for len k" by (simp add: shard_len_for_def Let_def max_def)
  show "even (shard_len_for len k)"
    by (cases "even ?s") (simp_all add: shard_len_for_def Let_def odd_iff_mod_2_eq_one)
qed

definition coded :: "cext \<Rightarrow> nat \<Rightarrow> nat \<Rightarrow> nat \<Rightarrow> bytes list \<Rightarrow> bytes list \<Rightarrow> bool" where
  "coded C k r len orig rec \<longleftrightarrow>
     0 < k \<and> 0 < len \<and> even len \<and> length orig = k \<and> length rec = r \<and>
     (\<forall>s\<in>set orig \<union> set rec. length s = len) \<and> (0 < r \<longrightarrow> restores C k r len orig rec)"

lemma rs_okD:
  "rs_ok C k r \<Longrightarrow> 0 < len \<Longrightarrow> even len \<Longrightarrow> length orig = k \<Longrightarrow> \<forall>s\<in>set orig. length s = len \<Longrightarrow>
     \<exists>rec. rs_recovery C k r len orig = Some rec \<and> length rec = r \<and> (\<forall>s\<in>set rec. length s = len) \<and>
       restores C k r len orig rec"
  unfolding rs_ok_def by simp

lemma restoresD:
  "restores C k r len orig rec \<Longrightarrow> distinct (map fst D) \<Longrightarrow> distinct (map fst R) \<Longrightarrow> list_all (shard_of orig) D \<Longrightarrow>
     list_all (shard_of rec) R \<Longrightarrow> k \<le> length D + length R \<Longrightarrow>
     \<exists>m. rs_restore C k r len D R = Some m \<and> (\<forall>i<k. i \<notin> fst ` set D \<longrightarrow> map_of m i = Some (orig ! i))"
  unfolding restores_def by simp

lemma rs_encode_coded:
  assumes "0 < k" and "k \<le> n" and "k < n \<longrightarrow> rs_ok C k (n - k)"
  obtains orig rec where "rs_encode C data k n = Inr (orig @ rec)"
    and "coded C k (n - k) (shard_len_for (length data) k) orig rec"
    and "take (length data) (concat orig) = data"
proof -
  define len where "len = shard_len_for (length data) k"
  define pad where "pad = resize (len * k) 0 data"
  define orig where "orig = chunks len pad"
  have len: "0 < len" "even len" "length data \<le> len * k"
    using shard_len_for_props [OF assms(1)] by (simp_all add: len_def)
  have lp: "length pad = k * len" by (simp add: pad_def)
  have eq: "\<forall>s\<in>set orig. length s = len" using chunks_equal [OF lp len(1)] by (auto simp: orig_def)
  have cnt: "length orig = k" using chunks_count [OF lp len(1)] by (simp add: orig_def)
  have cat: "take (length data) (concat orig) = data"
    using chunks_concat [OF len(1)] len(3) by (simp add: orig_def pad_def)
  have enc: "rs_encode C data k n = (if n - k = 0 then Inr orig
      else case rs_recovery C k (n - k) len orig of None \<Rightarrow> Inl ReedSolomon | Some rec \<Rightarrow> Inr (orig @ rec))"
    unfolding rs_encode_def Let_def len_def pad_def orig_def using assms(1,2) by simp
  show ?thesis
  proof (cases "k < n")
    case True
    then obtain rec where rec: "rs_recovery C k (n - k) len orig = Some rec" "length rec = n - k"
      "\<forall>s\<in>set rec. length s = len" "restores C k (n - k) len orig rec"
      using rs_okD [OF _ len(1,2) cnt eq, of C "n - k"] assms(3) by auto
    have "coded C k (n - k) len orig rec" using rec(2,3,4) assms(1) len(1,2) cnt eq by (auto simp: coded_def)
    then show ?thesis using that [of orig rec] enc rec(1) True cat by (simp add: len_def)
  next
    case False
    have "coded C k (n - k) len orig []" using False assms(1) len(1,2) cnt eq by (auto simp: coded_def)
    then show ?thesis using that [of orig "[]"] enc False cat by (simp add: len_def)
  qed
qed

lemma map_of_shards:
  assumes "list_all (shard_of orig) m" and "i \<in> fst ` set m"
  shows "map_of m i = Some (orig ! i)"
proof -
  obtain s where "map_of m i = Some s" using assms(2) by (metis map_of_eq_None_iff not_None_eq)
  moreover have "(i, s) \<in> set m" using calculation by (rule map_of_SomeD)
  ultimately show ?thesis using assms(1) by (auto simp: list_all_iff shard_of_def)
qed

lemma take_iter_shards:
  assumes "iter_ok C" and "distinct (map fst m)" and "list_all (shard_of xs) m"
  shows "distinct (map fst (take j (iter_order C m)))" and "list_all (shard_of xs) (take j (iter_order C m))"
    and "j \<le> length m \<Longrightarrow> length (take j (iter_order C m)) = j"
proof -
  have ms: "mset (iter_order C m) = mset m" using assms(1) by (simp add: iter_ok_def)
  have "distinct (map fst (iter_order C m))"
    using assms(2) ms by (metis mset_eq_imp_distinct_iff mset_map)
  then show "distinct (map fst (take j (iter_order C m)))" by (metis distinct_take take_map)
  have "set (iter_order C m) = set m" using ms by (rule mset_eq_setD)
  then show "list_all (shard_of xs) (take j (iter_order C m))"
    using assms(3) by (auto simp: list_all_iff dest: in_set_takeD)
  show "length (take j (iter_order C m)) = j" if "j \<le> length m" using that ms by (metis length_take min.absorb2 size_mset)
qed

lemma data_shards_keys: "fst ` set (data_shards_of k avail) \<subseteq> {..<k}"
  by (auto simp: data_shards_of_def first_wins_keys)

lemma data_shards_card: "card (fst ` set (data_shards_of k avail)) = length (data_shards_of k avail)"
  by (simp add: data_shards_of_def first_wins_keys first_wins_length)

lemma data_shards_le: "length (data_shards_of k avail) \<le> k"
  using card_mono [OF _ data_shards_keys, of k avail] data_shards_card [of k avail] by simp

lemma data_shards_full:
  "length (data_shards_of k avail) = k \<Longrightarrow> fst ` set (data_shards_of k avail) = {..<k}"
  using data_shards_keys data_shards_card by (intro card_subset_eq) auto

lemma rs_decode_coded:
  assumes "coded C k r len orig rec" and "list_all (shard_of (orig @ rec)) avail"
    and "k \<le> card (fst ` set avail)" and "iter_ok C"
  shows "rs_decode C avail k (k + r) olen = Inr (take olen (concat orig))"
proof -
  let ?D = "data_shards_of k avail" and ?R = "recovery_shards_of k r avail"
  have k: "0 < k" "length orig = k" "length rec = r" and len: "\<forall>s\<in>set orig \<union> set rec. length s = len"
    using assms(1) by (auto simp: coded_def)
  have ne: "avail \<noteq> []" using assms(3) k(1) by auto
  have idx: "fst p < k + r" "snd p = (orig @ rec) ! fst p" if "p \<in> set avail" for p
    using assms(2) that k by (auto simp: list_all_iff shard_of_def)
  have lens: "length (snd p) = len" if "p \<in> set avail" for p
    using idx [OF that] len k nth_mem [of "fst p" "orig @ rec"] by simp
  have D: "list_all (shard_of orig) ?D"
    using first_wins_subset [of "filter (\<lambda>p. fst p < k) avail"] idx k
    by (force simp: data_shards_of_def list_all_iff shard_of_def nth_append)
  have R: "list_all (shard_of rec) ?R"
    using first_wins_subset [of "map (\<lambda>p. (fst p - k, snd p)) (filter (\<lambda>p. k \<le> fst p \<and> fst p - k < r) avail)"] idx k
    by (force simp: recovery_shards_of_def list_all_iff shard_of_def nth_append)
  have dist: "distinct (map fst ?D)" "distinct (map fst ?R)"
    by (simp_all add: data_shards_of_def recovery_shards_of_def first_wins_distinct)
  have "fst ` set avail \<subseteq> fst ` set ?D \<union> (+) k ` fst ` set ?R"
    using idx(1) by (force simp: data_shards_of_def recovery_shards_of_def first_wins_keys image_iff)
  then have "card (fst ` set avail) \<le> card (fst ` set ?D \<union> (+) k ` fst ` set ?R)"
    by (rule card_mono [rotated]) simp
  also have "\<dots> \<le> card (fst ` set ?D) + card ((+) k ` fst ` set ?R)" by (rule card_Un_le)
  also have "\<dots> = length ?D + length ?R"
    by (simp add: card_image data_shards_of_def recovery_shards_of_def first_wins_keys first_wins_length)
  finally have total: "k \<le> length ?D + length ?R" using assms(3) by simp
  have base: "rs_decode C avail k (k + r) olen = rs_assemble C k r len ?D ?R olen"
    using assms(1) ne lens unfolding rs_decode_def Let_def coded_def by simp
  show ?thesis
  proof (cases "length ?D = k")
    case True
    then have "gather (map_of ?D) [0..<k] = Some (concat orig)"
      using gather_shards [of orig "map_of ?D"] map_of_shards [OF D] k(2) data_shards_full by simp
    then show ?thesis using base True by (simp add: rs_assemble_def)
  next
    case False
    have "length ?D \<le> k"
      by (rule data_shards_le)
    then have miss: "k - length ?D \<le> length ?R" "0 < length ?R" using False total by auto
    then have "0 < r" using R by (cases ?R) (auto simp: shard_of_def k)
    then have rest: "restores C k r len orig rec" using assms(1) by (simp add: coded_def)
    note itD = take_iter_shards [OF assms(4) dist(1) D, of "length ?D"]
      and itR = take_iter_shards [OF assms(4) dist(2) R, of "k - length ?D"]
    have it: "take (length ?D) (iter_order C ?D) = iter_order C ?D" "set (iter_order C ?D) = set ?D"
      using assms(4) unfolding iter_ok_def by (metis order_refl size_mset take_all, metis mset_eq_setD)
    have "k \<le> length (take (length ?D) (iter_order C ?D)) + length (take (k - length ?D) (iter_order C ?R))"
      using itD(3) itR(3) [OF miss(1)] by linarith
    from restoresD [OF rest itD(1) itR(1) itD(2) itR(2) this]
    obtain m where m: "rs_restore C k r len (iter_order C ?D) (take (k - length ?D) (iter_order C ?R)) = Some m"
      "\<forall>i<k. i \<notin> fst ` set ?D \<longrightarrow> map_of m i = Some (orig ! i)"
      unfolding it by blast
    have "(map_of m ++ map_of ?D) i = Some (orig ! i)" if "i < k" for i
    proof (cases "i \<in> fst ` set ?D")
      case True
      then show ?thesis using map_of_shards [OF D, of i] by (simp add: map_add_def)
    next
      case False
      then have "map_of ?D i = None" by (simp add: map_of_eq_None_iff)
      then show ?thesis using m(2) that False by (simp add: map_add_def)
    qed
    then have "gather (map_of m ++ map_of ?D) [0..<k] = Some (concat orig)"
      using gather_shards [of orig "map_of m ++ map_of ?D"] k(2) by simp
    then show ?thesis using base False miss(1) m(1) by (simp add: rs_assemble_def)
  qed
qed

text \<open>
  Erasure coding loses nothing. Encoding succeeds for every content and \<open>0 < k \<le> n\<close>, gives \<open>n\<close> shards of
  one even length, and any collection of these shards with \<open>k\<close> different indices, in any order and with
  duplicates, decodes to the content.
\<close>

theorem rs_roundtrip:
  assumes "0 < k" and "k \<le> n" and "k < n \<longrightarrow> rs_ok C k (n - k)" and "iter_ok C"
  shows "\<exists>shards. rs_encode C data k n = Inr shards \<and> length shards = n \<and>
    (\<forall>avail. list_all (shard_of shards) avail \<longrightarrow> k \<le> card (fst ` set avail) \<longrightarrow>
      rs_decode C avail k n (length data) = Inr data)"
proof -
  obtain orig rec where enc: "rs_encode C data k n = Inr (orig @ rec)"
    and coded: "coded C k (n - k) (shard_len_for (length data) k) orig rec"
    and cat: "take (length data) (concat orig) = data"
    using rs_encode_coded [OF assms(1-3)] by blast
  have "rs_decode C avail k n (length data) = Inr data"
    if "list_all (shard_of (orig @ rec)) avail" "k \<le> card (fst ` set avail)" for avail
    using rs_decode_coded [OF coded that assms(4), of "length data"] assms(2) cat by simp
  then show ?thesis using enc coded assms(2) by (intro exI [of _ "orig @ rec"]) (auto simp: coded_def)
qed

lemma gather_total: "(\<And>i. i \<in> set is \<Longrightarrow> m i \<noteq> None) \<Longrightarrow> gather m is \<noteq> None"
  by (induction "is") (auto split: option.splits)

lemma if_neq: "x \<noteq> z \<Longrightarrow> y \<noteq> z \<Longrightarrow> (if b then x else y) \<noteq> z"
  by simp

text \<open>
  The decoder never panics, whatever shards it is given: when all data shards are counted as present, each
  of them is.
\<close>

theorem rs_decode_no_panic: "rs_decode C avail k n olen \<noteq> Inl Panic"
proof -
  let ?D = "data_shards_of k avail"
  have "gather (map_of ?D) [0..<k] \<noteq> None" if "length ?D = k"
    using data_shards_full [OF that] by (intro gather_total) (auto simp: map_of_eq_None_iff)
  then have "rs_assemble C k r len ?D R olen \<noteq> Inl Panic" for r len R
    unfolding rs_assemble_def Let_def by (cases "length ?D = k") (auto split: option.split)
  then show ?thesis unfolding rs_decode_def Let_def by (intro if_neq) simp_all
qed

end
