(* ===== verification/Object_Format.thy ===== *)
theory Object_Format
  imports Erasure
begin

text \<open>
  Object suites, the associated data of a version-2 segment and its sealing: \<^verbatim>\<open>format/mod.rs\<close>,
  \<^verbatim>\<open>format/aad.rs\<close> and \<^verbatim>\<open>format/seal.rs\<close> under \<^verbatim>\<open>crates/miasma-core/src\<close>.
\<close>

datatype format_error = Newer u16 | Unrepresentable

datatype object_suite = Suite1 | Suite2

datatype aad_layout = NoAad | Msa2

record suite_spec =
  share_version :: u8
  manifest_version :: u8
  directed_envelope_version :: u8
  segment_key_label :: string
  name_key_label :: string
  spec_aad :: aad_layout

fun spec :: "object_suite \<Rightarrow> suite_spec" where
  "spec Suite1 =
     \<lparr>share_version = 1, manifest_version = 3, directed_envelope_version = 1,
      segment_key_label = ''miasma-seg-key-v1'', name_key_label = ''miasma-name-key-v1'', spec_aad = NoAad\<rparr>"
| "spec Suite2 =
     \<lparr>share_version = 2, manifest_version = 4, directed_envelope_version = 2,
      segment_key_label = ''miasma-seg-key-v2'', name_key_label = ''miasma-name-key-v2'', spec_aad = Msa2\<rparr>"

fun suite_id :: "object_suite \<Rightarrow> u16" where
  "suite_id Suite1 = 1"
| "suite_id Suite2 = 2"

definition from_share_version :: "u8 \<Rightarrow> format_error + object_suite" where
  "from_share_version v = (if v = 1 then Inr Suite1 else if v = 2 then Inr Suite2 else Inl (Newer (ucast v)))"

definition from_manifest_version :: "u8 \<Rightarrow> format_error + object_suite" where
  "from_manifest_version v = (if v = 3 then Inr Suite1 else if v = 4 then Inr Suite2 else Inl (Newer (ucast v)))"

definition from_envelope_version :: "u8 \<Rightarrow> format_error + object_suite" where
  "from_envelope_version v = (if v = 1 then Inr Suite1 else if v = 2 then Inr Suite2 else Inl (Newer (ucast v)))"

definition from_id :: "u16 \<Rightarrow> format_error + object_suite" where
  "from_id v = (if v = 1 then Inr Suite1 else if v = 2 then Inr Suite2 else Inl (Newer v))"

fun is_legacy :: "object_suite \<Rightarrow> bool" where
  "is_legacy Suite1 = True"
| "is_legacy Suite2 = False"

section \<open>Associated data\<close>

definition AAD_LEN :: nat where "AAD_LEN = 49"
definition AAD_MAGIC :: bytes where "AAD_MAGIC = str_bytes ''MSA2''"

datatype aad_context = TransferSegment | WholeFile | Directed

fun context_byte :: "aad_context \<Rightarrow> u8" where
  "context_byte TransferSegment = 1"
| "context_byte WholeFile = 2"
| "context_byte Directed = 3"

definition context_from :: "u8 \<Rightarrow> format_error + aad_context" where
  "context_from v =
     (if v = 1 then Inr TransferSegment else if v = 2 then Inr WholeFile else if v = 3 then Inr Directed
      else Inl Unrepresentable)"

record segment_aad =
  aad_suite :: object_suite
  aad_context :: aad_context
  aad_mid :: bytes
  aad_segment_index :: u32
  aad_data_shards :: u8
  aad_total_shards :: u8
  aad_plaintext_len :: u32

definition aad_new ::
  "object_suite \<Rightarrow> aad_context \<Rightarrow> content_id \<Rightarrow> u32 \<Rightarrow> nat \<Rightarrow> nat \<Rightarrow> nat \<Rightarrow> format_error + segment_aad" where
  "aad_new suite ctx mid seg k n len =
     (if 255 < k then Inl Unrepresentable
      else if 255 < n then Inl Unrepresentable
      else if 2 ^ 32 \<le> len then Inl Unrepresentable
      else Inr \<lparr>aad_suite = suite, aad_context = ctx, aad_mid = mid, aad_segment_index = seg,
                aad_data_shards = word_of_nat k, aad_total_shards = word_of_nat n,
                aad_plaintext_len = word_of_nat len\<rparr>)"

definition aad_encode :: "segment_aad \<Rightarrow> bytes" where
  "aad_encode a =
     AAD_MAGIC @ le_bytes 2 (unat (suite_id (aad_suite a))) @ [context_byte (aad_context a)] @ aad_mid a @
     le_bytes 4 (unat (aad_segment_index a)) @ [aad_data_shards a] @ [aad_total_shards a] @
     le_bytes 4 (unat (aad_plaintext_len a))"

definition le_val :: "bytes \<Rightarrow> nat" where
  "le_val b = be_val (rev b)"

definition sub :: "nat \<Rightarrow> nat \<Rightarrow> bytes \<Rightarrow> bytes" where
  "sub i j b = take (j - i) (drop i b)"

text \<open>The argument has exactly 49 bytes.\<close>

definition aad_decode :: "bytes \<Rightarrow> format_error + segment_aad" where
  "aad_decode b =
     (if sub 0 4 b \<noteq> AAD_MAGIC then Inl Unrepresentable
      else (case from_id (word_of_nat (le_val (sub 4 6 b))) of
          Inl err \<Rightarrow> Inl err
        | Inr suite \<Rightarrow>
            (case context_from (b ! 6) of
               Inl err \<Rightarrow> Inl err
             | Inr ctx \<Rightarrow>
                 Inr \<lparr>aad_suite = suite, aad_context = ctx, aad_mid = sub 7 39 b,
                      aad_segment_index = word_of_nat (le_val (sub 39 43 b)),
                      aad_data_shards = b ! 43, aad_total_shards = b ! 44,
                      aad_plaintext_len = word_of_nat (le_val (sub 45 49 b))\<rparr>)))"

section \<open>Sealing\<close>

definition LABEL_SEGMENT_KEY_V2 :: bytes where
  "LABEL_SEGMENT_KEY_V2 = str_bytes ''miasma-seg-key-v2''"

definition derive_segment_key_v2 :: "cext \<Rightarrow> bytes \<Rightarrow> bytes option \<Rightarrow> bytes \<Rightarrow> bytes" where
  "derive_segment_key_v2 C k_enc pw_key aad = hkdf C pw_key k_enc (LABEL_SEGMENT_KEY_V2 @ aad)"

text \<open>Encryption panics when the cipher refuses the text.\<close>

definition seal_segment :: "cext \<Rightarrow> bytes \<Rightarrow> bytes \<Rightarrow> bytes \<Rightarrow> bytes \<Rightarrow> bytes option \<Rightarrow> miasma_error + bytes" where
  "seal_segment C k_enc nonce plaintext aad pw_key =
     (case aes_seal C (derive_segment_key_v2 C k_enc pw_key aad) nonce aad plaintext of
        None \<Rightarrow> Inl Panic
      | Some ct \<Rightarrow> Inr ct)"

definition open_segment :: "cext \<Rightarrow> bytes \<Rightarrow> bytes \<Rightarrow> bytes \<Rightarrow> bytes \<Rightarrow> bytes option \<Rightarrow> bytes option" where
  "open_segment C k_enc nonce ciphertext aad pw_key =
     aes_open C (derive_segment_key_v2 C k_enc pw_key aad) nonce aad ciphertext"

section \<open>The associated data determines its fields\<close>

definition wf_aad :: "segment_aad \<Rightarrow> bool" where
  "wf_aad a \<longleftrightarrow> length (aad_mid a) = 32"

lemma le_word: "8 * n = LENGTH('a :: len) \<Longrightarrow> (word_of_nat (le_val (le_bytes n (unat w))) :: 'a word) = w"
  by (simp add: le_val_def le_bytes_def word_be)

lemma le_word_inj:
  "8 * n = LENGTH('a :: len) \<Longrightarrow> le_bytes n (unat (x :: 'a word)) = le_bytes n (unat y) \<longleftrightarrow> x = y"
  using le_word by metis

lemma word_le: "8 * n = LENGTH('a :: len) \<Longrightarrow> length x = n \<Longrightarrow> le_bytes n (unat (word_of_nat (le_val x) :: 'a word)) = x"
  by (simp add: le_val_def le_bytes_def be_word)

lemma from_id_iff: "from_id v = Inr s \<longleftrightarrow> v = suite_id s"
  by (cases s) (auto simp: from_id_def)

lemma context_from_iff: "context_from v = Inr c \<longleftrightarrow> v = context_byte c"
  by (cases c) (auto simp: context_from_def)

lemma from_bytes_back [simp]: "from_id (suite_id s) = Inr s" "context_from (context_byte c) = Inr c"
  by (simp_all add: from_id_iff context_from_iff)

lemma length_magic [simp]: "length AAD_MAGIC = 4"
  by (simp add: AAD_MAGIC_def str_bytes_def)

lemma aad_encode_parts:
  assumes "wf_aad a"
  shows "sub 0 4 (aad_encode a) = AAD_MAGIC" "sub 4 6 (aad_encode a) = le_bytes 2 (unat (suite_id (aad_suite a)))"
    "aad_encode a ! 6 = context_byte (aad_context a)" "sub 7 39 (aad_encode a) = aad_mid a"
    "sub 39 43 (aad_encode a) = le_bytes 4 (unat (aad_segment_index a))" "aad_encode a ! 43 = aad_data_shards a"
    "aad_encode a ! 44 = aad_total_shards a" "sub 45 49 (aad_encode a) = le_bytes 4 (unat (aad_plaintext_len a))"
    "length (aad_encode a) = AAD_LEN"
  using assms by (simp_all add: wf_aad_def aad_encode_def sub_def nth_append AAD_LEN_def)

lemma aad_bytes_split:
  assumes "length b = AAD_LEN"
  shows "b = sub 0 4 b @ sub 4 6 b @ [b ! 6] @ sub 7 39 b @ sub 39 43 b @ [b ! 43] @ [b ! 44] @ sub 45 49 b"
proof -
  have one: "[b ! i] = sub i (Suc i) b" if "i < 49" for i
  proof -
    have "drop i b = b ! i # drop (Suc i) b" using Cons_nth_drop_Suc [of i b] assms that by (simp add: AAD_LEN_def)
    then show ?thesis by (simp add: sub_def)
  qed
  have join: "sub i j b @ sub j k b = sub i k b" if "i \<le> j" "j \<le> k" for i j k
    using that take_add [of "j - i" "k - j" "drop i b"] by (simp add: sub_def)
  have "b = sub 0 49 b" using assms by (simp add: sub_def AAD_LEN_def)
  also have "\<dots> = sub 0 4 b @ sub 4 6 b @ sub 6 7 b @ sub 7 39 b @ sub 39 43 b @ sub 43 44 b @ sub 44 45 b @ sub 45 49 b"
    by (simp add: join)
  finally show ?thesis using one [of 6] one [of 43] one [of 44] by simp
qed


lemma aad_decode_iff:
  assumes "length b = AAD_LEN"
  shows "aad_decode b = Inr a \<longleftrightarrow> wf_aad a \<and> aad_encode a = b"
proof
  assume *: "aad_decode b = Inr a"
  have lens: "length (sub 4 6 b) = 2" "length (sub 39 43 b) = 4" "length (sub 45 49 b) = 4" "length (sub 7 39 b) = 32"
    using assms by (simp_all add: sub_def AAD_LEN_def)
  from * have "sub 0 4 b = AAD_MAGIC" "word_of_nat (le_val (sub 4 6 b)) = suite_id (aad_suite a)"
    "b ! 6 = context_byte (aad_context a)" "aad_mid a = sub 7 39 b"
    "aad_segment_index a = word_of_nat (le_val (sub 39 43 b))" "aad_data_shards a = b ! 43"
    "aad_total_shards a = b ! 44" "aad_plaintext_len a = word_of_nat (le_val (sub 45 49 b))"
    by (auto simp: aad_decode_def from_id_iff context_from_iff split: if_splits sum.splits)
  moreover from this have "le_bytes 2 (unat (suite_id (aad_suite a))) = sub 4 6 b"
    using word_le [where 'a = 16, of 2 "sub 4 6 b"] lens by simp
  ultimately have "wf_aad a" and
    "aad_encode a = sub 0 4 b @ sub 4 6 b @ [b ! 6] @ sub 7 39 b @ sub 39 43 b @ [b ! 43] @ [b ! 44] @ sub 45 49 b"
    using lens word_le [where 'a = 32, of 4 "sub 39 43 b"] word_le [where 'a = 32, of 4 "sub 45 49 b"]
    by (simp_all add: wf_aad_def aad_encode_def)
  then show "wf_aad a \<and> aad_encode a = b" using aad_bytes_split [OF assms] by argo
next
  assume *: "wf_aad a \<and> aad_encode a = b"
  then have "aad_decode (aad_encode a) = Inr a"
    using aad_encode_parts [of a] le_word [where 'a = 16, of 2] le_word [where 'a = 32, of 4]
    by (simp add: aad_decode_def)
  then show "aad_decode b = Inr a" using * by simp
qed

definition aad_parse :: "bytes \<Rightarrow> format_error + segment_aad" where
  "aad_parse b = (if length b = AAD_LEN then aad_decode b else Inl Unrepresentable)"

interpretation aad: codec aad_encode aad_parse wf_aad
proof
  show "aad_parse (aad_encode a) = Inr a" if "wf_aad a" for a
    using that aad_decode_iff [of "aad_encode a" a] aad_encode_parts(9) [of a] by (simp add: aad_parse_def)
qed (auto simp: aad_parse_def aad_decode_iff split: if_splits)

text \<open>
  The 49 bytes of associated data and its fields determine each other: a 49-byte string decodes to fields
  exactly when it is their encoding, so no two segments that differ in suite, use, content, position, shard
  counts or length are sealed under the same associated data.
\<close>

theorem aad_codec_exact:
  assumes "length b = AAD_LEN"
  shows "aad_decode b = Inr a \<longleftrightarrow> length (aad_mid a) = 32 \<and> aad_encode a = b"
  using aad.dec_iff [of b a] assms by (simp add: aad_parse_def wf_aad_def)

definition demo_aad :: segment_aad where
  "demo_aad = \<lparr>aad_suite = Suite2, aad_context = TransferSegment, aad_mid = replicate 32 7, aad_segment_index = 3,
     aad_data_shards = 2, aad_total_shards = 3, aad_plaintext_len = 5\<rparr>"

theorem aad_codec_exact_witness: "aad_decode (aad_encode demo_aad) = Inr demo_aad"
proof -
  have "length (aad_mid demo_aad) = 32" by (simp add: demo_aad_def)
  then show ?thesis
    using aad_codec_exact [of "aad_encode demo_aad" demo_aad] aad_encode_parts(9) [of demo_aad] by (simp add: wf_aad_def)
qed

text \<open>Each suite has versions of its own, so reading a version back gives the suite that wrote it.\<close>

lemma suite_versions:
  "from_share_version (share_version (spec s)) = Inr s" "from_manifest_version (manifest_version (spec s)) = Inr s"
  "from_envelope_version (directed_envelope_version (spec s)) = Inr s" "from_id (suite_id s) = Inr s"
  by (cases s; simp add: from_share_version_def from_manifest_version_def from_envelope_version_def from_id_def)+

end
