(* ===== verification/Dissolution.thy ===== *)
theory Dissolution
  imports Object_Format
begin

unbundle bit_operations_syntax

text \<open>
  Dissolving content into shares and rebuilding it: \<^verbatim>\<open>share.rs\<close>, \<^verbatim>\<open>pipeline.rs\<close>, \<^verbatim>\<open>dissolution/segment.rs\<close>,
  \<^verbatim>\<open>dissolution/manifest.rs\<close> and \<^verbatim>\<open>dissolution/mod.rs\<close> under \<^verbatim>\<open>crates/miasma-core/src\<close>. The random key, nonce
  and polynomial of one run are a \<open>draws\<close> record, the clock is an argument. A password key is the
  \<open>pw_key\<close> of \<^verbatim>\<open>transfer/protection.rs\<close>.
\<close>

section \<open>Parameters and shares\<close>

record dissolution_params =
  data_shards :: nat
  total_shards :: nat

definition default_params :: dissolution_params where
  "default_params = \<lparr>data_shards = 10, total_shards = 20\<rparr>"

definition PROTOCOL_VERSION :: nat where "PROTOCOL_VERSION = 1"

text \<open>The decimal digits of a number, as \<^verbatim>\<open>format!\<close> prints it.\<close>

fun decimal :: "nat \<Rightarrow> bytes" where
  "decimal n = (if n < 10 then [word_of_nat (48 + n)] else decimal (n div 10) @ [word_of_nat (48 + n mod 10)])"

declare decimal.simps [simp del]

definition to_param_bytes :: "dissolution_params \<Rightarrow> bytes" where
  "to_param_bytes p =
     str_bytes ''k='' @ decimal (data_shards p) @ str_bytes '',n='' @ decimal (total_shards p) @
     str_bytes '',v='' @ decimal PROTOCOL_VERSION"

record miasma_share =
  sh_version :: u8
  mid_prefix :: bytes
  segment_index :: u32
  slot_index :: u16
  shard_data :: bytes
  key_share :: bytes
  shard_hash :: bytes
  sh_nonce :: bytes
  original_len :: u32
  timestamp :: u64

definition share_new ::
  "cext \<Rightarrow> content_id \<Rightarrow> u32 \<Rightarrow> u16 \<Rightarrow> bytes \<Rightarrow> bytes \<Rightarrow> bytes \<Rightarrow> u32 \<Rightarrow> u64 \<Rightarrow> miasma_share" where
  "share_new C mid seg slot shard key nonce olen ts =
     \<lparr>sh_version = 1, mid_prefix = mid_prefix_of mid, segment_index = seg, slot_index = slot, shard_data = shard,
      key_share = key, shard_hash = blake3 C shard, sh_nonce = nonce, original_len = olen, timestamp = ts\<rparr>"

definition share_new_v2 ::
  "cext \<Rightarrow> content_id \<Rightarrow> u32 \<Rightarrow> u16 \<Rightarrow> bytes \<Rightarrow> bytes \<Rightarrow> bytes \<Rightarrow> u32 \<Rightarrow> u64 \<Rightarrow> miasma_share" where
  "share_new_v2 C mid seg slot shard key nonce olen ts =
     \<lparr>sh_version = 2, mid_prefix = mid_prefix_of mid, segment_index = seg, slot_index = slot, shard_data = shard,
      key_share = key, shard_hash = blake3 C shard, sh_nonce = nonce, original_len = olen, timestamp = ts\<rparr>"

definition PIECE_COMMITMENT_DOMAIN :: string where
  "PIECE_COMMITMENT_DOMAIN = ''miasma-piece-commitment-v2''"

definition commitment_input :: "miasma_share \<Rightarrow> content_id \<Rightarrow> bytes" where
  "commitment_input s mid =
     [sh_version s] @ mid @ le_bytes 4 (unat (segment_index s)) @ le_bytes 2 (unat (slot_index s)) @
     le_bytes 4 (unat (original_len s)) @
     le_bytes 8 (unat (word_of_nat (length (shard_data s)) :: u64)) @ shard_data s @
     le_bytes 8 (unat (word_of_nat (length (key_share s)) :: u64)) @ key_share s @ sh_nonce s"

definition piece_commitment :: "cext \<Rightarrow> miasma_share \<Rightarrow> content_id \<Rightarrow> bytes" where
  "piece_commitment C s mid = blake3_derive C PIECE_COMMITMENT_DOMAIN (commitment_input s mid)"

definition coarse_verify :: "cext \<Rightarrow> miasma_share \<Rightarrow> content_id \<Rightarrow> bool" where
  "coarse_verify C s mid =
     (if mid_prefix s \<noteq> mid_prefix_of mid then False else blake3 C (shard_data s) = shard_hash s)"

definition verify_piece :: "cext \<Rightarrow> miasma_share \<Rightarrow> content_id \<Rightarrow> bytes \<Rightarrow> bool" where
  "verify_piece C s mid expected \<longleftrightarrow> coarse_verify C s mid \<and> piece_commitment C s mid = expected"

definition self_consistent :: "cext \<Rightarrow> miasma_share \<Rightarrow> bool" where
  "self_consistent C s \<longleftrightarrow> blake3 C (shard_data s) = shard_hash s"

definition full_verify :: "cext \<Rightarrow> bytes \<Rightarrow> bytes \<Rightarrow> content_id \<Rightarrow> miasma_error + unit" where
  "full_verify C plaintext params mid =
     (if mid_compute C plaintext params \<noteq> mid then Inl HashMismatch else Inr ())"

section \<open>Whole content\<close>

record draws =
  dr_key :: bytes
  dr_nonce :: bytes
  dr_coeffs :: bytes

text \<open>
  \<^verbatim>\<open>as u8\<close>, \<^verbatim>\<open>as u16\<close> and \<^verbatim>\<open>as u32\<close> truncate. Shards and key shares are paired up to the shorter of the lists.
\<close>

definition assemble_shares ::
  "(u16 \<Rightarrow> bytes \<Rightarrow> bytes \<Rightarrow> miasma_share) \<Rightarrow> bytes list \<Rightarrow> bytes list \<Rightarrow> miasma_share list" where
  "assemble_shares mk shards key_shares =
     map (\<lambda>(i, shard, key). mk (word_of_nat i) shard key) (enumerate 0 (zip shards key_shares))"

definition dissolve_at ::
  "cext \<Rightarrow> draws \<Rightarrow> bytes \<Rightarrow> dissolution_params \<Rightarrow> u64 \<Rightarrow> miasma_error + (content_id \<times> miasma_share list)" where
  "dissolve_at C d plaintext params ts =
     (let mid = mid_compute C plaintext (to_param_bytes params) in
      case encrypt_with_key C plaintext (dr_key d) (dr_nonce d) of
        Inl err \<Rightarrow> Inl err
      | Inr ciphertext \<Rightarrow>
          (case rs_encode C ciphertext (data_shards params) (total_shards params) of
             Inl err \<Rightarrow> Inl err
           | Inr shards \<Rightarrow>
               (case sss_split C (dr_coeffs d) (dr_key d) (word_of_nat (data_shards params))
                       (word_of_nat (total_shards params)) of
                  Inl err \<Rightarrow> Inl err
                | Inr key_shares \<Rightarrow>
                    Inr (mid, assemble_shares
                           (\<lambda>i shard key. share_new C mid 0 i shard key (dr_nonce d) (word_of_nat (length plaintext)) ts)
                           shards key_shares))))"

text \<open>
  The part \<^verbatim>\<open>retrieve\<close>, \<^verbatim>\<open>retrieve_segment_with\<close> and \<^verbatim>\<open>retrieve_segment_v2\<close> have in common: from the selected
  shares to ciphertext, key and nonce. Reading the first of no shares panics.
\<close>

definition recover ::
  "cext \<Rightarrow> miasma_share list \<Rightarrow> dissolution_params \<Rightarrow> nat \<Rightarrow> miasma_error + (bytes \<times> bytes \<times> bytes)" where
  "recover C selected params plaintext_len =
     (case selected of
        [] \<Rightarrow> Inl Panic
      | s0 # _ \<Rightarrow>
          (case rs_decode C (map (\<lambda>s. (unat (slot_index s), shard_data s)) selected) (data_shards params)
                  (total_shards params) (plaintext_len + 16) of
             Inl err \<Rightarrow> Inl err
           | Inr ciphertext \<Rightarrow>
               (case sss_combine C (map key_share selected) (word_of_nat (data_shards params)) of
                  Inl err \<Rightarrow> Inl err
                | Inr k_enc \<Rightarrow>
                    if length k_enc \<noteq> KEY_LEN then Inl Sss else Inr (ciphertext, k_enc, sh_nonce s0))))"

definition retrieve ::
  "cext \<Rightarrow> content_id \<Rightarrow> miasma_share list \<Rightarrow> dissolution_params \<Rightarrow> miasma_error + bytes" where
  "retrieve C mid shares params =
     (if length shares < data_shards params then Inl (InsufficientShares (data_shards params) (length shares))
      else
        let valid = filter (\<lambda>s. coarse_verify C s mid) shares in
        if length valid < data_shards params then Inl (InsufficientShares (data_shards params) (length valid))
        else
          let selected = take (data_shards params) valid in
          (case recover C selected params (unat (original_len (hd selected))) of
             Inl err \<Rightarrow> Inl err
           | Inr (ciphertext, key, nonce) \<Rightarrow>
               (case decrypt C ciphertext key nonce of
                  Inl err \<Rightarrow> Inl err
                | Inr plaintext \<Rightarrow>
                    (case full_verify C plaintext (to_param_bytes params) mid of
                       Inl err \<Rightarrow> Inl err
                     | Inr _ \<Rightarrow> Inr plaintext))))"

section \<open>Segments\<close>

record segment_meta =
  sm_index :: u32
  offset_bytes :: u64
  plaintext_len :: u32
  share_count :: u16

definition LABEL_SEGMENT_KEY :: bytes where
  "LABEL_SEGMENT_KEY = str_bytes ''miasma-seg-key-v1''"

definition segment_key :: "cext \<Rightarrow> bytes \<Rightarrow> bytes \<Rightarrow> content_id \<Rightarrow> u32 \<Rightarrow> bytes" where
  "segment_key C pw_key k_enc mid seg = hkdf C (Some pw_key) k_enc (LABEL_SEGMENT_KEY @ mid @ le_bytes 4 (unat seg))"

text \<open>The AES key of a version-1 segment: \<open>k_enc\<close> itself, or mixed with the password key.\<close>

definition v1_key :: "cext \<Rightarrow> bytes option \<Rightarrow> bytes \<Rightarrow> content_id \<Rightarrow> u32 \<Rightarrow> bytes" where
  "v1_key C pw k_enc mid seg = (case pw of None \<Rightarrow> k_enc | Some pw_key \<Rightarrow> segment_key C pw_key k_enc mid seg)"

definition meta_for :: "u32 \<Rightarrow> u64 \<Rightarrow> bytes \<Rightarrow> dissolution_params \<Rightarrow> segment_meta" where
  "meta_for seg off segment_data params =
     \<lparr>sm_index = seg, offset_bytes = off, plaintext_len = word_of_nat (length segment_data),
      share_count = word_of_nat (total_shards params)\<rparr>"

definition dissolve_segment_with_at ::
  "cext \<Rightarrow> draws \<Rightarrow> bytes \<Rightarrow> content_id \<Rightarrow> u32 \<Rightarrow> u64 \<Rightarrow> dissolution_params \<Rightarrow> bytes option \<Rightarrow> u64 \<Rightarrow>
     miasma_error + (segment_meta \<times> miasma_share list)" where
  "dissolve_segment_with_at C d segment_data mid seg off params pw ts =
     (case encrypt_with_key C segment_data (v1_key C pw (dr_key d) mid seg) (dr_nonce d) of
        Inl err \<Rightarrow> Inl err
      | Inr ciphertext \<Rightarrow>
          (case rs_encode C ciphertext (data_shards params) (total_shards params) of
             Inl err \<Rightarrow> Inl err
           | Inr shards \<Rightarrow>
               (case sss_split C (dr_coeffs d) (dr_key d) (word_of_nat (data_shards params))
                       (word_of_nat (total_shards params)) of
                  Inl err \<Rightarrow> Inl err
                | Inr key_shares \<Rightarrow>
                    Inr (meta_for seg off segment_data params,
                         assemble_shares
                           (\<lambda>i shard key. share_new C mid seg i shard key (dr_nonce d) (word_of_nat (length segment_data)) ts)
                           shards key_shares))))"

definition segment_shares :: "cext \<Rightarrow> content_id \<Rightarrow> segment_meta \<Rightarrow> miasma_share list \<Rightarrow> miasma_share list" where
  "segment_shares C mid meta shares = filter (\<lambda>s. segment_index s = sm_index meta \<and> coarse_verify C s mid) shares"

definition retrieve_segment_with ::
  "cext \<Rightarrow> content_id \<Rightarrow> miasma_share list \<Rightarrow> segment_meta \<Rightarrow> dissolution_params \<Rightarrow> bytes option \<Rightarrow> miasma_error + bytes" where
  "retrieve_segment_with C mid shares meta params pw =
     (let valid = segment_shares C mid meta shares in
      if length valid < data_shards params then Inl (InsufficientShares (data_shards params) (length valid))
      else
        (case recover C (take (data_shards params) valid) params (unat (plaintext_len meta)) of
           Inl err \<Rightarrow> Inl err
         | Inr (ciphertext, k_enc, nonce) \<Rightarrow> decrypt C ciphertext (v1_key C pw k_enc mid (sm_index meta)) nonce))"

definition dissolve_segment_v2_at ::
  "cext \<Rightarrow> draws \<Rightarrow> bytes \<Rightarrow> content_id \<Rightarrow> u32 \<Rightarrow> u64 \<Rightarrow> dissolution_params \<Rightarrow> bytes option \<Rightarrow> u64 \<Rightarrow>
     miasma_error + (segment_meta \<times> miasma_share list)" where
  "dissolve_segment_v2_at C d segment_data mid seg off params pw ts =
     (case aad_new Suite2 TransferSegment mid seg (data_shards params) (total_shards params) (length segment_data) of
        Inl _ \<Rightarrow> Inl Encryption
      | Inr aad \<Rightarrow>
          (case sss_split C (dr_coeffs d) (dr_key d) (word_of_nat (data_shards params)) (word_of_nat (total_shards params)) of
             Inl err \<Rightarrow> Inl err
           | Inr key_shares \<Rightarrow>
               (case seal_segment C (dr_key d) (dr_nonce d) segment_data (aad_encode aad) pw of
                  Inl err \<Rightarrow> Inl err
                | Inr ciphertext \<Rightarrow>
                    (case rs_encode C ciphertext (data_shards params) (total_shards params) of
                       Inl err \<Rightarrow> Inl err
                     | Inr shards \<Rightarrow>
                         Inr (meta_for seg off segment_data params,
                              assemble_shares
                                (\<lambda>i shard key. share_new_v2 C mid seg i shard key (dr_nonce d)
                                   (word_of_nat (length segment_data)) ts)
                                shards key_shares)))))"

definition retrieve_segment_v2 ::
  "cext \<Rightarrow> content_id \<Rightarrow> miasma_share list \<Rightarrow> segment_meta \<Rightarrow> dissolution_params \<Rightarrow> bytes option \<Rightarrow> miasma_error + bytes" where
  "retrieve_segment_v2 C mid shares meta params pw =
     (let valid = segment_shares C mid meta shares in
      if length valid < data_shards params then Inl (InsufficientShares (data_shards params) (length valid))
      else
        (case recover C (take (data_shards params) valid) params (unat (plaintext_len meta)) of
           Inl err \<Rightarrow> Inl err
         | Inr (ciphertext, k_enc, nonce) \<Rightarrow>
             (case aad_new Suite2 TransferSegment mid (sm_index meta) (data_shards params) (total_shards params)
                     (unat (plaintext_len meta)) of
                Inl _ \<Rightarrow> Inl Decryption
              | Inr aad \<Rightarrow>
                  (case open_segment C k_enc nonce ciphertext (aad_encode aad) pw of
                     None \<Rightarrow> Inl Decryption
                   | Some plaintext \<Rightarrow> Inr plaintext))))"

section \<open>Files\<close>

definition DEFAULT_SEGMENT_SIZE :: nat where "DEFAULT_SEGMENT_SIZE = 64 * 1024 * 1024"

record dissolution_manifest =
  mf_version :: u8
  mf_mid :: content_id
  mf_params :: dissolution_params
  total_bytes :: u64
  segment_size :: u32
  segments :: "segment_meta list"
  created_at :: u64

definition total_share_count :: "dissolution_manifest \<Rightarrow> nat" where
  "total_share_count m = sum_list (map (unat \<circ> share_count) (segments m))"

text \<open>\<open>draw i\<close> and \<open>now i\<close> are the random values and the clock of the \<open>i\<close>-th segment.\<close>

fun dissolve_chunks ::
  "cext \<Rightarrow> (nat \<Rightarrow> draws) \<Rightarrow> (nat \<Rightarrow> u64) \<Rightarrow> content_id \<Rightarrow> dissolution_params \<Rightarrow> nat \<Rightarrow> nat \<Rightarrow> bytes list \<Rightarrow>
     miasma_error + (segment_meta list \<times> miasma_share list list)" where
  "dissolve_chunks C draw now mid params sz i [] = Inr ([], [])"
| "dissolve_chunks C draw now mid params sz i (chunk # cs) =
     (case dissolve_segment_with_at C (draw i) chunk mid (word_of_nat i) (word_of_nat (i * sz)) params None (now i) of
        Inl err \<Rightarrow> Inl err
      | Inr (meta, shares) \<Rightarrow>
          (case dissolve_chunks C draw now mid params sz (Suc i) cs of
             Inl err \<Rightarrow> Inl err
           | Inr (metas, all) \<Rightarrow> Inr (meta # metas, shares # all)))"

definition dissolve_file ::
  "cext \<Rightarrow> (nat \<Rightarrow> draws) \<Rightarrow> (nat \<Rightarrow> u64) \<Rightarrow> u64 \<Rightarrow> bytes \<Rightarrow> dissolution_params \<Rightarrow> nat \<Rightarrow>
     miasma_error + (dissolution_manifest \<times> miasma_share list list)" where
  "dissolve_file C draw now created data params sz0 =
     (let sz = max sz0 1;
          mid = mid_compute C data (to_param_bytes params)
      in case dissolve_chunks C draw now mid params sz 0 (if data = [] then [[]] else chunks sz data) of
           Inl err \<Rightarrow> Inl err
         | Inr (metas, all) \<Rightarrow>
             Inr (\<lparr>mf_version = 1, mf_mid = mid, mf_params = params, total_bytes = word_of_nat (length data),
                   segment_size = word_of_nat sz, segments = metas, created_at = created\<rparr>, all))"

fun retrieve_metas ::
  "cext \<Rightarrow> content_id \<Rightarrow> dissolution_params \<Rightarrow> miasma_share list \<Rightarrow> segment_meta list \<Rightarrow> miasma_error + bytes" where
  "retrieve_metas C mid params all [] = Inr []"
| "retrieve_metas C mid params all (meta # metas) =
     (case retrieve_segment_with C mid (filter (\<lambda>s. segment_index s = sm_index meta) all) meta params None of
        Inl err \<Rightarrow> Inl err
      | Inr seg_data \<Rightarrow>
          (case retrieve_metas C mid params all metas of Inl err \<Rightarrow> Inl err | Inr rest \<Rightarrow> Inr (seg_data @ rest)))"

definition retrieve_file :: "cext \<Rightarrow> dissolution_manifest \<Rightarrow> miasma_share list \<Rightarrow> miasma_error + bytes" where
  "retrieve_file C m all =
     (case retrieve_metas C (mf_mid m) (mf_params m) all (segments m) of
        Inl err \<Rightarrow> Inl err
      | Inr output \<Rightarrow>
          (case full_verify C output (to_param_bytes (mf_params m)) (mf_mid m) of
             Inl err \<Rightarrow> Inl err
           | Inr _ \<Rightarrow> Inr output))"

section \<open>Any enough shares give the content back\<close>

definition params_ok :: "dissolution_params \<Rightarrow> bool" where
  "params_ok p \<longleftrightarrow> 0 < data_shards p \<and> data_shards p \<le> total_shards p \<and> total_shards p \<le> 255"

definition draws_ok :: "draws \<Rightarrow> bool" where
  "draws_ok d \<longleftrightarrow> length (dr_key d) = KEY_LEN \<and> length (dr_nonce d) = NONCE_LEN"

text \<open>What the code relies on for given parameters.\<close>

definition laws :: "cext \<Rightarrow> dissolution_params \<Rightarrow> bool" where
  "laws C p \<longleftrightarrow> aead_ok C \<and> kdf_ok C \<and> iter_ok C \<and>
     (data_shards p < total_shards p \<longrightarrow> rs_ok C (data_shards p) (total_shards p - data_shards p)) \<and>
     sss_ok C (word_of_nat (data_shards p)) (word_of_nat (total_shards p))"

text \<open>The first \<open>k\<close> of the shares that passed the checks are different and genuine.\<close>

definition usable :: "nat \<Rightarrow> miasma_share list \<Rightarrow> miasma_share list \<Rightarrow> bool" where
  "usable k genuine valid \<longleftrightarrow> k \<le> length valid \<and> distinct (take k valid) \<and> set (take k valid) \<subseteq> set genuine"

lemma assemble_shares_map:
  assumes "length shards = n" and "length keys = n"
  shows "assemble_shares mk shards keys = map (\<lambda>i. mk (word_of_nat i) (shards ! i) (keys ! i)) [0..<n]"
  using assms by (auto simp: assemble_shares_def intro!: nth_equalityI simp: nth_enumerate_eq)

lemma picked_indices:
  assumes "set sel \<subseteq> f ` {0..<n :: nat}" and "distinct sel"
  obtains "is" where "sel = map f is" and "distinct is" and "set is \<subseteq> {0..<n}"
proof -
  have "\<forall>x\<in>set sel. \<exists>i. x = f i \<and> i \<in> {0..<n}" using assms(1) by fast
  then obtain g where g: "\<forall>x\<in>set sel. x = f (g x) \<and> g x \<in> {0..<n}" by metis
  then have "sel = map f (map g sel)" by (simp add: map_idI)
  moreover from this have "distinct (map g sel)" using assms(2) by (metis distinct_map)
  moreover have "set (map g sel) \<subseteq> {0..<n}" using g by auto
  ultimately show ?thesis using that by blast
qed

definition piece_maker :: "bytes \<Rightarrow> (u16 \<Rightarrow> bytes \<Rightarrow> bytes \<Rightarrow> miasma_share) \<Rightarrow> bool" where
  "piece_maker nonce mk \<longleftrightarrow>
     (\<forall>i shard key. slot_index (mk i shard key) = i \<and> shard_data (mk i shard key) = shard \<and>
       key_share (mk i shard key) = key \<and> sh_nonce (mk i shard key) = nonce)"

lemma unat_u16: "i < 256 \<Longrightarrow> unat (word_of_nat i :: u16) = i"
  by (simp add: unat_of_nat)

lemma unat_u8: "i < 256 \<Longrightarrow> unat (word_of_nat i :: u8) = i"
  by (simp add: unat_of_nat)

lemma sss_okD:
  assumes "sss_ok C k n" and "distinct is" and "set is \<subseteq> {0..<unat n}" and "unat k \<le> length is"
  shows "sss_combine C (map ((!) (sss_dealer C coeffs k secret)) is) k = Inr secret"
proof -
  have "list_all (\<lambda>i. i < unat n) is" using assms(3) by (auto simp: list_all_iff)
  then have "list_all (\<lambda>i. sss_share_ok C (sss_dealer C coeffs k secret ! i)) is \<and>
    sss_recover C k (map ((!) (sss_dealer C coeffs k secret)) is) = Some secret"
    using assms(1,2,4) unfolding sss_ok_def by simp
  then show ?thesis using assms(4) by (auto simp: sss_combine_def list_all_iff)
qed

lemma recover_pieces:
  assumes "coded C k (n - k) len orig rec" and "0 < k" and "k \<le> n" and "n \<le> 255" and "iter_ok C"
    and "sss_ok C (word_of_nat k) (word_of_nat n)" and "piece_maker nonce mk" and "length secret = KEY_LEN"
    and "set sel \<subseteq> set (assemble_shares mk (orig @ rec) (take n (sss_dealer C coeffs (word_of_nat k) secret)))"
    and "distinct sel" and "length sel = k"
  shows "recover C sel \<lparr>data_shards = k, total_shards = n\<rparr> plen = Inr (take (plen + 16) (concat orig), secret, nonce)"
proof -
  let ?keys = "sss_dealer C coeffs (word_of_nat k) secret"
  let ?f = "\<lambda>i. mk (word_of_nat i) ((orig @ rec) ! i) (take n ?keys ! i)"
  have len: "length (orig @ rec) = n" "length (take n ?keys) = n"
    using assms(1,3,4,6) by (auto simp: coded_def sss_ok_def unat_u8)
  then have "set sel \<subseteq> ?f ` {0..<n}"
    using assms(9) assemble_shares_map [OF len, of mk] by simp
  then obtain "is" where "is": "sel = map ?f is" "distinct is" "set is \<subseteq> {0..<n}"
    using picked_indices [OF _ assms(10)] by blast
  have i: "unat (word_of_nat i :: u16) = i" if "i \<in> set is" for i
    using that "is"(3) assms(4) by (intro unat_u16) auto
  have avail: "map (\<lambda>s. (unat (slot_index s), shard_data s)) sel = map (\<lambda>i. (i, (orig @ rec) ! i)) is"
    using assms(7) i by (simp add: "is"(1) piece_maker_def)
  have keys: "map key_share sel = map ((!) ?keys) is"
    using assms(7) "is"(3) by (auto simp: "is"(1) piece_maker_def)
  have "list_all (shard_of (orig @ rec)) (map (\<lambda>i. (i, (orig @ rec) ! i)) is)"
    using "is"(3) len(1) by (auto simp: list_all_iff shard_of_def)
  moreover have "fst ` set (map (\<lambda>i. (i, (orig @ rec) ! i)) is) = set is" by force
  moreover have "length is = k" using assms(11) "is"(1) by simp
  ultimately have "rs_decode C (map (\<lambda>i. (i, (orig @ rec) ! i)) is) k n (plen + 16) = Inr (take (plen + 16) (concat orig))"
    using rs_decode_coded [OF assms(1) _ _ assms(5)] assms(3) distinct_card [OF "is"(2)] by simp
  moreover have "sss_combine C (map ((!) ?keys) is) (word_of_nat k) = Inr secret"
    using sss_okD [OF assms(6) "is"(2)] "is"(3) \<open>length is = k\<close> assms(3,4) by (simp add: unat_u8)
  moreover have "sh_nonce (hd sel) = nonce" "sel \<noteq> []"
    using assms(2,11) "is"(1) assms(7) by (cases "is"; auto simp: piece_maker_def)+
  ultimately show ?thesis using avail keys assms(8) by (cases sel) (auto simp: recover_def)
qed

text \<open>
  What dissolving one text gives, for every way of making a share: the shares, and the ciphertext, key and nonce
  recovered from any \<open>k\<close> of them.
\<close>

lemma assembled_distinct:
  assumes "piece_maker nonce mk" and "length shards = n" and "length keys = n" and "n \<le> 255"
  shows "distinct (assemble_shares mk shards keys)"
proof -
  have "inj_on (\<lambda>i. mk (word_of_nat i) (shards ! i) (keys ! i)) {0..<n}"
  proof (rule inj_onI)
    fix i j
    assume "i \<in> {0..<n}" "j \<in> {0..<n}" "mk (word_of_nat i) (shards ! i) (keys ! i) = mk (word_of_nat j) (shards ! j) (keys ! j)"
    then have "slot_index (mk (word_of_nat i) (shards ! i) (keys ! i)) = slot_index (mk (word_of_nat j) (shards ! j) (keys ! j))"
      and ij: "i < 256" "j < 256"
      using assms(4) by auto
    then have "(word_of_nat i :: u16) = word_of_nat j" using assms(1) by (simp add: piece_maker_def)
    then show "i = j" using unat_u16 [OF ij(1)] unat_u16 [OF ij(2)] by metis
  qed
  then show ?thesis using assms(2,3) by (simp add: assemble_shares_map distinct_map)
qed

lemma params_eta: "\<lparr>data_shards = data_shards p, total_shards = total_shards p\<rparr> = p"
  by simp

lemma dissolved_pieces:
  assumes "params_ok params" and "laws C params" and "length secret = KEY_LEN"
  obtains shards keys where "rs_encode C ct (data_shards params) (total_shards params) = Inr shards"
    and "sss_split C coeffs secret (word_of_nat (data_shards params)) (word_of_nat (total_shards params)) = Inr keys"
    and "\<And>mk. length (assemble_shares mk shards keys) = total_shards params"
    and "\<And>nonce mk. piece_maker nonce mk \<Longrightarrow> distinct (assemble_shares mk shards keys) \<and>
      map slot_index (assemble_shares mk shards keys) = map word_of_nat [0..<total_shards params]"
    and "\<And>nonce mk sel plen. piece_maker nonce mk \<Longrightarrow> set sel \<subseteq> set (assemble_shares mk shards keys) \<Longrightarrow>
      distinct sel \<Longrightarrow> length sel = data_shards params \<Longrightarrow> plen + 16 = length ct \<Longrightarrow>
      recover C sel params plen = Inr (ct, secret, nonce)"
proof -
  let ?k = "data_shards params" and ?n = "total_shards params"
  have k: "0 < ?k" "?k \<le> ?n" "?n \<le> 255" using assms(1) by (auto simp: params_ok_def)
  have l: "?k < ?n \<longrightarrow> rs_ok C ?k (?n - ?k)" "iter_ok C" "sss_ok C (word_of_nat ?k) (word_of_nat ?n)"
    using assms(2) by (auto simp: laws_def)
  obtain orig rec where enc: "rs_encode C ct ?k ?n = Inr (orig @ rec)"
    and coded: "coded C ?k (?n - ?k) (shard_len_for (length ct) ?k) orig rec"
    and cat: "take (length ct) (concat orig) = ct"
    using rs_encode_coded [OF k(1,2) l(1)] by blast
  let ?keys = "take ?n (sss_dealer C coeffs (word_of_nat ?k) secret)"
  have "length ?keys = ?n" using l(3) k(3) by (auto simp: sss_ok_def unat_u8)
  then have "length (assemble_shares mk (orig @ rec) ?keys) = ?n" for mk
    using coded k(2) by (simp add: assemble_shares_def coded_def)
  moreover have "distinct (assemble_shares mk (orig @ rec) ?keys) \<and>
      map slot_index (assemble_shares mk (orig @ rec) ?keys) = map word_of_nat [0..<?n]" if "piece_maker nonce mk" for nonce mk
    using assembled_distinct [OF that _ \<open>length ?keys = ?n\<close>] coded k(2,3) that \<open>length ?keys = ?n\<close>
    by (simp add: coded_def assemble_shares_map piece_maker_def)
  moreover have "sss_split C coeffs secret (word_of_nat ?k) (word_of_nat ?n) = Inr ?keys"
    using k by (auto simp: sss_split_def unat_u8 word_less_nat_alt word_unat_eq_iff)
  moreover have "recover C sel params plen = Inr (ct, secret, nonce)"
    if "piece_maker nonce mk" "set sel \<subseteq> set (assemble_shares mk (orig @ rec) ?keys)" "distinct sel"
      "length sel = ?k" "plen + 16 = length ct" for nonce mk sel plen
    using recover_pieces [OF coded k l(2,3) that(1) assms(3) that(2-4), of plen] cat that(5)
    unfolding params_eta by simp
  ultimately show ?thesis using that enc by blast
qed

lemma piece_maker_new: "piece_maker nonce (\<lambda>i shard key. share_new C mid seg i shard key nonce olen ts)"
  by (simp add: piece_maker_def share_new_def)

lemma piece_maker_v2: "piece_maker nonce (\<lambda>i shard key. share_new_v2 C mid seg i shard key nonce olen ts)"
  by (simp add: piece_maker_def share_new_v2_def)

lemma aead_okD:
  "aead_ok C \<Longrightarrow> length key = KEY_LEN \<Longrightarrow> length nonce = NONCE_LEN \<Longrightarrow> length text < 2 ^ 32 \<Longrightarrow>
     \<exists>ct. aes_seal C key nonce aad text = Some ct \<and> length ct = length text + 16 \<and> aes_open C key nonce aad ct = Some text"
  by (simp add: aead_ok_def)

lemma olen_word: "length text < 2 ^ 32 \<Longrightarrow> unat (word_of_nat (length text) :: u32) = length text"
  by (simp add: unat_of_nat)

lemma share_in_assembled:
  assumes "s \<in> set (assemble_shares mk shards keys)"
  obtains i shard key where "s = mk i shard key"
  using assms by (auto simp: assemble_shares_def)

lemma dissolved_content:
  assumes "params_ok params" and "laws C params" and "draws_ok d" and "length plaintext < 2 ^ 32"
  shows "\<exists>shares. dissolve_at C d plaintext params ts = Inr (mid_compute C plaintext (to_param_bytes params), shares) \<and>
    length shares = total_shards params \<and> distinct shares \<and>
    map slot_index shares = map word_of_nat [0..<total_shards params] \<and> list_all (\<lambda>s. segment_index s = 0) shares \<and>
    list_all (\<lambda>s. coarse_verify C s (mid_compute C plaintext (to_param_bytes params))) shares \<and>
    (\<forall>pool. usable (data_shards params) shares
        (filter (\<lambda>s. coarse_verify C s (mid_compute C plaintext (to_param_bytes params))) pool) \<longrightarrow>
      retrieve C (mid_compute C plaintext (to_param_bytes params)) pool params = Inr plaintext)"
proof -
  let ?mid = "mid_compute C plaintext (to_param_bytes params)" and ?k = "data_shards params"
  obtain ct where ct: "aes_seal C (dr_key d) (dr_nonce d) [] plaintext = Some ct" "length ct = length plaintext + 16"
    "aes_open C (dr_key d) (dr_nonce d) [] ct = Some plaintext"
    using aead_okD [of C "dr_key d" "dr_nonce d" plaintext "[]"] assms(2-4) by (auto simp: laws_def draws_ok_def)
  obtain shards keys where sk: "rs_encode C ct ?k (total_shards params) = Inr shards"
    "sss_split C (dr_coeffs d) (dr_key d) (word_of_nat ?k) (word_of_nat (total_shards params)) = Inr keys"
    "\<And>mk. length (assemble_shares mk shards keys) = total_shards params"
    "\<And>nonce mk. piece_maker nonce mk \<Longrightarrow> distinct (assemble_shares mk shards keys) \<and>
      map slot_index (assemble_shares mk shards keys) = map word_of_nat [0..<total_shards params]"
    and rec: "\<And>nonce mk sel plen. piece_maker nonce mk \<Longrightarrow> set sel \<subseteq> set (assemble_shares mk shards keys) \<Longrightarrow>
      distinct sel \<Longrightarrow> length sel = ?k \<Longrightarrow> plen + 16 = length ct \<Longrightarrow> recover C sel params plen = Inr (ct, dr_key d, nonce)"
    using dissolved_pieces [OF assms(1,2), of "dr_key d" ct "dr_coeffs d"] assms(3) by (auto simp: draws_ok_def)
  let ?mk = "\<lambda>i shard key. share_new C ?mid 0 i shard key (dr_nonce d) (word_of_nat (length plaintext)) ts"
  let ?shares = "assemble_shares ?mk shards keys"
  have "retrieve C ?mid pool params = Inr plaintext"
    if *: "usable ?k ?shares (filter (\<lambda>s. coarse_verify C s ?mid) pool)" for pool
  proof -
    let ?valid = "filter (\<lambda>s. coarse_verify C s ?mid) pool"
    let ?sel = "take ?k ?valid"
    have sel: "length ?sel = ?k" "set ?sel \<subseteq> set ?shares" "distinct ?sel" using * by (auto simp: usable_def)
    have "?sel \<noteq> []" using sel(1) assms(1) by (auto simp: params_ok_def)
    then have "hd ?sel \<in> set ?shares" using sel(2) by (meson hd_in_set subsetD)
    then have "unat (original_len (hd ?sel)) = length plaintext"
      using olen_word [OF assms(4)] by (auto simp: share_new_def elim!: share_in_assembled)
    then have "recover C ?sel params (unat (original_len (hd ?sel))) = Inr (ct, dr_key d, dr_nonce d)"
      using rec [OF piece_maker_new sel(2,3,1)] ct(2) by simp
    moreover have "\<not> length pool < ?k"
      using * length_filter_le [of "\<lambda>s. coarse_verify C s ?mid" pool] unfolding usable_def by linarith
    ultimately show ?thesis
      using * ct(3) unfolding retrieve_def Let_def usable_def by (simp add: decrypt_def full_verify_def)
  qed
  moreover have "segment_index s = 0 \<and> coarse_verify C s ?mid" if "s \<in> set ?shares" for s
    using that by (rule share_in_assembled) (simp add: coarse_verify_def share_new_def)
  ultimately show ?thesis
    using ct(1) sk(1-3) sk(4) [OF piece_maker_new] by (simp add: dissolve_at_def Let_def encrypt_with_key_def list_all_iff)
qed

text \<open>
  C1: Dissolving a content of less than 4 GiB with \<open>0 < k \<le> n \<le> 255\<close> succeeds and gives \<open>n\<close> shares. Retrieval
  from any pool of shares, in any order and with any other shares among them, returns exactly the content
  when the first \<open>k\<close> that pass the coarse check are different genuine shares.
\<close>

theorem dissolve_retrieve:
  assumes "params_ok params" and "laws C params" and "draws_ok d" and "length plaintext < 2 ^ 32"
  shows "\<exists>shares. dissolve_at C d plaintext params ts = Inr (mid_compute C plaintext (to_param_bytes params), shares) \<and>
    length shares = total_shards params \<and> distinct shares \<and>
    list_all (\<lambda>s. coarse_verify C s (mid_compute C plaintext (to_param_bytes params))) shares \<and>
    (\<forall>pool. usable (data_shards params) shares
        (filter (\<lambda>s. coarse_verify C s (mid_compute C plaintext (to_param_bytes params))) pool) \<longrightarrow>
      retrieve C (mid_compute C plaintext (to_param_bytes params)) pool params = Inr plaintext)"
  using dissolved_content [OF assms] by blast

section \<open>Segments and files\<close>

lemma v1_key_length: "kdf_ok C \<Longrightarrow> length k_enc = KEY_LEN \<Longrightarrow> length (v1_key C pw k_enc mid seg) = KEY_LEN"
  by (cases pw) (auto simp: v1_key_def segment_key_def kdf_ok_def)

lemma meta_for_simps [simp]:
  "sm_index (meta_for seg off text params) = seg"
  "plaintext_len (meta_for seg off text params) = word_of_nat (length text)"
  "length text < 2 ^ 32 \<Longrightarrow> unat (word_of_nat (length text) :: u32) = length text"
  using olen_word by (simp_all add: meta_for_def)

lemma usable_selected:
  assumes "usable k shares valid"
  shows "length (take k valid) = k" and "set (take k valid) \<subseteq> set shares" and "distinct (take k valid)"
    and "\<not> length valid < k"
  using assms by (auto simp: usable_def)

definition genuine :: "cext \<Rightarrow> content_id \<Rightarrow> dissolution_params \<Rightarrow> segment_meta \<Rightarrow> miasma_share list \<Rightarrow> bool" where
  "genuine C mid params meta shares \<longleftrightarrow>
     length shares = total_shards params \<and> distinct shares \<and>
     map slot_index shares = map word_of_nat [0..<total_shards params] \<and>
     list_all (\<lambda>s. segment_index s = sm_index meta \<and> original_len s = plaintext_len meta \<and> coarse_verify C s mid) shares"

lemma segment_roundtrip:
  assumes "params_ok params" and "laws C params" and "draws_ok d" and "length text < 2 ^ 32"
  obtains shares where "dissolve_segment_with_at C d text mid seg off params pw ts = Inr (meta_for seg off text params, shares)"
    and "genuine C mid params (meta_for seg off text params) shares"
    and "\<And>pool. usable (data_shards params) shares (segment_shares C mid (meta_for seg off text params) pool) \<Longrightarrow>
      retrieve_segment_with C mid pool (meta_for seg off text params) params pw = Inr text"
proof -
  let ?k = "data_shards params" and ?key = "v1_key C pw (dr_key d) mid seg"
  have key: "length (dr_key d) = KEY_LEN" using assms(3) by (simp add: draws_ok_def)
  obtain ct where ct: "aes_seal C ?key (dr_nonce d) [] text = Some ct" "length ct = length text + 16"
    "aes_open C ?key (dr_nonce d) [] ct = Some text"
    using aead_okD [of C ?key "dr_nonce d" "text" "[]"] v1_key_length [OF _ key] assms(2-4)
    by (auto simp: laws_def draws_ok_def)
  obtain shards keys where sk: "rs_encode C ct ?k (total_shards params) = Inr shards"
    "sss_split C (dr_coeffs d) (dr_key d) (word_of_nat ?k) (word_of_nat (total_shards params)) = Inr keys"
    "\<And>mk. length (assemble_shares mk shards keys) = total_shards params"
    "\<And>nonce mk. piece_maker nonce mk \<Longrightarrow> distinct (assemble_shares mk shards keys) \<and>
      map slot_index (assemble_shares mk shards keys) = map word_of_nat [0..<total_shards params]"
    and rec: "\<And>nonce mk sel plen. piece_maker nonce mk \<Longrightarrow> set sel \<subseteq> set (assemble_shares mk shards keys) \<Longrightarrow>
      distinct sel \<Longrightarrow> length sel = ?k \<Longrightarrow> plen + 16 = length ct \<Longrightarrow> recover C sel params plen = Inr (ct, dr_key d, nonce)"
    using dissolved_pieces [OF assms(1,2) key, of ct "dr_coeffs d"] by blast
  let ?mk = "\<lambda>i shard key. share_new C mid seg i shard key (dr_nonce d) (word_of_nat (length text)) ts"
  let ?shares = "assemble_shares ?mk shards keys"
  have "retrieve_segment_with C mid pool (meta_for seg off text params) params pw = Inr text"
    if sel: "usable ?k ?shares (segment_shares C mid (meta_for seg off text params) pool)" for pool
  proof -
    note picked = usable_selected [OF sel]
    show ?thesis
      using rec [OF piece_maker_new picked(2,3,1), of "length text"] picked(4) ct assms(4)
      by (simp add: retrieve_segment_with_def Let_def decrypt_def)
  qed
  moreover have "segment_index s = seg \<and> original_len s = word_of_nat (length text) \<and> coarse_verify C s mid"
    if "s \<in> set ?shares" for s
    using that by (rule share_in_assembled) (simp add: coarse_verify_def share_new_def)
  ultimately show ?thesis
    using that [of ?shares] ct(1) sk(1-3) sk(4) [OF piece_maker_new]
    by (simp add: dissolve_segment_with_at_def encrypt_with_key_def list_all_iff genuine_def)
qed

text \<open>
  A version-2 segment is bound to its place. Sealing and splitting it with or without a password succeeds,
  and retrieval from any pool whose first \<open>k\<close> checked shares are different genuine ones returns the segment.
\<close>

theorem segment_v2_roundtrip:
  assumes "params_ok params" and "laws C params" and "draws_ok d" and "length text < 2 ^ 32"
  shows "\<exists>shares. dissolve_segment_v2_at C d text mid seg off params pw ts = Inr (meta_for seg off text params, shares) \<and>
    length shares = total_shards params \<and> distinct shares \<and>
    list_all (\<lambda>s. segment_index s = seg \<and> coarse_verify C s mid) shares \<and>
    (\<forall>pool. usable (data_shards params) shares (segment_shares C mid (meta_for seg off text params) pool) \<longrightarrow>
      retrieve_segment_v2 C mid pool (meta_for seg off text params) params pw = Inr text)"
proof -
  let ?k = "data_shards params" and ?n = "total_shards params"
  have key: "length (dr_key d) = KEY_LEN" "length (dr_nonce d) = NONCE_LEN" using assms(3) by (simp_all add: draws_ok_def)
  obtain aad where aad: "aad_new Suite2 TransferSegment mid seg ?k ?n (length text) = Inr aad"
    using assms(1,4) by (auto simp: aad_new_def params_ok_def)
  let ?key = "derive_segment_key_v2 C (dr_key d) pw (aad_encode aad)"
  have "length ?key = KEY_LEN" using assms(2) by (simp add: laws_def kdf_ok_def derive_segment_key_v2_def)
  then obtain ct where ct: "aes_seal C ?key (dr_nonce d) (aad_encode aad) text = Some ct" "length ct = length text + 16"
    "aes_open C ?key (dr_nonce d) (aad_encode aad) ct = Some text"
    using aead_okD [of C ?key "dr_nonce d" "text" "aad_encode aad"] key assms(2,4) by (auto simp: laws_def)
  obtain shards keys where sk: "rs_encode C ct ?k ?n = Inr shards"
    "sss_split C (dr_coeffs d) (dr_key d) (word_of_nat ?k) (word_of_nat ?n) = Inr keys"
    "\<And>mk. length (assemble_shares mk shards keys) = ?n"
    "\<And>nonce mk. piece_maker nonce mk \<Longrightarrow> distinct (assemble_shares mk shards keys) \<and>
      map slot_index (assemble_shares mk shards keys) = map word_of_nat [0..<total_shards params]"
    and rec: "\<And>nonce mk sel plen. piece_maker nonce mk \<Longrightarrow> set sel \<subseteq> set (assemble_shares mk shards keys) \<Longrightarrow>
      distinct sel \<Longrightarrow> length sel = ?k \<Longrightarrow> plen + 16 = length ct \<Longrightarrow> recover C sel params plen = Inr (ct, dr_key d, nonce)"
    using dissolved_pieces [OF assms(1,2) key(1), of ct "dr_coeffs d"] by blast
  let ?mk = "\<lambda>i shard key. share_new_v2 C mid seg i shard key (dr_nonce d) (word_of_nat (length text)) ts"
  let ?shares = "assemble_shares ?mk shards keys"
  have "retrieve_segment_v2 C mid pool (meta_for seg off text params) params pw = Inr text"
    if sel: "usable ?k ?shares (segment_shares C mid (meta_for seg off text params) pool)" for pool
  proof -
    note picked = usable_selected [OF sel]
    show ?thesis
      using rec [OF piece_maker_v2 picked(2,3,1), of "length text"] picked(4) ct aad assms(4)
      by (simp add: retrieve_segment_v2_def Let_def open_segment_def)
  qed
  moreover have "segment_index s = seg \<and> coarse_verify C s mid" if "s \<in> set ?shares" for s
    using that by (rule share_in_assembled) (simp add: coarse_verify_def share_new_v2_def)
  ultimately show ?thesis
    using ct(1) sk(1-3) sk(4) [OF piece_maker_v2] aad
    by (simp add: dissolve_segment_v2_at_def seal_segment_def list_all_iff)
qed

lemma segment_shares_idem:
  "segment_shares C mid meta (filter (\<lambda>s. segment_index s = sm_index meta) pool) = segment_shares C mid meta pool"
  by (auto simp: segment_shares_def intro: filter_cong)

lemma retrieve_segment_filter:
  "retrieve_segment_with C mid (filter (\<lambda>s. segment_index s = sm_index meta) pool) meta params pw =
     retrieve_segment_with C mid pool meta params pw"
  by (simp add: retrieve_segment_with_def segment_shares_idem)

lemma dissolve_chunks_roundtrip:
  assumes "params_ok params" and "laws C params" and "\<forall>i. draws_ok (draw i)" and "\<forall>c\<in>set cs. length c < 2 ^ 32"
  shows "\<exists>metas all. dissolve_chunks C draw now mid params sz i cs = Inr (metas, all) \<and>
    list_all2 (genuine C mid params) metas all \<and> map sm_index metas = map word_of_nat [i..<i + length cs] \<and>
    (\<forall>pool. list_all2 (\<lambda>m shares. usable (data_shards params) shares (segment_shares C mid m pool)) metas all \<longrightarrow>
      retrieve_metas C mid params pool metas = Inr (concat cs))"
  using assms(4)
proof (induction cs arbitrary: i)
  case (Cons c cs)
  define meta where "meta = meta_for (word_of_nat i) (word_of_nat (i * sz)) c params"
  have "length c < 2 ^ 32" using Cons.prems by simp
  then obtain shares where one: "dissolve_segment_with_at C (draw i) c mid (word_of_nat i) (word_of_nat (i * sz)) params None (now i) =
      Inr (meta, shares)"
    and gen: "genuine C mid params meta shares"
    and again: "\<And>pool. usable (data_shards params) shares (segment_shares C mid meta pool) \<Longrightarrow>
      retrieve_segment_with C mid pool meta params None = Inr c"
    using segment_roundtrip [OF assms(1,2) spec [OF assms(3), of i], of c mid "word_of_nat i" "word_of_nat (i * sz)" None "now i"]
    unfolding meta_def by blast
  obtain metas all where rest: "dissolve_chunks C draw now mid params sz (Suc i) cs = Inr (metas, all)"
    "list_all2 (genuine C mid params) metas all" "map sm_index metas = map word_of_nat [Suc i..<Suc i + length cs]"
    "\<forall>pool. list_all2 (\<lambda>m shares. usable (data_shards params) shares (segment_shares C mid m pool)) metas all \<longrightarrow>
      retrieve_metas C mid params pool metas = Inr (concat cs)"
    using Cons.IH [of "Suc i"] Cons.prems by auto
  have ix: "map sm_index (meta # metas) = map word_of_nat [i..<i + length (c # cs)]"
    unfolding list.map rest(3) by (subst (2) upt_conv_Cons) (simp_all add: meta_def)
  show ?case
    using gen ix by (intro exI [of _ "meta # metas"] exI [of _ "shares # all"])
      (simp add: one rest again retrieve_segment_filter del: of_nat_mult upt_Suc list.map)
qed auto

lemma filter_concat_nth:
  assumes "j < length xss" and "\<And>i x. i < length xss \<Longrightarrow> x \<in> set (xss ! i) \<Longrightarrow> P x \<longleftrightarrow> i = j"
  shows "filter P (concat xss) = xss ! j"
  using assms
proof (induction xss arbitrary: j)
  case (Cons xs xss)
  have head: "P x \<longleftrightarrow> 0 = j" if "x \<in> set xs" for x using Cons.prems(2) [of 0 x] that by simp
  have tail: "P x \<longleftrightarrow> Suc i = j" if "i < length xss" "x \<in> set (xss ! i)" for i x
    using Cons.prems(2) [of "Suc i" x] that by simp
  show ?case
  proof (cases j)
    case 0
    then have "\<forall>x\<in>set (concat xss). \<not> P x" using tail by (fastforce simp: in_set_conv_nth)
    moreover have "filter P xs = xs" using head 0 by simp
    ultimately show ?thesis using 0 by (simp add: filter_empty_conv)
  next
    case (Suc i)
    then have "filter P xs = []" using head by (simp add: filter_empty_conv)
    moreover have "filter P (concat xss) = xss ! i" using Suc Cons.prems(1) tail by (intro Cons.IH) auto
    ultimately show ?thesis using Suc by simp
  qed
qed simp

lemma full_pool_usable:
  assumes "params_ok params" and "list_all2 (genuine C mid params) metas all" and "distinct (map sm_index metas)"
  shows "list_all2 (\<lambda>m shares. usable (data_shards params) shares (segment_shares C mid m (concat all))) metas all"
proof (rule list_all2_all_nthI)
  show len: "length metas = length all" using assms(2) by (rule list_all2_lengthD)
  fix j
  assume j: "j < length metas"
  have g: "genuine C mid params (metas ! i) (all ! i)" if "i < length metas" for i
    using assms(2) that by (rule list_all2_nthD)
  have "segment_shares C mid (metas ! j) (concat all) = all ! j"
    unfolding segment_shares_def
  proof (rule filter_concat_nth)
    fix i x
    assume i: "i < length all" "x \<in> set (all ! i)"
    then have "segment_index x = sm_index (metas ! i)" "coarse_verify C x mid"
      using g [of i] len by (auto simp: genuine_def list_all_iff)
    then show "(segment_index x = sm_index (metas ! j) \<and> coarse_verify C x mid) \<longleftrightarrow> i = j"
      using nth_eq_iff_index_eq [OF assms(3), of i j] i j len by auto
  qed (use j len in simp)
  then show "usable (data_shards params) (all ! j) (segment_shares C mid (metas ! j) (concat all))"
    using g [OF j] assms(1) by (auto simp: usable_def genuine_def params_ok_def dest: in_set_takeD)
qed

lemma distinct_words: "n \<le> 2 ^ 32 \<Longrightarrow> distinct (map (word_of_nat :: nat \<Rightarrow> u32) [0..<n])"
  by (auto simp: distinct_map inj_on_def word_unat_eq_iff unat_of_nat)

text \<open>
  A file of any size is dissolved segment by segment into a manifest and shares, and every pool of shares in
  which each segment has \<open>k\<close> different genuine shares first gives the file back; all the shares together are such a pool.
\<close>

theorem file_roundtrip:
  assumes "params_ok params" and "laws C params" and "\<forall>i. draws_ok (draw i)" and "sz < 2 ^ 32"
  shows "\<exists>m all. dissolve_file C draw now created data params sz = Inr (m, all) \<and>
    (\<forall>pool. list_all2 (\<lambda>meta shares. usable (data_shards params) shares (segment_shares C (mf_mid m) meta pool))
        (segments m) all \<longrightarrow>
      retrieve_file C m pool = Inr data) \<and>
    (length (segments m) \<le> 2 ^ 32 \<longrightarrow> retrieve_file C m (concat all) = Inr data)"
proof -
  let ?cs = "if data = [] then [[]] else chunks (max sz 1) data" and ?mid = "mid_compute C data (to_param_bytes params)"
  have sz: "max sz 1 < (2 :: nat) ^ 32" using assms(4) by simp
  have "length c \<le> max sz 1" if "c \<in> set ?cs" for c
    using that chunks_size [of "max sz 1" data] by (cases "data = []") auto
  then have "\<forall>c\<in>set ?cs. length c < 2 ^ 32" using sz by (meson le_less_trans)
  moreover have "concat ?cs = data" using chunks_concat [of "max sz 1" data] by simp
  ultimately obtain metas all where made: "dissolve_chunks C draw now ?mid params (max sz 1) 0 ?cs = Inr (metas, all)"
    and gen: "list_all2 (genuine C ?mid params) metas all" and ix: "map sm_index metas = map word_of_nat [0..<length ?cs]"
    and again: "\<forall>pool. list_all2 (\<lambda>m shares. usable (data_shards params) shares (segment_shares C ?mid m pool)) metas all \<longrightarrow>
      retrieve_metas C ?mid params pool metas = Inr data"
    using dissolve_chunks_roundtrip [OF assms(1-3), where cs = ?cs and now = now and i = 0 and sz = "max sz 1" and mid = ?mid]
    by auto
  have n: "length metas = length ?cs" using arg_cong [OF ix, of length] by simp
  have "retrieve_metas C ?mid params (concat all) metas = Inr data" if "length metas \<le> 2 ^ 32"
    using again full_pool_usable [OF assms(1) gen] distinct_words [of "length ?cs"] that ix n by simp
  then show ?thesis
    using made again unfolding dissolve_file_def Let_def by (auto simp: retrieve_file_def full_verify_def)
qed

section \<open>The identifier determines content and parameters\<close>

definition digits_val :: "bytes \<Rightarrow> nat" where
  "digits_val ds = foldl (\<lambda>a b. a * 10 + (unat b - 48)) 0 ds"

lemma unat_digit: "m < 10 \<Longrightarrow> unat (word_of_nat (48 + m) :: u8) = 48 + m"
  by (simp add: unat_of_nat del: of_nat_add of_nat_numeral)

lemma digits_val_decimal: "digits_val (decimal n) = n"
proof (induction n rule: decimal.induct)
  case (1 n)
  show ?case
  proof (cases "n < 10")
    case True
    then show ?thesis using unat_digit [of n] by (simp add: decimal.simps [of n] digits_val_def)
  next
    case False
    then have "digits_val (decimal n) = digits_val (decimal (n div 10)) * 10 + n mod 10"
      using unat_digit [of "n mod 10"] by (subst decimal.simps) (simp add: digits_val_def)
    then show ?thesis using 1 [OF False] by simp
  qed
qed

lemma decimal_inj: "decimal m = decimal n \<Longrightarrow> m = n"
  using digits_val_decimal by metis

lemma decimal_digits: "b \<in> set (decimal n) \<Longrightarrow> 48 \<le> unat b \<and> unat b \<le> 57"
proof (induction n rule: decimal.induct)
  case (1 n)
  then show ?case using unat_digit [of n] unat_digit [of "n mod 10"] decimal.simps [of n] by (cases "n < 10") auto
qed

lemma not_digit: "b \<notin> set (decimal n)" if "unat b < 48 \<or> 57 < unat b"
  using decimal_digits [of b n] that by auto

lemma split_first: "x \<notin> set a \<Longrightarrow> x \<notin> set b \<Longrightarrow> a @ x # r = b @ x # t \<Longrightarrow> a = b \<and> r = t"
  by (induction a arbitrary: b; case_tac b) auto

lemma split_last:
  assumes "x \<notin> set r" and "x \<notin> set t" and "a @ x # r = b @ x # t"
  shows "a = b \<and> r = t"
proof -
  have "rev r @ x # rev a = rev t @ x # rev b" using arg_cong [OF assms(3), of rev] by simp
  then show ?thesis using split_first [of x "rev r" "rev t" "rev a" "rev b"] assms(1,2) by simp
qed

lemma param_bytes_shape:
  "to_param_bytes p = 107 # 61 # decimal (data_shards p) @ 44 # 110 # 61 # decimal (total_shards p) @ 44 # 118 # 61 # [49]"
  by (simp add: to_param_bytes_def str_bytes_def PROTOCOL_VERSION_def decimal.simps of_char_def)

lemma mid_input_injective:
  assumes "c @ to_param_bytes p = c' @ to_param_bytes p'"
  shows "c = c' \<and> p = p'"
proof -
  have no: "107 \<notin> set (decimal n)" "44 \<notin> set (decimal n)" for n by (rule not_digit; simp)+
  have "c = c'" and tail: "61 # decimal (data_shards p) @ 44 # 110 # 61 # decimal (total_shards p) @ 44 # 118 # 61 # [49] =
    61 # decimal (data_shards p') @ 44 # 110 # 61 # decimal (total_shards p') @ 44 # 118 # 61 # [49 :: u8]"
    using split_last [of 107 "61 # decimal (data_shards p) @ 44 # 110 # 61 # decimal (total_shards p) @ 44 # 118 # 61 # [49]"
        "61 # decimal (data_shards p') @ 44 # 110 # 61 # decimal (total_shards p') @ 44 # 118 # 61 # [49]" c c'] assms no
    unfolding param_bytes_shape by simp_all
  from tail have e: "decimal (data_shards p) @ 44 # 110 # 61 # decimal (total_shards p) @ 44 # 118 # 61 # [49] =
    decimal (data_shards p') @ 44 # 110 # 61 # decimal (total_shards p') @ 44 # 118 # 61 # [49 :: u8]"
    by simp
  have k: "decimal (data_shards p) = decimal (data_shards p')" and
    "110 # 61 # decimal (total_shards p) @ 44 # 118 # 61 # [49] = 110 # 61 # decimal (total_shards p') @ 44 # 118 # 61 # [49 :: u8]"
    using split_first [OF no(2) no(2) e] by blast+
  then have "decimal (total_shards p) @ 44 # 118 # 61 # [49] = decimal (total_shards p') @ 44 # 118 # 61 # [49 :: u8]"
    by simp
  then have "decimal (total_shards p) = decimal (total_shards p')" using split_first [OF no(2) no(2)] by blast
  with k \<open>c = c'\<close> show ?thesis using decimal_inj by (auto intro: dissolution_params.equality)
qed

lemma full_verify_iff: "full_verify C p params mid = Inr () \<longleftrightarrow> mid_compute C p params = mid"
  by (simp add: full_verify_def)

lemma retrieve_hash: "retrieve C mid pool params = Inr p \<Longrightarrow> mid_compute C p (to_param_bytes params) = mid"
  by (auto simp: retrieve_def Let_def Inr_simps case_prod_Inr case_triple_Inr full_verify_iff)

lemma retrieve_file_hash:
  "retrieve_file C m pool = Inr p \<Longrightarrow> mid_compute C p (to_param_bytes (mf_params m)) = mf_mid m"
  by (auto simp: retrieve_file_def Inr_simps full_verify_iff)

text \<open>
  C6: Retrieval is authentic. Whatever shares the network supplies, content that whole-content or file
  retrieval returns hashes to the identifier asked for; when the hash does not collide on the two
  inputs, it is exactly the content that was dissolved, with the parameters it was dissolved with.
\<close>

theorem retrieval_authentic:
  assumes "retrieve C mid pool params = Inr p \<or>
      (\<exists>m. retrieve_file C m pool = Inr p \<and> mf_mid m = mid \<and> mf_params m = params)"
    and "mid = mid_compute C original (to_param_bytes params0)"
    and "blake3 C (p @ to_param_bytes params) = blake3 C (original @ to_param_bytes params0) \<longrightarrow>
      p @ to_param_bytes params = original @ to_param_bytes params0"
  shows "p = original \<and> params = params0"
proof -
  have "mid_compute C p (to_param_bytes params) = mid"
    using assms(1) retrieve_hash retrieve_file_hash by metis
  then show ?thesis using assms(2,3) mid_input_injective by (simp add: mid_compute_def)
qed

section \<open>The commitment covers every field that matters\<close>

definition wf_share :: "miasma_share \<Rightarrow> bool" where
  "wf_share s \<longleftrightarrow> length (sh_nonce s) = NONCE_LEN \<and> length (shard_data s) < 2 ^ 64 \<and> length (key_share s) < 2 ^ 64"

text \<open>
  Two pieces with the same commitment input agree on content identifier, version, segment, slot,
  length, shard, key share and nonce, so any change of one of them changes what is hashed.
\<close>

theorem commitment_covers_share:
  assumes "wf_share s" and "wf_share t" and "length mid = 32" and "length mid' = 32"
    and "commitment_input s mid = commitment_input t mid'"
  shows "mid = mid' \<and> sh_version s = sh_version t \<and> segment_index s = segment_index t \<and> slot_index s = slot_index t \<and>
    original_len s = original_len t \<and> shard_data s = shard_data t \<and> key_share s = key_share t \<and> sh_nonce s = sh_nonce t"
proof -
  note w = le_word_inj [where 'a = 32, of 4, simplified] le_word_inj [where 'a = 16, of 2, simplified]
    le_word_inj [where 'a = 64, of 8, simplified]
  have len: "unat (word_of_nat (length b) :: u64) = length b" if "length b < 2 ^ 64" for b :: bytes
    using that by (simp add: unat_of_nat)
  let ?keys = "\<lambda>s. le_bytes 8 (unat (word_of_nat (length (key_share s)) :: u64)) @ key_share s @ sh_nonce s"
  have eq: "sh_version s = sh_version t" "mid = mid'" "segment_index s = segment_index t" "slot_index s = slot_index t"
    "original_len s = original_len t"
    and rest: "le_bytes 8 (unat (word_of_nat (length (shard_data s)) :: u64)) @ shard_data s @
        le_bytes 8 (unat (word_of_nat (length (key_share s)) :: u64)) @ key_share s @ sh_nonce s =
      le_bytes 8 (unat (word_of_nat (length (shard_data t)) :: u64)) @ shard_data t @
        le_bytes 8 (unat (word_of_nat (length (key_share t)) :: u64)) @ key_share t @ sh_nonce t"
    using assms(3-5) by (auto simp: commitment_input_def w)
  have "(word_of_nat (length (shard_data s)) :: u64) = word_of_nat (length (shard_data t))"
    using rest w(3) by (auto simp: append_eq_append_conv)
  then have "length (shard_data s) = length (shard_data t)"
    using len assms(1,2) by (metis wf_share_def)
  moreover from this have "shard_data s @ ?keys s = shard_data t @ ?keys t" using rest by simp
  ultimately have data: "shard_data s = shard_data t" and keys: "?keys s = ?keys t"
    using append_eq_append_conv by blast+
  have "length (key_share s) = length (key_share t)"
    using arg_cong [OF keys, of length] assms(1,2) by (simp add: wf_share_def)
  then have "key_share s = key_share t" "sh_nonce s = sh_nonce t" using keys by auto
  then show ?thesis using eq data by simp
qed

section \<open>Parameters outside the range\<close>

text \<open>
  With \<open>k \<ge> 256\<close> shares needed the counts handed to the secret sharing are truncated to a byte. Dissolution
  still reports success, but returns fewer than \<open>k\<close> shares, so the content can never be retrieved.
\<close>

theorem oversized_params_lose_content:
  assumes "256 \<le> data_shards params" and "data_shards params \<le> total_shards params"
    and "0 < data_shards params mod 256" and "data_shards params mod 256 \<le> total_shards params mod 256"
    and "data_shards params < total_shards params \<longrightarrow> rs_ok C (data_shards params) (total_shards params - data_shards params)"
    and "aead_ok C" and "draws_ok d" and "length plaintext < 2 ^ 32"
  shows "\<exists>mid shares. dissolve_at C d plaintext params ts = Inr (mid, shares) \<and> length shares < data_shards params \<and>
    retrieve C mid shares params = Inl (InsufficientShares (data_shards params) (length shares))"
proof -
  let ?k = "data_shards params" and ?n = "total_shards params"
  obtain ct where ct: "aes_seal C (dr_key d) (dr_nonce d) [] plaintext = Some ct"
    using aead_okD [of C "dr_key d" "dr_nonce d" plaintext "[]"] assms(6-8) by (auto simp: draws_ok_def)
  obtain shards where enc: "rs_encode C ct ?k ?n = Inr shards"
    using rs_encode_coded [of ?k ?n C ct] assms(1,2,5) by (metis gr0I not_numeral_le_zero)
  have trunc: "unat (word_of_nat m :: u8) = m mod 256" for m by (simp add: unat_of_nat)
  have "0 < ?n mod 256" using assms(3,4) by linarith
  then have "sss_split C (dr_coeffs d) (dr_key d) (word_of_nat ?k) (word_of_nat ?n) =
      Inr (take (?n mod 256) (sss_dealer C (dr_coeffs d) (word_of_nat ?k) (dr_key d)))"
    using assms(3,4) by (auto simp: sss_split_def trunc word_less_nat_alt word_unat_eq_iff)
  moreover have "min (length shards) (min (length keys) (?n mod 256)) < ?k" for keys :: "bytes list"
    using assms(1) mod_less_divisor [of 256 ?n] by linarith
  ultimately show ?thesis
    using ct enc by (simp add: dissolve_at_def Let_def encrypt_with_key_def assemble_shares_def retrieve_def)
qed

text \<open>
  A retrieval that asks for zero data shards reads the first of no shares and panics, whatever shares there are.
\<close>

theorem zero_shards_panic:
  assumes "data_shards params = 0"
  shows "retrieve C mid pool params = Inl Panic \<and> retrieve_segment_with C mid pool meta params pw = Inl Panic \<and>
    retrieve_segment_v2 C mid pool meta params pw = Inl Panic"
  using assms by (simp add: retrieve_def retrieve_segment_with_def retrieve_segment_v2_def recover_def Let_def)

section \<open>Examples\<close>

text \<open>Two data shards and one parity shard; the cipher appends a tag and the key shares are copies of the key.\<close>

definition demo_cext :: cext where
  "demo_cext =
     \<lparr>blake3 = (\<lambda>b. take 32 (b @ replicate 32 0)), blake3_derive = (\<lambda>_ b. take 32 (b @ replicate 32 0)),
      aes_seal = (\<lambda>_ _ _ p. Some (p @ replicate 16 0)),
      aes_open = (\<lambda>_ _ _ c. if length c < 16 then None else Some (take (length c - 16) c)),
      hkdf = (\<lambda>_ ikm _. take 32 (ikm @ replicate 32 0)),
      rs_recovery = (\<lambda>_ _ _ orig. Some [map2 (XOR) (orig ! 0) (orig ! 1)]),
      rs_restore = (\<lambda>_ _ _ D R. case (D, R) of ([(i, s)], [(_, q)]) \<Rightarrow> Some [(1 - i, map2 (XOR) s q)] | _ \<Rightarrow> Some []),
      iter_order = (\<lambda>m. m),
      sss_dealer = (\<lambda>_ _ secret. map (\<lambda>i. word_of_nat (Suc i) # secret) [0..<255]),
      sss_share_ok = (\<lambda>s. s \<noteq> []),
      sss_recover = (\<lambda>_ shares. case shares of [] \<Rightarrow> None | s # _ \<Rightarrow> Some (tl s))\<rparr>"

definition demo_params :: dissolution_params where
  "demo_params = \<lparr>data_shards = 2, total_shards = 3\<rparr>"

definition demo_draws :: draws where
  "demo_draws = \<lparr>dr_key = replicate 32 5, dr_nonce = replicate 12 6, dr_coeffs = []\<rparr>"

lemma xor_cancel: "a XOR (a XOR b) = b" for a b :: u8
  by (simp add: xor.assoc [symmetric])

lemma xor_cancel_right: "b XOR (a XOR b) = a" for a b :: u8
  using xor_cancel by (metis xor.commute)

lemma xor_lists: "length a = length b \<Longrightarrow> map2 (XOR) a (map2 (XOR) a b) = b" for a b :: bytes
  by (induction a b rule: list_induct2) (simp_all add: xor_cancel)

lemma xor_lists_right: "length a = length b \<Longrightarrow> map2 (XOR) b (map2 (XOR) a b) = a" for a b :: bytes
  by (induction a b rule: list_induct2) (simp_all add: xor_cancel_right)

lemma shards_count: "distinct (map fst D) \<Longrightarrow> list_all (shard_of xs) D \<Longrightarrow> length D \<le> length xs"
proof -
  assume *: "distinct (map fst D)" "list_all (shard_of xs) D"
  then have "set (map fst D) \<subseteq> {..<length xs}" by (auto simp: list_all_iff shard_of_def)
  then have "card (set (map fst D)) \<le> length xs" using card_mono [of "{..<length xs}"] by simp
  then show ?thesis using distinct_card [OF *(1)] by simp
qed

lemma demo_restores:
  assumes "length a = length b"
  shows "restores demo_cext 2 1 len [a, b] [map2 (XOR) a b]"
  unfolding restores_def
proof (intro allI impI)
  fix D R
  assume D: "distinct (map fst D)" "list_all (shard_of [a, b]) D"
    and R: "distinct (map fst R)" "list_all (shard_of [map2 (XOR) a b]) R" and n: "2 \<le> length D + length R"
  have len: "length D \<le> 2" "length R \<le> 1" using shards_count [OF D] shards_count [OF R] by simp_all
  show "\<exists>m. rs_restore demo_cext 2 1 len D R = Some m \<and>
    (\<forall>i<2. i \<notin> fst ` set D \<longrightarrow> map_of m i = Some ([a, b] ! i))"
  proof (cases "length D = 2")
    case True
    then have "fst ` set D = {..<2}"
      using D distinct_card [OF D(1)] by (intro card_subset_eq) (auto simp: list_all_iff shard_of_def)
    moreover have "rs_restore demo_cext 2 1 len D R = Some []"
      using True by (cases D) (auto simp: demo_cext_def split: list.splits)
    ultimately show ?thesis by auto
  next
    case False
    then obtain p q where "D = [p]" "R = [q]"
      using n len by (cases D; cases "tl D"; cases R; cases "tl R") auto
    moreover from this have "fst p < 2" "snd p = [a, b] ! fst p" "snd q = map2 (XOR) a b"
      using D R by (auto simp: shard_of_def)
    ultimately show ?thesis
      using xor_lists [OF assms] xor_lists_right [OF assms]
      by (cases "fst p = 0") (auto simp: demo_cext_def less_2_cases_iff split: prod.splits)
  qed
qed

lemma demo_rs_ok: "rs_ok demo_cext 2 1"
  unfolding rs_ok_def
proof (intro allI impI)
  fix len :: nat and orig :: "bytes list"
  assume "0 < len" "even len" and o: "length orig = 2" "\<forall>s\<in>set orig. length s = len"
  then obtain a b where ab: "orig = [a, b]" by (cases orig; cases "tl orig") auto
  then have "length a = length b" using o(2) by simp
  then show "\<exists>rec. rs_recovery demo_cext 2 1 len orig = Some rec \<and> length rec = 1 \<and>
    (\<forall>s\<in>set rec. length s = len) \<and> restores demo_cext 2 1 len orig rec"
    using demo_restores o(2) unfolding ab
    by (intro exI [of _ "[map2 (XOR) a b]"]) (auto simp: demo_cext_def)
qed

lemma demo_laws: "laws demo_cext demo_params"
proof -
  have "aead_ok demo_cext" by (simp add: aead_ok_def demo_cext_def)
  moreover have "kdf_ok demo_cext" by (auto simp: kdf_ok_def demo_cext_def KEY_LEN_def min_def)
  moreover have "iter_ok demo_cext" by (simp add: iter_ok_def demo_cext_def)
  moreover have "sss_ok demo_cext 2 3"
    unfolding sss_ok_def
  proof (intro allI conjI impI)
    fix coeffs secret and "is" :: "nat list"
    assume "list_all (\<lambda>i. i < unat (3 :: u8)) is" "unat (2 :: u8) \<le> length is"
    then show "list_all (\<lambda>i. sss_share_ok demo_cext (sss_dealer demo_cext coeffs 2 secret ! i)) is"
      and "sss_recover demo_cext 2 (map ((!) (sss_dealer demo_cext coeffs 2 secret)) is) = Some secret"
      by (cases "is"; auto simp: demo_cext_def list_all_iff)+
  qed (simp add: demo_cext_def)
  ultimately show ?thesis using demo_rs_ok by (simp add: laws_def demo_params_def)
qed

lemma demo_ok: "params_ok demo_params" "draws_ok demo_draws"
  by (simp_all add: params_ok_def demo_params_def draws_ok_def demo_draws_def KEY_LEN_def NONCE_LEN_def)

lemma two_of_three:
  assumes "length shares = 3" and "distinct shares" and "list_all P shares"
  shows "usable 2 shares (filter P [shares ! 2, shares ! 0])"
  using assms by (simp add: usable_def list_all_iff nth_eq_iff_index_eq)

theorem rs_roundtrip_witness:
  "case rs_encode demo_cext [1, 2, 3] 2 3 of
     Inl _ \<Rightarrow> False
   | Inr shards \<Rightarrow> length shards = 3 \<and> rs_decode demo_cext [(2, shards ! 2), (2, shards ! 2), (0, shards ! 0)] 2 3 3 = Inr [1, 2, 3]"
proof -
  have "iter_ok demo_cext" using demo_laws by (simp add: laws_def)
  then obtain shards where sh: "rs_encode demo_cext [1, 2, 3] 2 3 = Inr shards" "length shards = 3"
    "\<forall>avail. list_all (shard_of shards) avail \<longrightarrow> 2 \<le> card (fst ` set avail) \<longrightarrow> rs_decode demo_cext avail 2 3 3 = Inr [1, 2, 3]"
    using rs_roundtrip [of 2 3 demo_cext "[1, 2, 3]"] demo_rs_ok by (auto simp: numeral_3_eq_3)
  then show ?thesis by (simp add: shard_of_def)
qed

theorem dissolve_retrieve_witness:
  "case dissolve_at demo_cext demo_draws [1, 2, 3] demo_params 0 of
     Inl _ \<Rightarrow> False
   | Inr (mid, shares) \<Rightarrow>
       length shares = 3 \<and> retrieve demo_cext mid [shares ! 2, shares ! 0] demo_params = Inr [1, 2, 3]"
proof -
  obtain shares where sh: "dissolve_at demo_cext demo_draws [1, 2, 3] demo_params 0 =
      Inr (mid_compute demo_cext [1, 2, 3] (to_param_bytes demo_params), shares)"
    "length shares = 3" "distinct shares"
    "list_all (\<lambda>s. coarse_verify demo_cext s (mid_compute demo_cext [1, 2, 3] (to_param_bytes demo_params))) shares"
    "\<forall>pool. usable 2 shares
        (filter (\<lambda>s. coarse_verify demo_cext s (mid_compute demo_cext [1, 2, 3] (to_param_bytes demo_params))) pool) \<longrightarrow>
      retrieve demo_cext (mid_compute demo_cext [1, 2, 3] (to_param_bytes demo_params)) pool demo_params = Inr [1, 2, 3]"
    using dissolve_retrieve [OF demo_ok(1) demo_laws demo_ok(2), of "[1, 2, 3]" 0] by (auto simp: demo_params_def)
  then show ?thesis using two_of_three [OF sh(2-4)] by simp
qed

theorem segment_v2_roundtrip_witness:
  "case dissolve_segment_v2_at demo_cext demo_draws [1, 2, 3] [] 4 0 demo_params (Some []) 0 of
     Inl _ \<Rightarrow> False
   | Inr (meta, shares) \<Rightarrow>
       retrieve_segment_v2 demo_cext [] [shares ! 2, shares ! 0] meta demo_params (Some []) = Inr [1, 2, 3]"
proof -
  obtain shares where sh: "dissolve_segment_v2_at demo_cext demo_draws [1, 2, 3] [] 4 0 demo_params (Some []) 0 =
      Inr (meta_for 4 0 [1, 2, 3] demo_params, shares)"
    "length shares = 3" "distinct shares" "list_all (\<lambda>s. segment_index s = 4 \<and> coarse_verify demo_cext s []) shares"
    "\<forall>pool. usable 2 shares (segment_shares demo_cext [] (meta_for 4 0 [1, 2, 3] demo_params) pool) \<longrightarrow>
      retrieve_segment_v2 demo_cext [] pool (meta_for 4 0 [1, 2, 3] demo_params) demo_params (Some []) = Inr [1, 2, 3]"
    using segment_v2_roundtrip [OF demo_ok(1) demo_laws demo_ok(2), of "[1, 2, 3]" "[]" 4 0 "Some []" 0]
    by (auto simp: demo_params_def)
  then show ?thesis using two_of_three [OF sh(2-4)] by (simp add: segment_shares_def)
qed

theorem file_roundtrip_witness:
  "case dissolve_file demo_cext (\<lambda>_. demo_draws) (\<lambda>_. 0) 0 [1, 2, 3] demo_params 2 of
     Inl _ \<Rightarrow> False
   | Inr (m, all) \<Rightarrow> length (segments m) \<le> 2 \<and> retrieve_file demo_cext m (concat all) = Inr [1, 2, 3]"
proof -
  obtain m all where "dissolve_file demo_cext (\<lambda>_. demo_draws) (\<lambda>_. 0) 0 [1, 2, 3] demo_params 2 = Inr (m, all)"
    and again: "length (segments m) \<le> 2 ^ 32 \<longrightarrow> retrieve_file demo_cext m (concat all) = Inr [1, 2, 3]"
    using file_roundtrip [OF demo_ok(1) demo_laws, of "\<lambda>_. demo_draws" 2 "\<lambda>_. 0" 0 "[1, 2, 3]"] demo_ok(2) by auto
  moreover from this have "length (segments m) \<le> 2"
    by (auto simp: dissolve_file_def Let_def Inr_simps dissolve_chunks.simps chunks.simps)
  ultimately show ?thesis by simp
qed

theorem retrieval_authentic_witness:
  "case dissolve_at demo_cext demo_draws [1, 2, 3] demo_params 0 of
     Inl _ \<Rightarrow> False
   | Inr (mid, shares) \<Rightarrow> (case retrieve demo_cext mid [shares ! 2, shares ! 0] demo_params of
       Inl _ \<Rightarrow> False
     | Inr p \<Rightarrow> p = [1, 2, 3])"
proof -
  obtain shares where sh: "dissolve_at demo_cext demo_draws [1, 2, 3] demo_params 0 =
      Inr (mid_compute demo_cext [1, 2, 3] (to_param_bytes demo_params), shares)"
    "length shares = 3" "distinct shares"
    "list_all (\<lambda>s. coarse_verify demo_cext s (mid_compute demo_cext [1, 2, 3] (to_param_bytes demo_params))) shares"
    "\<forall>pool. usable 2 shares
        (filter (\<lambda>s. coarse_verify demo_cext s (mid_compute demo_cext [1, 2, 3] (to_param_bytes demo_params))) pool) \<longrightarrow>
      retrieve demo_cext (mid_compute demo_cext [1, 2, 3] (to_param_bytes demo_params)) pool demo_params = Inr [1, 2, 3]"
    using dissolved_content [OF demo_ok(1) demo_laws demo_ok(2), of "[1, 2, 3]" 0] by (auto simp: demo_params_def)
  have got: "retrieve demo_cext (mid_compute demo_cext [1, 2, 3] (to_param_bytes demo_params)) [shares ! 2, shares ! 0]
      demo_params = Inr [1, 2, 3]"
    using sh(5) two_of_three [OF sh(2-4)] by blast
  show ?thesis using sh(1) got retrieval_authentic [OF disjI1 [OF got] refl] by simp
qed

definition demo_share :: miasma_share where
  "demo_share = share_new demo_cext (replicate 32 0) 1 2 [3] [4] (replicate 12 0) 5 6"

theorem commitment_covers_share_witness:
  "commitment_input demo_share (replicate 32 0) = commitment_input (demo_share\<lparr>timestamp := 9\<rparr>) (replicate 32 0) \<and>
   shard_data demo_share = shard_data (demo_share\<lparr>timestamp := 9\<rparr>)"
proof -
  have "wf_share demo_share" "wf_share (demo_share\<lparr>timestamp := 9\<rparr>)"
    by (simp_all add: wf_share_def demo_share_def share_new_def NONCE_LEN_def)
  moreover have "commitment_input demo_share (replicate 32 0) = commitment_input (demo_share\<lparr>timestamp := 9\<rparr>) (replicate 32 0)"
    by (simp add: commitment_input_def)
  ultimately show ?thesis
    using commitment_covers_share [of demo_share "demo_share\<lparr>timestamp := 9\<rparr>" "replicate 32 0" "replicate 32 0"] by simp
qed

theorem oversized_params_lose_content_witness:
  "case dissolve_at demo_cext demo_draws [1] \<lparr>data_shards = 257, total_shards = 257\<rparr> 0 of
     Inl _ \<Rightarrow> False
   | Inr (mid, shares) \<Rightarrow> length shares < 257 \<and>
       retrieve demo_cext mid shares \<lparr>data_shards = 257, total_shards = 257\<rparr> = Inl (InsufficientShares 257 (length shares))"
proof -
  have "aead_ok demo_cext" using demo_laws by (simp add: laws_def)
  then obtain mid shares where "dissolve_at demo_cext demo_draws [1] \<lparr>data_shards = 257, total_shards = 257\<rparr> 0 = Inr (mid, shares)"
    "length shares < 257"
    "retrieve demo_cext mid shares \<lparr>data_shards = 257, total_shards = 257\<rparr> = Inl (InsufficientShares 257 (length shares))"
    using oversized_params_lose_content [of "\<lparr>data_shards = 257, total_shards = 257\<rparr>" demo_cext demo_draws "[1]" 0] demo_ok(2)
    by auto
  then show ?thesis by simp
qed

theorem zero_shards_panic_witness:
  "retrieve demo_cext [] [demo_share] \<lparr>data_shards = 0, total_shards = 3\<rparr> = Inl Panic"
  using zero_shards_panic [of "\<lparr>data_shards = 0, total_shards = 3\<rparr>" demo_cext "[]" "[demo_share]"] by simp

end
