(* ===== verification/Retrieval.thy ===== *)
theory Retrieval
  imports Dissolution
begin

text \<open>
  Collecting shares and retrieving content from a share source: \<^verbatim>\<open>retrieval/fetch.rs\<close>, \<^verbatim>\<open>retrieval/coordinator.rs\<close>,
  \<^verbatim>\<open>retrieval/streaming.rs\<close>, the record checks of \<^verbatim>\<open>network/types.rs\<close>, the network entry points of
  \<^verbatim>\<open>network/coordinator.rs\<close> and the daemon's \<^verbatim>\<open>GetToFile\<close>, all under \<^verbatim>\<open>crates/miasma-core/src\<close>.

  A computation that awaits the network returns \<open>Some\<close> of a result, or \<open>None\<close> while it is still waiting. What the
  network does during one collection is a \<open>turn\<close>: the answer of the \<open>n\<close>-th request to each address, the order the
  shuffle picked, and the sequence of timer and completion events.
\<close>

section \<open>Fetch policy\<close>

datatype anonymity_policy = Direct | Opportunistic | Required u8

text \<open>The delay of a hedged policy is in milliseconds.\<close>

datatype fetch_policy = Sequential | Hedged nat

definition direct_network :: fetch_policy where
  "direct_network = Hedged 250"

fun constrained_by :: "fetch_policy \<Rightarrow> anonymity_policy \<Rightarrow> fetch_policy" where
  "constrained_by p Direct = p"
| "constrained_by p Opportunistic = Sequential"
| "constrained_by p (Required _) = Sequential"

definition for_anonymity :: "anonymity_policy \<Rightarrow> fetch_policy" where
  "for_anonymity anonymity = constrained_by direct_network anonymity"

section \<open>Collecting verified shares\<close>

type_synonym addr = bytes
type_synonym fetched = "miasma_error + miasma_share option"
type_synonym 'a awaited = "(miasma_error + 'a) option"

definition accept_share ::
  "cext \<Rightarrow> fetched \<Rightarrow> content_id \<Rightarrow> u32 \<Rightarrow> u16 set \<Rightarrow> miasma_share list \<Rightarrow> miasma_error + (u16 set \<times> miasma_share list)" where
  "accept_share C result mid seg seen valid =
     (case result of
        Inl err \<Rightarrow> Inl err
      | Inr None \<Rightarrow> Inr (seen, valid)
      | Inr (Some share) \<Rightarrow>
          if segment_index share = seg \<and> coarse_verify C share mid \<and> slot_index share \<notin> seen
          then Inr (insert (slot_index share) seen, valid @ [share])
          else Inr (seen, valid))"

text \<open>\<open>t\<close> counts the requests made so far.\<close>

fun collect_sequential ::
  "cext \<Rightarrow> (nat \<Rightarrow> addr \<Rightarrow> fetched) \<Rightarrow> content_id \<Rightarrow> u32 \<Rightarrow> nat \<Rightarrow> nat \<Rightarrow> addr list \<Rightarrow> u16 set \<Rightarrow> miasma_share list \<Rightarrow>
     miasma_error + miasma_share list" where
  "collect_sequential C fetch mid seg need t [] seen valid = Inr valid"
| "collect_sequential C fetch mid seg need t (a # as) seen valid =
     (if need \<le> length valid then Inr valid
      else
        (case accept_share C (fetch t a) mid seg seen valid of
           Inl err \<Rightarrow> Inl err
         | Inr (seen', valid') \<Rightarrow> collect_sequential C fetch mid seg need (Suc t) as seen' valid'))"

text \<open>
  The hedged loop between two awaits: the candidates not asked yet, the requests in flight with their number and
  address, the number of requests launched, and what was accepted. \<open>Elapsed\<close>: the delay ran out. \<open>Done i\<close>: the
  \<open>i\<close>-th request in flight completed.
\<close>

record hedge =
  waiting :: "addr list"
  in_flight :: "(nat \<times> addr) list"
  launched :: nat
  seen_slots :: "u16 set"
  accepted :: "miasma_share list"

datatype event = Elapsed | Done nat

definition launch :: "hedge \<Rightarrow> hedge" where
  "launch h =
     (case waiting h of
        [] \<Rightarrow> h
      | a # as \<Rightarrow> h\<lparr>waiting := as, in_flight := in_flight h @ [(launched h, a)], launched := Suc (launched h)\<rparr>)"

definition hedge_over :: "nat \<Rightarrow> hedge \<Rightarrow> bool" where
  "hedge_over need h \<longleftrightarrow> \<not> (length (accepted h) < need \<and> in_flight h \<noteq> [])"

definition hedge_event ::
  "cext \<Rightarrow> (nat \<Rightarrow> addr \<Rightarrow> fetched) \<Rightarrow> content_id \<Rightarrow> u32 \<Rightarrow> nat \<Rightarrow> hedge \<Rightarrow> event \<Rightarrow> miasma_error + hedge" where
  "hedge_event C fetch mid seg need h ev =
     (case ev of
        Elapsed \<Rightarrow> Inr (if length (in_flight h) = 1 then launch h else h)
      | Done i \<Rightarrow>
          if i < length (in_flight h) then
            (case accept_share C (fetch (fst (in_flight h ! i)) (snd (in_flight h ! i))) mid seg (seen_slots h) (accepted h) of
               Inl err \<Rightarrow> Inl err
             | Inr (seen', valid') \<Rightarrow>
                 let h' = h\<lparr>in_flight := take i (in_flight h) @ drop (Suc i) (in_flight h),
                            seen_slots := seen', accepted := valid'\<rparr>
                 in Inr (if need \<le> length valid' then h' else if in_flight h' = [] then launch h' else h'))
          else Inr h)"

definition hedge_step ::
  "cext \<Rightarrow> (nat \<Rightarrow> addr \<Rightarrow> fetched) \<Rightarrow> content_id \<Rightarrow> u32 \<Rightarrow> nat \<Rightarrow> miasma_error + hedge \<Rightarrow> event \<Rightarrow> miasma_error + hedge" where
  "hedge_step C fetch mid seg need st ev =
     (case st of
        Inl err \<Rightarrow> Inl err
      | Inr h \<Rightarrow> if hedge_over need h then Inr h else hedge_event C fetch mid seg need h ev)"

definition hedge_start :: "addr list \<Rightarrow> hedge" where
  "hedge_start candidates =
     launch \<lparr>waiting = candidates, in_flight = [], launched = 0, seen_slots = {}, accepted = []\<rparr>"

definition hedge_result :: "nat \<Rightarrow> miasma_error + hedge \<Rightarrow> miasma_share list awaited" where
  "hedge_result need st =
     (case st of
        Inl err \<Rightarrow> Some (Inl err)
      | Inr h \<Rightarrow> if hedge_over need h then Some (Inr (accepted h)) else None)"

definition collect_verified_shares ::
  "cext \<Rightarrow> (nat \<Rightarrow> addr \<Rightarrow> fetched) \<Rightarrow> event list \<Rightarrow> addr list \<Rightarrow> content_id \<Rightarrow> u32 \<Rightarrow> nat \<Rightarrow> fetch_policy \<Rightarrow>
     miasma_share list awaited" where
  "collect_verified_shares C fetch events candidates mid seg need policy =
     (if need = 0 then Some (Inr [])
      else
        (case policy of
           Sequential \<Rightarrow> Some (collect_sequential C fetch mid seg need 0 candidates {} [])
         | Hedged _ \<Rightarrow>
             hedge_result need (foldl (hedge_step C fetch mid seg need) (Inr (hedge_start candidates)) events)))"

section \<open>The coordinators\<close>

record share_source =
  list_candidates :: "content_id \<Rightarrow> addr list"
  list_candidates_for_segment :: "content_id \<Rightarrow> u32 \<Rightarrow> addr list"
  source_fetch :: "nat \<Rightarrow> addr \<Rightarrow> fetched"

record turn =
  turn_source :: share_source
  turn_shuffle :: "addr list \<Rightarrow> addr list"
  turn_events :: "event list"

text \<open>\<^verbatim>\<open>.await?\<close>: go on with the value, or return the error.\<close>

definition await :: "'a awaited \<Rightarrow> ('a \<Rightarrow> 'b awaited) \<Rightarrow> 'b awaited" where
  "await r f =
     (case r of
        None \<Rightarrow> None
      | Some (Inl err) \<Rightarrow> Some (Inl err)
      | Some (Inr x) \<Rightarrow> f x)"

definition enough :: "dissolution_params \<Rightarrow> miasma_share list \<Rightarrow> miasma_share list awaited" where
  "enough params valid =
     Some (if length valid < data_shards params then Inl (InsufficientShares (data_shards params) (length valid))
           else Inr valid)"

definition collect_from ::
  "cext \<Rightarrow> turn \<Rightarrow> fetch_policy \<Rightarrow> content_id \<Rightarrow> u32 \<Rightarrow> dissolution_params \<Rightarrow> addr list \<Rightarrow> miasma_share list awaited" where
  "collect_from C tn policy mid seg params candidates =
     await (collect_verified_shares C (source_fetch (turn_source tn)) (turn_events tn) (turn_shuffle tn candidates) mid seg
              (data_shards params) policy)
       (enough params)"

definition collect_k_shares ::
  "cext \<Rightarrow> turn \<Rightarrow> fetch_policy \<Rightarrow> content_id \<Rightarrow> u32 \<Rightarrow> dissolution_params \<Rightarrow> miasma_share list awaited" where
  "collect_k_shares C tn policy mid seg params =
     (let candidates = list_candidates_for_segment (turn_source tn) mid seg in
      if candidates = [] then Some (Inl (InsufficientShares (data_shards params) 0))
      else collect_from C tn policy mid seg params candidates)"

definition coord_retrieve ::
  "cext \<Rightarrow> turn \<Rightarrow> fetch_policy \<Rightarrow> content_id \<Rightarrow> dissolution_params \<Rightarrow> bytes awaited" where
  "coord_retrieve C tn policy mid params =
     await (collect_k_shares C tn policy mid 0 params) (\<lambda>valid. Some (retrieve C mid valid params))"

text \<open>The segment description made from the first share; reading the first of no shares panics.\<close>

definition synthetic_segment ::
  "cext \<Rightarrow> content_id \<Rightarrow> u32 \<Rightarrow> dissolution_params \<Rightarrow> miasma_share list \<Rightarrow> bytes awaited" where
  "synthetic_segment C mid seg params valid =
     Some (case valid of
        [] \<Rightarrow> Inl Panic
      | v # _ \<Rightarrow>
          retrieve_segment_with C mid valid
            \<lparr>sm_index = seg, offset_bytes = 0, plaintext_len = original_len v, share_count = word_of_nat (total_shards params)\<rparr>
            params None)"

fun retrieve_segment_list ::
  "cext \<Rightarrow> (u32 \<Rightarrow> turn) \<Rightarrow> fetch_policy \<Rightarrow> content_id \<Rightarrow> dissolution_params \<Rightarrow> u32 list \<Rightarrow> bytes awaited" where
  "retrieve_segment_list C turns policy mid params [] = Some (Inr [])"
| "retrieve_segment_list C turns policy mid params (i # is) =
     await (collect_k_shares C (turns i) policy mid i params) (\<lambda>valid.
     await (synthetic_segment C mid i params valid) (\<lambda>segment_data.
     await (retrieve_segment_list C turns policy mid params is) (\<lambda>rest. Some (Inr (segment_data @ rest)))))"

definition segment_range :: "u32 \<Rightarrow> u32 list" where
  "segment_range n = map word_of_nat [0..<unat n]"

definition retrieve_segments ::
  "cext \<Rightarrow> (u32 \<Rightarrow> turn) \<Rightarrow> fetch_policy \<Rightarrow> content_id \<Rightarrow> u32 \<Rightarrow> dissolution_params \<Rightarrow> bytes awaited" where
  "retrieve_segments C turns policy mid segment_count params =
     retrieve_segment_list C turns policy mid params (segment_range segment_count)"

text \<open>\<open>turns i\<close>: the collection for the \<open>i\<close>-th entry of the manifest; the candidates are listed once, before them.\<close>

fun collect_manifest ::
  "cext \<Rightarrow> (nat \<Rightarrow> turn) \<Rightarrow> fetch_policy \<Rightarrow> content_id \<Rightarrow> dissolution_params \<Rightarrow> addr list \<Rightarrow> nat \<Rightarrow> segment_meta list \<Rightarrow>
     miasma_share list awaited" where
  "collect_manifest C turns policy mid params candidates i [] = Some (Inr [])"
| "collect_manifest C turns policy mid params candidates i (meta # metas) =
     await (collect_from C (turns i) policy mid (sm_index meta) params candidates) (\<lambda>seg_shares.
     await (collect_manifest C turns policy mid params candidates (Suc i) metas) (\<lambda>rest. Some (Inr (seg_shares @ rest))))"

definition coord_retrieve_file ::
  "cext \<Rightarrow> share_source \<Rightarrow> (nat \<Rightarrow> turn) \<Rightarrow> fetch_policy \<Rightarrow> dissolution_manifest \<Rightarrow> bytes awaited" where
  "coord_retrieve_file C src turns policy m =
     await (collect_manifest C turns policy (mf_mid m) (mf_params m) (list_candidates src (mf_mid m)) 0 (segments m))
       (\<lambda>all_shares. Some (retrieve_file C m all_shares))"

text \<open>The items of the two streams, in the order a consumer that polls to the end sees them.\<close>

definition retrieve_streaming ::
  "cext \<Rightarrow> (nat \<Rightarrow> turn) \<Rightarrow> fetch_policy \<Rightarrow> dissolution_manifest \<Rightarrow> bytes awaited list" where
  "retrieve_streaming C turns policy m =
     map (\<lambda>(i, meta).
       await (collect_from C (turns i) policy (mf_mid m) (sm_index meta) (mf_params m)
                (list_candidates_for_segment (turn_source (turns i)) (mf_mid m) (sm_index meta)))
         (\<lambda>valid. Some (retrieve_segment_with C (mf_mid m) valid meta (mf_params m) None)))
       (enumerate 0 (segments m))"

definition retrieve_streaming_by_mid ::
  "cext \<Rightarrow> (u32 \<Rightarrow> turn) \<Rightarrow> fetch_policy \<Rightarrow> content_id \<Rightarrow> u32 \<Rightarrow> dissolution_params \<Rightarrow> bytes awaited list" where
  "retrieve_streaming_by_mid C turns policy mid segment_count params =
     map (\<lambda>i.
       await (collect_from C (turns i) policy mid i params
                (list_candidates_for_segment (turn_source (turns i)) mid i))
         (synthetic_segment C mid i params))
       (segment_range segment_count)"

section \<open>Records from the network\<close>

record shard_location =
  peer_id_bytes :: bytes
  shard_index :: u16
  loc_segment :: u32
  loc_addrs :: "bytes list"

record dht_record =
  mid_digest :: bytes
  rec_data_shards :: u8
  rec_total_shards :: u8
  rec_version :: u8
  locations :: "shard_location list"
  published_at :: u64

definition MAX_SEGMENTS :: u32 where "MAX_SEGMENTS = 65536"
definition MAX_RECORD_LOCATIONS :: nat where "MAX_RECORD_LOCATIONS = 2 ^ 20"
definition MAX_LOCATION_ADDRS :: nat where "MAX_LOCATION_ADDRS = 32"
definition MAX_LOCATION_ADDR_LEN :: nat where "MAX_LOCATION_ADDR_LEN = 512"
definition MAX_PEER_ID_BYTES :: nat where "MAX_PEER_ID_BYTES = 128"

definition location_ok :: "nat \<Rightarrow> shard_location \<Rightarrow> bool" where
  "location_ok n loc \<longleftrightarrow>
     \<not> MAX_SEGMENTS \<le> loc_segment loc \<and> \<not> n \<le> unat (shard_index loc) \<and>
     \<not> (MAX_PEER_ID_BYTES < length (peer_id_bytes loc) \<or> MAX_LOCATION_ADDRS < length (loc_addrs loc) \<or>
        list_ex (\<lambda>a. MAX_LOCATION_ADDR_LEN < length a) (loc_addrs loc))"

definition validate :: "dht_record \<Rightarrow> miasma_error + unit" where
  "validate r =
     (let k = unat (rec_data_shards r); n = unat (rec_total_shards r) in
      if k = 0 \<or> n < k then Inl InvalidManifest
      else if min MAX_RECORD_LOCATIONS (unat MAX_SEGMENTS * n) < length (locations r) then Inl InvalidManifest
      else if list_all (location_ok n) (locations r) then Inr () else Inl InvalidManifest)"

text \<open>
  The largest segment index a checked record names; a missing record counts as one segment. \<open>record\<close> is the answer
  of the DHT.
\<close>

definition max_segment :: "miasma_error + dht_record option \<Rightarrow> miasma_error + u32" where
  "max_segment record =
     (case record of
        Inl err \<Rightarrow> Inl err
      | Inr None \<Rightarrow> Inr 0
      | Inr (Some r) \<Rightarrow>
          (case validate r of
             Inl err \<Rightarrow> Inl err
           | Inr _ \<Rightarrow> Inr (fold max (map loc_segment (locations r)) 0)))"

definition retrieve_from_network_once ::
  "cext \<Rightarrow> miasma_error + dht_record option \<Rightarrow> (u32 \<Rightarrow> turn) \<Rightarrow> content_id \<Rightarrow> dissolution_params \<Rightarrow> fetch_policy \<Rightarrow>
     bytes awaited" where
  "retrieve_from_network_once C record turns mid params policy =
     await (Some (max_segment record)) (\<lambda>max_seg.
       if max_seg = 0 then coord_retrieve C (turns 0) policy mid params
       else retrieve_segments C turns policy mid (max_seg + 1) params)"

definition retrieve_from_network_streaming ::
  "cext \<Rightarrow> miasma_error + dht_record option \<Rightarrow> (u32 \<Rightarrow> turn) \<Rightarrow> content_id \<Rightarrow> dissolution_params \<Rightarrow>
     miasma_error + bytes awaited list" where
  "retrieve_from_network_streaming C record turns mid params =
     (case max_segment record of
        Inl err \<Rightarrow> Inl err
      | Inr max_seg \<Rightarrow> Inr (retrieve_streaming_by_mid C turns direct_network mid (max_seg + 1) params))"

text \<open>
  The retry loop: \<open>once n\<close> is the outcome of the \<open>n\<close>-th single pass. Only a lack of shares is retried, and the
  sleep between two passes only delays.
\<close>

definition max_attempts :: nat where "max_attempts = 6"

function retry_insufficient :: "(nat \<Rightarrow> bytes awaited) \<Rightarrow> nat \<Rightarrow> bytes awaited" where
  "retry_insufficient once attempt =
     (case once attempt of
        None \<Rightarrow> None
      | Some (Inr data) \<Rightarrow> Some (Inr data)
      | Some (Inl (InsufficientShares need got)) \<Rightarrow>
          if attempt < max_attempts then retry_insufficient once (Suc attempt)
          else Some (Inl (InsufficientShares need got))
      | Some (Inl err) \<Rightarrow> Some (Inl err))"
  by pat_completeness auto
termination by (relation "measure (\<lambda>(_, attempt). max_attempts - attempt)") auto

declare retry_insufficient.simps [simp del]

definition retrieve_from_network ::
  "cext \<Rightarrow> (nat \<Rightarrow> miasma_error + dht_record option) \<Rightarrow> (nat \<Rightarrow> u32 \<Rightarrow> turn) \<Rightarrow> content_id \<Rightarrow> dissolution_params \<Rightarrow>
     bytes awaited" where
  "retrieve_from_network C records turns mid params =
     retry_insufficient
       (\<lambda>n. retrieve_from_network_once C (records n) (turns n) mid params (for_anonymity Direct)) 0"

section \<open>Receiving into a file\<close>

text \<open>
  The daemon's \<^verbatim>\<open>GetToFile\<close>. What the file system and the wipe gate do is the \<open>disk\<close> record: \<open>cancel n\<close>: a wipe
  is seen before the \<open>n\<close>-th poll of the stream. The result is the answer and what is at the output path; of a write
  that fails, nothing is counted as written.
\<close>

record disk =
  gate_open :: bool
  lookup_cancelled :: bool
  wiping_at_create :: bool
  create_ok :: bool
  stall_cancelled :: bool
  cancel :: "nat \<Rightarrow> bool"
  write_ok :: "nat \<Rightarrow> bool"
  flush_ok :: bool
  remove_ok :: bool

datatype get_response = RetrievedToFile nat | GetError

fun write_items :: "disk \<Rightarrow> nat \<Rightarrow> bytes awaited list \<Rightarrow> bytes \<Rightarrow> (bool \<times> bytes \<times> bytes) option" where
  "write_items D n items written =
     (if cancel D n then Some (False, written, written)
      else
        (case items of
           [] \<Rightarrow> Some (True, written, written)
         | None # _ \<Rightarrow> None
         | Some (Inl _) # _ \<Rightarrow> Some (False, written, written)
         | Some (Inr b) # rest \<Rightarrow>
             if write_ok D n then write_items D (Suc n) rest (written @ b)
             else Some (False, written @ b, written)))"

declare write_items.simps [simp del]

text \<open>
  \<open>Some (ok, hashed, written)\<close>: whether the loop ended without an error, the bytes hashed and the bytes written.
\<close>

definition finalize_streamed_mid :: "cext \<Rightarrow> bytes \<Rightarrow> dissolution_params \<Rightarrow> content_id" where
  "finalize_streamed_mid C hashed params = blake3 C (hashed @ to_param_bytes params)"

definition get_to_file ::
  "cext \<Rightarrow> disk \<Rightarrow> miasma_error + bytes awaited list \<Rightarrow> content_id \<Rightarrow> dissolution_params \<Rightarrow> bytes option \<Rightarrow>
     (get_response \<times> bytes option) option" where
  "get_to_file C D opened mid params before =
     (if \<not> gate_open D \<or> lookup_cancelled D then Some (GetError, before)
      else
        (case opened of
           Inl _ \<Rightarrow> Some (GetError, before)
         | Inr items \<Rightarrow>
             if wiping_at_create D \<or> \<not> create_ok D then Some (GetError, before)
             else
               (case (if stall_cancelled D then Some (False, [], []) else write_items D 0 items []) of
                  None \<Rightarrow> None
                | Some (ok, hashed, written) \<Rightarrow>
                    if ok \<and> finalize_streamed_mid C hashed params = mid \<and> flush_ok D
                    then Some (RetrievedToFile (length written), Some written)
                    else Some (GetError, if remove_ok D then None else Some written))))"

section \<open>What a collection returns\<close>

definition good_share :: "cext \<Rightarrow> content_id \<Rightarrow> u32 \<Rightarrow> miasma_share \<Rightarrow> bool" where
  "good_share C mid seg s \<longleftrightarrow> segment_index s = seg \<and> coarse_verify C s mid"

text \<open>An answer is covered when it is no error and, if it is a good share, its slot has been collected.\<close>

definition covered :: "cext \<Rightarrow> content_id \<Rightarrow> u32 \<Rightarrow> u16 set \<Rightarrow> fetched \<Rightarrow> bool" where
  "covered C mid seg slots r =
     (case r of
        Inl _ \<Rightarrow> False
      | Inr None \<Rightarrow> True
      | Inr (Some s) \<Rightarrow> good_share C mid seg s \<longrightarrow> slot_index s \<in> slots)"

text \<open>At most \<open>need\<close> good shares with different slots, each the answer to one of the first \<open>n\<close> requests.\<close>

definition acc_ok ::
  "cext \<Rightarrow> (nat \<Rightarrow> addr \<Rightarrow> fetched) \<Rightarrow> addr list \<Rightarrow> content_id \<Rightarrow> u32 \<Rightarrow> nat \<Rightarrow> nat \<Rightarrow> u16 set \<Rightarrow> miasma_share list \<Rightarrow> bool" where
  "acc_ok C fetch cands mid seg need n seen valid \<longleftrightarrow>
     seen = slot_index ` set valid \<and> distinct (map slot_index valid) \<and> length valid \<le> need \<and>
     (\<forall>s\<in>set valid. good_share C mid seg s \<and> (\<exists>t<n. fetch t (cands ! t) = Inr (Some s)))"

text \<open>The contract of a collection, for every policy.\<close>

definition collection_ok ::
  "cext \<Rightarrow> (nat \<Rightarrow> addr \<Rightarrow> fetched) \<Rightarrow> addr list \<Rightarrow> content_id \<Rightarrow> u32 \<Rightarrow> nat \<Rightarrow> miasma_share list \<Rightarrow> bool" where
  "collection_ok C fetch cands mid seg need valid \<longleftrightarrow>
     acc_ok C fetch cands mid seg need (length cands) (slot_index ` set valid) valid \<and>
     (length valid = need \<or> (\<forall>t<length cands. covered C mid seg (slot_index ` set valid) (fetch t (cands ! t))))"

lemma covered_mono: "covered C mid seg a r \<Longrightarrow> a \<subseteq> b \<Longrightarrow> covered C mid seg b r"
  by (auto simp: covered_def split: sum.splits option.splits)

lemma accept_step:
  assumes "accept_share C (fetch t (cands ! t)) mid seg seen valid = Inr (seen', valid')"
    and "acc_ok C fetch cands mid seg need n seen valid" and "t < n" and "length valid < need"
  shows "acc_ok C fetch cands mid seg need n seen' valid'" and "seen \<subseteq> seen'"
    and "covered C mid seg seen' (fetch t (cands ! t))"
  using assms
  by (auto simp: accept_share_def acc_ok_def covered_def good_share_def split: sum.splits option.splits if_splits)

lemma acc_ok_mono:
  "acc_ok C fetch cands mid seg need n seen valid \<Longrightarrow> n \<le> m \<Longrightarrow> acc_ok C fetch cands mid seg need m seen valid"
  unfolding acc_ok_def by (meson less_le_trans)

lemma sequential_ok:
  assumes "collect_sequential C fetch mid seg need t as seen valid = Inr v" and "as = drop t cands"
    and "acc_ok C fetch cands mid seg need t seen valid" and "t \<le> length cands"
    and "\<forall>j<t. covered C mid seg seen (fetch j (cands ! j))"
  shows "collection_ok C fetch cands mid seg need v"
  using assms
proof (induction C fetch mid seg need t as seen valid rule: collect_sequential.induct)
  case (1 C fetch mid seg need t seen valid)
  then have "t = length cands" by simp
  with 1 show ?case by (auto simp: collection_ok_def acc_ok_def)
next
  case (2 C fetch mid seg need t a as seen valid)
  have seen: "seen = slot_index ` set valid" and short: "length valid \<le> need" using 2(4) by (auto simp: acc_ok_def)
  show ?case
  proof (cases "need \<le> length valid")
    case True
    then show ?thesis
      using 2(2,5) short acc_ok_mono [OF 2(4), of "length cands"] seen by (auto simp: collection_ok_def)
  next
    case False
    have a: "t < length cands" "a = cands ! t" "as = drop (Suc t) cands"
      using 2(3,5) by (metis drop_eq_Nil list.distinct(1) not_less, metis nth_via_drop, metis drop_Suc drop_tl list.sel(3))
    from False 2(2) obtain seen' valid' where acc: "accept_share C (fetch t a) mid seg seen valid = Inr (seen', valid')"
      and rest: "collect_sequential C fetch mid seg need (Suc t) as seen' valid' = Inr v"
      by (auto simp: Inr_simps)
    note step = accept_step [OF acc [unfolded a(2)] acc_ok_mono [OF 2(4), of "Suc t"]]
    have "\<forall>j<Suc t. covered C mid seg seen' (fetch j (cands ! j))"
      using 2(6) step False covered_mono by (auto simp: less_Suc_eq)
    then show ?thesis using 2(1) [OF False acc refl rest a(3)] step False a(1) by simp
  qed
qed

section \<open>The hedged loop\<close>

definition hedge_inv ::
  "cext \<Rightarrow> (nat \<Rightarrow> addr \<Rightarrow> fetched) \<Rightarrow> addr list \<Rightarrow> content_id \<Rightarrow> u32 \<Rightarrow> nat \<Rightarrow> hedge \<Rightarrow> bool" where
  "hedge_inv C fetch cands mid seg need h \<longleftrightarrow>
     length (in_flight h) \<le> 2 \<and> distinct (map fst (in_flight h)) \<and>
     launched h \<le> length cands \<and> waiting h = drop (launched h) cands \<and>
     (\<forall>(t, a)\<in>set (in_flight h). t < launched h \<and> a = cands ! t) \<and>
     acc_ok C fetch cands mid seg need (launched h) (seen_slots h) (accepted h) \<and>
     (\<forall>t<launched h. t \<notin> fst ` set (in_flight h) \<longrightarrow> covered C mid seg (seen_slots h) (fetch t (cands ! t))) \<and>
     (in_flight h = [] \<longrightarrow> launched h = length cands \<or> length (accepted h) = need)"

text \<open>All but the last conjunct, which a launch restores.\<close>

definition hedge_pre ::
  "cext \<Rightarrow> (nat \<Rightarrow> addr \<Rightarrow> fetched) \<Rightarrow> addr list \<Rightarrow> content_id \<Rightarrow> u32 \<Rightarrow> nat \<Rightarrow> hedge \<Rightarrow> bool" where
  "hedge_pre C fetch cands mid seg need h \<longleftrightarrow>
     length (in_flight h) \<le> 2 \<and> distinct (map fst (in_flight h)) \<and>
     launched h \<le> length cands \<and> waiting h = drop (launched h) cands \<and>
     (\<forall>(t, a)\<in>set (in_flight h). t < launched h \<and> a = cands ! t) \<and>
     acc_ok C fetch cands mid seg need (launched h) (seen_slots h) (accepted h) \<and>
     (\<forall>t<launched h. t \<notin> fst ` set (in_flight h) \<longrightarrow> covered C mid seg (seen_slots h) (fetch t (cands ! t)))"

lemma hedge_inv_pre:
  "hedge_inv C fetch cands mid seg need h \<longleftrightarrow>
     hedge_pre C fetch cands mid seg need h \<and>
     (in_flight h = [] \<longrightarrow> launched h = length cands \<or> length (accepted h) = need)"
  unfolding hedge_inv_def hedge_pre_def by blast

lemma launch_inv:
  assumes "hedge_pre C fetch cands mid seg need h" and "length (in_flight h) \<le> 1"
  shows "hedge_inv C fetch cands mid seg need (launch h)"
proof (cases "waiting h")
  case Nil
  then have "launched h = length cands" using assms(1) by (auto simp: hedge_pre_def)
  then show ?thesis using assms(1) Nil by (simp add: hedge_inv_pre launch_def)
next
  case (Cons a as)
  then have d: "drop (launched h) cands = a # as" using assms(1) by (simp add: hedge_pre_def)
  then have a: "launched h < length cands" "a = cands ! launched h" "as = drop (Suc (launched h)) cands"
    by (metis drop_eq_Nil list.distinct(1) not_less, metis nth_via_drop, metis drop_Suc drop_tl list.sel(3))
  have f: "launched h \<notin> fst ` set (in_flight h)" using assms(1) by (auto simp: hedge_pre_def)
  have "acc_ok C fetch cands mid seg need (Suc (launched h)) (seen_slots h) (accepted h)"
    using assms(1) acc_ok_mono [of _ _ _ _ _ _ "launched h" _ _ "Suc (launched h)"] by (simp add: hedge_pre_def)
  moreover have l: "launch h = h\<lparr>waiting := drop (Suc (launched h)) cands,
      in_flight := in_flight h @ [(launched h, cands ! launched h)], launched := Suc (launched h)\<rparr>"
    using Cons a(2,3) by (simp add: launch_def)
  ultimately show ?thesis
    using assms a(1) f unfolding hedge_inv_pre l hedge_pre_def by (auto simp: less_Suc_eq)
qed

lemma hedge_start_inv: "hedge_inv C fetch cands mid seg need (hedge_start cands)"
  unfolding hedge_start_def by (rule launch_inv) (auto simp: hedge_pre_def acc_ok_def)

lemma hedge_done:
  assumes inv: "hedge_inv C fetch cands mid seg need h" and short: "length (accepted h) < need"
    and i: "i < length (in_flight h)"
    and acc: "accept_share C (fetch (fst (in_flight h ! i)) (snd (in_flight h ! i))) mid seg (seen_slots h) (accepted h) =
      Inr (seen', valid')"
  shows "hedge_pre C fetch cands mid seg need
    (h\<lparr>in_flight := take i (in_flight h) @ drop (Suc i) (in_flight h), seen_slots := seen', accepted := valid'\<rparr>)"
proof -
  let ?fl = "in_flight h" and ?rest = "take i (in_flight h) @ drop (Suc i) (in_flight h)"
  obtain t where t: "?fl ! i = (t, cands ! t)" "t < launched h"
    using inv i nth_mem [OF i] by (cases "?fl ! i") (auto simp: hedge_inv_def)
  have ok: "acc_ok C fetch cands mid seg need (launched h) (seen_slots h) (accepted h)" using inv by (simp add: hedge_inv_def)
  note step = accept_step [OF acc [unfolded t fst_conv snd_conv] ok t(2) short]
  have split: "?fl = take i ?fl @ (t, cands ! t) # drop (Suc i) ?fl" using id_take_nth_drop [OF i] t(1) by simp
  then have mem: "set ?fl = insert (t, cands ! t) (set ?rest)" by (metis Un_insert_right list.set(2) set_append)
  have "distinct (map fst (take i ?fl @ (t, cands ! t) # drop (Suc i) ?fl))"
    using inv split by (simp add: hedge_inv_def)
  then have dist: "distinct (map fst ?rest)" "t \<notin> fst ` set ?rest" by auto
  have "covered C mid seg seen' (fetch j (cands ! j))" if "j < launched h" "j \<notin> fst ` set ?rest" for j
  proof (cases "j = t")
    case False
    then have "j \<notin> fst ` set ?fl" using that(2) mem by auto
    then show ?thesis using inv that(1) covered_mono step(2) by (auto simp: hedge_inv_def)
  qed (use step(3) in simp)
  moreover have "length ?fl \<le> 2" using inv by (simp add: hedge_inv_def)
  then have "length ?rest \<le> 2" using i by simp
  ultimately show ?thesis
    using inv dist(1) step(1) unfolding hedge_pre_def hedge_inv_def by (auto simp: mem)
qed

definition hedge_state_inv ::
  "cext \<Rightarrow> (nat \<Rightarrow> addr \<Rightarrow> fetched) \<Rightarrow> addr list \<Rightarrow> content_id \<Rightarrow> u32 \<Rightarrow> nat \<Rightarrow> miasma_error + hedge \<Rightarrow> bool" where
  "hedge_state_inv C fetch cands mid seg need st =
     (case st of
        Inl err \<Rightarrow> \<exists>t<length cands. fetch t (cands ! t) = Inl err
      | Inr h \<Rightarrow> hedge_inv C fetch cands mid seg need h)"

definition hedge_stopped :: "nat \<Rightarrow> miasma_error + hedge \<Rightarrow> bool" where
  "hedge_stopped need st = (case st of Inl _ \<Rightarrow> True | Inr h \<Rightarrow> hedge_over need h)"

lemma hedge_event_inv:
  assumes inv: "hedge_inv C fetch cands mid seg need h" and run: "\<not> hedge_over need h"
  shows "hedge_state_inv C fetch cands mid seg need (hedge_event C fetch mid seg need h ev)"
proof (cases ev)
  case Elapsed
  then show ?thesis
    using inv launch_inv [of C fetch cands mid seg need h]
    by (auto simp: hedge_event_def hedge_state_inv_def hedge_inv_pre)
next
  case (Done i)
  have short: "length (accepted h) < need" using run by (simp add: hedge_over_def)
  show ?thesis
  proof (cases "i < length (in_flight h)")
    case True
    obtain t where t: "in_flight h ! i = (t, cands ! t)" "t < length cands"
      using inv True nth_mem [OF True] by (cases "in_flight h ! i") (auto simp: hedge_inv_def)
    show ?thesis
    proof (cases "accept_share C (fetch t (cands ! t)) mid seg (seen_slots h) (accepted h)")
      case (Inl err)
      then have "fetch t (cands ! t) = Inl err" by (auto simp: accept_share_def split: sum.splits option.splits if_splits)
      then show ?thesis using Inl True t Done by (auto simp: hedge_event_def hedge_state_inv_def)
    next
      case (Inr p)
      obtain seen' valid' where p: "p = (seen', valid')" by (cases p)
      define h' where "h' = h\<lparr>in_flight := take i (in_flight h) @ drop (Suc i) (in_flight h),
        seen_slots := seen', accepted := valid'\<rparr>"
      have pre: "hedge_pre C fetch cands mid seg need h'"
        using hedge_done [OF inv short True, of seen' valid'] Inr p t unfolding h'_def by simp
      have "hedge_inv C fetch cands mid seg need
        (if need \<le> length valid' then h' else if in_flight h' = [] then launch h' else h')"
      proof (cases "need \<le> length valid' \<or> in_flight h' \<noteq> []")
        case True
        moreover have "length valid' \<le> need" using pre by (simp add: hedge_pre_def acc_ok_def h'_def)
        ultimately show ?thesis using pre by (auto simp: hedge_inv_pre h'_def)
      qed (use launch_inv [OF pre] in auto)
      moreover have "hedge_event C fetch mid seg need h ev =
          Inr (if need \<le> length valid' then h' else if in_flight h' = [] then launch h' else h')"
        using Inr p True t Done by (simp add: hedge_event_def Let_def h'_def [symmetric])
      ultimately show ?thesis by (simp add: hedge_state_inv_def)
    qed
  qed (use Done inv in \<open>simp add: hedge_event_def hedge_state_inv_def\<close>)
qed

interpretation hedging: terminal_machine "hedge_step C fetch mid seg need" "hedge_state_inv C fetch cands mid seg need"
  "hedge_stopped need" for C fetch cands mid seg need
proof
  show "hedge_state_inv C fetch cands mid seg need (hedge_step C fetch mid seg need st ev)"
    if "hedge_state_inv C fetch cands mid seg need st" for st ev
  proof (cases st)
    case (Inr h)
    then have "hedge_inv C fetch cands mid seg need h" using that by (simp add: hedge_state_inv_def)
    then show ?thesis using hedge_event_inv that Inr by (simp add: hedge_step_def)
  qed (use that in \<open>simp add: hedge_step_def\<close>)
  show "hedge_step C fetch mid seg need st ev = st"
    if "hedge_state_inv C fetch cands mid seg need st" "hedge_stopped need st" for st ev
    using that by (auto simp: hedge_step_def hedge_stopped_def split: sum.splits)
qed

definition hedge_run ::
  "cext \<Rightarrow> (nat \<Rightarrow> addr \<Rightarrow> fetched) \<Rightarrow> content_id \<Rightarrow> u32 \<Rightarrow> nat \<Rightarrow> addr list \<Rightarrow> event list \<Rightarrow> miasma_error + hedge" where
  "hedge_run C fetch mid seg need cands events =
     foldl (hedge_step C fetch mid seg need) (Inr (hedge_start cands)) events"

lemma hedge_run_inv: "hedge_state_inv C fetch cands mid seg need (hedge_run C fetch mid seg need cands events)"
  unfolding hedge_run_def by (rule hedging.inv_run) (simp add: hedge_state_inv_def hedge_start_inv)

lemma hedge_over_ok:
  assumes "hedge_inv C fetch cands mid seg need h" and "hedge_over need h"
  shows "collection_ok C fetch cands mid seg need (accepted h)"
proof -
  have acc: "acc_ok C fetch cands mid seg need (launched h) (seen_slots h) (accepted h)" and "launched h \<le> length cands"
    using assms(1) by (auto simp: hedge_inv_def)
  then have "acc_ok C fetch cands mid seg need (length cands) (seen_slots h) (accepted h)" using acc_ok_mono by blast
  moreover have "seen_slots h = slot_index ` set (accepted h)" "length (accepted h) \<le> need" using acc by (auto simp: acc_ok_def)
  ultimately show ?thesis
    using assms unfolding collection_ok_def hedge_over_def hedge_inv_def by auto
qed

section \<open>Soundness and completeness of a collection\<close>

lemma sequential_error:
  assumes "collect_sequential C fetch mid seg need t as seen valid = Inl err" and "as = drop t cands"
  shows "\<exists>j<length cands. fetch j (cands ! j) = Inl err"
  using assms
proof (induction C fetch mid seg need t as seen valid rule: collect_sequential.induct)
  case (2 C fetch mid seg need t a as seen valid)
  have a: "t < length cands" "a = cands ! t" "as = drop (Suc t) cands"
    using 2(3) by (metis drop_eq_Nil list.distinct(1) not_less, metis nth_via_drop, metis drop_Suc drop_tl list.sel(3))
  show ?case
  proof (cases "accept_share C (fetch t a) mid seg seen valid")
    case (Inl e)
    then have "fetch t a = Inl e" by (auto simp: accept_share_def split: sum.splits option.splits if_splits)
    then show ?thesis using a(1,2) 2(2) Inl by (auto split: if_splits)
  next
    case (Inr q)
    then show ?thesis using 2 a(3) by (cases q) (auto split: if_splits)
  qed
qed simp

lemma collected:
  "case collect_verified_shares C fetch events cands mid seg need policy of
     None \<Rightarrow> True
   | Some (Inl err) \<Rightarrow> \<exists>t<length cands. fetch t (cands ! t) = Inl err
   | Some (Inr valid) \<Rightarrow> collection_ok C fetch cands mid seg need valid"
proof (cases "need = 0")
  case True
  then show ?thesis by (simp add: collect_verified_shares_def collection_ok_def acc_ok_def)
next
  case need: False
  show ?thesis
  proof (cases policy)
    case Sequential
    have "\<exists>t<length cands. fetch t (cands ! t) = Inl err"
      if "collect_sequential C fetch mid seg need 0 cands {} [] = Inl err" for err
      using sequential_error [OF that, of cands] by simp
    moreover have "collection_ok C fetch cands mid seg need v"
      if "collect_sequential C fetch mid seg need 0 cands {} [] = Inr v" for v
      using sequential_ok [OF that, of cands] by (simp add: acc_ok_def)
    ultimately show ?thesis using need Sequential by (auto simp: collect_verified_shares_def split: sum.splits)
  next
    case (Hedged d)
    have "collect_verified_shares C fetch events cands mid seg need policy =
        hedge_result need (hedge_run C fetch mid seg need cands events)"
      using need Hedged by (simp add: collect_verified_shares_def hedge_run_def)
    then show ?thesis
      using hedge_run_inv [of C fetch cands mid seg need events] hedge_over_ok [of C fetch cands mid seg need]
      by (auto simp: hedge_result_def hedge_state_inv_def split: sum.splits)
  qed
qed

text \<open>
  Whatever the holders answer and in whatever order, a collection under any policy that returns gives at most
  \<open>need\<close> shares of different slots, each a checked answer of one candidate, and fewer than \<open>need\<close> only if every
  candidate was asked and no further slot was on offer. An error it returns is one a candidate's fetch returned.
\<close>

theorem collection_sound:
  "case collect_verified_shares C fetch events cands mid seg need policy of
     None \<Rightarrow> True
   | Some (Inl err) \<Rightarrow> \<exists>t<length cands. fetch t (cands ! t) = Inl err
   | Some (Inr valid) \<Rightarrow> collection_ok C fetch cands mid seg need valid"
  by (rule collected)

text \<open>
  A hedged collection never has more than two requests in flight, never asks a candidate twice, and once it
  has what it needs, or an error, no later completion changes its result.
\<close>

theorem hedge_bounded:
  "(case hedge_run C fetch mid seg need cands events of
      Inl _ \<Rightarrow> True
    | Inr h \<Rightarrow> length (in_flight h) \<le> 2 \<and> distinct (map fst (in_flight h)) \<and> launched h + length (waiting h) = length cands) \<and>
   (hedge_stopped need (hedge_run C fetch mid seg need cands events) \<longrightarrow>
      hedge_run C fetch mid seg need cands (events @ later) = hedge_run C fetch mid seg need cands events)"
proof -
  have "hedge_state_inv C fetch cands mid seg need (Inr (hedge_start cands))"
    by (simp add: hedge_state_inv_def hedge_start_inv)
  then have "hedge_run C fetch mid seg need cands (events @ later) = hedge_run C fetch mid seg need cands events"
    if "hedge_stopped need (hedge_run C fetch mid seg need cands events)"
    using that hedging.terminal_once unfolding hedge_run_def by blast
  then show ?thesis
    using hedge_run_inv [of C fetch cands mid seg need events]
    by (auto simp: hedge_state_inv_def hedge_inv_def split: sum.splits)
qed

definition hedge_left :: "hedge \<Rightarrow> nat" where
  "hedge_left h = length (waiting h) + length (in_flight h)"

lemma launch_left: "hedge_left (launch h) = hedge_left h"
  by (simp add: hedge_left_def launch_def split: list.splits)

lemma hedge_event_left:
  assumes "hedge_event C fetch mid seg need h ev = Inr h'"
  shows "hedge_left h' \<le> hedge_left h" and "ev = Done 0 \<Longrightarrow> in_flight h \<noteq> [] \<Longrightarrow> hedge_left h' < hedge_left h"
proof -
  have rest: "hedge_left (h\<lparr>in_flight := take i (in_flight h) @ drop (Suc i) (in_flight h), seen_slots := a, accepted := b\<rparr>) <
      hedge_left h" if "i < length (in_flight h)" for i a b
    using that by (simp add: hedge_left_def)
  have *: "hedge_left h' < hedge_left h" if "ev = Done i" "i < length (in_flight h)" for i
    using assms that rest [OF that(2)] launch_left
    by (auto simp: hedge_event_def Let_def simp del: append_is_Nil_conv split: sum.splits if_splits)
  show "ev = Done 0 \<Longrightarrow> in_flight h \<noteq> [] \<Longrightarrow> hedge_left h' < hedge_left h" using * [of 0] by simp
  show "hedge_left h' \<le> hedge_left h"
  proof (cases ev)
    case Elapsed
    then show ?thesis using assms launch_left by (auto simp: hedge_event_def)
  next
    case (Done i)
    then show ?thesis using assms * [of i] by (cases "i < length (in_flight h)") (auto simp: hedge_event_def)
  qed
qed

lemma hedge_run_stops:
  assumes "case st of Inl _ \<Rightarrow> True | Inr h \<Rightarrow> hedge_left h \<le> count_list events (Done 0)"
  shows "hedge_stopped need (foldl (hedge_step C fetch mid seg need) st events)"
  using assms
proof (induction events arbitrary: st)
  case Nil
  then show ?case by (auto simp: hedge_stopped_def hedge_left_def hedge_over_def split: sum.splits)
next
  case (Cons ev events)
  show ?case
  proof (cases "hedge_stopped need st")
    case True
    then have "hedge_step C fetch mid seg need st ev = st"
      by (auto simp: hedge_step_def hedge_stopped_def split: sum.splits)
    moreover have "foldl (hedge_step C fetch mid seg need) st es = st" for es
      using True by (induction es) (auto simp: hedge_step_def hedge_stopped_def split: sum.splits)
    ultimately show ?thesis using True by simp
  next
    case False
    then obtain h where h: "st = Inr h" "in_flight h \<noteq> []" "\<not> hedge_over need h"
      by (auto simp: hedge_stopped_def hedge_over_def split: sum.splits)
    have "case hedge_event C fetch mid seg need h ev of Inl _ \<Rightarrow> True | Inr h' \<Rightarrow> hedge_left h' \<le> count_list events (Done 0)"
    proof (cases "hedge_event C fetch mid seg need h ev")
      case (Inr h')
      then show ?thesis
        using hedge_event_left [OF Inr] Cons.prems h by (cases "ev = Done 0") auto
    qed simp
    then show ?thesis using Cons.IH h by (simp add: hedge_step_def)
  qed
qed

lemma collection_returns:
  assumes "policy = Sequential \<or> length cands \<le> count_list events (Done 0)"
  shows "\<exists>r. collect_verified_shares C fetch events cands mid seg need policy = Some r"
proof (cases policy)
  case (Hedged d)
  then have "hedge_left (hedge_start cands) \<le> count_list events (Done 0)"
    using assms by (simp add: hedge_start_def launch_left) (simp add: hedge_left_def)
  then have "hedge_stopped need (foldl (hedge_step C fetch mid seg need) (Inr (hedge_start cands)) events)"
    by (intro hedge_run_stops) simp
  then show ?thesis
    using Hedged by (auto simp: collect_verified_shares_def hedge_result_def hedge_stopped_def split: sum.splits)
qed (auto simp: collect_verified_shares_def)

definition offered :: "cext \<Rightarrow> (nat \<Rightarrow> addr \<Rightarrow> fetched) \<Rightarrow> addr list \<Rightarrow> content_id \<Rightarrow> u32 \<Rightarrow> u16 set" where
  "offered C fetch cands mid seg =
     slot_index ` {s. good_share C mid seg s \<and> (\<exists>t<length cands. fetch t (cands ! t) = Inr (Some s))}"

lemma complete_collection:
  assumes "\<And>t. t < length cands \<Longrightarrow> \<not> isl (fetch t (cands ! t))" and "need \<le> card (offered C fetch cands mid seg)"
    and "policy = Sequential \<or> length cands \<le> count_list events (Done 0)"
  shows "\<exists>valid. collect_verified_shares C fetch events cands mid seg need policy = Some (Inr valid) \<and> length valid = need"
proof -
  obtain r where r: "collect_verified_shares C fetch events cands mid seg need policy = Some r"
    using collection_returns [OF assms(3)] by blast
  note sound = collected [where C = C and fetch = fetch and events = events and cands = cands and mid = mid and seg = seg
      and need = need and policy = policy]
  obtain valid where valid: "r = Inr valid" "collection_ok C fetch cands mid seg need valid"
    using sound r assms(1) by (cases r) force+
  have "length valid = need"
  proof (rule ccontr)
    assume "length valid \<noteq> need"
    then have "offered C fetch cands mid seg \<subseteq> slot_index ` set valid" and short: "length valid < need"
      using valid(2) by (fastforce simp: collection_ok_def acc_ok_def offered_def covered_def)+
    then have "card (offered C fetch cands mid seg) \<le> length valid"
      by (meson card_image_le card_length card_mono finite_imageI finite_set le_trans)
    then show False using assms(2) short by simp
  qed
  then show ?thesis using r valid(1) by simp
qed

text \<open>
  A collection is live and complete. When no fetch fails and the candidates offer \<open>need\<close> different slots, it
  returns exactly \<open>need\<close> shares, under every policy and every order of completions, however many of the other
  answers are missing, forged or duplicates; a hedged one needs at most one completion per candidate.
\<close>

theorem collection_complete:
  assumes "\<And>t. t < length cands \<Longrightarrow> \<not> isl (fetch t (cands ! t))" and "need \<le> card (offered C fetch cands mid seg)"
    and "policy = Sequential \<or> length cands \<le> count_list events (Done 0)"
  shows "\<exists>valid. collect_verified_shares C fetch events cands mid seg need policy = Some (Inr valid) \<and> length valid = need"
  using complete_collection [OF assms] .

section \<open>Retrieval from holders\<close>

text \<open>
  What a collection needs of its holders: the fetch of an address does not fail and does not depend on when it is made,
  the shuffle permutes the candidates, every answer that passes the checks is one of the \<open>shares\<close> of the content,
  \<open>k\<close> different slots are on offer, and a hedged collection sees enough completions.
\<close>

definition holders_ok ::
  "cext \<Rightarrow> turn \<Rightarrow> (addr \<Rightarrow> miasma_share option) \<Rightarrow> addr list \<Rightarrow> content_id \<Rightarrow> u32 \<Rightarrow> nat \<Rightarrow> miasma_share list \<Rightarrow>
     fetch_policy \<Rightarrow> bool" where
  "holders_ok C tn ans candidates mid seg k shares policy \<longleftrightarrow>
     (\<forall>t. \<forall>a\<in>set candidates. source_fetch (turn_source tn) t a = Inr (ans a)) \<and>
     mset (turn_shuffle tn candidates) = mset candidates \<and>
     (\<forall>a\<in>set candidates. \<forall>s. ans a = Some s \<longrightarrow> good_share C mid seg s \<longrightarrow> s \<in> set shares) \<and>
     k \<le> card (slot_index ` {s. good_share C mid seg s \<and> (\<exists>a\<in>set candidates. ans a = Some s)}) \<and>
     (policy = Sequential \<or> length candidates \<le> count_list (turn_events tn) (Done 0))"

lemma await_simps [simp]:
  "await (Some (Inr x)) f = f x" "await (Some (Inl err)) f = Some (Inl err)" "await None f = None"
  by (simp_all add: await_def)

lemma await_Inr: "await r f = Some (Inr y) \<longleftrightarrow> (\<exists>x. r = Some (Inr x) \<and> f x = Some (Inr y))"
  by (auto simp: await_def split: option.splits sum.splits)

lemma collect_genuine:
  assumes "holders_ok C tn ans candidates mid seg (data_shards params) shares policy"
  obtains valid where "collect_from C tn policy mid seg params candidates = Some (Inr valid)"
    and "length valid = data_shards params" and "distinct valid" and "set valid \<subseteq> set shares"
    and "list_all (good_share C mid seg) valid"
proof -
  let ?cands = "turn_shuffle tn candidates" and ?fetch = "source_fetch (turn_source tn)" and ?k = "data_shards params"
  have perm: "mset ?cands = mset candidates" and gen: "\<And>a s. a \<in> set candidates \<Longrightarrow> ans a = Some s \<Longrightarrow>
      good_share C mid seg s \<Longrightarrow> s \<in> set shares"
    and fetch: "\<And>t a. a \<in> set candidates \<Longrightarrow> ?fetch t a = Inr (ans a)"
    using assms by (auto simp: holders_ok_def)
  have same: "set ?cands = set candidates" "length ?cands = length candidates"
    using mset_eq_setD [OF perm] mset_eq_length [OF perm] by simp_all
  have at: "?fetch t (?cands ! t) = Inr (ans (?cands ! t))" if "t < length ?cands" for t
    using fetch nth_mem [OF that] same(1) by simp
  have "(\<exists>t<length ?cands. ?fetch t (?cands ! t) = Inr (Some s)) \<longleftrightarrow> (\<exists>a\<in>set candidates. ans a = Some s)" for s
    unfolding same(1) [symmetric] in_set_conv_nth Bex_def using at by auto
  then have "offered C ?fetch ?cands mid seg =
      slot_index ` {s. good_share C mid seg s \<and> (\<exists>a\<in>set candidates. ans a = Some s)}"
    by (simp add: offered_def)
  then have "?k \<le> card (offered C ?fetch ?cands mid seg)" using assms by (simp add: holders_ok_def)
  moreover have "policy = Sequential \<or> length ?cands \<le> count_list (turn_events tn) (Done 0)"
    using assms same(2) by (simp add: holders_ok_def)
  ultimately obtain valid where valid:
    "collect_verified_shares C ?fetch (turn_events tn) ?cands mid seg ?k policy = Some (Inr valid)" "length valid = ?k"
    using complete_collection [of ?cands ?fetch ?k C mid seg policy "turn_events tn"] at by auto
  then have ok: "collection_ok C ?fetch ?cands mid seg ?k valid"
    using collected [where C = C and fetch = ?fetch and events = "turn_events tn" and cands = ?cands and mid = mid
        and seg = seg and need = ?k and policy = policy] by simp
  then have "\<forall>s\<in>set valid. good_share C mid seg s \<and> s \<in> set shares"
    using at gen nth_mem same(1) unfolding collection_ok_def acc_ok_def by (metis old.sum.inject(2))
  moreover have "distinct valid" using ok by (auto simp: collection_ok_def acc_ok_def distinct_map)
  ultimately show ?thesis
    using valid that [of valid] by (auto simp: collect_from_def enough_def list_all_iff)
qed

lemma holders_nonempty:
  assumes "holders_ok C tn ans candidates mid seg k shares policy" and "0 < k"
  shows "candidates \<noteq> []"
  using assms by (auto simp: holders_ok_def)

lemma genuine_usable:
  assumes "length valid = k" and "distinct valid" and "set valid \<subseteq> set shares" and "list_all P valid"
  shows "usable k shares (filter P valid)"
  using assms by (simp add: usable_def list_all_iff)

text \<open>
  C2: The network can be hostile in everything but the checked shares. Content dissolved into \<open>n\<close> shares is retrieved
  by its identifier from any candidates that offer \<open>k\<close> different genuine slots, in every shuffled order, under
  every fetch policy and interleaving, with any missing, corrupt or duplicate answers among them.
\<close>

theorem network_retrieve:
  assumes "params_ok params" and "laws C params" and "draws_ok d" and "length plaintext < 2 ^ 32"
    and "dissolve_at C d plaintext params ts = Inr (mid, shares)"
    and "holders_ok C tn ans (list_candidates_for_segment (turn_source tn) mid 0) mid 0 (data_shards params) shares policy"
  shows "coord_retrieve C tn policy mid params = Some (Inr plaintext)"
proof -
  obtain valid where v: "collect_from C tn policy mid 0 params (list_candidates_for_segment (turn_source tn) mid 0) =
      Some (Inr valid)" "length valid = data_shards params" "distinct valid" "set valid \<subseteq> set shares"
    "list_all (good_share C mid 0) valid"
    using collect_genuine [OF assms(6)] by blast
  have "list_all (\<lambda>s. coarse_verify C s mid) valid" using v(5) by (simp add: good_share_def list_all_iff)
  then have "retrieve C mid valid params = Inr plaintext"
    using dissolved_content [OF assms(1-4), of ts] assms(5) genuine_usable [OF v(2-4)] by auto
  moreover have "0 < data_shards params" using assms(1) by (simp add: params_ok_def)
  ultimately show ?thesis
    using v(1) holders_nonempty [OF assms(6)] by (simp add: coord_retrieve_def collect_k_shares_def Let_def)
qed

lemma retrieve_segment_meta:
  assumes "sm_index meta = sm_index meta'" and "plaintext_len meta = plaintext_len meta'"
  shows "retrieve_segment_with C mid shares meta params pw = retrieve_segment_with C mid shares meta' params pw"
  unfolding retrieve_segment_with_def segment_shares_def assms ..

lemma segment_collected:
  assumes "params_ok params" and "laws C params" and "draws_ok d" and "length text < 2 ^ 32"
    and "dissolve_segment_with_at C d text mid seg off params None ts = Inr (meta, shares)"
    and "holders_ok C tn ans (list_candidates_for_segment (turn_source tn) mid seg) mid seg (data_shards params) shares policy"
  shows "await (collect_k_shares C tn policy mid seg params) (synthetic_segment C mid seg params) = Some (Inr text)"
proof -
  obtain valid where v: "collect_from C tn policy mid seg params (list_candidates_for_segment (turn_source tn) mid seg) =
      Some (Inr valid)" "length valid = data_shards params" "distinct valid" "set valid \<subseteq> set shares"
    "list_all (good_share C mid seg) valid"
    using collect_genuine [OF assms(6)] by blast
  have k: "0 < data_shards params" using assms(1) by (simp add: params_ok_def)
  obtain shares' where s: "dissolve_segment_with_at C d text mid seg off params None ts = Inr (meta_for seg off text params, shares')"
    "genuine C mid params (meta_for seg off text params) shares'"
    and again: "\<And>pool. usable (data_shards params) shares' (segment_shares C mid (meta_for seg off text params) pool) \<Longrightarrow>
      retrieve_segment_with C mid pool (meta_for seg off text params) params None = Inr text"
    using segment_roundtrip [OF assms(1-4), of mid seg off None ts] by blast
  then have meta: "meta = meta_for seg off text params" "shares' = shares" using assms(5) by simp_all
  have "list_all (\<lambda>s. segment_index s = seg \<and> coarse_verify C s mid) valid" using v(5) by (simp add: good_share_def list_all_iff)
  then have got: "retrieve_segment_with C mid valid (meta_for seg off text params) params None = Inr text"
    using again genuine_usable [OF v(2-4)] by (simp add: segment_shares_def meta)
  obtain x xs where x: "valid = x # xs" using v(2) k by (cases valid) auto
  then have "original_len x = word_of_nat (length text)" using s(2) v(4) by (auto simp: genuine_def list_all_iff meta)
  then have "retrieve_segment_with C mid valid \<lparr>sm_index = seg, offset_bytes = 0, plaintext_len = original_len x,
      share_count = word_of_nat (total_shards params)\<rparr> params None = Inr text"
    using got by (subst retrieve_segment_meta [of _ "meta_for seg off text params"]) simp_all
  then have "synthetic_segment C mid seg params valid = Some (Inr text)" by (simp add: synthetic_segment_def x)
  then show ?thesis using v(1) holders_nonempty [OF assms(6) k] by (simp add: collect_k_shares_def Let_def)
qed

lemma await_assoc: "await (await r f) g = await r (\<lambda>x. await (f x) g)"
  by (simp add: await_def split: option.splits sum.splits)

lemma segment_list_concat:
  assumes "\<And>i. i \<in> set is \<Longrightarrow>
      await (collect_k_shares C (turns i) policy mid i params) (synthetic_segment C mid i params) = Some (Inr (f i))"
  shows "retrieve_segment_list C turns policy mid params is = Some (Inr (concat (map f is)))"
  using assms by (induction "is") (simp_all add: await_assoc [symmetric])

lemma dissolve_chunks_nth:
  assumes "dissolve_chunks C draw now mid params sz i cs = Inr (metas, all)" and "j < length cs"
  shows "dissolve_segment_with_at C (draw (i + j)) (cs ! j) mid (word_of_nat (i + j)) (word_of_nat ((i + j) * sz)) params None
    (now (i + j)) = Inr (metas ! j, all ! j)"
  using assms
proof (induction cs arbitrary: i j metas all)
  case (Cons c cs)
  then show ?case
  proof (cases j)
    case 0
    then show ?thesis using Cons.prems(1) by (auto simp: Inr_simps simp del: of_nat_mult)
  next
    case (Suc l)
    then obtain ms als where "dissolve_chunks C draw now mid params sz (Suc i) cs = Inr (ms, als)"
      "metas ! j = ms ! l" "all ! j = als ! l"
      using Cons.prems(1) by (auto simp: Inr_simps simp del: of_nat_mult)
    then show ?thesis using Cons.IH [of "Suc i" ms als l] Cons.prems(2) Suc by (simp del: of_nat_mult of_nat_add of_nat_Suc)
  qed
qed simp

text \<open>
  Retrieving segment by segment gives back the content that was dissolved under the identifier asked for. It does
  so for every identifier \<open>mid\<close> the segments were labelled with, also one that is not the hash of the content:
  on this path nothing compares the whole with the identifier.
\<close>

theorem segments_retrieved:
  assumes "params_ok params" and "laws C params" and "\<And>i. draws_ok (draw i)"
    and "length cs < 2 ^ 32" and "list_all (\<lambda>c. length c < 2 ^ 32) cs"
    and "dissolve_chunks C draw now mid params sz 0 cs = Inr (metas, all)"
    and "\<And>j. j < length cs \<Longrightarrow>
      holders_ok C (turns (word_of_nat j)) (ans j) (list_candidates_for_segment (turn_source (turns (word_of_nat j))) mid (word_of_nat j))
        mid (word_of_nat j) (data_shards params) (all ! j) policy"
  shows "retrieve_segments C turns policy mid (word_of_nat (length cs)) params = Some (Inr (concat cs))"
proof -
  have one: "await (collect_k_shares C (turns (word_of_nat j)) policy mid (word_of_nat j) params)
      (synthetic_segment C mid (word_of_nat j) params) = Some (Inr (cs ! j))" if "j < length cs" for j
    using segment_collected [OF assms(1,2) assms(3) [of j] _ dissolve_chunks_nth [OF assms(6) that, simplified] assms(7) [OF that]]
      assms(5) that by (auto simp: list_all_length)
  have n: "unat (word_of_nat (length cs) :: u32) = length cs" using assms(4) by (simp add: unat_of_nat)
  define g where "g i = cs ! unat i" for i :: u32
  have g: "g (word_of_nat j) = cs ! j" if "j < length cs" for j
    using that assms(4) by (simp add: g_def unat_of_nat)
  have "retrieve_segment_list C turns policy mid params (segment_range (word_of_nat (length cs))) =
      Some (Inr (concat (map g (segment_range (word_of_nat (length cs))))))"
    using one g by (intro segment_list_concat) (auto simp: segment_range_def n)
  moreover have "map g (segment_range (word_of_nat (length cs))) = cs"
    unfolding segment_range_def n by (rule nth_equalityI) (simp_all add: g)
  ultimately show ?thesis by (simp add: retrieve_segments_def)
qed

section \<open>Streaming\<close>

text \<open>What a consumer that stops at the first error gets from a stream of segments.\<close>

fun drain :: "bytes awaited list \<Rightarrow> bytes awaited" where
  "drain [] = Some (Inr [])"
| "drain (item # items) = await item (\<lambda>b. await (drain items) (\<lambda>rest. Some (Inr (b @ rest))))"

lemma no_candidates:
  assumes "0 < data_shards params" and "turn_shuffle tn [] = []"
  shows "collect_from C tn policy mid seg params [] = Some (Inl (InsufficientShares (data_shards params) 0))"
proof (cases policy)
  case (Hedged d)
  have "foldl (hedge_step C fetch mid seg k) (Inr (hedge_start [])) events = Inr (hedge_start [])" for fetch k events
    by (induction events) (simp_all add: hedge_step_def hedge_over_def hedge_start_def launch_def)
  then show ?thesis
    using assms Hedged by (simp add: collect_from_def collect_verified_shares_def hedge_result_def hedge_over_def
      hedge_start_def launch_def enough_def)
qed (use assms in \<open>simp add: collect_from_def collect_verified_shares_def enough_def\<close>)

text \<open>
  The streaming retrieval agrees with the buffered one. A consumer that reads the stream up to its first error gets the
  same bytes, or the same error, as \<^verbatim>\<open>retrieve_segments\<close> on the same network, although the two list and check their
  candidates differently.
\<close>

theorem stream_matches_segments:
  assumes "0 < data_shards params" and "\<And>i. turn_shuffle (turns i) [] = []"
  shows "drain (retrieve_streaming_by_mid C turns policy mid n params) = retrieve_segments C turns policy mid n params"
proof -
  have "collect_from C (turns i) policy mid i params (list_candidates_for_segment (turn_source (turns i)) mid i) =
      collect_k_shares C (turns i) policy mid i params" for i
    using no_candidates [OF assms(1) assms(2) [of i]] by (auto simp: collect_k_shares_def Let_def)
  then have "drain (map (\<lambda>i. await (collect_from C (turns i) policy mid i params
        (list_candidates_for_segment (turn_source (turns i)) mid i)) (synthetic_segment C mid i params)) is) =
      retrieve_segment_list C turns policy mid params is" for "is"
    by (induction "is") (simp_all add: await_assoc)
  then show ?thesis by (simp add: retrieve_streaming_by_mid_def retrieve_segments_def)
qed

section \<open>Authentic results\<close>

lemma write_items_drain:
  "write_items D n items w = Some (True, hashed, written) \<Longrightarrow>
     \<exists>data. drain items = Some (Inr data) \<and> hashed = w @ data \<and> written = w @ data"
proof (induction D n items w rule: write_items.induct)
  case (1 D n items w)
  have c: "\<not> cancel D n" using 1(2) by (auto simp: write_items.simps [of D n items w])
  show ?case
  proof (cases items)
    case Nil
    then show ?thesis using 1(2) c by (auto simp: write_items.simps [of D n "[]" w])
  next
    case (Cons item rest)
    with 1(2) c obtain b where b: "item = Some (Inr b)" "write_ok D n" "write_items D (Suc n) rest (w @ b) = Some (True, hashed, written)"
      by (auto simp: write_items.simps [of D n "item # rest" w] split: option.splits sum.splits if_splits)
    then show ?thesis using 1(1) [OF c Cons b(1) refl b(2,3)] Cons by auto
  qed
qed

text \<open>
  Every retrieval that checks the whole content is authentic: what the single-segment path, the manifest path or
  a receive into a file delivers hashes to the identifier asked for, whatever the network answered. The file holds
  all the bytes of the stream, and a receive that fails leaves no file behind.
\<close>

theorem network_authentic:
  "(case coord_retrieve C tn policy mid params of
      Some (Inr p) \<Rightarrow> mid_compute C p (to_param_bytes params) = mid
    | _ \<Rightarrow> True) \<and>
   (case coord_retrieve_file C src turns policy m of
      Some (Inr p) \<Rightarrow> mid_compute C p (to_param_bytes (mf_params m)) = mf_mid m
    | _ \<Rightarrow> True) \<and>
   (case get_to_file C D (Inr items) mid params None of
      Some (RetrievedToFile n, Some p) \<Rightarrow>
        mid_compute C p (to_param_bytes params) = mid \<and> n = length p \<and> drain items = Some (Inr p)
    | Some (RetrievedToFile n, None) \<Rightarrow> False
    | Some (GetError, left) \<Rightarrow> (if remove_ok D then left = None else True)
    | None \<Rightarrow> True)"
proof (intro conjI)
  show "case coord_retrieve C tn policy mid params of
      Some (Inr p) \<Rightarrow> mid_compute C p (to_param_bytes params) = mid
    | _ \<Rightarrow> True"
    by (auto simp: coord_retrieve_def await_Inr retrieve_hash split: option.splits sum.splits)
  show "case coord_retrieve_file C src turns policy m of
      Some (Inr p) \<Rightarrow> mid_compute C p (to_param_bytes (mf_params m)) = mf_mid m
    | _ \<Rightarrow> True"
    by (auto simp: coord_retrieve_file_def await_Inr retrieve_file_hash split: option.splits sum.splits)
  show "case get_to_file C D (Inr items) mid params None of
      Some (RetrievedToFile n, Some p) \<Rightarrow>
        mid_compute C p (to_param_bytes params) = mid \<and> n = length p \<and> drain items = Some (Inr p)
    | Some (RetrievedToFile n, None) \<Rightarrow> False
    | Some (GetError, left) \<Rightarrow> (if remove_ok D then left = None else True)
    | None \<Rightarrow> True"
    using write_items_drain [of D 0 items "[]"]
    by (auto simp: get_to_file_def finalize_streamed_mid_def mid_compute_def split: option.splits if_splits)
qed

section \<open>Bounds\<close>

lemma fold_max_le: "(\<And>x. x \<in> set xs \<Longrightarrow> x < b) \<Longrightarrow> a < b \<Longrightarrow> fold max xs a < (b :: u32)"
  by (induction xs arbitrary: a) auto

text \<open>
  A record from the network cannot size a loop without bound: of a record that passes the checks the largest
  segment index is below 65536, the segment count computed from it does not wrap around, and it names at least every
  segment a location of it belongs to.
\<close>

theorem segment_count_bounded:
  assumes "max_segment (Inr (Some r)) = Inr max_seg"
  shows "unat (max_seg + 1) = unat max_seg + 1 \<and> unat (max_seg + 1) \<le> 65536 \<and>
    (\<forall>loc\<in>set (locations r). loc_segment loc < max_seg + 1) \<and> length (locations r) \<le> 2 ^ 20 \<and>
    0 < rec_data_shards r \<and> rec_data_shards r \<le> rec_total_shards r"
proof -
  have ok: "validate r = Inr ()" and m: "max_seg = fold max (map loc_segment (locations r)) 0"
    using assms by (auto simp: max_segment_def split: sum.splits)
  have "max_seg < MAX_SEGMENTS"
    unfolding m using ok
    by (intro fold_max_le) (auto simp: validate_def location_ok_def list_all_iff Let_def MAX_SEGMENTS_def split: if_splits)
  then have lt: "unat max_seg < 65536" by (simp add: MAX_SEGMENTS_def word_less_nat_alt)
  then have s: "unat (max_seg + 1) = unat max_seg + 1" by (simp add: unat_word_ariths)
  have "loc_segment loc \<le> max_seg" if "loc \<in> set (locations r)" for loc
    using that unfolding m by (metis Max_ge finite_set image_eqI list.set_map Max.set_eq_fold insert_iff list.simps(15) List.finite_set)
  then have "\<forall>loc\<in>set (locations r). loc_segment loc < max_seg + 1"
    using s by (auto simp: word_less_nat_alt word_le_nat_alt less_Suc_eq_le)
  moreover have "length (locations r) \<le> 2 ^ 20" "0 < rec_data_shards r" "rec_data_shards r \<le> rec_total_shards r"
    using ok by (auto simp: validate_def Let_def MAX_RECORD_LOCATIONS_def word_less_nat_alt word_le_nat_alt
        unat_gt_0 split: if_splits)
  ultimately show ?thesis using s lt by simp
qed

definition insufficient :: "bytes awaited \<Rightarrow> bool" where
  "insufficient r = (case r of Some (Inl (InsufficientShares _ _)) \<Rightarrow> True | _ \<Rightarrow> False)"

lemma retry_step:
  "retry_insufficient once n =
     (if insufficient (once n) \<and> n < max_attempts then retry_insufficient once (Suc n) else once n)"
  by (subst retry_insufficient.simps)
    (auto simp: insufficient_def split: option.splits sum.splits miasma_error.splits)

text \<open>
  The retry loop ends. It makes at most seven passes, repeats a pass only after a lack of shares, and returns the
  first outcome of another kind, or the seventh.
\<close>

theorem retry_bounded:
  "\<exists>j\<le>max_attempts. retry_insufficient once 0 = once j \<and> (\<forall>i<j. insufficient (once i)) \<and>
     (insufficient (once j) \<longrightarrow> j = max_attempts)"
proof -
  have "\<exists>j. n \<le> j \<and> j \<le> max_attempts \<and> retry_insufficient once n = once j \<and> (\<forall>i. n \<le> i \<longrightarrow> i < j \<longrightarrow> insufficient (once i)) \<and>
      (insufficient (once j) \<longrightarrow> j = max_attempts)" if "n \<le> max_attempts" for n
    using that
  proof (induction rule: inc_induct)
    case base
    then show ?case using retry_step [of once max_attempts] by auto
  next
    case (step n)
    then obtain j where j: "Suc n \<le> j" "j \<le> max_attempts" "retry_insufficient once (Suc n) = once j"
      "\<forall>i. Suc n \<le> i \<longrightarrow> i < j \<longrightarrow> insufficient (once i)" "insufficient (once j) \<longrightarrow> j = max_attempts"
      by blast
    show ?case
    proof (cases "insufficient (once n)")
      case True
      then have "insufficient (once i)" if "n \<le> i" "i < j" for i using j(4) that by (cases "i = n") auto
      then show ?thesis using True j step(2) retry_step [of once n] by (intro exI [of _ j]) auto
    next
      case False
      then show ?thesis using retry_step [of once n] step(2) by (intro exI [of _ n]) auto
    qed
  qed
  from this [of 0] show ?thesis by auto
qed

section \<open>Examples\<close>

text \<open>Three holders, of which the middle one has nothing; the first request is slow and the second overtakes it.\<close>

definition demo_ans :: "miasma_share list \<Rightarrow> addr \<Rightarrow> miasma_share option" where
  "demo_ans shares a = (if a = [0] then Some (shares ! 0) else if a = [2] then Some (shares ! 2) else None)"

definition demo_addrs :: "addr list" where
  "demo_addrs = [[0], [1], [2]]"

definition demo_turn :: "miasma_share list \<Rightarrow> turn" where
  "demo_turn shares =
     \<lparr>turn_source = \<lparr>list_candidates = \<lambda>_. demo_addrs, list_candidates_for_segment = \<lambda>_ _. demo_addrs,
                      source_fetch = \<lambda>_ a. Inr (demo_ans shares a)\<rparr>,
      turn_shuffle = rev, turn_events = [Elapsed, Done 1, Done 0, Done 0, Done 0]\<rparr>"

lemma demo_turn_simps [simp]:
  "list_candidates_for_segment (turn_source (demo_turn shares)) mid seg = demo_addrs"
  "turn_shuffle (demo_turn shares) = rev"
  by (simp_all add: demo_turn_def)

lemma demo_holders:
  assumes "map slot_index shares = [0, 1, 2]" and "list_all (good_share demo_cext mid seg) shares"
  shows "holders_ok demo_cext (demo_turn shares) (demo_ans shares) demo_addrs mid seg 2 shares direct_network"
proof -
  obtain a b c where s: "shares = [a, b, c]" "slot_index a = 0" "slot_index c = 2"
    using assms(1) by (auto simp: map_eq_Cons_conv)
  have "{s. good_share demo_cext mid seg s \<and> (\<exists>x\<in>set demo_addrs. demo_ans shares x = Some s)} = {a, c}"
    using assms(2) by (auto simp: s demo_ans_def demo_addrs_def)
  then have "slot_index ` {s. good_share demo_cext mid seg s \<and> (\<exists>x\<in>set demo_addrs. demo_ans shares x = Some s)} = {0, 2}"
    by (simp add: s)
  then show ?thesis
    unfolding holders_ok_def
    by (auto simp: demo_turn_def demo_addrs_def demo_ans_def direct_network_def s split: if_splits)
qed

abbreviation demo_mid :: content_id where
  "demo_mid \<equiv> mid_compute demo_cext [1, 2, 3] (to_param_bytes demo_params)"

lemma demo_dissolved:
  obtains shares where "dissolve_at demo_cext demo_draws [1, 2, 3] demo_params 0 = Inr (demo_mid, shares)"
    and "map slot_index shares = [0, 1, 2]" and "list_all (good_share demo_cext demo_mid 0) shares"
proof -
  obtain shares where sh: "dissolve_at demo_cext demo_draws [1, 2, 3] demo_params 0 = Inr (demo_mid, shares)"
    "map slot_index shares = map word_of_nat [0..<3]" "list_all (\<lambda>s. segment_index s = 0) shares"
    "list_all (\<lambda>s. coarse_verify demo_cext s demo_mid) shares"
    using dissolved_content [OF demo_ok(1) demo_laws demo_ok(2), of "[1, 2, 3]" 0] by (auto simp: demo_params_def)
  moreover have "map word_of_nat [0..<3] = [0, 1, 2 :: u16]" by (simp add: upt_rec)
  ultimately show ?thesis using that [of shares] by (simp add: good_share_def list_all_iff)
qed

theorem network_retrieve_witness:
  "case dissolve_at demo_cext demo_draws [1, 2, 3] demo_params 0 of
     Inl _ \<Rightarrow> False
   | Inr (mid, shares) \<Rightarrow> coord_retrieve demo_cext (demo_turn shares) direct_network mid demo_params = Some (Inr [1, 2, 3])"
proof -
  obtain shares where sh: "dissolve_at demo_cext demo_draws [1, 2, 3] demo_params 0 = Inr (demo_mid, shares)"
    "map slot_index shares = [0, 1, 2]" "list_all (good_share demo_cext demo_mid 0) shares"
    by (rule demo_dissolved)
  have "holders_ok demo_cext (demo_turn shares) (demo_ans shares)
      (list_candidates_for_segment (turn_source (demo_turn shares)) demo_mid 0) demo_mid 0 (data_shards demo_params) shares
      direct_network"
    using demo_holders [OF sh(2,3)] by (simp add: demo_params_def)
  then show ?thesis
    using network_retrieve [OF demo_ok(1) demo_laws demo_ok(2) _ sh(1)] sh(1) by simp
qed

theorem segments_retrieved_witness:
  "case dissolve_chunks demo_cext (\<lambda>_. demo_draws) (\<lambda>_. 0) [] demo_params 2 0 [[1, 2], [3]] of
     Inl _ \<Rightarrow> False
   | Inr (metas, all) \<Rightarrow>
       retrieve_segments demo_cext (\<lambda>i. demo_turn (all ! unat i)) direct_network [] 2 demo_params = Some (Inr [1, 2, 3])"
proof -
  obtain metas all where made: "dissolve_chunks demo_cext (\<lambda>_. demo_draws) (\<lambda>_. 0) [] demo_params 2 0 [[1, 2], [3]] = Inr (metas, all)"
    and gen: "list_all2 (genuine demo_cext [] demo_params) metas all"
    and ix: "map sm_index metas = map word_of_nat [0..<0 + length [[1, 2], [3 :: u8]]]"
    using dissolve_chunks_roundtrip [OF demo_ok(1) demo_laws, of "\<lambda>_. demo_draws" "[[1, 2], [3]]" "\<lambda>_. 0" "[]" 2 0]
    by (auto simp: demo_ok(2))
  have "holders_ok demo_cext (demo_turn (all ! unat (word_of_nat j :: u32))) (demo_ans (all ! j)) demo_addrs [] (word_of_nat j)
      (data_shards demo_params) (all ! j) direct_network" if "j < length [[1, 2], [3 :: u8]]" for j
  proof -
    have "j < length metas" using that arg_cong [OF ix, of length] by simp
    moreover from this have "sm_index (metas ! j) = word_of_nat j" using arg_cong [OF ix, of "\<lambda>l. l ! j"] that by (auto simp: less_Suc_eq)
    ultimately have "map slot_index (all ! j) = map word_of_nat [0..<3]"
      and "list_all (good_share demo_cext [] (word_of_nat j)) (all ! j)"
      using list_all2_nthD [OF gen] by (auto simp: genuine_def good_share_def list_all_iff demo_params_def)
    moreover have "map word_of_nat [0..<3] = [0, 1, 2 :: u16]" by (simp add: upt_rec)
    moreover have "unat (word_of_nat j :: u32) = j" using that by (simp add: unat_of_nat)
    ultimately show ?thesis using demo_holders by (simp add: demo_params_def)
  qed
  then have "retrieve_segments demo_cext (\<lambda>i. demo_turn (all ! unat i)) direct_network [] (word_of_nat (length [[1, 2], [3 :: u8]]))
      demo_params = Some (Inr (concat [[1, 2], [3]]))"
    by (intro segments_retrieved [OF demo_ok(1) demo_laws demo_ok(2) _ _ made, where ans = "\<lambda>j. demo_ans (all ! j)"]) simp_all
  then show ?thesis using made by simp
qed

definition demo_slot :: "u16 \<Rightarrow> miasma_share" where
  "demo_slot i = share_new demo_cext [] 0 i [7] [] [] 0 0"

definition demo_fetch :: "nat \<Rightarrow> addr \<Rightarrow> fetched" where
  "demo_fetch _ a = Inr (if a = [1] then None else Some (demo_slot (word_of_nat (unat (hd a)))))"

theorem collection_complete_witness:
  "case collect_verified_shares demo_cext demo_fetch [Elapsed, Done 1, Done 0, Done 0, Done 0] demo_addrs [] 0 2 direct_network of
     Some (Inr valid) \<Rightarrow> length valid = 2
   | _ \<Rightarrow> False"
proof -
  have good: "good_share demo_cext [] 0 (demo_slot i)" and slot: "slot_index (demo_slot i) = i" for i
    by (simp_all add: good_share_def coarse_verify_def demo_slot_def share_new_def)
  have "{0, 2} \<subseteq> offered demo_cext demo_fetch demo_addrs [] 0"
    unfolding offered_def using good slot
    by (force simp: demo_fetch_def demo_addrs_def image_iff numeral_3_eq_3 less_Suc_eq)
  moreover have "finite (offered demo_cext demo_fetch demo_addrs [] 0)" by simp
  ultimately have "card {0 :: u16, 2} \<le> card (offered demo_cext demo_fetch demo_addrs [] 0)" by (rule card_mono [rotated])
  then have "2 \<le> card (offered demo_cext demo_fetch demo_addrs [] 0)" by simp
  then show ?thesis
    using collection_complete [of demo_addrs demo_fetch 2 demo_cext "[]" 0 direct_network
        "[Elapsed, Done 1, Done 0, Done 0, Done 0]"]
    by (auto simp: demo_fetch_def demo_addrs_def)
qed

theorem hedge_bounded_witness:
  "hedge_stopped 1 (hedge_run demo_cext demo_fetch [] 0 1 demo_addrs [Elapsed, Done 1, Done 0, Done 0, Done 0]) \<and>
   hedge_run demo_cext demo_fetch [] 0 1 demo_addrs ([Elapsed, Done 1, Done 0, Done 0, Done 0] @ [Elapsed]) =
     hedge_run demo_cext demo_fetch [] 0 1 demo_addrs [Elapsed, Done 1, Done 0, Done 0, Done 0]"
proof -
  have "hedge_stopped 1 (hedge_run demo_cext demo_fetch [] 0 1 demo_addrs [Elapsed, Done 1, Done 0, Done 0, Done 0])"
    unfolding hedge_run_def
    by (rule hedge_run_stops) (simp add: hedge_start_def launch_left, simp add: hedge_left_def demo_addrs_def)
  then show ?thesis
    using hedge_bounded [where C = demo_cext and fetch = demo_fetch and mid = "[]" and seg = 0 and need = 1
        and cands = demo_addrs and events = "[Elapsed, Done 1, Done 0, Done 0, Done 0]" and later = "[Elapsed]"] by blast
qed

theorem stream_matches_segments_witness:
  "drain (retrieve_streaming_by_mid demo_cext (\<lambda>_. demo_turn []) direct_network [] 2 demo_params) =
     retrieve_segments demo_cext (\<lambda>_. demo_turn []) direct_network [] 2 demo_params"
  using stream_matches_segments [of demo_params "\<lambda>_. demo_turn []" demo_cext direct_network "[]" 2]
  by (simp add: demo_params_def)

definition demo_record :: dht_record where
  "demo_record =
     \<lparr>mid_digest = replicate 32 0, rec_data_shards = 2, rec_total_shards = 3, rec_version = 1,
      locations = [\<lparr>peer_id_bytes = [1], shard_index = 0, loc_segment = 0, loc_addrs = []\<rparr>,
                   \<lparr>peer_id_bytes = [2], shard_index = 2, loc_segment = 4, loc_addrs = []\<rparr>],
      published_at = 0\<rparr>"

theorem segment_count_bounded_witness:
  "max_segment (Inr (Some demo_record)) = Inr 4 \<and> unat ((4 :: u32) + 1) \<le> 65536"
proof -
  have "max_segment (Inr (Some demo_record)) = Inr 4"
    by (simp add: max_segment_def validate_def location_ok_def demo_record_def MAX_SEGMENTS_def MAX_RECORD_LOCATIONS_def
        MAX_PEER_ID_BYTES_def MAX_LOCATION_ADDRS_def MAX_LOCATION_ADDR_LEN_def Let_def)
  then show ?thesis using segment_count_bounded by blast
qed

theorem retry_bounded_witness:
  "retry_insufficient (\<lambda>n. if n < 2 then Some (Inl (InsufficientShares 2 n)) else Some (Inr [])) 0 = Some (Inr [])"
proof -
  let ?once = "\<lambda>n. if n < 2 then Some (Inl (InsufficientShares 2 n)) else Some (Inr [])"
  obtain j where j: "retry_insufficient ?once 0 = ?once j" "insufficient (?once j) \<longrightarrow> j = max_attempts"
    using retry_bounded [of ?once] by blast
  then have "\<not> j < 2" by (auto simp: insufficient_def max_attempts_def split: if_splits)
  then show ?thesis using j(1) by simp
qed

end
