(* ===== verification/Transport.thy ===== *)
theory Transport
  imports Retrieval "HOL-Library.Product_Lexorder"
begin

text \<open>
  Fetching one share over the payload transports: \<^verbatim>\<open>transport/payload.rs\<close> (transport kinds, the health-aware
  selector, its counters, the libp2p transport), \<^verbatim>\<open>retrieval/transport_source.rs\<close> (locators and the fallback source)
  and the relay rewriting of \<^verbatim>\<open>network/coordinator.rs\<close>, under \<^verbatim>\<open>crates/miasma-core/src\<close>.

  A transport acts on a world \<open>'w\<close> of its own. The duration of an attempt is a clock reading and left out. The hex
  codec is that of the \<^verbatim>\<open>hex\<close> crate, an argument with the law \<open>hex_ok\<close>.
\<close>

section \<open>Transport kinds and policies\<close>

datatype payload_transport_kind = DirectLibp2p | TcpDirect | WssTunnel | RelayHop | ObfuscatedQuic

datatype transport_privacy_class = ClassDirect | ClassRelayed

fun privacy_class :: "payload_transport_kind \<Rightarrow> transport_privacy_class" where
  "privacy_class RelayHop = ClassRelayed"
| "privacy_class DirectLibp2p = ClassDirect"
| "privacy_class TcpDirect = ClassDirect"
| "privacy_class WssTunnel = ClassDirect"
| "privacy_class ObfuscatedQuic = ClassDirect"

fun permitted_under :: "payload_transport_kind \<Rightarrow> anonymity_policy \<Rightarrow> bool" where
  "permitted_under kind Direct = True"
| "permitted_under kind Opportunistic = True"
| "permitted_under kind (Required _) = (privacy_class kind = ClassRelayed)"

fun contains :: "bytes \<Rightarrow> bytes \<Rightarrow> bool" where
  "contains [] needle = (needle = [])"
| "contains (b # bs) needle = (take (length needle) (b # bs) = needle \<or> contains bs needle)"

definition is_required :: "anonymity_policy \<Rightarrow> bool" where
  "is_required policy = (case policy of Required _ \<Rightarrow> True | _ \<Rightarrow> False)"

definition CIRCUIT :: bytes where "CIRCUIT = str_bytes ''/p2p-circuit''"

definition permitted_for :: "payload_transport_kind \<Rightarrow> anonymity_policy \<Rightarrow> bytes \<Rightarrow> bool" where
  "permitted_for kind policy peer_addr \<longleftrightarrow>
     permitted_under kind policy \<or> (is_required policy \<and> kind = DirectLibp2p \<and> contains peer_addr CIRCUIT)"

section \<open>Counters\<close>

datatype transport_phase = Session | Data

record transport_attempt =
  att_transport :: payload_transport_kind
  att_succeeded :: bool
  att_phase :: transport_phase
  att_error :: "bytes option"

record kind_counters =
  kc_success :: u64
  kc_failure :: u64
  kc_session_failures :: u64
  kc_data_failures :: u64
  kc_consecutive :: u64

record transport_stats =
  counters :: "payload_transport_kind \<Rightarrow> kind_counters"
  last_errors :: "payload_transport_kind \<rightharpoonup> bytes"
  last_selected :: "payload_transport_kind option"
  selection_round :: u64
  adaptive_reorders :: u64
  adaptive_probes :: u64

definition zero_counters :: kind_counters where
  "zero_counters = \<lparr>kc_success = 0, kc_failure = 0, kc_session_failures = 0, kc_data_failures = 0, kc_consecutive = 0\<rparr>"

definition stats_default :: transport_stats where
  "stats_default = \<lparr>counters = \<lambda>_. zero_counters, last_errors = Map.empty, last_selected = None,
     selection_round = 0, adaptive_reorders = 0, adaptive_probes = 0\<rparr>"

definition record_success :: "payload_transport_kind \<Rightarrow> transport_stats \<Rightarrow> transport_stats" where
  "record_success kind st =
     st\<lparr>counters := (counters st)(kind := (counters st kind)\<lparr>kc_success := kc_success (counters st kind) + 1, kc_consecutive := 0\<rparr>),
        last_selected := Some kind\<rparr>"

definition record_failure ::
  "payload_transport_kind \<Rightarrow> transport_phase \<Rightarrow> bytes \<Rightarrow> transport_stats \<Rightarrow> transport_stats" where
  "record_failure kind phase message st =
     (let c = counters st kind;
          c' = c\<lparr>kc_failure := kc_failure c + 1, kc_consecutive := kc_consecutive c + 1\<rparr>;
          c'' = (case phase of
                   Session \<Rightarrow> c'\<lparr>kc_session_failures := kc_session_failures c + 1\<rparr>
                 | Data \<Rightarrow> c'\<lparr>kc_data_failures := kc_data_failures c + 1\<rparr>)
      in st\<lparr>counters := (counters st)(kind := c''), last_errors := (last_errors st)(kind \<mapsto> message)\<rparr>)"

definition kind_stats :: "transport_stats \<Rightarrow> payload_transport_kind \<Rightarrow> u64 \<times> u64" where
  "kind_stats st kind = (kc_success (counters st kind), kc_failure (counters st kind))"

definition consecutive_failures :: "transport_stats \<Rightarrow> payload_transport_kind \<Rightarrow> u64" where
  "consecutive_failures st kind = kc_consecutive (counters st kind)"

definition is_fallback_active :: "transport_stats \<Rightarrow> bool" where
  "is_fallback_active st =
     (case last_selected st of None \<Rightarrow> False | Some DirectLibp2p \<Rightarrow> False | Some _ \<Rightarrow> True)"

section \<open>The selector\<close>

record transport_error =
  te_phase :: transport_phase
  te_message :: bytes

type_synonym share_result = "transport_error + miasma_share option"

record 'w payload_transport =
  pt_kind :: payload_transport_kind
  pt_fetch :: "'w \<Rightarrow> bytes \<Rightarrow> bytes \<Rightarrow> u16 \<Rightarrow> u32 \<Rightarrow> 'w \<times> share_result"

definition ADAPTIVE_DEMOTE_AFTER_FAILURES :: u64 where "ADAPTIVE_DEMOTE_AFTER_FAILURES = 2"
definition ADAPTIVE_PROBE_INTERVAL :: u64 where "ADAPTIVE_PROBE_INTERVAL = 8"

definition demoted :: "transport_stats \<Rightarrow> payload_transport_kind \<Rightarrow> bool" where
  "demoted st kind \<longleftrightarrow> ADAPTIVE_DEMOTE_AFTER_FAILURES \<le> consecutive_failures st kind"

definition order_key :: "'w payload_transport list \<Rightarrow> transport_stats \<Rightarrow> nat \<Rightarrow> bool \<times> u64 \<times> nat" where
  "order_key transports st idx =
     (let kind = pt_kind (transports ! idx) in
      (demoted st kind, if demoted st kind then consecutive_failures st kind else 0, idx))"

definition adaptive_order :: "'w payload_transport list \<Rightarrow> transport_stats \<Rightarrow> nat list \<times> transport_stats" where
  "adaptive_order transports st =
     (let order = [0..<length transports];
          round = selection_round st + 1;
          st1 = st\<lparr>selection_round := round\<rparr>
      in if round mod ADAPTIVE_PROBE_INTERVAL = 0 then (order, st1\<lparr>adaptive_probes := adaptive_probes st1 + 1\<rparr>)
         else
           let sorted = sort_key (order_key transports st1) order in
           (sorted,
            if sorted \<noteq> order then st1\<lparr>adaptive_reorders := adaptive_reorders st1 + 1\<rparr> else st1))"

record transported_share =
  ts_share :: miasma_share
  transport_used :: payload_transport_kind
  ts_attempts :: "transport_attempt list"

definition NOT_FOUND :: bytes where "NOT_FOUND = str_bytes ''share not found on peer''"

fun fetch_in_order ::
  "'w payload_transport list \<Rightarrow> bytes \<Rightarrow> bytes \<Rightarrow> u16 \<Rightarrow> u32 \<Rightarrow> nat list \<Rightarrow> transport_attempt list \<Rightarrow>
     'w \<times> transport_stats \<Rightarrow> ('w \<times> transport_stats) \<times> (transport_attempt list + transported_share)" where
  "fetch_in_order transports addr mid slot seg [] attempts ws = (ws, Inl attempts)"
| "fetch_in_order transports addr mid slot seg (idx # order) attempts (w, st) =
     (let t = transports ! idx; kind = pt_kind t; (w', r) = pt_fetch t w addr mid slot seg in
      case r of
        Inr (Some share) \<Rightarrow>
          let attempts' = attempts @ [\<lparr>att_transport = kind, att_succeeded = True, att_phase = Data, att_error = None\<rparr>] in
          ((w', record_success kind st), Inr \<lparr>ts_share = share, transport_used = kind, ts_attempts = attempts'\<rparr>)
      | Inr None \<Rightarrow>
          ((w', st), Inl (attempts @ [\<lparr>att_transport = kind, att_succeeded = True, att_phase = Data, att_error = Some NOT_FOUND\<rparr>]))
      | Inl err \<Rightarrow>
          fetch_in_order transports addr mid slot seg order
            (attempts @ [\<lparr>att_transport = kind, att_succeeded = False, att_phase = te_phase err, att_error = Some (te_message err)\<rparr>])
            (w', record_failure kind (te_phase err) (te_message err) st))"

definition fetch_share ::
  "'w payload_transport list \<Rightarrow> bytes \<Rightarrow> bytes \<Rightarrow> u16 \<Rightarrow> u32 \<Rightarrow> 'w \<times> transport_stats \<Rightarrow>
     ('w \<times> transport_stats) \<times> (transport_attempt list + transported_share)" where
  "fetch_share transports addr mid slot seg ws =
     (let (order, st) = adaptive_order transports (snd ws) in
      fetch_in_order transports addr mid slot seg order [] (fst ws, st))"

datatype policy_fetch_error =
    NoPermittedTransport anonymity_policy "payload_transport_kind list"
  | Exhausted "transport_attempt list"

definition fetch_share_with_policy ::
  "'w payload_transport list \<Rightarrow> anonymity_policy \<Rightarrow> bytes \<Rightarrow> bytes \<Rightarrow> u16 \<Rightarrow> u32 \<Rightarrow> 'w \<times> transport_stats \<Rightarrow>
     ('w \<times> transport_stats) \<times> (policy_fetch_error + transported_share)" where
  "fetch_share_with_policy transports policy addr mid slot seg ws =
     (let (order0, st) = adaptive_order transports (snd ws);
          order = filter (\<lambda>idx. permitted_for (pt_kind (transports ! idx)) policy addr) order0
      in if order = [] then ((fst ws, st), Inl (NoPermittedTransport policy (map pt_kind transports)))
         else
           (case fetch_in_order transports addr mid slot seg order [] (fst ws, st) of
              (ws', Inl attempts) \<Rightarrow> (ws', Inl (Exhausted attempts))
            | (ws', Inr t) \<Rightarrow> (ws', Inr t)))"

section \<open>Locators and the fallback source\<close>

record hext =
  hex_encode :: "bytes \<Rightarrow> bytes"
  hex_decode :: "bytes \<Rightarrow> bytes option"

text \<open>\<^verbatim>\<open>hex\<close>: decoding inverts encoding, and an encoding has only the characters \<open>0\<close> to \<open>9\<close> and \<open>a\<close> to \<open>f\<close>.\<close>

definition hex_ok :: "hext \<Rightarrow> bool" where
  "hex_ok H \<longleftrightarrow> (\<forall>b. hex_decode H (hex_encode H b) = Some b \<and>
     list_all (\<lambda>c. (48 \<le> c \<and> c \<le> 57) \<or> (97 \<le> c \<and> c \<le> 102)) (hex_encode H b))"

fun join :: "bytes \<Rightarrow> bytes list \<Rightarrow> bytes" where
  "join sep [] = []"
| "join sep [s] = s"
| "join sep (s # t # ss) = s @ sep @ join sep (t # ss)"

fun splitn :: "nat \<Rightarrow> u8 \<Rightarrow> bytes \<Rightarrow> bytes list" where
  "splitn 0 c s = []"
| "splitn (Suc 0) c s = [s]"
| "splitn (Suc (Suc n)) c s =
     (if c \<in> set s then takeWhile (\<lambda>b. b \<noteq> c) s # splitn (Suc n) c (tl (dropWhile (\<lambda>b. b \<noteq> c) s)) else [s])"

definition is_digit :: "u8 \<Rightarrow> bool" where
  "is_digit b \<longleftrightarrow> 48 \<le> b \<and> b \<le> 57"

text \<open>\<^verbatim>\<open>str::parse\<close> at an unsigned type with \<open>bound\<close> values: one leading plus sign is allowed.\<close>

definition parse_uint :: "nat \<Rightarrow> bytes \<Rightarrow> nat option" where
  "parse_uint bound s =
     (let ds = (case s of [] \<Rightarrow> [] | b # bs \<Rightarrow> if b = 43 then bs else s) in
      if ds = [] \<or> \<not> list_all is_digit ds then None
      else if bound \<le> digits_val ds then None
      else Some (digits_val ds))"

definition locator :: "hext \<Rightarrow> bytes \<Rightarrow> shard_location \<Rightarrow> bytes" where
  "locator H mid_hex loc =
     mid_hex @ [124] @ decimal (unat (shard_index loc)) @ [124] @ decimal (unat (loc_segment loc)) @ [124] @
     hex_encode H (peer_id_bytes loc) @ [124] @ join [44] (loc_addrs loc)"

definition locators_from :: "hext \<Rightarrow> bytes \<Rightarrow> shard_location list \<Rightarrow> bytes list" where
  "locators_from H mid_hex locs = map (locator H mid_hex) locs"

text \<open>\<open>dht mid\<close> is what the DHT executor answers.\<close>

definition fallback_candidates ::
  "hext \<Rightarrow> (content_id \<Rightarrow> miasma_error + dht_record option) \<Rightarrow> content_id \<Rightarrow> bytes list" where
  "fallback_candidates H dht mid =
     (case dht mid of
        Inr (Some r) \<Rightarrow> locators_from H (hex_encode H (mid_digest r)) (locations r)
      | _ \<Rightarrow> [])"

definition fallback_candidates_for_segment ::
  "hext \<Rightarrow> (content_id \<Rightarrow> miasma_error + dht_record option) \<Rightarrow> content_id \<Rightarrow> u32 \<Rightarrow> bytes list" where
  "fallback_candidates_for_segment H dht mid seg =
     (case dht mid of
        Inr (Some r) \<Rightarrow>
          locators_from H (hex_encode H (mid_digest r)) (filter (\<lambda>loc. loc_segment loc = seg) (locations r))
      | _ \<Rightarrow> [])"

definition parse_locator :: "hext \<Rightarrow> bytes \<Rightarrow> miasma_error + (bytes \<times> u16 \<times> u32 \<times> bytes)" where
  "parse_locator H l =
     (let parts = splitn 5 124 l in
      if length parts < 3 then Inl InvalidMid
      else
        (case hex_decode H (parts ! 0) of
           None \<Rightarrow> Inl InvalidMid
         | Some mid \<Rightarrow>
             if length mid \<noteq> 32 then Inl InvalidMid
             else
               (case parse_uint (2 ^ 16) (parts ! 1) of
                  None \<Rightarrow> Inl InvalidMid
                | Some slot \<Rightarrow>
                    (case parse_uint (2 ^ 32) (parts ! 2) of
                       None \<Rightarrow> Inl InvalidMid
                     | Some seg \<Rightarrow>
                         Inr (mid, word_of_nat slot, word_of_nat seg,
                              if 5 \<le> length parts then takeWhile (\<lambda>b. b \<noteq> 44) (parts ! 4) else [])))))"

record 'w source_state =
  ss_world :: 'w
  ss_stats :: transport_stats
  ss_attempts :: "transport_attempt list"

definition fallback_fetch ::
  "hext \<Rightarrow> 'w payload_transport list \<Rightarrow> anonymity_policy \<Rightarrow> bytes \<Rightarrow> 'w source_state \<Rightarrow> 'w source_state \<times> fetched" where
  "fallback_fetch H transports policy l s =
     (case parse_locator H l of
        Inl err \<Rightarrow> (s, Inl err)
      | Inr (mid, slot, seg, addr) \<Rightarrow>
          (let (ws, r) =
             (if is_required policy
              then fetch_share_with_policy transports policy addr mid slot seg (ss_world s, ss_stats s)
              else
                (case fetch_share transports addr mid slot seg (ss_world s, ss_stats s) of
                   (ws, Inl attempts) \<Rightarrow> (ws, Inl (Exhausted attempts))
                 | (ws, Inr t) \<Rightarrow> (ws, Inr t)));
               s' = s\<lparr>ss_world := fst ws, ss_stats := snd ws\<rparr>
           in case r of
                Inl (NoPermittedTransport _ _) \<Rightarrow> (s', Inl Network)
              | Inl (Exhausted attempts) \<Rightarrow> (s'\<lparr>ss_attempts := ss_attempts s' @ attempts\<rparr>, Inr None)
              | Inr t \<Rightarrow> (s'\<lparr>ss_attempts := ss_attempts s' @ ts_attempts t\<rparr>, Inr (Some (ts_share t)))))"

definition drain_attempts :: "'w source_state \<Rightarrow> 'w source_state \<times> transport_attempt list" where
  "drain_attempts s = (s\<lparr>ss_attempts := []\<rparr>, ss_attempts s)"

section \<open>The libp2p transport and the relay executor\<close>

text \<open>
  What the node does for the libp2p transport: the DHT lookup, the parsing of a peer id, and the share exchange with a
  peer at given addresses. The state is the record cache and the peers and addresses dialled so far.
\<close>

record node_ext =
  nx_get_record :: "bytes \<Rightarrow> miasma_error + dht_record option"
  nx_peer_id_ok :: "bytes \<Rightarrow> bool"
  nx_exchange :: "bytes \<Rightarrow> bytes list \<Rightarrow> bytes \<Rightarrow> u16 \<Rightarrow> u32 \<Rightarrow> miasma_error + miasma_share option"

record libp2p_state =
  record_cache :: "bytes \<rightharpoonup> dht_record"
  dialled :: "(bytes \<times> bytes list) list"

text \<open>The messages of the errors are left out.\<close>

definition libp2p_fetch ::
  "node_ext \<Rightarrow> libp2p_state \<Rightarrow> bytes \<Rightarrow> bytes \<Rightarrow> u16 \<Rightarrow> u32 \<Rightarrow> libp2p_state \<times> share_result" where
  "libp2p_fetch N w addr mid slot seg =
     (let session = Inl \<lparr>te_phase = Session, te_message = []\<rparr>;
          (w', record) =
            (case record_cache w mid of
               Some r \<Rightarrow> (w, Some r)
             | None \<Rightarrow>
                 (case nx_get_record N mid of
                    Inr (Some r) \<Rightarrow> (w\<lparr>record_cache := (record_cache w)(mid \<mapsto> r)\<rparr>, Some r)
                  | _ \<Rightarrow> (w, None)))
      in case record of
           None \<Rightarrow> (w', session)
         | Some r \<Rightarrow>
             (case find (\<lambda>l. shard_index l = slot \<and> loc_segment l = seg) (locations r) of
                None \<Rightarrow> (w', Inr None)
              | Some loc \<Rightarrow>
                  if \<not> nx_peer_id_ok N (peer_id_bytes loc) then (w', session)
                  else
                    (w'\<lparr>dialled := dialled w' @ [(peer_id_bytes loc, loc_addrs loc)]\<rparr>,
                     case nx_exchange N (peer_id_bytes loc) (loc_addrs loc) mid slot seg of
                       Inl _ \<Rightarrow> Inl \<lparr>te_phase = Data, te_message = []\<rparr>
                     | Inr share \<Rightarrow> Inr share)))"

definition libp2p_transport :: "node_ext \<Rightarrow> libp2p_state payload_transport" where
  "libp2p_transport N = \<lparr>pt_kind = DirectLibp2p, pt_fetch = libp2p_fetch N\<rparr>"

definition circuit_base :: "bytes \<Rightarrow> bytes \<Rightarrow> bytes" where
  "circuit_base relay_addr relay_peer_id =
     (if contains relay_addr (str_bytes ''/p2p/'') then relay_addr @ str_bytes ''/p2p-circuit''
      else relay_addr @ str_bytes ''/p2p/'' @ relay_peer_id @ str_bytes ''/p2p-circuit'')"

definition rewrite_record :: "bytes \<Rightarrow> bytes \<Rightarrow> dht_record \<Rightarrow> dht_record" where
  "rewrite_record relay_addr relay_peer_id r =
     r\<lparr>locations := map (\<lambda>loc. loc\<lparr>loc_addrs := [circuit_base relay_addr relay_peer_id]\<rparr>) (locations r)\<rparr>"

definition relay_get ::
  "bytes \<Rightarrow> bytes \<Rightarrow> (content_id \<Rightarrow> miasma_error + dht_record option) \<Rightarrow> content_id \<Rightarrow> miasma_error + dht_record option" where
  "relay_get relay_addr relay_peer_id dht mid =
     (case dht mid of
        Inl err \<Rightarrow> Inl err
      | Inr None \<Rightarrow> Inr None
      | Inr (Some r) \<Rightarrow> Inr (Some (rewrite_record relay_addr relay_peer_id r)))"

section \<open>Choosing a path for an anonymity policy\<close>

text \<open>
  The counters of \<^verbatim>\<open>RetrievalStats\<close> that the choice of a path changes. \<open>path_env\<close> is what the node and the network
  answer: the number of onion relays, whether a holder is reached by rendezvous, the outcome of each path, the
  rendezvous one only if a record location has a rendezvous descriptor, and the relay peers with their addresses.
  \<open>hops\<close> is the number of relays between requester and holder on a path.
\<close>

record retrieval_stats =
  direct_attempts :: u64
  direct_successes :: u64
  opportunistic_attempts :: u64
  opportunistic_relay_successes :: u64
  opportunistic_direct_fallbacks :: u64
  opportunistic_onion_successes :: u64
  opportunistic_onion_rendezvous_successes :: u64
  opportunistic_rendezvous_successes :: u64
  required_attempts :: u64
  required_onion_successes :: u64
  required_relay_successes :: u64
  required_failures :: u64

text \<open>
  The steps of the path hierarchy, named after the routine each of them runs, and the number of relays the code takes
  each to provide, which it compares with the demanded number. What a routine does to the network is not fixed by its name:
  the relay circuit step can dial the holder, as the last section shows.
\<close>

datatype path = PathDirect | PathOnionRendezvous | PathOnion | PathRendezvous | PathRelay

definition ONION_HOPS :: nat where
  "ONION_HOPS = 2"

definition RENDEZVOUS_RELAY_HOPS :: nat where
  "RENDEZVOUS_RELAY_HOPS = 1"

definition RELAY_CIRCUIT_HOPS :: nat where
  "RELAY_CIRCUIT_HOPS = 1"

lemmas path_hops = ONION_HOPS_def RENDEZVOUS_RELAY_HOPS_def RELAY_CIRCUIT_HOPS_def

record path_env =
  onion_relays :: "miasma_error + nat"
  has_rendezvous :: bool
  via_onion_rendezvous :: "miasma_error + bytes"
  via_onion :: "miasma_error + bytes"
  via_rendezvous :: "(miasma_error + bytes) option"
  relay_peers :: "miasma_error + (bytes \<times> bytes list) list"
  via_relay :: "miasma_error + bytes"
  via_network :: "miasma_error + bytes"

text \<open>A retrieval returns content or an error, or it panics: then nothing after the panic runs, no counter included.\<close>

datatype path_result = Returned "miasma_error + bytes" | Panicked

type_synonym path_outcome = "path list \<times> retrieval_stats \<times> path_result"

definition count_success :: "bool \<Rightarrow> path \<Rightarrow> retrieval_stats \<Rightarrow> retrieval_stats" where
  "count_success required p st =
     (if required then
        (case p of
           PathOnionRendezvous \<Rightarrow> st\<lparr>required_onion_successes := required_onion_successes st + 1\<rparr>
         | PathOnion \<Rightarrow> st\<lparr>required_onion_successes := required_onion_successes st + 1\<rparr>
         | _ \<Rightarrow> st\<lparr>required_relay_successes := required_relay_successes st + 1\<rparr>)
      else
        (case p of
           PathOnionRendezvous \<Rightarrow>
             st\<lparr>opportunistic_onion_rendezvous_successes := opportunistic_onion_rendezvous_successes st + 1\<rparr>
         | PathOnion \<Rightarrow> st\<lparr>opportunistic_onion_successes := opportunistic_onion_successes st + 1\<rparr>
         | PathRendezvous \<Rightarrow> st\<lparr>opportunistic_rendezvous_successes := opportunistic_rendezvous_successes st + 1\<rparr>
         | _ \<Rightarrow> st\<lparr>opportunistic_relay_successes := opportunistic_relay_successes st + 1\<rparr>))"

text \<open>One step of the path hierarchy: if it applies, try the path; otherwise, or on failure, go on.\<close>

definition try_path ::
  "bool \<Rightarrow> bool \<Rightarrow> path \<Rightarrow> miasma_error + bytes \<Rightarrow> (retrieval_stats \<Rightarrow> path_outcome) \<Rightarrow> retrieval_stats \<Rightarrow> path_outcome" where
  "try_path required applies p outcome rest st =
     (if applies then
        (case outcome of
           Inr data \<Rightarrow> ([p], count_success required p st, Returned (Inr data))
         | Inl _ \<Rightarrow> (case rest st of (ps, out) \<Rightarrow> (p # ps, out)))
      else rest st)"

definition relay_circuit :: "path_env \<Rightarrow> bool \<Rightarrow> nat \<Rightarrow> retrieval_stats \<Rightarrow> path_outcome" where
  "relay_circuit E required min_hops st =
     (if RELAY_CIRCUIT_HOPS < min_hops then ([], st, Returned (Inl Network))
      else
        (case relay_peers E of
           Inl err \<Rightarrow> ([], st, Returned (Inl err))
         | Inr peers \<Rightarrow>
             if length peers < min_hops then ([], st, Returned (Inl Network))
             else
               (case peers of
                  [] \<Rightarrow> ([], st, Panicked)
                | (_, addrs) # _ \<Rightarrow>
                    if addrs = [] then ([], st, Returned (Inl Network))
                    else
                      (case via_relay E of
                         Inr data \<Rightarrow> ([PathRelay], count_success required PathRelay st, Returned (Inr data))
                       | Inl err \<Rightarrow> ([PathRelay], st, Returned (Inl err))))))"

definition try_relay_paths :: "path_env \<Rightarrow> bool \<Rightarrow> nat \<Rightarrow> retrieval_stats \<Rightarrow> path_outcome" where
  "try_relay_paths E required min_hops st =
     (case onion_relays E of
        Inl err \<Rightarrow> ([], st, Returned (Inl err))
      | Inr n \<Rightarrow>
          try_path required (min_hops \<le> ONION_HOPS \<and> has_rendezvous E \<and> n \<noteq> 0) PathOnionRendezvous
            (via_onion_rendezvous E)
         (try_path required (min_hops \<le> ONION_HOPS \<and> 2 \<le> n) PathOnion (via_onion E)
         (try_path required (min_hops \<le> RENDEZVOUS_RELAY_HOPS \<and> has_rendezvous E \<and> via_rendezvous E \<noteq> None) PathRendezvous
            (case via_rendezvous E of Some r \<Rightarrow> r | None \<Rightarrow> Inl Network)
         (relay_circuit E required min_hops))) st)"

definition retrieve_with_anonymity ::
  "path_env \<Rightarrow> bool \<Rightarrow> anonymity_policy \<Rightarrow> retrieval_stats \<Rightarrow> path_outcome" where
  "retrieve_with_anonymity E relay_routing_enabled policy st =
     (case policy of
        Direct \<Rightarrow>
          let st = st\<lparr>direct_attempts := direct_attempts st + 1\<rparr> in
          ([PathDirect], if isl (via_network E) then st else st\<lparr>direct_successes := direct_successes st + 1\<rparr>,
           Returned (via_network E))
      | Opportunistic \<Rightarrow>
          let st = st\<lparr>opportunistic_attempts := opportunistic_attempts st + 1\<rparr>;
              direct = (\<lambda>ps st. (ps @ [PathDirect],
                if isl (via_network E) then st
                else st\<lparr>opportunistic_direct_fallbacks := opportunistic_direct_fallbacks st + 1\<rparr>, Returned (via_network E)))
          in if relay_routing_enabled then
               (case try_relay_paths E False 1 st of
                  (ps, st, Returned (Inr data)) \<Rightarrow>
                    (ps, st\<lparr>opportunistic_relay_successes := opportunistic_relay_successes st + 1\<rparr>, Returned (Inr data))
                | (ps, st, Returned (Inl _)) \<Rightarrow> direct ps st
                | (ps, st, Panicked) \<Rightarrow> (ps, st, Panicked))
             else direct [] st
      | Required min_hops \<Rightarrow>
          let st = st\<lparr>required_attempts := required_attempts st + 1\<rparr> in
          if \<not> relay_routing_enabled then ([], st\<lparr>required_failures := required_failures st + 1\<rparr>, Returned (Inl Network))
          else
            (case try_relay_paths E True (unat min_hops) st of
               (ps, st, Returned (Inr data)) \<Rightarrow> (ps, st, Returned (Inr data))
             | (ps, st, Returned (Inl err)) \<Rightarrow>
                 (ps, st\<lparr>required_failures := required_failures st + 1\<rparr>, Returned (Inl err))
             | (ps, st, Panicked) \<Rightarrow> (ps, st, Panicked)))"

section \<open>Steps under required anonymity\<close>

definition steps_ok :: "nat \<Rightarrow> path_outcome \<Rightarrow> bool" where
  "steps_ok min_hops out \<longleftrightarrow>
     set (fst out) \<subseteq> {PathOnionRendezvous, PathOnion, PathRendezvous, PathRelay} \<and> distinct (fst out) \<and>
     (ONION_HOPS < min_hops \<longrightarrow> fst out = []) \<and>
     (RELAY_CIRCUIT_HOPS < min_hops \<longrightarrow> set (fst out) \<subseteq> {PathOnionRendezvous, PathOnion})"

text \<open>A required retrieval counts one success exactly when it returns content, and never a failure of its own.\<close>

definition counted :: "retrieval_stats \<Rightarrow> path_outcome \<Rightarrow> bool" where
  "counted st out =
     (case out of (_, st', r) \<Rightarrow>
        required_failures st' = required_failures st \<and> required_attempts st' = required_attempts st \<and>
        required_onion_successes st' + required_relay_successes st' =
          required_onion_successes st + required_relay_successes st +
          (case r of Returned (Inr _) \<Rightarrow> 1 | _ \<Rightarrow> 0))"

definition panic_cause :: "path_env \<Rightarrow> nat \<Rightarrow> path_outcome \<Rightarrow> bool" where
  "panic_cause E min_hops out \<longleftrightarrow> (snd (snd out) = Panicked \<longrightarrow> min_hops = 0 \<and> relay_peers E = Inr [])"

lemma try_path_steps:
  assumes "steps_ok m (rest st)" and "p \<notin> set (fst (rest st))" and "p \<noteq> PathDirect" and "applies \<Longrightarrow> m \<le> ONION_HOPS"
    and "applies \<Longrightarrow> RELAY_CIRCUIT_HOPS < m \<Longrightarrow> p \<in> {PathOnionRendezvous, PathOnion}"
  shows "steps_ok m (try_path required applies p outcome rest st)"
  using assms
  by (cases p) (auto simp: try_path_def steps_ok_def split: sum.splits prod.splits)

lemma try_path_counted:
  assumes "\<And>st. counted st (rest st)"
  shows "counted st (try_path True applies p outcome rest st)"
  using assms [of st]
  by (auto simp: try_path_def counted_def count_success_def split: sum.splits prod.splits path.splits)

lemma try_path_panic: "panic_cause E m (rest st) \<Longrightarrow> panic_cause E m (try_path required applies p outcome rest st)"
  by (auto simp: try_path_def panic_cause_def split: sum.splits prod.splits)

lemma try_path_set: "set (fst (try_path required applies p outcome rest st)) \<subseteq> insert p (set (fst (rest st)))"
  by (auto simp: try_path_def split: sum.splits prod.splits)

lemma relay_circuit_ok:
  "steps_ok m (relay_circuit E required m st)" "set (fst (relay_circuit E required m st)) \<subseteq> {PathRelay}"
  "counted st (relay_circuit E True m st)" "panic_cause E m (relay_circuit E required m st)"
  by (auto simp: relay_circuit_def steps_ok_def counted_def count_success_def panic_cause_def path_hops
      split: sum.splits list.splits)

lemma try_relay_paths_steps: "steps_ok m (try_relay_paths E required m st)"
proof (cases "onion_relays E")
  case (Inr n)
  define ren where "ren = try_path required (m \<le> RENDEZVOUS_RELAY_HOPS \<and> has_rendezvous E \<and> via_rendezvous E \<noteq> None) PathRendezvous
    (case via_rendezvous E of Some r \<Rightarrow> r | None \<Rightarrow> Inl Network) (relay_circuit E required m)"
  define onion where "onion = try_path required (m \<le> ONION_HOPS \<and> 2 \<le> n) PathOnion (via_onion E) ren"
  have rens: "set (fst (ren st)) \<subseteq> {PathRendezvous, PathRelay}"
    unfolding ren_def using try_path_set relay_circuit_ok(2) by blast
  have onions: "set (fst (onion st)) \<subseteq> {PathOnion, PathRendezvous, PathRelay}"
    unfolding onion_def using try_path_set rens by blast
  have "PathRendezvous \<notin> set (fst (relay_circuit E required m st))" using relay_circuit_ok(2) by blast
  then have "steps_ok m (ren st)" unfolding ren_def by (rule try_path_steps [OF relay_circuit_ok(1)]) (auto simp: path_hops)
  then have "steps_ok m (onion st)" unfolding onion_def by (rule try_path_steps) (use rens in auto)
  then show ?thesis
    unfolding try_relay_paths_def Inr sum.case ren_def [symmetric] onion_def [symmetric]
    by (rule try_path_steps) (use onions in auto)
qed (simp add: try_relay_paths_def steps_ok_def)

lemma try_relay_paths_counted: "counted st (try_relay_paths E True m st)"
  by (auto simp: try_relay_paths_def counted_def [of _ "([], _)"] intro!: try_path_counted relay_circuit_ok split: sum.splits)

lemma try_relay_paths_panic: "panic_cause E m (try_relay_paths E required m st)"
  by (auto simp: try_relay_paths_def panic_cause_def [of _ _ "([], _)"] intro!: try_path_panic relay_circuit_ok split: sum.splits)

text \<open>
  Which steps a retrieval under required anonymity takes, and how it is counted. The direct retrieval is never run,
  also when every other step failed; when two relays are demanded only the two onion steps are, when more are demanded
  none is, and no step is run twice. It counts one attempt, and one success or one failure by its result; only when it
  panics, which needs a demand of zero relays and an empty list of relays, it counts neither. What the steps called
  relayed do on the network is a separate matter.
\<close>

theorem required_steps_counted:
  "case retrieve_with_anonymity E enabled (Required min_hops) st of (paths, st', r) \<Rightarrow>
     PathDirect \<notin> set paths \<and> distinct paths \<and>
     (2 < min_hops \<longrightarrow> paths = []) \<and> (2 \<le> min_hops \<longrightarrow> set paths \<subseteq> {PathOnionRendezvous, PathOnion}) \<and>
     required_attempts st' = required_attempts st + 1 \<and>
     (case r of
        Returned x \<Rightarrow>
          required_failures st' = required_failures st + (if isl x then 1 else 0) \<and>
          required_onion_successes st' + required_relay_successes st' =
            required_onion_successes st + required_relay_successes st + (if isl x then 0 else 1)
      | Panicked \<Rightarrow>
          min_hops = 0 \<and> relay_peers E = Inr [] \<and> required_failures st' = required_failures st \<and>
          required_onion_successes st' + required_relay_successes st' =
            required_onion_successes st + required_relay_successes st)"
proof -
  define st1 where "st1 = st\<lparr>required_attempts := required_attempts st + 1\<rparr>"
  obtain ps st2 r where out: "try_relay_paths E True (unat min_hops) st1 = (ps, st2, r)" by (metis prod_cases3)
  have "steps_ok (unat min_hops) (ps, st2, r)" "counted st1 (ps, st2, r)" "panic_cause E (unat min_hops) (ps, st2, r)"
    using try_relay_paths_steps [of "unat min_hops" E True st1] try_relay_paths_counted [of st1 E "unat min_hops"]
      try_relay_paths_panic [of E "unat min_hops" True st1] out by simp_all
  moreover have "2 < unat min_hops \<longleftrightarrow> 2 < min_hops" "1 < unat min_hops \<longleftrightarrow> 2 \<le> min_hops"
    by (auto simp: word_less_nat_alt word_le_nat_alt)
  moreover have "required_attempts st1 = required_attempts st + 1" "required_failures st1 = required_failures st"
    "required_onion_successes st1 = required_onion_successes st" "required_relay_successes st1 = required_relay_successes st"
    by (simp_all add: st1_def)
  moreover have "retrieve_with_anonymity E True (Required min_hops) st =
      (ps, case r of Returned (Inl _) \<Rightarrow> st2\<lparr>required_failures := required_failures st2 + 1\<rparr> | _ \<Rightarrow> st2, r)"
    using out by (simp add: retrieve_with_anonymity_def Let_def st1_def split: path_result.split sum.split)
  moreover have "retrieve_with_anonymity E False (Required min_hops) st =
      ([], st1\<lparr>required_failures := required_failures st1 + 1\<rparr>, Returned (Inl Network))"
    by (simp add: retrieve_with_anonymity_def Let_def st1_def)
  ultimately show ?thesis
    by (cases enabled) (auto simp: counted_def steps_ok_def panic_cause_def path_hops unat_eq_0 split: path_result.split sum.splits)
qed

lemma opportunistic_counts_twice:
  assumes "onion_relays E = Inr 0" and "has_rendezvous E = False" and "relay_peers E = Inr [(peer, [a])]"
    and "via_relay E = Inr data"
  shows "fst (snd (retrieve_with_anonymity E True Opportunistic st)) =
    st\<lparr>opportunistic_attempts := opportunistic_attempts st + 1,
       opportunistic_relay_successes := opportunistic_relay_successes st + 2\<rparr>"
  using assms
  by (simp add: retrieve_with_anonymity_def Let_def try_relay_paths_def try_path_def relay_circuit_def count_success_def path_hops)

lemma zero_hops_panic:
  assumes "onion_relays E = Inr 0" and "has_rendezvous E = False" and "relay_peers E = Inr []"
  shows "snd (snd (retrieve_with_anonymity E True (Required 0) st)) = Panicked"
  using assms by (simp add: retrieve_with_anonymity_def Let_def try_relay_paths_def try_path_def relay_circuit_def path_hops)

section \<open>Transports keep the policy\<close>

fun attempts_of :: "transport_attempt list + transported_share \<Rightarrow> transport_attempt list" where
  "attempts_of (Inl attempts) = attempts"
| "attempts_of (Inr t) = ts_attempts t"

lemma fetch_in_order_attempts:
  "\<exists>n\<le>length order. map att_transport (attempts_of (snd (fetch_in_order ts addr mid slot seg order attempts ws))) =
     map att_transport attempts @ map (\<lambda>idx. pt_kind (ts ! idx)) (take n order)"
proof (induction ts addr mid slot seg order attempts ws rule: fetch_in_order.induct)
  case (2 ts addr mid slot seg idx order attempts w st)
  obtain w' r where r: "pt_fetch (ts ! idx) w addr mid slot seg = (w', r)" by (metis surj_pair)
  show ?case
  proof (cases r)
    case (Inl err)
    then obtain n where "n \<le> length order" "map att_transport (attempts_of (snd (fetch_in_order ts addr mid slot seg
        (idx # order) attempts (w, st)))) = (map att_transport attempts @ [pt_kind (ts ! idx)]) @
          map (\<lambda>idx. pt_kind (ts ! idx)) (take n order)"
      using 2 [OF refl refl r [symmetric] refl Inl] r by (auto simp: Let_def)
    then show ?thesis by (intro exI [of _ "Suc n"]) simp
  next
    case (Inr s)
    then show ?thesis using r by (intro exI [of _ 1]) (auto simp: Let_def split: option.splits)
  qed
qed simp

lemma adaptive_order_perm:
  "distinct (fst (adaptive_order ts st))" "set (fst (adaptive_order ts st)) = {0..<length ts}"
  by (simp_all add: adaptive_order_def Let_def)

text \<open>
  A policy-constrained fetch tries only transports the policy permits for the address, each at most once, whatever
  their health says and however many permitted ones failed. It refuses exactly when no configured transport is
  permitted, and then nothing was sent.
\<close>

theorem policy_respected:
  "case fetch_share_with_policy ts policy addr mid slot seg (w, st) of
     ((w', _), Inl (NoPermittedTransport _ _)) \<Rightarrow>
       w' = w \<and> list_all (\<lambda>t. \<not> permitted_for (pt_kind t) policy addr) ts
   | (_, Inl (Exhausted attempts)) \<Rightarrow>
       list_all (\<lambda>a. permitted_for (att_transport a) policy addr) attempts \<and> length attempts \<le> length ts \<and>
       list_ex (\<lambda>t. permitted_for (pt_kind t) policy addr) ts
   | (_, Inr t) \<Rightarrow>
       list_all (\<lambda>a. permitted_for (att_transport a) policy addr) (ts_attempts t) \<and> length (ts_attempts t) \<le> length ts"
proof -
  obtain order0 st1 where o: "adaptive_order ts st = (order0, st1)" by (metis surj_pair)
  define order where "order = filter (\<lambda>idx. permitted_for (pt_kind (ts ! idx)) policy addr) order0"
  have o0: "distinct order0" "set order0 = {0..<length ts}" using adaptive_order_perm [of ts st] o by simp_all
  then have "length order0 = length ts" using distinct_card [OF o0(1)] by simp
  then have len: "length order \<le> length ts" unfolding order_def using length_filter_le [of _ order0] by metis
  obtain ws r where r: "fetch_in_order ts addr mid slot seg order [] (w, st1) = (ws, r)" by (metis surj_pair)
  then obtain n where m: "map att_transport (attempts_of r) = map (\<lambda>idx. pt_kind (ts ! idx)) (take n order)"
    using fetch_in_order_attempts [of order ts addr mid slot seg "[]" "(w, st1)"] by auto
  have kinds: "\<forall>k\<in>set (map att_transport (attempts_of r)). permitted_for k policy addr"
    unfolding m by (auto simp: order_def dest: in_set_takeD)
  have short: "length (attempts_of r) \<le> length order" using arg_cong [OF m, of length] by simp
  have none: "list_all (\<lambda>t. \<not> permitted_for (pt_kind t) policy addr) ts" if "order = []"
    using that o0(2) by (auto simp: order_def filter_empty_conv list_all_length)
  have some: "list_ex (\<lambda>t. permitted_for (pt_kind t) policy addr) ts" if "order \<noteq> []"
    using that o0(2) by (auto simp: order_def filter_empty_conv list_ex_length)
  have out: "fetch_share_with_policy ts policy addr mid slot seg (w, st) =
      (if order = [] then ((w, st1), Inl (NoPermittedTransport policy (map pt_kind ts)))
       else (ws, case r of Inl attempts \<Rightarrow> Inl (Exhausted attempts) | Inr t \<Rightarrow> Inr t))"
    using r by (simp add: fetch_share_with_policy_def o Let_def order_def [symmetric] split: sum.split)
  have all: "list_all (\<lambda>a. permitted_for (att_transport a) policy addr) (attempts_of r)" "length (attempts_of r) \<le> length ts"
    using kinds short len by (auto simp: list_all_iff)
  show ?thesis
  proof (cases "order = []")
    case True
    then show ?thesis using none by (simp add: out)
  next
    case False
    then show ?thesis using some all by (cases r; cases ws) (simp_all add: out)
  qed
qed

section \<open>Locators\<close>

lemma splitn_step: "c \<notin> set a \<Longrightarrow> splitn (Suc (Suc n)) c (a @ c # b) = a # splitn (Suc n) c b"
proof -
  assume "c \<notin> set a"
  then have "takeWhile (\<lambda>b. b \<noteq> c) (a @ c # b) = a" "dropWhile (\<lambda>b. b \<noteq> c) (a @ c # b) = c # b"
    by (induction a) auto
  then show ?thesis by simp
qed

lemma decimal_nonempty: "decimal n \<noteq> []"
  by (simp add: decimal.simps [of n])

lemma parse_decimal: "n < bound \<Longrightarrow> parse_uint bound (decimal n) = Some n"
proof -
  assume n: "n < bound"
  have digits: "list_all is_digit (decimal n)"
    using decimal_digits [of _ n] by (auto simp: list_all_iff is_digit_def word_le_nat_alt)
  moreover obtain b bs where b: "decimal n = b # bs" using decimal_nonempty by (cases "decimal n") auto
  moreover have "b \<noteq> 43" using decimal_digits [of b n] b by auto
  ultimately show ?thesis using n digits_val_decimal [of n] by (simp add: parse_uint_def)
qed

lemma hex_okD:
  assumes "hex_ok H"
  shows "hex_decode H (hex_encode H b) = Some b" and "124 \<notin> set (hex_encode H b)"
proof -
  have "list_all (\<lambda>c. (48 \<le> c \<and> c \<le> 57) \<or> (97 \<le> c \<and> c \<le> 102)) (hex_encode H b)" using assms by (simp add: hex_ok_def)
  then show "124 \<notin> set (hex_encode H b)" by (fastforce simp: list_all_iff)
qed (use assms in \<open>simp add: hex_ok_def\<close>)

definition first_addr :: "shard_location \<Rightarrow> bytes" where
  "first_addr loc = takeWhile (\<lambda>b. b \<noteq> 44) (join [44] (loc_addrs loc))"

lemma locator_parses:
  assumes "hex_ok H" and "length mid = 32"
  shows "parse_locator H (locator H (hex_encode H mid) loc) = Inr (mid, shard_index loc, loc_segment loc, first_addr loc)"
proof -
  have bar: "124 \<notin> set (decimal n)" for n by (rule not_digit) simp
  have parts: "splitn 5 124 (locator H (hex_encode H mid) loc) =
      [hex_encode H mid, decimal (unat (shard_index loc)), decimal (unat (loc_segment loc)),
       hex_encode H (peer_id_bytes loc), join [44] (loc_addrs loc)]"
    using hex_okD(2) [OF assms(1)] bar
    by (simp add: locator_def eval_nat_numeral splitn_step del: splitn.simps(3))
  have "unat (shard_index loc) < 2 ^ 16" "unat (loc_segment loc) < 2 ^ 32"
    using unsigned_less [of "shard_index loc"] unsigned_less [of "loc_segment loc"] by simp_all
  then show ?thesis
    unfolding parse_locator_def Let_def parts
    using parse_decimal [of "unat (shard_index loc)" "2 ^ 16"] parse_decimal [of "unat (loc_segment loc)" "2 ^ 32"]
    by (simp add: hex_okD(1) [OF assms(1)] assms(2) first_addr_def)
qed

text \<open>
  Locators are faithful: each candidate listed for a segment of a record parses back, in order, to the request for
  that record's content, the location's slot, that segment and the location's first address.
\<close>

theorem locator_roundtrip:
  assumes "hex_ok H" and "dht mid = Inr (Some r)" and "length (mid_digest r) = 32"
  shows "map (parse_locator H) (fallback_candidates_for_segment H dht mid seg) =
    map (\<lambda>loc. Inr (mid_digest r, shard_index loc, seg, first_addr loc)) (filter (\<lambda>loc. loc_segment loc = seg) (locations r))"
  using assms by (simp add: fallback_candidates_for_segment_def locators_from_def locator_parses)

section \<open>The relay rewriting does not reach the dial\<close>

lemma contains_suffix: "contains (a @ b) b"
proof (induction a)
  case Nil
  show ?case by (cases b) simp_all
qed simp

lemma circuit_base_circuit: "contains (circuit_base relay_addr relay_peer_id) CIRCUIT"
proof -
  have "contains (a @ b @ c @ d) d" for a b c d using contains_suffix [of "a @ b @ c" d] by simp
  then show ?thesis using contains_suffix by (simp add: circuit_base_def CIRCUIT_def)
qed

lemma circuit_base_comma:
  "44 \<notin> set relay_addr \<Longrightarrow> 44 \<notin> set relay_peer_id \<Longrightarrow> 44 \<notin> set (circuit_base relay_addr relay_peer_id)"
  by (auto simp: circuit_base_def str_bytes_def of_char_def)

lemma one_transport_order: "fst (adaptive_order [t] st) = [0]"
  by (simp add: adaptive_order_def Let_def)

lemma policy_single:
  assumes "permitted_for (pt_kind t) policy addr"
  shows "fst (fst (fetch_share_with_policy [t] policy addr mid slot seg (w, st))) = fst (pt_fetch t w addr mid slot seg)"
proof -
  obtain st' where o: "adaptive_order [t] st = ([0], st')" using one_transport_order by (metis prod.collapse)
  obtain w' r where "pt_fetch t w addr mid slot seg = (w', r)" by (metis surj_pair)
  then show ?thesis
    using assms o by (auto simp: fetch_share_with_policy_def Let_def split: sum.splits option.splits)
qed

lemma libp2p_dials:
  assumes "record_cache w mid = Some r \<or> record_cache w mid = None \<and> nx_get_record N mid = Inr (Some r)"
    and "find (\<lambda>l. shard_index l = slot \<and> loc_segment l = seg) (locations r) = Some loc" and "nx_peer_id_ok N (peer_id_bytes loc)"
  shows "dialled (fst (libp2p_fetch N w addr mid slot seg)) = dialled w @ [(peer_id_bytes loc, loc_addrs loc)]"
  using assms by (auto simp: libp2p_fetch_def Let_def)

text \<open>
  C20: Under required anonymity the relay path asks for shares by locators rewritten to a relay circuit, and the libp2p
  transport is permitted because of that address. The transport does not use the address: it looks the record up again
  and dials the holder at the addresses published there, so the holder sees the requester.
\<close>

theorem required_dials_directly:
  assumes "hex_ok H" and "length (mid_digest r) = 32" and "dht mid = Inr (Some r)"
    and "44 \<notin> set relay_addr" and "44 \<notin> set relay_peer_id"
    and "find (\<lambda>l. shard_index l = slot \<and> loc_segment l = seg) (locations r) = Some loc"
    and "nx_get_record N (mid_digest r) = Inr (Some r)" and "nx_peer_id_ok N (peer_id_bytes loc)"
    and "record_cache (ss_world s) (mid_digest r) = None"
  shows "\<exists>l\<in>set (fallback_candidates_for_segment H (relay_get relay_addr relay_peer_id dht) mid seg).
    dialled (ss_world (fst (fallback_fetch H [libp2p_transport N] (Required h) l s))) =
      dialled (ss_world s) @ [(peer_id_bytes loc, loc_addrs loc)]"
proof -
  let ?base = "circuit_base relay_addr relay_peer_id"
  let ?loc = "loc\<lparr>loc_addrs := [?base]\<rparr>"
  let ?l = "locator H (hex_encode H (mid_digest r)) ?loc"
  have loc: "shard_index loc = slot" "loc_segment loc = seg" "loc \<in> set (locations r)"
    using assms(6) by (auto simp: find_Some_iff)
  then have mem: "?l \<in> set (fallback_candidates_for_segment H (relay_get relay_addr relay_peer_id dht) mid seg)"
    using assms(3) by (auto simp: fallback_candidates_for_segment_def relay_get_def rewrite_record_def locators_from_def)
  have first: "first_addr ?loc = ?base"
    using circuit_base_comma [OF assms(4,5)] by (auto simp: first_addr_def takeWhile_eq_all_conv)
  have perm: "permitted_for (pt_kind (libp2p_transport N)) (Required h) (first_addr ?loc)"
    unfolding first using circuit_base_circuit by (simp add: permitted_for_def libp2p_transport_def is_required_def)
  have parse: "parse_locator H ?l = Inr (mid_digest r, slot, seg, first_addr ?loc)"
    using locator_parses [OF assms(1,2), of ?loc] loc by simp
  have "ss_world (fst (fallback_fetch H [libp2p_transport N] (Required h) ?l s)) =
      fst (fst (fetch_share_with_policy [libp2p_transport N] (Required h) (first_addr ?loc) (mid_digest r) slot seg
        (ss_world s, ss_stats s)))"
    unfolding fallback_fetch_def parse
    by (simp add: is_required_def Let_def split: prod.split sum.split policy_fetch_error.split)
  also have "\<dots> = fst (libp2p_fetch N (ss_world s) (first_addr ?loc) (mid_digest r) slot seg)"
    using policy_single [OF perm] by (simp add: libp2p_transport_def)
  finally show ?thesis using libp2p_dials [OF disjI2 [OF conjI [OF assms(9,7)]] assms(6,8)] mem by (intro bexI [of _ ?l]) simp_all
qed

section \<open>Examples\<close>

definition nib :: "nat \<Rightarrow> u8" where
  "nib n = word_of_nat (if n < 10 then 48 + n else 87 + n)"

definition unnib :: "u8 \<Rightarrow> nat" where
  "unnib c = (if c \<le> 57 then unat c - 48 else unat c - 87)"

fun unhex :: "bytes \<Rightarrow> bytes option" where
  "unhex [] = Some []"
| "unhex [_] = None"
| "unhex (a # b # cs) = (case unhex cs of None \<Rightarrow> None | Some r \<Rightarrow> Some (word_of_nat (unnib a * 16 + unnib b) # r))"

definition demo_hex :: hext where
  "demo_hex = \<lparr>hex_encode = (\<lambda>bs. concat (map (\<lambda>b. [nib (unat b div 16), nib (unat b mod 16)]) bs)), hex_decode = unhex\<rparr>"

lemma nib_ok: "n < 16 \<Longrightarrow> unnib (nib n) = n \<and> ((48 \<le> nib n \<and> nib n \<le> 57) \<or> (97 \<le> nib n \<and> nib n \<le> 102))"
proof (cases "n < 10")
  case True
  then have "unat (word_of_nat (48 + n) :: u8) = 48 + n" by (simp add: unat_of_nat del: of_nat_add of_nat_numeral)
  then show ?thesis using True by (auto simp: nib_def unnib_def word_le_nat_alt simp del: of_nat_add)
next
  case False
  assume "n < 16"
  then have "unat (word_of_nat (87 + n) :: u8) = 87 + n" by (simp add: unat_of_nat del: of_nat_add of_nat_numeral)
  then show ?thesis using False \<open>n < 16\<close> by (auto simp: nib_def unnib_def word_le_nat_alt simp del: of_nat_add)
qed

lemma demo_hex_ok: "hex_ok demo_hex"
  unfolding hex_ok_def
proof (intro allI conjI)
  have n: "unat x div 16 < 16" "unat x mod 16 < 16" for x :: u8
    using unsigned_less [of x, where 'a = nat] by auto
  fix b
  show "hex_decode demo_hex (hex_encode demo_hex b) = Some b"
  proof (induction b)
    case (Cons x b)
    have "unnib (nib (unat x div 16)) * 16 + unnib (nib (unat x mod 16)) = unat x"
      using nib_ok [OF n(1) [of x]] nib_ok [OF n(2) [of x]] by simp
    then show ?case using Cons by (simp add: demo_hex_def)
  qed (simp add: demo_hex_def)
  show "list_all (\<lambda>c. (48 \<le> c \<and> c \<le> 57) \<or> (97 \<le> c \<and> c \<le> 102)) (hex_encode demo_hex b)"
    using nib_ok n by (auto simp: demo_hex_def list_all_iff)
qed

definition demo_loc :: shard_location where
  "demo_loc = \<lparr>peer_id_bytes = [1], shard_index = 0, loc_segment = 0, loc_addrs = [str_bytes ''/ip4/198.51.100.1/tcp/4001'']\<rparr>"

definition demo_dht_record :: dht_record where
  "demo_dht_record =
     \<lparr>mid_digest = replicate 32 0, rec_data_shards = 1, rec_total_shards = 1, rec_version = 1, locations = [demo_loc],
      published_at = 0\<rparr>"

definition demo_node :: node_ext where
  "demo_node = \<lparr>nx_get_record = \<lambda>_. Inr (Some demo_dht_record), nx_peer_id_ok = \<lambda>_. True, nx_exchange = \<lambda>_ _ _ _ _. Inr None\<rparr>"

definition demo_state :: "libp2p_state source_state" where
  "demo_state = \<lparr>ss_world = \<lparr>record_cache = Map.empty, dialled = []\<rparr>, ss_stats = stats_default, ss_attempts = []\<rparr>"

definition demo_paths :: path_env where
  "demo_paths =
     \<lparr>onion_relays = Inr 2, has_rendezvous = False, via_onion_rendezvous = Inl Network, via_onion = Inl Network,
      via_rendezvous = None, relay_peers = Inr [], via_relay = Inl Network, via_network = Inr [7]\<rparr>"

definition demo_retrievals :: retrieval_stats where
  "demo_retrievals =
     \<lparr>direct_attempts = 0, direct_successes = 0, opportunistic_attempts = 0, opportunistic_relay_successes = 0,
      opportunistic_direct_fallbacks = 0, opportunistic_onion_successes = 0, opportunistic_onion_rendezvous_successes = 0,
      opportunistic_rendezvous_successes = 0, required_attempts = 0, required_onion_successes = 0,
      required_relay_successes = 0, required_failures = 0\<rparr>"

text \<open>Two relays demanded and the onion fails: a counted failure, no direct retrieval. None demanded and none known: a panic.\<close>

theorem required_steps_counted_witness:
  "(case retrieve_with_anonymity demo_paths True (Required 2) demo_retrievals of (paths, st', r) \<Rightarrow>
      paths = [PathOnion] \<and> r = Returned (Inl Network) \<and> required_attempts st' = 1 \<and> required_failures st' = 1) \<and>
   (case retrieve_with_anonymity demo_paths True (Required 0) demo_retrievals of (paths, st', r) \<Rightarrow>
      paths = [PathOnion] \<and> r = Panicked \<and> required_attempts st' = 1 \<and> required_failures st' = 0)"
  using required_steps_counted [where E = demo_paths and min_hops = 2 and enabled = True and st = demo_retrievals]
    required_steps_counted [where E = demo_paths and min_hops = 0 and enabled = True and st = demo_retrievals]
  by (simp add: retrieve_with_anonymity_def try_relay_paths_def try_path_def relay_circuit_def path_hops demo_paths_def demo_retrievals_def)

theorem locator_roundtrip_witness:
  "map (parse_locator demo_hex) (fallback_candidates_for_segment demo_hex (\<lambda>_. Inr (Some demo_dht_record)) [] 0) =
     [Inr (replicate 32 0, 0, 0, first_addr demo_loc)]"
  using locator_roundtrip [OF demo_hex_ok, of "\<lambda>_. Inr (Some demo_dht_record)" "[]" demo_dht_record 0]
  by (simp add: demo_dht_record_def demo_loc_def)

theorem required_dials_directly_witness:
  "list_ex (\<lambda>l. dialled (ss_world (fst (fallback_fetch demo_hex [libp2p_transport demo_node] (Required 1) l demo_state))) =
       [([1], [str_bytes ''/ip4/198.51.100.1/tcp/4001''])])
     (fallback_candidates_for_segment demo_hex (relay_get [47] [49] (\<lambda>_. Inr (Some demo_dht_record))) [] 0)"
  using required_dials_directly [OF demo_hex_ok, of demo_dht_record "\<lambda>_. Inr (Some demo_dht_record)" "[]" "[47]" "[49]" 0 0 demo_loc
      demo_node demo_state 1]
  by (simp add: demo_dht_record_def demo_node_def demo_state_def demo_loc_def list_ex_iff)

end
