(* ===== verification/Local_Store.thy ===== *)
theory Local_Store
  imports Transport "HOL-Library.List_Lexorder"
begin

text \<open>
  The encrypted local share store, \<^verbatim>\<open>crates/miasma-core/src/store.rs\<close>, and the local share source of
  \<^verbatim>\<open>retrieval/source.rs\<close>. A store is its share files, the index document, the master key in memory, whether the keys
  of the data directory can be loaded, the quotas and the addresses in use. Byte counts are natural numbers.

  What the operating system does for one call is an \<open>io\<close> record: the clock, the nonce drawn, whether writing a file,
  saving the index and removing a file succeed, and the order in which the index map is iterated. Serialisation
  (\<^verbatim>\<open>bincode\<close>) and XChaCha20-Poly1305 are arguments with named laws. An address is the hex string of a hash.
\<close>

section \<open>Data\<close>

record sext =
  sx_core :: cext
  sx_hex :: hext
  to_bytes :: "miasma_share \<Rightarrow> bytes option"
  from_bytes :: "bytes \<Rightarrow> miasma_share option"
  xseal :: "bytes \<Rightarrow> bytes \<Rightarrow> bytes \<Rightarrow> bytes option"
  xopen :: "bytes \<Rightarrow> bytes \<Rightarrow> bytes \<Rightarrow> bytes option"

datatype share_origin = Owned | Hosted

record piece_key =
  pk_prefix :: bytes
  pk_segment :: u32
  pk_slot :: u16

definition piece_of :: "miasma_share \<Rightarrow> piece_key" where
  "piece_of s = \<lparr>pk_prefix = mid_prefix s, pk_segment = segment_index s, pk_slot = slot_index s\<rparr>"

record index_entry =
  size_bytes :: nat
  last_accessed :: u64
  entry_origin :: share_origin
  hosted_tuple :: "piece_key option"
  piece :: "piece_key option"
  hosted_principal :: "bytes option"

type_synonym store_index = "(bytes, index_entry) fmap"

record blob_file =
  content :: bytes
  modified :: "u64 option"
  is_symlink :: bool
  inside_dir :: bool

record store =
  files :: "(bytes, blob_file) fmap"
  store_index :: store_index
  index_ok :: bool
  master_key :: "bytes option"
  keys_on_disk :: bool
  quota_bytes :: nat
  hosted_quota_bytes :: nat
  in_use :: "bytes set"

record io =
  now :: u64
  nonce :: bytes
  file_write_ok :: bool
  save_ok :: bool
  file_remove_ok :: "bytes \<Rightarrow> bool"
  iter :: "store_index \<Rightarrow> (bytes \<times> index_entry) list"

datatype hosted_refusal = QuotaExceeded | PrincipalBudgetExceeded | NotOwner

datatype hosted_put_error = Refused hosted_refusal | StoreError miasma_error

section \<open>Index, files and encryption\<close>

text \<open>
  \<open>store_index\<close> is the content of the index document and \<open>index_ok\<close> whether it can be read, decrypted and parsed at the time
  of the call; an index that cannot be read reads as empty, and saving puts a readable one in its place. Converting an index of
  an earlier version, which a read does, changes nothing of what it reads.
\<close>

definition load_index :: "store \<Rightarrow> store_index" where
  "load_index st = (if keys_on_disk st \<and> index_ok st then store_index st else fmempty)"

definition save_index :: "io \<Rightarrow> store_index \<Rightarrow> store \<Rightarrow> store \<times> (miasma_error + unit)" where
  "save_index w idx st = (if save_ok w \<and> keys_on_disk st then (st\<lparr>store_index := idx, index_ok := True\<rparr>, Inr ()) else (st, Inl Io))"

definition remove_file :: "io \<Rightarrow> bytes \<Rightarrow> (bytes, blob_file) fmap \<Rightarrow> (bytes, blob_file) fmap" where
  "remove_file w a fs = (if file_remove_ok w a then fmdrop a fs else fs)"

definition STORE_NONCE_LEN :: nat where "STORE_NONCE_LEN = 24"

definition derive_file_key :: "sext \<Rightarrow> bytes \<Rightarrow> bytes \<Rightarrow> bytes" where
  "derive_file_key X key address = hkdf (sx_core X) None key (str_bytes ''miasma-store-v1:'' @ address)"

definition encrypt_share :: "sext \<Rightarrow> bytes \<Rightarrow> bytes \<Rightarrow> bytes \<Rightarrow> miasma_error + bytes" where
  "encrypt_share X key n plaintext =
     (case xseal X key n plaintext of None \<Rightarrow> Inl Encryption | Some ct \<Rightarrow> Inr (n @ ct))"

definition decrypt_share :: "sext \<Rightarrow> bytes \<Rightarrow> bytes \<Rightarrow> miasma_error + bytes" where
  "decrypt_share X key blob =
     (if length blob < STORE_NONCE_LEN + 16 then Inl Decryption
      else
        (case xopen X key (take STORE_NONCE_LEN blob) (drop STORE_NONCE_LEN blob) of
           None \<Rightarrow> Inl Decryption
         | Some plaintext \<Rightarrow> Inr plaintext))"

definition address_of :: "sext \<Rightarrow> miasma_share \<Rightarrow> miasma_error + bytes" where
  "address_of X s =
     (case to_bytes X s of
        None \<Rightarrow> Inl Serialization
      | Some b \<Rightarrow> Inr (hex_encode (sx_hex X) (blake3 (sx_core X) b)))"

definition isum :: "(index_entry \<Rightarrow> bool) \<Rightarrow> store_index \<Rightarrow> nat" where
  "isum P idx = (\<Sum>a\<in>fmdom' idx. case fmlookup idx a of None \<Rightarrow> 0 | Some e \<Rightarrow> if P e then size_bytes e else 0)"

definition is_owned :: "index_entry \<Rightarrow> bool" where "is_owned e \<longleftrightarrow> entry_origin e = Owned"
definition is_hosted :: "index_entry \<Rightarrow> bool" where "is_hosted e \<longleftrightarrow> entry_origin e = Hosted"

definition used_bytes :: "store \<Rightarrow> nat" where "used_bytes st = isum (\<lambda>_. True) (load_index st)"
definition used_owned_bytes :: "store \<Rightarrow> nat" where "used_owned_bytes st = isum is_owned (load_index st)"
definition used_hosted_bytes :: "store \<Rightarrow> nat" where "used_hosted_bytes st = isum is_hosted (load_index st)"

section \<open>Storing own shares\<close>

text \<open>Evict the oldest candidates until the needed bytes fit.\<close>

fun evict_loop ::
  "io \<Rightarrow> nat \<Rightarrow> nat \<Rightarrow> (bytes \<times> index_entry) list \<Rightarrow> nat \<Rightarrow> (bytes, blob_file) fmap \<times> store_index \<Rightarrow>
     (bytes, blob_file) fmap \<times> store_index" where
  "evict_loop w required quota [] freed (fs, idx) = (fs, idx)"
| "evict_loop w required quota ((a, e) # es) freed (fs, idx) =
     (if required - freed \<le> quota then (fs, idx)
      else evict_loop w required quota es (freed + size_bytes e) (remove_file w a fs, fmdrop a idx))"

definition evict_candidates :: "io \<Rightarrow> bytes \<Rightarrow> store_index \<Rightarrow> (bytes \<times> index_entry) list" where
  "evict_candidates w skip idx =
     sort_key (\<lambda>(a, e). last_accessed e) (filter (\<lambda>(a, e). a \<noteq> skip \<and> is_owned e) (iter w idx))"

definition evict_if_needed_locked :: "io \<Rightarrow> nat \<Rightarrow> bytes \<Rightarrow> store \<Rightarrow> store \<times> (miasma_error + unit)" where
  "evict_if_needed_locked w needed skip st =
     (let idx = load_index st; current = isum is_owned idx in
      if current + needed \<le> quota_bytes st then (st, Inr ())
      else
        (let (fs, idx') = evict_loop w (current + needed) (quota_bytes st) (evict_candidates w skip idx) 0 (files st, idx)
         in save_index w idx' (st\<lparr>files := fs\<rparr>)))"

definition new_blob :: "io \<Rightarrow> bytes \<Rightarrow> blob_file" where
  "new_blob w blob = \<lparr>content = blob, modified = Some (now w), is_symlink = False, inside_dir = True\<rparr>"

text \<open>Encrypt, write the file and record it in the index \<open>idx\<close>.\<close>

definition write_share ::
  "sext \<Rightarrow> io \<Rightarrow> bytes \<Rightarrow> bytes \<Rightarrow> bytes \<Rightarrow> (nat \<Rightarrow> index_entry) \<Rightarrow> (store \<Rightarrow> store_index) \<Rightarrow> store \<Rightarrow>
     store \<times> (miasma_error + bytes)" where
  "write_share X w key address plaintext mk idx st =
     (case encrypt_share X (derive_file_key X key address) (nonce w) plaintext of
        Inl err \<Rightarrow> (st, Inl err)
      | Inr blob \<Rightarrow>
          if \<not> file_write_ok w then (st, Inl Io)
          else
            (case save_index w (fmupd address (mk (length blob)) (idx st))
                    (st\<lparr>files := fmupd address (new_blob w blob) (files st)\<rparr>) of
               (st', Inl err) \<Rightarrow> (st', Inl err)
             | (st', Inr _) \<Rightarrow> (st', Inr address)))"

definition owned_entry :: "io \<Rightarrow> miasma_share \<Rightarrow> nat \<Rightarrow> index_entry" where
  "owned_entry w s sz =
     \<lparr>size_bytes = sz, last_accessed = now w, entry_origin = Owned, hosted_tuple = None, piece = Some (piece_of s),
      hosted_principal = None\<rparr>"

definition put :: "sext \<Rightarrow> io \<Rightarrow> miasma_share \<Rightarrow> store \<Rightarrow> store \<times> (miasma_error + bytes)" where
  "put X w s st =
     (case master_key st of
        None \<Rightarrow> (st, Inl Storage)
      | Some key \<Rightarrow>
          (case address_of X s of
             Inl err \<Rightarrow> (st, Inl err)
           | Inr address \<Rightarrow>
               (case to_bytes X s of
                  None \<Rightarrow> (st, Inl Serialization)
                | Some plaintext \<Rightarrow>
                    (case evict_if_needed_locked w (length plaintext) address st of
                       (st', Inl err) \<Rightarrow> (st', Inl err)
                     | (st', Inr _) \<Rightarrow>
                         write_share X w key address plaintext (owned_entry w s) load_index st'))))"

section \<open>Storing shares for others\<close>

definition HOSTED_PRINCIPAL_SHARE_PERCENT :: nat where "HOSTED_PRINCIPAL_SHARE_PERCENT = 25"
definition HOSTED_PRINCIPAL_FLOOR_BYTES :: nat where "HOSTED_PRINCIPAL_FLOOR_BYTES = 16 * 1024 * 1024"

definition hosted_principal_budget_bytes :: "store \<Rightarrow> nat" where
  "hosted_principal_budget_bytes st =
     max (min (hosted_quota_bytes st * HOSTED_PRINCIPAL_SHARE_PERCENT) (2 ^ 64 - 1) div 100)
       (min (hosted_quota_bytes st) HOSTED_PRINCIPAL_FLOOR_BYTES)"

definition hosted_at :: "piece_key \<Rightarrow> index_entry \<Rightarrow> bool" where
  "hosted_at k e \<longleftrightarrow> is_hosted e \<and> hosted_tuple e = Some k"

definition owned_by_caller :: "bytes option \<Rightarrow> index_entry \<Rightarrow> bool" where
  "owned_by_caller who e \<longleftrightarrow> who \<noteq> None \<and> hosted_principal e = who"

definition hosted_entry :: "io \<Rightarrow> bytes option \<Rightarrow> miasma_share \<Rightarrow> nat \<Rightarrow> index_entry" where
  "hosted_entry w who s sz =
     \<lparr>size_bytes = sz, last_accessed = now w, entry_origin = Hosted, hosted_tuple = Some (piece_of s),
      piece = Some (piece_of s), hosted_principal = who\<rparr>"

definition put_hosted_inner ::
  "sext \<Rightarrow> io \<Rightarrow> miasma_share \<Rightarrow> bytes option \<Rightarrow> store \<Rightarrow> store \<times> (hosted_put_error + bytes)" where
  "put_hosted_inner X w s who st =
     (case master_key st of
        None \<Rightarrow> (st, Inl (StoreError Storage))
      | Some key \<Rightarrow>
          (case address_of X s of
             Inl err \<Rightarrow> (st, Inl (StoreError err))
           | Inr address \<Rightarrow>
               (case to_bytes X s of
                  None \<Rightarrow> (st, Inl (StoreError Serialization))
                | Some plaintext \<Rightarrow>
                    (let idx = load_index st; k = piece_of s; freed = isum (hosted_at k) idx in
                     if address |\<in>| fmdom idx then (st, Inr address)
                     else if \<not> fmpred (\<lambda>_ e. hosted_at k e \<longrightarrow> owned_by_caller who e) idx
                     then (st, Inl (Refused NotOwner))
                     else if hosted_quota_bytes st < isum is_hosted idx - freed + length plaintext
                     then (st, Inl (Refused QuotaExceeded))
                     else if hosted_principal_budget_bytes st <
                       isum (\<lambda>e. is_hosted e \<and> hosted_principal e = who) idx - freed + length plaintext
                     then (st, Inl (Refused PrincipalBudgetExceeded))
                     else
                       (let st' = st\<lparr>files := fmfilter (\<lambda>a. \<not> (file_remove_ok w a \<and>
                                    (case fmlookup idx a of None \<Rightarrow> False | Some e \<Rightarrow> hosted_at k e))) (files st)\<rparr>
                        in case write_share X w key address plaintext (hosted_entry w who s)
                                  (\<lambda>_. fmretain (\<lambda>_ e. \<not> hosted_at k e) idx) st' of
                             (st'', Inl err) \<Rightarrow> (st'', Inl (StoreError err))
                           | (st'', Inr a) \<Rightarrow> (st'', Inr a))))))"

definition put_hosted :: "sext \<Rightarrow> io \<Rightarrow> miasma_share \<Rightarrow> store \<Rightarrow> store \<times> (miasma_error + bytes)" where
  "put_hosted X w s st =
     (case put_hosted_inner X w s None st of
        (st', Inl (Refused _)) \<Rightarrow> (st', Inl Storage)
      | (st', Inl (StoreError err)) \<Rightarrow> (st', Inl err)
      | (st', Inr a) \<Rightarrow> (st', Inr a))"

definition put_hosted_by ::
  "sext \<Rightarrow> io \<Rightarrow> miasma_share \<Rightarrow> bytes \<Rightarrow> store \<Rightarrow> store \<times> (hosted_put_error + bytes)" where
  "put_hosted_by X w s who st = put_hosted_inner X w s (Some who) st"

section \<open>Reading\<close>

definition get_untouched :: "sext \<Rightarrow> bytes \<Rightarrow> store \<Rightarrow> miasma_error + miasma_share" where
  "get_untouched X address st =
     (case master_key st of
        None \<Rightarrow> Inl Storage
      | Some key \<Rightarrow>
          (case fmlookup (files st) address of
             None \<Rightarrow> Inl Io
           | Some f \<Rightarrow>
               (case decrypt_share X (derive_file_key X key address) (content f) of
                  Inl err \<Rightarrow> Inl err
                | Inr plaintext \<Rightarrow>
                    (case from_bytes X plaintext of None \<Rightarrow> Inl Serialization | Some s \<Rightarrow> Inr s))))"

text \<open>
  \<^verbatim>\<open>get\<close> records the access by reading the whole index, changing one entry and writing it back, without the write
  lock: \<open>touch idx\<close> is the second half, with the index \<open>idx\<close> read before.
\<close>

definition touch :: "io \<Rightarrow> bytes \<Rightarrow> store_index \<Rightarrow> store \<Rightarrow> store" where
  "touch w address idx st =
     (case fmlookup idx address of
        None \<Rightarrow> st
      | Some e \<Rightarrow> fst (save_index w (fmupd address (e\<lparr>last_accessed := now w\<rparr>) idx) st))"

definition get :: "sext \<Rightarrow> io \<Rightarrow> bytes \<Rightarrow> store \<Rightarrow> store \<times> (miasma_error + miasma_share)" where
  "get X w address st =
     (case get_untouched X address st of
        Inl err \<Rightarrow> (st, Inl err)
      | Inr s \<Rightarrow> (touch w address (load_index st) st, Inr s))"

definition contains_share :: "bytes \<Rightarrow> store \<Rightarrow> bool" where
  "contains_share address st \<longleftrightarrow> address |\<in>| fmdom (files st)"

definition list_addresses :: "io \<Rightarrow> store \<Rightarrow> bytes list" where
  "list_addresses w st = map fst (iter w (load_index st))"

text \<open>\<open>ws i\<close> is the environment of the \<open>i\<close>-th share looked at.\<close>

fun search_loop :: "sext \<Rightarrow> (nat \<Rightarrow> io) \<Rightarrow> bytes \<Rightarrow> nat \<Rightarrow> bytes list \<Rightarrow> store \<Rightarrow> store \<times> bytes list" where
  "search_loop X ws prefix i [] st = (st, [])"
| "search_loop X ws prefix i (a # as) st =
     (case get X (ws i) a st of
        (st', r) \<Rightarrow>
          (case search_loop X ws prefix (Suc i) as st' of
             (st'', found) \<Rightarrow>
               (st'', if (case r of Inl _ \<Rightarrow> False | Inr s \<Rightarrow> mid_prefix s = prefix) then a # found else found)))"

definition search_by_mid_prefix :: "sext \<Rightarrow> (nat \<Rightarrow> io) \<Rightarrow> bytes \<Rightarrow> store \<Rightarrow> store \<times> bytes list" where
  "search_by_mid_prefix X ws prefix st = search_loop X ws prefix 0 (list_addresses (ws 0) st) st"

section \<open>Finding a piece\<close>

fun max_by_key :: "('a \<Rightarrow> u64) \<Rightarrow> 'a list \<Rightarrow> 'a option" where
  "max_by_key f [] = None"
| "max_by_key f (x # xs) =
     (case max_by_key f xs of None \<Rightarrow> Some x | Some y \<Rightarrow> if f x \<le> f y then Some y else Some x)"

definition pick_piece :: "io \<Rightarrow> piece_key \<Rightarrow> store_index \<Rightarrow> bytes option" where
  "pick_piece w want idx =
     map_option fst (max_by_key (\<lambda>(a, e). last_accessed e) (filter (\<lambda>(a, e). piece e = Some want) (iter w idx)))"

fun backfill_loop ::
  "sext \<Rightarrow> piece_key \<Rightarrow> store \<Rightarrow> bytes list \<Rightarrow> store_index \<times> (bytes \<times> u64) option \<times> bool \<Rightarrow>
     store_index \<times> (bytes \<times> u64) option \<times> bool" where
  "backfill_loop X want st [] acc = acc"
| "backfill_loop X want st (a # as) (idx, found, changed) =
     (case get_untouched X a st of
        Inl _ \<Rightarrow> backfill_loop X want st as (idx, found, changed)
      | Inr s \<Rightarrow>
          (case fmlookup idx a of
             None \<Rightarrow> backfill_loop X want st as (idx, found, changed)
           | Some e \<Rightarrow>
               backfill_loop X want st as
                 (fmupd a (e\<lparr>piece := Some (piece_of s)\<rparr>) idx,
                  if piece_of s = want \<and> (case found of None \<Rightarrow> True | Some (_, t) \<Rightarrow> t \<le> last_accessed e)
                  then Some (a, last_accessed e) else found,
                  True)))"

definition backfill_pieces :: "sext \<Rightarrow> io \<Rightarrow> piece_key \<Rightarrow> store \<Rightarrow> store \<times> bytes option" where
  "backfill_pieces X w want st =
     (let idx = load_index st;
          unknown = map fst (filter (\<lambda>(a, e). piece e = None) (iter w idx));
          (idx', found, changed) = backfill_loop X want st unknown (idx, None, False)
      in (if changed then fst (save_index w idx' st) else st, map_option fst found))"

text \<open>\<open>cached\<close> is the snapshot of the index kept in memory, which may be older than the index.\<close>

definition find_piece :: "sext \<Rightarrow> io \<Rightarrow> store_index \<Rightarrow> bytes \<Rightarrow> u32 \<Rightarrow> u16 \<Rightarrow> store \<Rightarrow> store \<times> bytes option" where
  "find_piece X w cached prefix seg slot st =
     (let want = \<lparr>pk_prefix = prefix, pk_segment = seg, pk_slot = slot\<rparr> in
      case pick_piece w want cached of
        Some a \<Rightarrow> (st, Some a)
      | None \<Rightarrow>
          (case pick_piece w want (load_index st) of
             Some a \<Rightarrow> (st, Some a)
           | None \<Rightarrow>
               if fmpred (\<lambda>_ e. piece e \<noteq> None) (load_index st) then (st, None)
               else backfill_pieces X w want st))"

definition addresses_with_mid_prefix :: "io \<Rightarrow> store_index \<Rightarrow> bytes \<Rightarrow> bytes list" where
  "addresses_with_mid_prefix w cached prefix =
     map fst (filter (\<lambda>(a, e). case piece e of None \<Rightarrow> False | Some p \<Rightarrow> pk_prefix p = prefix) (iter w cached))"

section \<open>Listing and deleting\<close>

definition SHORT_ID_LEN :: nat where "SHORT_ID_LEN = 8"

definition short_share_id :: "bytes \<Rightarrow> bytes" where
  "short_share_id address = take SHORT_ID_LEN address"

record stored_share =
  st_id :: bytes
  st_address :: bytes
  st_size :: nat
  st_modified :: u64
  st_in_use :: bool

definition list_shares :: "io \<Rightarrow> store \<Rightarrow> stored_share list" where
  "list_shares w st =
     sort_key (\<lambda>s. (st_modified s, st_address s))
       (concat (map (\<lambda>a. case fmlookup (files st) a of
            None \<Rightarrow> []
          | Some f \<Rightarrow>
              [\<lparr>st_id = short_share_id a, st_address = a, st_size = length (content f),
                st_modified = (case modified f of None \<Rightarrow> 0 | Some t \<Rightarrow> t), st_in_use = (a \<in> in_use st)\<rparr>])
         (list_addresses w st)))"

definition set_in_use_shares :: "bytes set \<Rightarrow> store \<Rightarrow> store" where
  "set_in_use_shares as st = st\<lparr>in_use := as\<rparr>"

definition delete :: "io \<Rightarrow> bytes \<Rightarrow> store \<Rightarrow> store \<times> (miasma_error + unit)" where
  "delete w address st =
     save_index w (fmdrop address (load_index st)) (st\<lparr>files := remove_file w address (files st)\<rparr>)"

datatype share_selection = Ids "bytes list" | AllShares | OlderThanDays u64

record delete_outcome =
  deleted :: nat
  freed_bytes :: nat
  skipped :: "bytes list"

definition starts_with :: "bytes \<Rightarrow> bytes \<Rightarrow> bool" where
  "starts_with a p \<longleftrightarrow> take (length p) a = p"

fun id_targets :: "bytes list \<Rightarrow> bytes list \<Rightarrow> bytes list \<times> bytes list" where
  "id_targets addrs [] = ([], [])"
| "id_targets addrs (i # is) =
     (let (t, sk) = id_targets addrs is;
          matched = filter (\<lambda>a. a = i \<or> starts_with a i) addrs
      in if length i < SHORT_ID_LEN then (t, sk)
         else if 1 < length matched \<and> i \<notin> set matched then (t, take SHORT_ID_LEN i # sk)
         else (matched @ t, sk))"

definition delete_targets :: "io \<Rightarrow> share_selection \<Rightarrow> store \<Rightarrow> bytes list \<times> bytes list" where
  "delete_targets w sel st =
     (let addrs = list_addresses w st in
      case sel of
        Ids ids \<Rightarrow> id_targets addrs ids
      | AllShares \<Rightarrow> (addrs, [])
      | OlderThanDays days \<Rightarrow>
          (filter (\<lambda>a. case fmlookup (files st) a of
               None \<Rightarrow> False
             | Some f \<Rightarrow>
                 (case modified f of
                    None \<Rightarrow> False
                  | Some m \<Rightarrow> saturating_mul days 86400 \<le> saturating_sub (now w) m)) addrs, []))"

record delete_state =
  ds_files :: "(bytes, blob_file) fmap"
  ds_index :: store_index
  ds_outcome :: delete_outcome
  ds_error :: bool

definition skip_share :: "bytes \<Rightarrow> delete_state \<Rightarrow> delete_state" where
  "skip_share a d = d\<lparr>ds_outcome := (ds_outcome d)\<lparr>skipped := skipped (ds_outcome d) @ [short_share_id a]\<rparr>\<rparr>"

definition delete_one :: "io \<Rightarrow> bytes set \<Rightarrow> bytes \<Rightarrow> delete_state \<Rightarrow> delete_state" where
  "delete_one w used a d =
     (case fmlookup (ds_files d) a of
        None \<Rightarrow> d\<lparr>ds_index := fmdrop a (ds_index d)\<rparr>
      | Some f \<Rightarrow>
          if a \<in> used then skip_share a d
          else if is_symlink f \<or> \<not> inside_dir f then skip_share a d
          else if \<not> file_remove_ok w a then d\<lparr>ds_error := True\<rparr>
          else
            d\<lparr>ds_files := fmdrop a (ds_files d), ds_index := fmdrop a (ds_index d),
              ds_outcome := (ds_outcome d)\<lparr>deleted := Suc (deleted (ds_outcome d)),
                freed_bytes := freed_bytes (ds_outcome d) + length (content f)\<rparr>\<rparr>)"

definition delete_shares :: "io \<Rightarrow> share_selection \<Rightarrow> store \<Rightarrow> store \<times> (miasma_error + delete_outcome)" where
  "delete_shares w sel st =
     (let idx = load_index st in
      if idx = fmempty then (st, Inr \<lparr>deleted = 0, freed_bytes = 0, skipped = []\<rparr>)
      else
        (let (targets0, sk) = delete_targets w sel st;
             targets = sorted_list_of_set (set targets0);
             d = fold (delete_one w (in_use st)) targets
                   \<lparr>ds_files = files st, ds_index = idx, ds_outcome = \<lparr>deleted = 0, freed_bytes = 0, skipped = sk\<rparr>, ds_error = False\<rparr>
         in case save_index w (ds_index d) (st\<lparr>files := ds_files d\<rparr>) of
              (st', Inl err) \<Rightarrow> (st', Inl err)
            | (st', Inr _) \<Rightarrow> (st', if ds_error d then Inl Io else Inr (ds_outcome d))))"

section \<open>Wiping and opening\<close>

text \<open>\<open>erased\<close>: erasing the key files succeeded. The key in memory is gone in any case.\<close>

definition distress_wipe :: "bool \<Rightarrow> store \<Rightarrow> store \<times> (miasma_error + unit)" where
  "distress_wipe erased st =
     (st\<lparr>master_key := None, keys_on_disk := keys_on_disk st \<and> \<not> erased\<rparr>, if erased then Inr () else Inl Storage)"

definition rebuilt_entry :: "io \<Rightarrow> blob_file \<Rightarrow> index_entry" where
  "rebuilt_entry w f =
     \<lparr>size_bytes = length (content f), last_accessed = now w, entry_origin = Owned, hosted_tuple = None, piece = None,
      hosted_principal = None\<rparr>"

text \<open>
  \<open>disk\<close> is what the data directory holds; \<open>key\<close> the master key loaded or created there. The product of the quota wraps, as in
  a release build.
\<close>

definition open_store :: "io \<Rightarrow> bytes \<Rightarrow> u64 \<Rightarrow> u64 \<Rightarrow> store \<Rightarrow> store" where
  "open_store w key quota_mb hosted_mb disk =
     (let st = disk\<lparr>master_key := Some key, keys_on_disk := True, quota_bytes := unat (quota_mb * 1024 * 1024),
                     hosted_quota_bytes := unat (saturating_mul hosted_mb (1024 * 1024)), in_use := {}\<rparr> in
      if load_index st = fmempty \<and> files st \<noteq> fmempty
      then fst (save_index w (fmmap (rebuilt_entry w) (files st)) st)
      else st)"

section \<open>The local source\<close>

text \<open>A store nobody else changes, as a share source; its fetches only move access times.\<close>

definition local_fetch :: "sext \<Rightarrow> store \<Rightarrow> bytes \<Rightarrow> fetched" where
  "local_fetch X st address =
     (if contains_share address st then
        (case get_untouched X address st of Inl err \<Rightarrow> Inl err | Inr s \<Rightarrow> Inr (Some s))
      else Inr None)"

definition local_source :: "sext \<Rightarrow> (nat \<Rightarrow> io) \<Rightarrow> store \<Rightarrow> share_source" where
  "local_source X ws st =
     (let list = (\<lambda>mid. snd (search_by_mid_prefix X ws (mid_prefix_of mid) st)) in
      \<lparr>list_candidates = list, list_candidates_for_segment = \<lambda>mid _. list mid, source_fetch = \<lambda>_. local_fetch X st\<rparr>)"

section \<open>Sums over the index\<close>

definition weight :: "(index_entry \<Rightarrow> bool) \<Rightarrow> index_entry option \<Rightarrow> nat" where
  "weight P oe = (case oe of None \<Rightarrow> 0 | Some e \<Rightarrow> if P e then size_bytes e else 0)"

lemma weight_simps [simp]: "weight P None = 0" "weight P (Some e) = (if P e then size_bytes e else 0)"
  by (simp_all add: weight_def)

lemma isum_weight: "isum P m = (\<Sum>a\<in>fmdom' m. weight P (fmlookup m a))"
  by (simp add: isum_def weight_def)

lemma isum_over:
  assumes "finite A" and "fmdom' m \<subseteq> A"
  shows "isum P m = (\<Sum>a\<in>A. weight P (fmlookup m a))"
  unfolding isum_weight by (rule sum.mono_neutral_left) (use assms in \<open>auto simp: fmlookup_dom'_iff\<close>)

lemma isum_drop: "isum P m = isum P (fmdrop a m) + weight P (fmlookup m a)"
proof -
  have "isum P m = (\<Sum>b\<in>insert a (fmdom' m). weight P (fmlookup m b))" by (rule isum_over) auto
  also have "\<dots> = weight P (fmlookup m a) + (\<Sum>b\<in>fmdom' m - {a}. weight P (fmlookup m b))"
    by (simp add: sum.insert_remove)
  also have "(\<Sum>b\<in>fmdom' m - {a}. weight P (fmlookup m b)) = isum P (fmdrop a m)"
    unfolding isum_weight by (rule sum.cong) auto
  finally show ?thesis by simp
qed

lemma isum_upd: "isum P (fmupd a e m) = isum P (fmdrop a m) + (if P e then size_bytes e else 0)"
proof -
  have "fmdrop a (fmupd a e m) = fmdrop a m" by (rule fmap_ext) simp
  then show ?thesis using isum_drop [of P "fmupd a e m" a] by simp
qed

lemma isum_cong:
  assumes "\<And>a. weight P (fmlookup m a) = weight Q (fmlookup n a)"
  shows "isum P m = isum Q n"
proof -
  have "isum P m = (\<Sum>a\<in>fmdom' m \<union> fmdom' n. weight P (fmlookup m a))" by (rule isum_over) auto
  also have "\<dots> = isum Q n" unfolding assms by (rule isum_over [symmetric]) auto
  finally show ?thesis .
qed

lemma isum_le:
  assumes "\<And>a. weight P (fmlookup m a) \<le> weight Q (fmlookup n a)"
  shows "isum P m \<le> isum Q n"
proof -
  have "isum P m = (\<Sum>a\<in>fmdom' m \<union> fmdom' n. weight P (fmlookup m a))" by (rule isum_over) auto
  also have "\<dots> \<le> (\<Sum>a\<in>fmdom' m \<union> fmdom' n. weight Q (fmlookup n a))" by (rule sum_mono) (rule assms)
  also have "\<dots> = isum Q n" by (rule isum_over [symmetric]) auto
  finally show ?thesis .
qed

lemma isum_retain:
  "isum P m = isum P (fmretain (\<lambda>_ e. \<not> Q e) m) + isum (\<lambda>e. P e \<and> Q e) m"
proof -
  have over: "isum R (fmretain (\<lambda>_ e. \<not> Q e) m) = (\<Sum>a\<in>fmdom' m. weight R (fmlookup (fmretain (\<lambda>_ e. \<not> Q e) m) a))" for R
    by (rule isum_over) (auto simp: fmlookup_dom'_iff split: option.splits)
  show ?thesis
    unfolding over unfolding isum_weight sum.distrib [symmetric]
    by (rule sum.cong) (auto split: option.splits simp: fmlookup_dom'_iff)
qed

lemma isum_drop_le: "isum P (fmdrop a m) \<le> isum P m"
  using isum_drop [of P m a] by simp

section \<open>Laws\<close>

definition io_ok :: "io \<Rightarrow> bool" where
  "io_ok w \<longleftrightarrow>
     length (nonce w) = STORE_NONCE_LEN \<and>
     (\<forall>m. distinct (map fst (iter w m)) \<and> (\<forall>a e. (a, e) \<in> set (iter w m) \<longleftrightarrow> fmlookup m a = Some e))"

text \<open>XChaCha20-Poly1305 opens what it sealed and adds a tag of 16 bytes; deserialisation inverts serialisation.\<close>

definition xcipher_ok :: "sext \<Rightarrow> bool" where
  "xcipher_ok X \<longleftrightarrow>
     (\<forall>k n p. length n = STORE_NONCE_LEN \<longrightarrow>
        (\<exists>c. xseal X k n p = Some c \<and> length c = length p + 16 \<and> xopen X k n c = Some p))"

definition bincode_ok :: "sext \<Rightarrow> bool" where
  "bincode_ok X \<longleftrightarrow> (\<forall>s b. to_bytes X s = Some b \<longrightarrow> from_bytes X b = Some s)"

lemma xcipherD:
  assumes "xcipher_ok X" and "io_ok w"
  obtains c where "xseal X k (nonce w) p = Some c" and "length c = length p + 16" and "xopen X k (nonce w) c = Some p"
    and "length (nonce w) = 24"
  using assms unfolding xcipher_ok_def io_ok_def STORE_NONCE_LEN_def by blast

lemma encrypt_share_length:
  assumes "xcipher_ok X" and "io_ok w" and "encrypt_share X k (nonce w) p = Inr blob"
  shows "length blob = length p + 40"
proof -
  obtain c where "xseal X k (nonce w) p = Some c" "length c = length p + 16" "length (nonce w) = 24"
    using xcipherD [OF assms(1,2)] by blast
  then show ?thesis using assms(3) by (auto simp: encrypt_share_def)
qed

lemma encrypt_decrypt:
  assumes "xcipher_ok X" and "io_ok w"
  obtains blob where "encrypt_share X k (nonce w) p = Inr blob" and "decrypt_share X k blob = Inr p"
proof -
  obtain c where "xseal X k (nonce w) p = Some c" "length c = length p + 16" "xopen X k (nonce w) c = Some p"
    "length (nonce w) = 24"
    using xcipherD [OF assms] by blast
  then show ?thesis using that [of "nonce w @ c"] by (simp add: encrypt_share_def decrypt_share_def STORE_NONCE_LEN_def)
qed

section \<open>Quotas\<close>

definition held_by :: "bytes option \<Rightarrow> index_entry \<Rightarrow> bool" where
  "held_by who e \<longleftrightarrow> is_hosted e \<and> hosted_principal e = who"

text \<open>Hosted bytes, in all and of each principal, stay within their budgets and one blob's overhead of 40 bytes.\<close>

definition quotas_ok :: "store \<Rightarrow> bool" where
  "quotas_ok st \<longleftrightarrow>
     isum is_hosted (store_index st) \<le> hosted_quota_bytes st + 40 \<and>
     (\<forall>who. isum (held_by who) (store_index st) \<le> hosted_principal_budget_bytes st + 40)"

lemma budget_quota [simp]:
  "hosted_principal_budget_bytes (st\<lparr>files := f\<rparr>) = hosted_principal_budget_bytes st"
  "hosted_principal_budget_bytes (st\<lparr>store_index := i\<rparr>) = hosted_principal_budget_bytes st"
  "hosted_principal_budget_bytes (st\<lparr>store_index := i, index_ok := ok\<rparr>) = hosted_principal_budget_bytes st"
  "hosted_principal_budget_bytes (st\<lparr>index_ok := ok\<rparr>) = hosted_principal_budget_bytes st"
  "hosted_principal_budget_bytes (st\<lparr>in_use := u\<rparr>) = hosted_principal_budget_bytes st"
  "hosted_principal_budget_bytes (st\<lparr>master_key := k, keys_on_disk := b\<rparr>) = hosted_principal_budget_bytes st"
  by (simp_all add: hosted_principal_budget_bytes_def)

lemma load_index_files [simp]: "load_index (st\<lparr>files := f\<rparr>) = load_index st"
  by (simp add: load_index_def)

lemma quotas_files [simp]: "quotas_ok (st\<lparr>files := f\<rparr>) = quotas_ok st"
  by (simp add: quotas_ok_def)

text \<open>Saving an index that counts no more than the one on disk keeps the quotas.\<close>

lemma save_quotas:
  assumes "quotas_ok st" and "\<And>P. P = is_hosted \<or> (\<exists>who. P = held_by who) \<Longrightarrow> isum P idx \<le> isum P (store_index st)"
  shows "quotas_ok (fst (save_index w idx st))"
proof -
  have "isum is_hosted idx \<le> hosted_quota_bytes st + 40"
    using assms(1) assms(2) [of is_hosted] by (simp add: quotas_ok_def)
  moreover have "isum (held_by who) idx \<le> hosted_principal_budget_bytes st + 40" for who
  proof -
    have "isum (held_by who) idx \<le> isum (held_by who) (store_index st)" by (rule assms(2)) blast
    then show ?thesis using assms(1) by (meson le_trans quotas_ok_def)
  qed
  ultimately show ?thesis using assms(1) by (simp add: save_index_def quotas_ok_def)
qed

lemma isum_empty [simp]: "isum P fmempty = 0"
  by (simp add: isum_def)

lemma isum_loaded: "isum P (load_index st) \<le> isum P (store_index st)"
  by (simp add: load_index_def)

lemma save_quotas_loaded:
  assumes "quotas_ok st" and "\<And>P. P = is_hosted \<or> (\<exists>who. P = held_by who) \<Longrightarrow> isum P idx \<le> isum P (load_index st)"
  shows "quotas_ok (fst (save_index w idx st))"
  using assms(1)
proof (rule save_quotas)
  show "isum P idx \<le> isum P (store_index st)" if "P = is_hosted \<or> (\<exists>who. P = held_by who)" for P
    using assms(2) [OF that] isum_loaded le_trans by blast
qed

lemma evict_loop_sub:
  "isum P (snd (evict_loop w r q es freed (fs, idx))) \<le> isum P idx"
proof (induction es arbitrary: freed fs idx)
  case (Cons ae es)
  obtain a e where "ae = (a, e)" by (cases ae)
  then show ?case using Cons [of "freed + size_bytes e" "remove_file w a fs" "fmdrop a idx"] isum_drop_le [of P a idx] by simp
qed simp

lemma evict_quotas: "quotas_ok st \<Longrightarrow> quotas_ok (fst (evict_if_needed_locked w n a st))"
proof -
  assume q: "quotas_ok st"
  obtain fs idx' where e: "evict_loop w (isum is_owned (load_index st) + n) (quota_bytes st)
      (evict_candidates w a (load_index st)) 0 (files st, load_index st) = (fs, idx')"
    by (metis surj_pair)
  have "isum P idx' \<le> isum P (load_index st)" for P
    using evict_loop_sub [of P w _ _ _ 0 "files st" "load_index st"] e by (metis snd_conv)
  then have "quotas_ok (fst (save_index w idx' (st\<lparr>files := fs\<rparr>)))" using q by (intro save_quotas_loaded) simp_all
  then show ?thesis using q e by (simp add: evict_if_needed_locked_def Let_def)
qed

lemma write_share_index:
  assumes "write_share X w key a p mk idx st = (st', r)"
  shows "st' = st \<or> (\<exists>blob. encrypt_share X (derive_file_key X key a) (nonce w) p = Inr blob \<and>
    st' = fst (save_index w (fmupd a (mk (length blob)) (idx st)) (st\<lparr>files := fmupd a (new_blob w blob) (files st)\<rparr>)))"
  using assms by (auto simp: write_share_def split: sum.splits if_splits prod.splits)

lemma put_quotas:
  assumes "quotas_ok st"
  shows "quotas_ok (fst (put X w s st))"
proof -
  have w: "quotas_ok (fst (write_share X w key a p (owned_entry w s) load_index st1))" if "quotas_ok st1" for key a p st1
  proof -
    obtain st' r where o: "write_share X w key a p (owned_entry w s) load_index st1 = (st', r)" by (metis surj_pair)
    from write_share_index [OF o] show ?thesis
    proof
      assume "\<exists>blob. encrypt_share X (derive_file_key X key a) (nonce w) p = Inr blob \<and>
        st' = fst (save_index w (fmupd a (owned_entry w s (length blob)) (load_index st1))
          (st1\<lparr>files := fmupd a (new_blob w blob) (files st1)\<rparr>))"
      then obtain blob where "st' = fst (save_index w (fmupd a (owned_entry w s (length blob)) (load_index st1))
          (st1\<lparr>files := fmupd a (new_blob w blob) (files st1)\<rparr>))" by blast
      moreover have "isum P (fmupd a (owned_entry w s n) (load_index st1)) \<le> isum P (load_index st1)"
        if "P = is_hosted \<or> (\<exists>who. P = held_by who)" for P n
        using that isum_drop_le [of P a "load_index st1"]
        by (auto simp: isum_upd owned_entry_def is_hosted_def held_by_def)
      ultimately show ?thesis using that o by (simp add: save_quotas_loaded)
    qed (use that o in simp)
  qed
  show ?thesis
    unfolding put_def using assms w evict_quotas [OF assms, of w]
    by (auto split: option.splits sum.splits prod.splits) (metis fst_conv)+
qed

text \<open>What the guards of a hosted put establish before anything is written.\<close>

lemma hosted_room:
  assumes "fmpred (\<lambda>_ e. hosted_at k e \<longrightarrow> owned_by_caller who e) idx"
    and "isum is_hosted idx - isum (hosted_at k) idx + n \<le> quota"
    and "isum (held_by who) idx - isum (hosted_at k) idx + n \<le> budget"
  shows "isum is_hosted (fmretain (\<lambda>_ e. \<not> hosted_at k e) idx) + n \<le> quota"
    and "isum (held_by who) (fmretain (\<lambda>_ e. \<not> hosted_at k e) idx) + n \<le> budget"
    and "isum (held_by other) (fmretain (\<lambda>_ e. \<not> hosted_at k e) idx) \<le> isum (held_by other) idx"
proof -
  have all: "isum (\<lambda>e. is_hosted e \<and> hosted_at k e) idx = isum (hosted_at k) idx"
    by (rule isum_cong) (auto simp: hosted_at_def weight_def split: option.splits)
  have "isum (\<lambda>e. held_by who e \<and> hosted_at k e) idx = isum (hosted_at k) idx"
  proof (rule isum_cong)
    fix a
    show "weight (\<lambda>e. held_by who e \<and> hosted_at k e) (fmlookup idx a) = weight (hosted_at k) (fmlookup idx a)"
      using fmpredD [OF assms(1), of a]
      by (auto simp: weight_def held_by_def hosted_at_def owned_by_caller_def split: option.splits)
  qed
  then show "isum is_hosted (fmretain (\<lambda>_ e. \<not> hosted_at k e) idx) + n \<le> quota"
    and "isum (held_by who) (fmretain (\<lambda>_ e. \<not> hosted_at k e) idx) + n \<le> budget"
    using assms(2,3) all isum_retain [of is_hosted idx "hosted_at k"] isum_retain [of "held_by who" idx "hosted_at k"]
    by simp_all
  show "isum (held_by other) (fmretain (\<lambda>_ e. \<not> hosted_at k e) idx) \<le> isum (held_by other) idx"
    using isum_retain [of "held_by other" idx "hosted_at k"] by simp
qed

lemma put_hosted_cases:
  assumes "put_hosted_inner X w s who st = (st', r)"
  obtains (kept) "st' = st"
  | (stored) key p a fs where "master_key st = Some key" "to_bytes X s = Some p" "address_of X s = Inr a" "a |\<notin>| fmdom (load_index st)"
      "fmpred (\<lambda>_ e. hosted_at (piece_of s) e \<longrightarrow> owned_by_caller who e) (load_index st)"
      "isum is_hosted (load_index st) - isum (hosted_at (piece_of s)) (load_index st) + length p \<le> hosted_quota_bytes st"
      "isum (held_by who) (load_index st) - isum (hosted_at (piece_of s)) (load_index st) + length p \<le>
        hosted_principal_budget_bytes st"
      "fs = fmfilter (\<lambda>b. \<not> (file_remove_ok w b \<and>
         (case fmlookup (load_index st) b of None \<Rightarrow> False | Some e \<Rightarrow> hosted_at (piece_of s) e))) (files st)"
      "st' = fst (write_share X w key a p (hosted_entry w who s)
         (\<lambda>_. fmretain (\<lambda>_ e. \<not> hosted_at (piece_of s) e) (load_index st)) (st\<lparr>files := fs\<rparr>))"
proof -
  let ?idx = "load_index st" and ?k = "piece_of s"
  have h: "(\<lambda>e. is_hosted e \<and> hosted_principal e = who) = held_by who" by (auto simp: held_by_def)
  consider (none) "master_key st = None \<or> isl (address_of X s) \<or> to_bytes X s = None"
    | (some) key p a where "master_key st = Some key" "to_bytes X s = Some p" "address_of X s = Inr a"
    by (cases "master_key st"; cases "to_bytes X s"; cases "address_of X s") auto
  then show ?thesis
  proof cases
    case none
    then have "st' = st" using assms by (auto simp: put_hosted_inner_def split: option.splits sum.splits)
    then show ?thesis by (rule kept)
  next
    case (some key p a)
    define refuse where "refuse \<longleftrightarrow> a |\<in>| fmdom ?idx \<or> \<not> fmpred (\<lambda>_ e. hosted_at ?k e \<longrightarrow> owned_by_caller who e) ?idx \<or>
      hosted_quota_bytes st < isum is_hosted ?idx - isum (hosted_at ?k) ?idx + length p \<or>
      hosted_principal_budget_bytes st < isum (held_by who) ?idx - isum (hosted_at ?k) ?idx + length p"
    show ?thesis
    proof (cases refuse)
      case True
      then have "fst (put_hosted_inner X w s who st) = st"
        unfolding put_hosted_inner_def Let_def h by (auto simp: some refuse_def)
      then show ?thesis using assms kept by simp
    next
      case False
      then have "fst (put_hosted_inner X w s who st) = fst (write_share X w key a p (hosted_entry w who s)
          (\<lambda>_. fmretain (\<lambda>_ e. \<not> hosted_at ?k e) ?idx) (st\<lparr>files := fmfilter (\<lambda>b. \<not> (file_remove_ok w b \<and>
            (case fmlookup ?idx b of None \<Rightarrow> False | Some e \<Rightarrow> hosted_at ?k e))) (files st)\<rparr>))"
        unfolding put_hosted_inner_def Let_def h by (simp add: some refuse_def split: prod.split sum.split)
      then show ?thesis using assms some False unfolding refuse_def by (intro stored [OF some]) (simp_all add: not_less)
    qed
  qed
qed

lemma put_hosted_quotas:
  assumes "quotas_ok st" and "xcipher_ok X" and "io_ok w"
  shows "quotas_ok (fst (put_hosted_inner X w s who st))"
proof -
  obtain st' r where o: "put_hosted_inner X w s who st = (st', r)" by (metis surj_pair)
  from o show ?thesis
  proof (cases rule: put_hosted_cases)
    case kept
    then show ?thesis using assms(1) o by simp
  next
    case (stored key p a fs)
    let ?idx = "fmretain (\<lambda>_ e. \<not> hosted_at (piece_of s) e) (load_index st)"
    obtain r' where "write_share X w key a p (hosted_entry w who s) (\<lambda>_. ?idx) (st\<lparr>files := fs\<rparr>) = (st', r')"
      using stored(9) by (metis prod.collapse)
    from write_share_index [OF this] consider "st' = st\<lparr>files := fs\<rparr>" | blob fs' where
      "encrypt_share X (derive_file_key X key a) (nonce w) p = Inr blob"
      "st' = fst (save_index w (fmupd a (hosted_entry w who s (length blob)) ?idx) (st\<lparr>files := fs'\<rparr>))"
      by auto
    then have "quotas_ok st'"
    proof cases
      case 1
      then show ?thesis using assms(1) by simp
    next
      case 2
      have len: "length blob = length p + 40" using encrypt_share_length [OF assms(2,3) 2(1)] .
      note room = hosted_room [OF stored(5,6,7)]
      have new: "isum P (fmupd a (hosted_entry w who s (length blob)) ?idx) \<le>
          isum P ?idx + (if P (hosted_entry w who s (length blob)) then length p + 40 else 0)" for P
        using isum_drop_le [of P a ?idx] len by (simp add: isum_upd hosted_entry_def)
      have "isum is_hosted (fmupd a (hosted_entry w who s (length blob)) ?idx) \<le> hosted_quota_bytes st + 40"
        using new [of is_hosted] room(1) by (simp add: is_hosted_def hosted_entry_def)
      moreover have "isum (held_by other) (fmupd a (hosted_entry w who s (length blob)) ?idx) \<le>
          hosted_principal_budget_bytes st + 40" for other
      proof (cases "other = who")
        case True
        then show ?thesis using new [of "held_by who"] room(2) by (simp add: held_by_def is_hosted_def hosted_entry_def)
      next
        case False
        then have "\<not> held_by other (hosted_entry w who s (length blob))" by (simp add: held_by_def hosted_entry_def)
        then have "isum (held_by other) (fmupd a (hosted_entry w who s (length blob)) ?idx) \<le> isum (held_by other) ?idx"
          using new [of "held_by other"] by simp
        also have "\<dots> \<le> isum (held_by other) (store_index st)" using room(3) isum_loaded le_trans by blast
        also have "\<dots> \<le> hosted_principal_budget_bytes st + 40" using assms(1) by (simp add: quotas_ok_def)
        finally show ?thesis .
      qed
      ultimately show ?thesis using 2(2) assms(1) by (auto simp: save_index_def quotas_ok_def)
    qed
    then show ?thesis using o by simp
  qed
qed

section \<open>Every operation\<close>

datatype store_op =
    OpPut io miasma_share
  | OpPutHosted io miasma_share "bytes option"
  | OpGet io bytes
  | OpSearch "nat \<Rightarrow> io" bytes
  | OpFindPiece io store_index bytes u32 u16
  | OpDelete io bytes
  | OpDeleteShares io share_selection
  | OpSetInUse "bytes set"
  | OpWipe bool
  | OpIndexReadable bool

text \<open>\<open>OpIndexReadable\<close> is no call: from then on the index document can, or cannot, be read.\<close>

fun store_step :: "sext \<Rightarrow> store \<Rightarrow> store_op \<Rightarrow> store" where
  "store_step X st (OpPut w s) = (if io_ok w then fst (put X w s st) else st)"
| "store_step X st (OpPutHosted w s who) = (if io_ok w then fst (put_hosted_inner X w s who st) else st)"
| "store_step X st (OpGet w a) = (if io_ok w then fst (get X w a st) else st)"
| "store_step X st (OpSearch ws prefix) = (if \<forall>i. io_ok (ws i) then fst (search_by_mid_prefix X ws prefix st) else st)"
| "store_step X st (OpFindPiece w cached prefix seg slot) =
     (if io_ok w then fst (find_piece X w cached prefix seg slot st) else st)"
| "store_step X st (OpDelete w a) = (if io_ok w then fst (delete w a st) else st)"
| "store_step X st (OpDeleteShares w sel) = (if io_ok w then fst (delete_shares w sel st) else st)"
| "store_step X st (OpSetInUse as) = set_in_use_shares as st"
| "store_step X st (OpWipe erased) = fst (distress_wipe erased st)"
| "store_step X st (OpIndexReadable ok) = st\<lparr>index_ok := ok\<rparr>"

lemma touch_quotas: "quotas_ok st \<Longrightarrow> quotas_ok (touch w a (load_index st) st)"
proof -
  assume q: "quotas_ok st"
  have "isum P (fmupd a (e\<lparr>last_accessed := t\<rparr>) (load_index st)) = isum P (load_index st)"
    if "fmlookup (load_index st) a = Some e" "P = is_hosted \<or> (\<exists>who. P = held_by who)" for P e t
    by (rule isum_cong) (use that in \<open>auto simp: is_hosted_def held_by_def\<close>)
  then have "quotas_ok (fst (save_index w (fmupd a (e\<lparr>last_accessed := t\<rparr>) (load_index st)) st))"
    if "fmlookup (load_index st) a = Some e" for e t
    using q that by (intro save_quotas_loaded) (metis order_refl)+
  then show ?thesis using q by (simp add: touch_def split: option.split)
qed

lemma get_quotas: "quotas_ok st \<Longrightarrow> quotas_ok (fst (get X w a st))"
  using touch_quotas by (simp add: get_def split: sum.split)

lemma search_quotas: "quotas_ok st \<Longrightarrow> quotas_ok (fst (search_loop X ws prefix i as st))"
proof (induction as arbitrary: i st)
  case (Cons a as)
  obtain st' r where g: "get X (ws i) a st = (st', r)" by (metis surj_pair)
  then have "quotas_ok (fst (search_loop X ws prefix (Suc i) as st'))"
    using Cons.IH get_quotas [OF Cons.prems, of X "ws i" a] by simp
  then show ?case using g by (cases "search_loop X ws prefix (Suc i) as st'") simp
qed simp

definition same_weight :: "store_index \<Rightarrow> store_index \<Rightarrow> bool" where
  "same_weight m n \<longleftrightarrow> (\<forall>P. P = is_hosted \<or> (\<exists>who. P = held_by who) \<longrightarrow> isum P m = isum P n)"

lemma backfill_weight: "same_weight (fst (backfill_loop X want st as (idx, found, changed))) idx"
proof (induction as arbitrary: idx found changed)
  case (Cons a as)
  have one: "same_weight (fmupd a (e\<lparr>piece := p\<rparr>) idx) idx" if "fmlookup idx a = Some e" for e p
    unfolding same_weight_def
    by (intro allI impI isum_cong) (use that in \<open>auto simp: is_hosted_def held_by_def\<close>)
  then show ?case
    using Cons unfolding same_weight_def by (auto split: sum.split option.split)
qed (simp add: same_weight_def)

lemma find_piece_quotas: "quotas_ok st \<Longrightarrow> quotas_ok (fst (find_piece X w cached prefix seg slot st))"
proof -
  assume q: "quotas_ok st"
  have "quotas_ok (fst (backfill_pieces X w want st))" for want
    using q backfill_weight [of X want st _ "load_index st" None False]
    by (auto simp: backfill_pieces_def Let_def same_weight_def split: prod.split intro!: save_quotas_loaded) (metis fst_conv le_refl)+
  then show ?thesis using q by (simp add: find_piece_def Let_def split: option.split)
qed

lemma delete_loop_sub:
  "isum P (ds_index (fold (delete_one w used) as d)) \<le> isum P (ds_index d)"
proof (induction as arbitrary: d)
  case (Cons a as)
  have "isum P (ds_index (delete_one w used a d)) \<le> isum P (ds_index d)"
    using isum_drop_le by (simp add: delete_one_def skip_share_def split: option.split)
  then show ?case using Cons le_trans by fastforce
qed simp

lemma delete_shares_quotas: "quotas_ok st \<Longrightarrow> quotas_ok (fst (delete_shares w sel st))"
proof -
  assume q: "quotas_ok st"
  have "quotas_ok (fst (save_index w (ds_index (fold (delete_one w (in_use st)) as
      \<lparr>ds_files = files st, ds_index = load_index st, ds_outcome = out, ds_error = False\<rparr>)) (st\<lparr>files := fs\<rparr>)))" for as out fs
    using q delete_loop_sub [of _ w "in_use st" as "\<lparr>ds_files = files st, ds_index = load_index st, ds_outcome = out, ds_error = False\<rparr>"]
    by (intro save_quotas_loaded) simp_all
  then show ?thesis using q by (auto simp: delete_shares_def Let_def split: prod.split sum.split) (metis fst_conv)+
qed

interpretation share_store: machine "store_step X" "\<lambda>st. quotas_ok st \<and> xcipher_ok X" for X
proof
  fix st op
  assume "quotas_ok st \<and> xcipher_ok X"
  moreover have "quotas_ok (fst (delete w a st))" if "quotas_ok st" for w a
    unfolding delete_def using that by (intro save_quotas_loaded) (simp_all add: isum_drop_le)
  moreover have "quotas_ok (set_in_use_shares as st)" "quotas_ok (fst (distress_wipe b st))" if "quotas_ok st" for as b
    using that by (simp_all add: set_in_use_shares_def distress_wipe_def quotas_ok_def)
  moreover have "quotas_ok (st\<lparr>index_ok := ok\<rparr>) = quotas_ok st" for ok by (simp add: quotas_ok_def)
  ultimately have "quotas_ok (store_step X st op) \<and> xcipher_ok X"
    by (cases op)
      (simp_all add: put_quotas put_hosted_quotas get_quotas search_quotas search_by_mid_prefix_def find_piece_quotas
        delete_shares_quotas)
  then show "quotas_ok (store_step X st op) \<and> xcipher_ok X" by simp
qed

section \<open>What operations leave alone\<close>

definition config :: "store \<Rightarrow> bytes option \<times> bool \<times> nat \<times> nat" where
  "config st = (master_key st, keys_on_disk st, quota_bytes st, hosted_quota_bytes st)"

lemma save_config [simp]: "config (fst (save_index w idx st)) = config st"
  by (simp add: save_index_def config_def)

lemma config_files [simp]: "config (st\<lparr>files := f\<rparr>) = config st"
  by (simp add: config_def)

lemma evict_config [simp]: "config (fst (evict_if_needed_locked w n a st)) = config st"
  by (simp add: evict_if_needed_locked_def Let_def split: prod.split)

lemma write_config [simp]: "config (fst (write_share X w key a p mk idx st)) = config st"
proof -
  obtain st' r where o: "write_share X w key a p mk idx st = (st', r)" by (metis surj_pair)
  from write_share_index [OF o] show ?thesis using o by auto
qed

lemma put_config: "config (fst (put X w s st)) = config st"
proof -
  have "config st' = config st" if "evict_if_needed_locked w n a st = (st', r)" for n a st' r
    using evict_config [of w n a st] that by simp
  then show ?thesis
    by (auto simp: put_def split: option.splits sum.splits prod.splits)
qed

lemma put_hosted_config: "config (fst (put_hosted_inner X w s who st)) = config st"
proof -
  obtain st' r where o: "put_hosted_inner X w s who st = (st', r)" by (metis surj_pair)
  from o show ?thesis by (cases rule: put_hosted_cases) (use o in simp_all)
qed

lemma get_config: "config (fst (get X w a st)) = config st"
  by (simp add: get_def touch_def split: sum.split option.split)

lemma search_config: "config (fst (search_loop X ws prefix i as st)) = config st"
proof (induction as arbitrary: i st)
  case (Cons a as)
  obtain st' r where g: "get X (ws i) a st = (st', r)" by (metis surj_pair)
  then have "config st' = config st" using get_config [of X "ws i" a st] by simp
  then show ?case using g Cons [of "Suc i" st'] by (cases "search_loop X ws prefix (Suc i) as st'") simp
qed simp

lemma find_piece_config: "config (fst (find_piece X w cached prefix seg slot st)) = config st"
  by (simp add: find_piece_def backfill_pieces_def Let_def split: option.split prod.split)

lemma delete_shares_config: "config (fst (delete_shares w sel st)) = config st"
proof -
  obtain t sk where "delete_targets w sel st = (t, sk)" by (metis surj_pair)
  then show ?thesis by (simp add: delete_shares_def Let_def save_index_def config_def)
qed

lemma step_config:
  "config (store_step X st op) =
     (case op of OpWipe erased \<Rightarrow> (None, keys_on_disk st \<and> \<not> erased, quota_bytes st, hosted_quota_bytes st) | _ \<Rightarrow> config st)"
  by (cases op)
    (simp_all add: put_config put_hosted_config get_config search_config search_by_mid_prefix_def find_piece_config
      delete_shares_config delete_def, simp_all add: config_def set_in_use_shares_def distress_wipe_def)

lemma step_quota: "hosted_quota_bytes (store_step X st op) = hosted_quota_bytes st"
  using step_config [of X st op] by (cases op) (simp_all add: config_def)

lemma run_quota: "hosted_quota_bytes (foldl (store_step X) st ops) = hosted_quota_bytes st"
  by (induction ops arbitrary: st) (simp_all add: step_quota)

text \<open>
  C14: Peers cannot exceed their quotas in the index. Through every sequence of operations on the store, with any failures
  of the file system, also of reading the index, the shares the index lists as hosted for others stay within the hosted
  quota and those of each single peer within its share of it; both can be exceeded by the 40 bytes of encryption overhead
  of one blob, which the check does not count. Files that lost their entry are not counted.
\<close>

theorem hosted_quotas_hold:
  assumes "xcipher_ok X" and "store_index st = fmempty"
  shows "used_hosted_bytes (foldl (store_step X) st ops) \<le> hosted_quota_bytes st + 40 \<and>
    isum (held_by who) (load_index (foldl (store_step X) st ops)) \<le> hosted_principal_budget_bytes st + 40"
proof -
  have "isum P fmempty = 0" for P by (simp add: isum_def)
  then have "quotas_ok st" using assms(2) by (simp add: quotas_ok_def)
  then have ok: "quotas_ok (foldl (store_step X) st ops)" using share_store.inv_run assms(1) by blast
  have "isum is_hosted (store_index (foldl (store_step X) st ops)) \<le> hosted_quota_bytes st + 40"
    using ok run_quota by (simp add: quotas_ok_def)
  moreover have "isum (held_by who) (store_index (foldl (store_step X) st ops)) \<le> hosted_principal_budget_bytes st + 40"
    using ok run_quota [of X st ops] by (simp add: quotas_ok_def hosted_principal_budget_bytes_def)
  ultimately show ?thesis unfolding used_hosted_bytes_def using isum_loaded le_trans by blast
qed

section \<open>The wipe\<close>

definition wiped :: "store \<Rightarrow> bool" where
  "wiped st \<longleftrightarrow> master_key st = None"

interpretation wiping: machine "store_step X" wiped for X
proof
  show "wiped (store_step X st op)" if "wiped st" for st op
    using step_config [of X st op] that by (cases op) (auto simp: config_def wiped_def)
qed

text \<open>
  C23: After a distress wipe, also one that could not erase the key files, the store is closed for good: whatever
  is called afterwards, no share can be read, stored or accepted from a peer.
\<close>

theorem wiped_store_stays_closed:
  "let st = foldl (store_step X) (fst (distress_wipe erased st0)) ops in
   get X w a st = (st, Inl Storage) \<and> put X w s st = (st, Inl Storage) \<and>
   put_hosted_inner X w s who st = (st, Inl (StoreError Storage))"
proof -
  have "wiped (fst (distress_wipe erased st0))" by (simp add: wiped_def distress_wipe_def)
  then have "wiped (foldl (store_step X) (fst (distress_wipe erased st0)) ops)" by (rule wiping.inv_run)
  then show ?thesis
    by (simp add: Let_def wiped_def get_def get_untouched_def put_def put_hosted_inner_def)
qed

section \<open>Hosted shares of others\<close>

lemma save_lookup:
  assumes "fmlookup idx a = fmlookup (load_index st) a"
  shows "fmlookup (load_index (fst (save_index w idx st))) a = fmlookup (load_index st) a"
  using assms by (auto simp: save_index_def load_index_def)

lemma save_files [simp]: "files (fst (save_index w idx st)) = files st"
  by (simp add: save_index_def)

lemma write_share_others:
  assumes "fmlookup (idx st) b = fmlookup (load_index st) b" and "b \<noteq> a"
  shows "fmlookup (load_index (fst (write_share X w key a p mk idx st))) b = fmlookup (load_index st) b"
    and "fmlookup (files (fst (write_share X w key a p mk idx st))) b = fmlookup (files st) b"
proof -
  obtain st' r where o: "write_share X w key a p mk idx st = (st', r)" by (metis surj_pair)
  have "fmlookup (load_index st') b = fmlookup (load_index st) b \<and> fmlookup (files st') b = fmlookup (files st) b"
    using write_share_index [OF o]
  proof
    assume "\<exists>blob. encrypt_share X (derive_file_key X key a) (nonce w) p = Inr blob \<and>
      st' = fst (save_index w (fmupd a (mk (length blob)) (idx st)) (st\<lparr>files := fmupd a (new_blob w blob) (files st)\<rparr>))"
    then obtain blob where
      e: "st' = fst (save_index w (fmupd a (mk (length blob)) (idx st)) (st\<lparr>files := fmupd a (new_blob w blob) (files st)\<rparr>))"
      by blast
    show ?thesis
      unfolding e using save_lookup [of "fmupd a (mk (length blob)) (idx st)" b
          "st\<lparr>files := fmupd a (new_blob w blob) (files st)\<rparr>" w] assms by simp
  qed simp
  then show "fmlookup (load_index (fst (write_share X w key a p mk idx st))) b = fmlookup (load_index st) b"
    and "fmlookup (files (fst (write_share X w key a p mk idx st))) b = fmlookup (files st) b"
    using o by simp_all
qed

lemma write_share_stored:
  assumes "write_share X w key a p mk idx st = (st', Inr b)"
  obtains blob where "encrypt_share X (derive_file_key X key a) (nonce w) p = Inr blob"
    and "load_index st' = fmupd a (mk (length blob)) (idx st)" and "files st' = fmupd a (new_blob w blob) (files st)"
    and "config st' = config st"
  using assms by (auto simp: write_share_def save_index_def load_index_def config_def split: sum.splits if_splits prod.splits)

text \<open>A push that finds an index it can read keeps the entries and files of others; a push that does not, forgets them.\<close>

lemma push_keeps_entry:
  assumes "put_hosted_inner X w s who st = (st', r)" and "fmlookup (load_index st) a = Some e"
    and "\<not> (hosted_at (piece_of s) e \<and> owned_by_caller who e)"
  shows "fmlookup (load_index st') a = Some e \<and> fmlookup (files st') a = fmlookup (files st) a"
  using assms(1)
proof (cases rule: put_hosted_cases)
  case (stored key p b fs)
  have ab: "a \<noteq> b" using stored(4) assms(2) by (metis fmdom_notI fmlookup_None_iff option.distinct(1))
  have keep: "\<not> hosted_at (piece_of s) e" using fmpredD [OF stored(5) assms(2)] assms(3) by blast
  have "fmlookup (fmretain (\<lambda>_ e. \<not> hosted_at (piece_of s) e) (load_index st)) a = fmlookup (load_index (st\<lparr>files := fs\<rparr>)) a"
    using assms(2) keep by simp
  moreover have "fmlookup fs a = fmlookup (files st) a" using assms(2) keep by (simp add: stored(8))
  ultimately show ?thesis
    using write_share_others [where st = "st\<lparr>files := fs\<rparr>" and b = a and a = b] ab assms(2)
    unfolding stored(9) by simp
qed (use assms(2) in simp)

lemma push_without_index:
  assumes "put_hosted_inner X w s who st = (st', Inr b)" and "load_index st = fmempty"
  shows "fmdom (load_index st') = {|b|} \<and> fmdrop b (files st') = fmdrop b (files st) \<and> contains_share b st'"
  using assms
  by (auto simp: put_hosted_inner_def Let_def write_share_def save_index_def load_index_def contains_share_def fmdrop_fmupd_same
      split: option.splits sum.splits if_splits prod.splits)

lemma push_error_index:
  assumes "put_hosted_inner X w s who st = (st', Inl err)"
  shows "store_index st' = store_index st \<and> (\<forall>x. err = Refused x \<longrightarrow> st' = st)"
  using assms
  by (auto simp: put_hosted_inner_def write_share_def save_index_def Let_def split: option.splits sum.splits if_splits prod.splits)

text \<open>
  C21: What a push from a peer does to a share of someone else, one that is not an older generation of the same piece
  that the same, known peer had pushed. When the index can be read, the share's entry and file stay as they are,
  whatever the outcome. When it cannot, an accepted push writes an index that lists the pushed share alone: all other
  shares keep their files, but no longer have an entry, so that nothing counts, lists or finds them. A failed push leaves
  the index document as it was, and a refused one changes nothing at all.
\<close>

theorem push_spares_others:
  assumes "keys_on_disk st" and "fmlookup (store_index st) a = Some e" and "\<not> (hosted_at (piece_of s) e \<and> owned_by_caller who e)"
  shows "case put_hosted_inner X w s who st of (st', r) \<Rightarrow>
    (if index_ok st then fmlookup (load_index st') a = Some e \<and> fmlookup (files st') a = fmlookup (files st) a
     else case r of
       Inr b \<Rightarrow> fmdom (load_index st') = {|b|} \<and> fmdrop b (files st') = fmdrop b (files st) \<and> contains_share b st'
     | Inl err \<Rightarrow> True) \<and>
    (case r of Inl (Refused _) \<Rightarrow> st' = st | Inl _ \<Rightarrow> store_index st' = store_index st | Inr _ \<Rightarrow> True)"
proof -
  obtain st' r where o: "put_hosted_inner X w s who st = (st', r)" by (metis surj_pair)
  have "fmlookup (load_index st') a = Some e \<and> fmlookup (files st') a = fmlookup (files st) a" if "index_ok st"
    using push_keeps_entry [OF o _ assms(3)] assms(1,2) that by (simp add: load_index_def)
  moreover have "load_index st = fmempty" if "\<not> index_ok st" using that by (simp add: load_index_def)
  ultimately show ?thesis
    using o push_without_index [of X w s who st st'] push_error_index [of X w s who st st']
    by (auto split: sum.split hosted_put_error.split)
qed

section \<open>Eviction\<close>

text \<open>Eviction removes a prefix of its candidates, up to the point where the rest fits.\<close>

lemma evict_loop_prefix:
  assumes "evict_loop w r q es freed (fs, idx) = (fs', idx')"
  obtains n where "n \<le> length es" and "idx' = fmdrop_set (fst ` set (take n es)) idx"
    and "\<And>a. a \<notin> fst ` set (take n es) \<Longrightarrow> fmlookup fs' a = fmlookup fs a"
    and "n = length es \<or> r - (freed + sum_list (map (size_bytes \<circ> snd) (take n es))) \<le> q"
proof -
  have "\<exists>n\<le>length es. idx' = fmdrop_set (fst ` set (take n es)) idx \<and>
    (\<forall>a. a \<notin> fst ` set (take n es) \<longrightarrow> fmlookup fs' a = fmlookup fs a) \<and>
    (n = length es \<or> r - (freed + sum_list (map (size_bytes \<circ> snd) (take n es))) \<le> q)"
    using assms
  proof (induction es arbitrary: freed fs idx)
    case (Cons ae es)
    obtain a e where ae: "ae = (a, e)" by (cases ae)
    show ?case
    proof (cases "r - freed \<le> q")
      case True
      then show ?thesis using Cons.prems ae by (intro exI [of _ 0]) simp
    next
      case False
      then have "evict_loop w r q es (freed + size_bytes e) (remove_file w a fs, fmdrop a idx) = (fs', idx')"
        using Cons.prems ae by simp
      from Cons.IH [OF this] obtain n where n: "n \<le> length es" "idx' = fmdrop_set (fst ` set (take n es)) (fmdrop a idx)"
        "\<forall>b. b \<notin> fst ` set (take n es) \<longrightarrow> fmlookup fs' b = fmlookup (remove_file w a fs) b"
        "n = length es \<or> r - (freed + size_bytes e + sum_list (map (size_bytes \<circ> snd) (take n es))) \<le> q"
        by blast
      moreover have "fmdrop_set (fst ` set (take n es)) (fmdrop a idx) = fmdrop_set (fst ` set (take (Suc n) (ae # es))) idx"
        by (rule fmap_ext) (simp add: ae)
      moreover have "fmlookup (remove_file w a fs) b = fmlookup fs b" if "b \<noteq> a" for b
        using that by (simp add: remove_file_def)
      ultimately show ?thesis using ae by (intro exI [of _ "Suc n"]) (auto simp: add.assoc comp_def)
    qed
  qed simp
  then show ?thesis using that by blast
qed

lemma isum_drop_set:
  assumes "distinct (map fst es)" and "\<And>a e. (a, e) \<in> set es \<Longrightarrow> fmlookup idx a = Some e \<and> P e"
  shows "isum P idx = isum P (fmdrop_set (fst ` set es) idx) + sum_list (map (size_bytes \<circ> snd) es)"
  using assms
proof (induction es arbitrary: idx)
  case (Cons ae es)
  obtain a e where ae: "ae = (a, e)" by (cases ae)
  have a: "fmlookup idx a = Some e" "P e" using Cons.prems(2) [of a e] ae by auto
  have "isum P (fmdrop a idx) = isum P (fmdrop_set (fst ` set es) (fmdrop a idx)) + sum_list (map (size_bytes \<circ> snd) es)"
  proof (rule Cons.IH)
    show "distinct (map fst es)" using Cons.prems(1) by simp
    show "fmlookup (fmdrop a idx) b = Some f \<and> P f" if "(b, f) \<in> set es" for b f
      using Cons.prems(2) [of b f] Cons.prems(1) that ae by force
  qed
  moreover have "fmdrop_set (fst ` set es) (fmdrop a idx) = fmdrop_set (fst ` set (ae # es)) idx"
    by (rule fmap_ext) (simp add: ae)
  ultimately show ?case using isum_drop [of P idx a] a ae by (simp add: comp_def)
qed simp

lemma candidates:
  assumes "io_ok w"
  shows "distinct (map fst (evict_candidates w skip idx))" and "sorted (map (last_accessed \<circ> snd) (evict_candidates w skip idx))"
    and "(a, e) \<in> set (evict_candidates w skip idx) \<longleftrightarrow> fmlookup idx a = Some e \<and> a \<noteq> skip \<and> is_owned e"
proof -
  let ?es = "filter (\<lambda>(a, e). a \<noteq> skip \<and> is_owned e) (iter w idx)"
  have "distinct (map fst ?es)" using assms by (simp add: io_ok_def distinct_map_filter)
  moreover have "mset (map fst (evict_candidates w skip idx)) = mset (map fst ?es)" by (simp add: evict_candidates_def)
  ultimately show "distinct (map fst (evict_candidates w skip idx))" using mset_eq_imp_distinct_iff by blast
  have "(\<lambda>(a, e). last_accessed e) = (last_accessed \<circ> snd :: bytes \<times> index_entry \<Rightarrow> u64)" by auto
  then show "sorted (map (last_accessed \<circ> snd) (evict_candidates w skip idx))"
    using sorted_sort_key [of "last_accessed \<circ> snd" ?es] by (simp add: evict_candidates_def)
  show "(a, e) \<in> set (evict_candidates w skip idx) \<longleftrightarrow> fmlookup idx a = Some e \<and> a \<noteq> skip \<and> is_owned e"
    using assms by (auto simp: evict_candidates_def io_ok_def)
qed

lemma sorted_prefix_le:
  assumes "sorted (map f es)" and "x \<in> set (take n es)" and "y \<in> set (drop n es)"
  shows "f x \<le> f y"
proof -
  have "sorted (map f (take n es) @ map f (drop n es))" using assms(1) by (simp flip: map_append)
  then show ?thesis using assms(2,3) by (auto simp: sorted_append)
qed

text \<open>What eviction leaves, when it succeeds.\<close>

definition evicted_ok :: "io \<Rightarrow> nat \<Rightarrow> bytes \<Rightarrow> store \<Rightarrow> store \<Rightarrow> bool" where
  "evicted_ok w needed skip st st' \<longleftrightarrow>
     isum is_owned (fmdrop skip (load_index st')) + needed \<le> max (quota_bytes st) needed \<and>
     (\<forall>b e. fmlookup (load_index st') b = Some e \<longrightarrow> fmlookup (load_index st) b = Some e) \<and>
     (\<forall>b e. fmlookup (load_index st) b = Some e \<longrightarrow> b = skip \<or> is_hosted e \<longrightarrow>
        fmlookup (load_index st') b = Some e \<and> fmlookup (files st') b = fmlookup (files st) b) \<and>
     (\<forall>b e c f. fmlookup (load_index st) b = Some e \<longrightarrow> fmlookup (load_index st') b = None \<longrightarrow>
        fmlookup (load_index st') c = Some f \<longrightarrow> c \<noteq> skip \<longrightarrow> is_owned f \<longrightarrow> last_accessed e \<le> last_accessed f)"

lemma evict_spec:
  assumes "io_ok w" and "evict_if_needed_locked w needed skip st = (st', Inr ())"
  shows "evicted_ok w needed skip st st'"
proof (cases "isum is_owned (load_index st) + needed \<le> quota_bytes st")
  case True
  then have "st' = st" using assms(2) by (simp add: evict_if_needed_locked_def Let_def)
  then show ?thesis using True isum_drop_le [of is_owned skip "load_index st"] by (auto simp: evicted_ok_def)
next
  case False
  define es where "es = evict_candidates w skip (load_index st)"
  note c = candidates [OF assms(1), where skip = skip and idx = "load_index st", folded es_def]
  obtain fs idx' where loop: "evict_loop w (isum is_owned (load_index st) + needed) (quota_bytes st) es 0 (files st, load_index st) = (fs, idx')"
    by (metis surj_pair)
  then have st': "save_index w idx' (st\<lparr>files := fs\<rparr>) = (st', Inr ())"
    using False assms(2) by (simp add: evict_if_needed_locked_def Let_def es_def)
  then have load: "load_index st' = idx'" "files st' = fs" by (auto simp: save_index_def load_index_def split: if_splits)
  from loop obtain n where n: "n \<le> length es" "idx' = fmdrop_set (fst ` set (take n es)) (load_index st)"
    "\<And>a. a \<notin> fst ` set (take n es) \<Longrightarrow> fmlookup fs a = fmlookup (files st) a"
    "n = length es \<or> isum is_owned (load_index st) + needed - sum_list (map (size_bytes \<circ> snd) (take n es)) \<le> quota_bytes st"
    by (rule evict_loop_prefix) simp
  have gone: "b \<in> fst ` set (take n es) \<Longrightarrow> b \<noteq> skip \<and> (\<exists>e. fmlookup (load_index st) b = Some e \<and> is_owned e \<and> (b, e) \<in> set (take n es))" for b
  proof -
    assume "b \<in> fst ` set (take n es)"
    then obtain e where "(b, e) \<in> set (take n es)" by auto
    then show ?thesis using c(3) in_set_takeD by metis
  qed
  have room: "isum is_owned (fmdrop skip idx') + needed \<le> max (quota_bytes st) needed"
  proof (cases "n = length es")
    case True
    have "isum is_owned (fmdrop skip idx') = isum is_owned fmempty"
    proof (rule isum_cong)
      fix b
      have "fmlookup (fmdrop skip idx') b = None \<or> (\<exists>e. fmlookup (fmdrop skip idx') b = Some e \<and> \<not> is_owned e)"
      proof (cases "fmlookup (load_index st) b")
        case (Some e)
        then have "b = skip \<or> \<not> is_owned e \<or> b \<in> fst ` set es" using c(3) [of b e] by force
        then show ?thesis using Some True n(2) by auto
      qed (simp add: n(2))
      then show "weight is_owned (fmlookup (fmdrop skip idx') b) = weight is_owned (fmlookup fmempty b)" by auto
    qed
    then show ?thesis by (simp add: isum_def)
  next
    case False
    have "isum is_owned (load_index st) = isum is_owned idx' + sum_list (map (size_bytes \<circ> snd) (take n es))"
      unfolding n(2) using c(1,3) by (intro isum_drop_set) (auto simp: take_map [symmetric] dest: in_set_takeD)
    then show ?thesis using n(4) False isum_drop_le [of is_owned skip idx'] by simp
  qed
  have lru: "last_accessed e \<le> last_accessed f"
    if "fmlookup (load_index st) b = Some e" "fmlookup idx' b = None" "fmlookup idx' d = Some f" "d \<noteq> skip" "is_owned f" for b e d f
  proof -
    have "b \<in> fst ` set (take n es)" using that(1,2) n(2) by (auto split: if_splits)
    then have "(b, e) \<in> set (take n es)" using gone that(1) by fastforce
    moreover have "(d, f) \<in> set es" using that(3-5) c(3) n(2) by (auto split: if_splits)
    moreover have "(d, f) \<notin> set (take n es)" using that(3) n(2) by (auto simp: image_iff split: if_splits)
    ultimately have "(d, f) \<in> set (drop n es)" by (metis Un_iff append_take_drop_id set_append)
    from sorted_prefix_le [OF c(2) \<open>(b, e) \<in> set (take n es)\<close> this] show ?thesis by simp
  qed
  have keep: "fmlookup idx' b = Some e \<and> fmlookup fs b = fmlookup (files st) b"
    if "fmlookup (load_index st) b = Some e" "b = skip \<or> is_hosted e" for b e
  proof -
    have "b \<notin> fst ` set (take n es)" using gone [of b] that unfolding is_hosted_def is_owned_def by force
    then show ?thesis using that(1) n(2,3) by simp
  qed
  have sub: "fmlookup (load_index st) b = Some e" if "fmlookup idx' b = Some e" for b e
    using that n(2) by (auto split: if_splits)
  show ?thesis unfolding evicted_ok_def load using room sub keep lru by blast
qed

lemma put_cases:
  assumes "put X w s st = (st', Inr a)"
  obtains key p st1 where "master_key st = Some key" "to_bytes X s = Some p" "address_of X s = Inr a"
    "evict_if_needed_locked w (length p) a st = (st1, Inr ())"
    "write_share X w key a p (owned_entry w s) load_index st1 = (st', Inr a)"
proof -
  from assms obtain key b p st1 where *: "master_key st = Some key" "address_of X s = Inr b" "to_bytes X s = Some p"
    "evict_if_needed_locked w (length p) b st = (st1, Inr ())"
    "write_share X w key b p (owned_entry w s) load_index st1 = (st', Inr a)"
    by (auto simp: put_def split: option.splits sum.splits prod.splits)
  from *(5) have "a = b" by (auto simp: write_share_def split: sum.splits if_splits prod.splits)
  then show ?thesis using that * by blast
qed

text \<open>
  Storing an own share never touches a hosted one, and makes room by dropping own shares oldest first: an entry
  that went was not used later than any own entry that stayed. Afterwards own shares fill at most the quota, or the
  new share alone if that is larger, plus 40 bytes.
\<close>

theorem put_evicts_oldest:
  assumes "io_ok w" and "xcipher_ok X" and "put X w s st = (st', Inr a)" and "to_bytes X s = Some p"
    and "fmlookup (load_index st) b = Some e" and "b \<noteq> a"
  shows "used_owned_bytes st' \<le> max (quota_bytes st) (length p) + 40 \<and>
    (if is_hosted e then fmlookup (load_index st') b = Some e \<and> fmlookup (files st') b = fmlookup (files st) b
     else if fmlookup (load_index st') b = None
     then fmpred (\<lambda>c f. is_owned f \<longrightarrow> c \<noteq> a \<longrightarrow> last_accessed e \<le> last_accessed f) (load_index st')
     else fmlookup (load_index st') b = Some e)"
proof -
  from put_cases [OF assms(3)] obtain key st1 where put: "evict_if_needed_locked w (length p) a st = (st1, Inr ())"
    "write_share X w key a p (owned_entry w s) load_index st1 = (st', Inr a)"
    using assms(4) by (metis option.inject)
  have ev: "evicted_ok w (length p) a st st1" by (rule evict_spec [OF assms(1) put(1)])
  obtain blob where blob: "encrypt_share X (derive_file_key X key a) (nonce w) p = Inr blob"
    "load_index st' = fmupd a (owned_entry w s (length blob)) (load_index st1)" "files st' = fmupd a (new_blob w blob) (files st1)"
    using write_share_stored [OF put(2)] by blast
  have "used_owned_bytes st' = isum is_owned (fmdrop a (load_index st1)) + (length p + 40)"
    using encrypt_share_length [OF assms(2,1) blob(1)]
    by (simp add: used_owned_bytes_def blob(2) isum_upd owned_entry_def is_owned_def)
  then have used: "used_owned_bytes st' \<le> max (quota_bytes st) (length p) + 40" using ev by (simp add: evicted_ok_def)
  have hosted: "fmlookup (load_index st1) b = Some e \<and> fmlookup (files st1) b = fmlookup (files st) b" if "is_hosted e"
    using ev assms(5) that unfolding evicted_ok_def by blast
  have sub: "f = e" if "fmlookup (load_index st1) b = Some f" for f
    using ev assms(5) that unfolding evicted_ok_def by (metis option.inject)
  have lru: "last_accessed e \<le> last_accessed f"
    if "fmlookup (load_index st1) b = None" "fmlookup (load_index st1) c = Some f" "c \<noteq> a" "is_owned f" for c f
    using ev assms(5) that unfolding evicted_ok_def by blast
  have "fmpred (\<lambda>c f. is_owned f \<longrightarrow> c \<noteq> a \<longrightarrow> last_accessed e \<le> last_accessed f) (load_index st')"
    if "fmlookup (load_index st1) b = None"
    unfolding blob(2) by (rule fmpredI) (use lru [OF that] in \<open>simp split: if_splits\<close>)
  moreover have "fmlookup (load_index st') b = fmlookup (load_index st1) b" "fmlookup (files st') b = fmlookup (files st1) b"
    using assms(6) by (simp_all add: blob(2,3))
  ultimately show ?thesis
    using used hosted sub by (cases "is_hosted e"; cases "fmlookup (load_index st1) b") simp_all
qed

text \<open>
  What was stored can be read back: after a successful put the share is there under its address, listed with its
  piece key as an own share, and reading it returns exactly the share that was put.
\<close>

theorem put_get:
  assumes "io_ok w" and "xcipher_ok X" and "bincode_ok X" and "put X w s st = (st', Inr a)"
  shows "snd (get X w' a st') = Inr s \<and> contains_share a st' \<and>
    (\<exists>n. fmlookup (load_index st') a = Some (owned_entry w s n) \<and> n = length (content (the (fmlookup (files st') a))))"
proof -
  obtain key p st1 where put: "master_key st = Some key" "to_bytes X s = Some p"
    "evict_if_needed_locked w (length p) a st = (st1, Inr ())"
    "write_share X w key a p (owned_entry w s) load_index st1 = (st', Inr a)"
    using put_cases [OF assms(4)] by metis
  obtain blob where blob: "encrypt_share X (derive_file_key X key a) (nonce w) p = Inr blob"
    "load_index st' = fmupd a (owned_entry w s (length blob)) (load_index st1)" "files st' = fmupd a (new_blob w blob) (files st1)"
    "config st' = config st1"
    using write_share_stored [OF put(4)] by blast
  obtain blob' where "encrypt_share X (derive_file_key X key a) (nonce w) p = Inr blob'"
    "decrypt_share X (derive_file_key X key a) blob' = Inr p"
    using encrypt_decrypt [OF assms(2,1)] by blast
  then have dec: "decrypt_share X (derive_file_key X key a) blob = Inr p" using blob(1) by simp
  have "config st1 = config st" using evict_config [of w "length p" a st] put(3) by simp
  then have "master_key st' = Some key" using blob(4) put(1) by (simp add: config_def)
  then have "get_untouched X a st' = Inr s"
    using blob(3) dec assms(3) put(2) by (simp add: get_untouched_def new_blob_def bincode_ok_def)
  then show ?thesis using blob by (simp add: get_def contains_share_def new_blob_def)
qed

section \<open>Deleting\<close>

definition removable :: "store \<Rightarrow> bytes \<Rightarrow> blob_file \<Rightarrow> bool" where
  "removable st a f \<longleftrightarrow> a \<notin> in_use st \<and> \<not> is_symlink f \<and> inside_dir f"

text \<open>Files only go, those that went were removable, and the outcome counts them and their bytes.\<close>

definition deleted_exactly :: "store \<Rightarrow> (bytes, blob_file) fmap \<Rightarrow> nat \<Rightarrow> nat \<Rightarrow> bool" where
  "deleted_exactly st fs n bytes \<longleftrightarrow>
     (\<forall>a f. fmlookup fs a = Some f \<longrightarrow> fmlookup (files st) a = Some f) \<and>
     (\<forall>a f. fmlookup (files st) a = Some f \<longrightarrow> \<not> removable st a f \<longrightarrow> fmlookup fs a = Some f) \<and>
     n + card (fmdom' fs) = card (fmdom' (files st)) \<and>
     bytes + (\<Sum>a\<in>fmdom' fs. length (content (the (fmlookup fs a)))) =
       (\<Sum>a\<in>fmdom' (files st). length (content (the (fmlookup (files st) a))))"

abbreviation delete_inv :: "store \<Rightarrow> delete_state \<Rightarrow> bool" where
  "delete_inv st d \<equiv> deleted_exactly st (ds_files d) (deleted (ds_outcome d)) (freed_bytes (ds_outcome d))"

lemma fmdrop_sum:
  fixes g :: "blob_file \<Rightarrow> nat"
  assumes "fmlookup m a = Some f"
  shows "(\<Sum>b\<in>fmdom' (fmdrop a m). g (the (fmlookup (fmdrop a m) b))) + g f = (\<Sum>b\<in>fmdom' m. g (the (fmlookup m b)))"
    and "card (fmdom' (fmdrop a m)) + 1 = card (fmdom' m)"
proof -
  have a: "a \<in> fmdom' m" using assms by (simp add: fmlookup_dom'_iff)
  have "(\<Sum>b\<in>fmdom' (fmdrop a m). g (the (fmlookup (fmdrop a m) b))) = (\<Sum>b\<in>fmdom' m - {a}. g (the (fmlookup m b)))"
    by (rule sum.cong) auto
  then show "(\<Sum>b\<in>fmdom' (fmdrop a m). g (the (fmlookup (fmdrop a m) b))) + g f = (\<Sum>b\<in>fmdom' m. g (the (fmlookup m b)))"
    using sum.remove [of "fmdom' m" a "\<lambda>b. g (the (fmlookup m b))"] a assms by simp
  show "card (fmdom' (fmdrop a m)) + 1 = card (fmdom' m)"
    using a card.remove [of "fmdom' m" a] by simp
qed

lemma deleted_exactly_drop:
  assumes "deleted_exactly st fs n bytes" and "fmlookup fs a = Some f" and "removable st a f"
  shows "deleted_exactly st (fmdrop a fs) (Suc n) (bytes + length (content f))"
proof -
  note inv = assms(1) [unfolded deleted_exactly_def]
  have f: "fmlookup (files st) a = Some f" using inv assms(2) by blast
  have "\<forall>b g. fmlookup (fmdrop a fs) b = Some g \<longrightarrow> fmlookup (files st) b = Some g"
    using inv by (metis fmlookup_drop option.distinct(1))
  moreover have "\<forall>b g. fmlookup (files st) b = Some g \<longrightarrow> \<not> removable st b g \<longrightarrow> fmlookup (fmdrop a fs) b = Some g"
    using inv assms(3) f by (metis fmlookup_drop option.inject)
  moreover have "Suc n + card (fmdom' (fmdrop a fs)) = card (fmdom' (files st))"
    using inv fmdrop_sum(2) [OF assms(2)] by linarith
  moreover have "bytes + length (content f) + (\<Sum>b\<in>fmdom' (fmdrop a fs). length (content (the (fmlookup (fmdrop a fs) b)))) =
      (\<Sum>a\<in>fmdom' (files st). length (content (the (fmlookup (files st) a))))"
    using inv fmdrop_sum(1) [OF assms(2), of "\<lambda>f. length (content f)"] by linarith
  ultimately show ?thesis unfolding deleted_exactly_def by blast
qed

lemma delete_one_inv: "delete_inv st d \<Longrightarrow> delete_inv st (delete_one w (in_use st) a d)"
  by (auto simp: delete_one_def skip_share_def split: option.split intro: deleted_exactly_drop simp: removable_def)

interpretation deleting: machine "\<lambda>d a. delete_one w (in_use st) a d" "delete_inv st" for w st
  by unfold_locales (rule delete_one_inv)

lemma delete_loop_inv: "delete_inv st d \<Longrightarrow> delete_inv st (fold (delete_one w (in_use st)) as d)"
  using deleting.inv_run [of st d w as] by (simp add: foldl_conv_fold)

text \<open>
  Deleting shares removes only what it may and reports it exactly: no share in use, no symbolic link and no file
  that resolves outside the directory goes, no other file changes, and the outcome gives the number of files
  removed and their bytes.
\<close>

theorem delete_shares_exact:
  assumes "delete_shares w sel st = (st', Inr out)"
  shows "deleted_exactly st (files st') (deleted out) (freed_bytes out)"
proof (cases "load_index st = fmempty")
  case True
  then show ?thesis using assms by (auto simp: delete_shares_def deleted_exactly_def)
next
  case False
  obtain t sk where t: "delete_targets w sel st = (t, sk)" by (metis surj_pair)
  define d where "d = fold (delete_one w (in_use st)) (sorted_list_of_set (set t))
    \<lparr>ds_files = files st, ds_index = load_index st, ds_outcome = \<lparr>deleted = 0, freed_bytes = 0, skipped = sk\<rparr>, ds_error = False\<rparr>"
  have "delete_inv st d" unfolding d_def by (rule delete_loop_inv) (auto simp: deleted_exactly_def)
  moreover have e: "files st' = ds_files d" "out = ds_outcome d"
    using assms False t by (auto simp: delete_shares_def Let_def save_index_def d_def [symmetric] split: if_splits)
  ultimately show ?thesis unfolding e by blast
qed

section \<open>A read can undo a put\<close>

text \<open>
  C22: Recording an access is not serialised with writers. If a read loads the index, a put of another share then
  succeeds completely, and the read writes its copy back, the stored share is missing from the index: its file stays,
  but it is no longer listed, counted or found by its piece.
\<close>

theorem read_loses_put:
  assumes "fmlookup (load_index st) a = Some e" and "put X w s st = (st', Inr b)"
    and "fmlookup (load_index st) b = None" and "save_ok w'"
  shows "fmlookup (load_index (touch w' a (load_index st) st')) b = None \<and> contains_share b (touch w' a (load_index st) st')"
proof -
  obtain st1 key p where "write_share X w key b p (owned_entry w s) load_index st1 = (st', Inr b)"
    using put_cases [OF assms(2)] by metis
  then have k: "keys_on_disk st'" and f: "b |\<in>| fmdom (files st')"
    by (auto simp: write_share_def save_index_def split: sum.splits if_splits prod.splits)
  have "a \<noteq> b" using assms(1,3) by auto
  then show ?thesis
    using k f assms(1,3,4) by (simp add: touch_def save_index_def load_index_def contains_share_def)
qed

section \<open>Concrete instances\<close>

definition demo_stored :: miasma_share where
  "demo_stored = demo_slot 0"

definition demo_sext :: sext where
  "demo_sext =
     \<lparr>sx_core = demo_cext, sx_hex = demo_hex, to_bytes = (\<lambda>s. if s = demo_stored then Some [1, 2, 3] else None),
      from_bytes = (\<lambda>b. if b = [1, 2, 3] then Some demo_stored else None),
      xseal = (\<lambda>k n p. Some (p @ replicate 16 0)), xopen = (\<lambda>k n c. Some (take (length c - 16) c))\<rparr>"

definition demo_io :: io where
  "demo_io =
     \<lparr>now = 9, nonce = replicate 24 7, file_write_ok = True, save_ok = True, file_remove_ok = (\<lambda>_. True),
      iter = sorted_list_of_fmap\<rparr>"

definition demo_entry :: index_entry where
  "demo_entry =
     \<lparr>size_bytes = 50, last_accessed = 4, entry_origin = Owned, hosted_tuple = None, piece = None, hosted_principal = None\<rparr>"

definition demo_blob :: blob_file where
  "demo_blob = \<lparr>content = replicate 50 0, modified = Some 4, is_symlink = False, inside_dir = True\<rparr>"

definition demo_store :: store where
  "demo_store =
     \<lparr>files = fmupd [9] demo_blob fmempty, store_index = fmupd [9] demo_entry fmempty, index_ok = True, master_key = Some [1], keys_on_disk = True,
      quota_bytes = 52, hosted_quota_bytes = 60, in_use = {}\<rparr>"

lemmas demo_store_simps = demo_sext_def demo_io_def demo_entry_def demo_blob_def demo_store_def

lemma demo_io_ok: "io_ok demo_io"
proof -
  have "(a, e) \<in> set (sorted_list_of_fmap m) \<longleftrightarrow> fmlookup m a = Some e" for a e and m :: store_index
    by (auto simp: sorted_list_of_fmap_def image_iff fmlookup_dom_iff)
  then show ?thesis
    by (simp add: io_ok_def demo_io_def STORE_NONCE_LEN_def, simp add: sorted_list_of_fmap_def comp_def sorted_list_of_fset.rep_eq)
qed

lemma sorted_list_of_one [simp]: "sorted_list_of_fmap (fmupd a e fmempty) = [(a, e)]"
  by (simp add: sorted_list_of_fmap_def sorted_list_of_fset.rep_eq)

lemma demo_xcipher_ok: "xcipher_ok demo_sext"
  by (simp add: xcipher_ok_def demo_sext_def)

lemma demo_bincode_ok: "bincode_ok demo_sext"
  by (simp add: bincode_ok_def demo_sext_def)

definition demo_address :: bytes where
  "demo_address = hex_encode demo_hex (blake3 demo_cext [1, 2, 3])"

definition demo_put :: store where
  "demo_put =
     demo_store\<lparr>files := fmupd demo_address (new_blob demo_io (replicate 24 7 @ [1, 2, 3] @ replicate 16 0)) fmempty,
       store_index := fmupd demo_address (owned_entry demo_io demo_stored 43) fmempty\<rparr>"

lemma demo_address_new [simp]: "demo_address \<noteq> [9]" "[9] \<noteq> demo_address"
proof -
  have "length demo_address = 64" by (simp add: demo_address_def demo_hex_def demo_cext_def length_concat o_def sum_list_replicate)
  then have "length demo_address \<noteq> length [9 :: u8]" by simp
  then show "demo_address \<noteq> [9]" "[9] \<noteq> demo_address" by metis+
qed

lemma fmdrop_one [simp]: "fmdrop a (fmupd a e fmempty) = fmempty"
  by (rule fmap_ext) simp

lemma demo_put: "put demo_sext demo_io demo_stored demo_store = (demo_put, Inr demo_address)"
proof -
  have a: "address_of demo_sext demo_stored = Inr demo_address" "to_bytes demo_sext demo_stored = Some [1, 2, 3]"
    by (simp_all add: address_of_def demo_sext_def demo_address_def)
  have idx: "load_index demo_store = fmupd [9] demo_entry fmempty" by (simp add: load_index_def demo_store_def)
  have "evict_candidates demo_io demo_address (fmupd [9] demo_entry fmempty) = [([9], demo_entry)]"
    by (simp add: evict_candidates_def demo_io_def demo_entry_def is_owned_def)
  then have e: "evict_if_needed_locked demo_io 3 demo_address demo_store =
      (demo_store\<lparr>files := fmempty, store_index := fmempty\<rparr>, Inr ())"
    unfolding evict_if_needed_locked_def idx
    by (simp add: isum_upd demo_store_def demo_entry_def is_owned_def remove_file_def save_index_def demo_io_def)
  have "master_key demo_store = Some [1]" by (simp add: demo_store_def)
  then show ?thesis
    unfolding put_def
    by (simp add: a e [unfolded numeral_3_eq_3], simp add: write_share_def encrypt_share_def save_index_def load_index_def demo_put_def demo_store_simps)
qed

theorem put_evicts_oldest_witness:
  "used_owned_bytes demo_put \<le> 52 + 40 \<and> fmlookup (load_index demo_store) [9] = Some demo_entry \<and>
    fmlookup (load_index demo_put) [9] = None"
  using put_evicts_oldest [OF demo_io_ok demo_xcipher_ok demo_put, of "[1, 2, 3]" "[9]" demo_entry]
  by (simp add: load_index_def demo_put_def demo_store_simps)

theorem put_get_witness: "snd (get demo_sext demo_io demo_address demo_put) = Inr demo_stored"
  using put_get [OF demo_io_ok demo_xcipher_ok demo_bincode_ok demo_put, of demo_io] by simp

theorem read_loses_put_witness:
  "fmlookup (load_index demo_put) demo_address \<noteq> None \<and>
    fmlookup (load_index (touch demo_io [9] (load_index demo_store) demo_put)) demo_address = None \<and>
    contains_share demo_address (touch demo_io [9] (load_index demo_store) demo_put)"
  using read_loses_put [OF _ demo_put, of "[9]" demo_entry demo_io]
  by (simp add: load_index_def demo_put_def demo_store_simps)

theorem hosted_quotas_hold_witness:
  "let st = foldl (store_step demo_sext) (demo_store\<lparr>store_index := fmempty\<rparr>) [OpPutHosted demo_io demo_stored (Some [5])] in
   0 < used_hosted_bytes st \<and> used_hosted_bytes st \<le> 60 + 40 \<and> isum (held_by (Some [5])) (load_index st) \<le> 100"
proof -
  let ?st = "foldl (store_step demo_sext) (demo_store\<lparr>store_index := fmempty\<rparr>) [OpPutHosted demo_io demo_stored (Some [5])]"
  have "used_hosted_bytes ?st \<le> 60 + 40 \<and> isum (held_by (Some [5])) (load_index ?st) \<le> 60 + 40"
    using hosted_quotas_hold [OF demo_xcipher_ok, of "demo_store\<lparr>store_index := fmempty\<rparr>" "[OpPutHosted demo_io demo_stored (Some [5])]" "Some [5]"]
    by (simp add: demo_store_def hosted_principal_budget_bytes_def HOSTED_PRINCIPAL_SHARE_PERCENT_def HOSTED_PRINCIPAL_FLOOR_BYTES_def)
  moreover have "used_hosted_bytes ?st = 43"
    by (simp add: demo_io_ok, simp add: put_hosted_inner_def address_of_def write_share_def encrypt_share_def save_index_def load_index_def isum_upd
        used_hosted_bytes_def hosted_entry_def is_hosted_def demo_store_simps hosted_principal_budget_bytes_def
        HOSTED_PRINCIPAL_SHARE_PERCENT_def HOSTED_PRINCIPAL_FLOOR_BYTES_def)
  ultimately show ?thesis by (simp add: Let_def)
qed

theorem push_spares_others_witness:
  "(case put_hosted_inner demo_sext demo_io demo_stored (Some [5]) demo_store of (st', r) \<Rightarrow>
     fmlookup (load_index st') [9] = Some demo_entry \<and> fmlookup (files st') [9] = Some demo_blob) \<and>
   (case put_hosted_inner demo_sext demo_io demo_stored (Some [5]) (demo_store\<lparr>index_ok := False\<rparr>) of (st', r) \<Rightarrow>
     r = Inr demo_address \<and> fmdom (load_index st') = {|demo_address|} \<and> fmlookup (files st') [9] = Some demo_blob)"
proof -
  have r: "snd (put_hosted_inner demo_sext demo_io demo_stored (Some [5]) (demo_store\<lparr>index_ok := False\<rparr>)) = Inr demo_address"
    by (simp add: put_hosted_inner_def address_of_def demo_address_def write_share_def encrypt_share_def save_index_def load_index_def
        demo_store_simps hosted_principal_budget_bytes_def HOSTED_PRINCIPAL_SHARE_PERCENT_def HOSTED_PRINCIPAL_FLOOR_BYTES_def)
  have kept: "fmlookup fs [9] = fmlookup gs [9]" if "fmdrop demo_address fs = fmdrop demo_address gs" for fs gs :: "(bytes, blob_file) fmap"
    using arg_cong [OF that, of "\<lambda>m. fmlookup m [9]"] by simp
  note both = push_spares_others [where a = "[9]" and e = demo_entry and s = demo_stored and who = "Some [5]"
      and X = demo_sext and w = demo_io]
  have "case put_hosted_inner demo_sext demo_io demo_stored (Some [5]) demo_store of (st', r) \<Rightarrow>
      fmlookup (load_index st') [9] = Some demo_entry \<and> fmlookup (files st') [9] = Some demo_blob"
    using both [of demo_store]
    by (cases "put_hosted_inner demo_sext demo_io demo_stored (Some [5]) demo_store")
      (simp add: demo_store_def demo_entry_def hosted_at_def is_hosted_def)
  moreover obtain st' where o: "put_hosted_inner demo_sext demo_io demo_stored (Some [5]) (demo_store\<lparr>index_ok := False\<rparr>) =
      (st', Inr demo_address)"
    using r by (metis prod.collapse)
  have "fmdom (load_index st') = {|demo_address|} \<and> fmdrop demo_address (files st') = fmdrop demo_address (files demo_store)"
    using both [of "demo_store\<lparr>index_ok := False\<rparr>"] unfolding o
    by (simp add: demo_store_def demo_entry_def hosted_at_def is_hosted_def)
  moreover have "fmlookup (files demo_store) [9] = Some demo_blob" by (simp add: demo_store_def)
  ultimately show ?thesis using o kept [of "files st'" "files demo_store"] by simp
qed

theorem delete_shares_exact_witness:
  "case delete_shares demo_io AllShares demo_store of (st', r) \<Rightarrow>
    r = Inr \<lparr>deleted = 1, freed_bytes = 50, skipped = []\<rparr> \<and> deleted_exactly demo_store (files st') 1 50"
proof -
  have "delete_shares demo_io AllShares demo_store =
      (demo_store\<lparr>files := fmempty, store_index := fmempty\<rparr>, Inr \<lparr>deleted = 1, freed_bytes = 50, skipped = []\<rparr>)"
    by (simp add: delete_shares_def delete_targets_def list_addresses_def delete_one_def save_index_def load_index_def
        demo_store_simps)
  from this delete_shares_exact [OF this] show ?thesis by simp
qed

end
