(* ===== verification/Ratchet.thy ===== *)
theory Ratchet
  imports Byte_Reader
begin

unbundle bit_operations_syntax

text \<open>
  End-to-end encryption of one-to-one chat, \<^verbatim>\<open>crates/miasma-core/src/chat/crypto.rs\<close>: padding, the envelope and its
  codec, the first-flight key agreement and the Double Ratchet session with its skipped message keys and its
  persisted form. X25519, HKDF-SHA256, XChaCha20-Poly1305 and the Ed25519 key conversions are arguments; the random
  secrets and identifiers a call draws are arguments too.
\<close>

section \<open>Constants, errors and external functions\<close>

definition LABEL_X3DH :: bytes where "LABEL_X3DH = str_bytes ''miasma/chat/v1/x3dh''"
definition LABEL_ROOT :: bytes where "LABEL_ROOT = str_bytes ''miasma/chat/v1/rk''"
definition LABEL_CHAIN :: bytes where "LABEL_CHAIN = str_bytes ''miasma/chat/v1/ck''"
definition LABEL_MESSAGE :: bytes where "LABEL_MESSAGE = str_bytes ''miasma/chat/v1/msgkey''"
definition LABEL_PQ_LAYER :: bytes where "LABEL_PQ_LAYER = str_bytes ''miasma/chat/v1/pqlayer''"

definition ENVELOPE_VERSION :: u8 where "ENVELOPE_VERSION = 1"
definition SUITE_RATCHET :: u8 where "SUITE_RATCHET = 2"
definition KIND_PAIR :: u8 where "KIND_PAIR = 1"
definition STATE_VERSION :: u8 where "STATE_VERSION = 1"

definition MAX_SKIP :: u32 where "MAX_SKIP = 256"
definition MAX_STORED_SKIPPED :: nat where "MAX_STORED_SKIPPED = 1024"
definition PAD_BUCKETS :: "nat list" where "PAD_BUCKETS = [512, 1024, 2048, 4096, 8192, 16384]"
definition MAX_PADDED :: nat where "MAX_PADDED = 16384"
definition TAG_LEN :: nat where "TAG_LEN = 16"
definition MAX_CIPHERTEXT :: nat where "MAX_CIPHERTEXT = MAX_PADDED + TAG_LEN"
definition MAX_HEADER_BYTES :: nat where "MAX_HEADER_BYTES = 1024"

datatype crypto_error =
    BadKey
  | NonContributory
  | BadVersion u8
  | Unsupported
  | Malformed string
  | TooLarge
  | Authentication
  | Replay
  | TooFarAhead
  | NoSendChain
  | BadState

text \<open>
  \<open>rx_dh\<close> is \<open>None\<close> when the exchange was not contributory; \<open>rx_hkdf\<close> extracts with a salt and expands, \<open>rx_expand\<close>
  expands a pseudorandom key; \<open>rx_convert\<close> checks an endpoint identifier and turns it into its X25519 key.
\<close>

record rext =
  rx_pub :: "bytes \<Rightarrow> bytes"
  rx_dh :: "bytes \<Rightarrow> bytes \<Rightarrow> bytes option"
  rx_convert :: "bytes \<Rightarrow> bytes option"
  rx_ed_public :: "bytes \<Rightarrow> bytes"
  rx_scalar :: "bytes \<Rightarrow> bytes"
  rx_hkdf :: "bytes \<Rightarrow> bytes \<Rightarrow> bytes \<Rightarrow> nat \<Rightarrow> bytes"
  rx_expand :: "bytes \<Rightarrow> bytes \<Rightarrow> nat \<Rightarrow> bytes"
  rx_seal :: "bytes \<Rightarrow> bytes \<Rightarrow> bytes \<Rightarrow> bytes \<Rightarrow> bytes option"
  rx_open :: "bytes \<Rightarrow> bytes \<Rightarrow> bytes \<Rightarrow> bytes \<Rightarrow> bytes option"

section \<open>Identities and key derivation\<close>

record identity =
  id_key :: bytes
  dh_secret :: bytes
  dh_public :: bytes

definition from_seed :: "rext \<Rightarrow> bytes \<Rightarrow> identity" where
  "from_seed X seed =
     \<lparr>id_key = rx_ed_public X seed, dh_secret = rx_scalar X seed, dh_public = rx_pub X (rx_scalar X seed)\<rparr>"

definition peer_dh_public :: "rext \<Rightarrow> bytes \<Rightarrow> crypto_error + bytes" where
  "peer_dh_public X endpoint_id = (case rx_convert X endpoint_id of None \<Rightarrow> Inl BadKey | Some k \<Rightarrow> Inr k)"

definition dh :: "rext \<Rightarrow> bytes \<Rightarrow> bytes \<Rightarrow> crypto_error + bytes" where
  "dh X secret public = (case rx_dh X secret public of None \<Rightarrow> Inl NonContributory | Some s \<Rightarrow> Inr s)"

definition kdf_root :: "rext \<Rightarrow> bytes \<Rightarrow> bytes \<Rightarrow> bytes \<times> bytes" where
  "kdf_root X root dh_out = (let out = rx_hkdf X root dh_out LABEL_ROOT 64 in (take 32 out, drop 32 out))"

record chain_step =
  cs_next :: bytes
  cs_key :: bytes
  cs_nonce :: bytes

definition kdf_chain :: "rext \<Rightarrow> bytes \<Rightarrow> chain_step" where
  "kdf_chain X ck =
     (let mat = rx_expand X ck LABEL_MESSAGE 56 in
      \<lparr>cs_next = rx_expand X ck LABEL_CHAIN 32, cs_key = take 32 mat, cs_nonce = drop 32 mat\<rparr>)"

definition layer_key :: "rext \<Rightarrow> bytes \<Rightarrow> bytes \<Rightarrow> bytes \<Rightarrow> u32 \<Rightarrow> bytes" where
  "layer_key X msg_key pq d n = rx_hkdf X LABEL_PQ_LAYER (msg_key @ pq) (d @ be_bytes 4 (unat n)) 32"

definition kdf_first_flight :: "rext \<Rightarrow> bytes \<Rightarrow> bytes \<Rightarrow> bytes \<Rightarrow> bytes \<Rightarrow> bytes \<Rightarrow> bytes" where
  "kdf_first_flight X dh1 dh2 id_a id_b ek_pub = rx_hkdf X LABEL_X3DH (dh1 @ dh2) (id_a @ id_b @ ek_pub) 32"

definition aead_seal :: "rext \<Rightarrow> bytes \<Rightarrow> bytes \<Rightarrow> bytes \<Rightarrow> bytes \<Rightarrow> crypto_error + bytes" where
  "aead_seal X key nonce a buf = (case rx_seal X key nonce a buf of None \<Rightarrow> Inl BadState | Some ct \<Rightarrow> Inr ct)"

definition aead_open :: "rext \<Rightarrow> bytes \<Rightarrow> bytes \<Rightarrow> bytes \<Rightarrow> bytes \<Rightarrow> crypto_error + bytes" where
  "aead_open X key nonce a ct =
     (if length ct < TAG_LEN then Inl Authentication
      else (case rx_open X key nonce a ct of None \<Rightarrow> Inl Authentication | Some pt \<Rightarrow> Inr pt))"

definition open_msg ::
  "rext \<Rightarrow> bytes \<Rightarrow> bytes \<Rightarrow> bytes \<Rightarrow> bytes \<Rightarrow> bytes option \<Rightarrow> bytes \<Rightarrow> u32 \<Rightarrow> crypto_error + bytes" where
  "open_msg X key nonce a ct layer d n =
     (case layer of
        None \<Rightarrow> aead_open X key nonce a ct
      | Some pq \<Rightarrow>
          (case aead_open X (layer_key X key pq d n) nonce a ct of
             Inr pt \<Rightarrow> Inr pt
           | Inl _ \<Rightarrow> aead_open X key nonce a ct))"

section \<open>Padding\<close>

definition pad :: "bytes \<Rightarrow> crypto_error + bytes" where
  "pad data =
     (case find (\<lambda>b. length data + 1 \<le> b) PAD_BUCKETS of
        None \<Rightarrow> Inl TooLarge
      | Some bucket \<Rightarrow> Inr (data @ [0x80] @ replicate (bucket - (length data + 1)) 0))"

text \<open>The loop of \<^verbatim>\<open>unpad\<close> on the reversed buffer: zeros are popped until the marker.\<close>

fun unpad_loop :: "bytes \<Rightarrow> bytes option" where
  "unpad_loop [] = None"
| "unpad_loop (b # r) = (if b = 0 then unpad_loop r else if b = 0x80 then Some (rev r) else None)"

definition unpad :: "bytes \<Rightarrow> crypto_error + bytes" where
  "unpad padded =
     (if length padded \<notin> set PAD_BUCKETS then Inl (Malformed ''padding length'')
      else (case unpad_loop (rev padded) of None \<Rightarrow> Inl (Malformed ''padding marker'') | Some d \<Rightarrow> Inr d))"

section \<open>Envelopes\<close>

record header =
  dh_pub :: bytes
  hd_pn :: u32
  hd_n :: u32
  init_ek :: "bytes option"

record envelope =
  env_id :: bytes
  env_header :: header
  ciphertext :: bytes

definition header_bytes :: "header \<Rightarrow> bytes" where
  "header_bytes h =
     dh_pub h @ be_bytes 4 (unat (hd_pn h)) @ be_bytes 4 (unat (hd_n h)) @
     (case init_ek h of Some ek \<Rightarrow> 1 # ek | None \<Rightarrow> [0])"

definition encode_envelope :: "envelope \<Rightarrow> bytes" where
  "encode_envelope e =
     [ENVELOPE_VERSION, SUITE_RATCHET, KIND_PAIR] @ env_id e @ header_bytes (env_header e) @
     be_bytes 4 (length (ciphertext e)) @ ciphertext e"

definition rd_init_ek :: "bytes \<Rightarrow> crypto_error + (bytes option \<times> bytes)" where
  "rd_init_ek s =
     need (Malformed ''short'') (rd_u8 s) (\<lambda>f s.
       if f = 0 then Inr (None, s)
       else if f = 1 then need (Malformed ''short'') (rd_bytes 32 s) (\<lambda>ek s. Inr (Some ek, s))
       else Inl (Malformed ''init flag''))"

definition rd_ciphertext :: "bytes \<Rightarrow> crypto_error + bytes" where
  "rd_ciphertext s =
     need (Malformed ''short'') (rd_u32 s) (\<lambda>ct_len s.
       if \<not> (TAG_LEN \<le> unat ct_len \<and> unat ct_len \<le> MAX_CIPHERTEXT) then Inl (Malformed ''ciphertext length'')
       else need (Malformed ''short'') (rd_bytes (unat ct_len) s) (\<lambda>ct s.
         if rd_done s then Inr ct else Inl (Malformed ''trailing bytes'')))"

text \<open>The position after the init field is the bytes consumed so far.\<close>

definition decode_envelope :: "bytes \<Rightarrow> crypto_error + envelope" where
  "decode_envelope b =
     need (Malformed ''short'') (rd_u8 b) (\<lambda>ver s.
     if ver \<noteq> ENVELOPE_VERSION then Inl (BadVersion ver)
     else
       need (Malformed ''short'') (rd_u8 s) (\<lambda>suite s.
       need (Malformed ''short'') (rd_u8 s) (\<lambda>kind s.
       if suite \<noteq> SUITE_RATCHET \<or> kind \<noteq> KIND_PAIR then Inl Unsupported
       else
         need (Malformed ''short'') (rd_bytes 16 s) (\<lambda>i s.
         need (Malformed ''short'') (rd_bytes 32 s) (\<lambda>d s.
         need (Malformed ''short'') (rd_u32 s) (\<lambda>p s.
         need (Malformed ''short'') (rd_u32 s) (\<lambda>n s.
         case rd_init_ek s of
           Inl err \<Rightarrow> Inl err
         | Inr (ek, s) \<Rightarrow>
             if MAX_HEADER_BYTES < length b - length s then Inl (Malformed ''header'')
             else
               (case rd_ciphertext s of
                  Inl err \<Rightarrow> Inl err
                | Inr ct \<Rightarrow>
                    Inr \<lparr>env_id = i, env_header = \<lparr>dh_pub = d, hd_pn = p, hd_n = n, init_ek = ek\<rparr>,
                         ciphertext = ct\<rparr>))))))))"

definition aad :: "bytes \<Rightarrow> header \<Rightarrow> bytes \<Rightarrow> bytes \<Rightarrow> bytes" where
  "aad i h sender recipient =
     [ENVELOPE_VERSION, SUITE_RATCHET, KIND_PAIR] @ i @ header_bytes h @ sender @ recipient"

section \<open>Sessions\<close>

record skipped_key =
  sk_dh :: bytes
  sk_n :: u32
  sk_key :: bytes
  sk_nonce :: bytes

record session =
  own_id :: bytes
  peer_id :: bytes
  root :: bytes
  dhs :: bytes
  dhs_pub :: bytes
  dhr :: "bytes option"
  cks :: "bytes option"
  ckr :: "bytes option"
  ns :: u32
  nr :: u32
  pn :: u32
  skipped :: "skipped_key list"
  origin_ek :: bytes
  initiator :: bool
  pending_init :: bool

definition new_initiator :: "rext \<Rightarrow> bytes \<Rightarrow> bytes \<Rightarrow> identity \<Rightarrow> bytes \<Rightarrow> crypto_error + session" where
  "new_initiator X ek ratchet me peer =
     (case peer_dh_public X peer of
        Inl err \<Rightarrow> Inl err
      | Inr peer_dh \<Rightarrow>
          (case dh X (dh_secret me) peer_dh of
             Inl err \<Rightarrow> Inl err
           | Inr dh1 \<Rightarrow>
               (case dh X ek peer_dh of
                  Inl err \<Rightarrow> Inl err
                | Inr dh2 \<Rightarrow>
                    let sk = kdf_first_flight X dh1 dh2 (id_key me) peer (rx_pub X ek) in
                    (case dh X ratchet peer_dh of
                       Inl err \<Rightarrow> Inl err
                     | Inr shared \<Rightarrow>
                         let (rk, ck) = kdf_root X sk shared in
                         Inr \<lparr>own_id = id_key me, peer_id = peer, root = rk, dhs = ratchet, dhs_pub = rx_pub X ratchet,
                              dhr = Some peer_dh, cks = Some ck, ckr = None, ns = 0, nr = 0, pn = 0, skipped = [],
                              origin_ek = rx_pub X ek, initiator = True, pending_init = True\<rparr>))))"

definition new_responder :: "rext \<Rightarrow> identity \<Rightarrow> bytes \<Rightarrow> bytes \<Rightarrow> crypto_error + session" where
  "new_responder X me peer peer_ek =
     (case peer_dh_public X peer of
        Inl err \<Rightarrow> Inl err
      | Inr peer_dh \<Rightarrow>
          (case dh X (dh_secret me) peer_dh of
             Inl err \<Rightarrow> Inl err
           | Inr dh1 \<Rightarrow>
               (case dh X (dh_secret me) peer_ek of
                  Inl err \<Rightarrow> Inl err
                | Inr dh2 \<Rightarrow>
                    Inr \<lparr>own_id = id_key me, peer_id = peer,
                         root = kdf_first_flight X dh1 dh2 peer (id_key me) peer_ek, dhs = dh_secret me,
                         dhs_pub = dh_public me, dhr = None, cks = None, ckr = None, ns = 0, nr = 0, pn = 0,
                         skipped = [], origin_ek = peer_ek, initiator = False, pending_init = False\<rparr>)))"

definition seal_header :: "session \<Rightarrow> header" where
  "seal_header s =
     \<lparr>dh_pub = dhs_pub s, hd_pn = pn s, hd_n = ns s, init_ek = (if pending_init s then Some (origin_ek s) else None)\<rparr>"

text \<open>\<open>i\<close> is the identifier drawn. The chain has advanced when the counter overflows.\<close>

definition seal_with ::
  "rext \<Rightarrow> bytes \<Rightarrow> bytes \<Rightarrow> bytes option \<Rightarrow> session \<Rightarrow> session \<times> (crypto_error + envelope)" where
  "seal_with X i plaintext layer s =
     (case pad plaintext of
        Inl err \<Rightarrow> (s, Inl err)
      | Inr padded \<Rightarrow>
          (case cks s of
             None \<Rightarrow> (s, Inl NoSendChain)
           | Some ck \<Rightarrow>
               let stp = kdf_chain X ck; h = seal_header s; a = aad i h (own_id s) (peer_id s);
                   key = (case layer of None \<Rightarrow> cs_key stp | Some pq \<Rightarrow> layer_key X (cs_key stp) pq (dhs_pub s) (ns s))
               in (case aead_seal X key (cs_nonce stp) a padded of
                     Inl err \<Rightarrow> (s, Inl err)
                   | Inr ct \<Rightarrow>
                       (case checked_add (ns s) 1 of
                          None \<Rightarrow> (s\<lparr>cks := Some (cs_next stp)\<rparr>, Inl BadState)
                        | Some n \<Rightarrow>
                            (s\<lparr>cks := Some (cs_next stp), ns := n\<rparr>,
                             Inr \<lparr>env_id = i, env_header = h, ciphertext = ct\<rparr>)))))"

text \<open>Keep the message keys of the receiving chain up to, not including, \<open>until\<close>; the oldest give way when full.\<close>

definition push_skipped :: "skipped_key \<Rightarrow> skipped_key list \<Rightarrow> skipped_key list" where
  "push_skipped k ks = (if MAX_STORED_SKIPPED \<le> length ks then tl ks else ks) @ [k]"

function skip_loop :: "rext \<Rightarrow> bytes \<Rightarrow> u32 \<Rightarrow> bytes \<Rightarrow> session \<Rightarrow> session" where
  "skip_loop X d until ck s =
     (if nr s < until then
        let stp = kdf_chain X ck in
        skip_loop X d until (cs_next stp)
          (s\<lparr>skipped := push_skipped \<lparr>sk_dh = d, sk_n = nr s, sk_key = cs_key stp, sk_nonce = cs_nonce stp\<rparr> (skipped s),
             nr := nr s + 1\<rparr>)
      else s\<lparr>ckr := Some ck\<rparr>)"
  by pat_completeness auto
termination
proof (relation "measure (\<lambda>(X, d, until, ck, s). unat until - unat (nr s))")
  fix X d until ck s stp
  assume "nr (s :: session) < until"
  moreover from this have "unat (nr s + 1) = Suc (unat (nr s))" by (rule unat_plus_one)
  ultimately show "((X, d, until, cs_next stp,
      s\<lparr>skipped := push_skipped \<lparr>sk_dh = d, sk_n = nr s, sk_key = cs_key stp, sk_nonce = cs_nonce stp\<rparr> (skipped s), nr := nr s + 1\<rparr>),
     (X, d, until, ck, s)) \<in> measure (\<lambda>(X, d, until, ck, s). unat until - unat (nr s))"
    by (simp add: word_less_nat_alt)
qed simp

declare skip_loop.simps [simp del]

definition skip_until :: "rext \<Rightarrow> u32 \<Rightarrow> session \<Rightarrow> crypto_error + session" where
  "skip_until X until s =
     (case ckr s of
        None \<Rightarrow> Inr s
      | Some ck \<Rightarrow>
          if until \<le> nr s then Inr s
          else if MAX_SKIP < until - nr s then Inl TooFarAhead
          else (case dhr s of None \<Rightarrow> Inl BadState | Some d \<Rightarrow> Inr (skip_loop X d until ck s)))"

text \<open>\<open>fresh\<close> is the ratchet secret drawn.\<close>

definition dh_ratchet :: "rext \<Rightarrow> bytes \<Rightarrow> bytes \<Rightarrow> session \<Rightarrow> crypto_error + session" where
  "dh_ratchet X fresh peer_pub s =
     (case dh X (dhs s) peer_pub of
        Inl err \<Rightarrow> Inl err
      | Inr shared1 \<Rightarrow>
          let (root1, ck1) = kdf_root X (root s) shared1 in
          (case dh X fresh peer_pub of
             Inl err \<Rightarrow> Inl err
           | Inr shared2 \<Rightarrow>
               let (root2, ck2) = kdf_root X root1 shared2 in
               Inr (s\<lparr>pn := ns s, ns := 0, nr := 0, dhr := Some peer_pub, root := root2, ckr := Some ck1,
                      dhs := fresh, dhs_pub := rx_pub X fresh, cks := Some ck2\<rparr>)))"

text \<open>The part of \<^verbatim>\<open>open_with\<close> that works on the clone: advance the ratchets to the message.\<close>

definition advance :: "rext \<Rightarrow> bytes \<Rightarrow> header \<Rightarrow> session \<Rightarrow> crypto_error + session" where
  "advance X fresh h s =
     (case (if dhr s \<noteq> Some (dh_pub h) then
              (case skip_until X (hd_pn h) s of Inl err \<Rightarrow> Inl err | Inr s \<Rightarrow> dh_ratchet X fresh (dh_pub h) s)
            else if hd_n h < nr s then Inl Replay
            else Inr s) of
        Inl err \<Rightarrow> Inl err
      | Inr s \<Rightarrow> skip_until X (hd_n h) s)"

definition open_unpad ::
  "rext \<Rightarrow> bytes \<Rightarrow> bytes \<Rightarrow> bytes \<Rightarrow> bytes \<Rightarrow> bytes option \<Rightarrow> bytes \<Rightarrow> u32 \<Rightarrow> crypto_error + bytes" where
  "open_unpad X key nonce a ct layer d n =
     (case open_msg X key nonce a ct layer d n of Inl err \<Rightarrow> Inl err | Inr pt \<Rightarrow> unpad pt)"

definition open_with ::
  "rext \<Rightarrow> bytes \<Rightarrow> envelope \<Rightarrow> bytes option \<Rightarrow> session \<Rightarrow> session \<times> (crypto_error + bytes)" where
  "open_with X fresh env layer s =
     (let h = env_header env; a = aad (env_id env) h (peer_id s) (own_id s) in
      case List.extract (\<lambda>k. sk_dh k = dh_pub h \<and> sk_n k = hd_n h) (skipped s) of
        Some (before, k, after) \<Rightarrow>
          (case open_unpad X (sk_key k) (sk_nonce k) a (ciphertext env) layer (sk_dh k) (sk_n k) of
             Inl err \<Rightarrow> (s, Inl err)
           | Inr pt \<Rightarrow> (s\<lparr>skipped := before @ after\<rparr>, Inr pt))
      | None \<Rightarrow>
          (case advance X fresh h s of
             Inl err \<Rightarrow> (s, Inl err)
           | Inr s' \<Rightarrow>
               (case ckr s' of
                  None \<Rightarrow> (s, Inl Authentication)
                | Some ck \<Rightarrow>
                    let stp = kdf_chain X ck in
                    (case open_unpad X (cs_key stp) (cs_nonce stp) a (ciphertext env) layer (dh_pub h) (hd_n h) of
                       Inl err \<Rightarrow> (s, Inl err)
                     | Inr pt \<Rightarrow>
                         (case checked_add (nr s') 1 of
                            None \<Rightarrow> (s, Inl BadState)
                          | Some n \<Rightarrow>
                              (s'\<lparr>ckr := Some (cs_next stp), nr := n, pending_init := False\<rparr>, Inr pt))))))"

definition accept_session ::
  "rext \<Rightarrow> bytes \<Rightarrow> identity \<Rightarrow> bytes \<Rightarrow> envelope \<Rightarrow> crypto_error + (session \<times> bytes)" where
  "accept_session X fresh me peer env =
     (case init_ek (env_header env) of
        None \<Rightarrow> Inl (Malformed ''no first-flight key'')
      | Some ek \<Rightarrow>
          (case new_responder X me peer ek of
             Inl err \<Rightarrow> Inl err
           | Inr s \<Rightarrow>
               (case open_with X fresh env None s of
                  (s', Inl err) \<Rightarrow> Inl err
                | (s', Inr pt) \<Rightarrow> Inr (s', pt))))"

section \<open>Persistence\<close>

definition put_opt32 :: "bytes option \<Rightarrow> bytes" where
  "put_opt32 v = (case v of Some k \<Rightarrow> 1 # k | None \<Rightarrow> [0])"

definition get_opt32 :: "bytes \<Rightarrow> (bytes option \<Rightarrow> bytes \<Rightarrow> crypto_error + 'r) \<Rightarrow> crypto_error + 'r" where
  "get_opt32 s f =
     need BadState (rd_u8 s) (\<lambda>t s.
       if t = 0 then f None s
       else if t = 1 then need BadState (rd_bytes 32 s) (\<lambda>k s. f (Some k) s)
       else Inl BadState)"

definition session_flags :: "session \<Rightarrow> u8" where
  "session_flags s = of_bool (initiator s) OR push_bit 1 (of_bool (pending_init s))"

definition put_skipped :: "skipped_key \<Rightarrow> bytes" where
  "put_skipped k = sk_dh k @ be_bytes 4 (unat (sk_n k)) @ sk_key k @ sk_nonce k"

definition session_to_bytes :: "session \<Rightarrow> bytes" where
  "session_to_bytes s =
     STATE_VERSION # own_id s @ peer_id s @ root s @ dhs s @ dhs_pub s @
     put_opt32 (dhr s) @ put_opt32 (cks s) @ put_opt32 (ckr s) @
     be_bytes 4 (unat (ns s)) @ be_bytes 4 (unat (nr s)) @ be_bytes 4 (unat (pn s)) @
     origin_ek s @ [session_flags s] @ be_bytes 4 (length (skipped s)) @ concat (map put_skipped (skipped s))"

fun get_skipped :: "nat \<Rightarrow> bytes \<Rightarrow> (skipped_key list \<Rightarrow> bytes \<Rightarrow> crypto_error + 'r) \<Rightarrow> crypto_error + 'r" where
  "get_skipped 0 s f = f [] s"
| "get_skipped (Suc c) s f =
     need BadState (rd_bytes 32 s) (\<lambda>d s.
     need BadState (rd_u32 s) (\<lambda>n s.
     need BadState (rd_bytes 32 s) (\<lambda>k s.
     need BadState (rd_bytes 24 s) (\<lambda>nc s.
     get_skipped c s (\<lambda>ks s. f (\<lparr>sk_dh = d, sk_n = n, sk_key = k, sk_nonce = nc\<rparr> # ks) s)))))"

definition session_from_bytes :: "rext \<Rightarrow> bytes \<Rightarrow> crypto_error + session" where
  "session_from_bytes X b =
     need BadState (rd_u8 b) (\<lambda>v s.
     if v \<noteq> STATE_VERSION then Inl BadState
     else
       need BadState (rd_bytes 32 s) (\<lambda>own s.
       need BadState (rd_bytes 32 s) (\<lambda>peer s.
       need BadState (rd_bytes 32 s) (\<lambda>rt s.
       need BadState (rd_bytes 32 s) (\<lambda>secret s.
       need BadState (rd_bytes 32 s) (\<lambda>public s.
       if rx_pub X secret \<noteq> public then Inl BadState
       else
         get_opt32 s (\<lambda>r s. get_opt32 s (\<lambda>cs s. get_opt32 s (\<lambda>cr s.
         need BadState (rd_u32 s) (\<lambda>n_s s.
         need BadState (rd_u32 s) (\<lambda>n_r s.
         need BadState (rd_u32 s) (\<lambda>p_n s.
         need BadState (rd_bytes 32 s) (\<lambda>ek s.
         need BadState (rd_u8 s) (\<lambda>flags s.
         need BadState (rd_u32 s) (\<lambda>count s.
         if MAX_STORED_SKIPPED < unat count then Inl BadState
         else
           get_skipped (unat count) s (\<lambda>ks s.
           if rd_done s then
             Inr \<lparr>own_id = own, peer_id = peer, root = rt, dhs = secret, dhs_pub = public, dhr = r, cks = cs, ckr = cr,
                  ns = n_s, nr = n_r, pn = p_n, skipped = ks, origin_ek = ek, initiator = flags AND 1 \<noteq> 0,
                  pending_init = flags AND 2 \<noteq> 0\<rparr>
           else Inl BadState))))))))))))))))"

section \<open>Padding and envelopes round-trip\<close>

lemma unpad_loop_zeros: "unpad_loop (replicate k 0 @ 0x80 # r) = Some (rev r)"
  by (induction k) simp_all

lemma pad_cases:
  "pad m = Inr p \<longleftrightarrow>
     (\<exists>b. find (\<lambda>b. length m + 1 \<le> b) PAD_BUCKETS = Some b \<and> p = m @ [0x80] @ replicate (b - (length m + 1)) 0)"
  by (auto simp: pad_def split: option.split)

lemma pad_length: "pad m = Inr p \<Longrightarrow> length p \<in> set PAD_BUCKETS \<and> length m < length p \<and> length p \<le> 16384"
  by (auto simp: pad_def PAD_BUCKETS_def split: if_splits)

lemma unpad_pad: "pad m = Inr p \<Longrightarrow> unpad p = Inr m"
proof -
  assume p: "pad m = Inr p"
  then obtain b where "p = m @ [0x80] @ replicate (b - (length m + 1)) 0" by (auto simp: pad_cases)
  then have "unpad_loop (rev p) = Some m"
    using unpad_loop_zeros [of "b - (length m + 1)" "rev m"] by (simp add: replicate_append_same)
  with pad_length [OF p] show ?thesis by (simp add: unpad_def)
qed

lemma pad_ok: "length m < 16384 \<Longrightarrow> \<exists>p. pad m = Inr p"
  by (auto simp: pad_def PAD_BUCKETS_def)

definition wf_header :: "header \<Rightarrow> bool" where
  "wf_header h \<longleftrightarrow> length (dh_pub h) = 32 \<and> (case init_ek h of None \<Rightarrow> True | Some ek \<Rightarrow> length ek = 32)"

definition wf_envelope :: "envelope \<Rightarrow> bool" where
  "wf_envelope e \<longleftrightarrow>
     length (env_id e) = 16 \<and> wf_header (env_header e) \<and> TAG_LEN \<le> length (ciphertext e) \<and> length (ciphertext e) \<le> MAX_CIPHERTEXT"

lemma rd_init_ek_iff:
  "rd_init_ek s = Inr (ek, s') \<longleftrightarrow>
     (case ek of None \<Rightarrow> s = 0 # s' | Some k \<Rightarrow> length k = 32 \<and> s = 1 # k @ s')"
proof (cases s)
  case (Cons x xs)
  then show ?thesis by (cases ek) (auto simp: rd_init_ek_def need_Inr rd_iffs)
qed (auto simp: rd_init_ek_def rd_u8_def rd_bytes_def split: option.split)

lemma rd_ciphertext_iff:
  "rd_ciphertext s = Inr ct \<longleftrightarrow> 16 \<le> length ct \<and> length ct \<le> 16400 \<and> s = be_bytes 4 (length ct) @ ct"
proof -
  have u: "unat (word_of_nat (length ct) :: u32) = length ct" if "length ct \<le> 16400"
    using that by (simp add: unat_of_nat)
  show ?thesis
    by (auto simp: rd_ciphertext_def need_Inr rd_iffs rd_done_def TAG_LEN_def MAX_CIPHERTEXT_def MAX_PADDED_def split: if_splits)
      (metis u)
qed

interpretation chat_envelope: codec encode_envelope decode_envelope wf_envelope
proof
  note ct = MAX_CIPHERTEXT_def MAX_PADDED_def TAG_LEN_def
  show "decode_envelope (encode_envelope e) = Inr e" if "wf_envelope e" for e
  proof -
    obtain i d p n ek c where e: "e = \<lparr>env_id = i, env_header = \<lparr>dh_pub = d, hd_pn = p, hd_n = n, init_ek = ek\<rparr>, ciphertext = c\<rparr>"
      by (metis envelope.surjective header.surjective unit.exhaust)
    have "rd_init_ek ((case ek of Some k \<Rightarrow> 1 # k | None \<Rightarrow> [0]) @ s) = Inr (ek, s)" for s
      using that e by (auto simp: rd_init_ek_iff wf_envelope_def wf_header_def split: option.split)
    moreover have "rd_ciphertext (be_bytes 4 (length c) @ c) = Inr c"
      using that e by (simp add: rd_ciphertext_iff wf_envelope_def ct)
    ultimately show ?thesis
      using that unfolding e
      by (auto simp: decode_envelope_def encode_envelope_def header_bytes_def wf_envelope_def wf_header_def MAX_HEADER_BYTES_def
          split: option.split)
  qed
  have "wf_envelope e \<and> encode_envelope e = b" if "decode_envelope b = Inr e" for b e
  proof -
    from that obtain i d p n ek c s where
      e: "e = \<lparr>env_id = i, env_header = \<lparr>dh_pub = d, hd_pn = p, hd_n = n, init_ek = ek\<rparr>, ciphertext = c\<rparr>"
      and b: "b = [ENVELOPE_VERSION, SUITE_RATCHET, KIND_PAIR] @ i @ d @ be_bytes 4 (unat p) @ be_bytes 4 (unat n) @ s"
        "length i = 16" "length d = 32"
      and s: "rd_init_ek s = Inr (ek, be_bytes 4 (length c) @ c)" "16 \<le> length c" "length c \<le> 16400"
      unfolding decode_envelope_def by (auto simp: Inr_iffs case_prod_Inr rd_iffs rd_ciphertext_iff)
    show ?thesis
      using s b by (cases ek) (auto simp: e rd_init_ek_iff encode_envelope_def header_bytes_def wf_envelope_def wf_header_def ct)
  qed
  then show "decode_envelope b = Inr e \<Longrightarrow> wf_envelope e" "decode_envelope b = Inr e \<Longrightarrow> encode_envelope e = b" for b e
    by blast+
qed

section \<open>Sessions round-trip\<close>

definition opt32 :: "bytes option \<Rightarrow> bool" where
  "opt32 v \<longleftrightarrow> (case v of None \<Rightarrow> True | Some k \<Rightarrow> length k = 32)"

definition wf_skipped :: "skipped_key \<Rightarrow> bool" where
  "wf_skipped k \<longleftrightarrow> length (sk_dh k) = 32 \<and> length (sk_key k) = 32 \<and> length (sk_nonce k) = 24"

definition wf_session :: "rext \<Rightarrow> session \<Rightarrow> bool" where
  "wf_session X s \<longleftrightarrow>
     length (own_id s) = 32 \<and> length (peer_id s) = 32 \<and> length (root s) = 32 \<and> length (dhs s) = 32 \<and> length (dhs_pub s) = 32 \<and>
     dhs_pub s = rx_pub X (dhs s) \<and> opt32 (dhr s) \<and> opt32 (cks s) \<and> opt32 (ckr s) \<and> length (origin_ek s) = 32 \<and>
     length (skipped s) \<le> MAX_STORED_SKIPPED \<and> list_all wf_skipped (skipped s)"

lemma skipped_mk [simp]:
  "put_skipped \<lparr>sk_dh = d, sk_n = n, sk_key = k, sk_nonce = nc\<rparr> = d @ be_bytes 4 (unat n) @ k @ nc"
  "wf_skipped \<lparr>sk_dh = d, sk_n = n, sk_key = k, sk_nonce = nc\<rparr> \<longleftrightarrow> length d = 32 \<and> length k = 32 \<and> length nc = 24"
  by (simp_all add: put_skipped_def wf_skipped_def)

lemma get_opt32_iff:
  "get_opt32 s f = Inr r \<longleftrightarrow> (\<exists>v s'. opt32 v \<and> s = put_opt32 v @ s' \<and> f v s' = Inr r)"
proof (cases s)
  case (Cons x xs)
  then show ?thesis
    by (auto simp: get_opt32_def put_opt32_def opt32_def need_Inr rd_iffs split: option.splits)
qed (auto simp: get_opt32_def rd_u8_def rd_bytes_def put_opt32_def split: option.splits)

lemma get_opt32_put [simp]: "opt32 v \<Longrightarrow> get_opt32 (put_opt32 v @ s) f = f v s"
  by (cases v) (simp_all add: get_opt32_def put_opt32_def opt32_def)

lemma get_skipped_put [simp]:
  "list_all wf_skipped ks \<Longrightarrow> get_skipped (length ks) (concat (map put_skipped ks) @ s) f = f ks s"
proof (induction ks arbitrary: f)
  case (Cons k ks)
  obtain d n ky nc where "k = \<lparr>sk_dh = d, sk_n = n, sk_key = ky, sk_nonce = nc\<rparr>" by (cases k)
  with Cons show ?case by simp
qed simp

lemma get_skipped_wf:
  "get_skipped c s f = Inr r \<Longrightarrow> \<exists>ks s'. length ks = c \<and> list_all wf_skipped ks \<and> s = concat (map put_skipped ks) @ s' \<and> f ks s' = Inr r"
proof (induction c arbitrary: s f)
  case (Suc c)
  then obtain d n k nc s' where *: "length d = 32" "length k = 32" "length nc = 24"
    "s = d @ be_bytes 4 (unat n) @ k @ nc @ s'"
    "get_skipped c s' (\<lambda>ks s. f (\<lparr>sk_dh = d, sk_n = n, sk_key = k, sk_nonce = nc\<rparr> # ks) s) = Inr r"
    by (auto simp: need_Inr rd_iffs)
  from Suc.IH [OF *(5)] obtain ks s'' where "length ks = c" "list_all wf_skipped ks" "s' = concat (map put_skipped ks) @ s''"
    "f (\<lparr>sk_dh = d, sk_n = n, sk_key = k, sk_nonce = nc\<rparr> # ks) s'' = Inr r" by blast
  with * show ?case
    by (intro exI [of _ "\<lparr>sk_dh = d, sk_n = n, sk_key = k, sk_nonce = nc\<rparr> # ks"] exI [of _ s''])
      simp
qed simp

lemma flags_bits: "session_flags s AND 1 \<noteq> 0 \<longleftrightarrow> initiator s" "session_flags s AND 2 \<noteq> 0 \<longleftrightarrow> pending_init s"
  by (cases "initiator s"; cases "pending_init s"; simp add: session_flags_def)+

lemma session_roundtrip: "wf_session X s \<Longrightarrow> session_from_bytes X (session_to_bytes s) = Inr s"
proof -
  assume wf: "wf_session X s"
  then have n: "unat (word_of_nat (length (skipped s)) :: u32) = length (skipped s)"
    by (simp add: wf_session_def MAX_STORED_SKIPPED_def unat_of_nat)
  have len: "length (own_id s) = 32" "length (peer_id s) = 32" "length (root s) = 32" "length (dhs s) = 32"
    "length (dhs_pub s) = 32" "rx_pub X (dhs s) = dhs_pub s" "opt32 (dhr s)" "opt32 (cks s)" "opt32 (ckr s)"
    "length (origin_ek s) = 32" "length (skipped s) \<le> MAX_STORED_SKIPPED" "list_all wf_skipped (skipped s)"
    using wf unfolding wf_session_def by metis+
  have c: "get_skipped (length (skipped s)) (concat (map put_skipped (skipped s))) f = f (skipped s) []" for f :: "_ \<Rightarrow> _ \<Rightarrow> crypto_error + session"
    using get_skipped_put [of "skipped s" "[]" f] len by simp
  have r: "rd_u32 (be_bytes 4 (length (skipped s)) @ t) = Some (word_of_nat (length (skipped s)), t)" for t
    by (simp add: rd_u32_iff n)
  show ?thesis
    unfolding session_to_bytes_def session_from_bytes_def by (simp add: len n c r rd_done_def flags_bits not_less)
qed

lemma session_from_bytes_wf:
  assumes "session_from_bytes X b = Inr s"
  shows "wf_session X s"
  using assms
  by (auto simp: session_from_bytes_def need_Inr rd_iffs get_opt32_iff wf_session_def split: if_splits dest!: get_skipped_wf)

section \<open>Every use of a session\<close>

datatype chat_op = OpSeal bytes bytes "bytes option" | OpOpen bytes envelope "bytes option"

fun chat_step :: "rext \<Rightarrow> session \<Rightarrow> chat_op \<Rightarrow> session" where
  "chat_step X s (OpSeal i m layer) = fst (seal_with X i m layer s)"
| "chat_step X s (OpOpen fresh env layer) = fst (open_with X fresh env layer s)"

definition stored_ok :: "session \<Rightarrow> bool" where
  "stored_ok s \<longleftrightarrow> length (skipped s) \<le> MAX_STORED_SKIPPED"

lemma push_skipped_le: "length ks \<le> MAX_STORED_SKIPPED \<Longrightarrow> length (push_skipped k ks) \<le> MAX_STORED_SKIPPED"
  by (auto simp: push_skipped_def MAX_STORED_SKIPPED_def)

lemma skip_loop_stored: "stored_ok s \<Longrightarrow> stored_ok (skip_loop X d until ck s)"
proof (induction X d until ck s rule: skip_loop.induct)
  case (1 X d until ck s)
  then show ?case by (subst skip_loop.simps) (simp add: Let_def stored_ok_def push_skipped_le)
qed

lemma skip_until_stored: "stored_ok s \<Longrightarrow> skip_until X until s = Inr s' \<Longrightarrow> stored_ok s'"
  by (auto simp: skip_until_def skip_loop_stored split: option.splits if_splits)

lemma dh_ratchet_skipped: "dh_ratchet X fresh p s = Inr s' \<Longrightarrow> skipped s' = skipped s"
  by (auto simp: dh_ratchet_def Let_def split: sum.splits prod.splits)

lemma advance_cases:
  assumes "advance X fresh h s = Inr t"
  obtains (Ratchet) s1 s2 where "dhr s \<noteq> Some (dh_pub h)" "skip_until X (hd_pn h) s = Inr s1"
      "dh_ratchet X fresh (dh_pub h) s1 = Inr s2" "skip_until X (hd_n h) s2 = Inr t"
  | (Same) "dhr s = Some (dh_pub h)" "\<not> hd_n h < nr s" "skip_until X (hd_n h) s = Inr t"
  using assms by (auto simp: advance_def split: sum.splits if_splits)

lemma advance_stored: "stored_ok s \<Longrightarrow> advance X fresh h s = Inr t \<Longrightarrow> stored_ok t"
proof -
  assume s: "stored_ok s" and t: "advance X fresh h s = Inr t"
  from t show ?thesis
  proof (cases rule: advance_cases)
    case (Ratchet s1 s2)
    have "stored_ok s2" using skip_until_stored [OF s Ratchet(2)] dh_ratchet_skipped [OF Ratchet(3)] by (simp add: stored_ok_def)
    then show ?thesis using Ratchet(4) by (rule skip_until_stored)
  qed (rule skip_until_stored [OF s])
qed

lemma open_with_cases:
  assumes "open_with X fresh env layer s = (s', r)"
  obtains (Kept) before k after pt where "skipped s = before @ k # after" "s' = s\<lparr>skipped := before @ after\<rparr>" "r = Inr pt"
  | (Advanced) t n ck pt where "advance X fresh (env_header env) s = Inr t" "ckr t = Some ck" "r = Inr pt"
      "checked_add (nr t) 1 = Some n"
      "s' = t\<lparr>ckr := Some (cs_next (kdf_chain X ck)), nr := n, pending_init := False\<rparr>"
  | (Refused) err where "s' = s" "r = Inl err"
proof (cases "List.extract (\<lambda>k. sk_dh k = dh_pub (env_header env) \<and> sk_n k = hd_n (env_header env)) (skipped s)")
  case None
  show ?thesis
  proof (cases "advance X fresh (env_header env) s")
    case (Inl err)
    then show ?thesis using assms None Refused by (auto simp: open_with_def)
  next
    case (Inr t)
    show ?thesis
    proof (cases "ckr t")
      case None': None
      then show ?thesis using assms None Inr Refused by (auto simp: open_with_def)
    next
      case (Some ck)
      define r0 where "r0 = open_unpad X (cs_key (kdf_chain X ck)) (cs_nonce (kdf_chain X ck))
        (aad (env_id env) (env_header env) (peer_id s) (own_id s)) (ciphertext env) layer (dh_pub (env_header env))
        (hd_n (env_header env))"
      have e: "(s', r) = (case r0 of Inl err \<Rightarrow> (s, Inl err)
          | Inr pt \<Rightarrow> (case checked_add (nr t) 1 of None \<Rightarrow> (s, Inl BadState)
              | Some n \<Rightarrow> (t\<lparr>ckr := Some (cs_next (kdf_chain X ck)), nr := n, pending_init := False\<rparr>, Inr pt)))"
        using assms None Inr Some by (simp add: open_with_def Let_def r0_def)
      show ?thesis
      proof (cases r0)
        case (Inl err)
        then show ?thesis using e Refused by simp
      next
        case (Inr pt)
        then show ?thesis
          using e Refused Advanced [OF \<open>advance X fresh (env_header env) s = Inr t\<close> Some]
          by (cases "checked_add (nr t) 1") simp_all
      qed
    qed
  qed
next
  case (Some bka)
  obtain before k after where bka: "bka = (before, k, after)" by (metis surj_pair)
  then have sk: "skipped s = before @ k # after" using extract_SomeE [OF Some [unfolded bka]] by simp
  define r0 where "r0 = open_unpad X (sk_key k) (sk_nonce k) (aad (env_id env) (env_header env) (peer_id s) (own_id s))
    (ciphertext env) layer (sk_dh k) (sk_n k)"
  have "(s', r) = (case r0 of Inl err \<Rightarrow> (s, Inl err) | Inr pt \<Rightarrow> (s\<lparr>skipped := before @ after\<rparr>, Inr pt))"
    using assms Some by (simp add: bka open_with_def Let_def r0_def)
  then show ?thesis using Refused Kept [OF sk] by (cases r0) simp_all
qed

interpretation chat_session: machine "chat_step X" stored_ok for X
proof
  show "stored_ok (chat_step X s op)" if "stored_ok s" for s op
  proof (cases op)
    case (OpSeal i m layer)
    then show ?thesis
      using that by (auto simp: seal_with_def Let_def stored_ok_def split: sum.split option.split)
  next
    case (OpOpen fresh env layer)
    obtain s' r where o: "open_with X fresh env layer s = (s', r)" by (metis surj_pair)
    from o have "stored_ok s'"
    proof (cases rule: open_with_cases)
      case (Kept before k after pt)
      then show ?thesis using that by (simp add: stored_ok_def)
    next
      case (Advanced t n ck pt)
      then show ?thesis using advance_stored [OF that Advanced(1)] by (simp add: stored_ok_def)
    qed (use that in simp)
    then show ?thesis using OpOpen o by simp
  qed
qed

section \<open>Sessions survive a restart\<close>

text \<open>The primitives return what their signatures say: HKDF as many bytes as asked for, X25519 32 bytes.\<close>

definition rext_sized :: "rext \<Rightarrow> bool" where
  "rext_sized X \<longleftrightarrow>
     (\<forall>salt ikm i n. length (rx_hkdf X salt ikm i n) = n) \<and> (\<forall>k i n. length (rx_expand X k i n) = n) \<and> (\<forall>s. length (rx_pub X s) = 32)"

fun sized_op :: "chat_op \<Rightarrow> bool" where
  "sized_op (OpSeal i m layer) \<longleftrightarrow> True"
| "sized_op (OpOpen fresh env layer) \<longleftrightarrow> length fresh = 32 \<and> wf_envelope env"

lemma kdf_chain_sized:
  "rext_sized X \<Longrightarrow> length (cs_next (kdf_chain X ck)) = 32 \<and> length (cs_key (kdf_chain X ck)) = 32 \<and> length (cs_nonce (kdf_chain X ck)) = 24"
  by (simp add: rext_sized_def kdf_chain_def Let_def)

lemma kdf_root_sized: "rext_sized X \<Longrightarrow> kdf_root X r d = (a, b) \<Longrightarrow> length a = 32 \<and> length b = 32"
  by (auto simp: rext_sized_def kdf_root_def Let_def)

lemma push_skipped_wf: "list_all wf_skipped ks \<Longrightarrow> wf_skipped k \<Longrightarrow> list_all wf_skipped (push_skipped k ks)"
  by (cases ks) (auto simp: push_skipped_def list_all_iff)

lemma skip_loop_wf:
  "rext_sized X \<Longrightarrow> wf_session X s \<Longrightarrow> length d = 32 \<Longrightarrow> length ck = 32 \<Longrightarrow> wf_session X (skip_loop X d until ck s)"
proof (induction X d until ck s rule: skip_loop.induct)
  case (1 X d until ck s)
  note c = kdf_chain_sized [OF "1.prems"(1), of ck]
  let ?s = "s\<lparr>skipped := push_skipped \<lparr>sk_dh = d, sk_n = nr s, sk_key = cs_key (kdf_chain X ck), sk_nonce = cs_nonce (kdf_chain X ck)\<rparr> (skipped s),
    nr := nr s + 1\<rparr>"
  have "wf_session X ?s" using "1.prems" c by (auto simp: wf_session_def push_skipped_le push_skipped_wf)
  moreover have "wf_session X (s\<lparr>ckr := Some ck\<rparr>)" using "1.prems" by (auto simp: wf_session_def opt32_def)
  ultimately show ?case using 1 c by (subst skip_loop.simps) (simp add: Let_def)
qed

lemma skip_until_wf:
  assumes "rext_sized X" "wf_session X s" "skip_until X until s = Inr t"
  shows "wf_session X t"
proof (cases "t = s")
  case False
  then obtain ck d where e: "ckr s = Some ck" "dhr s = Some d" "t = skip_loop X d until ck s"
    using assms(3) by (auto simp: skip_until_def split: option.splits if_splits)
  moreover have "length ck = 32" "length d = 32" using assms(2) e by (auto simp: wf_session_def opt32_def)
  ultimately show ?thesis using skip_loop_wf assms(1,2) by blast
qed (use assms(2) in simp)

lemma dh_ratchet_form:
  assumes "dh_ratchet X fresh p s = Inr t"
  obtains d1 d2 r1 c1 r2 c2 where "kdf_root X (root s) d1 = (r1, c1)" "kdf_root X r1 d2 = (r2, c2)"
    "t = s\<lparr>pn := ns s, ns := 0, nr := 0, dhr := Some p, root := r2, ckr := Some c1, dhs := fresh, dhs_pub := rx_pub X fresh, cks := Some c2\<rparr>"
proof -
  obtain d1 where d1: "dh X (dhs s) p = Inr d1" using assms by (auto simp: dh_ratchet_def split: sum.splits)
  obtain d2 where d2: "dh X fresh p = Inr d2" using assms by (auto simp: dh_ratchet_def Let_def split: sum.splits prod.splits)
  obtain r1 c1 where k1: "kdf_root X (root s) d1 = (r1, c1)" by (metis surj_pair)
  obtain r2 c2 where k2: "kdf_root X r1 d2 = (r2, c2)" by (metis surj_pair)
  show ?thesis using assms d1 d2 k1 k2 by (intro that [OF k1 k2]) (simp add: dh_ratchet_def)
qed

lemma dh_ratchet_wf:
  assumes "rext_sized X" "wf_session X s" "length fresh = 32" "length p = 32" "dh_ratchet X fresh p s = Inr t"
  shows "wf_session X t"
  using assms(5)
proof (rule dh_ratchet_form)
  fix d1 d2 r1 c1 r2 c2
  assume k: "kdf_root X (root s) d1 = (r1, c1)" "kdf_root X r1 d2 = (r2, c2)"
    and t: "t = s\<lparr>pn := ns s, ns := 0, nr := 0, dhr := Some p, root := r2, ckr := Some c1, dhs := fresh, dhs_pub := rx_pub X fresh, cks := Some c2\<rparr>"
  have "length (rx_pub X fresh) = 32" using assms(1) by (simp add: rext_sized_def)
  then show ?thesis
    using assms(2-4) kdf_root_sized [OF assms(1) k(1)] kdf_root_sized [OF assms(1) k(2)] unfolding t by (simp add: wf_session_def opt32_def)
qed

lemma advance_wf:
  assumes "rext_sized X" "wf_session X s" "length fresh = 32" "length (dh_pub h) = 32" "advance X fresh h s = Inr t"
  shows "wf_session X t"
  using assms(5)
proof (cases rule: advance_cases)
  case (Ratchet s1 s2)
  then show ?thesis using assms(1-4) skip_until_wf dh_ratchet_wf by metis
qed (use assms skip_until_wf in blast)

lemma chat_step_wf:
  assumes "rext_sized X" "wf_session X s" "sized_op op"
  shows "wf_session X (chat_step X s op)"
proof (cases op)
  case (OpSeal i m layer)
  then show ?thesis
    using assms(1,2) kdf_chain_sized [OF assms(1)]
    by (auto simp: seal_with_def Let_def wf_session_def opt32_def split: sum.split option.split)
next
  case (OpOpen fresh env layer)
  obtain s' r where o: "open_with X fresh env layer s = (s', r)" by (metis surj_pair)
  from o have "wf_session X s'"
  proof (cases rule: open_with_cases)
    case (Kept before k after pt)
    then show ?thesis using assms(2) by (auto simp: wf_session_def)
  next
    case (Advanced t n ck pt)
    have "wf_session X t"
      using advance_wf [OF assms(1,2) _ _ Advanced(1)] assms(3) OpOpen by (simp add: wf_envelope_def wf_header_def)
    then show ?thesis using Advanced kdf_chain_sized [OF assms(1), of ck] by (auto simp: wf_session_def opt32_def)
  qed (use assms(2) in simp)
  then show ?thesis using OpOpen o by simp
qed

lemma chat_run_wf: "rext_sized X \<Longrightarrow> wf_session X s \<Longrightarrow> list_all sized_op ops \<Longrightarrow> wf_session X (foldl (chat_step X) s ops)"
  by (induction ops arbitrary: s) (simp_all add: chat_step_wf)

text \<open>
  A conversation survives a restart. Whatever a session loaded from the store has sealed and opened since, forged
  and refused envelopes included, it holds at most 1024 keys of passed messages, and what \<^verbatim>\<open>to_bytes\<close> writes is read
  back as exactly the same session.
\<close>

theorem session_persists:
  assumes "rext_sized X" and "session_from_bytes X b = Inr s" and "list_all sized_op ops" and "t = foldl (chat_step X) s ops"
  shows "length (skipped t) \<le> 1024 \<and> session_from_bytes X (session_to_bytes t) = Inr t"
proof -
  have "wf_session X t" using chat_run_wf [OF assms(1) _ assms(3)] session_from_bytes_wf [OF assms(2)] assms(4) by simp
  then show ?thesis using session_roundtrip by (simp add: wf_session_def MAX_STORED_SKIPPED_def)
qed

definition demo_rext :: rext where
  "demo_rext =
     \<lparr>rx_pub = (\<lambda>s. take 32 (s @ replicate 32 0)), rx_dh = (\<lambda>_ _. Some (replicate 32 7)), rx_convert = (\<lambda>p. Some p),
      rx_ed_public = (\<lambda>s. take 32 (s @ replicate 32 0)), rx_scalar = (\<lambda>s. take 32 (s @ replicate 32 0)),
      rx_hkdf = (\<lambda>_ _ _ n. replicate n 1), rx_expand = (\<lambda>k _ n. take n (map (\<lambda>x. x + 1) k @ replicate n 0)),
      rx_seal = (\<lambda>_ _ _ p. Some (p @ replicate 16 0)), rx_open = (\<lambda>_ _ _ c. Some (take (length c - 16) c))\<rparr>"

lemma demo_sized: "rext_sized demo_rext"
  by (auto simp: rext_sized_def demo_rext_def)

definition demo_session :: session where
  "demo_session =
     \<lparr>own_id = replicate 32 1, peer_id = replicate 32 2, root = replicate 32 3, dhs = replicate 32 4, dhs_pub = replicate 32 4,
      dhr = Some (replicate 32 5), cks = Some (replicate 32 6), ckr = Some (replicate 32 6), ns = 0, nr = 0, pn = 0, skipped = [],
      origin_ek = replicate 32 8, initiator = True, pending_init = True\<rparr>"

definition demo_envelope :: "u32 \<Rightarrow> envelope" where
  "demo_envelope n =
     \<lparr>env_id = replicate 16 0, env_header = \<lparr>dh_pub = replicate 32 5, hd_pn = 0, hd_n = n, init_ek = None\<rparr>,
      ciphertext = replicate 16 0\<rparr>"

lemma demo_session_wf: "wf_session demo_rext demo_session"
  by (simp add: wf_session_def demo_session_def demo_rext_def opt32_def)

theorem session_persists_witness:
  "length (skipped (foldl (chat_step demo_rext) demo_session
      [OpSeal [] [104, 105] None, OpOpen (replicate 32 9) (demo_envelope 3) None])) \<le> 1024"
  using session_persists [OF demo_sized session_roundtrip [OF demo_session_wf],
      of "[OpSeal [] [104, 105] None, OpOpen (replicate 32 9) (demo_envelope 3) None]"]
  by (simp add: demo_envelope_def wf_envelope_def wf_header_def TAG_LEN_def MAX_CIPHERTEXT_def)

end
