(* ===== verification/Ratchet_Delivery.thy ===== *)
theory Ratchet_Delivery
  imports Ratchet
begin

text \<open>
  Two sessions of \<^verbatim>\<open>chat/crypto.rs\<close> talking over a network that delays, reorders and injects envelopes: the Double
  Ratchet delivers every outstanding message. The environment is a list of events; \<open>sess w\<close> is the session of side \<open>w\<close>
  (\<open>True\<close> started the conversation), \<open>sent w\<close> what it sealed, with the plaintexts, and \<open>got w\<close> which messages of the
  other side it has opened.
\<close>

section \<open>The network\<close>

record duplex =
  sess :: "bool \<Rightarrow> session"
  sent :: "bool \<Rightarrow> (bytes \<times> envelope) list"
  got :: "bool \<Rightarrow> nat set"

datatype traffic = Write bool bytes bytes | Deliver bool nat bytes | Inject bool envelope bytes

fun duplex_step :: "rext \<Rightarrow> bytes option \<Rightarrow> duplex \<Rightarrow> traffic \<Rightarrow> duplex" where
  "duplex_step X layer st (Write w i m) =
     (case seal_with X i m layer (sess st w) of
        (s, Inl _) \<Rightarrow> st\<lparr>sess := (sess st)(w := s)\<rparr>
      | (s, Inr env) \<Rightarrow> st\<lparr>sess := (sess st)(w := s), sent := (sent st)(w := sent st w @ [(m, env)])\<rparr>)"
| "duplex_step X layer st (Deliver w j fresh) =
     (if j < length (sent st (\<not> w)) then
        (case open_with X fresh (snd (sent st (\<not> w) ! j)) layer (sess st w) of
           (s, Inl _) \<Rightarrow> st\<lparr>sess := (sess st)(w := s)\<rparr>
         | (s, Inr _) \<Rightarrow> st\<lparr>sess := (sess st)(w := s), got := (got st)(w := insert j (got st w))\<rparr>)
      else st)"
| "duplex_step X layer st (Inject w env fresh) =
     st\<lparr>sess := (sess st)(w := fst (open_with X fresh env layer (sess st w)))\<rparr>"

definition duplex_start :: "rext \<Rightarrow> bytes \<Rightarrow> bytes \<Rightarrow> identity \<Rightarrow> identity \<Rightarrow> crypto_error + duplex" where
  "duplex_start X ek ratchet ida idb =
     (case new_initiator X ek ratchet ida (id_key idb) of
        Inl err \<Rightarrow> Inl err
      | Inr a \<Rightarrow>
          (case new_responder X idb (id_key ida) (origin_ek a) of
             Inl err \<Rightarrow> Inl err
           | Inr b \<Rightarrow> Inr \<lparr>sess = (\<lambda>w. if w then a else b), sent = (\<lambda>_. []), got = (\<lambda>_. {})\<rparr>))"

text \<open>
  What the environment may do: at most 256 messages to a side are outstanding, a message is handed over until it was
  opened, and anything else that arrives does not authenticate.
\<close>

definition outstanding :: "duplex \<Rightarrow> bool \<Rightarrow> nat" where
  "outstanding st w = length (sent st (\<not> w)) - card (got st w)"

fun orderly :: "rext \<Rightarrow> bytes option \<Rightarrow> duplex \<Rightarrow> traffic \<Rightarrow> bool" where
  "orderly X layer st (Write w i m) \<longleftrightarrow> outstanding st (\<not> w) < 256 \<and> length (sent st w) + 1 < 2 ^ 32"
| "orderly X layer st (Deliver w j fresh) \<longleftrightarrow> j \<notin> got st w"
| "orderly X layer st (Inject w env fresh) \<longleftrightarrow> isl (snd (open_with X fresh env layer (sess st w)))"

fun orderly_run :: "rext \<Rightarrow> bytes option \<Rightarrow> duplex \<Rightarrow> traffic list \<Rightarrow> bool" where
  "orderly_run X layer st [] \<longleftrightarrow> True"
| "orderly_run X layer st (e # es) \<longleftrightarrow> orderly X layer st e \<and> orderly_run X layer (duplex_step X layer st e) es"

fun fresh_secrets :: "traffic list \<Rightarrow> bytes list" where
  "fresh_secrets [] = []"
| "fresh_secrets (Write _ _ _ # es) = fresh_secrets es"
| "fresh_secrets (Deliver _ _ f # es) = f # fresh_secrets es"
| "fresh_secrets (Inject _ _ f # es) = fresh_secrets es"

section \<open>What the code relies on\<close>

text \<open>
  A Diffie-Hellman exchange between keys made from secrets gives both sides the same contributory value, the cipher
  opens what it sealed and adds a tag of 16 bytes, and the X25519 key of an identity is the one its secret half has.
\<close>

definition dh_ok :: "rext \<Rightarrow> bool" where
  "dh_ok X \<longleftrightarrow> (\<forall>a b. \<exists>s. rx_dh X a (rx_pub X b) = Some s \<and> rx_dh X b (rx_pub X a) = Some s)"

definition ratchet_aead_ok :: "rext \<Rightarrow> bool" where
  "ratchet_aead_ok X \<longleftrightarrow>
     (\<forall>k n a p. \<exists>c. rx_seal X k n a p = Some c \<and> length c = length p + TAG_LEN \<and> rx_open X k n a c = Some p)"

definition convert_ok :: "rext \<Rightarrow> bytes \<Rightarrow> bool" where
  "convert_ok X seed \<longleftrightarrow> rx_convert X (rx_ed_public X seed) = Some (rx_pub X (rx_scalar X seed))"

section \<open>Chains\<close>

definition chain_key :: "rext \<Rightarrow> bytes \<Rightarrow> nat \<Rightarrow> bytes" where
  "chain_key X ck n = ((\<lambda>ck. cs_next (kdf_chain X ck)) ^^ n) ck"

lemma chain_key_Suc [simp]: "chain_key X ck (Suc n) = cs_next (kdf_chain X (chain_key X ck n))"
  by (simp add: chain_key_def)

lemma chain_key_0 [simp]: "chain_key X ck 0 = ck"
  by (simp add: chain_key_def)

definition msg_key :: "rext \<Rightarrow> bytes \<Rightarrow> bytes \<Rightarrow> nat \<Rightarrow> skipped_key" where
  "msg_key X d ck n =
     (let stp = kdf_chain X (chain_key X ck n) in
      \<lparr>sk_dh = d, sk_n = word_of_nat n, sk_key = cs_key stp, sk_nonce = cs_nonce stp\<rparr>)"

lemma msg_key_sel [simp]:
  "sk_dh (msg_key X d ck n) = d" "sk_n (msg_key X d ck n) = word_of_nat n"
  "sk_key (msg_key X d ck n) = cs_key (kdf_chain X (chain_key X ck n))"
  "sk_nonce (msg_key X d ck n) = cs_nonce (kdf_chain X (chain_key X ck n))"
  by (simp_all add: msg_key_def Let_def)

definition skipped_to :: "rext \<Rightarrow> bytes \<Rightarrow> bytes \<Rightarrow> u32 \<Rightarrow> session \<Rightarrow> session" where
  "skipped_to X d ck0 until s =
     s\<lparr>skipped := skipped s @ map (msg_key X d ck0) [unat (nr s)..<unat until], nr := until,
       ckr := Some (chain_key X ck0 (unat until))\<rparr>"

lemma skip_loop_result:
  assumes "ck = chain_key X ck0 (unat (nr s))" and "nr s \<le> until"
    and "length (skipped s) + (unat until - unat (nr s)) \<le> MAX_STORED_SKIPPED"
  shows "skip_loop X d until ck s = skipped_to X d ck0 until s"
  using assms
proof (induction X d until ck s rule: skip_loop.induct)
  case (1 X d until ck s)
  show ?case
  proof (cases "nr s < until")
    case True
    then have n: "unat (nr s + 1) = Suc (unat (nr s))" "unat (nr s) < unat until"
      by (simp_all add: unat_plus_one word_less_nat_alt)
    let ?k = "\<lparr>sk_dh = d, sk_n = nr s, sk_key = cs_key (kdf_chain X ck), sk_nonce = cs_nonce (kdf_chain X ck)\<rparr>"
    have k: "?k = msg_key X d ck0 (unat (nr s))" using "1.prems"(1) by (simp add: msg_key_def Let_def)
    have p: "push_skipped ?k (skipped s) = skipped s @ [?k]"
    proof -
      have "length (skipped s) < MAX_STORED_SKIPPED" using "1.prems"(3) n(2) by linarith
      then show ?thesis by (simp add: push_skipped_def)
    qed
    have "skip_loop X d until ck s = skip_loop X d until (cs_next (kdf_chain X ck)) (s\<lparr>skipped := skipped s @ [?k], nr := nr s + 1\<rparr>)"
      using True p by (subst skip_loop.simps) (simp add: Let_def)
    also have "\<dots> = skipped_to X d ck0 until (s\<lparr>skipped := skipped s @ [?k], nr := nr s + 1\<rparr>)"
      using "1.IH" [OF True refl] "1.prems" n p by (simp add: word_le_nat_alt)
    also have "\<dots> = skipped_to X d ck0 until s"
      using n(2) by (simp add: skipped_to_def n(1) k upt_conv_Cons)
    finally show ?thesis .
  next
    case False
    then have "until = nr s" using "1.prems"(2) by simp
    then show ?thesis using "1.prems"(1) by (subst skip_loop.simps) (simp add: skipped_to_def)
  qed
qed

lemma skip_until_result:
  assumes "ckr s = Some (chain_key X ck0 (unat (nr s)))" and "dhr s = Some d" and "nr s \<le> until"
    and "unat until - unat (nr s) \<le> 256" and "length (skipped s) + (unat until - unat (nr s)) \<le> 256"
  shows "skip_until X until s = Inr (skipped_to X d ck0 until s)"
proof (cases "until = nr s")
  case True
  then show ?thesis using assms(1) by (simp add: skip_until_def skipped_to_def)
next
  case False
  have "unat (until - nr s) = unat until - unat (nr s)" using assms(3) by (simp add: unat_sub word_le_nat_alt)
  then have "\<not> MAX_SKIP < until - nr s" using assms(4) by (simp add: MAX_SKIP_def word_less_nat_alt)
  moreover have "skip_loop X d until (chain_key X ck0 (unat (nr s))) s = skipped_to X d ck0 until s"
    by (rule skip_loop_result) (use assms in \<open>simp_all add: MAX_STORED_SKIPPED_def\<close>)
  ultimately show ?thesis using False assms by (simp add: skip_until_def)
qed

section \<open>Sealing and opening one message\<close>

text \<open>The envelope opens to \<open>m\<close> under the key and nonce of position \<open>n\<close> of the chain.\<close>

definition opens_at :: "rext \<Rightarrow> bytes option \<Rightarrow> bytes \<Rightarrow> nat \<Rightarrow> bytes \<Rightarrow> bytes \<Rightarrow> bytes \<Rightarrow> envelope \<Rightarrow> bytes \<Rightarrow> bool" where
  "opens_at X layer ck n d sender recipient env m \<longleftrightarrow>
     open_unpad X (cs_key (kdf_chain X (chain_key X ck n))) (cs_nonce (kdf_chain X (chain_key X ck n)))
       (aad (env_id env) (env_header env) sender recipient) (ciphertext env) layer d (word_of_nat n) = Inr m"

lemma sealed_opens:
  assumes "ratchet_aead_ok X" and "cks s = Some (chain_key X ck n)" and "unat (ns s) = n" and "Suc n < 2 ^ 32"
  shows "case seal_with X i m layer s of
    (s', Inl _) \<Rightarrow> s' = s
  | (s', Inr env) \<Rightarrow> s' = s\<lparr>cks := Some (chain_key X ck (Suc n)), ns := ns s + 1\<rparr> \<and> env_header env = seal_header s \<and>
      unat (ns s + 1) = Suc n \<and> opens_at X layer ck n (dhs_pub s) (own_id s) (peer_id s) env m"
proof (cases "pad m")
  case (Inl err)
  then show ?thesis by (simp add: seal_with_def)
next
  case (Inr p)
  define stp where "stp = kdf_chain X (chain_key X ck n)"
  define key where "key = (case layer of None \<Rightarrow> cs_key stp | Some pq \<Rightarrow> layer_key X (cs_key stp) pq (dhs_pub s) (ns s))"
  define a where "a = aad i (seal_header s) (own_id s) (peer_id s)"
  obtain c where c: "rx_seal X key (cs_nonce stp) a p = Some c" "length c = length p + 16"
    "rx_open X key (cs_nonce stp) a c = Some p"
    using assms(1) unfolding ratchet_aead_ok_def TAG_LEN_def by blast
  have n: "unat (ns s + 1) = Suc n" using assms(3,4) by (simp add: unat_word_ariths)
  have ck: "checked_add (ns s) 1 = Some (ns s + 1)" using assms(3,4) by (simp add: checked_add_def)
  have w: "word_of_nat n = ns s" using assms(3) by auto
  have "open_msg X (cs_key stp) (cs_nonce stp) a c layer (dhs_pub s) (ns s) = Inr p"
    using c(2,3) unfolding open_msg_def key_def by (cases layer) (simp_all add: aead_open_def TAG_LEN_def)
  then have "open_unpad X (cs_key stp) (cs_nonce stp) a c layer (dhs_pub s) (ns s) = Inr m"
    using unpad_pad [OF Inr] by (simp add: open_unpad_def)
  then show ?thesis
    using c(1) assms(2) Inr n ck w
    by (simp add: seal_with_def aead_seal_def opens_at_def Let_def stp_def [symmetric] key_def [symmetric] a_def [symmetric])
qed

text \<open>The two ways a message opens: with a kept key, or after advancing to it.\<close>

definition matches :: "header \<Rightarrow> skipped_key \<Rightarrow> bool" where
  "matches h k \<longleftrightarrow> sk_dh k = dh_pub h \<and> sk_n k = hd_n h"

lemma open_kept:
  assumes "k \<in> set (skipped s)" and "\<And>k'. k' \<in> set (skipped s) \<Longrightarrow> matches (env_header env) k' \<longleftrightarrow> k' = k"
    and "k = msg_key X d ck n" and "opens_at X layer ck n d (peer_id s) (own_id s) env m" and "distinct (skipped s)"
  obtains ks where "open_with X f env layer s = (s\<lparr>skipped := ks\<rparr>, Inr m)" and "set ks = set (skipped s) - {k}" and "distinct ks"
proof -
  let ?P = "\<lambda>k. sk_dh k = dh_pub (env_header env) \<and> sk_n k = hd_n (env_header env)"
  have "List.extract ?P (skipped s) \<noteq> None"
    using assms(1,2) by (auto simp: extract_None_iff matches_def)
  then obtain before k' after where e: "List.extract ?P (skipped s) = Some (before, k', after)" by auto
  from extract_SomeE [OF e] have sk: "skipped s = before @ k' # after" and "?P k'" by auto
  then have k': "k' = k" using assms(2) [of k'] by (simp add: matches_def)
  have o: "open_unpad X (sk_key k) (sk_nonce k) (aad (env_id env) (env_header env) (peer_id s) (own_id s)) (ciphertext env)
      layer (sk_dh k) (sk_n k) = Inr m"
    using assms(3,4) by (simp add: opens_at_def)
  show ?thesis
  proof (rule that)
    show "open_with X f env layer s = (s\<lparr>skipped := before @ after\<rparr>, Inr m)"
      using e o by (simp add: open_with_def Let_def k')
  qed (use sk assms(5) k' in auto)
qed

lemma open_next:
  assumes "(if dhr s \<noteq> Some (dh_pub h) then
        (case skip_until X (hd_pn h) s of Inl err \<Rightarrow> Inl err | Inr s \<Rightarrow> dh_ratchet X f (dh_pub h) s)
      else if hd_n h < nr s then Inl Replay else Inr s) = Inr s2"
    and "h = env_header env" and "\<And>k. k \<in> set (skipped s) \<Longrightarrow> \<not> matches h k"
    and "ckr s2 = Some (chain_key X ck (unat (nr s2)))" and "dhr s2 = Some (dh_pub h)" and "nr s2 \<le> hd_n h"
    and "length (skipped s2) + (unat (hd_n h) - unat (nr s2)) \<le> 256"
    and "opens_at X layer ck (unat (hd_n h)) (dh_pub h) (peer_id s) (own_id s) env m" and "Suc (unat (hd_n h)) < 2 ^ 32"
  shows "open_with X f env layer s =
    ((skipped_to X (dh_pub h) ck (hd_n h) s2)\<lparr>ckr := Some (chain_key X ck (Suc (unat (hd_n h)))), nr := hd_n h + 1,
        pending_init := False\<rparr>, Inr m)"
proof -
  let ?P = "\<lambda>k. sk_dh k = dh_pub (env_header env) \<and> sk_n k = hd_n (env_header env)"
  have e: "List.extract ?P (skipped s) = None"
    using assms(2,3) by (auto simp: extract_None_iff matches_def)
  have "skip_until X (hd_n h) s2 = Inr (skipped_to X (dh_pub h) ck (hd_n h) s2)"
    by (rule skip_until_result [OF assms(4,5,6)]) (use assms(7) in simp_all)
  then have adv: "advance X f h s = Inr (skipped_to X (dh_pub h) ck (hd_n h) s2)"
    unfolding advance_def assms(1) by simp
  have c: "checked_add (hd_n h) 1 = Some (hd_n h + 1)" using assms(9) by (simp add: checked_add_def)
  show ?thesis
    using assms(8) c
    by (simp add: open_with_def e [unfolded assms(2) [symmetric]] assms(2) [symmetric] adv Let_def skipped_to_def opens_at_def)
qed

section \<open>The invariant\<close>

text \<open>
  The ratchet secrets of both sides in the order they are drawn form one sequence \<open>ks\<close>, starting with the identity
  secret of the responder. Chain \<open>c\<close> is sent by the side that drew \<open>ks c\<close>; its root and first chain key come from
  those of chain \<open>c - 1\<close> and the exchange between \<open>ks (c - 1)\<close> and \<open>ks c\<close>. \<open>ln c\<close> messages were sealed in it.
\<close>

fun roots :: "rext \<Rightarrow> bytes \<Rightarrow> (nat \<Rightarrow> bytes) \<Rightarrow> nat \<Rightarrow> bytes \<times> bytes" where
  "roots X sk ks 0 = (sk, [])"
| "roots X sk ks (Suc c) = kdf_root X (fst (roots X sk ks c)) (the (rx_dh X (ks (Suc c)) (rx_pub X (ks c))))"

lemma roots_upd [simp]: "c < d \<Longrightarrow> roots X sk (ks(d := f)) c = roots X sk ks c"
  by (induction c) simp_all

abbreviation base :: "rext \<Rightarrow> bytes \<Rightarrow> (nat \<Rightarrow> bytes) \<Rightarrow> nat \<Rightarrow> bytes" where
  "base X sk ks c \<equiv> snd (roots X sk ks c)"

abbreviation key_at :: "rext \<Rightarrow> bytes \<Rightarrow> (nat \<Rightarrow> bytes) \<Rightarrow> nat \<times> nat \<Rightarrow> skipped_key" where
  "key_at X sk ks q \<equiv> msg_key X (rx_pub X (ks (fst q))) (base X sk ks (fst q)) (snd q)"

text \<open>A session that has drawn \<open>ks p\<close>: it sends in chain \<open>p\<close> and receives in chain \<open>p - 1\<close>.\<close>

definition party :: "rext \<Rightarrow> bytes \<Rightarrow> (nat \<Rightarrow> bytes) \<Rightarrow> (nat \<Rightarrow> nat) \<Rightarrow> nat \<Rightarrow> session \<Rightarrow> bool" where
  "party X sk ks ln p s \<longleftrightarrow>
     dhs s = ks p \<and> dhs_pub s = rx_pub X (ks p) \<and> root s = fst (roots X sk ks p) \<and>
     dhr s = (if p = 0 then None else Some (rx_pub X (ks (p - 1)))) \<and>
     cks s = (if p = 0 then None else Some (chain_key X (base X sk ks p) (ln p))) \<and> unat (ns s) = ln p \<and>
     ckr s = (if p \<le> 1 then None else Some (chain_key X (base X sk ks (p - 1)) (unat (nr s)))) \<and> (p \<le> 1 \<longrightarrow> nr s = 0) \<and>
     unat (pn s) = ln (p - 2)"

text \<open>How far a receiver has gone in a chain, and the passed positions it has not opened.\<close>

definition bound :: "(nat \<Rightarrow> nat) \<Rightarrow> nat \<Rightarrow> nat \<Rightarrow> nat \<Rightarrow> nat" where
  "bound ln p n_r c = (if Suc c = p then n_r else ln c)"

definition passed :: "(nat \<Rightarrow> nat) \<Rightarrow> nat \<Rightarrow> nat \<Rightarrow> (nat \<times> nat) set" where
  "passed ln p n_r = {(c, n). 0 < c \<and> c < p \<and> odd (p + c) \<and> n < bound ln p n_r c}"

definition receives :: "rext \<Rightarrow> bytes \<Rightarrow> (nat \<Rightarrow> bytes) \<Rightarrow> (nat \<Rightarrow> nat) \<Rightarrow> nat \<Rightarrow> (nat \<times> nat) set \<Rightarrow> session \<Rightarrow> bool" where
  "receives X sk ks ln p R s \<longleftrightarrow>
     R \<subseteq> passed ln p (unat (nr s)) \<and> (0 < p \<longrightarrow> unat (nr s) \<le> ln (p - 1)) \<and> distinct (skipped s) \<and>
     set (skipped s) = key_at X sk ks ` (passed ln p (unat (nr s)) - R)"

definition all_sent :: "(nat \<Rightarrow> nat) \<Rightarrow> nat \<Rightarrow> (nat \<times> nat) set" where
  "all_sent ln p = {(c, n). 0 < c \<and> c \<le> p \<and> even (p + c) \<and> n < ln c}"

definition carried :: "rext \<Rightarrow> bytes \<Rightarrow> (nat \<Rightarrow> bytes) \<Rightarrow> (nat \<Rightarrow> nat) \<Rightarrow> bytes option \<Rightarrow> bytes \<Rightarrow> bytes \<Rightarrow> nat \<times> nat \<Rightarrow>
    bytes \<times> envelope \<Rightarrow> bool" where
  "carried X sk ks ln layer own peer q me \<longleftrightarrow>
     dh_pub (env_header (snd me)) = rx_pub X (ks (fst q)) \<and> unat (hd_n (env_header (snd me))) = snd q \<and>
     unat (hd_pn (env_header (snd me))) = ln (fst q - 2) \<and>
     opens_at X layer (base X sk ks (fst q)) (snd q) (rx_pub X (ks (fst q))) own peer (snd me) (fst me)"

definition carries :: "rext \<Rightarrow> bytes \<Rightarrow> (nat \<Rightarrow> bytes) \<Rightarrow> (nat \<Rightarrow> nat) \<Rightarrow> bytes option \<Rightarrow> bytes \<Rightarrow> bytes \<Rightarrow> nat \<Rightarrow>
    (nat \<times> nat) list \<Rightarrow> (bytes \<times> envelope) list \<Rightarrow> bool" where
  "carries X sk ks ln layer own peer p pos msgs \<longleftrightarrow>
     distinct pos \<and> set pos = all_sent ln p \<and> list_all2 (carried X sk ks ln layer own peer) pos msgs"

text \<open>One side: its session, what it received and what it sent. The other side has drawn up to \<open>ks q\<close>.\<close>

definition side_inv :: "rext \<Rightarrow> bytes \<Rightarrow> bytes option \<Rightarrow> (bool \<Rightarrow> bytes) \<Rightarrow> (nat \<Rightarrow> bytes) \<Rightarrow> (nat \<Rightarrow> nat) \<Rightarrow> nat \<Rightarrow>
    (bool \<Rightarrow> (nat \<times> nat) list) \<Rightarrow> duplex \<Rightarrow> bool \<Rightarrow> bool" where
  "side_inv X sk layer ids ks ln p pos st w \<longleftrightarrow>
     party X sk ks ln p (sess st w) \<and> own_id (sess st w) = ids w \<and> peer_id (sess st w) = ids (\<not> w) \<and>
     got st w \<subseteq> {..<length (sent st (\<not> w))} \<and>
     receives X sk ks ln p ((!) (pos (\<not> w)) ` got st w) (sess st w) \<and>
     carries X sk ks ln layer (ids w) (ids (\<not> w)) p (pos w) (sent st w) \<and>
     outstanding st w \<le> 256 \<and> length (sent st w) < 2 ^ 32"

definition drawn_ok :: "rext \<Rightarrow> (nat \<Rightarrow> bytes) \<Rightarrow> (nat \<Rightarrow> nat) \<Rightarrow> nat \<Rightarrow> nat \<Rightarrow> bool" where
  "drawn_ok X ks ln p q \<longleftrightarrow>
     (p = Suc q \<or> q = Suc p) \<and> inj_on (\<lambda>c. rx_pub X (ks c)) {..max p q} \<and> ln 0 = 0 \<and> (\<forall>c. max p q < c \<longrightarrow> ln c = 0)"

definition duplex_inv :: "rext \<Rightarrow> bytes \<Rightarrow> bytes option \<Rightarrow> (bool \<Rightarrow> bytes) \<Rightarrow> (nat \<Rightarrow> bytes) \<Rightarrow> (nat \<Rightarrow> nat) \<Rightarrow> (bool \<Rightarrow> nat) \<Rightarrow>
    (bool \<Rightarrow> (nat \<times> nat) list) \<Rightarrow> duplex \<Rightarrow> bool" where
  "duplex_inv X sk layer ids ks ln p pos st \<longleftrightarrow>
     drawn_ok X ks ln (p True) (p False) \<and> side_inv X sk layer ids ks ln (p True) pos st True \<and>
     side_inv X sk layer ids ks ln (p False) pos st False"

lemma drawn_sym: "drawn_ok X ks ln p q = drawn_ok X ks ln q p"
  by (auto simp: drawn_ok_def max.commute)

lemma duplex_inv_side:
  "duplex_inv X sk layer ids ks ln p pos st \<longleftrightarrow>
     drawn_ok X ks ln (p w) (p (\<not> w)) \<and> side_inv X sk layer ids ks ln (p w) pos st w \<and>
     side_inv X sk layer ids ks ln (p (\<not> w)) pos st (\<not> w)"
  by (cases w) (auto simp: duplex_inv_def drawn_sym)

lemma party_upd: "p < d \<Longrightarrow> party X sk (ks(d := f)) ln p s = party X sk ks ln p s"
proof -
  assume "p < d"
  then have "p \<noteq> d" "p - 1 \<noteq> d" "p - 1 < d" by auto
  then show ?thesis using \<open>p < d\<close> unfolding party_def by (simp del: One_nat_def)
qed

lemma receives_upd: "p \<le> d \<Longrightarrow> receives X sk (ks(d := f)) ln p R s = receives X sk ks ln p R s"
proof -
  assume "p \<le> d"
  then have "key_at X sk (ks(d := f)) ` (passed ln p (unat (nr s)) - R) = key_at X sk ks ` (passed ln p (unat (nr s)) - R)"
    by (intro image_cong) (auto simp: passed_def)
  then show ?thesis by (simp add: receives_def)
qed

lemma carries_upd: "p < d \<Longrightarrow> carries X sk (ks(d := f)) ln layer own peer p pos msgs = carries X sk ks ln layer own peer p pos msgs"
proof -
  assume p: "p < d"
  have "list_all2 (carried X sk (ks(d := f)) ln layer own peer) pos msgs \<longleftrightarrow> list_all2 (carried X sk ks ln layer own peer) pos msgs"
    if "set pos = all_sent ln p"
  proof (rule list.rel_cong [OF refl refl])
    fix q me
    assume "q \<in> set pos"
    then have "q \<in> all_sent ln p" using that by simp
    then have "fst q < d" using p by (auto simp: all_sent_def)
    then show "carried X sk (ks(d := f)) ln layer own peer q me = carried X sk ks ln layer own peer q me"
      by (simp add: carried_def)
  qed
  then show ?thesis by (auto simp: carries_def)
qed

lemma side_upd: "p < d \<Longrightarrow> side_inv X sk layer ids (ks(d := f)) ln p pos st w = side_inv X sk layer ids ks ln p pos st w"
  by (simp add: side_inv_def party_upd receives_upd carries_upd)

text \<open>No more positions than messages are outstanding.\<close>

lemma finite_all_sent: "carries X sk ks ln layer own peer p pos msgs \<Longrightarrow> finite (all_sent ln p)"
  by (metis carries_def List.finite_set)

lemma window:
  assumes "side_inv X sk layer ids ks ln p pos st w" and "side_inv X sk layer ids ks ln q pos st (\<not> w)"
    and "Q \<subseteq> all_sent ln q - (!) (pos (\<not> w)) ` got st w"
  shows "card Q \<le> 256"
proof -
  let ?R = "(!) (pos (\<not> w)) ` got st w"
  have c: "distinct (pos (\<not> w))" "set (pos (\<not> w)) = all_sent ln q" "length (pos (\<not> w)) = length (sent st (\<not> w))"
    using assms(2) by (auto simp: side_inv_def carries_def list_all2_lengthD)
  have g: "got st w \<subseteq> {..<length (pos (\<not> w))}" using assms(1) c(3) by (simp add: side_inv_def)
  have "inj_on ((!) (pos (\<not> w))) (got st w)" using c(1) g by (auto intro!: inj_on_nth)
  then have "card ?R = card (got st w)" by (rule card_image)
  moreover have "?R \<subseteq> all_sent ln q" unfolding c(2) [symmetric] using g by auto
  moreover have "card (all_sent ln q) = length (sent st (\<not> w))" using c distinct_card by metis
  moreover have "finite ?R" using g finite_subset by blast
  ultimately have "card (all_sent ln q - ?R) = outstanding st w" by (simp add: card_Diff_subset outstanding_def)
  moreover have "finite (all_sent ln q - ?R)" using c(2) by (metis List.finite_set finite_Diff)
  ultimately show ?thesis using card_mono [OF _ assms(3)] assms(1) by (simp add: side_inv_def)
qed

lemma ln_le:
  assumes "side_inv X sk layer ids ks ln q pos st w" and "0 < c" and "c \<le> q" and "even (q + c)"
  shows "ln c \<le> length (sent st w)"
proof -
  have c: "distinct (pos w)" "set (pos w) = all_sent ln q" "length (pos w) = length (sent st w)"
    using assms(1) by (auto simp: side_inv_def carries_def list_all2_lengthD)
  have "Pair c ` {..<ln c} \<subseteq> all_sent ln q" using assms(2-4) by (auto simp: all_sent_def)
  then have "card (Pair c ` {..<ln c}) \<le> card (set (pos w))" unfolding c(2) [symmetric] by (intro card_mono) auto
  then show ?thesis
    using c(3) card_length [of "pos w"] by (simp add: card_image inj_on_def)
qed

lemma side_lengths: "side_inv X sk layer ids ks ln q pos st w \<Longrightarrow> length (pos w) = length (sent st w)"
  by (auto simp: side_inv_def carries_def dest: list_all2_lengthD)

section \<open>Sealing keeps the invariant\<close>

lemma party_ln: "p \<noteq> d \<Longrightarrow> p - 2 \<noteq> d \<Longrightarrow> party X sk ks (ln(d := v)) p s = party X sk ks ln p s"
  by (simp add: party_def)

lemma receives_ln:
  assumes "Suc d = p \<or> p \<le> d" and "receives X sk ks ln p R s" and "ln d \<le> v"
  shows "receives X sk ks (ln(d := v)) p R s"
proof -
  have "passed (ln(d := v)) p n = passed ln p n" for n
    using assms(1) by (auto simp: passed_def bound_def)
  then show ?thesis using assms by (auto simp: receives_def)
qed

lemma carries_ln:
  assumes "odd (p + d)" and "0 < d" and "carries X sk ks ln layer own peer p pos msgs"
  shows "carries X sk ks (ln(d := v)) layer own peer p pos msgs"
proof -
  have s: "all_sent (ln(d := v)) p = all_sent ln p" using assms(1) by (auto simp: all_sent_def split: if_splits)
  have "list_all2 (carried X sk ks (ln(d := v)) layer own peer) pos msgs \<longleftrightarrow> list_all2 (carried X sk ks ln layer own peer) pos msgs"
  proof (rule list.rel_cong [OF refl refl])
    fix q me
    assume "q \<in> set pos"
    then have "q \<in> all_sent ln p" using assms(3) by (simp add: carries_def)
    then have "even (p + fst q)" by (auto simp: all_sent_def)
    then have "fst q - 2 \<noteq> d" using assms(1,2) by (cases "fst q < 2") auto
    then show "carried X sk ks (ln(d := v)) layer own peer q me = carried X sk ks ln layer own peer q me"
      by (simp add: carried_def)
  qed
  then show ?thesis using assms(3) s by (simp add: carries_def)
qed

lemma carries_snoc:
  assumes "carries X sk ks ln layer own peer p pos msgs" and "0 < p"
    and "carried X sk ks ln layer own peer (p, ln p) me"
  shows "carries X sk ks (ln(p := Suc (ln p))) layer own peer p (pos @ [(p, ln p)]) (msgs @ [me])"
proof -
  let ?ln = "ln(p := Suc (ln p))"
  have s: "all_sent ?ln p = insert (p, ln p) (all_sent ln p)" using assms(2) by (auto simp: all_sent_def less_Suc_eq split: if_splits)
  have new: "(p, ln p) \<notin> all_sent ln p" by (simp add: all_sent_def)
  have c: "carried X sk ks ?ln layer own peer q me" if "carried X sk ks ln layer own peer q me" "fst q \<le> p" "0 < fst q" for q me
    using that by (simp add: carried_def)
  have old: "distinct pos" "set pos = all_sent ln p" "list_all2 (carried X sk ks ln layer own peer) pos msgs"
    using assms(1) by (simp_all add: carries_def)
  have "list_all2 (carried X sk ks ?ln layer own peer) pos msgs"
  proof (rule list.rel_mono_strong [OF old(3)])
    fix q me
    assume "q \<in> set pos" and "carried X sk ks ln layer own peer q me"
    moreover from this have "q \<in> all_sent ln p" using old(2) by simp
    then have "0 < fst q \<and> fst q \<le> p" by (auto simp: all_sent_def)
    ultimately show "carried X sk ks ?ln layer own peer q me" using c by blast
  qed
  moreover have "carried X sk ks ?ln layer own peer (p, ln p) me" using c [OF assms(3)] assms(2) by simp
  ultimately have "list_all2 (carried X sk ks ?ln layer own peer) (pos @ [(p, ln p)]) (msgs @ [me])"
    by (intro list_all2_appendI) simp_all
  then show ?thesis using old(1,2) new s by (simp add: carries_def)
qed

lemma neighbours:
  assumes "a = Suc b \<or> b = Suc a" and "0 < a"
  shows "b \<noteq> a" and "b - 2 \<noteq> a" and "Suc a = b \<or> b \<le> a" and "odd (b + a)"
  using assms by auto

lemma write_step:
  assumes inv: "duplex_inv X sk layer ids ks ln p pos st" and "ratchet_aead_ok X" and "orderly X layer st (Write w i m)"
  shows "\<exists>ln' pos'. duplex_inv X sk layer ids ks ln' p pos' (duplex_step X layer st (Write w i m))"
proof -
  note I = inv [unfolded duplex_inv_side [where w = w]]
  obtain s r where o: "seal_with X i m layer (sess st w) = (s, r)" by (metis surj_pair)
  have same: ?thesis if "s = sess st w" "isl r"
  proof -
    have "duplex_step X layer st (Write w i m) = st" using o that by (cases r) simp_all
    then show ?thesis using inv by auto
  qed
  have party: "party X sk ks ln (p w) (sess st w)" using I by (simp add: side_inv_def)
  show ?thesis
  proof (cases "p w = 0")
    case True
    then have "cks (sess st w) = None" using party by (simp add: party_def)
    then show ?thesis using o by (intro same) (auto simp: seal_with_def split: sum.splits)
  next
    case False
    let ?n = "ln (p w)" and ?ln = "ln(p w := Suc (ln (p w)))"
    have "?n \<le> length (sent st w)" using I False by (intro ln_le [of X sk layer ids ks ln "p w" pos st w]) auto
    then have lt: "Suc ?n < 2 ^ 32" using assms(3) by simp
    have ck: "cks (sess st w) = Some (chain_key X (base X sk ks (p w)) ?n)" "unat (ns (sess st w)) = ?n"
      using party False by (simp_all add: party_def)
    note sealed = sealed_opens [OF assms(2) ck lt, where i = i and m = m and layer = layer, unfolded o]
    show ?thesis
    proof (cases r)
      case (Inl err)
      then show ?thesis using sealed by (intro same) simp_all
    next
      case (Inr env)
      let ?st = "st\<lparr>sess := (sess st)(w := s), sent := (sent st)(w := sent st w @ [(m, env)])\<rparr>"
      let ?pos = "pos(w := pos w @ [(p w, ?n)])"
      have st: "duplex_step X layer st (Write w i m) = ?st" using o Inr by simp
      have s: "s = (sess st w)\<lparr>cks := Some (chain_key X (base X sk ks (p w)) (Suc ?n)), ns := ns (sess st w) + 1\<rparr>"
        "unat (ns (sess st w) + 1) = Suc ?n" "env_header env = seal_header (sess st w)"
        "opens_at X layer (base X sk ks (p w)) ?n (dhs_pub (sess st w)) (own_id (sess st w)) (peer_id (sess st w)) env m"
        using sealed Inr by simp_all
      have adj: "p w = Suc (p (\<not> w)) \<or> p (\<not> w) = Suc (p w)" using I by (simp add: drawn_ok_def)
      have "drawn_ok X ks ?ln (p w) (p (\<not> w))"
        using I False by (auto simp: drawn_ok_def)
      moreover have "side_inv X sk layer ids ks ?ln (p w) ?pos ?st w"
      proof -
        have "p w - 2 \<noteq> p w" using False by arith
        then have "party X sk ks ?ln (p w) s" using party False by (simp add: party_def s(1,2))
        moreover have "receives X sk ks ?ln (p w) ((!) (pos (\<not> w)) ` got st w) s"
          using I by (intro receives_ln) (simp_all add: s(1) side_inv_def receives_def)
        moreover have "carried X sk ks ln layer (ids w) (ids (\<not> w)) (p w, ?n) (m, env)"
          using I s(3,4) party by (simp add: carried_def seal_header_def side_inv_def party_def)
        then have "carries X sk ks ?ln layer (ids w) (ids (\<not> w)) (p w) (pos w @ [(p w, ?n)]) (sent st w @ [(m, env)])"
          using I False by (intro carries_snoc) (simp_all add: side_inv_def)
        ultimately show ?thesis
          using I assms(3) by (simp add: side_inv_def outstanding_def s(1))
      qed
      moreover have "side_inv X sk layer ids ks ?ln (p (\<not> w)) ?pos ?st (\<not> w)"
      proof -
        have "p (\<not> w) \<noteq> p w" "p (\<not> w) - 2 \<noteq> p w" "Suc (p w) = p (\<not> w) \<or> p (\<not> w) \<le> p w" "odd (p (\<not> w) + p w)"
          using neighbours [OF adj] False by simp_all
        moreover have g: "got st (\<not> w) \<subseteq> {..<length (pos w)}" using I side_lengths [of X sk layer ids ks ln "p w" pos st w]
          by (simp add: side_inv_def)
        then have "(!) (pos w @ [(p w, ?n)]) ` got st (\<not> w) = (!) (pos w) ` got st (\<not> w)"
          by (intro image_cong) (auto simp: nth_append)
        moreover have "outstanding ?st (\<not> w) \<le> 256"
        proof -
          have "length (sent st w) - card (got st (\<not> w)) < 256" using assms(3) by (simp add: outstanding_def)
          then show ?thesis by (simp add: outstanding_def)
        qed
        moreover have "receives X sk ks ?ln (p (\<not> w)) ((!) (pos w) ` got st (\<not> w)) (sess st (\<not> w))"
          "carries X sk ks ?ln layer (ids (\<not> w)) (ids w) (p (\<not> w)) (pos (\<not> w)) (sent st (\<not> w))"
          using I False calculation(3,4) by (simp_all add: side_inv_def receives_ln carries_ln)
        ultimately show ?thesis
          using I by (auto simp: side_inv_def party_ln)
      qed
      ultimately show ?thesis
        unfolding st by (intro exI [of _ ?ln] exI [of _ ?pos]) (simp add: duplex_inv_side [where w = w])
    qed
  qed
qed

section \<open>Opening keeps the invariant\<close>

lemma passed_sent:
  assumes "q = Suc p \<or> p = Suc q" and "\<forall>c. Suc c = p \<longrightarrow> m \<le> ln c"
  shows "passed ln p m \<subseteq> all_sent ln q"
  using assms by (auto simp: passed_def all_sent_def bound_def split: if_splits)

lemma match_key:
  assumes "drawn_ok X ks ln p q" and "side_inv X sk layer ids ks ln q pos st v" and "a \<in> all_sent ln q"
    and "b \<in> all_sent ln q" and "carried X sk ks ln layer own peer b me"
  shows "matches (env_header (snd me)) (key_at X sk ks a) \<longleftrightarrow> a = b"
proof -
  obtain c n where a: "a = (c, n)" by (cases a)
  obtain d k where b: "b = (d, k)" by (cases b)
  have "c \<le> q" "d \<le> q" using assms(3,4) a b by (auto simp: all_sent_def)
  then have inj: "rx_pub X (ks c) = rx_pub X (ks d) \<longleftrightarrow> c = d"
    using assms(1) unfolding drawn_ok_def inj_on_def by (metis atMost_iff le_max_iff_disj)
  have "n < ln c" "ln c \<le> length (sent st v)" "length (sent st v) < 2 ^ 32"
    using assms(2,3) a ln_le [OF assms(2), of c] by (auto simp: all_sent_def side_inv_def)
  then have "unat (word_of_nat n :: u32) = n" by (simp add: unat_of_nat)
  then have "word_of_nat n = hd_n (env_header (snd me)) \<longleftrightarrow> n = k"
    using assms(5) b by (auto simp: carried_def word_unat_eq_iff)
  then show ?thesis using inj assms(5) by (auto simp: matches_def carried_def a b)
qed

lemma key_inj:
  assumes "drawn_ok X ks ln p q" and "side_inv X sk layer ids ks ln q pos st v"
  shows "inj_on (key_at X sk ks) (all_sent ln q)"
proof (rule inj_onI)
  fix a b
  assume ab: "a \<in> all_sent ln q" "b \<in> all_sent ln q" "key_at X sk ks a = key_at X sk ks b"
  have "b \<in> set (pos v)" using ab(2) assms(2) by (simp add: side_inv_def carries_def)
  then obtain me where "carried X sk ks ln layer (ids v) (ids (\<not> v)) b me"
    using assms(2) unfolding side_inv_def carries_def by (metis in_set_conv_nth list_all2_conv_all_nth)
  from match_key [OF assms ab(1,2) this] match_key [OF assms ab(2,2) this] ab(3) show "a = b" by simp
qed

lemma receives_extend:
  assumes r: "receives X sk ks ln p R s" and c: "0 < c" "Suc c = p" and m: "unat (nr s) \<le> m"
    and inj: "inj_on (key_at X sk ks) (passed ln p m)"
  defines "sk' \<equiv> skipped s @ map (msg_key X (rx_pub X (ks c)) (base X sk ks c)) [unat (nr s)..<m]"
  shows "set sk' = key_at X sk ks ` (passed ln p m - R)" and "distinct sk'" and "R \<subseteq> passed ln p m"
    and "length (skipped s) + (m - unat (nr s)) = card (passed ln p m - R)"
proof -
  let ?n = "unat (nr s)" and ?new = "Pair c ` {unat (nr s)..<m}"
  have R: "R \<subseteq> passed ln p ?n" "distinct (skipped s)" "set (skipped s) = key_at X sk ks ` (passed ln p ?n - R)"
    using r by (simp_all add: receives_def)
  have split: "passed ln p m = passed ln p ?n \<union> ?new" and disj: "passed ln p ?n \<inter> ?new = {}"
    using c m by (auto simp: passed_def bound_def image_iff split: if_splits)
  then have diff: "passed ln p m - R = (passed ln p ?n - R) \<union> ?new" using R(1) by blast
  have new: "set (map (msg_key X (rx_pub X (ks c)) (base X sk ks c)) [?n..<m]) = key_at X sk ks ` ?new"
    by (simp add: image_image)
  show set: "set sk' = key_at X sk ks ` (passed ln p m - R)"
    unfolding sk'_def diff image_Un using R(3) new by simp
  have "inj_on (key_at X sk ks) ?new" by (rule inj_on_subset [OF inj]) (simp add: split)
  then have "inj_on (msg_key X (rx_pub X (ks c)) (base X sk ks c)) {?n..<m}"
    by (auto simp: inj_on_def)
  then have d: "distinct (map (msg_key X (rx_pub X (ks c)) (base X sk ks c)) [?n..<m])" by (simp add: distinct_map)
  have "key_at X sk ks ` (passed ln p ?n - R) \<inter> key_at X sk ks ` ?new = {}"
    using inj_on_image_Int [OF inj, of "passed ln p ?n - R" ?new] disj split by auto
  then show dist: "distinct sk'" unfolding sk'_def using R(2,3) d new by simp
  show "R \<subseteq> passed ln p m" using R(1) split by blast
  have "card (set sk') = card (passed ln p m - R)"
    unfolding set by (rule card_image, rule inj_on_subset [OF inj]) blast
  then show "length (skipped s) + (m - ?n) = card (passed ln p m - R)"
    using distinct_card [OF dist] by (simp add: sk'_def)
qed

text \<open>Delivering position \<open>n\<close> of the chain that is being received.\<close>

lemma receive_in_chain:
  assumes party: "party X sk ks ln p s" and r: "receives X sk ks ln p R s" and c: "0 < c" "Suc c = p"
    and n: "unat (nr s) \<le> n" "n < ln c" "unat hn = n" "Suc n < 2 ^ 32"
    and inj: "inj_on (key_at X sk ks) (passed ln p n)"
  defines "s' \<equiv> (skipped_to X (rx_pub X (ks c)) (base X sk ks c) hn s)\<lparr>ckr := Some (chain_key X (base X sk ks c) (Suc n)),
      nr := hn + 1, pending_init := False\<rparr>"
  shows "party X sk ks ln p s' \<and> receives X sk ks ln p (insert (c, n) R) s'"
proof
  have hn: "unat (hn + 1) = Suc n" using n by (simp add: unat_word_ariths)
  show "party X sk ks ln p s'" using party c hn by (auto simp: party_def s'_def skipped_to_def)
  note ext = receives_extend [OF r c n(1) inj]
  have "passed ln p (Suc n) = insert (c, n) (passed ln p n)" "(c, n) \<notin> passed ln p n"
    using c by (auto simp: passed_def bound_def less_Suc_eq split: if_splits)
  then have p: "passed ln p (Suc n) - insert (c, n) R = passed ln p n - R" "insert (c, n) R \<subseteq> passed ln p (Suc n)"
    using ext(3) by auto
  have s': "nr s' = hn + 1" "skipped s' = skipped s @ map (msg_key X (rx_pub X (ks c)) (base X sk ks c)) [unat (nr s)..<n]"
    by (simp_all add: s'_def skipped_to_def n(3))
  have "Suc n \<le> ln (p - 1)" using n(2) c(2) by auto
  then show "receives X sk ks ln p (insert (c, n) R) s'"
    unfolding receives_def s' hn using ext(1,2) p by metis
qed

text \<open>The first message of the next chain: finish the current one, then ratchet.\<close>

lemma ratchet_result:
  assumes party: "party X sk ks ln p s" and "dh_ok X" and q: "q = Suc p" and "ln (Suc q) = 0"
    and ks'_def: "ks' = ks(Suc q := f)"
  obtains s2 where "dh_ratchet X f (rx_pub X (ks q)) (s\<lparr>skipped := k, nr := n, ckr := c\<rparr>) = Inr s2"
    and "party X sk ks' ln (Suc q) s2" and "skipped s2 = k" and "nr s2 = 0"
    and "own_id s2 = own_id s" and "peer_id s2 = peer_id s"
proof -
  obtain d1 where d1: "rx_dh X (ks p) (rx_pub X (ks q)) = Some d1" "rx_dh X (ks q) (rx_pub X (ks p)) = Some d1"
    using assms(2) unfolding dh_ok_def by blast
  obtain d2 where d2: "rx_dh X f (rx_pub X (ks q)) = Some d2"
    using assms(2) unfolding dh_ok_def by blast
  have q1: "roots X sk ks q = kdf_root X (fst (roots X sk ks p)) d1" using d1(2) q by simp
  have q2: "roots X sk ks' (Suc q) = kdf_root X (fst (roots X sk ks q)) d2" using d2 by (simp add: ks'_def)
  have s: "dhs s = ks p" "root s = fst (roots X sk ks p)" "unat (ns s) = ln p" using party by (simp_all add: party_def)
  let ?s2 = "s\<lparr>skipped := k, pn := ns s, ns := 0, nr := 0, dhr := Some (rx_pub X (ks q)), root := fst (roots X sk ks' (Suc q)),
    ckr := Some (base X sk ks q), dhs := f, dhs_pub := rx_pub X f, cks := Some (base X sk ks' (Suc q))\<rparr>"
  show ?thesis
  proof (rule that [of ?s2])
    show "dh_ratchet X f (rx_pub X (ks q)) (s\<lparr>skipped := k, nr := n, ckr := c\<rparr>) = Inr ?s2"
      using d1(1) d2 unfolding dh_ratchet_def dh_def q2
      by (simp add: s(1,2) Let_def q1 [symmetric] split: prod.split)
    have "roots X sk ks' q = roots X sk ks q" by (simp add: ks'_def)
    then show "party X sk ks' ln (Suc q) ?s2"
      using s(3) assms(4) q by (simp add: party_def ks'_def del: roots.simps)
  qed simp_all
qed

lemma receives_next:
  assumes r: "receives X sk ks ln p R s" and party: "party X sk ks ln p s" and "ln 0 = 0"
    and inj: "inj_on (key_at X sk ks) (passed ln p (ln (p - 1)))"
    and k: "k = skipped s @ (if p \<le> 1 then [] else map (msg_key X (rx_pub X (ks (p - 1))) (base X sk ks (p - 1))) [unat (nr s)..<ln (p - 1)])"
    and s2: "skipped s2 = k" "nr s2 = 0"
  shows "receives X sk ks ln (Suc (Suc p)) R s2" and "length k = card (passed ln p (ln (p - 1)) - R)"
proof -
  have p2: "passed ln (Suc (Suc p)) 0 = passed ln p (ln (p - 1))"
    by (auto simp: passed_def bound_def split: if_splits) (metis less_Suc_eq)+
  have "set k = key_at X sk ks ` (passed ln p (ln (p - 1)) - R) \<and> distinct k \<and> R \<subseteq> passed ln p (ln (p - 1)) \<and>
    length k = card (passed ln p (ln (p - 1)) - R)"
  proof (cases "p \<le> 1")
    case True
    then have e: "passed ln p m = {}" for m by (auto simp: passed_def)
    then show ?thesis using r True k by (simp add: receives_def)
  next
    case False
    have m: "unat (nr s) \<le> ln (p - 1)" using r False by (simp add: receives_def)
    note ext = receives_extend [OF r, of "p - 1" "ln (p - 1)"]
    show ?thesis using ext False m inj k by simp
  qed
  then show "receives X sk ks ln (Suc (Suc p)) R s2" "length k = card (passed ln p (ln (p - 1)) - R)"
    using p2 s2 by (simp_all add: receives_def)
qed

text \<open>Putting the new session of one side back into the network.\<close>

lemma deliver_update:
  assumes inv: "side_inv X sk layer ids ks ln p pos st w" "side_inv X sk layer ids ks ln q pos st (\<not> w)"
    and j: "j < length (sent st (\<not> w))" "j \<notin> got st w"
    and s: "party X sk ks ln p' s" "receives X sk ks ln p' (insert (pos (\<not> w) ! j) ((!) (pos (\<not> w)) ` got st w)) s"
      "own_id s = ids w" "peer_id s = ids (\<not> w)" "all_sent ln p' = all_sent ln p"
  defines "st' \<equiv> st\<lparr>sess := (sess st)(w := s), got := (got st)(w := insert j (got st w))\<rparr>"
  shows "side_inv X sk layer ids ks ln p' pos st' w" and "side_inv X sk layer ids ks ln q pos st' (\<not> w)"
proof -
  have "finite (got st w)" using inv(1) by (auto simp: side_inv_def intro: finite_subset)
  then have "outstanding st' w \<le> outstanding st w" using j by (simp add: outstanding_def st'_def)
  then show "side_inv X sk layer ids ks ln p' pos st' w"
    using inv(1) j s by (simp add: side_inv_def st'_def carries_def)
  show "side_inv X sk layer ids ks ln q pos st' (\<not> w)"
    using inv(2) by (simp add: side_inv_def st'_def outstanding_def)
qed

lemma position_cases:
  assumes "q = Suc p \<or> p = Suc q" and "0 < c" and "c \<le> q" and "even (q + c)" and "n < ln c"
  obtains (kept) "(c, n) \<in> passed ln p k" | (same) "Suc c = p" "k \<le> n" | (ahead) "c = Suc p" "q = c"
proof (cases "c < p")
  case True
  have "odd (p + c)" using assms(1,4) by auto
  then have "(c, n) \<in> passed ln p k \<or> Suc c = p \<and> k \<le> n" using True assms(2,5) by (auto simp: passed_def bound_def not_less)
  then show ?thesis using kept same by blast
next
  case False
  then have "c = p \<or> c = Suc p" using assms(1,3) by auto
  moreover have "c \<noteq> p" using assms(1,4) by auto
  ultimately show ?thesis using assms(1,3) ahead by auto
qed

lemma drawn_next:
  assumes "drawn_ok X ks ln p q" and "rx_pub X f \<notin> (\<lambda>c. rx_pub X (ks c)) ` {..max p q}" and "c = Suc p" and "q = c"
  shows "drawn_ok X (ks(Suc q := f)) ln (Suc q) q"
proof -
  have "max p q = q" using assms by simp
  then have inj: "inj_on (\<lambda>c. rx_pub X (ks c)) {..q}" and f: "rx_pub X f \<notin> (\<lambda>c. rx_pub X (ks c)) ` {..q}"
    using assms by (simp_all add: drawn_ok_def)
  have e: "rx_pub X ((ks(Suc q := f)) c) = (if c = Suc q then rx_pub X f else rx_pub X (ks c))" for c by simp
  have "inj_on (\<lambda>c. rx_pub X ((ks(Suc q := f)) c)) {..Suc q}"
  proof (rule inj_onI)
    fix a b
    assume "a \<in> {..Suc q}" "b \<in> {..Suc q}" "rx_pub X ((ks(Suc q := f)) a) = rx_pub X ((ks(Suc q := f)) b)"
    then show "a = b"
      unfolding e using inj_onD [OF inj, of a b] f by (cases "a = Suc q"; cases "b = Suc q") (force simp: le_Suc_eq)+
  qed
  then show ?thesis using assms by (auto simp: drawn_ok_def)
qed

lemma deliver_side:
  assumes drawn: "drawn_ok X ks ln p q" and self: "side_inv X sk layer ids ks ln p pos st w"
    and other: "side_inv X sk layer ids ks ln q pos st (\<not> w)" and dh: "dh_ok X"
    and j: "j < length (sent st (\<not> w))" "j \<notin> got st w"
    and fresh: "rx_pub X f \<notin> (\<lambda>c. rx_pub X (ks c)) ` {..max p q}"
  defines "st' \<equiv> \<lambda>s. st\<lparr>sess := (sess st)(w := s), got := (got st)(w := insert j (got st w))\<rparr>"
  shows "\<exists>s ks' p'. open_with X f (snd (sent st (\<not> w) ! j)) layer (sess st w) = (s, Inr (fst (sent st (\<not> w) ! j))) \<and>
    drawn_ok X ks' ln p' q \<and> side_inv X sk layer ids ks' ln p' pos (st' s) w \<and> side_inv X sk layer ids ks' ln q pos (st' s) (\<not> w) \<and>
    (\<lambda>c. rx_pub X (ks' c)) ` {..max p' q} \<subseteq> insert (rx_pub X f) ((\<lambda>c. rx_pub X (ks c)) ` {..max p q})"
proof -
  let ?s = "sess st w" and ?R = "(!) (pos (\<not> w)) ` got st w"
  obtain m env where me: "sent st (\<not> w) ! j = (m, env)" by (metis surj_pair)
  define h where "h = env_header env"
  have party: "party X sk ks ln p ?s" and r: "receives X sk ks ln p ?R ?s" and ids: "own_id ?s = ids w" "peer_id ?s = ids (\<not> w)"
    using self by (simp_all add: side_inv_def)
  obtain c n where cn: "pos (\<not> w) ! j = (c, n)" by (metis surj_pair)
  have len: "length (pos (\<not> w)) = length (sent st (\<not> w))" by (rule side_lengths [OF other])
  have carr: "carries X sk ks ln layer (ids (\<not> w)) (ids w) q (pos (\<not> w)) (sent st (\<not> w))" using other by (simp add: side_inv_def)
  then have mem: "(c, n) \<in> all_sent ln q" using cn j(1) len unfolding carries_def by (metis nth_mem)
  have "carried X sk ks ln layer (ids (\<not> w)) (ids w) (pos (\<not> w) ! j) (sent st (\<not> w) ! j)"
    using carr j(1) len unfolding carries_def by (auto dest: list_all2_nthD)
  then have car: "carried X sk ks ln layer (ids (\<not> w)) (ids w) (c, n) (m, env)" unfolding me cn by simp
  then have hd: "dh_pub h = rx_pub X (ks c)" "unat (hd_n h) = n" "unat (hd_pn h) = ln (c - 2)"
    and op: "opens_at X layer (base X sk ks c) n (rx_pub X (ks c)) (peer_id ?s) (own_id ?s) env m"
    using ids by (simp_all add: carried_def h_def)
  have new: "(c, n) \<notin> ?R"
  proof
    assume "(c, n) \<in> ?R"
    then obtain i where "i \<in> got st w" "pos (\<not> w) ! i = pos (\<not> w) ! j" using cn by auto
    moreover have "got st w \<subseteq> {..<length (pos (\<not> w))}" using self len by (simp add: side_inv_def)
    ultimately show False using j len carr by (auto simp: carries_def nth_eq_iff_index_eq subset_iff)
  qed
  have c: "0 < c" "c \<le> q" "even (q + c)" "n < ln c" using mem by (simp_all add: all_sent_def)
  have small: "Suc n < 2 ^ 32"
    using ln_le [OF other c(1-3)] c(4) other by (simp add: side_inv_def)
  have adj: "q = Suc p \<or> p = Suc q" using drawn by (auto simp: drawn_ok_def)
  have inj: "inj_on (key_at X sk ks) (all_sent ln q)" by (rule key_inj [OF drawn other])
  have nrle: "Suc a = p \<Longrightarrow> unat (nr ?s) \<le> ln a" for a
    using r unfolding receives_def by (metis diff_Suc_1 zero_less_Suc)
  have sub: "passed ln p k \<subseteq> all_sent ln q" if "\<And>a. Suc a = p \<Longrightarrow> k \<le> ln a" for k
    by (rule passed_sent [OF adj]) (use that in blast)
  have match: "a \<in> passed ln p (unat (nr ?s)) \<Longrightarrow> matches h (key_at X sk ks a) \<longleftrightarrow> a = (c, n)" for a
    unfolding h_def using match_key [OF drawn other _ mem car, of a] sub [OF nrle] by auto
  have win: "card (passed ln p k - ?R) \<le> 256" if "\<And>a. Suc a = p \<Longrightarrow> k \<le> ln a" for k
    by (rule window [OF self other]) (use sub [OF that] in blast)
  from adj c show ?thesis
  proof (cases rule: position_cases [where k = "unat (nr ?s)"])
    case kept
    let ?k = "key_at X sk ks (c, n)" and ?P = "passed ln p (unat (nr ?s))"
    have sk: "set (skipped ?s) = key_at X sk ks ` (?P - ?R)" "distinct (skipped ?s)" "?R \<subseteq> ?P"
      using r by (simp_all add: receives_def)
    have k1: "?k \<in> set (skipped ?s)" using kept new sk(1) by blast
    have k2: "matches (env_header env) k' \<longleftrightarrow> k' = ?k" if "k' \<in> set (skipped ?s)" for k'
    proof -
      obtain a where a: "a \<in> ?P" "k' = key_at X sk ks a" using \<open>k' \<in> set (skipped ?s)\<close> sk(1) by blast
      have "k' = ?k \<longleftrightarrow> a = (c, n)" unfolding a(2) using inj_on_eq_iff [OF inj] a(1) kept sub [OF nrle] by blast
      then show ?thesis using match [OF a(1)] by (simp add: h_def a(2))
    qed
    have k3: "?k = msg_key X (rx_pub X (ks c)) (base X sk ks c) n" by simp
    obtain ks2 where o: "open_with X f env layer ?s = (?s\<lparr>skipped := ks2\<rparr>, Inr m)"
      "set ks2 = set (skipped ?s) - {?k}" "distinct ks2"
      by (rule open_kept [OF k1 k2 k3 op sk(2), of f])
    have "key_at X sk ks ` (?P - insert (c, n) ?R) = key_at X sk ks ` ((?P - ?R) - {(c, n)})" by (rule arg_cong) blast
    also have "\<dots> = set ks2"
      using inj_on_image_set_diff [OF inj, of "?P - ?R" "{(c, n)}"] kept new sub [OF nrle] by (auto simp: o(2) sk(1))
    finally have "receives X sk ks ln p (insert (c, n) ?R) (?s\<lparr>skipped := ks2\<rparr>)"
      using r kept o(3) by (simp add: receives_def)
    moreover have "party X sk ks ln p (?s\<lparr>skipped := ks2\<rparr>)" using party by (simp add: party_def)
    ultimately show ?thesis
      using o(1) ids drawn deliver_update [OF self other j, of p "?s\<lparr>skipped := ks2\<rparr>"] cn
      by (intro exI [of _ "?s\<lparr>skipped := ks2\<rparr>"] exI [of _ ks] exI [of _ p]) (auto simp: me st'_def)
  next
    case same
    have k: "Suc a = p \<Longrightarrow> n \<le> ln a" for a using same c(4) by auto
    have inj': "inj_on (key_at X sk ks) (passed ln p n)" by (rule inj_on_subset [OF inj sub [OF k]])
    let ?s' = "(skipped_to X (rx_pub X (ks c)) (base X sk ks c) (hd_n h) ?s)\<lparr>ckr := Some (chain_key X (base X sk ks c) (Suc n)),
      nr := hd_n h + 1, pending_init := False\<rparr>"
    have p1: "dhr ?s = Some (dh_pub h)" "ckr ?s = Some (chain_key X (base X sk ks c) (unat (nr ?s)))"
      using party same(1) c(1) hd(1) by (auto simp: party_def)
    have "open_with X f env layer ?s = (?s', Inr m)"
      unfolding hd(1,2) [symmetric]
    proof (rule open_next [where s = ?s and ck = "base X sk ks c" and h = h])
      show "(if dhr ?s \<noteq> Some (dh_pub h) then (case skip_until X (hd_pn h) ?s of Inl err \<Rightarrow> Inl err | Inr s \<Rightarrow> dh_ratchet X f (dh_pub h) s)
          else if hd_n h < nr ?s then Inl Replay else Inr ?s) = Inr ?s"
        using p1(1) same(2) hd(2) by (simp add: word_less_nat_alt)
      show "\<not> matches h k" if "k \<in> set (skipped ?s)" for k
        using that r match same by (auto simp: receives_def passed_def bound_def)
      show "length (skipped ?s) + (unat (hd_n h) - unat (nr ?s)) \<le> 256"
        using receives_extend(4) [OF r c(1) same inj'] win [OF k] hd(2) by simp
    qed (use p1 same(2) hd op small in \<open>simp_all add: h_def word_le_nat_alt\<close>)
    moreover have "party X sk ks ln p ?s' \<and> receives X sk ks ln p (insert (c, n) ?R) ?s'"
      by (rule receive_in_chain [OF party r c(1) same c(4) hd(2) small inj'])
    ultimately show ?thesis
      using ids drawn deliver_update [OF self other j, of p ?s'] cn
      by (intro exI [of _ ?s'] exI [of _ ks] exI [of _ p]) (auto simp: me st'_def skipped_to_def)
  next
    case ahead
    have k: "Suc a = p \<Longrightarrow> ln (p - 1) \<le> ln a" for a by (metis diff_Suc_1 order_refl)
    have top: "ln (Suc q) = 0" "ln 0 = 0" using drawn ahead by (simp_all add: drawn_ok_def)
    have inj': "inj_on (key_at X sk ks) (passed ln p (ln (p - 1)))" by (rule inj_on_subset [OF inj sub [OF k]])
    define kk where "kk = skipped ?s @ (if p \<le> 1 then [] else map (msg_key X (rx_pub X (ks (p - 1))) (base X sk ks (p - 1))) [unat (nr ?s)..<ln (p - 1)])"
    define ks' where "ks' = ks(Suc q := f)"
    have pn: "unat (hd_pn h) = ln (p - 1)" using hd(3) ahead by simp
    have nrp: "unat (nr ?s) \<le> ln (p - 1)" if "\<not> p \<le> 1" using nrle [of "p - 1"] that by simp
    have "length kk \<le> 256" using receives_next(2) [OF r party top(2) inj' kk_def, of "?s\<lparr>skipped := kk, nr := 0\<rparr>"] win [OF k] by simp
    then have "\<exists>n1 c1. skip_until X (hd_pn h) ?s = Inr (?s\<lparr>skipped := kk, nr := n1, ckr := c1\<rparr>)"
    proof (cases "p \<le> 1")
      case True
      then have "skip_until X (hd_pn h) ?s = Inr (?s\<lparr>skipped := kk, nr := nr ?s, ckr := ckr ?s\<rparr>)"
        using party by (simp add: kk_def skip_until_def party_def)
      then show ?thesis by blast
    next
      case False
      have "skip_until X (hd_pn h) ?s = Inr (skipped_to X (rx_pub X (ks (p - 1))) (base X sk ks (p - 1)) (hd_pn h) ?s)"
        by (rule skip_until_result)
          (use party False nrp \<open>length kk \<le> 256\<close> in \<open>auto simp: party_def pn kk_def word_le_nat_alt\<close>)
      then show ?thesis using False pn by (auto simp: skipped_to_def kk_def)
    qed
    then obtain n1 c1 where skip: "skip_until X (hd_pn h) ?s = Inr (?s\<lparr>skipped := kk, nr := n1, ckr := c1\<rparr>)" by blast
    obtain s2 where s2: "dh_ratchet X f (rx_pub X (ks q)) (?s\<lparr>skipped := kk, nr := n1, ckr := c1\<rparr>) = Inr s2"
      "party X sk ks' ln (Suc q) s2" "skipped s2 = kk" "nr s2 = 0" "own_id s2 = own_id ?s" "peer_id s2 = peer_id ?s"
      by (rule ratchet_result [OF party dh _ top(1) ks'_def]) (use ahead in simp)
    have r2: "receives X sk ks' ln (Suc q) ?R s2"
      using receives_next(1) [OF r party top(2) inj' kk_def s2(3,4)] ahead unfolding ks'_def by (simp add: receives_upd)
    have drawn': "drawn_ok X ks' ln (Suc q) q"
      using drawn fresh ahead unfolding ks'_def by (rule drawn_next)
    have self': "side_inv X sk layer ids ks' ln p pos st w" and other': "side_inv X sk layer ids ks' ln q pos st (\<not> w)"
      using self other ahead unfolding ks'_def by (simp_all add: side_upd)
    have kc: "ks' c = ks c" "roots X sk ks' c = roots X sk ks c" using ahead by (simp_all add: ks'_def)
    have sub2: "passed ln (Suc q) n \<subseteq> all_sent ln q"
      by (rule passed_sent) (use ahead c(4) in auto)
    have inj2: "inj_on (key_at X sk ks') (passed ln (Suc q) n)"
      by (rule inj_on_subset [OF key_inj [OF drawn' other'] sub2])
    have cq: "Suc c = Suc q" "unat (nr s2) \<le> n" using ahead s2(4) by simp_all
    let ?s' = "(skipped_to X (rx_pub X (ks' c)) (base X sk ks' c) (hd_n h) s2)\<lparr>ckr := Some (chain_key X (base X sk ks' c) (Suc n)),
      nr := hd_n h + 1, pending_init := False\<rparr>"
    have "open_with X f env layer ?s = (?s', Inr m)"
      unfolding kc hd(1,2) [symmetric]
    proof (rule open_next [where s = ?s and ck = "base X sk ks c" and h = h])
      have "dhr ?s \<noteq> Some (dh_pub h)"
      proof -
        have "rx_pub X (ks (p - 1)) \<noteq> rx_pub X (ks c)"
          using drawn ahead inj_on_eq_iff [of "\<lambda>c. rx_pub X (ks c)" "{..max p q}" "p - 1" c] by (simp add: drawn_ok_def)
        then show ?thesis using party hd(1) by (simp add: party_def)
      qed
      then show "(if dhr ?s \<noteq> Some (dh_pub h) then (case skip_until X (hd_pn h) ?s of Inl err \<Rightarrow> Inl err | Inr s \<Rightarrow> dh_ratchet X f (dh_pub h) s)
          else if hd_n h < nr ?s then Inl Replay else Inr ?s) = Inr s2"
        using skip s2(1) hd(1) ahead by simp
      show "\<not> matches h k" if "k \<in> set (skipped ?s)" for k
        using that r match ahead by (auto simp: receives_def passed_def)
      show "ckr s2 = Some (chain_key X (base X sk ks c) (unat (nr s2)))" "dhr s2 = Some (dh_pub h)"
        using s2(2) c(1) hd(1) kc ahead by (auto simp: party_def)
      have "card (passed ln (Suc q) n - ?R) \<le> 256" by (rule window [OF self other]) (use sub2 in blast)
      then show "length (skipped s2) + (unat (hd_n h) - unat (nr s2)) \<le> 256"
        using receives_extend(4) [OF r2 c(1) cq inj2] hd(2) by simp
    qed (use s2(4) hd op small in \<open>simp_all add: h_def\<close>)
    moreover have "party X sk ks' ln (Suc q) ?s' \<and> receives X sk ks' ln (Suc q) (insert (c, n) ?R) ?s'"
      by (rule receive_in_chain [OF s2(2) r2 c(1) cq c(4) hd(2) small inj2])
    moreover have "all_sent ln (Suc q) = all_sent ln p"
      using top(1) ahead by (auto simp: all_sent_def le_Suc_eq)
    ultimately show ?thesis
      using ids s2(5,6) drawn' deliver_update [OF self' other' j, of "Suc q" ?s'] cn ahead
      by (intro exI [of _ ?s'] exI [of _ ks'] exI [of _ "Suc q"]) (auto simp: me st'_def skipped_to_def ks'_def)
  qed
qed

section \<open>Whole runs\<close>

lemma start_inv:
  assumes "dh_ok X" and "convert_ok X sa" and "convert_ok X sb" and "rx_pub X (rx_scalar X sb) \<noteq> rx_pub X ratchet"
    and "duplex_start X ek ratchet (from_seed X sa) (from_seed X sb) = Inr st"
  shows "\<exists>sk. duplex_inv X sk layer (\<lambda>w. rx_ed_public X (if w then sa else sb)) (\<lambda>c. if c = 0 then rx_scalar X sb else ratchet)
    (\<lambda>_. 0) (\<lambda>w. if w then 1 else 0) (\<lambda>_. []) st"
proof -
  let ?a = "rx_scalar X sa" and ?b = "rx_scalar X sb"
  obtain d1 where d1: "rx_dh X ?a (rx_pub X ?b) = Some d1" "rx_dh X ?b (rx_pub X ?a) = Some d1" using assms(1) unfolding dh_ok_def by blast
  obtain d2 where d2: "rx_dh X ek (rx_pub X ?b) = Some d2" "rx_dh X ?b (rx_pub X ek) = Some d2" using assms(1) unfolding dh_ok_def by blast
  obtain d3 where d3: "rx_dh X ratchet (rx_pub X ?b) = Some d3" using assms(1) unfolding dh_ok_def by blast
  define sk where "sk = kdf_first_flight X d1 d2 (rx_ed_public X sa) (rx_ed_public X sb) (rx_pub X ek)"
  obtain rk ck where k: "kdf_root X sk d3 = (rk, ck)" by (metis surj_pair)
  have "st = \<lparr>sess = (\<lambda>w. if w
      then \<lparr>own_id = rx_ed_public X sa, peer_id = rx_ed_public X sb, root = rk, dhs = ratchet, dhs_pub = rx_pub X ratchet,
            dhr = Some (rx_pub X ?b), cks = Some ck, ckr = None, ns = 0, nr = 0, pn = 0, skipped = [],
            origin_ek = rx_pub X ek, initiator = True, pending_init = True\<rparr>
      else \<lparr>own_id = rx_ed_public X sb, peer_id = rx_ed_public X sa, root = sk, dhs = ?b, dhs_pub = rx_pub X ?b, dhr = None, cks = None,
            ckr = None, ns = 0, nr = 0, pn = 0, skipped = [], origin_ek = rx_pub X ek, initiator = False, pending_init = False\<rparr>),
    sent = (\<lambda>_. []), got = (\<lambda>_. {})\<rparr>"
    using assms(2,3,5) d1 d2 d3 k
    by (auto simp: duplex_start_def new_initiator_def new_responder_def peer_dh_public_def from_seed_def convert_ok_def dh_def sk_def
        Let_def)
  then have "duplex_inv X sk layer (\<lambda>w. rx_ed_public X (if w then sa else sb)) (\<lambda>c. if c = 0 then ?b else ratchet)
      (\<lambda>_. 0) (\<lambda>w. if w then 1 else 0) (\<lambda>_. []) st"
    using assms(4) d3 k
    by (auto simp: duplex_inv_def drawn_ok_def side_inv_def party_def receives_def carries_def passed_def all_sent_def outstanding_def
        inj_on_def bound_def)
  then show ?thesis ..
qed

definition used_keys :: "rext \<Rightarrow> (nat \<Rightarrow> bytes) \<Rightarrow> (bool \<Rightarrow> nat) \<Rightarrow> bytes set" where
  "used_keys X ks p = (\<lambda>c. rx_pub X (ks c)) ` {..max (p True) (p False)}"

lemma used_keys_side: "used_keys X ks p = (\<lambda>c. rx_pub X (ks c)) ` {..max (p w) (p (\<not> w))}"
  by (cases w) (simp_all add: used_keys_def max.commute)

lemma deliver_step:
  assumes inv: "duplex_inv X sk layer ids ks ln p pos st" and "dh_ok X"
    and "j < length (sent st (\<not> w))" "j \<notin> got st w" and "rx_pub X f \<notin> used_keys X ks p"
  shows "snd (open_with X f (snd (sent st (\<not> w) ! j)) layer (sess st w)) = Inr (fst (sent st (\<not> w) ! j)) \<and>
    (\<exists>ks' p'. duplex_inv X sk layer ids ks' ln p' pos (duplex_step X layer st (Deliver w j f)) \<and>
      used_keys X ks' p' \<subseteq> insert (rx_pub X f) (used_keys X ks p))"
proof -
  note I = inv [unfolded duplex_inv_side [where w = w]]
  from deliver_side [of X ks ln "p w" "p (\<not> w)" sk layer ids pos st w j f] obtain s ks' pw where
    o: "open_with X f (snd (sent st (\<not> w) ! j)) layer (sess st w) = (s, Inr (fst (sent st (\<not> w) ! j)))" and
    d: "drawn_ok X ks' ln pw (p (\<not> w))" and
    i: "side_inv X sk layer ids ks' ln pw pos (st\<lparr>sess := (sess st)(w := s), got := (got st)(w := insert j (got st w))\<rparr>) w"
      "side_inv X sk layer ids ks' ln (p (\<not> w)) pos (st\<lparr>sess := (sess st)(w := s), got := (got st)(w := insert j (got st w))\<rparr>) (\<not> w)" and
    u: "(\<lambda>c. rx_pub X (ks' c)) ` {..max pw (p (\<not> w))} \<subseteq> insert (rx_pub X f) (used_keys X ks p)"
    using I assms(2-5) used_keys_side [of X ks p w] by auto
  have "duplex_inv X sk layer ids ks' ln (p(w := pw)) pos (duplex_step X layer st (Deliver w j f))"
    unfolding duplex_inv_side [where w = w] using o d i assms(3) by simp
  moreover have "used_keys X ks' (p(w := pw)) \<subseteq> insert (rx_pub X f) (used_keys X ks p)"
    using u by (simp add: used_keys_side [of X ks' "p(w := pw)" w])
  ultimately show ?thesis unfolding o snd_conv by blast
qed

lemma inject_step:
  assumes "orderly X layer st (Inject w env f)"
  shows "duplex_step X layer st (Inject w env f) = st"
proof -
  obtain s r where o: "open_with X f env layer (sess st w) = (s, r)" by (metis surj_pair)
  moreover have "isl r" using o assms by simp
  ultimately have "s = sess st w" by (cases rule: open_with_cases) auto
  then show ?thesis using o by simp
qed

lemma disjoint_extend: "x \<notin> F \<Longrightarrow> F \<inter> U = {} \<Longrightarrow> V \<subseteq> insert x U \<Longrightarrow> F \<inter> V = {}"
  by blast

lemma run_inv:
  assumes "duplex_inv X sk layer ids ks ln p pos st" and "dh_ok X" and "ratchet_aead_ok X" and "orderly_run X layer st es"
    and "distinct (map (rx_pub X) (fresh_secrets es))" and "rx_pub X ` set (fresh_secrets es) \<inter> used_keys X ks p = {}"
  shows "\<exists>ks' ln' p' pos'. duplex_inv X sk layer ids ks' ln' p' pos' (foldl (duplex_step X layer) st es) \<and>
    used_keys X ks' p' \<subseteq> rx_pub X ` set (fresh_secrets es) \<union> used_keys X ks p"
  using assms
proof (induction es arbitrary: ks ln p pos st)
  case Nil
  then show ?case by auto
next
  case (Cons e es)
  let ?st = "duplex_step X layer st e"
  have run: "orderly X layer st e" "orderly_run X layer ?st es" using Cons.prems(4) by simp_all
  show ?case
  proof (cases e)
    case (Write w i m)
    then obtain ln' pos' where "duplex_inv X sk layer ids ks ln' p pos' ?st"
      using write_step Cons.prems(1,3) run(1) by blast
    then show ?thesis using Cons.IH [OF _ Cons.prems(2,3) run(2)] Cons.prems(5,6) Write by simp
  next
    case (Deliver w j f)
    have f: "rx_pub X f \<notin> used_keys X ks p" using Cons.prems(6) Deliver by simp
    obtain ks' p' where i: "duplex_inv X sk layer ids ks' ln p' pos ?st" "used_keys X ks' p' \<subseteq> insert (rx_pub X f) (used_keys X ks p)"
    proof (cases "j < length (sent st (\<not> w))")
      case True
      then show ?thesis using that deliver_step [OF Cons.prems(1,2) True _ f] run(1) Deliver by auto
    qed (use that Cons.prems(1) Deliver in auto)
    have d: "rx_pub X f \<notin> rx_pub X ` set (fresh_secrets es)" "distinct (map (rx_pub X) (fresh_secrets es))"
      "rx_pub X ` set (fresh_secrets es) \<inter> used_keys X ks p = {}"
      using Cons.prems(5,6) Deliver by simp_all
    have "rx_pub X ` set (fresh_secrets es) \<inter> used_keys X ks' p' = {}" by (rule disjoint_extend [OF d(1,3) i(2)])
    then obtain ks'' ln'' p'' pos'' where "duplex_inv X sk layer ids ks'' ln'' p'' pos'' (foldl (duplex_step X layer) ?st es)"
      and "used_keys X ks'' p'' \<subseteq> rx_pub X ` set (fresh_secrets es) \<union> used_keys X ks' p'"
      using Cons.IH [OF i(1) Cons.prems(2,3) run(2) d(2)] by blast
    moreover from this(2) have "used_keys X ks'' p'' \<subseteq> rx_pub X ` set (fresh_secrets (e # es)) \<union> used_keys X ks p"
      using i(2) Deliver by auto
    ultimately show ?thesis by (metis foldl_Cons)
  next
    case (Inject w env f)
    then have "?st = st" using inject_step run(1) by blast
    then show ?thesis using Cons.IH [OF Cons.prems(1-3)] run(2) Cons.prems(5,6) Inject by simp
  qed
qed

lemma run_reaches:
  assumes "dh_ok X" and "ratchet_aead_ok X" and "convert_ok X sa" and "convert_ok X sb"
    and "duplex_start X ek ratchet (from_seed X sa) (from_seed X sb) = Inr st0" and "orderly_run X layer st0 es"
    and "distinct (map (rx_pub X) (rx_scalar X sb # ratchet # fresh_secrets es))"
  obtains sk ids ks ln p pos where "duplex_inv X sk layer ids ks ln p pos (foldl (duplex_step X layer) st0 es)"
    and "used_keys X ks p \<subseteq> rx_pub X ` set (rx_scalar X sb # ratchet # fresh_secrets es)"
proof -
  let ?ks = "\<lambda>c. if c = 0 then rx_scalar X sb else ratchet" and ?p = "\<lambda>w. if w then 1 else 0 :: nat"
  have "rx_pub X (rx_scalar X sb) \<noteq> rx_pub X ratchet" using assms(7) by simp
  then obtain sk ids where 0: "duplex_inv X sk layer ids ?ks (\<lambda>_. 0) ?p (\<lambda>_. []) st0"
    using start_inv assms(1,3-5) by blast
  have u: "used_keys X ?ks ?p = {rx_pub X (rx_scalar X sb), rx_pub X ratchet}" by (auto simp: used_keys_def image_iff)
  have "\<exists>ks' ln' p' pos'. duplex_inv X sk layer ids ks' ln' p' pos' (foldl (duplex_step X layer) st0 es) \<and>
      used_keys X ks' p' \<subseteq> rx_pub X ` set (fresh_secrets es) \<union> used_keys X ?ks ?p"
    using assms(7) u by (intro run_inv [OF 0 assms(1,2,6)]) auto
  then show ?thesis using that u by auto
qed

text \<open>
  C5: messages are delivered whatever the network does. Two sessions are set up from the two identities, exchange any
  number of messages in both directions, every message delayed and reordered freely while at most 256 to a side are
  outstanding, and forged envelopes are fed in between. Then every message not yet opened opens to the plaintext that
  was written, on its first delivery, through as many ratchet turns as there were.
\<close>

theorem ratchet_delivers:
  assumes "dh_ok X" and "ratchet_aead_ok X" and "convert_ok X sa" and "convert_ok X sb"
    and "duplex_start X ek ratchet (from_seed X sa) (from_seed X sb) = Inr st0" and "orderly_run X layer st0 es"
    and "distinct (map (rx_pub X) (rx_scalar X sb # ratchet # f # fresh_secrets es))"
    and "st = foldl (duplex_step X layer) st0 es" and "j < length (sent st (\<not> w))" and "j \<notin> got st w"
  shows "snd (open_with X f (snd (sent st (\<not> w) ! j)) layer (sess st w)) = Inr (fst (sent st (\<not> w) ! j))"
proof -
  have d: "distinct (map (rx_pub X) (rx_scalar X sb # ratchet # fresh_secrets es))" using assms(7) by auto
  obtain sk ids ks ln p pos where inv: "duplex_inv X sk layer ids ks ln p pos st"
    and "used_keys X ks p \<subseteq> rx_pub X ` set (rx_scalar X sb # ratchet # fresh_secrets es)"
    by (rule run_reaches [OF assms(1-6) d]) (use assms(8) in blast)
  then have "rx_pub X f \<notin> used_keys X ks p" using assms(7) by fastforce
  then show ?thesis using deliver_step [OF inv assms(1,9,10)] by blast
qed

section \<open>A conversation\<close>

lemma sent_grows: "\<exists>xs. sent (duplex_step X layer st e) w = sent st w @ xs \<and> length xs \<le> 1"
  by (cases e) (auto split: prod.split sum.split)

lemma sent_keeps: "i < length (sent st w) \<Longrightarrow>
  i < length (sent (foldl (duplex_step X layer) st es) w) \<and> sent (foldl (duplex_step X layer) st es) w ! i = sent st w ! i"
proof (induction es arbitrary: st)
  case (Cons e es)
  obtain xs where "sent (duplex_step X layer st e) w = sent st w @ xs" using sent_grows by blast
  then show ?case using Cons.IH [of "duplex_step X layer st e"] Cons.prems by (simp add: nth_append)
qed simp

lemma got_step: "got (duplex_step X layer st e) w \<subseteq> got st w \<union> (case e of Deliver v j f \<Rightarrow> if v = w then {j} else {} | _ \<Rightarrow> {})"
  by (cases e) (auto split: prod.split sum.split)

fun once :: "(bool \<Rightarrow> nat set) \<Rightarrow> traffic list \<Rightarrow> bool" where
  "once seen [] \<longleftrightarrow> True"
| "once seen (Write w i m # es) \<longleftrightarrow> once seen es"
| "once seen (Deliver w j f # es) \<longleftrightarrow> j \<notin> seen w \<and> once (seen(w := insert j (seen w))) es"
| "once seen (Inject w env f # es) \<longleftrightarrow> False"

lemma once_orderly:
  "once seen es \<Longrightarrow> (\<And>w. got st w \<subseteq> seen w) \<Longrightarrow> (\<And>w. length (sent st w) + length es < 256) \<Longrightarrow> orderly_run X layer st es"
proof (induction es arbitrary: st seen)
  case (Cons e es)
  have l: "length (sent (duplex_step X layer st e) w) + length es < 256" for w
    using sent_grows [of X layer st e w] Cons.prems(3) [of w] by auto
  have s: "length (sent st w) + Suc (length es) < 256" for w using Cons.prems(3) [of w] by simp
  show ?case
  proof (cases e)
    case (Write w i m)
    have "got (duplex_step X layer st e) v \<subseteq> seen v" for v using got_step [of X layer st e v] Cons.prems(2) [of v] Write by auto
    then have "orderly_run X layer (duplex_step X layer st e) es" using Cons.IH [of seen] l Cons.prems(1) Write by simp
    then show ?thesis using s [of w] Write by (simp add: outstanding_def)
  next
    case (Deliver w j f)
    have "got (duplex_step X layer st e) v \<subseteq> (seen(w := insert j (seen w))) v" for v
      using got_step [of X layer st e v] Cons.prems(2) [of v] Deliver by auto
    then have "orderly_run X layer (duplex_step X layer st e) es" using Cons.IH l Cons.prems(1) Deliver by auto
    then show ?thesis using Cons.prems(1,2) Deliver by auto
  next
    case Inject
    then show ?thesis using Cons.prems(1) by simp
  qed
qed simp

lemma once_got: "got (foldl (duplex_step X layer) st es) w \<subseteq> got st w \<union> {j. \<exists>f. Deliver w j f \<in> set es}"
proof (induction es arbitrary: st)
  case (Cons e es)
  show ?case using Cons [of "duplex_step X layer st e"] got_step [of X layer st e w] by (cases e) (auto split: if_splits)
qed simp

definition demo_start :: duplex where
  "demo_start =
     projr (duplex_start demo_rext (replicate 32 1) (replicate 32 2) (from_seed demo_rext (replicate 32 3)) (from_seed demo_rext (replicate 32 4)))"

definition demo_events :: "traffic list" where
  "demo_events =
     [Write True [1] [65], Write True [2] [66], Deliver False 1 (replicate 32 5), Write False [3] [67], Deliver True 0 (replicate 32 6),
      Write True [4] [68], Deliver False 2 (replicate 32 7)]"

lemma demo_ratchet_laws:
  "dh_ok demo_rext" "ratchet_aead_ok demo_rext" "convert_ok demo_rext (replicate 32 3)" "convert_ok demo_rext (replicate 32 4)"
  by (simp_all add: dh_ok_def ratchet_aead_ok_def convert_ok_def demo_rext_def TAG_LEN_def)

lemma demo_started:
  "duplex_start demo_rext (replicate 32 1) (replicate 32 2) (from_seed demo_rext (replicate 32 3)) (from_seed demo_rext (replicate 32 4)) =
     Inr demo_start"
proof -
  have "\<not> isl (duplex_start demo_rext (replicate 32 1) (replicate 32 2) (from_seed demo_rext (replicate 32 3)) (from_seed demo_rext (replicate 32 4)))"
    by code_simp
  then show ?thesis unfolding demo_start_def by simp
qed

lemma demo_orderly: "orderly_run demo_rext None demo_start demo_events"
proof -
  have "got demo_start w = {}" "sent demo_start w = []" for w by (cases w; code_simp)+
  then show ?thesis by (intro once_orderly [of "\<lambda>_. {}"]) (simp_all add: demo_events_def)
qed

lemma demo_distinct:
  "distinct (map (rx_pub demo_rext) (rx_scalar demo_rext (replicate 32 4) # replicate 32 2 # replicate 32 8 # fresh_secrets demo_events))"
  by code_simp

lemma demo_sealed: "\<exists>env. sent (duplex_step demo_rext None demo_start (Write True [1] [65])) True = [([65], env)]"
proof -
  have "\<not> Option.is_none (cks (sess demo_start True))" "ns (sess demo_start True) = 0" "sent demo_start True = []" by code_simp+
  moreover have "\<exists>p. pad [65] = Inr p" by (rule pad_ok) simp
  ultimately show ?thesis
    by (auto simp: Option.is_none_def seal_with_def Let_def aead_seal_def demo_rext_def checked_add_def split: option.split)
qed

lemma demo_waiting:
  assumes "st = foldl (duplex_step demo_rext None) demo_start demo_events"
  shows "0 < length (sent st True)" "fst (sent st True ! 0) = [65]" "0 \<notin> got st False"
proof -
  define st1 where "st1 = duplex_step demo_rext None demo_start (Write True [1] [65])"
  obtain env where "sent st1 True = [([65], env)]" using demo_sealed unfolding st1_def by blast
  then have 1: "0 < length (sent st1 True)" "fst (sent st1 True ! 0) = [65]" by simp_all
  have e: "demo_events = Write True [1] [65] # tl demo_events" by (simp add: demo_events_def)
  have "st = foldl (duplex_step demo_rext None) st1 (tl demo_events)" unfolding assms st1_def by (subst e) (rule foldl_Cons)
  then show "0 < length (sent st True)" "fst (sent st True ! 0) = [65]"
    using sent_keeps [OF 1(1), of demo_rext None "tl demo_events"] 1(2) by metis+
  have "got demo_start False = {}" by code_simp
  moreover have "Deliver False 0 f \<notin> set demo_events" for f by (simp add: demo_events_def)
  ultimately show "0 \<notin> got st False"
    using once_got [of demo_rext None demo_start demo_events False] unfolding assms by blast
qed

theorem ratchet_delivers_witness:
  "snd (open_with demo_rext (replicate 32 8)
     (snd (sent (foldl (duplex_step demo_rext None) demo_start demo_events) True ! 0)) None
     (sess (foldl (duplex_step demo_rext None) demo_start demo_events) False)) = Inr [65]"
  using ratchet_delivers [OF demo_ratchet_laws demo_started demo_orderly demo_distinct refl, of 0 False] demo_waiting [OF refl] by simp

definition seal_position :: "bytes \<times> envelope \<Rightarrow> bytes \<times> u32" where
  "seal_position me = (dh_pub (env_header (snd me)), hd_n (env_header (snd me)))"

lemma side_positions_distinct:
  assumes "side_inv X sk layer ids ks ln p pos st w" and "inj_on (\<lambda>c. rx_pub X (ks c)) {..p}"
  shows "distinct (map seal_position (sent st w))"
proof -
  have c: "distinct (pos w)" "set (pos w) = all_sent ln p"
    "list_all2 (carried X sk ks ln layer (ids w) (ids (\<not> w))) (pos w) (sent st w)"
    using assms(1) by (simp_all add: side_inv_def carries_def)
  have "i = j" if ij: "i < length (sent st w)" "j < length (sent st w)" "seal_position (sent st w ! i) = seal_position (sent st w ! j)" for i j
  proof -
    have l: "length (pos w) = length (sent st w)" using c(3) by (rule list_all2_lengthD)
    have "carried X sk ks ln layer (ids w) (ids (\<not> w)) (pos w ! k) (sent st w ! k)" if "k < length (sent st w)" for k
      using c(3) that by (simp add: list_all2_conv_all_nth)
    then have e: "rx_pub X (ks (fst (pos w ! i))) = rx_pub X (ks (fst (pos w ! j)))" "snd (pos w ! i) = snd (pos w ! j)"
      using ij unfolding carried_def seal_position_def by (metis prod.inject)+
    have "fst (pos w ! k) \<le> p" if "k < length (sent st w)" for k
    proof -
      have "pos w ! k \<in> all_sent ln p" using c(2) l that nth_mem by metis
      then show ?thesis by (auto simp: all_sent_def)
    qed
    then have "fst (pos w ! i) = fst (pos w ! j)" using e(1) assms(2) ij unfolding inj_on_def by blast
    then have "pos w ! i = pos w ! j" using e(2) by (simp add: prod_eq_iff)
    then show ?thesis using c(1) ij l by (simp add: nth_eq_iff_index_eq)
  qed
  then show ?thesis by (auto simp: distinct_conv_nth)
qed

text \<open>
  C24: no message key is used twice. In such a run the chain position in the header of a sealed message, the sender's
  ratchet key and the counter in its chain, never repeats on a side.
\<close>

theorem ratchet_positions_fresh:
  assumes "dh_ok X" and "ratchet_aead_ok X" and "convert_ok X sa" and "convert_ok X sb"
    and "duplex_start X ek ratchet (from_seed X sa) (from_seed X sb) = Inr st0" and "orderly_run X layer st0 es"
    and "distinct (map (rx_pub X) (rx_scalar X sb # ratchet # fresh_secrets es))"
  shows "distinct (map seal_position (sent (foldl (duplex_step X layer) st0 es) w))"
proof -
  let ?st = "foldl (duplex_step X layer) st0 es"
  obtain sk ids ks ln p pos where "duplex_inv X sk layer ids ks ln p pos ?st" by (rule run_reaches [OF assms])
  then have "side_inv X sk layer ids ks ln (p w) pos ?st w" "drawn_ok X ks ln (p w) (p (\<not> w))"
    unfolding duplex_inv_side [where w = w] by simp_all
  then show ?thesis by (intro side_positions_distinct) (auto simp: drawn_ok_def intro: inj_on_subset)
qed

theorem ratchet_positions_fresh_witness:
  "distinct (map seal_position (sent (foldl (duplex_step demo_rext None) demo_start demo_events) True))"
proof (rule ratchet_positions_fresh [OF demo_ratchet_laws demo_started demo_orderly])
  show "distinct (map (rx_pub demo_rext) (rx_scalar demo_rext (replicate 32 4) # replicate 32 2 # fresh_secrets demo_events))"
    using demo_distinct by simp
qed

end
