(* ===== verification/Onion_Packet.thy ===== *)
theory Onion_Packet
  imports Object_Format
begin

text \<open>
  Onion packets of \<^verbatim>\<open>onion/packet.rs\<close>: padding, encrypting and peeling of layers, the two-hop packet with and without
  an end-to-end layer, cover cells and the encrypted responses. Random draws are arguments; X25519, HKDF, the cipher
  and bincode are parameters.
\<close>

section \<open>Constants and data\<close>

definition CIRCUIT_ID_LEN :: nat where "CIRCUIT_ID_LEN = 16"
definition X25519_KEY_LEN :: nat where "X25519_KEY_LEN = 32"
definition ONION_ENC_LABEL :: bytes where "ONION_ENC_LABEL = str_bytes ''miasma-onion-enc-v1''"
definition ONION_PAD_TARGET :: nat where "ONION_PAD_TARGET = 8 * 1024"
definition ONION_OUTER_PAD_TARGET :: nat where "ONION_OUTER_PAD_TARGET = 9 * 1024"
definition ONION_MAX_PEER_ID_LEN :: nat where "ONION_MAX_PEER_ID_LEN = 64"
definition ONION_MAX_R2_ADDR_LEN :: nat where "ONION_MAX_R2_ADDR_LEN = 256"
definition FIRST_HOP_PEER_ID_LEN :: nat where "FIRST_HOP_PEER_ID_LEN = 38"

definition LAYER2_FIXED_BYTES :: nat where
  "LAYER2_FIXED_BYTES = (32 + 24 + 8 + 16) + (1 + 8) + (8 + 4) + (1 + 32) + 96"

definition ONION_MAX_BODY_LEN :: nat where
  "ONION_MAX_BODY_LEN =
     ONION_OUTER_PAD_TARGET - (ONION_MAX_PEER_ID_LEN - FIRST_HOP_PEER_ID_LEN) - 4 - LAYER2_FIXED_BYTES -
     ONION_MAX_PEER_ID_LEN - ONION_MAX_R2_ADDR_LEN"

definition ONION_MAX_E2E_REQUEST_LEN :: nat where "ONION_MAX_E2E_REQUEST_LEN = ONION_PAD_TARGET - 4"

definition E2E_LAYER_BYTES :: nat where
  "E2E_LAYER_BYTES = (32 + 24 + 8 + 16) + 1 + (8 + ONION_PAD_TARGET) + (1 + 32)"

definition FIRST_HOP_PLAINTEXT_BYTES :: nat where
  "FIRST_HOP_PLAINTEXT_BYTES = (1 + 8 + FIRST_HOP_PEER_ID_LEN) + (8 + ONION_OUTER_PAD_TARGET) + (1 + 32)"

definition FIRST_HOP_FRAME_BYTES :: nat where
  "FIRST_HOP_FRAME_BYTES = 4 + 4 + CIRCUIT_ID_LEN + X25519_KEY_LEN + 24 + 8 + FIRST_HOP_PLAINTEXT_BYTES + 16"

definition COVER_PAD_TARGET :: nat where "COVER_PAD_TARGET = FIRST_HOP_PLAINTEXT_BYTES - 2 - 8"

lemmas onion_sizes = CIRCUIT_ID_LEN_def X25519_KEY_LEN_def ONION_PAD_TARGET_def ONION_OUTER_PAD_TARGET_def
  ONION_MAX_PEER_ID_LEN_def ONION_MAX_R2_ADDR_LEN_def FIRST_HOP_PEER_ID_LEN_def LAYER2_FIXED_BYTES_def ONION_MAX_BODY_LEN_def
  ONION_MAX_E2E_REQUEST_LEN_def E2E_LAYER_BYTES_def FIRST_HOP_PLAINTEXT_BYTES_def FIRST_HOP_FRAME_BYTES_def COVER_PAD_TARGET_def

record onion_layer =
  ephemeral_pubkey :: bytes
  layer_nonce :: bytes
  layer_ciphertext :: bytes

record layer_payload =
  next_hop :: "bytes option"
  lp_data :: bytes
  return_key :: "bytes option"

record onion_packet =
  packet_circuit :: bytes
  packet_layer :: onion_layer

record return_path =
  rp_circuit :: bytes
  r2_addr :: bytes
  r2_r1_key :: bytes
  r1_init_key :: bytes

record inner_payload =
  ip_return_path :: return_path
  ip_body :: bytes

record oext =
  ox_pub :: "bytes \<Rightarrow> bytes"
  ox_dh :: "bytes \<Rightarrow> bytes \<Rightarrow> bytes option"
  ox_hkdf :: "bytes \<Rightarrow> bytes \<Rightarrow> bytes"
  ox_seal :: "bytes \<Rightarrow> bytes \<Rightarrow> bytes \<Rightarrow> bytes option"
  ox_open :: "bytes \<Rightarrow> bytes \<Rightarrow> bytes \<Rightarrow> bytes option"
  ser_payload :: "layer_payload \<Rightarrow> bytes option"
  de_payload :: "bytes \<Rightarrow> layer_payload option"
  ser_layer :: "onion_layer \<Rightarrow> bytes option"
  de_layer :: "bytes \<Rightarrow> onion_layer option"
  ser_inner :: "inner_payload \<Rightarrow> bytes option"
  de_inner :: "bytes \<Rightarrow> inner_payload option"

text \<open>What is drawn for one layer, and for a packet besides its layers.\<close>

record layer_draws =
  ld_secret :: bytes
  ld_nonce :: bytes
  ld_pad :: "nat \<Rightarrow> u8"

record packet_draws =
  pd_circuit :: bytes
  pd_r2_r1 :: bytes
  pd_r1_init :: bytes
  pd_layer2 :: layer_draws
  pd_layer1 :: layer_draws

section \<open>Padding and ciphers\<close>

definition pad_to_fixed_size :: "(nat \<Rightarrow> u8) \<Rightarrow> bytes \<Rightarrow> nat \<Rightarrow> bytes" where
  "pad_to_fixed_size rnd data target =
     (let padded_size = max (4 + length data) target; out = le_bytes 4 (length data) @ data in
      out @ map rnd [0..<padded_size - length out])"

definition unpad_fixed_size :: "bytes \<Rightarrow> miasma_error + bytes" where
  "unpad_fixed_size padded =
     (if length padded < 4 then Inl Decryption
      else
        let original_len = le_val (take 4 padded) in
        if length padded < 4 + original_len then Inl Decryption else Inr (take original_len (drop 4 padded)))"

definition derive_enc_key :: "oext \<Rightarrow> bytes \<Rightarrow> bytes" where
  "derive_enc_key X shared = ox_hkdf X shared ONION_ENC_LABEL"

definition xchacha20_encrypt :: "oext \<Rightarrow> bytes \<Rightarrow> bytes \<Rightarrow> bytes \<Rightarrow> miasma_error + bytes \<times> bytes" where
  "xchacha20_encrypt X nonce key plaintext =
     (case ox_seal X key nonce plaintext of None \<Rightarrow> Inl Encryption | Some ct \<Rightarrow> Inr (nonce, ct))"

definition xchacha20_decrypt :: "oext \<Rightarrow> bytes \<Rightarrow> bytes \<Rightarrow> bytes \<Rightarrow> miasma_error + bytes" where
  "xchacha20_decrypt X key nonce ct = (case ox_open X key nonce ct of None \<Rightarrow> Inl Decryption | Some p \<Rightarrow> Inr p)"

definition encrypt_response :: "oext \<Rightarrow> bytes \<Rightarrow> bytes \<Rightarrow> bytes \<Rightarrow> miasma_error + bytes" where
  "encrypt_response X nonce key response =
     (case xchacha20_encrypt X nonce key response of Inl err \<Rightarrow> Inl err | Inr (n, ct) \<Rightarrow> Inr (n @ ct))"

definition decrypt_response :: "oext \<Rightarrow> bytes \<Rightarrow> bytes \<Rightarrow> miasma_error + bytes" where
  "decrypt_response X key blob =
     (if length blob < 24 then Inl Decryption else xchacha20_decrypt X key (take 24 blob) (drop 24 blob))"

definition derive_onion_static_key :: "oext \<Rightarrow> bytes \<Rightarrow> bytes" where
  "derive_onion_static_key X master_key = ox_hkdf X master_key (str_bytes ''miasma-onion-x25519-v1'')"

section \<open>Layers\<close>

definition encrypt_layer_padded :: "oext \<Rightarrow> layer_draws \<Rightarrow> bytes \<Rightarrow> layer_payload \<Rightarrow> nat \<Rightarrow> miasma_error + onion_layer" where
  "encrypt_layer_padded X d recipient payload pad_target =
     (let payload = payload\<lparr>lp_data := pad_to_fixed_size (ld_pad d) (lp_data payload) pad_target\<rparr> in
      case ox_dh X (ld_secret d) recipient of
        None \<Rightarrow> Inl Encryption
      | Some shared \<Rightarrow>
          (case ser_payload X payload of
             None \<Rightarrow> Inl Serialization
           | Some plaintext \<Rightarrow>
               (case xchacha20_encrypt X (ld_nonce d) (derive_enc_key X shared) plaintext of
                  Inl err \<Rightarrow> Inl err
                | Inr (nonce, ct) \<Rightarrow>
                    Inr \<lparr>ephemeral_pubkey = ox_pub X (ld_secret d), layer_nonce = nonce, layer_ciphertext = ct\<rparr>)))"

definition encrypt_layer :: "oext \<Rightarrow> layer_draws \<Rightarrow> bytes \<Rightarrow> layer_payload \<Rightarrow> miasma_error + onion_layer" where
  "encrypt_layer X d recipient payload = encrypt_layer_padded X d recipient payload ONION_PAD_TARGET"

definition peel :: "oext \<Rightarrow> bytes \<Rightarrow> onion_layer \<Rightarrow> miasma_error + layer_payload" where
  "peel X secret l =
     (case ox_dh X secret (ephemeral_pubkey l) of
        None \<Rightarrow> Inl Decryption
      | Some shared \<Rightarrow>
          (case xchacha20_decrypt X (derive_enc_key X shared) (layer_nonce l) (layer_ciphertext l) of
             Inl err \<Rightarrow> Inl err
           | Inr plaintext \<Rightarrow>
               (case de_payload X plaintext of
                  None \<Rightarrow> Inl Serialization
                | Some payload \<Rightarrow>
                    (case unpad_fixed_size (lp_data payload) of
                       Inl err \<Rightarrow> Inl err
                     | Inr data \<Rightarrow> Inr (payload\<lparr>lp_data := data\<rparr>)))))"

section \<open>Packets\<close>

definition build_packet ::
  "oext \<Rightarrow> packet_draws \<Rightarrow> bytes \<Rightarrow> bytes \<Rightarrow> bytes \<Rightarrow> bytes \<Rightarrow> bytes \<Rightarrow> bytes \<Rightarrow> miasma_error + onion_packet \<times> return_path" where
  "build_packet X d r1_key r2_key r2_peer_id target_peer_id addr body =
     (if ONION_MAX_PEER_ID_LEN < length r2_peer_id \<or> ONION_MAX_PEER_ID_LEN < length target_peer_id then Inl Encryption
      else if ONION_MAX_R2_ADDR_LEN < length addr then Inl Encryption
      else if ONION_MAX_BODY_LEN < length body then Inl Encryption
      else
        let outer_pad_target = ONION_OUTER_PAD_TARGET + FIRST_HOP_PEER_ID_LEN - min (length r2_peer_id) ONION_MAX_PEER_ID_LEN;
            rp = \<lparr>rp_circuit = pd_circuit d, r2_addr = addr, r2_r1_key = pd_r2_r1 d, r1_init_key = pd_r1_init d\<rparr>
        in case ser_inner X \<lparr>ip_return_path = rp, ip_body = body\<rparr> of
             None \<Rightarrow> Inl Serialization
           | Some inner_bytes \<Rightarrow>
               (case encrypt_layer X (pd_layer2 d) r2_key
                       \<lparr>next_hop = Some target_peer_id, lp_data = inner_bytes, return_key = Some (pd_r2_r1 d)\<rparr> of
                  Inl err \<Rightarrow> Inl err
                | Inr layer2 \<Rightarrow>
                    (case ser_layer X layer2 of
                       None \<Rightarrow> Inl Serialization
                     | Some layer2_bytes \<Rightarrow>
                         if outer_pad_target < 4 + length layer2_bytes then Inl Encryption
                         else
                           (case encrypt_layer_padded X (pd_layer1 d) r1_key
                                   \<lparr>next_hop = Some r2_peer_id, lp_data = layer2_bytes, return_key = Some (pd_r1_init d)\<rparr>
                                   outer_pad_target of
                              Inl err \<Rightarrow> Inl err
                            | Inr layer1 \<Rightarrow> Inr (\<lparr>packet_circuit = pd_circuit d, packet_layer = layer1\<rparr>, rp)))))"

text \<open>\<open>session_key\<close> and \<open>de\<close> are drawn for the end-to-end layer.\<close>

definition build_e2e ::
  "oext \<Rightarrow> packet_draws \<Rightarrow> bytes \<Rightarrow> layer_draws \<Rightarrow> bytes \<Rightarrow> bytes \<Rightarrow> bytes \<Rightarrow> bytes \<Rightarrow> bytes \<Rightarrow> bytes \<Rightarrow> bytes \<Rightarrow>
     miasma_error + onion_packet \<times> return_path \<times> bytes" where
  "build_e2e X d session_key de r1_key r2_key target_key r2_peer_id target_peer_id addr body =
     (if ONION_MAX_E2E_REQUEST_LEN < length body then Inl Encryption
      else
        (case encrypt_layer X de target_key \<lparr>next_hop = None, lp_data = body, return_key = Some session_key\<rparr> of
           Inl err \<Rightarrow> Inl err
         | Inr e2e_layer \<Rightarrow>
             (case ser_layer X e2e_layer of
                None \<Rightarrow> Inl Serialization
              | Some e2e_bytes \<Rightarrow>
                  (case build_packet X d r1_key r2_key r2_peer_id target_peer_id addr e2e_bytes of
                     Inl err \<Rightarrow> Inl err
                   | Inr (packet, rp) \<Rightarrow> Inr (packet, rp, session_key)))))"

section \<open>Cover cells\<close>

definition COVER_MIN_BYTES :: nat where "COVER_MIN_BYTES = 512"
definition COVER_MAX_BYTES :: nat where "COVER_MAX_BYTES = 2048"
definition COVER_TAG :: u8 where "COVER_TAG = 0xFF"

definition make_cover_packet :: "(nat \<Rightarrow> u8) \<Rightarrow> nat \<Rightarrow> bytes" where
  "make_cover_packet rnd len = COVER_TAG # map rnd [0..<len]"

definition is_cover_payload :: "bytes \<Rightarrow> bool" where
  "is_cover_payload payload \<longleftrightarrow>
     COVER_MIN_BYTES + 1 \<le> length payload \<and> length payload \<le> COVER_MAX_BYTES + 1 \<and>
     (case payload of [] \<Rightarrow> False | b # _ \<Rightarrow> b = COVER_TAG)"

definition build_cover :: "oext \<Rightarrow> bytes \<Rightarrow> layer_draws \<Rightarrow> bytes \<Rightarrow> bytes \<Rightarrow> miasma_error + onion_packet" where
  "build_cover X circuit d recipient payload =
     (if \<not> is_cover_payload payload then Inl Encryption
      else
        (case encrypt_layer_padded X d recipient \<lparr>next_hop = None, lp_data = payload, return_key = None\<rparr> COVER_PAD_TARGET of
           Inl err \<Rightarrow> Inl err
         | Inr l \<Rightarrow> Inr \<lparr>packet_circuit = circuit, packet_layer = l\<rparr>))"

section \<open>What the code relies on\<close>

text \<open>
  bincode writes fixed-width little-endian integers, a length of eight bytes in front of a vector, one byte in front of
  an option and an array as its bytes; it reads back what it wrote, and a layer only from bytes that hold the
  ciphertext their length field announces.
\<close>

definition vec_layout :: "bytes \<Rightarrow> bytes" where
  "vec_layout b = le_bytes 8 (length b) @ b"

definition option_layout :: "bytes option \<Rightarrow> bytes" where
  "option_layout v = (case v of None \<Rightarrow> [0] | Some b \<Rightarrow> 1 # b)"

definition payload_layout :: "layer_payload \<Rightarrow> bytes" where
  "payload_layout p = option_layout (map_option vec_layout (next_hop p)) @ vec_layout (lp_data p) @ option_layout (return_key p)"

definition layer_layout :: "onion_layer \<Rightarrow> bytes" where
  "layer_layout l = ephemeral_pubkey l @ layer_nonce l @ vec_layout (layer_ciphertext l)"

definition inner_layout :: "inner_payload \<Rightarrow> bytes" where
  "inner_layout i =
     rp_circuit (ip_return_path i) @ vec_layout (r2_addr (ip_return_path i)) @ r2_r1_key (ip_return_path i) @
     r1_init_key (ip_return_path i) @ vec_layout (ip_body i)"

definition wf_layer :: "onion_layer \<Rightarrow> bool" where
  "wf_layer l \<longleftrightarrow> length (ephemeral_pubkey l) = 32 \<and> length (layer_nonce l) = 24 \<and> length (layer_ciphertext l) < 2 ^ 64"

definition wf_payload :: "layer_payload \<Rightarrow> bool" where
  "wf_payload p \<longleftrightarrow>
     (case next_hop p of None \<Rightarrow> True | Some h \<Rightarrow> length h < 2 ^ 64) \<and> length (lp_data p) < 2 ^ 64 \<and>
     (case return_key p of None \<Rightarrow> True | Some k \<Rightarrow> length k = 32)"

definition wf_inner :: "inner_payload \<Rightarrow> bool" where
  "wf_inner i \<longleftrightarrow>
     length (rp_circuit (ip_return_path i)) = 16 \<and> length (r2_addr (ip_return_path i)) < 2 ^ 64 \<and>
     length (r2_r1_key (ip_return_path i)) = 32 \<and> length (r1_init_key (ip_return_path i)) = 32 \<and> length (ip_body i) < 2 ^ 64"

definition onion_bincode_ok :: "oext \<Rightarrow> bool" where
  "onion_bincode_ok X \<longleftrightarrow>
     (\<forall>p. wf_payload p \<longrightarrow> ser_payload X p = Some (payload_layout p) \<and> de_payload X (payload_layout p) = Some p) \<and>
     (\<forall>l. wf_layer l \<longrightarrow> ser_layer X l = Some (layer_layout l) \<and> de_layer X (layer_layout l) = Some l) \<and>
     (\<forall>i. wf_inner i \<longrightarrow> ser_inner X i = Some (inner_layout i) \<and> de_inner X (inner_layout i) = Some i) \<and>
     (\<forall>b l. de_layer X b = Some l \<longrightarrow> 64 + le_val (take 8 (drop 56 b)) \<le> length b)"

definition onion_dh_ok :: "oext \<Rightarrow> bool" where
  "onion_dh_ok X \<longleftrightarrow>
     (\<forall>a b. \<exists>s. ox_dh X a (ox_pub X b) = Some s \<and> ox_dh X b (ox_pub X a) = Some s) \<and> (\<forall>a. length (ox_pub X a) = 32)"

definition onion_aead_ok :: "oext \<Rightarrow> bool" where
  "onion_aead_ok X \<longleftrightarrow>
     (\<forall>k n p. \<exists>c. ox_seal X k n p = Some c \<and> length c = length p + 16 \<and> ox_open X k n c = Some p)"

definition onion_laws :: "oext \<Rightarrow> bool" where
  "onion_laws X \<longleftrightarrow> onion_bincode_ok X \<and> onion_dh_ok X \<and> onion_aead_ok X"

definition ld_ok :: "layer_draws \<Rightarrow> bool" where
  "ld_ok d \<longleftrightarrow> length (ld_nonce d) = 24"

definition pd_ok :: "packet_draws \<Rightarrow> bool" where
  "pd_ok d \<longleftrightarrow>
     length (pd_circuit d) = 16 \<and> length (pd_r2_r1 d) = 32 \<and> length (pd_r1_init d) = 32 \<and> ld_ok (pd_layer2 d) \<and> ld_ok (pd_layer1 d)"

lemma onion_lawsD:
  assumes "onion_laws X"
  shows "wf_payload p \<Longrightarrow> ser_payload X p = Some (payload_layout p)" "wf_payload p \<Longrightarrow> de_payload X (payload_layout p) = Some p"
    "wf_layer l \<Longrightarrow> ser_layer X l = Some (layer_layout l)" "wf_layer l \<Longrightarrow> de_layer X (layer_layout l) = Some l"
    "wf_inner i \<Longrightarrow> ser_inner X i = Some (inner_layout i)" "wf_inner i \<Longrightarrow> de_inner X (inner_layout i) = Some i"
    "length b < 64 + le_val (take 8 (drop 56 b)) \<Longrightarrow> de_layer X b = None" "length (ox_pub X a) = 32"
  using assms by (auto simp: onion_laws_def onion_bincode_ok_def onion_dh_ok_def not_le [symmetric])

section \<open>Padding and layers round-trip\<close>

lemma length_pad: "length (pad_to_fixed_size rnd data t) = max (4 + length data) t"
  by (simp add: pad_to_fixed_size_def Let_def max_def)

lemma unpad_pad_fixed: "length data < 2 ^ 32 \<Longrightarrow> unpad_fixed_size (pad_to_fixed_size rnd data t) = Inr data"
proof -
  assume l: "length data < 2 ^ 32"
  let ?p = "pad_to_fixed_size rnd data t"
  have p: "take 4 ?p = le_bytes 4 (length data)" "take (length data) (drop 4 ?p) = data"
    by (simp_all add: pad_to_fixed_size_def Let_def)
  have "le_val (le_bytes 4 (length data)) = length data" using l by (simp add: le_val_def le_bytes_def be_val_be_bytes)
  moreover have "4 + length data \<le> length ?p" by (simp add: length_pad)
  ultimately show ?thesis by (simp add: unpad_fixed_size_def p Let_def)
qed

lemma length_vec [simp]: "length (vec_layout b) = 8 + length b"
  by (simp add: vec_layout_def)

definition padded_bytes :: "layer_payload \<Rightarrow> nat \<Rightarrow> nat" where
  "padded_bytes p t =
     (case next_hop p of None \<Rightarrow> 1 | Some h \<Rightarrow> 9 + length h) + (8 + max (4 + length (lp_data p)) t) +
     (case return_key p of None \<Rightarrow> 1 | Some k \<Rightarrow> 1 + length k)"

lemma padded_bytes_layout:
  "length (payload_layout (p\<lparr>lp_data := pad_to_fixed_size rnd (lp_data p) t\<rparr>)) = padded_bytes p t"
  by (simp add: payload_layout_def padded_bytes_def option_layout_def length_pad split: option.split)

lemma layer_roundtrip:
  assumes "onion_laws X" "ld_ok d" "length (lp_data p) < 2 ^ 32" "t < 2 ^ 32" "padded_bytes p t < 2 ^ 63"
    and "case return_key p of None \<Rightarrow> True | Some k \<Rightarrow> length k = 32"
  shows "\<exists>l. encrypt_layer_padded X d (ox_pub X s) p t = Inr l \<and> peel X s l = Inr p \<and> wf_layer l \<and>
    length (layer_ciphertext l) = padded_bytes p t + 16 \<and> ephemeral_pubkey l = ox_pub X (ld_secret d)"
proof -
  let ?q = "p\<lparr>lp_data := pad_to_fixed_size (ld_pad d) (lp_data p) t\<rparr>"
  have q: "wf_payload ?q"
    using assms(3-6) by (auto simp: wf_payload_def length_pad padded_bytes_def split: option.splits)
  obtain sh where sh: "ox_dh X (ld_secret d) (ox_pub X s) = Some sh" "ox_dh X s (ox_pub X (ld_secret d)) = Some sh"
    using assms(1) unfolding onion_laws_def onion_dh_ok_def by blast
  obtain ct where ct: "ox_seal X (derive_enc_key X sh) (ld_nonce d) (payload_layout ?q) = Some ct"
    "length ct = length (payload_layout ?q) + 16" "ox_open X (derive_enc_key X sh) (ld_nonce d) ct = Some (payload_layout ?q)"
    using assms(1) unfolding onion_laws_def onion_aead_ok_def by blast
  let ?l = "\<lparr>ephemeral_pubkey = ox_pub X (ld_secret d), layer_nonce = ld_nonce d, layer_ciphertext = ct\<rparr>"
  have "encrypt_layer_padded X d (ox_pub X s) p t = Inr ?l"
    using sh ct onion_lawsD(1) [OF assms(1) q] by (simp add: encrypt_layer_padded_def Let_def xchacha20_encrypt_def)
  moreover have "peel X s ?l = Inr p"
    using sh ct onion_lawsD(2) [OF assms(1) q] unpad_pad_fixed [OF assms(3)] by (simp add: peel_def xchacha20_decrypt_def)
  moreover have "wf_layer ?l"
    using assms(1,2,5) ct(2) by (simp add: wf_layer_def ld_ok_def padded_bytes_layout onion_lawsD)
  ultimately show ?thesis using ct(2) by (auto simp: padded_bytes_layout)
qed

lemma response_roundtrip:
  assumes "onion_laws X" "length n = 24"
  shows "\<exists>b. encrypt_response X n k r = Inr b \<and> decrypt_response X k b = Inr r \<and> length b = 40 + length r"
proof -
  obtain ct where "ox_seal X k n r = Some ct" "length ct = length r + 16" "ox_open X k n ct = Some r"
    using assms(1) unfolding onion_laws_def onion_aead_ok_def by blast
  then show ?thesis
    using assms(2) by (simp add: encrypt_response_def decrypt_response_def xchacha20_encrypt_def xchacha20_decrypt_def)
qed

lemma length_layer_layout: "wf_layer l \<Longrightarrow> length (layer_layout l) = 64 + length (layer_ciphertext l)"
  by (simp add: layer_layout_def wf_layer_def)

section \<open>Packets\<close>

definition request_ok :: "bytes \<Rightarrow> bytes \<Rightarrow> bytes \<Rightarrow> bool" where
  "request_ok r2_id target_id addr \<longleftrightarrow>
     length r2_id \<le> ONION_MAX_PEER_ID_LEN \<and> length target_id \<le> ONION_MAX_PEER_ID_LEN \<and> length addr \<le> ONION_MAX_R2_ADDR_LEN"

lemma packet_built:
  assumes "onion_laws X" "pd_ok d" "request_ok r2_id target_id addr" "length body \<le> ONION_MAX_BODY_LEN"
  defines "rp \<equiv> \<lparr>rp_circuit = pd_circuit d, r2_addr = addr, r2_r1_key = pd_r2_r1 d, r1_init_key = pd_r1_init d\<rparr>"
  shows "\<exists>layer1 layer2. build_packet X d (ox_pub X s1) (ox_pub X s2) r2_id target_id addr body =
      Inr (\<lparr>packet_circuit = pd_circuit d, packet_layer = layer1\<rparr>, rp) \<and>
    peel X s1 layer1 = Inr \<lparr>next_hop = Some r2_id, lp_data = layer_layout layer2, return_key = Some (pd_r1_init d)\<rparr> \<and>
    peel X s2 layer2 =
      Inr \<lparr>next_hop = Some target_id, lp_data = inner_layout \<lparr>ip_return_path = rp, ip_body = body\<rparr>, return_key = Some (pd_r2_r1 d)\<rparr> \<and>
    wf_layer layer1 \<and> wf_layer layer2 \<and> length (layer_ciphertext layer1) = FIRST_HOP_PLAINTEXT_BYTES + 16 \<and>
    ephemeral_pubkey layer1 = ox_pub X (ld_secret (pd_layer1 d)) \<and> ephemeral_pubkey layer2 = ox_pub X (ld_secret (pd_layer2 d)) \<and>
    length (layer_layout layer2) \<le> 9250"
proof -
  let ?i = "\<lparr>ip_return_path = rp, ip_body = body\<rparr>"
  let ?t = "ONION_OUTER_PAD_TARGET + FIRST_HOP_PEER_ID_LEN - length r2_id"
  have b: "length r2_id \<le> 64" "length target_id \<le> 64" "length addr \<le> 256" "length body \<le> 8636"
    using assms(3,4) by (simp_all add: request_ok_def onion_sizes)
  have d: "length (pd_circuit d) = 16" "length (pd_r2_r1 d) = 32" "length (pd_r1_init d) = 32" "ld_ok (pd_layer2 d)" "ld_ok (pd_layer1 d)"
    using assms(2) by (simp_all add: pd_ok_def)
  have i: "wf_inner ?i" "length (inner_layout ?i) = 96 + length addr + length body"
    using b d by (simp_all add: wf_inner_def inner_layout_def rp_def)
  let ?p2 = "\<lparr>next_hop = Some target_id, lp_data = inner_layout ?i, return_key = Some (pd_r2_r1 d)\<rparr>"
  have n2: "padded_bytes ?p2 ONION_PAD_TARGET \<le> 9 + length target_id + (8 + max (100 + length addr + length body) 8192) + 33"
    using i d by (simp add: padded_bytes_def onion_sizes)
  also have "\<dots> \<le> 9106" using b by (simp add: max_def)
  finally have m2: "padded_bytes ?p2 ONION_PAD_TARGET < 2 ^ 63" by simp
  obtain l2 where l2: "encrypt_layer X (pd_layer2 d) (ox_pub X s2) ?p2 = Inr l2" "peel X s2 l2 = Inr ?p2" "wf_layer l2"
    "length (layer_ciphertext l2) = padded_bytes ?p2 ONION_PAD_TARGET + 16" "ephemeral_pubkey l2 = ox_pub X (ld_secret (pd_layer2 d))"
  proof -
    have "\<exists>l. encrypt_layer_padded X (pd_layer2 d) (ox_pub X s2) ?p2 ONION_PAD_TARGET = Inr l \<and> peel X s2 l = Inr ?p2 \<and> wf_layer l \<and>
        length (layer_ciphertext l) = padded_bytes ?p2 ONION_PAD_TARGET + 16 \<and> ephemeral_pubkey l = ox_pub X (ld_secret (pd_layer2 d))"
      by (rule layer_roundtrip [OF assms(1) d(4) _ _ m2]) (use i b d in \<open>simp_all add: onion_sizes\<close>)
    then show ?thesis using that by (auto simp: encrypt_layer_def)
  qed
  have n1: "4 + length (layer_layout l2) \<le> ?t"
    using length_layer_layout [OF l2(3)] l2(4) n2 b by (simp add: onion_sizes max_def split: if_splits)
  let ?p1 = "\<lparr>next_hop = Some r2_id, lp_data = layer_layout l2, return_key = Some (pd_r1_init d)\<rparr>"
  have p1: "padded_bytes ?p1 ?t = FIRST_HOP_PLAINTEXT_BYTES"
    using n1 b d by (simp add: padded_bytes_def onion_sizes max_def)
  obtain l1 where l1: "encrypt_layer_padded X (pd_layer1 d) (ox_pub X s1) ?p1 ?t = Inr l1" "peel X s1 l1 = Inr ?p1" "wf_layer l1"
    "length (layer_ciphertext l1) = padded_bytes ?p1 ?t + 16" "ephemeral_pubkey l1 = ox_pub X (ld_secret (pd_layer1 d))"
  proof -
    have "\<exists>l. encrypt_layer_padded X (pd_layer1 d) (ox_pub X s1) ?p1 ?t = Inr l \<and> peel X s1 l = Inr ?p1 \<and> wf_layer l \<and>
        length (layer_ciphertext l) = padded_bytes ?p1 ?t + 16 \<and> ephemeral_pubkey l = ox_pub X (ld_secret (pd_layer1 d))"
      by (rule layer_roundtrip [OF assms(1) d(5)]) (use n1 b d p1 in \<open>simp_all add: onion_sizes\<close>)
    then show ?thesis using that by auto
  qed
  have "build_packet X d (ox_pub X s1) (ox_pub X s2) r2_id target_id addr body = Inr (\<lparr>packet_circuit = pd_circuit d, packet_layer = l1\<rparr>, rp)"
    using assms(3,4) l1(1) l2(1) n1 onion_lawsD(3) [OF assms(1) l2(3)] onion_lawsD(5) [OF assms(1) i(1)]
    by (simp add: build_packet_def request_ok_def Let_def rp_def not_less min_absorb1)
  moreover have "length (layer_layout l2) \<le> 9250" using n1 by (simp add: onion_sizes)
  ultimately show ?thesis using l1 l2 p1 by auto
qed

lemma e2e_built:
  assumes "onion_laws X" "pd_ok d" "ld_ok de" "length sk = 32" "request_ok r2_id target_id addr" "length body \<le> ONION_MAX_E2E_REQUEST_LEN"
  defines "rp \<equiv> \<lparr>rp_circuit = pd_circuit d, r2_addr = addr, r2_r1_key = pd_r2_r1 d, r1_init_key = pd_r1_init d\<rparr>"
  shows "\<exists>layer1 layer2 le. build_e2e X d sk de (ox_pub X s1) (ox_pub X s2) (ox_pub X st) r2_id target_id addr body =
      Inr (\<lparr>packet_circuit = pd_circuit d, packet_layer = layer1\<rparr>, rp, sk) \<and>
    peel X s1 layer1 = Inr \<lparr>next_hop = Some r2_id, lp_data = layer_layout layer2, return_key = Some (pd_r1_init d)\<rparr> \<and>
    peel X s2 layer2 =
      Inr \<lparr>next_hop = Some target_id, lp_data = inner_layout \<lparr>ip_return_path = rp, ip_body = layer_layout le\<rparr>,
           return_key = Some (pd_r2_r1 d)\<rparr> \<and>
    peel X st le = Inr \<lparr>next_hop = None, lp_data = body, return_key = Some sk\<rparr> \<and>
    wf_layer layer1 \<and> wf_layer layer2 \<and> wf_layer le \<and> length (layer_ciphertext layer1) = FIRST_HOP_PLAINTEXT_BYTES + 16 \<and>
    ephemeral_pubkey layer1 = ox_pub X (ld_secret (pd_layer1 d)) \<and> ephemeral_pubkey layer2 = ox_pub X (ld_secret (pd_layer2 d)) \<and>
    ephemeral_pubkey le = ox_pub X (ld_secret de) \<and> length (layer_layout layer2) \<le> 9250 \<and> length (layer_layout le) = E2E_LAYER_BYTES"
proof -
  let ?p = "\<lparr>next_hop = None, lp_data = body, return_key = Some sk\<rparr>"
  have p: "padded_bytes ?p ONION_PAD_TARGET = 8234" using assms(4,6) by (simp add: padded_bytes_def onion_sizes max_def)
  have "\<exists>l. encrypt_layer_padded X de (ox_pub X st) ?p ONION_PAD_TARGET = Inr l \<and> peel X st l = Inr ?p \<and> wf_layer l \<and>
      length (layer_ciphertext l) = padded_bytes ?p ONION_PAD_TARGET + 16 \<and> ephemeral_pubkey l = ox_pub X (ld_secret de)"
    by (rule layer_roundtrip [OF assms(1,3)]) (use assms(4,6) p in \<open>simp_all add: onion_sizes\<close>)
  then obtain le where le: "encrypt_layer X de (ox_pub X st) ?p = Inr le" "peel X st le = Inr ?p" "wf_layer le"
    "length (layer_ciphertext le) = 8250" "ephemeral_pubkey le = ox_pub X (ld_secret de)" unfolding encrypt_layer_def p by auto
  have n: "length (layer_layout le) = E2E_LAYER_BYTES" using length_layer_layout [OF le(3)] le(4) by (simp add: onion_sizes)
  then have "length (layer_layout le) \<le> ONION_MAX_BODY_LEN" by (simp add: onion_sizes)
  from packet_built [OF assms(1,2,5) this, of s1 s2, folded rp_def] obtain l1 l2 where
    b: "build_packet X d (ox_pub X s1) (ox_pub X s2) r2_id target_id addr (layer_layout le) =
      Inr (\<lparr>packet_circuit = pd_circuit d, packet_layer = l1\<rparr>, rp)" and
    l: "peel X s1 l1 = Inr \<lparr>next_hop = Some r2_id, lp_data = layer_layout l2, return_key = Some (pd_r1_init d)\<rparr>"
    "peel X s2 l2 =
      Inr \<lparr>next_hop = Some target_id, lp_data = inner_layout \<lparr>ip_return_path = rp, ip_body = layer_layout le\<rparr>,
           return_key = Some (pd_r2_r1 d)\<rparr>"
    "wf_layer l1" "wf_layer l2" "length (layer_ciphertext l1) = FIRST_HOP_PLAINTEXT_BYTES + 16"
    "ephemeral_pubkey l1 = ox_pub X (ld_secret (pd_layer1 d))" "ephemeral_pubkey l2 = ox_pub X (ld_secret (pd_layer2 d))"
    "length (layer_layout l2) \<le> 9250" by blast
  have "build_e2e X d sk de (ox_pub X s1) (ox_pub X s2) (ox_pub X st) r2_id target_id addr body =
      Inr (\<lparr>packet_circuit = pd_circuit d, packet_layer = l1\<rparr>, rp, sk)"
    using b le(1) assms(6) onion_lawsD(3) [OF assms(1) le(3)] by (simp add: build_e2e_def)
  then show ?thesis using l le n by blast
qed

lemma cover_built:
  assumes "onion_laws X" "ld_ok d" "is_cover_payload payload"
  shows "\<exists>l. build_cover X circuit d (ox_pub X s) payload = Inr \<lparr>packet_circuit = circuit, packet_layer = l\<rparr> \<and>
    peel X s l = Inr \<lparr>next_hop = None, lp_data = payload, return_key = None\<rparr> \<and> wf_layer l \<and>
    length (layer_ciphertext l) = FIRST_HOP_PLAINTEXT_BYTES + 16"
proof -
  let ?p = "\<lparr>next_hop = None, lp_data = payload, return_key = None\<rparr>"
  have l: "length payload \<le> 2049" using assms(3) by (simp add: is_cover_payload_def COVER_MAX_BYTES_def)
  have p: "padded_bytes ?p COVER_PAD_TARGET = FIRST_HOP_PLAINTEXT_BYTES" using l by (simp add: padded_bytes_def onion_sizes max_def)
  have "\<exists>l. encrypt_layer_padded X d (ox_pub X s) ?p COVER_PAD_TARGET = Inr l \<and> peel X s l = Inr ?p \<and> wf_layer l \<and>
      length (layer_ciphertext l) = padded_bytes ?p COVER_PAD_TARGET + 16 \<and> ephemeral_pubkey l = ox_pub X (ld_secret d)"
    by (rule layer_roundtrip [OF assms(1,2)]) (use l p in \<open>simp_all add: onion_sizes\<close>)
  then show ?thesis using assms(3) p by (auto simp: build_cover_def)
qed

end
