(* ===== verification/Onion_Relay.thy ===== *)
theory Onion_Relay
  imports Onion_Packet Local_Store
begin

text \<open>
  The onion relay protocol: \<^verbatim>\<open>network/onion_relay.rs\<close> (wire types, codec and the processing of a layer), the handler
  \<^verbatim>\<open>handle_onion_relay_event\<close> of \<^verbatim>\<open>network/node.rs\<close> with its replay cache, failure throttle and tables of pending
  requests, the delivery at the target backed by the local store, the timing of cover acknowledgements of
  \<^verbatim>\<open>network/cover_ack.rs\<close>, and the two onion retrievals of \<^verbatim>\<open>network/coordinator.rs\<close>. Time is counted in nanoseconds.
\<close>

section \<open>Wire types and codec\<close>

definition ONION_MSG_MAX :: nat where "ONION_MSG_MAX = 64 * 1024"

datatype onion_request =
    RPacket bytes onion_layer
  | RForward bytes onion_layer
  | RDeliver bytes bytes

text \<open>The reasons stand for the texts of \<^verbatim>\<open>OnionRelayResponse::Error\<close>.\<close>

datatype onion_refusal =
    RateLimited | ReplayedPacket | InvalidNextHop | InvalidTarget | PeelFailed miasma_error | BadE2eLayer
  | ReplayedDelivery | E2eDecryptFailed miasma_error | MissingResponseKey | ShareRequestFailed miasma_error
  | ResponseEncryptFailed miasma_error | RelayEncryptFailed miasma_error | RelayOutboundFailure

datatype onion_response = RData bytes | RError onion_refusal

record share_fetch_request =
  sf_digest :: bytes
  sf_slot :: u16
  sf_segment :: u32

text \<open>
  \<open>peer_of\<close> is \<^verbatim>\<open>PeerId::from_bytes\<close>; the rest is bincode on the types of the protocol. A share request is served from
  the store through \<open>or_store\<close>.
\<close>

record orext =
  or_core :: oext
  or_store :: sext
  peer_of :: "bytes \<Rightarrow> bytes option"
  ser_request :: "onion_request \<Rightarrow> bytes option"
  de_request :: "bytes \<Rightarrow> onion_request option"
  ser_response :: "onion_response \<Rightarrow> bytes option"
  de_response :: "bytes \<Rightarrow> onion_response option"
  ser_fetch :: "share_fetch_request \<Rightarrow> bytes option"
  de_fetch :: "bytes \<Rightarrow> share_fetch_request option"
  ser_found :: "miasma_share option \<Rightarrow> bytes option"
  de_found :: "bytes \<Rightarrow> miasma_share option option"

definition write_frame :: "bytes option \<Rightarrow> bytes option" where
  "write_frame ser = map_option (\<lambda>buf. le_bytes 4 (length buf) @ buf) ser"

definition read_frame :: "(bytes \<Rightarrow> 'm option) \<Rightarrow> bytes \<Rightarrow> 'm option" where
  "read_frame de io =
     (if length io < 4 then None
      else
        let len = le_val (take 4 io) in
        if ONION_MSG_MAX < len then None
        else if length io < 4 + len then None
        else de (take len (drop 4 io)))"

definition write_request :: "orext \<Rightarrow> onion_request \<Rightarrow> bytes option" where
  "write_request X r = write_frame (ser_request X r)"

definition read_request :: "orext \<Rightarrow> bytes \<Rightarrow> onion_request option" where
  "read_request X io = read_frame (de_request X) io"

definition write_response :: "orext \<Rightarrow> onion_response \<Rightarrow> bytes option" where
  "write_response X r = write_frame (ser_response X r)"

definition read_response :: "orext \<Rightarrow> bytes \<Rightarrow> onion_response option" where
  "read_response X io = read_frame (de_response X) io"

section \<open>One layer\<close>

datatype onion_action =
    DiscardCover
  | ForwardToNext bytes bytes onion_layer bytes
  | DeliverToTarget bytes bytes bytes bytes

definition process_onion_layer :: "oext \<Rightarrow> bytes \<Rightarrow> bytes \<Rightarrow> onion_layer \<Rightarrow> miasma_error + onion_action" where
  "process_onion_layer X secret circuit l =
     (case peel X secret l of
        Inl err \<Rightarrow> Inl err
      | Inr payload \<Rightarrow>
          if next_hop payload = None \<and> return_key payload = None \<and> is_cover_payload (lp_data payload) then Inr DiscardCover
          else
            (case next_hop payload of
               None \<Rightarrow> Inl Sss
             | Some hop \<Rightarrow>
                 (case return_key payload of
                    None \<Rightarrow> Inl Sss
                  | Some key \<Rightarrow>
                      (case de_layer X (lp_data payload) of
                         Some inner \<Rightarrow> Inr (ForwardToNext hop circuit inner key)
                       | None \<Rightarrow>
                           (case de_inner X (lp_data payload) of
                              None \<Rightarrow> Inl Serialization
                            | Some inner \<Rightarrow> Inr (DeliverToTarget hop circuit (ip_body inner) key))))))"

section \<open>Timing of cover acknowledgements\<close>

definition DELAY_WINDOW :: nat where "DELAY_WINDOW = 64"
definition MAX_ACK_DELAY :: nat where "MAX_ACK_DELAY = 5 * 10 ^ 9"
definition MAX_HELD_ACKS :: nat where "MAX_HELD_ACKS = 64"

record 'a cover_ack =
  ack_enabled :: bool
  ack_samples :: "nat list"
  ack_held :: "(nat \<times> 'a) list"

definition record_forward_delay :: "nat \<Rightarrow> 'a cover_ack \<Rightarrow> 'a cover_ack" where
  "record_forward_delay delay a =
     (if ack_enabled a then
        a\<lparr>ack_samples := (if length (ack_samples a) = DELAY_WINDOW then tl (ack_samples a) else ack_samples a) @ [min delay MAX_ACK_DELAY]\<rparr>
      else a)"

definition sample_delay :: "u64 \<Rightarrow> nat list \<Rightarrow> nat option" where
  "sample_delay pick samples = (if samples = [] then None else Some (samples ! (unat pick mod length samples)))"

definition submit_ack :: "nat \<Rightarrow> u64 \<Rightarrow> 'a \<Rightarrow> 'a cover_ack \<Rightarrow> 'a cover_ack \<times> 'a option" where
  "submit_ack t pick item a =
     (if \<not> ack_enabled a \<or> MAX_HELD_ACKS \<le> length (ack_held a) then (a, Some item)
      else
        (case sample_delay pick (ack_samples a) of
           None \<Rightarrow> (a, Some item)
         | Some delay \<Rightarrow>
             if delay \<noteq> 0 then (a\<lparr>ack_held := ack_held a @ [(t + delay, item)]\<rparr>, None) else (a, Some item)))"

definition next_due :: "'a cover_ack \<Rightarrow> nat option" where
  "next_due a = (if ack_held a = [] then None else Some (Min (set (map fst (ack_held a)))))"

definition swap_remove :: "nat \<Rightarrow> 'a list \<Rightarrow> 'a list" where
  "swap_remove i xs = butlast (xs[i := last xs])"

function drain_loop :: "nat \<Rightarrow> nat \<Rightarrow> (nat \<times> 'a) list \<Rightarrow> 'a list \<Rightarrow> (nat \<times> 'a) list \<times> 'a list" where
  "drain_loop t i held due =
     (if i < length held then
        if fst (held ! i) \<le> t then drain_loop t i (swap_remove i held) (due @ [snd (held ! i)])
        else drain_loop t (Suc i) held due
      else (held, due))"
  by pat_completeness auto
termination
  by (relation "measure (\<lambda>(t, i, held, due). length held - i)") (auto simp: swap_remove_def)

declare drain_loop.simps [simp del]

definition drain_due :: "nat \<Rightarrow> 'a cover_ack \<Rightarrow> 'a cover_ack \<times> 'a list" where
  "drain_due t a = (case drain_loop t 0 (ack_held a) [] of (held, due) \<Rightarrow> (a\<lparr>ack_held := held\<rparr>, due))"

section \<open>The node\<close>

text \<open>
  Channels and outbound request identifiers are numbers; the identifier of a request sent is \<open>tw_id\<close>. \<open>tw_pick\<close> and
  \<open>tw_ack\<close> are drawn for a cover acknowledgement, \<open>tw_nonce\<close> for an encrypted response; \<open>tw_search_io\<close> and
  \<open>tw_get_io\<close> are the environments of the store operations.
\<close>

record onion_node =
  on_secret :: bytes
  on_store :: "store option"
  replay_cache :: "bytes list"
  auth_failures :: "(bytes, nat \<times> u32) fmap"
  pending_relays :: "(nat, bytes \<times> bytes) fmap"
  pending_replies :: "(nat, bytes \<times> nat) fmap"
  pending_inbound :: "(nat, bytes \<times> nat) fmap"
  pending_cover :: "(nat, bytes \<times> unit) fmap"
  forward_started :: "(nat, bytes \<times> nat) fmap"
  on_acks :: "(nat \<times> bytes) cover_ack"

record turn_world =
  tw_now :: nat
  tw_id :: nat
  tw_pick :: u64
  tw_ack :: "nat \<Rightarrow> u8"
  tw_nonce :: bytes
  tw_search_io :: "nat \<Rightarrow> io"
  tw_get_io :: "nat \<Rightarrow> io"

datatype onion_event =
    InRequest bytes onion_request nat
  | InResponse bytes nat onion_response
  | OutFailure bytes nat

datatype onion_output =
    SendResponse nat onion_response
  | SendRequest nat bytes onion_request
  | ReplyTo nat "miasma_error + onion_response"

definition ONION_REPLAY_FINGERPRINT_DOMAIN :: bytes where
  "ONION_REPLAY_FINGERPRINT_DOMAIN = str_bytes ''miasma-onion-replay-layer-v1''"

definition ONION_REPLAY_CACHE_SIZE :: nat where "ONION_REPLAY_CACHE_SIZE = 4096"
definition ONION_AUTH_FAILURE_LIMIT :: u32 where "ONION_AUTH_FAILURE_LIMIT = 64"
definition ONION_AUTH_FAILURE_WINDOW :: nat where "ONION_AUTH_FAILURE_WINDOW = 10 * 10 ^ 9"
definition ONION_AUTH_FAILURE_MAX_SENDERS :: nat where "ONION_AUTH_FAILURE_MAX_SENDERS = 1024"

definition onion_layer_fingerprint :: "orext \<Rightarrow> onion_layer \<Rightarrow> bytes" where
  "onion_layer_fingerprint X l =
     blake3 (sx_core (or_store X)) (ONION_REPLAY_FINGERPRINT_DOMAIN @ ephemeral_pubkey l @ layer_nonce l @ layer_ciphertext l)"

definition onion_is_replay :: "orext \<Rightarrow> onion_layer \<Rightarrow> onion_node \<Rightarrow> bool" where
  "onion_is_replay X l nd \<longleftrightarrow> onion_layer_fingerprint X l \<in> set (replay_cache nd)"

definition onion_record_authenticated :: "orext \<Rightarrow> onion_layer \<Rightarrow> onion_node \<Rightarrow> onion_node" where
  "onion_record_authenticated X l nd =
     (let fp = onion_layer_fingerprint X l in
      if fp \<in> set (replay_cache nd) then nd
      else nd\<lparr>replay_cache :=
        (if ONION_REPLAY_CACHE_SIZE \<le> length (replay_cache nd) then tl (replay_cache nd) else replay_cache nd) @ [fp]\<rparr>)"

definition onion_sender_throttled :: "nat \<Rightarrow> bytes \<Rightarrow> onion_node \<Rightarrow> onion_node \<times> bool" where
  "onion_sender_throttled t peer nd =
     (case fmlookup (auth_failures nd) peer of
        Some (start, n) \<Rightarrow>
          if t - start < ONION_AUTH_FAILURE_WINDOW then (nd, ONION_AUTH_FAILURE_LIMIT \<le> n)
          else (nd\<lparr>auth_failures := fmdrop peer (auth_failures nd)\<rparr>, False)
      | None \<Rightarrow> (nd, False))"

definition onion_note_auth_failure :: "nat \<Rightarrow> bytes \<Rightarrow> onion_node \<Rightarrow> onion_node" where
  "onion_note_auth_failure t peer nd =
     (let m = auth_failures nd;
          m = (if peer |\<notin>| fmdom m \<and> ONION_AUTH_FAILURE_MAX_SENDERS \<le> fmsize m then
                 let kept = fmretain (\<lambda>_ (start, _). t - start < ONION_AUTH_FAILURE_WINDOW) m in
                 if ONION_AUTH_FAILURE_MAX_SENDERS \<le> fmsize kept then fmempty else kept
               else m);
          (start, n) = (case fmlookup m peer of None \<Rightarrow> (t, 0) | Some e \<Rightarrow> e);
          (start, n) = (if ONION_AUTH_FAILURE_WINDOW \<le> t - start then (t, 0) else (start, n))
      in nd\<lparr>auth_failures := fmupd peer (start, saturating_add n 1) m\<rparr>)"

definition take_peer_correlated :: "nat \<Rightarrow> bytes \<Rightarrow> (nat, bytes \<times> 'a) fmap \<Rightarrow> (nat, bytes \<times> 'a) fmap \<times> 'a option" where
  "take_peer_correlated i peer pending =
     (case fmlookup pending i of
        None \<Rightarrow> (pending, None)
      | Some (expected, v) \<Rightarrow> if expected \<noteq> peer then (pending, None) else (fmdrop i pending, Some v))"

section \<open>The target\<close>

fun find_share :: "sext \<Rightarrow> (nat \<Rightarrow> io) \<Rightarrow> nat \<Rightarrow> share_fetch_request \<Rightarrow> bytes list \<Rightarrow> store \<Rightarrow> store \<times> miasma_share option" where
  "find_share S ws i req [] st = (st, None)"
| "find_share S ws i req (a # as) st =
     (case get S (ws i) a st of
        (st, Inr s) \<Rightarrow>
          if slot_index s = sf_slot req \<and> segment_index s = sf_segment req then (st, Some s)
          else find_share S ws (Suc i) req as st
      | (st, Inl _) \<Rightarrow> find_share S ws (Suc i) req as st)"

definition process_onion_share_request ::
  "orext \<Rightarrow> turn_world \<Rightarrow> bytes \<Rightarrow> onion_node \<Rightarrow> onion_node \<times> (miasma_error + bytes)" where
  "process_onion_share_request X w data nd =
     (case data of
        [] \<Rightarrow> (nd, Inl Sss)
      | tag # rest \<Rightarrow>
          if tag \<noteq> 0x10 then (nd, Inl Sss)
          else
            (case de_fetch X rest of
               None \<Rightarrow> (nd, Inl Serialization)
             | Some req \<Rightarrow>
                 let (store', share) =
                       (case on_store nd of
                          None \<Rightarrow> (None, None)
                        | Some st \<Rightarrow>
                            let (st, candidates) = search_by_mid_prefix (or_store X) (tw_search_io w) (take 8 (sf_digest req)) st;
                                (st, share) = find_share (or_store X) (tw_get_io w) 0 req candidates st
                            in (Some st, share))
                 in (nd\<lparr>on_store := store'\<rparr>,
                     case ser_found X share of None \<Rightarrow> Inl Serialization | Some bytes \<Rightarrow> Inr (0x11 # bytes))))"

definition handle_onion_delivery :: "orext \<Rightarrow> turn_world \<Rightarrow> bytes \<Rightarrow> bytes \<Rightarrow> onion_node \<Rightarrow> onion_node \<times> onion_response" where
  "handle_onion_delivery X w peer body nd =
     (case de_layer (or_core X) body of
        None \<Rightarrow> (nd, RError BadE2eLayer)
      | Some l \<Rightarrow>
          let (nd, throttled) = onion_sender_throttled (tw_now w) peer nd in
          if throttled then (nd, RError RateLimited)
          else if onion_is_replay X l nd then (nd, RError ReplayedDelivery)
          else
            (case peel (or_core X) (on_secret nd) l of
               Inl err \<Rightarrow> (onion_note_auth_failure (tw_now w) peer nd, RError (E2eDecryptFailed err))
             | Inr payload \<Rightarrow>
                 let nd = onion_record_authenticated X l nd in
                 (case return_key payload of
                    None \<Rightarrow> (nd, RError MissingResponseKey)
                  | Some session_key \<Rightarrow>
                      (case process_onion_share_request X w (lp_data payload) nd of
                         (nd, Inl err) \<Rightarrow> (nd, RError (ShareRequestFailed err))
                       | (nd, Inr resp) \<Rightarrow>
                           (case encrypt_response (or_core X) (tw_nonce w) session_key resp of
                              Inl err \<Rightarrow> (nd, RError (ResponseEncryptFailed err))
                            | Inr encrypted \<Rightarrow> (nd, RData encrypted))))))"

section \<open>The handler\<close>

fun perform_action :: "orext \<Rightarrow> turn_world \<Rightarrow> nat \<Rightarrow> onion_action \<Rightarrow> onion_node \<Rightarrow> onion_node \<times> onion_output list" where
  "perform_action X w ch DiscardCover nd =
     (let ack = map (tw_ack w) [0..<ONION_PAD_TARGET];
          (acks, due) = submit_ack (tw_now w) (tw_pick w) (ch, ack) (on_acks nd)
      in (nd\<lparr>on_acks := acks\<rparr>, case due of None \<Rightarrow> [] | Some (ch, ack) \<Rightarrow> [SendResponse ch (RData ack)]))"
| "perform_action X w ch (ForwardToNext hop circuit inner key) nd =
     (case peer_of X hop of
        None \<Rightarrow> (nd, [SendResponse ch (RError InvalidNextHop)])
      | Some p \<Rightarrow>
          (nd\<lparr>pending_relays := fmupd (tw_id w) (p, key) (pending_relays nd),
              forward_started :=
                (if ack_enabled (on_acks nd) then fmupd (tw_id w) (p, tw_now w) (forward_started nd) else forward_started nd),
              pending_inbound := fmupd (tw_id w) (p, ch) (pending_inbound nd)\<rparr>,
           [SendRequest (tw_id w) p (RForward circuit inner)]))"
| "perform_action X w ch (DeliverToTarget hop circuit body key) nd =
     (case peer_of X hop of
        None \<Rightarrow> (nd, [SendResponse ch (RError InvalidTarget)])
      | Some p \<Rightarrow>
          (nd\<lparr>pending_relays := fmupd (tw_id w) (p, key) (pending_relays nd),
              pending_inbound := fmupd (tw_id w) (p, ch) (pending_inbound nd)\<rparr>,
           [SendRequest (tw_id w) p (RDeliver circuit body)]))"

definition handle_layer :: "orext \<Rightarrow> turn_world \<Rightarrow> bytes \<Rightarrow> bytes \<Rightarrow> onion_layer \<Rightarrow> nat \<Rightarrow> onion_node \<Rightarrow> onion_node \<times> onion_output list" where
  "handle_layer X w peer circuit l ch nd =
     (let (nd, throttled) = onion_sender_throttled (tw_now w) peer nd in
      if throttled then (nd, [SendResponse ch (RError RateLimited)])
      else if onion_is_replay X l nd then (nd, [SendResponse ch (RError ReplayedPacket)])
      else
        (case process_onion_layer (or_core X) (on_secret nd) circuit l of
           Inl err \<Rightarrow> (onion_note_auth_failure (tw_now w) peer nd, [SendResponse ch (RError (PeelFailed err))])
         | Inr act \<Rightarrow> perform_action X w ch act (onion_record_authenticated X l nd)))"

definition encrypt_relay_response :: "orext \<Rightarrow> turn_world \<Rightarrow> bytes \<Rightarrow> onion_response \<Rightarrow> onion_response" where
  "encrypt_relay_response X w key resp =
     (case resp of
        RData data \<Rightarrow>
          (case encrypt_response (or_core X) (tw_nonce w) key data of
             Inl err \<Rightarrow> RError (RelayEncryptFailed err)
           | Inr encrypted \<Rightarrow> RData encrypted)
      | RError err \<Rightarrow> RError err)"

definition handle_response :: "orext \<Rightarrow> turn_world \<Rightarrow> bytes \<Rightarrow> nat \<Rightarrow> onion_response \<Rightarrow> onion_node \<Rightarrow> onion_node \<times> onion_output list" where
  "handle_response X w peer i resp nd =
     (case take_peer_correlated i peer (pending_cover nd) of
        (m, Some _) \<Rightarrow> (nd\<lparr>pending_cover := m\<rparr>, [])
      | (_, None) \<Rightarrow>
          let (m, started) = take_peer_correlated i peer (forward_started nd);
              nd = nd\<lparr>forward_started := m\<rparr>;
              nd = (case (started, resp) of
                      (Some t0, RData _) \<Rightarrow> nd\<lparr>on_acks := record_forward_delay (tw_now w - t0) (on_acks nd)\<rparr>
                    | _ \<Rightarrow> nd);
              reply = (\<lambda>nd. case take_peer_correlated i peer (pending_replies nd) of
                              (m, Some ch) \<Rightarrow> (nd\<lparr>pending_replies := m\<rparr>, [ReplyTo ch (Inr resp)])
                            | (_, None) \<Rightarrow> (nd, []))
          in (case take_peer_correlated i peer (pending_relays nd) of
                (m, Some key) \<Rightarrow>
                  let nd = nd\<lparr>pending_relays := m\<rparr> in
                  (case take_peer_correlated i peer (pending_inbound nd) of
                     (m, Some ch) \<Rightarrow> (nd\<lparr>pending_inbound := m\<rparr>, [SendResponse ch (encrypt_relay_response X w key resp)])
                   | (_, None) \<Rightarrow> reply nd)
              | (_, None) \<Rightarrow> reply nd))"

definition handle_failure :: "bytes \<Rightarrow> nat \<Rightarrow> onion_node \<Rightarrow> onion_node \<times> onion_output list" where
  "handle_failure peer i nd =
     (case take_peer_correlated i peer (pending_cover nd) of
        (m, Some _) \<Rightarrow> (nd\<lparr>pending_cover := m\<rparr>, [])
      | (_, None) \<Rightarrow>
          let nd = nd\<lparr>forward_started := fst (take_peer_correlated i peer (forward_started nd)),
                      pending_relays := fst (take_peer_correlated i peer (pending_relays nd))\<rparr>;
              (m, inbound) = take_peer_correlated i peer (pending_inbound nd);
              (r, reply) = take_peer_correlated i peer (pending_replies nd)
          in (nd\<lparr>pending_inbound := m, pending_replies := r\<rparr>,
              (case inbound of None \<Rightarrow> [] | Some ch \<Rightarrow> [SendResponse ch (RError RelayOutboundFailure)]) @
              (case reply of None \<Rightarrow> [] | Some ch \<Rightarrow> [ReplyTo ch (Inl Network)])))"

fun handle_onion_relay_event :: "orext \<Rightarrow> turn_world \<Rightarrow> onion_event \<Rightarrow> onion_node \<Rightarrow> onion_node \<times> onion_output list" where
  "handle_onion_relay_event X w (InRequest peer (RPacket circuit l) ch) nd = handle_layer X w peer circuit l ch nd"
| "handle_onion_relay_event X w (InRequest peer (RForward circuit l) ch) nd = handle_layer X w peer circuit l ch nd"
| "handle_onion_relay_event X w (InRequest peer (RDeliver circuit body) ch) nd =
     (case handle_onion_delivery X w peer body nd of (nd, resp) \<Rightarrow> (nd, [SendResponse ch resp]))"
| "handle_onion_relay_event X w (InResponse peer i resp) nd = handle_response X w peer i resp nd"
| "handle_onion_relay_event X w (OutFailure peer i) nd = handle_failure peer i nd"

text \<open>The commands that send: a request of the coordinator and a cover cell to one of the connected peers with a key.\<close>

definition send_onion_request :: "turn_world \<Rightarrow> bytes \<Rightarrow> onion_request \<Rightarrow> bytes \<Rightarrow> nat \<Rightarrow> onion_node \<Rightarrow> onion_node \<times> onion_output list" where
  "send_onion_request w peer request key reply nd =
     (nd\<lparr>pending_relays := fmupd (tw_id w) (peer, key) (pending_relays nd),
         pending_replies := fmupd (tw_id w) (peer, reply) (pending_replies nd)\<rparr>,
      [SendRequest (tw_id w) peer request])"

definition send_cover ::
  "orext \<Rightarrow> turn_world \<Rightarrow> bytes \<Rightarrow> layer_draws \<Rightarrow> (bytes \<times> bytes) list \<Rightarrow> bytes \<Rightarrow> onion_node \<Rightarrow> onion_node \<times> onion_output list" where
  "send_cover X w circuit d candidates payload nd =
     (if is_cover_payload payload \<and> fmsize (pending_cover nd) < 128 \<and> candidates \<noteq> [] then
        let (peer, key) = candidates ! (unat (tw_pick w) mod length candidates) in
        (case build_cover (or_core X) circuit d key payload of
           Inl _ \<Rightarrow> (nd, [])
         | Inr packet \<Rightarrow>
             (nd\<lparr>pending_cover := fmupd (tw_id w) (peer, ()) (pending_cover nd)\<rparr>,
              [SendRequest (tw_id w) peer (RPacket (packet_circuit packet) (packet_layer packet))]))
      else (nd, []))"

definition flush_cover_acks :: "turn_world \<Rightarrow> onion_node \<Rightarrow> onion_node \<times> onion_output list" where
  "flush_cover_acks w nd =
     (case drain_due (tw_now w) (on_acks nd) of
        (acks, due) \<Rightarrow> (nd\<lparr>on_acks := acks\<rparr>, map (\<lambda>(ch, ack). SendResponse ch (RData ack)) due))"

text \<open>When the last connection to a peer closes, what was awaited from it is forgotten, cover requests excepted.\<close>

definition onion_disconnected :: "bytes \<Rightarrow> onion_node \<Rightarrow> onion_node" where
  "onion_disconnected p nd =
     nd\<lparr>pending_relays := fmretain (\<lambda>_ (q, _). q \<noteq> p) (pending_relays nd), pending_replies := fmretain (\<lambda>_ (q, _). q \<noteq> p) (pending_replies nd),
        pending_inbound := fmretain (\<lambda>_ (q, _). q \<noteq> p) (pending_inbound nd), forward_started := fmretain (\<lambda>_ (q, _). q \<noteq> p) (forward_started nd)\<rparr>"

section \<open>The coordinator\<close>

record relay_info =
  ri_peer :: bytes
  ri_key :: bytes
  ri_addr :: bytes

record intro_point =
  in_peer :: bytes
  in_pseudonym :: bytes
  in_key :: "bytes option"
  in_addrs :: "bytes list"

text \<open>
  What the coordinator asks the node: relays with onion keys, the record, keys of peers, introduction points of a
  holder whose descriptor is a rendezvous one, and the answer to the \<open>i\<close>-th request sent. \<open>oe_draws i\<close> is what is drawn
  for it. \<open>lossy\<close> is \<^verbatim>\<open>String::from_utf8_lossy\<close>.
\<close>

record onion_env =
  oe_relays :: "miasma_error + relay_info list"
  oe_record :: "miasma_error + dht_record option"
  oe_self :: bytes
  oe_own_key :: "miasma_error + bytes"
  oe_peer_key :: "bytes \<Rightarrow> miasma_error + bytes option"
  oe_rendezvous :: "bytes \<Rightarrow> bytes list option"
  oe_resolve :: "bytes list \<Rightarrow> miasma_error + intro_point list"
  oe_lossy :: "bytes \<Rightarrow> bytes"
  oe_draws :: "nat \<Rightarrow> packet_draws \<times> bytes \<times> layer_draws"
  oe_send :: "nat \<Rightarrow> bytes \<Rightarrow> bytes list \<Rightarrow> onion_request \<Rightarrow> bytes \<Rightarrow> miasma_error + onion_response"

definition decrypt_onion_response :: "orext \<Rightarrow> return_path \<Rightarrow> bytes \<Rightarrow> bytes \<Rightarrow> miasma_share option" where
  "decrypt_onion_response X rp session_key encrypted =
     (case decrypt_response (or_core X) (r1_init_key rp) encrypted of
        Inl _ \<Rightarrow> None
      | Inr after_r1 \<Rightarrow>
          (case decrypt_response (or_core X) (r2_r1_key rp) after_r1 of
             Inl _ \<Rightarrow> None
           | Inr after_r2 \<Rightarrow>
               (case decrypt_response (or_core X) session_key after_r2 of
                  Inl _ \<Rightarrow> None
                | Inr plaintext \<Rightarrow>
                    (case plaintext of
                       [] \<Rightarrow> None
                     | tag # rest \<Rightarrow>
                         if tag \<noteq> 0x11 then None
                         else (case de_found X rest of None \<Rightarrow> None | Some share \<Rightarrow> share)))))"

definition target_key :: "onion_env \<Rightarrow> bytes \<Rightarrow> bytes option" where
  "target_key E target =
     (if target = oe_self E then (case oe_own_key E of Inl _ \<Rightarrow> None | Inr key \<Rightarrow> Some key)
      else (case oe_peer_key E target of Inr (Some key) \<Rightarrow> Some key | _ \<Rightarrow> None))"

definition share_request_body :: "orext \<Rightarrow> dht_record \<Rightarrow> shard_location \<Rightarrow> miasma_error + bytes" where
  "share_request_body X r loc =
     (case ser_fetch X \<lparr>sf_digest = mid_digest r, sf_slot = shard_index loc, sf_segment = 0\<rparr> of
        None \<Rightarrow> Inl Serialization
      | Some b \<Rightarrow> Inr (0x10 # b))"

definition request_packet ::
  "orext \<Rightarrow> onion_env \<Rightarrow> nat \<Rightarrow> relay_info \<Rightarrow> relay_info \<Rightarrow> bytes \<Rightarrow> bytes \<Rightarrow> bytes \<Rightarrow> miasma_error + onion_packet \<times> return_path \<times> bytes" where
  "request_packet X E i r1 r2 key target_id body =
     (case oe_draws E i of
        (d, session_key, de) \<Rightarrow>
          build_e2e (or_core X) d session_key de (ri_key r1) (ri_key r2) key (ri_peer r2) target_id (ri_addr r2) body)"

fun onion_loop ::
  "orext \<Rightarrow> onion_env \<Rightarrow> relay_info \<Rightarrow> relay_info \<Rightarrow> bytes \<Rightarrow> dht_record \<Rightarrow> nat \<Rightarrow> nat \<Rightarrow> shard_location list \<Rightarrow> miasma_share list \<Rightarrow>
     miasma_error + miasma_share list" where
  "onion_loop X E r1 r2 r1_peer r k i [] shares = Inr shares"
| "onion_loop X E r1 r2 r1_peer r k i (loc # locs) shares =
     (if k \<le> length shares then Inr shares
      else
        (case peer_of X (peer_id_bytes loc) of
           None \<Rightarrow> Inl Network
         | Some target \<Rightarrow>
             (case target_key E target of
                None \<Rightarrow> onion_loop X E r1 r2 r1_peer r k (Suc i) locs shares
              | Some key \<Rightarrow>
                  (case share_request_body X r loc of
                     Inl err \<Rightarrow> Inl err
                   | Inr body \<Rightarrow>
                       (case request_packet X E i r1 r2 key (peer_id_bytes loc) body of
                          Inl err \<Rightarrow> Inl err
                        | Inr (packet, rp, session_key) \<Rightarrow>
                            (case oe_send E i r1_peer [oe_lossy E (ri_addr r1)]
                                    (RPacket (packet_circuit packet) (packet_layer packet)) (r1_init_key rp) of
                               Inl err \<Rightarrow> Inl err
                             | Inr (RData encrypted) \<Rightarrow>
                                 (case decrypt_onion_response X rp session_key encrypted of
                                    Some share \<Rightarrow> onion_loop X E r1 r2 r1_peer r k (Suc i) locs (shares @ [share])
                                  | None \<Rightarrow> onion_loop X E r1 r2 r1_peer r k (Suc i) locs shares)
                             | Inr (RError _) \<Rightarrow> onion_loop X E r1 r2 r1_peer r k (Suc i) locs shares))))))"

definition retrieve_via_onion :: "orext \<Rightarrow> onion_env \<Rightarrow> content_id \<Rightarrow> dissolution_params \<Rightarrow> miasma_error + bytes" where
  "retrieve_via_onion X E mid params =
     (case oe_relays E of
        Inr (r1 # r2 # _) \<Rightarrow>
          (case peer_of X (ri_peer r1) of
             None \<Rightarrow> Inl Network
           | Some r1_peer \<Rightarrow>
               (case oe_record E of
                  Inl err \<Rightarrow> Inl err
                | Inr None \<Rightarrow> Inl Sss
                | Inr (Some r) \<Rightarrow>
                    (case onion_loop X E r1 r2 r1_peer r (data_shards params) 0 (locations r) [] of
                       Inl err \<Rightarrow> Inl err
                     | Inr shares \<Rightarrow>
                         if length shares < data_shards params then Inl Sss
                         else retrieve (sx_core (or_store X)) mid shares params)))
      | Inr _ \<Rightarrow> Inl Network
      | Inl err \<Rightarrow> Inl err)"

text \<open>
  The variant for holders behind NAT picks the second relay per holder. \<open>Inr None\<close>: the location is skipped. The trace
  lists the relays of the requests sent and the relay outcomes recorded for introduction points.
\<close>

record onion_trace =
  ot_sent :: "(bytes \<times> bytes) list"
  ot_outcomes :: "(bytes \<times> bool) list"
  ro_attempts :: u64
  ro_successes :: u64
  ro_failures :: u64

definition choose_r2 :: "onion_env \<Rightarrow> relay_info list \<Rightarrow> bytes \<Rightarrow> miasma_error + (relay_info \<times> bytes option) option" where
  "choose_r2 E relays target =
     (case oe_rendezvous E target of
        Some intro_points \<Rightarrow>
          (case oe_resolve E intro_points of
             Inl err \<Rightarrow> Inl err
           | Inr resolved \<Rightarrow>
               (case find (\<lambda>ip. in_key ip \<noteq> None) resolved of
                  None \<Rightarrow> Inr None
                | Some intro \<Rightarrow>
                    (case in_addrs intro of
                       [] \<Rightarrow> Inr None
                     | a # _ \<Rightarrow>
                         Inr (Some (\<lparr>ri_peer = in_peer intro, ri_key = the (in_key intro), ri_addr = a\<rparr>, Some (in_pseudonym intro))))))
      | None \<Rightarrow> (case relays of _ # r2 # _ \<Rightarrow> Inr (Some (r2, None)) | _ \<Rightarrow> Inr None))"

definition note_outcome :: "bytes option \<Rightarrow> bool \<Rightarrow> onion_trace \<Rightarrow> onion_trace" where
  "note_outcome pseudonym ok tr =
     (case pseudonym of None \<Rightarrow> tr | Some ps \<Rightarrow> tr\<lparr>ot_outcomes := ot_outcomes tr @ [(ps, ok)]\<rparr>)"

fun rendezvous_loop ::
  "orext \<Rightarrow> onion_env \<Rightarrow> relay_info list \<Rightarrow> dht_record \<Rightarrow> nat \<Rightarrow> nat \<Rightarrow> shard_location list \<Rightarrow> onion_trace \<Rightarrow> miasma_share list \<Rightarrow>
     onion_trace \<times> (miasma_error + miasma_share list)" where
  "rendezvous_loop X E relays r k i [] tr shares = (tr, Inr shares)"
| "rendezvous_loop X E relays r k i (loc # locs) tr shares =
     (if k \<le> length shares then (tr, Inr shares)
      else
        let skip = rendezvous_loop X E relays r k (Suc i) locs tr shares in
        (case peer_of X (peer_id_bytes loc) of
           None \<Rightarrow> skip
         | Some target \<Rightarrow>
             (case target_key E target of
                None \<Rightarrow> skip
              | Some key \<Rightarrow>
                  (case choose_r2 E relays target of
                     Inl err \<Rightarrow> (tr, Inl err)
                   | Inr None \<Rightarrow> skip
                   | Inr (Some (r2, pseudonym)) \<Rightarrow>
                       (case find (\<lambda>r1. ri_peer r1 \<noteq> ri_peer r2) relays of
                          None \<Rightarrow> skip
                        | Some r1 \<Rightarrow>
                            (case peer_of X (ri_peer r1) of
                               None \<Rightarrow> skip
                             | Some r1_peer \<Rightarrow>
                                 (case share_request_body X r loc of
                                    Inl err \<Rightarrow> (tr, Inl err)
                                  | Inr body \<Rightarrow>
                                      (case request_packet X E i r1 r2 key (peer_id_bytes loc) body of
                                         Inl err \<Rightarrow> (tr, Inl err)
                                       | Inr (packet, rp, session_key) \<Rightarrow>
                                           let response = oe_send E i r1_peer [oe_lossy E (ri_addr r1)]
                                                 (RPacket (packet_circuit packet) (packet_layer packet)) (r1_init_key rp);
                                               tr = tr\<lparr>ot_sent := ot_sent tr @ [(ri_peer r1, ri_peer r2)]\<rparr>;
                                               tr = note_outcome pseudonym (\<not> isl response) tr;
                                               found = (case response of
                                                          Inr (RData encrypted) \<Rightarrow> decrypt_onion_response X rp session_key encrypted
                                                        | _ \<Rightarrow> None)
                                           in rendezvous_loop X E relays r k (Suc i) locs tr
                                                (case found of None \<Rightarrow> shares | Some share \<Rightarrow> shares @ [share])))))))))"

definition retrieve_via_onion_rendezvous ::
  "orext \<Rightarrow> onion_env \<Rightarrow> content_id \<Rightarrow> dissolution_params \<Rightarrow> onion_trace \<Rightarrow> onion_trace \<times> (miasma_error + bytes)" where
  "retrieve_via_onion_rendezvous X E mid params tr =
     (let tr = tr\<lparr>ro_attempts := ro_attempts tr + 1\<rparr>; failed = (\<lambda>tr. tr\<lparr>ro_failures := ro_failures tr + 1\<rparr>) in
      case oe_relays E of
        Inl err \<Rightarrow> (tr, Inl err)
      | Inr relays \<Rightarrow>
          if relays = [] then (failed tr, Inl Network)
          else
            (case oe_record E of
               Inl err \<Rightarrow> (tr, Inl err)
             | Inr None \<Rightarrow> (tr, Inl Sss)
             | Inr (Some r) \<Rightarrow>
                 (case rendezvous_loop X E relays r (data_shards params) 0 (locations r) tr [] of
                    (tr, Inl err) \<Rightarrow> (tr, Inl err)
                  | (tr, Inr shares) \<Rightarrow>
                      if length shares < data_shards params then (failed tr, Inl Sss)
                      else (tr\<lparr>ro_successes := ro_successes tr + 1\<rparr>, retrieve (sx_core (or_store X)) mid shares params))))"

end
