(* ===== verification/Onion_Circuit.thy ===== *)
theory Onion_Circuit
  imports Onion_Relay
begin

text \<open>
  Three nodes of the onion protocol in a row: a request built by \<^verbatim>\<open>build_e2e\<close> is served by the target and its answer
  comes back readable to the initiator alone, whatever else the relays handle in between; first-hop cells have one
  length; a layer is processed once; content held by the targets is retrieved.
\<close>

section \<open>What the code relies on\<close>

fun request_bytes :: "onion_request \<Rightarrow> nat" where
  "request_bytes (RPacket c l) = 4 + length c + length (layer_layout l)"
| "request_bytes (RForward c l) = 4 + length c + length (layer_layout l)"
| "request_bytes (RDeliver c b) = 4 + length c + 8 + length b"

fun wf_request :: "onion_request \<Rightarrow> bool" where
  "wf_request (RPacket c l) \<longleftrightarrow> length c = 16 \<and> wf_layer l"
| "wf_request (RForward c l) \<longleftrightarrow> length c = 16 \<and> wf_layer l"
| "wf_request (RDeliver c b) \<longleftrightarrow> length c = 16"

definition wire_ok :: "orext \<Rightarrow> bool" where
  "wire_ok X \<longleftrightarrow>
     (\<forall>r. wf_request r \<longrightarrow> (\<exists>b. ser_request X r = Some b \<and> length b = request_bytes r \<and> de_request X b = Some r)) \<and>
     (\<forall>d. \<exists>b. ser_response X (RData d) = Some b \<and> length b = 12 + length d \<and> de_response X b = Some (RData d)) \<and>
     (\<forall>e b. ser_response X (RError e) = Some b \<longrightarrow> length b \<le> 4096 \<and> de_response X b = Some (RError e)) \<and>
     (\<forall>r b. ser_fetch X r = Some b \<longrightarrow> length b = 38 \<and> de_fetch X b = Some r) \<and>
     (\<forall>v b. ser_found X v = Some b \<longrightarrow> de_found X b = Some v)"

definition relay_laws :: "orext \<Rightarrow> bool" where
  "relay_laws X \<longleftrightarrow> onion_laws (or_core X) \<and> wire_ok X"

section \<open>Frames\<close>

lemma read_write_frame:
  assumes "ser = Some b" "length b < 2 ^ 32" "write_frame ser = Some f"
  shows "read_frame de f = (if length b \<le> ONION_MSG_MAX then de b else None)"
proof -
  have f: "f = le_bytes 4 (length b) @ b" using assms(1,3) by (simp add: write_frame_def)
  have "le_val (le_bytes 4 (length b)) = length b" using assms(2) by (simp add: le_val_def le_bytes_def be_val_be_bytes)
  then show ?thesis by (simp add: read_frame_def f Let_def)
qed

definition over_request :: "orext \<Rightarrow> onion_request \<Rightarrow> onion_request option" where
  "over_request X r = Option.bind (write_request X r) (read_request X)"

definition over_response :: "orext \<Rightarrow> onion_response \<Rightarrow> onion_response option" where
  "over_response X r = Option.bind (write_response X r) (read_response X)"

lemma over_request_ok:
  assumes "relay_laws X" "wf_request r" "request_bytes r \<le> ONION_MSG_MAX"
  shows "over_request X r = Some r"
proof -
  obtain b where b: "ser_request X r = Some b" "length b = request_bytes r" "de_request X b = Some r"
    using assms(1,2) unfolding relay_laws_def wire_ok_def by blast
  then show ?thesis
    using read_write_frame [OF b(1), of _ "de_request X"] assms(3)
    by (simp add: over_request_def write_request_def read_request_def write_frame_def ONION_MSG_MAX_def)
qed

lemma over_response_data:
  assumes "relay_laws X" "length d < 2 ^ 31"
  shows "over_response X (RData d) = (if 12 + length d \<le> ONION_MSG_MAX then Some (RData d) else None)"
proof -
  obtain b where b: "ser_response X (RData d) = Some b" "length b = 12 + length d" "de_response X b = Some (RData d)"
    using assms(1) unfolding relay_laws_def wire_ok_def by blast
  then show ?thesis
    using read_write_frame [OF b(1), of _ "de_response X"] assms(2)
    by (simp add: over_response_def write_response_def read_response_def write_frame_def)
qed

section \<open>Waiting for an answer\<close>

lemma take_peer_other: "j \<noteq> i \<Longrightarrow> fmlookup (fst (take_peer_correlated i p m)) j = fmlookup m j"
  by (auto simp: take_peer_correlated_def split: option.split)

lemma take_peer_hit: "fmlookup m i = Some (p, v) \<Longrightarrow> take_peer_correlated i p m = (fmdrop i m, Some v)"
  by (simp add: take_peer_correlated_def)

lemma take_peer_none: "fmlookup m i = None \<Longrightarrow> take_peer_correlated i p m = (m, None)"
  by (simp add: take_peer_correlated_def)

definition awaits ::
  "onion_node \<Rightarrow> nat \<Rightarrow> (bytes \<times> bytes) option \<times> (bytes \<times> nat) option \<times> (bytes \<times> unit) option \<times> (bytes \<times> nat) option" where
  "awaits nd i =
     (fmlookup (pending_relays nd) i, fmlookup (pending_inbound nd) i, fmlookup (pending_cover nd) i, fmlookup (pending_replies nd) i)"

fun foreign :: "nat \<Rightarrow> turn_world \<times> onion_event \<Rightarrow> bool" where
  "foreign i (w, InRequest p r ch) \<longleftrightarrow> tw_id w \<noteq> i"
| "foreign i (w, InResponse p j r) \<longleftrightarrow> j \<noteq> i"
| "foreign i (w, OutFailure p j) \<longleftrightarrow> j \<noteq> i"

lemma awaits_throttled [simp]: "awaits (fst (onion_sender_throttled t p nd)) i = awaits nd i"
  by (auto simp: onion_sender_throttled_def awaits_def split: option.split)

lemma awaits_note [simp]: "awaits (onion_note_auth_failure t p nd) i = awaits nd i"
  by (simp add: onion_note_auth_failure_def awaits_def Let_def split: prod.split)

lemma awaits_record [simp]: "awaits (onion_record_authenticated X l nd) i = awaits nd i"
  by (simp add: onion_record_authenticated_def awaits_def Let_def)

lemma awaits_perform: "tw_id w \<noteq> i \<Longrightarrow> awaits (fst (perform_action X w ch act nd)) i = awaits nd i"
  by (cases act) (auto simp: awaits_def Let_def split: option.split prod.split)

lemma awaits_layer: "tw_id w \<noteq> i \<Longrightarrow> awaits (fst (handle_layer X w p c l ch nd)) i = awaits nd i"
proof -
  assume i: "tw_id w \<noteq> i"
  obtain nd' b where t: "onion_sender_throttled (tw_now w) p nd = (nd', b)" by (metis surj_pair)
  have "awaits nd' i = awaits nd i" using awaits_throttled [of "tw_now w" p nd i] t by simp
  then show ?thesis using awaits_perform [OF i] by (auto simp: handle_layer_def t split: sum.split)
qed

lemma awaits_share: "awaits (fst (process_onion_share_request X w data nd)) i = awaits nd i"
  by (auto simp: process_onion_share_request_def awaits_def Let_def split: list.split option.split prod.split)

lemma awaits_delivery: "awaits (fst (handle_onion_delivery X w p body nd)) i = awaits nd i"
proof (cases "de_layer (or_core X) body")
  case (Some l)
  obtain nd' b where t: "onion_sender_throttled (tw_now w) p nd = (nd', b)" by (metis surj_pair)
  have a: "awaits nd' i = awaits nd i" using awaits_throttled [of "tw_now w" p nd i] t by simp
  show ?thesis
  proof (cases "\<exists>payload key. \<not> b \<and> \<not> onion_is_replay X l nd' \<and> peel (or_core X) (on_secret nd') l = Inr payload \<and>
      return_key payload = Some key")
    case True
    then obtain payload key where p: "\<not> b" "\<not> onion_is_replay X l nd'" "peel (or_core X) (on_secret nd') l = Inr payload"
      "return_key payload = Some key" by blast
    obtain nd2 r where s: "process_onion_share_request X w (lp_data payload) (onion_record_authenticated X l nd') = (nd2, r)"
      by (metis surj_pair)
    have "awaits nd2 i = awaits nd' i"
      using awaits_share [of X w "lp_data payload" "onion_record_authenticated X l nd'" i] s by simp
    then show ?thesis using a p s Some t by (auto simp: handle_onion_delivery_def split: sum.split)
  next
    case False
    then show ?thesis using a Some t by (auto simp: handle_onion_delivery_def Let_def split: sum.split option.split)
  qed
qed (simp add: handle_onion_delivery_def)

lemma take_peer_pair: "take_peer_correlated j p m = (m', v) \<Longrightarrow> j \<noteq> i \<Longrightarrow> fmlookup m' i = fmlookup m i"
  using take_peer_other [of i j p m] by simp

lemma awaits_response:
  assumes "j \<noteq> i"
  shows "awaits (fst (handle_response X w p j r nd)) i = awaits nd i"
proof -
  obtain mc vc where c: "take_peer_correlated j p (pending_cover nd) = (mc, vc)" by (metis surj_pair)
  obtain ms vs where s: "take_peer_correlated j p (forward_started nd) = (ms, vs)" by (metis surj_pair)
  obtain mr vr where k: "take_peer_correlated j p (pending_relays nd) = (mr, vr)" by (metis surj_pair)
  obtain mi vi where i: "take_peer_correlated j p (pending_inbound nd) = (mi, vi)" by (metis surj_pair)
  obtain mp vp where y: "take_peer_correlated j p (pending_replies nd) = (mp, vp)" by (metis surj_pair)
  note e = take_peer_pair [OF c assms] take_peer_pair [OF k assms] take_peer_pair [OF i assms] take_peer_pair [OF y assms]
  show ?thesis
    by (cases vc; cases vs; cases vr; cases vi; cases vp; cases r)
      (simp_all add: handle_response_def awaits_def Let_def c s k i y e)
qed

lemma awaits_failure: "j \<noteq> i \<Longrightarrow> awaits (fst (handle_failure p j nd)) i = awaits nd i"
  by (auto simp: handle_failure_def awaits_def Let_def take_peer_pair take_peer_other split: prod.split option.split)

lemma awaits_event: "foreign i (w, e) \<Longrightarrow> awaits (fst (handle_onion_relay_event X w e nd)) i = awaits nd i"
proof (cases e)
  case (InRequest p r ch)
  assume "foreign i (w, e)"
  then show ?thesis using InRequest by (cases r) (auto simp: awaits_layer awaits_delivery case_prod_unfold)
qed (simp_all add: awaits_response awaits_failure)

lemma disconnect_keeps_others: "fmlookup m i = Some (q, v) \<Longrightarrow> q \<noteq> p \<Longrightarrow> fmlookup (fmretain (\<lambda>_ (q, _). q \<noteq> p) m) i = Some (q, v)"
  by (simp add: fmlookup_retain)

lemma take_peer_retained: "take_peer_correlated i p (fmretain (\<lambda>_ (q, _). q \<noteq> p) m) = (fmretain (\<lambda>_ (q, _). q \<noteq> p) m, None)"
  by (auto simp: take_peer_correlated_def split: option.splits if_splits)

lemma disconnect_forgets:
  assumes "fmlookup (pending_cover nd) i = None"
  shows "handle_onion_relay_event X w (InResponse p i r) (onion_disconnected p nd) = (onion_disconnected p nd, [])"
  using take_peer_none [OF assms] by (simp add: handle_response_def onion_disconnected_def take_peer_retained)

definition onion_run :: "orext \<Rightarrow> (turn_world \<times> onion_event) list \<Rightarrow> onion_node \<Rightarrow> onion_node" where
  "onion_run X es nd = foldl (\<lambda>nd (w, e). fst (handle_onion_relay_event X w e nd)) nd es"

lemma awaits_run: "list_all (foreign i) es \<Longrightarrow> awaits (onion_run X es nd) i = awaits nd i"
  by (induction es arbitrary: nd) (auto simp: onion_run_def awaits_event)

section \<open>One hop\<close>

definition open_to :: "orext \<Rightarrow> turn_world \<Rightarrow> bytes \<Rightarrow> bytes \<Rightarrow> onion_node \<Rightarrow> bool" where
  "open_to X w peer ephemeral nd \<longleftrightarrow>
     \<not> snd (onion_sender_throttled (tw_now w) peer nd) \<and> (\<forall>l. ephemeral_pubkey l = ephemeral \<longrightarrow> \<not> onion_is_replay X l nd) \<and>
     fmlookup (pending_cover nd) (tw_id w) = None \<and> fmlookup (pending_replies nd) (tw_id w) = None"

lemma throttled_keeps:
  "onion_sender_throttled t p nd = (nd', b) \<Longrightarrow>
     on_secret nd' = on_secret nd \<and> replay_cache nd' = replay_cache nd \<and> on_store nd' = on_store nd \<and>
     pending_cover nd' = pending_cover nd \<and> pending_replies nd' = pending_replies nd"
  by (auto simp: onion_sender_throttled_def split: option.splits if_splits)

lemma record_keeps [simp]:
  "on_secret (onion_record_authenticated X l nd) = on_secret nd" "on_store (onion_record_authenticated X l nd) = on_store nd"
  "pending_cover (onion_record_authenticated X l nd) = pending_cover nd"
  "pending_replies (onion_record_authenticated X l nd) = pending_replies nd"
  by (simp_all add: onion_record_authenticated_def Let_def)

lemma relay_passes_on:
  assumes "open_to X w peer (ephemeral_pubkey l) nd" and "process_onion_layer (or_core X) (on_secret nd) c l = Inr act"
    and "act = ForwardToNext hop c inner key \<and> req = RForward c inner \<or> act = DeliverToTarget hop c body key \<and> req = RDeliver c body"
    and "peer_of X hop = Some p"
  shows "\<exists>nd'. handle_layer X w peer c l ch nd = (nd', [SendRequest (tw_id w) p req]) \<and>
    awaits nd' (tw_id w) = (Some (p, key), Some (p, ch), None, None)"
proof -
  obtain nd1 where t: "onion_sender_throttled (tw_now w) peer nd = (nd1, False)"
    using assms(1) by (auto simp: open_to_def prod_eq_iff)
  note k = throttled_keeps [OF t]
  have r: "\<not> onion_is_replay X l nd1" using assms(1) k by (simp add: open_to_def onion_is_replay_def)
  let ?nd = "onion_record_authenticated X l nd1"
  have "handle_layer X w peer c l ch nd = perform_action X w ch act ?nd"
    using t r k assms(2) by (simp add: handle_layer_def)
  moreover have "fmlookup (pending_cover ?nd) (tw_id w) = None" "fmlookup (pending_replies ?nd) (tw_id w) = None"
    using assms(1) k by (simp_all add: open_to_def)
  ultimately show ?thesis using assms(3,4) by (auto simp: awaits_def)
qed

lemma relay_answers:
  assumes "awaits nd i = (Some (p, key), Some (p, ch), None, None)"
  shows "snd (handle_response X w p i r nd) = [SendResponse ch (encrypt_relay_response X w key r)]"
    and "snd (handle_failure p i nd) = [SendResponse ch (RError RelayOutboundFailure)]"
proof -
  have t: "take_peer_correlated i p (pending_relays nd) = (fmdrop i (pending_relays nd), Some key)"
    "take_peer_correlated i p (pending_inbound nd) = (fmdrop i (pending_inbound nd), Some ch)"
    "take_peer_correlated i p (pending_cover nd) = (pending_cover nd, None)"
    "take_peer_correlated i p (pending_replies nd) = (pending_replies nd, None)"
    using assms by (simp_all add: awaits_def take_peer_hit take_peer_none)
  obtain ms vs where s: "take_peer_correlated i p (forward_started nd) = (ms, vs)" by (metis surj_pair)
  show "snd (handle_response X w p i r nd) = [SendResponse ch (encrypt_relay_response X w key r)]"
    by (cases vs; cases r) (simp_all add: handle_response_def Let_def t s)
  show "snd (handle_failure p i nd) = [SendResponse ch (RError RelayOutboundFailure)]"
    by (simp add: handle_failure_def Let_def t)
qed

definition served :: "orext \<Rightarrow> turn_world \<Rightarrow> share_fetch_request \<Rightarrow> onion_node \<Rightarrow> miasma_share option" where
  "served X w req nd =
     (case on_store nd of
        None \<Rightarrow> None
      | Some st \<Rightarrow>
          let (st, candidates) = search_by_mid_prefix (or_store X) (tw_search_io w) (take 8 (sf_digest req)) st
          in snd (find_share (or_store X) (tw_get_io w) 0 req candidates st))"

lemma target_serves:
  assumes "relay_laws X" and "open_to X w peer (ephemeral_pubkey l) nd" and "de_layer (or_core X) body = Some l"
    and "peel (or_core X) (on_secret nd) l = Inr \<lparr>next_hop = None, lp_data = 0x10 # b, return_key = Some sk\<rparr>"
    and "de_fetch X b = Some req" and "length (tw_nonce w) = 24" and f: "ser_found X (served X w req nd) = Some found"
  shows "\<exists>enc. snd (handle_onion_delivery X w peer body nd) = RData enc \<and>
    decrypt_response (or_core X) sk enc = Inr (0x11 # found) \<and> length enc = 41 + length found"
proof -
  obtain nd1 where t: "onion_sender_throttled (tw_now w) peer nd = (nd1, False)"
    using assms(2) by (auto simp: open_to_def prod_eq_iff)
  note k = throttled_keeps [OF t]
  have r: "\<not> onion_is_replay X l nd1" using assms(2) k by (simp add: open_to_def onion_is_replay_def)
  let ?nd = "onion_record_authenticated X l nd1"
  obtain enc where e: "encrypt_response (or_core X) (tw_nonce w) sk (0x11 # found) = Inr enc"
    "decrypt_response (or_core X) sk enc = Inr (0x11 # found)" "length enc = 40 + length (0x11 # found)"
    using response_roundtrip assms(1,6) unfolding relay_laws_def by blast
  have "snd (process_onion_share_request X w (0x10 # b) ?nd) = Inr (0x11 # found)"
    using f assms(5) k
    by (auto simp: process_onion_share_request_def served_def Let_def split: option.splits prod.splits)
  then obtain nd2 where "process_onion_share_request X w (0x10 # b) ?nd = (nd2, Inr (0x11 # found))" by (metis surj_pair snd_conv)
  then have "snd (handle_onion_delivery X w peer body nd) = RData enc"
    using t r k assms(3,4) e(1) by (simp add: handle_onion_delivery_def)
  then show ?thesis using e by auto
qed

section \<open>A circuit\<close>

text \<open>
  The initiator, two relays and the target. While a relay waits for the next hop it handles any other events, \<open>c_es1\<close>
  and \<open>c_es2\<close>. Every message crosses the wire; an answer that cannot be read is an outbound failure.
\<close>

record circuit =
  c_init :: bytes
  c_p1 :: bytes
  c_p2 :: bytes
  c_pt :: bytes
  c_n1 :: onion_node
  c_n2 :: onion_node
  c_nt :: onion_node
  c_es1 :: "(turn_world \<times> onion_event) list"
  c_es2 :: "(turn_world \<times> onion_event) list"
  c_ch :: nat

fun one_request :: "onion_output list \<Rightarrow> (nat \<times> bytes \<times> onion_request) option" where
  "one_request [SendRequest i p r] = Some (i, p, r)"
| "one_request _ = None"

fun one_response :: "nat \<Rightarrow> onion_output list \<Rightarrow> onion_response option" where
  "one_response ch [SendResponse c r] = (if c = ch then Some r else None)"
| "one_response ch _ = None"

definition answer :: "orext \<Rightarrow> turn_world \<Rightarrow> bytes \<Rightarrow> nat \<Rightarrow> nat \<Rightarrow> onion_response \<Rightarrow> onion_node \<Rightarrow> onion_response option" where
  "answer X w p i ch r nd =
     one_response ch (snd (handle_onion_relay_event X w
       (case over_response X r of Some r \<Rightarrow> InResponse p i r | None \<Rightarrow> OutFailure p i) nd))"

definition circuit_run :: "orext \<Rightarrow> (nat \<Rightarrow> turn_world) \<Rightarrow> circuit \<Rightarrow> onion_request \<Rightarrow> onion_response option" where
  "circuit_run X w c req =
     Option.bind (over_request X req) (\<lambda>req1.
     case handle_onion_relay_event X (w 0) (InRequest (c_init c) req1 (c_ch c)) (c_n1 c) of (n1, out1) \<Rightarrow>
     Option.bind (one_request out1) (\<lambda>(i1, q1, req2).
     if q1 \<noteq> c_p2 c then None else
     Option.bind (over_request X req2) (\<lambda>req2.
     case handle_onion_relay_event X (w 1) (InRequest (c_p1 c) req2 (c_ch c)) (c_n2 c) of (n2, out2) \<Rightarrow>
     Option.bind (one_request out2) (\<lambda>(i2, q2, req3).
     if q2 \<noteq> c_pt c then None else
     Option.bind (over_request X req3) (\<lambda>req3.
     Option.bind (one_response (c_ch c) (snd (handle_onion_relay_event X (w 2) (InRequest (c_p2 c) req3 (c_ch c)) (c_nt c)))) (\<lambda>r3.
     Option.bind (answer X (w 3) q2 i2 (c_ch c) r3 (onion_run X (c_es2 c) n2)) (\<lambda>r2.
     Option.bind (answer X (w 4) q1 i1 (c_ch c) r2 (onion_run X (c_es1 c) n1)) (over_response X))))))))"

text \<open>The nodes are not throttling the hop before them, have not seen the keys drawn, and use new request identifiers.\<close>

definition circuit_ready :: "orext \<Rightarrow> (nat \<Rightarrow> turn_world) \<Rightarrow> circuit \<Rightarrow> packet_draws \<Rightarrow> layer_draws \<Rightarrow> bool" where
  "circuit_ready X w c d de \<longleftrightarrow>
     open_to X (w 0) (c_init c) (ox_pub (or_core X) (ld_secret (pd_layer1 d))) (c_n1 c) \<and>
     open_to X (w 1) (c_p1 c) (ox_pub (or_core X) (ld_secret (pd_layer2 d))) (c_n2 c) \<and>
     open_to X (w 2) (c_p2 c) (ox_pub (or_core X) (ld_secret de)) (c_nt c) \<and>
     list_all (foreign (tw_id (w 0))) (c_es1 c) \<and> list_all (foreign (tw_id (w 1))) (c_es2 c) \<and>
     length (tw_nonce (w 2)) = 24 \<and> length (tw_nonce (w 3)) = 24 \<and> length (tw_nonce (w 4)) = 24"

text \<open>
  A relay tells a layer for the next relay from the payload for the target by trying to parse it as a layer. The bytes
  that would be the length of its ciphertext come from the return address and the keys behind it; here they announce
  more than a cell can hold.
\<close>

definition unambiguous :: "return_path \<Rightarrow> bool" where
  "unambiguous rp \<longleftrightarrow> 2 ^ 16 \<le> le_val (take 8 (drop 32 (r2_addr rp @ r2_r1_key rp @ r1_init_key rp)))"

lemma inner_no_layer:
  assumes "onion_laws X" "wf_inner i" "unambiguous (ip_return_path i)" "length (r2_addr (ip_return_path i)) \<le> 256" "length (ip_body i) \<le> 9000"
  shows "de_layer X (inner_layout i) = None"
proof -
  let ?r = "ip_return_path i"
  let ?k = "r2_addr ?r @ r2_r1_key ?r @ r1_init_key ?r"
  have l: "length (rp_circuit ?r) = 16" "length (r2_r1_key ?r) = 32" "length (r1_init_key ?r) = 32" using assms(2) by (simp_all add: wf_inner_def)
  have "inner_layout i = (rp_circuit ?r @ le_bytes 8 (length (r2_addr ?r))) @ ?k @ vec_layout (ip_body i)"
    by (simp add: inner_layout_def vec_layout_def)
  then have "drop 24 (inner_layout i) = ?k @ vec_layout (ip_body i)" using l by simp
  then have "drop 32 (drop 24 (inner_layout i)) = drop 32 (?k @ vec_layout (ip_body i))" by (rule arg_cong)
  then have "drop 56 (inner_layout i) = drop 32 (?k @ vec_layout (ip_body i))" by (simp only: drop_drop) simp
  then have "take 8 (drop 56 (inner_layout i)) = take 8 (drop 32 ?k)" using l by simp
  moreover have "length (inner_layout i) < 2 ^ 16" using l assms(4,5) by (simp add: inner_layout_def)
  ultimately show ?thesis using assms(1,3) by (intro onion_lawsD(7)) (simp_all add: unambiguous_def)
qed

lemma relay_steps:
  assumes "onion_laws X" "wf_inner \<lparr>ip_return_path = rp, ip_body = body\<rparr>" "wf_layer l2" "unambiguous rp" "length (r2_addr rp) \<le> 256"
    "length body \<le> 9000"
  shows "peel X s1 l1 = Inr \<lparr>next_hop = Some hop, lp_data = layer_layout l2, return_key = Some key\<rparr> \<Longrightarrow>
      process_onion_layer X s1 c l1 = Inr (ForwardToNext hop c l2 key)"
    and "peel X s2 l2 = Inr \<lparr>next_hop = Some hop, lp_data = inner_layout \<lparr>ip_return_path = rp, ip_body = body\<rparr>, return_key = Some key\<rparr> \<Longrightarrow>
      process_onion_layer X s2 c l2 = Inr (DeliverToTarget hop c body key)"
  using onion_lawsD(4) [OF assms(1,3)] onion_lawsD(6) [OF assms(1,2)] inner_no_layer [OF assms(1,2)] assms(4-6)
  by (simp_all add: process_onion_layer_def)

lemma answer_data:
  assumes "relay_laws X" "awaits nd i = (Some (p, key), Some (p, ch), None, None)" "length (tw_nonce w) = 24" "length d < 2 ^ 31"
  shows "\<exists>enc. answer X w p i ch (RData d) nd =
      Some (if 12 + length d \<le> ONION_MSG_MAX then RData enc else RError RelayOutboundFailure) \<and>
    decrypt_response (or_core X) key enc = Inr d \<and> length enc = 40 + length d"
proof -
  obtain enc where e: "encrypt_response (or_core X) (tw_nonce w) key d = Inr enc" "decrypt_response (or_core X) key enc = Inr d"
    "length enc = 40 + length d" using response_roundtrip assms(1,3) unfolding relay_laws_def by blast
  show ?thesis
    using e over_response_data [OF assms(1,4)] relay_answers [OF assms(2)]
    by (auto simp: answer_def encrypt_relay_response_def)
qed

lemma circuit_runs:
  assumes laws: "relay_laws X" and ready: "circuit_ready X w c d de" and draws: "pd_ok d" "ld_ok de" "length sk = 32"
    and req: "request_ok r2_id target_id addr" "ser_fetch X req = Some b" "ser_found X (served X (w 2) req (c_nt c)) = Some found"
    and peers: "peer_of X r2_id = Some (c_p2 c)" "peer_of X target_id = Some (c_pt c)"
    and rp: "rp = \<lparr>rp_circuit = pd_circuit d, r2_addr = addr, r2_r1_key = pd_r2_r1 d, r1_init_key = pd_r1_init d\<rparr>" "unambiguous rp"
    and keys: "k1 = ox_pub (or_core X) (on_secret (c_n1 c))" "k2 = ox_pub (or_core X) (on_secret (c_n2 c))"
      "kt = ox_pub (or_core X) (on_secret (c_nt c))"
  shows "\<exists>l1 d3 n1 n2.
    build_e2e (or_core X) d sk de k1 k2 kt r2_id target_id addr (0x10 # b) = Inr (\<lparr>packet_circuit = pd_circuit d, packet_layer = l1\<rparr>, rp, sk) \<and>
    request_bytes (RPacket (pd_circuit d) l1) + 4 = FIRST_HOP_FRAME_BYTES \<and> wf_layer l1 \<and>
    decrypt_response (or_core X) sk d3 = Inr (0x11 # found) \<and> length d3 = 41 + length found \<and>
    awaits n1 (tw_id (w 0)) = (Some (c_p2 c, pd_r1_init d), Some (c_p2 c, c_ch c), None, None) \<and>
    awaits n2 (tw_id (w 1)) = (Some (c_pt c, pd_r2_r1 d), Some (c_pt c, c_ch c), None, None) \<and>
    circuit_run X w c (RPacket (pd_circuit d) l1) =
      Option.bind (answer X (w 3) (c_pt c) (tw_id (w 1)) (c_ch c) (RData d3) n2) (\<lambda>r2.
      Option.bind (answer X (w 4) (c_p2 c) (tw_id (w 0)) (c_ch c) r2 n1) (over_response X))"
proof -
  have L: "onion_laws (or_core X)" using laws by (simp add: relay_laws_def)
  have b: "length b = 38" "de_fetch X b = Some req" using laws req(2) unfolding relay_laws_def wire_ok_def by blast+
  then have "length (0x10 # b) \<le> ONION_MAX_E2E_REQUEST_LEN" by (simp add: onion_sizes)
  from e2e_built [OF L draws req(1) this, folded rp(1), of "on_secret (c_n1 c)" "on_secret (c_n2 c)" "on_secret (c_nt c)", folded keys]
  obtain l1 l2 le where build: "build_e2e (or_core X) d sk de k1 k2 kt r2_id target_id addr (0x10 # b) =
      Inr (\<lparr>packet_circuit = pd_circuit d, packet_layer = l1\<rparr>, rp, sk)"
    and peel: "peel (or_core X) (on_secret (c_n1 c)) l1 = Inr \<lparr>next_hop = Some r2_id, lp_data = layer_layout l2, return_key = Some (pd_r1_init d)\<rparr>"
      "peel (or_core X) (on_secret (c_n2 c)) l2 = Inr \<lparr>next_hop = Some target_id,
         lp_data = inner_layout \<lparr>ip_return_path = rp, ip_body = layer_layout le\<rparr>, return_key = Some (pd_r2_r1 d)\<rparr>"
      "peel (or_core X) (on_secret (c_nt c)) le = Inr \<lparr>next_hop = None, lp_data = 0x10 # b, return_key = Some sk\<rparr>"
    and wf: "wf_layer l1" "wf_layer l2" "wf_layer le"
    and size: "length (layer_ciphertext l1) = FIRST_HOP_PLAINTEXT_BYTES + 16" "length (layer_layout l2) \<le> 9250" "length (layer_layout le) = E2E_LAYER_BYTES"
    and eph: "ephemeral_pubkey l1 = ox_pub (or_core X) (ld_secret (pd_layer1 d))" "ephemeral_pubkey l2 = ox_pub (or_core X) (ld_secret (pd_layer2 d))"
      "ephemeral_pubkey le = ox_pub (or_core X) (ld_secret de)" by blast
  note open_r = ready [unfolded circuit_ready_def, folded eph]
  have circ: "length (pd_circuit d) = 16" using draws(1) by (simp add: pd_ok_def)
  have inner: "wf_inner \<lparr>ip_return_path = rp, ip_body = layer_layout le\<rparr>" "length (r2_addr rp) \<le> 256" "length (layer_layout le) \<le> 9000"
    using draws(1) req(1) size(3) by (simp_all add: wf_inner_def rp(1) pd_ok_def request_ok_def onion_sizes)
  note acts = relay_steps [OF L inner(1) wf(2) rp(2) inner(2,3)]
  obtain n1 where n1: "handle_layer X (w 0) (c_init c) (pd_circuit d) l1 (c_ch c) (c_n1 c) = (n1, [SendRequest (tw_id (w 0)) (c_p2 c) (RForward (pd_circuit d) l2)])"
    "awaits n1 (tw_id (w 0)) = (Some (c_p2 c, pd_r1_init d), Some (c_p2 c, c_ch c), None, None)"
    using relay_passes_on [OF _ acts(1) [OF peel(1)] _ peers(1)] open_r by blast
  obtain n2 where n2: "handle_layer X (w 1) (c_p1 c) (pd_circuit d) l2 (c_ch c) (c_n2 c) = (n2, [SendRequest (tw_id (w 1)) (c_pt c) (RDeliver (pd_circuit d) (layer_layout le))])"
    "awaits n2 (tw_id (w 1)) = (Some (c_pt c, pd_r2_r1 d), Some (c_pt c, c_ch c), None, None)"
    using relay_passes_on [OF _ acts(2) [OF peel(2)] _ peers(2)] open_r by blast
  obtain d3 where t: "snd (handle_onion_delivery X (w 2) (c_p2 c) (layer_layout le) (c_nt c)) = RData d3"
    "decrypt_response (or_core X) sk d3 = Inr (0x11 # found)" "length d3 = 41 + length found"
    using target_serves [OF laws _ onion_lawsD(4) [OF L wf(3)] peel(3) b(2) _ req(3)] open_r by blast
  have over: "over_request X (RPacket (pd_circuit d) l1) = Some (RPacket (pd_circuit d) l1)"
    "over_request X (RForward (pd_circuit d) l2) = Some (RForward (pd_circuit d) l2)"
    "over_request X (RDeliver (pd_circuit d) (layer_layout le)) = Some (RDeliver (pd_circuit d) (layer_layout le))"
    using circ wf size length_layer_layout [OF wf(1)] by (simp_all add: over_request_ok [OF laws] onion_sizes ONION_MSG_MAX_def)
  have "circuit_run X w c (RPacket (pd_circuit d) l1) =
      Option.bind (answer X (w 3) (c_pt c) (tw_id (w 1)) (c_ch c) (RData d3) (onion_run X (c_es2 c) n2)) (\<lambda>r2.
      Option.bind (answer X (w 4) (c_p2 c) (tw_id (w 0)) (c_ch c) r2 (onion_run X (c_es1 c) n1)) (over_response X))"
  proof -
    obtain nt where "handle_onion_delivery X (w 2) (c_p2 c) (layer_layout le) (c_nt c) = (nt, RData d3)" using t(1) by (metis surj_pair snd_conv)
    then show ?thesis by (simp add: circuit_run_def over n1(1) n2(1) del: One_nat_def)
  qed
  moreover have "awaits (onion_run X (c_es1 c) n1) (tw_id (w 0)) = awaits n1 (tw_id (w 0))"
    "awaits (onion_run X (c_es2 c) n2) (tw_id (w 1)) = awaits n2 (tw_id (w 1))"
    using open_r by (simp_all add: awaits_run)
  moreover have "request_bytes (RPacket (pd_circuit d) l1) + 4 = FIRST_HOP_FRAME_BYTES"
    using circ size(1) length_layer_layout [OF wf(1)] by (simp add: onion_sizes)
  ultimately show ?thesis
    using build t n1(2) n2(2) wf(1)
    by (intro exI [of _ l1] exI [of _ d3] exI [of _ "onion_run X (c_es1 c) n1"] exI [of _ "onion_run X (c_es2 c) n2"])
      (simp del: One_nat_def)
qed

definition exchange_ok ::
  "orext \<Rightarrow> (nat \<Rightarrow> turn_world) \<Rightarrow> circuit \<Rightarrow> packet_draws \<times> bytes \<times> layer_draws \<Rightarrow> bytes \<Rightarrow> bytes \<Rightarrow> bytes \<Rightarrow> bool" where
  "exchange_ok X w c draws r2_id target_id addr \<longleftrightarrow>
     (case draws of
        (d, sk, de) \<Rightarrow>
          circuit_ready X w c d de \<and> pd_ok d \<and> ld_ok de \<and> length sk = 32 \<and> request_ok r2_id target_id addr \<and>
          peer_of X r2_id = Some (c_p2 c) \<and> peer_of X target_id = Some (c_pt c) \<and>
          unambiguous \<lparr>rp_circuit = pd_circuit d, r2_addr = addr, r2_r1_key = pd_r2_r1 d, r1_init_key = pd_r1_init d\<rparr>)"

definition node_key :: "orext \<Rightarrow> onion_node \<Rightarrow> bytes" where
  "node_key X nd = ox_pub (or_core X) (on_secret nd)"

lemma round_trip:
  assumes laws: "relay_laws X" and ok: "exchange_ok X w c (d, sk, de) r2_id target_id addr"
    and req: "ser_fetch X req = Some b" "ser_found X (served X (w 2) req (c_nt c)) = Some found" "length found \<le> 65403"
  shows "\<exists>l1 rp enc. build_e2e (or_core X) d sk de (node_key X (c_n1 c)) (node_key X (c_n2 c)) (node_key X (c_nt c)) r2_id target_id addr (0x10 # b) =
      Inr (\<lparr>packet_circuit = pd_circuit d, packet_layer = l1\<rparr>, rp, sk) \<and>
    circuit_run X w c (RPacket (pd_circuit d) l1) = Some (RData enc) \<and>
    decrypt_onion_response X rp sk enc = served X (w 2) req (c_nt c) \<and> r1_init_key rp = pd_r1_init d"
proof -
  define rp where "rp = \<lparr>rp_circuit = pd_circuit d, r2_addr = addr, r2_r1_key = pd_r2_r1 d, r1_init_key = pd_r1_init d\<rparr>"
  have e: "circuit_ready X w c d de" "pd_ok d" "ld_ok de" "length sk = 32" "request_ok r2_id target_id addr"
    "peer_of X r2_id = Some (c_p2 c)" "peer_of X target_id = Some (c_pt c)" "unambiguous rp"
    using ok by (simp_all add: exchange_ok_def rp_def)
  obtain l1 d3 n1 n2 where b: "build_e2e (or_core X) d sk de (node_key X (c_n1 c)) (node_key X (c_n2 c)) (node_key X (c_nt c)) r2_id target_id addr (0x10 # b) =
      Inr (\<lparr>packet_circuit = pd_circuit d, packet_layer = l1\<rparr>, rp, sk)"
    and t: "decrypt_response (or_core X) sk d3 = Inr (0x11 # found)" "length d3 = 41 + length found"
    and a: "awaits n1 (tw_id (w 0)) = (Some (c_p2 c, pd_r1_init d), Some (c_p2 c, c_ch c), None, None)"
      "awaits n2 (tw_id (w 1)) = (Some (c_pt c, pd_r2_r1 d), Some (c_pt c, c_ch c), None, None)"
    and run: "circuit_run X w c (RPacket (pd_circuit d) l1) =
      Option.bind (answer X (w 3) (c_pt c) (tw_id (w 1)) (c_ch c) (RData d3) n2) (\<lambda>r2.
      Option.bind (answer X (w 4) (c_p2 c) (tw_id (w 0)) (c_ch c) r2 n1) (over_response X))"
    using circuit_runs [OF laws e(1-5) req(1,2) e(6,7) rp_def e(8) node_key_def node_key_def node_key_def] by blast
  have n: "length (tw_nonce (w 3)) = 24" "length (tw_nonce (w 4)) = 24" using e(1) by (simp_all add: circuit_ready_def)
  obtain d2 where d2: "answer X (w 3) (c_pt c) (tw_id (w 1)) (c_ch c) (RData d3) n2 = Some (RData d2)"
    "decrypt_response (or_core X) (pd_r2_r1 d) d2 = Inr d3" "length d2 = 40 + length d3"
    using answer_data [OF laws a(2) n(1), of d3] t(2) req(3) by (auto simp: ONION_MSG_MAX_def)
  obtain d1 where d1: "answer X (w 4) (c_p2 c) (tw_id (w 0)) (c_ch c) (RData d2) n1 = Some (RData d1)"
    "decrypt_response (or_core X) (pd_r1_init d) d1 = Inr d2" "length d1 = 40 + length d2"
    using answer_data [OF laws a(1) n(2), of d2] d2(3) t(2) req(3) by (auto simp: ONION_MSG_MAX_def)
  have "circuit_run X w c (RPacket (pd_circuit d) l1) = Some (RData d1)"
    using run d1 d2 t(2) req(3) over_response_data [OF laws, of d1] by (simp add: ONION_MSG_MAX_def del: One_nat_def)
  moreover have "de_found X found = Some (served X (w 2) req (c_nt c))" using laws req(2) unfolding relay_laws_def wire_ok_def by blast
  then have "decrypt_onion_response X rp sk d1 = served X (w 2) req (c_nt c)"
    using d1(2) d2(2) t(1) by (simp add: decrypt_onion_response_def rp_def)
  moreover have "r1_init_key rp = pd_r1_init d" by (simp add: rp_def)
  ultimately show ?thesis using b by blast
qed

text \<open>
  C4: an onion request is served and only the initiator can read the answer's layers. A share request built for two
  relays and a target is carried over both relays to the target, which looks the share up in its store; the answer
  comes back over the same circuit and decrypts to exactly what the target found, whatever the three nodes hold in
  their tables and whatever other events the relays handle while they wait.
\<close>

theorem onion_round_trip:
  assumes "relay_laws X" and "exchange_ok X w c (d, sk, de) r2_id target_id addr" and "ser_fetch X req = Some b"
    and "ser_found X (served X (w 2) req (c_nt c)) = Some found" and "length found \<le> 65403"
  shows "\<exists>packet rp enc. build_e2e (or_core X) d sk de (node_key X (c_n1 c)) (node_key X (c_n2 c)) (node_key X (c_nt c)) r2_id target_id addr
      (0x10 # b) = Inr (packet, rp, sk) \<and>
    circuit_run X w c (RPacket (packet_circuit packet) (packet_layer packet)) = Some (RData enc) \<and>
    decrypt_onion_response X rp sk enc = served X (w 2) req (c_nt c)"
  using round_trip [OF assms] by force

lemma over_response_error:
  assumes "relay_laws X"
  shows "over_response X (RError r) = None \<or> over_response X (RError r) = Some (RError r)"
proof (cases "ser_response X (RError r)")
  case (Some b)
  then have "length b \<le> 4096 \<and> de_response X b = Some (RError r)" using assms unfolding relay_laws_def wire_ok_def by blast
  then show ?thesis
    using read_write_frame [OF Some, of _ "de_response X"] Some
    by (simp add: over_response_def write_response_def read_response_def write_frame_def)
qed (simp add: over_response_def write_response_def write_frame_def)

lemma answer_error:
  assumes "relay_laws X" and "awaits nd i = (Some (p, key), Some (p, ch), None, None)"
  shows "\<exists>e. answer X w p i ch (RError r) nd = Some (RError e)"
proof -
  show ?thesis using over_response_error [OF assms(1), of r] relay_answers [OF assms(2)] by (auto simp: answer_def encrypt_relay_response_def)
qed

text \<open>
  C38: a share that does not fit a message cannot be fetched over onion relays. When the serialised answer of the target
  exceeds 65403 bytes, one of the hops refuses to read it and the initiator never gets data, however the nodes are
  disposed. The target sends it without checking the limit.
\<close>

theorem onion_large_share_lost:
  assumes laws: "relay_laws X" and ok: "exchange_ok X w c (d, sk, de) r2_id target_id addr" and fetch: "ser_fetch X req = Some b"
    and found: "ser_found X (served X (w 2) req (c_nt c)) = Some found" "65403 < length found" "length found < 2 ^ 30"
  shows "\<exists>packet rp. build_e2e (or_core X) d sk de (node_key X (c_n1 c)) (node_key X (c_n2 c)) (node_key X (c_nt c)) r2_id target_id addr
      (0x10 # b) = Inr (packet, rp, sk) \<and>
    (\<nexists>enc. circuit_run X w c (RPacket (packet_circuit packet) (packet_layer packet)) = Some (RData enc))"
proof -
  define rp where "rp = \<lparr>rp_circuit = pd_circuit d, r2_addr = addr, r2_r1_key = pd_r2_r1 d, r1_init_key = pd_r1_init d\<rparr>"
  have e: "circuit_ready X w c d de" "pd_ok d" "ld_ok de" "length sk = 32" "request_ok r2_id target_id addr"
    "peer_of X r2_id = Some (c_p2 c)" "peer_of X target_id = Some (c_pt c)" "unambiguous rp"
    using ok by (simp_all add: exchange_ok_def rp_def)
  obtain l1 d3 n1 n2 where b: "build_e2e (or_core X) d sk de (node_key X (c_n1 c)) (node_key X (c_n2 c)) (node_key X (c_nt c)) r2_id target_id addr (0x10 # b) =
      Inr (\<lparr>packet_circuit = pd_circuit d, packet_layer = l1\<rparr>, rp, sk)"
    and t: "length d3 = 41 + length found"
    and a: "awaits n1 (tw_id (w 0)) = (Some (c_p2 c, pd_r1_init d), Some (c_p2 c, c_ch c), None, None)"
      "awaits n2 (tw_id (w 1)) = (Some (c_pt c, pd_r2_r1 d), Some (c_pt c, c_ch c), None, None)"
    and run: "circuit_run X w c (RPacket (pd_circuit d) l1) =
      Option.bind (answer X (w 3) (c_pt c) (tw_id (w 1)) (c_ch c) (RData d3) n2) (\<lambda>r2.
      Option.bind (answer X (w 4) (c_p2 c) (tw_id (w 0)) (c_ch c) r2 n1) (over_response X))"
    using circuit_runs [OF laws e(1-5) fetch found(1) e(6,7) rp_def e(8) node_key_def node_key_def node_key_def] by blast
  have n: "length (tw_nonce (w 3)) = 24" "length (tw_nonce (w 4)) = 24" using e(1) by (simp_all add: circuit_ready_def)
  have no: "over_response X (RError r) \<noteq> Some (RData enc)" for r enc using over_response_error [OF laws, of r] by auto
  obtain d2 where d2: "answer X (w 3) (c_pt c) (tw_id (w 1)) (c_ch c) (RData d3) n2 =
      Some (if 12 + length d3 \<le> ONION_MSG_MAX then RData d2 else RError RelayOutboundFailure)" "length d2 = 40 + length d3"
    using answer_data [OF laws a(2) n(1), of d3] t found(3) by auto
  obtain d1 where d1: "answer X (w 4) (c_p2 c) (tw_id (w 0)) (c_ch c) (RData d2) n1 =
      Some (if 12 + length d2 \<le> ONION_MSG_MAX then RData d1 else RError RelayOutboundFailure)" "length d1 = 40 + length d2"
    using answer_data [OF laws a(1) n(2), of d2] d2(2) t found(3) by auto
  obtain e1 where e1: "answer X (w 4) (c_p2 c) (tw_id (w 0)) (c_ch c) (RError RelayOutboundFailure) n1 = Some (RError e1)"
    using answer_error [OF laws a(1)] by blast
  have "circuit_run X w c (RPacket (pd_circuit d) l1) \<noteq> Some (RData enc)" for enc
    using run d1 d2 e1 t found no over_response_data [OF laws, of d1] by (auto simp: ONION_MSG_MAX_def split: if_splits)
  then show ?thesis using b by force
qed

section \<open>Cells have one length\<close>

text \<open>
  C16: a first-hop cell says nothing about what it carries. Every request within the limits is accepted and its first
  frame on the wire has exactly \<^verbatim>\<open>FIRST_HOP_FRAME_BYTES\<close> bytes, whatever the peers, the address and the request; so has
  every cover cell.
\<close>

theorem first_hop_cells_uniform:
  assumes "relay_laws X" and "pd_ok d" and "ld_ok de" and "length sk = 32" and "request_ok r2_id target_id addr"
    and "length body \<le> ONION_MAX_E2E_REQUEST_LEN" and "is_cover_payload payload" and "ld_ok dc" and "length circuit = 16"
  shows "\<exists>packet rp cover f g.
    build_e2e (or_core X) d sk de (ox_pub (or_core X) s1) (ox_pub (or_core X) s2) (ox_pub (or_core X) st) r2_id target_id addr body =
      Inr (packet, rp, sk) \<and>
    build_cover (or_core X) circuit dc (ox_pub (or_core X) s) payload = Inr cover \<and>
    write_request X (RPacket (packet_circuit packet) (packet_layer packet)) = Some f \<and>
    write_request X (RPacket (packet_circuit cover) (packet_layer cover)) = Some g \<and>
    length f = FIRST_HOP_FRAME_BYTES \<and> length g = FIRST_HOP_FRAME_BYTES"
proof -
  have L: "onion_laws (or_core X)" using assms(1) by (simp add: relay_laws_def)
  have frame: "\<exists>f. write_request X (RPacket c l) = Some f \<and> length f = FIRST_HOP_FRAME_BYTES"
    if "length c = 16" "wf_layer l" "length (layer_ciphertext l) = FIRST_HOP_PLAINTEXT_BYTES + 16" for c l
  proof -
    have w: "wf_request (RPacket c l)" using that by simp
    then obtain b where "ser_request X (RPacket c l) = Some b" "length b = request_bytes (RPacket c l)"
      using assms(1) unfolding relay_laws_def wire_ok_def by blast
    then show ?thesis using that length_layer_layout [OF that(2)] by (simp add: write_request_def write_frame_def onion_sizes)
  qed
  obtain l1 where l1: "build_e2e (or_core X) d sk de (ox_pub (or_core X) s1) (ox_pub (or_core X) s2) (ox_pub (or_core X) st) r2_id target_id addr body =
      Inr (\<lparr>packet_circuit = pd_circuit d, packet_layer = l1\<rparr>,
        \<lparr>rp_circuit = pd_circuit d, r2_addr = addr, r2_r1_key = pd_r2_r1 d, r1_init_key = pd_r1_init d\<rparr>, sk)"
    "wf_layer l1" "length (layer_ciphertext l1) = FIRST_HOP_PLAINTEXT_BYTES + 16"
    using e2e_built [OF L assms(2-6), of s1 s2 st] by blast
  obtain l where l: "build_cover (or_core X) circuit dc (ox_pub (or_core X) s) payload = Inr \<lparr>packet_circuit = circuit, packet_layer = l\<rparr>"
    "wf_layer l" "length (layer_ciphertext l) = FIRST_HOP_PLAINTEXT_BYTES + 16"
    using cover_built [OF L assms(8,7), of circuit s] by blast
  have "length (pd_circuit d) = 16" using assms(2) by (simp add: pd_ok_def)
  with frame [OF _ l1(2,3)] frame [OF assms(9) l(2,3)] l1(1) l(1) show ?thesis by force
qed

section \<open>Layers are processed once\<close>

fun authentic :: "orext \<Rightarrow> bytes \<Rightarrow> onion_event \<Rightarrow> bool" where
  "authentic X s (InRequest p (RPacket c l) ch) \<longleftrightarrow> \<not> isl (process_onion_layer (or_core X) s c l)"
| "authentic X s (InRequest p (RForward c l) ch) \<longleftrightarrow> \<not> isl (process_onion_layer (or_core X) s c l)"
| "authentic X s (InRequest p (RDeliver c b) ch) \<longleftrightarrow>
     (case de_layer (or_core X) b of None \<Rightarrow> False | Some l \<Rightarrow> \<not> isl (peel (or_core X) s l))"
| "authentic X s _ \<longleftrightarrow> False"

definition identity_of :: "onion_node \<Rightarrow> bytes \<times> bytes list" where
  "identity_of nd = (on_secret nd, replay_cache nd)"

definition remembers :: "bytes list \<Rightarrow> bytes list \<Rightarrow> bool" where
  "remembers c c' \<longleftrightarrow> c' = c \<or> (\<exists>fp. c' = (if ONION_REPLAY_CACHE_SIZE \<le> length c then tl c else c) @ [fp])"

lemma identity_throttled: "identity_of (fst (onion_sender_throttled t p nd)) = identity_of nd"
  by (auto simp: onion_sender_throttled_def identity_of_def split: option.split)

lemma identity_note [simp]: "identity_of (onion_note_auth_failure t p nd) = identity_of nd"
  by (simp add: onion_note_auth_failure_def identity_of_def Let_def split: prod.split)

lemma record_remembers: "remembers (replay_cache nd) (replay_cache (onion_record_authenticated X l nd))"
  by (auto simp: onion_record_authenticated_def remembers_def Let_def)

lemma identity_perform [simp]: "identity_of (fst (perform_action X w ch act nd)) = identity_of nd"
  by (cases act) (auto simp: identity_of_def Let_def split: option.split prod.split)

lemma identity_share: "identity_of (fst (process_onion_share_request X w data nd)) = identity_of nd"
  by (auto simp: process_onion_share_request_def identity_of_def Let_def split: list.split option.split prod.split)

lemma identity_response [simp]: "identity_of (fst (handle_response X w p i r nd)) = identity_of nd"
proof -
  obtain mc vc where c: "take_peer_correlated i p (pending_cover nd) = (mc, vc)" by (metis surj_pair)
  obtain ms vs where s: "take_peer_correlated i p (forward_started nd) = (ms, vs)" by (metis surj_pair)
  obtain mr vr where k: "take_peer_correlated i p (pending_relays nd) = (mr, vr)" by (metis surj_pair)
  obtain mi vi where i: "take_peer_correlated i p (pending_inbound nd) = (mi, vi)" by (metis surj_pair)
  obtain mp vp where y: "take_peer_correlated i p (pending_replies nd) = (mp, vp)" by (metis surj_pair)
  show ?thesis
    by (cases vc; cases vs; cases vr; cases vi; cases vp; cases r)
      (simp_all add: handle_response_def identity_of_def Let_def c s k i y)
qed

lemma identity_failure [simp]: "identity_of (fst (handle_failure p i nd)) = identity_of nd"
  by (auto simp: handle_failure_def identity_of_def Let_def split: prod.split option.split)

definition remembers_if :: "bool \<Rightarrow> onion_node \<Rightarrow> onion_node \<Rightarrow> bool" where
  "remembers_if b nd nd' \<longleftrightarrow>
     on_secret nd' = on_secret nd \<and> (if b then remembers (replay_cache nd) (replay_cache nd') else replay_cache nd' = replay_cache nd)"

lemma remembers_same: "identity_of nd' = identity_of nd \<Longrightarrow> remembers_if b nd nd'"
  by (auto simp: identity_of_def remembers_if_def remembers_def)

lemma layer_remembers: "remembers_if (\<not> isl (process_onion_layer (or_core X) (on_secret nd) c l)) nd (fst (handle_layer X w p c l ch nd))"
proof -
  obtain nd1 b where t: "onion_sender_throttled (tw_now w) p nd = (nd1, b)" by (metis surj_pair)
  have 1: "identity_of nd1 = identity_of nd" using identity_throttled [of "tw_now w" p nd] t by simp
  then have s: "on_secret nd1 = on_secret nd" "replay_cache nd1 = replay_cache nd" by (simp_all add: identity_of_def)
  show ?thesis
  proof (cases "b \<or> onion_is_replay X l nd1 \<or> isl (process_onion_layer (or_core X) (on_secret nd) c l)")
    case True
    then have "identity_of (fst (handle_layer X w p c l ch nd)) = identity_of nd"
      using t 1 s by (auto simp: handle_layer_def isl_def split: sum.split)
    then show ?thesis by (rule remembers_same)
  next
    case False
    then obtain act where "process_onion_layer (or_core X) (on_secret nd) c l = Inr act" by (cases "process_onion_layer (or_core X) (on_secret nd) c l") auto
    then have "identity_of (fst (handle_layer X w p c l ch nd)) = identity_of (onion_record_authenticated X l nd1)"
      using False t s by (simp add: handle_layer_def)
    then show ?thesis using False s record_remembers [of nd1 X l] by (simp add: remembers_if_def identity_of_def)
  qed
qed

lemma delivery_remembers:
  "remembers_if (case de_layer (or_core X) body of None \<Rightarrow> False | Some l \<Rightarrow> \<not> isl (peel (or_core X) (on_secret nd) l)) nd
     (fst (handle_onion_delivery X w p body nd))"
proof (cases "de_layer (or_core X) body")
  case (Some l)
  obtain nd1 b where t: "onion_sender_throttled (tw_now w) p nd = (nd1, b)" by (metis surj_pair)
  have 1: "identity_of nd1 = identity_of nd" using identity_throttled [of "tw_now w" p nd] t by simp
  then have s: "on_secret nd1 = on_secret nd" "replay_cache nd1 = replay_cache nd" by (simp_all add: identity_of_def)
  show ?thesis
  proof (cases "b \<or> onion_is_replay X l nd1 \<or> isl (peel (or_core X) (on_secret nd) l)")
    case True
    then have "identity_of (fst (handle_onion_delivery X w p body nd)) = identity_of nd"
      using t 1 s Some by (auto simp: handle_onion_delivery_def isl_def split: sum.split)
    then show ?thesis by (rule remembers_same)
  next
    case False
    then obtain payload where pl: "peel (or_core X) (on_secret nd) l = Inr payload" by (cases "peel (or_core X) (on_secret nd) l") auto
    obtain nd2 r where sh: "process_onion_share_request X w (lp_data payload) (onion_record_authenticated X l nd1) = (nd2, r)"
      by (metis surj_pair)
    have "identity_of nd2 = identity_of (onion_record_authenticated X l nd1)"
      using identity_share [of X w "lp_data payload" "onion_record_authenticated X l nd1"] sh by simp
    then have "identity_of (fst (handle_onion_delivery X w p body nd)) = identity_of (onion_record_authenticated X l nd1)"
      using False t s Some pl sh by (auto simp: handle_onion_delivery_def Let_def split: option.split sum.split)
    then show ?thesis using False Some s record_remembers [of nd1 X l] by (simp add: remembers_if_def identity_of_def)
  qed
qed (simp add: handle_onion_delivery_def remembers_if_def)

lemma event_remembers: "remembers_if (authentic X (on_secret nd) e) nd (fst (handle_onion_relay_event X w e nd))"
proof (cases e)
  case (InRequest p r ch)
  then show ?thesis using layer_remembers delivery_remembers by (cases r) (auto simp: case_prod_unfold)
qed (simp_all add: remembers_same)

definition holds :: "bytes \<Rightarrow> nat \<Rightarrow> bytes list \<Rightarrow> bool" where
  "holds fp n c \<longleftrightarrow> (\<exists>A B. c = A @ fp # B \<and> length B \<le> n)"

lemma holds_step: "holds fp n c \<Longrightarrow> n < 4095 \<Longrightarrow> remembers c c' \<Longrightarrow> holds fp (Suc n) c'"
proof -
  assume h: "holds fp n c" and n: "n < 4095" and r: "remembers c c'"
  obtain A B where c: "c = A @ fp # B" "length B \<le> n" using h unfolding holds_def by blast
  show ?thesis
  proof (cases "c' = c")
    case True
    then show ?thesis using c unfolding holds_def by (metis le_SucI)
  next
    case False
    then obtain q where c': "c' = (if ONION_REPLAY_CACHE_SIZE \<le> length c then tl c else c) @ [q]" using r by (auto simp: remembers_def)
    show ?thesis
    proof (cases "ONION_REPLAY_CACHE_SIZE \<le> length c")
      case True
      then have "A \<noteq> []" using c n by (auto simp: ONION_REPLAY_CACHE_SIZE_def)
      then have "c' = tl A @ fp # (B @ [q])" using c' c True by simp
      then show ?thesis using c(2) unfolding holds_def by (metis Suc_le_mono length_append_singleton)
    next
      case False
      then have "c' = A @ fp # (B @ [q])" using c' c by simp
      then show ?thesis using c(2) unfolding holds_def by (metis Suc_le_mono length_append_singleton)
    qed
  qed
qed

lemma holds_run:
  "holds fp n (replay_cache nd) \<Longrightarrow> n + length (filter (\<lambda>(w, e). authentic X (on_secret nd) e) es) < 4096 \<Longrightarrow>
     fp \<in> set (replay_cache (onion_run X es nd))"
proof (induction es arbitrary: nd n)
  case Nil
  then show ?case by (auto simp: onion_run_def holds_def)
next
  case (Cons we es)
  obtain w e where we: "we = (w, e)" by (metis surj_pair)
  let ?nd = "fst (handle_onion_relay_event X w e nd)"
  have r: "remembers_if (authentic X (on_secret nd) e) nd ?nd" by (rule event_remembers)
  have step: "onion_run X (we # es) nd = onion_run X es ?nd" by (simp add: onion_run_def we)
  show ?case
  proof (cases "authentic X (on_secret nd) e")
    case True
    then have "holds fp (Suc n) (replay_cache ?nd)" using holds_step [OF Cons.prems(1)] Cons.prems(2) r we by (simp add: remembers_if_def)
    then show ?thesis using Cons.IH [of "Suc n" ?nd] Cons.prems(2) r True we step by (simp add: remembers_if_def)
  next
    case False
    then show ?thesis using Cons.IH [of n ?nd] Cons.prems r we step by (simp add: remembers_if_def)
  qed
qed

lemma replayed_layer_refused:
  assumes "onion_is_replay X l nd"
  shows "\<exists>nd' err. handle_layer X w p c l ch nd = (nd', [SendResponse ch (RError err)])"
    and "de_layer (or_core X) body = Some l \<Longrightarrow> \<exists>nd' err. handle_onion_delivery X w p body nd = (nd', RError err)"
proof -
  obtain nd1 b where t: "onion_sender_throttled (tw_now w) p nd = (nd1, b)" by (metis surj_pair)
  have "onion_is_replay X l nd1" using assms throttled_keeps [OF t] by (simp add: onion_is_replay_def)
  then show "\<exists>nd' err. handle_layer X w p c l ch nd = (nd', [SendResponse ch (RError err)])"
    "de_layer (or_core X) body = Some l \<Longrightarrow> \<exists>nd' err. handle_onion_delivery X w p body nd = (nd', RError err)"
    using t by (auto simp: handle_layer_def handle_onion_delivery_def)
qed

text \<open>The layer that a request asks the node to process, as it is sent to relays or to the target.\<close>

fun layer_in :: "orext \<Rightarrow> onion_request \<Rightarrow> onion_layer option" where
  "layer_in X (RPacket c l) = Some l"
| "layer_in X (RForward c l) = Some l"
| "layer_in X (RDeliver c body) = de_layer (or_core X) body"

lemma recorded_last:
  assumes "\<not> onion_is_replay X l nd" and "identity_of nd' = identity_of (onion_record_authenticated X l nd)"
  shows "holds (onion_layer_fingerprint X l) 0 (replay_cache nd')"
  using assms unfolding holds_def by (auto simp: identity_of_def onion_record_authenticated_def onion_is_replay_def Let_def)

lemma accepted_layer:
  assumes "handle_layer X w p c l ch nd = (nd', out)" and "\<forall>err. SendResponse ch (RError err) \<notin> set out"
  shows "holds (onion_layer_fingerprint X l) 0 (replay_cache nd')"
proof -
  obtain nd1 where t: "onion_sender_throttled (tw_now w) p nd = (nd1, False)" "\<not> onion_is_replay X l nd1"
    using assms by (auto simp: handle_layer_def split: prod.splits if_splits)
  then obtain act where "perform_action X w ch act (onion_record_authenticated X l nd1) = (nd', out)"
    using assms by (auto simp: handle_layer_def split: sum.splits)
  then have "identity_of nd' = identity_of (onion_record_authenticated X l nd1)"
    using identity_perform [of X w ch act "onion_record_authenticated X l nd1"] by simp
  then show ?thesis by (rule recorded_last [OF t(2)])
qed

lemma accepted_delivery:
  assumes "handle_onion_delivery X w p body nd = (nd', RData d)" and "de_layer (or_core X) body = Some l"
  shows "holds (onion_layer_fingerprint X l) 0 (replay_cache nd')"
proof -
  obtain nd1 where t: "onion_sender_throttled (tw_now w) p nd = (nd1, False)" "\<not> onion_is_replay X l nd1"
    using assms by (auto simp: handle_onion_delivery_def split: prod.splits if_splits)
  then have "\<exists>data r. process_onion_share_request X w data (onion_record_authenticated X l nd1) = (nd', r)"
    using assms by (auto simp: handle_onion_delivery_def Let_def split: sum.splits option.splits prod.splits)
  then obtain data r where "process_onion_share_request X w data (onion_record_authenticated X l nd1) = (nd', r)" by blast
  then have "identity_of nd' = identity_of (onion_record_authenticated X l nd1)"
    using identity_share [of X w data "onion_record_authenticated X l nd1"] by simp
  then show ?thesis by (rule recorded_last [OF t(2)])
qed

lemma accepted_request:
  assumes "handle_onion_relay_event X w (InRequest p req ch) nd = (nd', out)" and "\<forall>err. SendResponse ch (RError err) \<notin> set out"
    and "layer_in X req = Some l"
  shows "holds (onion_layer_fingerprint X l) 0 (replay_cache nd')"
proof (cases req)
  case (RDeliver c body)
  obtain r where r: "handle_onion_delivery X w p body nd = (nd', r)" "out = [SendResponse ch r]"
    using assms(1) RDeliver by (auto split: prod.splits)
  then obtain d where "r = RData d" using assms(2) by (cases r) auto
  then show ?thesis using accepted_delivery r(1) assms(3) RDeliver by auto
qed (use accepted_layer [OF _ assms(2)] assms(1,3) in auto)

text \<open>
  C13: a captured layer cannot be replayed. Once a node has handled a request with a layer and not answered it with an
  error, that is, has passed the layer on, delivered it or taken it as cover, the same layer is refused with an error, under
  any circuit identifier, from any peer and in any role, until 4096 further layers have authenticated; events that do not
  authenticate, forged layers above all, never push it out.
\<close>

theorem onion_replay_refused:
  assumes "handle_onion_relay_event X w0 (InRequest p0 req0 ch0) nd0 = (nd, out)" and "\<forall>err. SendResponse ch0 (RError err) \<notin> set out"
    and "layer_in X req0 = Some l" and "layer_in X req = Some l"
    and "length (filter (\<lambda>(w, e). authentic X (on_secret nd) e) es) < 4096"
  shows "\<exists>nd' err. handle_onion_relay_event X w (InRequest p req ch) (onion_run X es nd) = (nd', [SendResponse ch (RError err)])"
proof -
  have r: "onion_is_replay X l (onion_run X es nd)"
    using holds_run [OF accepted_request [OF assms(1-3)], of X es] assms(5) by (simp add: onion_is_replay_def)
  show ?thesis
  proof (cases req)
    case (RDeliver c body)
    then show ?thesis using replayed_layer_refused(2) [OF r, of body w p] assms(4) by auto
  qed (use replayed_layer_refused(1) [OF r, of w p] assms(4) in auto)
qed

section \<open>Retrieval over circuits\<close>

text \<open>
  The holder at location \<open>j\<close> is reached over a circuit of honest nodes: the request is carried by \<open>circuit_run\<close>, the keys
  are the ones the nodes publish, and its store finds the share \<open>s\<close>.
\<close>

definition holder_ok ::
  "orext \<Rightarrow> onion_env \<Rightarrow> (nat \<Rightarrow> nat \<Rightarrow> turn_world) \<Rightarrow> (nat \<Rightarrow> circuit) \<Rightarrow> relay_info \<Rightarrow> relay_info \<Rightarrow> bytes \<Rightarrow> dht_record \<Rightarrow> nat \<Rightarrow>
     shard_location \<Rightarrow> miasma_share \<Rightarrow> bool" where
  "holder_ok X E W C r1 r2 r1_peer r j loc s \<longleftrightarrow>
     (let req = \<lparr>sf_digest = mid_digest r, sf_slot = shard_index loc, sf_segment = 0\<rparr> in
      exchange_ok X (W j) (C j) (oe_draws E j) (ri_peer r2) (peer_id_bytes loc) (ri_addr r2) \<and>
      ri_key r1 = node_key X (c_n1 (C j)) \<and> ri_key r2 = node_key X (c_n2 (C j)) \<and>
      target_key E (c_pt (C j)) = Some (node_key X (c_nt (C j))) \<and>
      served X (W j 2) req (c_nt (C j)) = Some s \<and> ser_fetch X req \<noteq> None \<and>
      (case ser_found X (Some s) of None \<Rightarrow> False | Some f \<Rightarrow> length f \<le> 65403) \<and>
      (\<forall>rq k. oe_send E j r1_peer [oe_lossy E (ri_addr r1)] rq k =
         (case circuit_run X (W j) (C j) rq of None \<Rightarrow> Inl Network | Some resp \<Rightarrow> Inr resp)))"

lemma loop_step:
  assumes "relay_laws X" and "holder_ok X E W C r1 r2 r1_peer r i loc s" and "length acc < k"
  shows "onion_loop X E r1 r2 r1_peer r k i (loc # locs) acc = onion_loop X E r1 r2 r1_peer r k (Suc i) locs (acc @ [s])"
proof -
  let ?req = "\<lparr>sf_digest = mid_digest r, sf_slot = shard_index loc, sf_segment = 0\<rparr>"
  obtain d sk de where dr: "oe_draws E i = (d, sk, de)" by (metis surj_pair)
  have h: "exchange_ok X (W i) (C i) (d, sk, de) (ri_peer r2) (peer_id_bytes loc) (ri_addr r2)"
    "ri_key r1 = node_key X (c_n1 (C i))" "ri_key r2 = node_key X (c_n2 (C i))" "target_key E (c_pt (C i)) = Some (node_key X (c_nt (C i)))"
    "served X (W i 2) ?req (c_nt (C i)) = Some s"
    "\<And>rq k. oe_send E i r1_peer [oe_lossy E (ri_addr r1)] rq k = (case circuit_run X (W i) (C i) rq of None \<Rightarrow> Inl Network | Some resp \<Rightarrow> Inr resp)"
    using assms(2) dr by (simp_all add: holder_ok_def Let_def)
  obtain b where b: "ser_fetch X ?req = Some b" using assms(2) by (auto simp: holder_ok_def Let_def)
  obtain f where f: "ser_found X (served X (W i 2) ?req (c_nt (C i))) = Some f" "length f \<le> 65403"
    using assms(2) h(5) by (auto simp: holder_ok_def Let_def split: option.splits)
  obtain l1 rp enc where rt: "build_e2e (or_core X) d sk de (ri_key r1) (ri_key r2) (node_key X (c_nt (C i))) (ri_peer r2) (peer_id_bytes loc) (ri_addr r2) (0x10 # b) =
      Inr (\<lparr>packet_circuit = pd_circuit d, packet_layer = l1\<rparr>, rp, sk)"
    "circuit_run X (W i) (C i) (RPacket (pd_circuit d) l1) = Some (RData enc)"
    "decrypt_onion_response X rp sk enc = Some s"
    using round_trip [OF assms(1) h(1) b f] h(2,3,5) by metis
  have p: "peer_of X (peer_id_bytes loc) = Some (c_pt (C i))" using h(1) by (simp add: exchange_ok_def)
  show ?thesis
    using assms(3) p h(4) b rt by (simp add: share_request_body_def request_packet_def dr h(6))
qed

lemma loop_all:
  assumes "relay_laws X"
  shows "list_all2 (\<lambda>(j, loc) s. holder_ok X E W C r1 r2 r1_peer r j loc s) (enumerate i locs) ss \<Longrightarrow> length acc \<le> k \<Longrightarrow>
    onion_loop X E r1 r2 r1_peer r k i locs acc = Inr (acc @ take (k - length acc) ss)"
proof (induction locs arbitrary: i ss acc)
  case (Cons loc locs)
  then obtain s ss' where ss: "ss = s # ss'" "holder_ok X E W C r1 r2 r1_peer r i loc s"
    "list_all2 (\<lambda>(j, loc) s. holder_ok X E W C r1 r2 r1_peer r j loc s) (enumerate (Suc i) locs) ss'"
    by (cases ss) auto
  show ?case
  proof (cases "length acc < k")
    case True
    then have "onion_loop X E r1 r2 r1_peer r k i (loc # locs) acc = Inr ((acc @ [s]) @ take (k - length (acc @ [s])) ss')"
      using loop_step [OF assms ss(2)] Cons.IH [OF ss(3), of "acc @ [s]"] by simp
    moreover have "k - length acc = Suc (k - length (acc @ [s]))" using True by simp
    ultimately show ?thesis using ss(1) by simp
  next
    case False
    then show ?thesis using Cons.prems(2) by simp
  qed
qed simp

text \<open>
  C3: content is retrieved over onion circuits. When the record lists at least \<open>k\<close> holders, each reached over two honest
  relays and each finding in its own store a different share of the content, the retrieval returns exactly the
  dissolved content.
\<close>

theorem onion_retrieval:
  assumes "params_ok params" and "laws (sx_core (or_store X)) params" and "draws_ok dd" and "length plaintext < 2 ^ 32"
    and "dissolve_at (sx_core (or_store X)) dd plaintext params ts = Inr (mid, shares)"
    and "relay_laws X" and "oe_relays E = Inr (r1 # r2 # rs)" and "peer_of X (ri_peer r1) = Some r1_peer" and "oe_record E = Inr (Some r)"
    and "list_all2 (\<lambda>(j, loc) s. holder_ok X E W C r1 r2 r1_peer r j loc s) (enumerate 0 (locations r)) ss"
    and "data_shards params \<le> length ss" and "distinct ss" and "set ss \<subseteq> set shares"
  shows "retrieve_via_onion X E mid params = Inr plaintext"
proof -
  let ?C = "sx_core (or_store X)" and ?k = "data_shards params"
  obtain shares' where d: "dissolve_at ?C dd plaintext params ts = Inr (mid_compute ?C plaintext (to_param_bytes params), shares')"
    "list_all (\<lambda>s. coarse_verify ?C s (mid_compute ?C plaintext (to_param_bytes params))) shares'"
    "\<And>pool. usable ?k shares' (filter (\<lambda>s. coarse_verify ?C s (mid_compute ?C plaintext (to_param_bytes params))) pool) \<Longrightarrow>
      retrieve ?C (mid_compute ?C plaintext (to_param_bytes params)) pool params = Inr plaintext"
    using dissolved_content [OF assms(1-4)] by blast
  then have e: "mid = mid_compute ?C plaintext (to_param_bytes params)" "shares' = shares" using assms(5) by simp_all
  have sub: "set (take ?k ss) \<subseteq> set shares" using assms(13) set_take_subset by fast
  then have "list_all (\<lambda>s. coarse_verify ?C s mid) (take ?k ss)" using d(2) e by (auto simp: list_all_iff)
  then have "usable ?k shares (filter (\<lambda>s. coarse_verify ?C s mid) (take ?k ss))"
    using genuine_usable [of "take ?k ss" ?k shares] sub assms(11,12) by (simp add: min_absorb2)
  then have "retrieve ?C mid (take ?k ss) params = Inr plaintext" using d(3) e by blast
  then show ?thesis
    using loop_all [OF assms(6,10), of "[]" ?k] assms(7-9,11) by (simp add: retrieve_via_onion_def min_absorb2)
qed

text \<open>
  One bad answer ends an onion retrieval. The loop stops at the first \<open>k\<close> answers without looking at them: when one
  of them is a share that does not belong to the content, the retrieval fails, although further holders of genuine
  shares are listed and never asked.
\<close>

theorem onion_stops_at_bad_share:
  assumes "relay_laws X" and "oe_relays E = Inr (r1 # r2 # rs)" and "peer_of X (ri_peer r1) = Some r1_peer" and "oe_record E = Inr (Some r)"
    and "list_all2 (\<lambda>(j, loc) s. holder_ok X E W C r1 r2 r1_peer r j loc s) (enumerate 0 (locations r)) ss"
    and "data_shards params \<le> length ss" and "s \<in> set (take (data_shards params) ss)" and "\<not> coarse_verify (sx_core (or_store X)) s mid"
  shows "\<exists>n < data_shards params. retrieve_via_onion X E mid params = Inl (InsufficientShares (data_shards params) n)"
proof -
  let ?k = "data_shards params" and ?P = "\<lambda>s. coarse_verify (sx_core (or_store X)) s mid"
  have "length (filter ?P (take ?k ss)) < length (take ?k ss)" using assms(7,8) by (rule length_filter_less)
  then have n: "length (filter ?P (take ?k ss)) < ?k" by simp
  have "retrieve_via_onion X E mid params = retrieve (sx_core (or_store X)) mid (take ?k ss) params"
    using loop_all [OF assms(1,5), of "[]" ?k] assms(2-4,6) by (simp add: retrieve_via_onion_def min_absorb2)
  also have "\<dots> = Inl (InsufficientShares ?k (length (filter ?P (take ?k ss))))"
    using n assms(6) by (simp add: retrieve_def min_absorb2)
  finally show ?thesis using n by blast
qed

lemma rendezvous_loop_distinct:
  "list_all (\<lambda>(a, b). a \<noteq> b) (ot_sent tr) \<Longrightarrow> list_all (\<lambda>(a, b). a \<noteq> b) (ot_sent (fst (rendezvous_loop X E relays r k i locs tr shares)))"
proof (induction X E relays r k i locs tr shares rule: rendezvous_loop.induct)
  case (2 X E relays r k i loc locs tr shares)
  have "a \<noteq> b" if "find (\<lambda>r1. ri_peer r1 \<noteq> b) relays = Some q" "a = ri_peer q" for a b q
    using that by (auto simp: find_Some_iff)
  then show ?case
    using 2 by (auto simp: Let_def note_outcome_def split: option.split sum.split prod.split onion_response.split)
qed simp

end
