(* ===== verification/Onion_Examples.thy ===== *)
theory Onion_Examples
  imports Onion_Circuit
begin

text \<open>
  A concrete instance of what the onion protocol relies on, with the bincode layouts written out and read back, two
  holders of a dissolved content, and the theorems about circuits applied to them.
\<close>

section \<open>Reading the layouts back\<close>

definition take_vec :: "bytes \<Rightarrow> (bytes \<times> bytes) option" where
  "take_vec b = (let n = le_val (take 8 b) in if length b < 8 + n then None else Some (take n (drop 8 b), drop (8 + n) b))"

fun take_option :: "(bytes \<Rightarrow> (bytes \<times> bytes) option) \<Rightarrow> bytes \<Rightarrow> (bytes option \<times> bytes) option" where
  "take_option f [] = None"
| "take_option f (t # b) =
     (if t = 0 then Some (None, b) else (case f b of None \<Rightarrow> None | Some (v, r) \<Rightarrow> Some (Some v, r)))"

lemma take_vec_layout [simp]: "length v < 2 ^ 64 \<Longrightarrow> take_vec (vec_layout v @ r) = Some (v, r)"
  by (simp add: take_vec_def vec_layout_def le_val_def le_bytes_def be_val_be_bytes)

definition read_payload :: "bytes \<Rightarrow> layer_payload option" where
  "read_payload b =
     (case take_option take_vec b of
        None \<Rightarrow> None
      | Some (hop, b) \<Rightarrow>
          (case take_vec b of
             None \<Rightarrow> None
           | Some (data, b) \<Rightarrow>
               (case take_option (\<lambda>b. Some (take 32 b, drop 32 b)) b of
                  None \<Rightarrow> None
                | Some (key, _) \<Rightarrow> Some \<lparr>next_hop = hop, lp_data = data, return_key = key\<rparr>)))"

definition read_layer :: "bytes \<Rightarrow> onion_layer option" where
  "read_layer b =
     (if length b < 64 then None
      else (case take_vec (drop 56 b) of
              None \<Rightarrow> None
            | Some (ct, _) \<Rightarrow> Some \<lparr>ephemeral_pubkey = take 32 b, layer_nonce = take 24 (drop 32 b), layer_ciphertext = ct\<rparr>))"

definition read_inner :: "bytes \<Rightarrow> inner_payload option" where
  "read_inner b =
     (case take_vec (drop 16 b) of
        None \<Rightarrow> None
      | Some (addr, r) \<Rightarrow>
          (case take_vec (drop 64 r) of
             None \<Rightarrow> None
           | Some (body, _) \<Rightarrow>
               Some \<lparr>ip_return_path = \<lparr>rp_circuit = take 16 b, r2_addr = addr, r2_r1_key = take 32 r, r1_init_key = take 32 (drop 32 r)\<rparr>,
                     ip_body = body\<rparr>))"

lemma read_payload_layout: "wf_payload p \<Longrightarrow> read_payload (payload_layout p) = Some p"
proof -
  assume wf: "wf_payload p"
  obtain h d k where p: "p = \<lparr>next_hop = h, lp_data = d, return_key = k\<rparr>" by (cases p)
  show ?thesis
    using wf by (cases h; cases k) (simp_all add: p wf_payload_def read_payload_def payload_layout_def option_layout_def)
qed

lemma read_layer_layout: "wf_layer l \<Longrightarrow> read_layer (layer_layout l) = Some l"
proof -
  assume wf: "wf_layer l"
  obtain e n c where l: "l = \<lparr>ephemeral_pubkey = e, layer_nonce = n, layer_ciphertext = c\<rparr>" by (cases l)
  then have "length e = 32" "length n = 24" "length c < 2 ^ 64" using wf by (simp_all add: wf_layer_def)
  then show ?thesis using take_vec_layout [of c "[]"] by (simp add: l read_layer_def layer_layout_def)
qed

lemma read_inner_layout: "wf_inner i \<Longrightarrow> read_inner (inner_layout i) = Some i"
proof -
  assume wf: "wf_inner i"
  obtain c a k2 k1 b where i: "i = \<lparr>ip_return_path = \<lparr>rp_circuit = c, r2_addr = a, r2_r1_key = k2, r1_init_key = k1\<rparr>, ip_body = b\<rparr>"
    by (metis inner_payload.surjective return_path.surjective unit.exhaust)
  have "length c = 16" "length a < 2 ^ 64" "length k2 = 32" "length k1 = 32" "length b < 2 ^ 64" using wf by (simp_all add: i wf_inner_def)
  then show ?thesis using take_vec_layout [of b "[]"] by (simp add: i read_inner_def inner_layout_def)
qed

definition demo_oext :: oext where
  "demo_oext =
     \<lparr>ox_pub = (\<lambda>s. take 32 (s @ replicate 32 0)), ox_dh = (\<lambda>_ _. Some []), ox_hkdf = (\<lambda>_ _. []),
      ox_seal = (\<lambda>_ _ p. Some (p @ replicate 16 0)), ox_open = (\<lambda>_ _ c. Some (take (length c - 16) c)),
      ser_payload = (\<lambda>p. Some (payload_layout p)), de_payload = read_payload, ser_layer = (\<lambda>l. Some (layer_layout l)),
      de_layer = read_layer, ser_inner = (\<lambda>i. Some (inner_layout i)), de_inner = read_inner\<rparr>"

lemma demo_onion_laws: "onion_laws demo_oext"
proof -
  have "64 + le_val (take 8 (drop 56 b)) \<le> length b" if "read_layer b = Some l" for b l
    using that by (auto simp: read_layer_def take_vec_def Let_def split: if_splits)
  then have "onion_bincode_ok demo_oext"
    by (simp add: onion_bincode_ok_def demo_oext_def read_payload_layout read_layer_layout read_inner_layout)
  moreover have "onion_dh_ok demo_oext" by (auto simp: onion_dh_ok_def demo_oext_def min_def)
  moreover have "onion_aead_ok demo_oext" by (simp add: onion_aead_ok_def demo_oext_def)
  ultimately show ?thesis by (simp add: onion_laws_def)
qed

section \<open>Two holders\<close>

text \<open>\<open>s\<close> and \<open>t\<close> are the shares that exist; a share serialises to \<open>Suc n\<close> bytes.\<close>

definition demo_shares_ext :: "miasma_share \<Rightarrow> miasma_share \<Rightarrow> sext" where
  "demo_shares_ext s t =
     demo_sext\<lparr>from_bytes := (\<lambda>b. if b = [1] then Some s else if b = [2] then Some t else None), xopen := (\<lambda>k n c. Some (drop 16 c))\<rparr>"

definition demo_relay :: "nat \<Rightarrow> miasma_share \<Rightarrow> miasma_share \<Rightarrow> orext" where
  "demo_relay n s t =
     \<lparr>or_core = demo_oext, or_store = demo_shares_ext s t, peer_of = Some,
      ser_request = (\<lambda>r. case r of
          RPacket c l \<Rightarrow> Some (le_bytes 4 0 @ c @ layer_layout l)
        | RForward c l \<Rightarrow> Some (le_bytes 4 1 @ c @ layer_layout l)
        | RDeliver c b \<Rightarrow> Some (le_bytes 4 2 @ c @ le_bytes 8 (length b) @ b)),
      de_request = (\<lambda>b. if le_val (take 4 b) = 2 then Some (RDeliver (take 16 (drop 4 b)) (drop 28 b))
        else map_option ((if le_val (take 4 b) = 1 then RForward else RPacket) (take 16 (drop 4 b))) (read_layer (drop 20 b))),
      ser_response = (\<lambda>r. case r of RData d \<Rightarrow> Some (le_bytes 12 (length d) @ d) | RError _ \<Rightarrow> None),
      de_response = (\<lambda>b. Some (RData (drop 12 b))),
      ser_fetch = (\<lambda>r. if length (sf_digest r) = 32 then Some (sf_digest r @ le_bytes 2 (unat (sf_slot r)) @ le_bytes 4 (unat (sf_segment r))) else None),
      de_fetch = (\<lambda>b. Some \<lparr>sf_digest = take 32 b, sf_slot = word_of_nat (le_val (take 2 (drop 32 b))),
        sf_segment = word_of_nat (le_val (drop 34 b))\<rparr>),
      ser_found = (\<lambda>v. case v of None \<Rightarrow> Some [0] | Some x \<Rightarrow> if x = s then Some (1 # replicate n 0) else if x = t then Some (2 # replicate n 0) else None),
      de_found = (\<lambda>b. if hd b = 0 then Some None else if hd b = 1 then Some (Some s) else Some (Some t))\<rparr>"

lemma demo_relay_simps [simp]:
  "or_core (demo_relay n s t) = demo_oext" "or_store (demo_relay n s t) = demo_shares_ext s t" "peer_of (demo_relay n s t) = Some"
  by (simp_all add: demo_relay_def)

lemma demo_relay_laws: "relay_laws (demo_relay n s t)"
proof -
  have tags: "le_val (le_bytes 4 0) = 0" "le_val (le_bytes 4 1) = 1" "le_val (le_bytes 4 2) = 2"
    by (simp_all add: le_val_def le_bytes_def be_val_be_bytes)
  have "\<exists>b. ser_request (demo_relay n s t) r = Some b \<and> length b = request_bytes r \<and> de_request (demo_relay n s t) b = Some r"
    if "wf_request r" for r
    using that tags by (cases r) (simp_all add: demo_relay_def read_layer_layout)
  moreover have "length b = 38 \<and> de_fetch (demo_relay n s t) b = Some r" if "ser_fetch (demo_relay n s t) r = Some b" for r b
  proof -
    obtain g sl sg where r: "r = \<lparr>sf_digest = g, sf_slot = sl, sf_segment = sg\<rparr>" by (cases r)
    have "length g = 32" "b = g @ le_bytes 2 (unat sl) @ le_bytes 4 (unat sg)" using that by (auto simp: r demo_relay_def split: if_splits)
    then show ?thesis by (simp add: r demo_relay_def le_word)
  qed
  moreover have "\<exists>b. ser_response (demo_relay n s t) (RData d) = Some b \<and> length b = 12 + length d \<and> de_response (demo_relay n s t) b = Some (RData d)" for d
    by (simp add: demo_relay_def)
  moreover have "ser_response (demo_relay n s t) (RError e) = None" for e by (simp add: demo_relay_def)
  moreover have "de_found (demo_relay n s t) b = Some v" if "ser_found (demo_relay n s t) v = Some b" for v b
    using that by (cases v) (auto simp: demo_relay_def split: if_splits)
  ultimately have "wire_ok (demo_relay n s t)" unfolding wire_ok_def by (metis option.distinct(1))
  then show ?thesis by (simp add: relay_laws_def demo_onion_laws)
qed

definition demo_onion_node :: "bytes \<Rightarrow> store option \<Rightarrow> onion_node" where
  "demo_onion_node p st =
     \<lparr>on_secret = p, on_store = st, replay_cache = [], auth_failures = fmempty, pending_relays = fmempty, pending_replies = fmempty,
      pending_inbound = fmempty, pending_cover = fmempty, forward_started = fmempty,
      on_acks = \<lparr>ack_enabled = True, ack_samples = [], ack_held = []\<rparr>\<rparr>"

definition demo_holder :: "u8 \<Rightarrow> store" where
  "demo_holder b = demo_store\<lparr>files := fmupd [9] (demo_blob\<lparr>content := replicate 40 0 @ [b]\<rparr>) fmempty\<rparr>"

definition demo_world :: "nat \<Rightarrow> turn_world" where
  "demo_world i =
     \<lparr>tw_now = 0, tw_id = i, tw_pick = 0, tw_ack = (\<lambda>_. 0), tw_nonce = replicate 24 0, tw_search_io = (\<lambda>_. demo_io), tw_get_io = (\<lambda>_. demo_io)\<rparr>"

definition demo_circuit :: "nat \<Rightarrow> circuit" where
  "demo_circuit j =
     \<lparr>c_init = [0], c_p1 = [1], c_p2 = [2], c_pt = [3 + word_of_nat j], c_n1 = demo_onion_node [1] None, c_n2 = demo_onion_node [2] None,
      c_nt = demo_onion_node [3 + word_of_nat j] (Some (demo_holder (1 + word_of_nat j))), c_es1 = [(demo_world 7, OutFailure [5] 7)], c_es2 = [], c_ch = 0\<rparr>"

definition demo_layer :: layer_draws where
  "demo_layer = \<lparr>ld_secret = [8], ld_nonce = replicate 24 1, ld_pad = (\<lambda>_. 0)\<rparr>"

definition demo_packet :: packet_draws where
  "demo_packet =
     \<lparr>pd_circuit = replicate 16 1, pd_r2_r1 = replicate 32 2, pd_r1_init = replicate 32 3, pd_layer2 = demo_layer, pd_layer1 = demo_layer\<rparr>"

definition demo_return_addr :: bytes where
  "demo_return_addr = replicate 40 255"

lemma demo_circuit_simps [simp]:
  "c_p2 (demo_circuit j) = [2]" "c_pt (demo_circuit j) = [3 + word_of_nat j]" "c_n1 (demo_circuit j) = demo_onion_node [1] None"
  "c_n2 (demo_circuit j) = demo_onion_node [2] None"
  "c_nt (demo_circuit j) = demo_onion_node [3 + word_of_nat j] (Some (demo_holder (1 + word_of_nat j)))"
  "on_secret (demo_onion_node p st) = p" "on_store (demo_onion_node p st) = st"
  by (simp_all add: demo_circuit_def demo_onion_node_def)

lemma demo_exchange:
  "exchange_ok (demo_relay n s t) demo_world (demo_circuit j) (demo_packet, replicate 32 4, demo_layer) [2] [3 + word_of_nat j] demo_return_addr"
proof -
  have "open_to (demo_relay n s t) w p e (demo_onion_node q st)" for w p e q st
    by (simp add: open_to_def demo_onion_node_def onion_sender_throttled_def onion_is_replay_def)
  then have "circuit_ready (demo_relay n s t) demo_world (demo_circuit j) demo_packet demo_layer"
    by (simp add: circuit_ready_def demo_circuit_def demo_world_def)
  moreover have "take 8 (drop 32 (replicate 40 255 :: bytes)) = [255, 255, 255, 255, 255, 255, 255, 255]" by (simp add: numeral_eq_Suc)
  then have "2 ^ 16 \<le> le_val (take 8 (drop 32 (replicate 40 255 :: bytes)))" by (simp add: le_val_def be_val_def)
  then have "unambiguous \<lparr>rp_circuit = c, r2_addr = demo_return_addr, r2_r1_key = k, r1_init_key = l\<rparr>" for c k l
    by (simp add: unambiguous_def demo_return_addr_def)
  ultimately show ?thesis
    by (simp add: exchange_ok_def request_ok_def, simp add: pd_ok_def ld_ok_def demo_packet_def demo_layer_def demo_return_addr_def onion_sizes)
qed

lemma demo_served:
  assumes "from_bytes (demo_shares_ext s t) [1 + word_of_nat j] = Some x" "mid_prefix x = take 8 (sf_digest req)" "slot_index x = sf_slot req"
    "segment_index x = sf_segment req"
  shows "served (demo_relay n s t) (demo_world i) req (c_nt (demo_circuit j)) = Some x"
proof -
  let ?S = "demo_shares_ext s t" and ?h = "\<lambda>e. demo_holder (1 + word_of_nat j)\<lparr>store_index := fmupd [9] e fmempty\<rparr>"
  have "get_untouched ?S [9] (?h e) = Inr x" for e
    using assms(1) by (simp add: get_untouched_def decrypt_share_def demo_holder_def demo_store_simps demo_shares_ext_def STORE_NONCE_LEN_def)
  then have get: "get ?S demo_io [9] (?h e) = (?h (e\<lparr>last_accessed := 9\<rparr>), Inr x)" for e
    by (simp add: get_def touch_def save_index_def load_index_def demo_holder_def demo_store_simps)
  have h: "demo_holder (1 + word_of_nat j) = ?h demo_entry" by (simp add: demo_holder_def demo_store_def)
  have l: "list_addresses demo_io (?h demo_entry) = [[9]]" by (simp add: list_addresses_def load_index_def demo_holder_def demo_store_def demo_io_def)
  have "search_by_mid_prefix ?S (\<lambda>_. demo_io) (take 8 (sf_digest req)) (?h demo_entry) = (?h (demo_entry\<lparr>last_accessed := 9\<rparr>), [[9]])"
    using get [of demo_entry] l assms(2) by (simp add: search_by_mid_prefix_def)
  moreover have "snd (find_share ?S (\<lambda>_. demo_io) 0 req [[9]] (?h e)) = Some x" for e using get [of e] assms(3,4) by simp
  ultimately show ?thesis
    using h by (simp add: served_def demo_world_def)
qed

definition demo_record :: "bytes \<Rightarrow> miasma_share list \<Rightarrow> dht_record" where
  "demo_record digest ss =
     \<lparr>mid_digest = digest, rec_data_shards = 2, rec_total_shards = 3, rec_version = 1,
      locations = map (\<lambda>(j, s). \<lparr>peer_id_bytes = [3 + word_of_nat j], shard_index = slot_index s, loc_segment = 0, loc_addrs = []\<rparr>) (enumerate 0 ss),
      published_at = 0\<rparr>"

definition demo_hop :: "u8 \<Rightarrow> relay_info" where
  "demo_hop i = \<lparr>ri_peer = [i], ri_key = ox_pub demo_oext [i], ri_addr = demo_return_addr\<rparr>"

definition demo_onion_env :: "miasma_share \<Rightarrow> miasma_share \<Rightarrow> bytes \<Rightarrow> onion_env" where
  "demo_onion_env s t digest =
     \<lparr>oe_relays = Inr [demo_hop 1, demo_hop 2], oe_record = Inr (Some (demo_record digest [s, t])), oe_self = [0], oe_own_key = Inl Network,
      oe_peer_key = (\<lambda>p. Inr (Some (ox_pub demo_oext p))), oe_rendezvous = (\<lambda>_. None), oe_resolve = (\<lambda>_. Inr []), oe_lossy = (\<lambda>a. a),
      oe_draws = (\<lambda>_. (demo_packet, replicate 32 4, demo_layer)),
      oe_send = (\<lambda>j _ _ rq _. case circuit_run (demo_relay 0 s t) demo_world (demo_circuit j) rq of None \<Rightarrow> Inl Network | Some r \<Rightarrow> Inr r)\<rparr>"

lemma mid_digest_demo_record [simp]: "mid_digest (demo_record digest ss) = digest"
  by (simp add: demo_record_def)

lemma demo_holder_ok:
  assumes "s \<noteq> t" "j = 0 \<and> x = s \<or> j = 1 \<and> x = t" "length digest = 32" "mid_prefix x = take 8 digest" "segment_index x = 0"
  shows "holder_ok (demo_relay 0 s t) (demo_onion_env s t digest) (\<lambda>_. demo_world) demo_circuit (demo_hop 1) (demo_hop 2) [1] (demo_record digest [s, t]) j
    \<lparr>peer_id_bytes = [3 + word_of_nat j], shard_index = slot_index x, loc_segment = 0, loc_addrs = []\<rparr> x"
proof -
  let ?X = "demo_relay 0 s t" and ?req = "\<lparr>sf_digest = digest, sf_slot = slot_index x, sf_segment = 0\<rparr>"
  have "from_bytes (demo_shares_ext s t) [1 + word_of_nat j] = Some x" using assms(2) by (auto simp: demo_shares_ext_def)
  then have "served ?X (demo_world 2) ?req (c_nt (demo_circuit j)) = Some x"
    by (rule demo_served) (use assms(4,5) in simp_all)
  moreover have "[3 + word_of_nat j] \<noteq> [0 :: u8]" using assms(2) by auto
  moreover have "ser_found ?X (Some x) = Some (if j = 0 then [1] else [2])" using assms(1,2) by (auto simp: demo_relay_def)
  moreover have "ser_fetch ?X ?req \<noteq> None" using assms(3) by (simp add: demo_relay_def)
  ultimately show ?thesis
    using demo_exchange [of 0 s t j] by (simp add: holder_ok_def demo_hop_def demo_onion_env_def target_key_def node_key_def)
qed

lemma demo_holders_ok:
  assumes "s \<noteq> t" "length digest = 32" "mid_prefix s = take 8 digest" "mid_prefix t = take 8 digest" "segment_index s = 0" "segment_index t = 0"
  shows "list_all2 (\<lambda>(j, loc) x. holder_ok (demo_relay 0 s t) (demo_onion_env s t digest) (\<lambda>_. demo_world) demo_circuit (demo_hop 1) (demo_hop 2) [1]
    (demo_record digest [s, t]) j loc x) (enumerate 0 (locations (demo_record digest [s, t]))) [s, t]"
proof -
  have "locations (demo_record digest [s, t]) =
      [\<lparr>peer_id_bytes = [3 + word_of_nat 0], shard_index = slot_index s, loc_segment = 0, loc_addrs = []\<rparr>,
       \<lparr>peer_id_bytes = [3 + word_of_nat 1], shard_index = slot_index t, loc_segment = 0, loc_addrs = []\<rparr>]"
    by (simp add: demo_record_def)
  then show ?thesis
    using demo_holder_ok [OF assms(1) _ assms(2), of 0 s] demo_holder_ok [OF assms(1) _ assms(2), of 1 t] assms(3-) by simp
qed

section \<open>The theorems on the instance\<close>

theorem onion_retrieval_witness:
  "case dissolve_at demo_cext demo_draws [1, 2, 3] demo_params 0 of
     Inl _ \<Rightarrow> False
   | Inr (mid, shares) \<Rightarrow>
       retrieve_via_onion (demo_relay 0 (shares ! 0) (shares ! 2)) (demo_onion_env (shares ! 0) (shares ! 2) mid) mid demo_params = Inr [1, 2, 3]"
proof -
  obtain shares where sh: "dissolve_at demo_cext demo_draws [1, 2, 3] demo_params 0 = Inr (demo_mid, shares)"
    "map slot_index shares = [0, 1, 2]" "list_all (good_share demo_cext demo_mid 0) shares"
    by (rule demo_dissolved)
  then obtain s u t where l: "shares = [s, u, t]" "slot_index s = 0" "slot_index t = 2" by auto
  have "s \<noteq> t" using l(2,3) by auto
  moreover have "length demo_mid = 32" by (simp add: mid_compute_def demo_cext_def)
  moreover have "mid_prefix s = take 8 demo_mid" "mid_prefix t = take 8 demo_mid" "segment_index s = 0" "segment_index t = 0"
    using sh(3) l by (auto simp: good_share_def coarse_verify_def mid_prefix_of_def MID_PREFIX_LEN_def split: if_splits)
  ultimately have h: "list_all2 (\<lambda>(j, loc) x. holder_ok (demo_relay 0 s t) (demo_onion_env s t demo_mid) (\<lambda>_. demo_world) demo_circuit (demo_hop 1)
      (demo_hop 2) [1] (demo_record demo_mid [s, t]) j loc x) (enumerate 0 (locations (demo_record demo_mid [s, t]))) [s, t]"
    by (intro demo_holders_ok)
  have "retrieve_via_onion (demo_relay 0 s t) (demo_onion_env s t demo_mid) demo_mid demo_params = Inr [1, 2, 3]"
    using onion_retrieval [OF demo_ok(1) _ demo_ok(2) _ _ demo_relay_laws _ _ _ h, where plaintext = "[1, 2, 3]" and ts = 0 and rs = "[]"
        and shares = shares and mid = demo_mid] \<open>s \<noteq> t\<close> demo_laws sh(1) l(1)
    by (simp add: demo_shares_ext_def demo_sext_def demo_onion_env_def demo_hop_def demo_params_def)
  then show ?thesis using sh(1) l(1) by simp
qed

text \<open>The first holder answers with a share whose hash is wrong, the second has a genuine one.\<close>

definition demo_piece :: "u16 \<Rightarrow> miasma_share" where
  "demo_piece i = share_new demo_cext (replicate 32 0) 0 i [7] [] [] 0 0"

definition forged_piece :: miasma_share where
  "forged_piece = (demo_piece 0)\<lparr>shard_hash := []\<rparr>"

lemma demo_piece_simps [simp]:
  "mid_prefix (demo_piece i) = replicate 8 0" "segment_index (demo_piece i) = 0" "slot_index (demo_piece i) = i"
  "mid_prefix forged_piece = replicate 8 0" "segment_index forged_piece = 0" "slot_index forged_piece = 0"
  by (simp_all add: forged_piece_def demo_piece_def share_new_def mid_prefix_of_def MID_PREFIX_LEN_def)

theorem onion_stops_at_bad_share_witness:
  "coarse_verify demo_cext (demo_piece 1) (replicate 32 0) \<and>
   retrieve_via_onion (demo_relay 0 forged_piece (demo_piece 1)) (demo_onion_env forged_piece (demo_piece 1) (replicate 32 0)) (replicate 32 0)
     \<lparr>data_shards = 1, total_shards = 2\<rparr> = Inl (InsufficientShares 1 0)"
proof -
  have n: "forged_piece \<noteq> demo_piece 1" by (metis demo_piece_simps(3,6) zero_neq_one)
  have good: "coarse_verify demo_cext (demo_piece 1) (replicate 32 0)"
    by (simp add: coarse_verify_def demo_piece_def share_new_def)
  have bad: "\<not> coarse_verify demo_cext forged_piece (replicate 32 0)"
    by (simp add: coarse_verify_def forged_piece_def demo_piece_def share_new_def, simp add: demo_cext_def)
  have h: "list_all2 (\<lambda>(j, loc) x. holder_ok (demo_relay 0 forged_piece (demo_piece 1)) (demo_onion_env forged_piece (demo_piece 1) (replicate 32 0))
      (\<lambda>_. demo_world) demo_circuit (demo_hop 1) (demo_hop 2) [1] (demo_record (replicate 32 0) [forged_piece, demo_piece 1]) j loc x)
      (enumerate 0 (locations (demo_record (replicate 32 0) [forged_piece, demo_piece 1]))) [forged_piece, demo_piece 1]"
    by (rule demo_holders_ok) (simp_all add: n)
  show ?thesis
    using good onion_stops_at_bad_share [OF demo_relay_laws _ _ _ h, where rs = "[]" and s = forged_piece and mid = "replicate 32 0"
        and params = "\<lparr>data_shards = 1, total_shards = 2\<rparr>"] bad
    by (simp add: demo_shares_ext_def demo_sext_def) (simp add: demo_onion_env_def demo_hop_def)
qed

definition demo_fetch_request :: share_fetch_request where
  "demo_fetch_request = \<lparr>sf_digest = replicate 32 0, sf_slot = 1, sf_segment = 0\<rparr>"

lemma demo_piece_served:
  "served (demo_relay n forged_piece (demo_piece 1)) (demo_world 2) demo_fetch_request (c_nt (demo_circuit 1)) = Some (demo_piece 1)"
  by (rule demo_served) (simp_all add: demo_fetch_request_def demo_shares_ext_def)

lemma demo_found:
  "ser_found (demo_relay n forged_piece (demo_piece 1)) (Some (demo_piece 1)) = Some (2 # replicate n 0)"
  "ser_fetch (demo_relay n s t) demo_fetch_request = Some (replicate 32 0 @ le_bytes 2 1 @ le_bytes 4 0)"
  by (simp_all add: demo_relay_def demo_fetch_request_def) (metis demo_piece_simps(3,6) zero_neq_one)

theorem onion_round_trip_witness:
  "\<exists>packet rp enc.
    build_e2e demo_oext demo_packet (replicate 32 4) demo_layer (ox_pub demo_oext [1]) (ox_pub demo_oext [2]) (ox_pub demo_oext [4]) [2] [4]
      demo_return_addr (0x10 # replicate 32 0 @ le_bytes 2 1 @ le_bytes 4 0) = Inr (packet, rp, replicate 32 4) \<and>
    circuit_run (demo_relay 0 forged_piece (demo_piece 1)) demo_world (demo_circuit 1) (RPacket (packet_circuit packet) (packet_layer packet)) =
      Some (RData enc) \<and>
    decrypt_onion_response (demo_relay 0 forged_piece (demo_piece 1)) rp (replicate 32 4) enc = Some (demo_piece 1)"
  using onion_round_trip [OF demo_relay_laws demo_exchange demo_found(2), of 0 forged_piece "demo_piece 1" 1] demo_piece_served [of 0] demo_found(1)
  by (simp add: node_key_def)

theorem onion_large_share_lost_witness:
  "\<exists>packet rp.
    build_e2e demo_oext demo_packet (replicate 32 4) demo_layer (ox_pub demo_oext [1]) (ox_pub demo_oext [2]) (ox_pub demo_oext [4]) [2] [4]
      demo_return_addr (0x10 # replicate 32 0 @ le_bytes 2 1 @ le_bytes 4 0) = Inr (packet, rp, replicate 32 4) \<and>
    (\<nexists>enc. circuit_run (demo_relay 70000 forged_piece (demo_piece 1)) demo_world (demo_circuit 1)
      (RPacket (packet_circuit packet) (packet_layer packet)) = Some (RData enc))"
  using onion_large_share_lost [OF demo_relay_laws demo_exchange demo_found(2), of 70000 forged_piece "demo_piece 1" 1]
    demo_piece_served [of 70000] demo_found(1) [of 70000]
  by (simp add: node_key_def)

theorem first_hop_cells_uniform_witness:
  "\<exists>packet rp cover f g.
    build_e2e demo_oext demo_packet (replicate 32 4) demo_layer (ox_pub demo_oext [1]) (ox_pub demo_oext [2]) (ox_pub demo_oext [4]) [2] [4]
      demo_return_addr [16] = Inr (packet, rp, replicate 32 4) \<and>
    build_cover demo_oext (replicate 16 0) demo_layer (ox_pub demo_oext [1]) (0xFF # replicate 600 0) = Inr cover \<and>
    write_request (demo_relay 0 (demo_piece 0) (demo_piece 1)) (RPacket (packet_circuit packet) (packet_layer packet)) = Some f \<and>
    write_request (demo_relay 0 (demo_piece 0) (demo_piece 1)) (RPacket (packet_circuit cover) (packet_layer cover)) = Some g \<and>
    length f = FIRST_HOP_FRAME_BYTES \<and> length g = FIRST_HOP_FRAME_BYTES"
proof -
  have "pd_ok demo_packet" "ld_ok demo_layer" by (simp_all add: pd_ok_def ld_ok_def demo_packet_def demo_layer_def)
  moreover have "request_ok [2] [4] demo_return_addr" by (simp add: request_ok_def demo_return_addr_def onion_sizes)
  moreover have "is_cover_payload (0xFF # replicate 600 0)"
    by (simp add: is_cover_payload_def COVER_MIN_BYTES_def COVER_MAX_BYTES_def COVER_TAG_def)
  ultimately show ?thesis
    using first_hop_cells_uniform [OF demo_relay_laws, of demo_packet demo_layer "replicate 32 4" "[2]" "[4]" demo_return_addr "[16]" "0xFF # replicate 600 0"
        demo_layer "replicate 16 0" 0 "demo_piece 0" "demo_piece 1" "[1]" "[2]" "[4]" "[1]"]
    by (simp add: onion_sizes)
qed

text \<open>A layer that was passed on is seen again after a failed request and a forged layer.\<close>

definition demo_forged :: onion_layer where
  "demo_forged = \<lparr>ephemeral_pubkey = replicate 32 9, layer_nonce = replicate 24 2, layer_ciphertext = [3]\<rparr>"

definition demo_between :: "(turn_world \<times> onion_event) list" where
  "demo_between = [(demo_world 1, OutFailure [5] 7), (demo_world 2, InRequest [6] (RForward [] demo_forged) 3)]"

theorem onion_replay_refused_witness:
  "\<exists>packet rp nd next nd' err.
    build_e2e demo_oext demo_packet (replicate 32 4) demo_layer (ox_pub demo_oext [1]) (ox_pub demo_oext [2]) (ox_pub demo_oext [4]) [2] [4]
      demo_return_addr [16] = Inr (packet, rp, replicate 32 4) \<and>
    handle_onion_relay_event (demo_relay 0 (demo_piece 0) (demo_piece 1)) (demo_world 0)
      (InRequest [0] (RPacket (packet_circuit packet) (packet_layer packet)) 4) (demo_onion_node [1] None) = (nd, [SendRequest 0 [2] next]) \<and>
    handle_onion_relay_event (demo_relay 0 (demo_piece 0) (demo_piece 1)) (demo_world 3) (InRequest [7] (RForward [1] (packet_layer packet)) 5)
      (onion_run (demo_relay 0 (demo_piece 0) (demo_piece 1)) demo_between nd) = (nd', [SendResponse 5 (RError err)])"
proof -
  let ?X = "demo_relay 0 (demo_piece 0) (demo_piece 1)"
  have "pd_ok demo_packet" "ld_ok demo_layer" by (simp_all add: pd_ok_def ld_ok_def demo_packet_def demo_layer_def)
  moreover have "request_ok [2] [4] demo_return_addr" by (simp add: request_ok_def demo_return_addr_def onion_sizes)
  ultimately obtain l1 l2 rp where l: "build_e2e demo_oext demo_packet (replicate 32 4) demo_layer (ox_pub demo_oext [1]) (ox_pub demo_oext [2])
      (ox_pub demo_oext [4]) [2] [4] demo_return_addr [16] = Inr (\<lparr>packet_circuit = pd_circuit demo_packet, packet_layer = l1\<rparr>, rp, replicate 32 4)"
    "peel demo_oext [1] l1 = Inr \<lparr>next_hop = Some [2], lp_data = layer_layout l2, return_key = Some (pd_r1_init demo_packet)\<rparr>" "wf_layer l2"
    using e2e_built [OF demo_onion_laws, of demo_packet demo_layer "replicate 32 4" "[2]" "[4]" demo_return_addr "[16]" "[1]" "[2]" "[4]"]
    by (auto simp: onion_sizes)
  have "de_layer demo_oext (layer_layout l2) = Some l2" using onion_lawsD(4) [OF demo_onion_laws l(3)] .
  then have act: "process_onion_layer demo_oext [1] (pd_circuit demo_packet) l1 = Inr (ForwardToNext [2] (pd_circuit demo_packet) l2 (pd_r1_init demo_packet))"
    using l(2) by (simp add: process_onion_layer_def)
  have "open_to ?X (demo_world 0) [0] (ephemeral_pubkey l1) (demo_onion_node [1] None)"
    by (simp add: open_to_def demo_onion_node_def onion_sender_throttled_def onion_is_replay_def)
  from relay_passes_on [OF this, of "pd_circuit demo_packet" _ "[2]" l2 "pd_r1_init demo_packet" "RForward (pd_circuit demo_packet) l2" _ "[2]" 4] act
  obtain nd where nd: "handle_onion_relay_event ?X (demo_world 0) (InRequest [0] (RPacket (pd_circuit demo_packet) l1) 4) (demo_onion_node [1] None) =
      (nd, [SendRequest 0 [2] (RForward (pd_circuit demo_packet) l2)])"
    by (auto simp: demo_world_def)
  have "length (filter (\<lambda>(w, e). authentic ?X (on_secret nd) e) demo_between) \<le> length demo_between" by (rule length_filter_le)
  then have "length (filter (\<lambda>(w, e). authentic ?X (on_secret nd) e) demo_between) < 4096" by (simp add: demo_between_def)
  from onion_replay_refused [OF nd _ _ _ this, of l1 "RForward [1] l1" "demo_world 3" "[7]" 5] show ?thesis using l(1) nd by auto
qed

end
