(* ===== verification/State_Crypto.thy ===== *)
theory State_Crypto
  imports Object_Format
begin

text \<open>
  Encryption of persisted state, \<^verbatim>\<open>state_crypto/mod.rs\<close> and \<^verbatim>\<open>state_crypto/doc.rs\<close> under \<^verbatim>\<open>crates/miasma-core/src\<close>: the classes
  of data, the key cells and the registry a wipe erases them through, and sealed documents. HKDF and
  XChaCha20-Poly1305 are parameters; a path is its byte string.
\<close>

section \<open>Classes of data\<close>

datatype state_label =
    Contacts | PushHistory | ReplicationWal | TransferJournal | DirectedMeta | StoreIndex | DesktopPrefs | ChatHistory
  | ChatSessions | ChatOutbox | ChatGroups | ChatGroupHistory | PushOutbox | ChatAnchor | ChatCustody

definition ALL_LABELS :: "state_label list" where
  "ALL_LABELS =
     [Contacts, PushHistory, ReplicationWal, TransferJournal, DirectedMeta, StoreIndex, DesktopPrefs, ChatHistory,
      ChatSessions, ChatOutbox, ChatGroups, ChatGroupHistory, PushOutbox, ChatAnchor, ChatCustody]"

fun label_id :: "state_label \<Rightarrow> u8" where
  "label_id Contacts = 1"
| "label_id PushHistory = 2"
| "label_id ReplicationWal = 3"
| "label_id TransferJournal = 4"
| "label_id DirectedMeta = 5"
| "label_id StoreIndex = 6"
| "label_id DesktopPrefs = 7"
| "label_id ChatHistory = 8"
| "label_id ChatSessions = 9"
| "label_id ChatOutbox = 10"
| "label_id ChatGroups = 11"
| "label_id ChatGroupHistory = 12"
| "label_id PushOutbox = 13"
| "label_id ChatAnchor = 14"
| "label_id ChatCustody = 15"

definition label_from_id :: "u8 \<Rightarrow> state_label option" where
  "label_from_id i = find (\<lambda>l. label_id l = i) ALL_LABELS"

fun label_name :: "state_label \<Rightarrow> string" where
  "label_name Contacts = ''contacts''"
| "label_name PushHistory = ''push-history''"
| "label_name ReplicationWal = ''replication-wal''"
| "label_name TransferJournal = ''transfer-journal''"
| "label_name DirectedMeta = ''directed-meta''"
| "label_name StoreIndex = ''store-index''"
| "label_name DesktopPrefs = ''desktop-prefs''"
| "label_name ChatHistory = ''chat-history''"
| "label_name ChatSessions = ''chat-sessions''"
| "label_name ChatOutbox = ''chat-outbox''"
| "label_name ChatGroups = ''chat-groups''"
| "label_name ChatGroupHistory = ''chat-group-history''"
| "label_name PushOutbox = ''push-outbox''"
| "label_name ChatAnchor = ''chat-anchor''"
| "label_name ChatCustody = ''chat-custody''"

definition max_record_bytes :: "state_label \<Rightarrow> nat" where
  "max_record_bytes l = (case l of ReplicationWal \<Rightarrow> 16 * 1024 * 1024 | TransferJournal \<Rightarrow> 1024 * 1024 | _ \<Rightarrow> 64 * 1024)"

definition max_document_bytes :: "state_label \<Rightarrow> nat" where
  "max_document_bytes l = (case l of StoreIndex \<Rightarrow> 256 * 1024 * 1024 | _ \<Rightarrow> 16 * 1024 * 1024)"

lemma label_ids: "label_from_id (label_id l) = Some l"
  by (cases l) (simp_all add: label_from_id_def ALL_LABELS_def)

lemma label_id_inj: "label_id a = label_id b \<longleftrightarrow> a = b"
  using label_ids by (metis option.inject)

lemma label_name_inj: "label_name a = label_name b \<longleftrightarrow> a = b"
  by (cases a; cases b) simp_all

lemma max_record_bytes_le: "max_record_bytes l \<le> 2 ^ 24"
  by (cases l) (simp_all add: max_record_bytes_def)

section \<open>Keys\<close>

datatype state_error =
    KeyMissing | KeyInvalid | NotProtected | UnsupportedVersion u8 | WrongLabel u8 u8 | Authentication | Truncated
  | Corrupt nat | TooLarge nat nat | Migration | StateIo

text \<open>\<open>sk_hkdf salt ikm info\<close> gives 32 bytes; the cipher returns ciphertext and tag apart.\<close>

record skext =
  sk_hkdf :: "bytes option \<Rightarrow> bytes \<Rightarrow> bytes \<Rightarrow> bytes"
  sk_seal :: "bytes \<Rightarrow> bytes \<Rightarrow> bytes \<Rightarrow> bytes \<Rightarrow> (bytes \<times> bytes) option"
  sk_open :: "bytes \<Rightarrow> bytes \<Rightarrow> bytes \<Rightarrow> bytes \<Rightarrow> bytes \<Rightarrow> bytes option"

definition state_aead_ok :: "skext \<Rightarrow> bool" where
  "state_aead_ok X \<longleftrightarrow>
     (\<forall>k n a p. \<exists>c t. sk_seal X k n a p = Some (c, t) \<and> length c = length p \<and> length t = 16 \<and> sk_open X k n a c t = Some p)"

definition NONCE_BYTES :: nat where "NONCE_BYTES = 24"
definition TAG_BYTES :: nat where "TAG_BYTES = 16"
definition LABEL_STATE_ROOT :: bytes where "LABEL_STATE_ROOT = str_bytes ''miasma/state/v1''"
definition LABEL_STATE_DOC_PREFIX :: bytes where "LABEL_STATE_DOC_PREFIX = str_bytes ''miasma/state/v1/doc/''"
definition LABEL_STATE_LOG_FILE :: bytes where "LABEL_STATE_LOG_FILE = str_bytes ''miasma/state/v1/log-file''"

definition seal_detached :: "skext \<Rightarrow> bytes \<Rightarrow> bytes \<Rightarrow> bytes \<Rightarrow> bytes \<Rightarrow> state_error + bytes \<times> bytes" where
  "seal_detached X key n a buf = (case sk_seal X key n a buf of None \<Rightarrow> Inl Authentication | Some ct \<Rightarrow> Inr ct)"

definition open_detached :: "skext \<Rightarrow> bytes \<Rightarrow> bytes \<Rightarrow> bytes \<Rightarrow> bytes \<Rightarrow> bytes \<Rightarrow> state_error + bytes" where
  "open_detached X key n a buf tag = (case sk_open X key n a buf tag of None \<Rightarrow> Inl Authentication | Some p \<Rightarrow> Inr p)"

text \<open>A key cell holds the state key until it is erased.\<close>

type_synonym key_cell = "bytes option"

definition from_master_key :: "skext \<Rightarrow> bytes \<Rightarrow> state_error + key_cell" where
  "from_master_key X master =
     (if list_all (\<lambda>b. b = 0) master then Inl KeyInvalid else Inr (Some (sk_hkdf X None master LABEL_STATE_ROOT)))"

definition doc_key :: "skext \<Rightarrow> key_cell \<Rightarrow> state_label \<Rightarrow> state_error + bytes" where
  "doc_key X cell l =
     (case cell of
        None \<Rightarrow> Inl KeyInvalid
      | Some key \<Rightarrow> Inr (sk_hkdf X None key (LABEL_STATE_DOC_PREFIX @ str_bytes (label_name l))))"

text \<open>
  The cells alive in the process, shared by reference, and the registry: the canonical form of the data directory if it
  had one, the directory as given, and the cell. A cell whose last holder was dropped is not in the map.
\<close>

record key_world =
  live_cells :: "(nat, key_cell) fmap"
  registry :: "(bytes option \<times> bytes \<times> nat) list"

definition register :: "(bytes \<Rightarrow> bytes option) \<Rightarrow> bytes \<Rightarrow> nat \<Rightarrow> key_world \<Rightarrow> key_world" where
  "register canon dir cell w =
     w\<lparr>registry := filter (\<lambda>(_, _, c). fmlookup (live_cells w) c \<noteq> None) (registry w) @ [(canon dir, dir, cell)]\<rparr>"

text \<open>\<^verbatim>\<open>StateKeys::load\<close> with the root key already read; the new cell is \<open>cell\<close>.\<close>

definition load_keys :: "skext \<Rightarrow> (bytes \<Rightarrow> bytes option) \<Rightarrow> bytes \<Rightarrow> bytes \<Rightarrow> nat \<Rightarrow> key_world \<Rightarrow> key_world \<times> (state_error + nat)" where
  "load_keys X canon dir root cell w =
     (case from_master_key X root of
        Inl err \<Rightarrow> (w, Inl err)
      | Inr key \<Rightarrow> (register canon dir cell (w\<lparr>live_cells := fmupd cell key (live_cells w)\<rparr>), Inr cell))"

definition erase_cell :: "nat \<Rightarrow> (nat, key_cell) fmap \<Rightarrow> (nat, key_cell) fmap \<times> bool" where
  "erase_cell c m =
     (case fmlookup m c of
        Some (Some _) \<Rightarrow> (fmupd c None m, True)
      | _ \<Rightarrow> (m, False))"

fun erase_loop ::
  "bytes option \<Rightarrow> bytes \<Rightarrow> (bytes option \<times> bytes \<times> nat) list \<Rightarrow> (nat, key_cell) fmap \<Rightarrow> nat \<Rightarrow>
     (bytes option \<times> bytes \<times> nat) list \<times> (nat, key_cell) fmap \<times> nat" where
  "erase_loop canon dir [] m n = ([], m, n)"
| "erase_loop canon dir ((c, raw, cell) # reg) m n =
     (if fmlookup m cell = None then erase_loop canon dir reg m n
      else
        let (m, erased) = (if raw = dir \<or> c \<noteq> None \<and> c = canon then erase_cell cell m else (m, False));
            (reg, m, n) = erase_loop canon dir reg m (if erased then Suc n else n)
        in ((c, raw, cell) # reg, m, n))"

definition erase_state_keys :: "(bytes \<Rightarrow> bytes option) \<Rightarrow> bytes \<Rightarrow> key_world \<Rightarrow> key_world \<times> nat" where
  "erase_state_keys canon dir w =
     (case erase_loop (canon dir) dir (registry w) (live_cells w) 0 of
        (reg, m, n) \<Rightarrow> (w\<lparr>live_cells := m, registry := reg\<rparr>, n))"

definition belongs_to :: "(bytes \<Rightarrow> bytes option) \<Rightarrow> bytes \<Rightarrow> key_world \<Rightarrow> nat \<Rightarrow> bool" where
  "belongs_to canon dir w cell \<longleftrightarrow>
     list_ex (\<lambda>(c, raw, x). x = cell \<and> (raw = dir \<or> c \<noteq> None \<and> c = canon dir)) (registry w)"

lemma erase_cell_lookup: "fmlookup (fst (erase_cell c m)) x = (if x = c then map_option (\<lambda>_. None) (fmlookup m c) else fmlookup m x)"
  by (auto simp: erase_cell_def split: option.split)

lemma erase_loop_lookup:
  "fmlookup (fst (snd (erase_loop canon dir reg m n))) x =
     (if list_ex (\<lambda>(c, raw, y). y = x \<and> (raw = dir \<or> c \<noteq> None \<and> c = canon)) reg then map_option (\<lambda>_. None) (fmlookup m x) else fmlookup m x)"
proof (induction canon dir reg m n rule: erase_loop.induct)
  case (2 canon dir c raw cell reg m n)
  show ?case
  proof (cases "fmlookup m cell = None")
    case True
    then show ?thesis using 2(1) by auto
  next
    case False
    let ?m = "if raw = dir \<or> c \<noteq> None \<and> c = canon then erase_cell cell m else (m, False)"
    have "fmlookup (fst (snd (erase_loop canon dir ((c, raw, cell) # reg) m n))) x =
        fmlookup (fst (snd (erase_loop canon dir reg (fst ?m) (if snd ?m then Suc n else n)))) x"
      using False by (auto simp: Let_def case_prod_beta)
    also have "\<dots> = (if list_ex (\<lambda>(c, raw, y). y = x \<and> (raw = dir \<or> c \<noteq> None \<and> c = canon)) reg
        then map_option (\<lambda>_. None) (fmlookup (fst ?m) x) else fmlookup (fst ?m) x)"
      using 2(2) [OF False, of ?m "fst ?m" "snd ?m"] by simp
    also have "\<dots> = (if list_ex (\<lambda>(c, raw, y). y = x \<and> (raw = dir \<or> c \<noteq> None \<and> c = canon)) ((c, raw, cell) # reg)
        then map_option (\<lambda>_. None) (fmlookup m x) else fmlookup m x)"
      by (auto simp: erase_cell_lookup option.map_comp comp_def)
    finally show ?thesis .
  qed
qed simp

lemma erase_exact:
  "fmlookup (live_cells (fst (erase_state_keys canon dir w))) x =
     (if belongs_to canon dir w x then map_option (\<lambda>_. None) (fmlookup (live_cells w) x) else fmlookup (live_cells w) x)"
  using erase_loop_lookup [of "canon dir" dir "registry w" "live_cells w" 0 x]
  by (simp add: erase_state_keys_def belongs_to_def case_prod_beta)

section \<open>Documents\<close>

definition DOC_MAGIC :: bytes where "DOC_MAGIC = str_bytes ''MSD1''"
definition DOC_VERSION :: u8 where "DOC_VERSION = 1"
definition DOC_HEADER_LEN :: nat where "DOC_HEADER_LEN = 4 + 1 + 1 + NONCE_BYTES"

definition doc_aad :: "state_label \<Rightarrow> bytes \<Rightarrow> bytes" where
  "doc_aad l context = DOC_MAGIC @ [DOC_VERSION, label_id l] @ context"

definition doc_seal :: "skext \<Rightarrow> bytes \<Rightarrow> key_cell \<Rightarrow> state_label \<Rightarrow> bytes \<Rightarrow> bytes \<Rightarrow> state_error + bytes" where
  "doc_seal X n cell l context plaintext =
     (if max_document_bytes l < length plaintext then Inl (TooLarge (length plaintext) (max_document_bytes l))
      else
        (case doc_key X cell l of
           Inl err \<Rightarrow> Inl err
         | Inr key \<Rightarrow>
             (case seal_detached X key n (doc_aad l context) plaintext of
                Inl err \<Rightarrow> Inl err
              | Inr (c, tag) \<Rightarrow> Inr (DOC_MAGIC @ [DOC_VERSION, label_id l] @ n @ c @ tag))))"

definition doc_open :: "skext \<Rightarrow> key_cell \<Rightarrow> state_label \<Rightarrow> bytes \<Rightarrow> bytes \<Rightarrow> state_error + bytes" where
  "doc_open X cell l context f =
     (if length f < DOC_HEADER_LEN + TAG_BYTES then
        (let n = min (length f) 4 in
         if take n f = take n DOC_MAGIC \<and> 0 < n then Inl Truncated else if f = [] then Inl Truncated else Inl NotProtected)
      else if take 4 f \<noteq> DOC_MAGIC then Inl NotProtected
      else if f ! 4 \<noteq> DOC_VERSION then Inl (UnsupportedVersion (f ! 4))
      else if f ! 5 \<noteq> label_id l then Inl (WrongLabel (label_id l) (f ! 5))
      else
        let n = take NONCE_BYTES (drop 6 f); tag_at = length f - TAG_BYTES; tag = drop tag_at f in
        (case doc_key X cell l of
           Inl err \<Rightarrow> Inl err
         | Inr key \<Rightarrow> open_detached X key n (doc_aad l context) (drop DOC_HEADER_LEN (take tag_at f)) tag))"

text \<open>\<^verbatim>\<open>read_document\<close> of a file that is there, with the size limit before it is read.\<close>

definition read_document :: "skext \<Rightarrow> key_cell \<Rightarrow> state_label \<Rightarrow> bytes \<Rightarrow> bytes option \<Rightarrow> state_error + bytes" where
  "read_document X cell l context file =
     (case file of
        None \<Rightarrow> Inl StateIo
      | Some f \<Rightarrow>
          (let limit = max_document_bytes l + DOC_HEADER_LEN + TAG_BYTES in
           if limit < length f then Inl (TooLarge (length f) limit) else doc_open X cell l context f))"

lemma doc_magic_length [simp]: "length DOC_MAGIC = 4"
  by (simp add: DOC_MAGIC_def str_bytes_def)

lemma doc_roundtrip:
  assumes "state_aead_ok X" and "length n = 24" and "doc_seal X n cell l context p = Inr f"
  shows "read_document X cell l context (Some f) = Inr p" and "l' \<noteq> l \<Longrightarrow> doc_open X cell' l' context' f = Inl (WrongLabel (label_id l') (label_id l))"
proof -
  obtain key where k: "doc_key X cell l = Inr key" and lim: "length p \<le> max_document_bytes l"
    using assms(3) by (auto simp: doc_seal_def split: if_splits sum.splits)
  obtain c t where ct: "sk_seal X key n (doc_aad l context) p = Some (c, t)" "length c = length p" "length t = 16"
    "sk_open X key n (doc_aad l context) c t = Some p"
    using assms(1) unfolding state_aead_ok_def by blast
  have f: "f = DOC_MAGIC @ [DOC_VERSION, label_id l] @ n @ c @ t"
    using assms(3) k ct(1) lim by (simp add: doc_seal_def seal_detached_def)
  define h where "h = DOC_MAGIC @ [DOC_VERSION, label_id l] @ n"
  have h: "length h = 30" "f = h @ c @ t" using assms(2) by (simp_all add: h_def f)
  have "drop 30 (take (length f - 16) f) = c" "drop (length f - 16) f = t" "length f = 46 + length p"
    using h ct(2,3) by simp_all
  moreover have "take 24 (drop 6 f) = n" "take 4 f = DOC_MAGIC" "f ! 4 = DOC_VERSION" "f ! 5 = label_id l"
    using assms(2) by (simp_all add: f nth_append)
  ultimately show "read_document X cell l context (Some f) = Inr p" "l' \<noteq> l \<Longrightarrow> doc_open X cell' l' context' f = Inl (WrongLabel (label_id l') (label_id l))"
    using k ct(4) lim
    by (simp_all add: read_document_def doc_open_def DOC_HEADER_LEN_def NONCE_BYTES_def TAG_BYTES_def open_detached_def label_id_inj)
qed

section \<open>What a file looks like\<close>

definition LOG_MAGIC :: bytes where "LOG_MAGIC = str_bytes ''MSL1''"

datatype sniffed = SMissing | SEmpty | SDocument u8 | SLog u8 | SPlain

definition sniff :: "bytes option \<Rightarrow> sniffed" where
  "sniff file =
     (case file of
        None \<Rightarrow> SMissing
      | Some f \<Rightarrow>
          let head = take 6 f in
          if head = [] then SEmpty
          else if length head = 6 \<and> take 4 head = DOC_MAGIC then SDocument (head ! 5)
          else if length head = 6 \<and> take 4 head = LOG_MAGIC then SLog (head ! 5)
          else SPlain)"

end
