(* ===== verification/State_Log.thy ===== *)
theory State_Log
  imports State_Crypto
begin

text \<open>
  The encrypted record log of \<^verbatim>\<open>state_crypto/log.rs\<close>: the streaming reader that drops a torn tail, the writer that cuts it
  off before it appends, rewriting through a staged file with shredding of the old one, and the adoption of a staged
  file after a crash. A file is its content; record numbers and offsets are natural numbers. Reading an open file does
  not fail; the outcomes of creating, cutting and writing are arguments.
\<close>

section \<open>Format\<close>

definition LOG_VERSION :: u8 where "LOG_VERSION = 1"
definition LOG_HEADER_LEN :: nat where "LOG_HEADER_LEN = 4 + 1 + 1 + 16"
definition MIN_BODY :: nat where "MIN_BODY = NONCE_BYTES + TAG_BYTES"

record log_core =
  lc_key :: bytes
  lc_label :: state_label
  lc_salt :: bytes

definition core_new :: "skext \<Rightarrow> key_cell \<Rightarrow> state_label \<Rightarrow> bytes \<Rightarrow> state_error + log_core" where
  "core_new X cell l salt =
     (case doc_key X cell l of
        Inl err \<Rightarrow> Inl err
      | Inr key \<Rightarrow> Inr \<lparr>lc_key = sk_hkdf X (Some salt) key LABEL_STATE_LOG_FILE, lc_label = l, lc_salt = salt\<rparr>)"

definition max_body :: "log_core \<Rightarrow> nat" where
  "max_body c = NONCE_BYTES + max_record_bytes (lc_label c) + TAG_BYTES"

definition log_header :: "log_core \<Rightarrow> bytes" where
  "log_header c = LOG_MAGIC @ [LOG_VERSION, label_id (lc_label c)] @ lc_salt c"

definition log_aad :: "log_core \<Rightarrow> nat \<Rightarrow> bytes" where
  "log_aad c seq = LOG_MAGIC @ [LOG_VERSION, label_id (lc_label c)] @ lc_salt c @ be_bytes 8 seq"

text \<open>The body has at least \<^const>\<open>MIN_BODY\<close> bytes.\<close>

definition open_body :: "skext \<Rightarrow> log_core \<Rightarrow> nat \<Rightarrow> bytes \<Rightarrow> state_error + bytes" where
  "open_body X c seq body =
     (let n = take NONCE_BYTES body; tag_at = length body - TAG_BYTES in
      if drop 16 n \<noteq> be_bytes 8 seq then Inl Authentication
      else open_detached X (lc_key c) n (log_aad c seq) (drop NONCE_BYTES (take tag_at body)) (drop tag_at body))"

definition parse_header :: "bytes \<Rightarrow> state_label \<Rightarrow> state_error + bytes" where
  "parse_header h l =
     (if take 4 h \<noteq> LOG_MAGIC then Inl NotProtected
      else if h ! 4 \<noteq> LOG_VERSION then Inl (UnsupportedVersion (h ! 4))
      else if h ! 5 \<noteq> label_id l then Inl (WrongLabel (label_id l) (h ! 5))
      else Inr (drop 6 h))"

definition rest_is_zero :: "bytes \<Rightarrow> bool" where
  "rest_is_zero b = list_all (\<lambda>x. x = 0) b"

section \<open>Reader\<close>

record log_reader =
  lr_file :: bytes
  lr_core :: "log_core option"
  lr_seq :: nat
  lr_offset :: nat
  lr_torn :: "nat option"
  lr_done :: bool

definition reader_open :: "skext \<Rightarrow> key_cell \<Rightarrow> state_label \<Rightarrow> bytes option \<Rightarrow> state_error + log_reader option" where
  "reader_open X cell l file =
     (case file of
        None \<Rightarrow> Inr None
      | Some f \<Rightarrow>
          if f = [] then Inr (Some \<lparr>lr_file = f, lr_core = None, lr_seq = 0, lr_offset = 0, lr_torn = None, lr_done = True\<rparr>)
          else if length f < LOG_HEADER_LEN then
            (let n = min (length f) 4 in Inl (if take n f = take n LOG_MAGIC then Truncated else NotProtected))
          else
            (case parse_header (take LOG_HEADER_LEN f) l of
               Inl err \<Rightarrow> Inl err
             | Inr salt \<Rightarrow>
                 (case core_new X cell l salt of
                    Inl err \<Rightarrow> Inl err
                  | Inr c \<Rightarrow>
                      Inr (Some \<lparr>lr_file = f, lr_core = Some c, lr_seq = 0, lr_offset = LOG_HEADER_LEN, lr_torn = None, lr_done = False\<rparr>))))"

definition next_record :: "skext \<Rightarrow> log_reader \<Rightarrow> log_reader \<times> (state_error + bytes option)" where
  "next_record X r =
     (case lr_core r of
        None \<Rightarrow> (r\<lparr>lr_done := True\<rparr>, Inr None)
      | Some c \<Rightarrow>
          if lr_done r then (r, Inr None)
          else
            let f = lr_file r; off = lr_offset r; remaining = length f - off;
                tear = (r\<lparr>lr_torn := Some off, lr_done := True\<rparr>, Inr None);
                fail = (\<lambda>err. (r\<lparr>lr_done := True\<rparr>, Inl err))
            in
              if remaining = 0 then (r\<lparr>lr_done := True\<rparr>, Inr None)
              else if remaining < 4 then tear
              else
                let body_len = le_val (take 4 (drop off f)) in
                if \<not> (MIN_BODY \<le> body_len \<and> body_len \<le> max_body c) then
                  (if body_len = 0 \<and> rest_is_zero (drop (off + 4) f) then tear else fail (Corrupt off))
                else if remaining < 4 + body_len then tear
                else
                  (case open_body X c (lr_seq r) (take body_len (drop (off + 4) f)) of
                     Inr plain \<Rightarrow> (r\<lparr>lr_seq := Suc (lr_seq r), lr_offset := off + 4 + body_len\<rparr>, Inr (Some plain))
                   | Inl err \<Rightarrow> if off + 4 + body_len = length f \<and> 0 < lr_seq r then tear else fail err))"

lemma next_record_some:
  assumes "next_record X r = (r', Inr (Some p))"
  shows "lr_file r' = lr_file r" "lr_offset r + 44 \<le> lr_offset r'" "lr_offset r' \<le> length (lr_file r)" "lr_seq r' = Suc (lr_seq r)"
  using assms by (auto simp: next_record_def Let_def MIN_BODY_def NONCE_BYTES_def TAG_BYTES_def split: option.splits if_splits sum.splits)

text \<open>Reading to the end: the records, and the error that ended it if one did.\<close>

function read_records :: "skext \<Rightarrow> log_reader \<Rightarrow> bytes list \<Rightarrow> log_reader \<times> bytes list \<times> state_error option" where
  "read_records X r acc =
     (case next_record X r of
        (r, Inr (Some p)) \<Rightarrow> read_records X r (acc @ [p])
      | (r, Inr None) \<Rightarrow> (r, acc, None)
      | (r, Inl err) \<Rightarrow> (r, acc, Some err))"
  by pat_completeness auto
termination
proof (relation "measure (\<lambda>(X, r, acc). length (lr_file r) - lr_offset r)")
  fix X :: skext and r r' :: log_reader and p and acc :: "bytes list" and y and z :: "bytes option"
  assume a: "(r', y) = next_record X r" "y = Inr z" "z = Some p"
  show "((X, r', acc @ [p]), X, r, acc) \<in> measure (\<lambda>(X, r, acc). length (lr_file r) - lr_offset r)"
    using next_record_some [of X r r' p] a by simp
qed simp

declare read_records.simps [simp del]

definition read_log :: "skext \<Rightarrow> key_cell \<Rightarrow> state_label \<Rightarrow> bytes option \<Rightarrow> state_error + bytes list \<times> nat option \<times> state_error option" where
  "read_log X cell l file =
     (case reader_open X cell l file of
        Inl err \<Rightarrow> Inl err
      | Inr None \<Rightarrow> Inr ([], None, None)
      | Inr (Some r) \<Rightarrow> (case read_records X r [] of (r, rs, err) \<Rightarrow> Inr (rs, lr_torn r, err)))"

section \<open>Writer\<close>

record log_writer =
  lw_core :: log_core
  lw_seq :: nat
  lw_end :: nat
  lw_pos :: nat

text \<open>What creating a restricted file leaves, how cutting ends, and how a write ends: the bytes written before it failed,
  and whether the cut and the seek that follow succeed.\<close>

datatype create_outcome = Created | KeptOld | Removed | CreatedPartly nat
datatype cut_outcome = CutDone | CutFailed | CutUnsynced
datatype write_outcome = Written | WriteFailed nat bool bool

record open_io =
  oi_dir :: bool
  oi_create :: create_outcome
  oi_reopen :: bool
  oi_cut :: cut_outcome

definition create_file ::
  "skext \<Rightarrow> key_cell \<Rightarrow> state_label \<Rightarrow> bytes \<Rightarrow> open_io \<Rightarrow> bytes option \<Rightarrow> bytes option \<times> (state_error + log_writer)" where
  "create_file X cell l salt w file =
     (if \<not> oi_dir w then (file, Inl StateIo)
      else
        (case core_new X cell l salt of
           Inl err \<Rightarrow> (file, Inl err)
         | Inr c \<Rightarrow>
             (case oi_create w of
                KeptOld \<Rightarrow> (file, Inl StateIo)
              | Removed \<Rightarrow> (None, Inl StateIo)
              | CreatedPartly n \<Rightarrow> (Some (take n (log_header c)), Inl StateIo)
              | Created \<Rightarrow>
                  (Some (log_header c),
                   if oi_reopen w then Inr \<lparr>lw_core = c, lw_seq = 0, lw_end = LOG_HEADER_LEN, lw_pos = length (log_header c)\<rparr>
                   else Inl StateIo))))"

function scan_loop ::
  "log_core \<Rightarrow> bytes \<Rightarrow> nat \<Rightarrow> nat \<Rightarrow> (nat \<times> nat) option \<Rightarrow> (nat \<times> nat) option \<Rightarrow>
     state_error + nat \<times> nat \<times> (nat \<times> nat) option \<times> (nat \<times> nat) option" where
  "scan_loop c f off n lst prev =
     (if length f - off < 4 then Inr (off, n, lst, prev)
      else
        let body_len = le_val (take 4 (drop off f)) in
        if \<not> (MIN_BODY \<le> body_len \<and> body_len \<le> max_body c) then
          (if body_len = 0 \<and> rest_is_zero (drop (off + 4) f) then Inr (off, n, lst, prev) else Inl (Corrupt off))
        else if length f - off < 4 + body_len then Inr (off, n, lst, prev)
        else scan_loop c f (off + 4 + body_len) (Suc n) (Some (off, body_len)) lst)"
  by pat_completeness auto
termination by (relation "measure (\<lambda>(c, f, off, n, lst, prev). length f - off)") auto

declare scan_loop.simps [simp del]

definition scan :: "skext \<Rightarrow> log_core \<Rightarrow> bytes \<Rightarrow> state_error + nat \<times> nat" where
  "scan X c f =
     (case scan_loop c f LOG_HEADER_LEN 0 None None of
        Inl err \<Rightarrow> Inl err
      | Inr (off, n, None, prev) \<Rightarrow> Inr (n, off)
      | Inr (off, n, Some (o1, len), prev) \<Rightarrow>
          if isl (open_body X c (n - 1) (take len (drop (o1 + 4) f))) then
            (case prev of
               None \<Rightarrow> Inl Authentication
             | Some (o0, plen) \<Rightarrow>
                 if isl (open_body X c (n - 2) (take plen (drop (o0 + 4) f))) then Inl Authentication else Inr (n - 1, o1))
          else Inr (n, off))"

definition open_append ::
  "skext \<Rightarrow> key_cell \<Rightarrow> state_label \<Rightarrow> bytes \<Rightarrow> open_io \<Rightarrow> bytes option \<Rightarrow> bytes option \<times> (state_error + log_writer)" where
  "open_append X cell l salt w file =
     (if \<not> oi_dir w then (file, Inl StateIo)
      else
        let f = (case file of None \<Rightarrow> [] | Some f \<Rightarrow> f) in
        if length f < LOG_HEADER_LEN then
          (let n = min (length f) 4 in
           if 0 < length f \<and> take n f \<noteq> take n LOG_MAGIC then (file, Inl NotProtected) else create_file X cell l salt w file)
        else if \<not> oi_reopen w then (file, Inl StateIo)
        else
          (case parse_header (take LOG_HEADER_LEN f) l of
             Inl err \<Rightarrow> (file, Inl err)
           | Inr salt \<Rightarrow>
               (case core_new X cell l salt of
                  Inl err \<Rightarrow> (file, Inl err)
                | Inr c \<Rightarrow>
                    (case scan X c f of
                       Inl err \<Rightarrow> (file, Inl err)
                     | Inr (n, valid_len) \<Rightarrow>
                         let wr = \<lparr>lw_core = c, lw_seq = n, lw_end = valid_len, lw_pos = valid_len\<rparr> in
                         if valid_len < length f then
                           (case oi_cut w of
                              CutDone \<Rightarrow> (Some (take valid_len f), Inr wr)
                            | CutFailed \<Rightarrow> (file, Inl StateIo)
                            | CutUnsynced \<Rightarrow> (Some (take valid_len f), Inl StateIo))
                         else (file, Inr wr)))))"

definition write_at :: "nat \<Rightarrow> bytes \<Rightarrow> bytes \<Rightarrow> bytes" where
  "write_at pos b f = take pos f @ b @ drop (pos + length b) f"

text \<open>\<open>rnd\<close> is the random half of the nonce.\<close>

definition frame :: "skext \<Rightarrow> log_core \<Rightarrow> nat \<Rightarrow> bytes \<Rightarrow> bytes \<Rightarrow> state_error + bytes" where
  "frame X c seq rnd rec =
     (let n = rnd @ be_bytes 8 seq in
      case seal_detached X (lc_key c) n (log_aad c seq) rec of
        Inl err \<Rightarrow> Inl err
      | Inr (ct, tag) \<Rightarrow> Inr (le_bytes 4 (NONCE_BYTES + length rec + TAG_BYTES) @ n @ ct @ tag))"

definition log_append ::
  "skext \<Rightarrow> bytes \<Rightarrow> write_outcome \<Rightarrow> bytes \<Rightarrow> bytes \<times> log_writer \<Rightarrow> (bytes \<times> log_writer) \<times> (state_error + unit)" where
  "log_append X rnd w rec s =
     (case s of (f, wr) \<Rightarrow>
        if max_record_bytes (lc_label (lw_core wr)) < length rec
        then (s, Inl (TooLarge (length rec) (max_record_bytes (lc_label (lw_core wr)))))
        else
          (case frame X (lw_core wr) (lw_seq wr) rnd rec of
             Inl err \<Rightarrow> (s, Inl err)
           | Inr fr \<Rightarrow>
               (case w of
                  Written \<Rightarrow>
                    ((write_at (lw_pos wr) fr f,
                      wr\<lparr>lw_seq := Suc (lw_seq wr), lw_end := lw_end wr + length fr, lw_pos := lw_pos wr + length fr\<rparr>), Inr ())
                | WriteFailed n tr sk \<Rightarrow>
                    let f = write_at (lw_pos wr) (take n fr) f;
                        f = (if tr then take (lw_end wr) f else f)
                    in ((f, wr\<lparr>lw_pos := (if sk then lw_end wr else lw_pos wr + min n (length fr))\<rparr>), Inl StateIo))))"

section \<open>Rewriting\<close>

text \<open>
  How overwriting the old file with random bytes ends: done, refused before anything was written, or broken off (or not
  flushed) after \<open>fill\<close> was written.
\<close>

datatype shred_outcome = Shredded bytes | ShredRefused | ShredBroken bytes

record rewrite_io =
  ri_salt :: bytes
  ri_open :: open_io
  ri_rnd :: "nat \<Rightarrow> bytes"
  ri_write :: "nat \<Rightarrow> write_outcome"
  ri_sync :: bool
  ri_fsync :: bool
  ri_shred :: shred_outcome
  ri_rename :: bool
  ri_remove :: bool

fun rewrite_append :: "skext \<Rightarrow> rewrite_io \<Rightarrow> nat \<Rightarrow> bytes list \<Rightarrow> bytes \<times> log_writer \<Rightarrow> (bytes \<times> log_writer) \<times> bool" where
  "rewrite_append X w i [] s = (s, True)"
| "rewrite_append X w i (rec # recs) s =
     (case log_append X (ri_rnd w i) (ri_write w i) rec s of
        (s, Inl _) \<Rightarrow> (s, False)
      | (s, Inr _) \<Rightarrow> rewrite_append X w (Suc i) recs s)"

text \<open>\<^verbatim>\<open>begin\<close>, the appends, \<^verbatim>\<open>finish\<close> and the flush: the staged file, and whether it may be moved into place.\<close>

definition stage_log :: "skext \<Rightarrow> key_cell \<Rightarrow> state_label \<Rightarrow> rewrite_io \<Rightarrow> bytes list \<Rightarrow> bytes option \<Rightarrow> bytes option \<times> bool" where
  "stage_log X cell l w recs tmp =
     (case create_file X cell l (ri_salt w) (ri_open w) tmp of
        (tmp, Inl _) \<Rightarrow> (tmp, False)
      | (tmp, Inr wr) \<Rightarrow>
          (case rewrite_append X w 0 recs (case tmp of None \<Rightarrow> [] | Some f \<Rightarrow> f, wr) of
             ((f, wr), ok) \<Rightarrow>
               if ok \<and> ri_sync w then (Some f, ri_fsync w) else (if ri_remove w then None else Some f, False)))"

definition commit_log :: "rewrite_io \<Rightarrow> bytes option \<Rightarrow> bytes \<Rightarrow> (bytes option \<times> bytes option) \<times> bool" where
  "commit_log w dest staged =
     (if ri_rename w then ((Some staged, None), True) else ((dest, if ri_remove w then None else Some staged), False))"

definition shred :: "bytes \<Rightarrow> bytes \<Rightarrow> bytes" where
  "shred f fill = take 6 f @ take (length f - 6) fill @ drop (6 + length fill) f"

definition commit_shredding :: "rewrite_io \<Rightarrow> bytes option \<Rightarrow> bytes \<Rightarrow> (bytes option \<times> bytes option) \<times> bool" where
  "commit_shredding w dest staged =
     (let moved = (\<lambda>dest. if ri_rename w then ((Some staged, None), True) else ((dest, Some staged), False));
          dropped = (if ri_remove w then None else Some staged)
      in case dest of
           None \<Rightarrow> moved None
         | Some f \<Rightarrow>
             (case ri_shred w of
                ShredRefused \<Rightarrow> ((Some f, dropped), False)
              | ShredBroken fill \<Rightarrow> ((Some (shred f fill), dropped), False)
              | Shredded fill \<Rightarrow> moved (Some (shred f fill))))"

definition rewrite_log ::
  "skext \<Rightarrow> key_cell \<Rightarrow> state_label \<Rightarrow> rewrite_io \<Rightarrow> bytes list \<Rightarrow> bytes option \<times> bytes option \<Rightarrow> (bytes option \<times> bytes option) \<times> bool" where
  "rewrite_log X cell l w recs d =
     (case d of (dest, tmp) \<Rightarrow>
        case stage_log X cell l w recs tmp of
          (Some f, True) \<Rightarrow> commit_shredding w dest f
        | (tmp, _) \<Rightarrow> ((dest, tmp), False))"

definition adopt_staged_log :: "skext \<Rightarrow> key_cell \<Rightarrow> state_label \<Rightarrow> bool \<Rightarrow> bytes option \<Rightarrow> bool" where
  "adopt_staged_log X cell l renamed tmp =
     (case reader_open X cell l tmp of
        Inr (Some r) \<Rightarrow> (case read_records X r [] of (r, _, err) \<Rightarrow> err = None \<and> lr_torn r = None \<and> renamed)
      | _ \<Rightarrow> False)"

section \<open>Frames are read back\<close>

definition rec_ok :: "log_core \<Rightarrow> bytes \<times> bytes \<Rightarrow> bool" where
  "rec_ok c r \<longleftrightarrow> length (fst r) = 16 \<and> length (snd r) \<le> max_record_bytes (lc_label c)"

fun frames :: "skext \<Rightarrow> log_core \<Rightarrow> nat \<Rightarrow> (bytes \<times> bytes) list \<Rightarrow> bytes" where
  "frames X c n [] = []"
| "frames X c n ((rnd, rec) # rs) = (case frame X c n rnd rec of Inl _ \<Rightarrow> [] | Inr fr \<Rightarrow> fr) @ frames X c (Suc n) rs"

definition log_image :: "skext \<Rightarrow> log_core \<Rightarrow> (bytes \<times> bytes) list \<Rightarrow> bytes" where
  "log_image X c rs = log_header c @ frames X c 0 rs"

definition reader_at :: "bytes \<Rightarrow> log_core \<Rightarrow> nat \<Rightarrow> nat \<Rightarrow> log_reader" where
  "reader_at f c n off = \<lparr>lr_file = f, lr_core = Some c, lr_seq = n, lr_offset = off, lr_torn = None, lr_done = False\<rparr>"

lemma log_magic_length [simp]: "length LOG_MAGIC = 4"
  by (simp add: LOG_MAGIC_def str_bytes_def)

lemma length_log_header [simp]: "length (lc_salt c) = 16 \<Longrightarrow> length (log_header c) = 22"
  by (simp add: log_header_def)

lemma le4: "v < 2 ^ 32 \<Longrightarrow> le_val (le_bytes 4 v) = v"
  by (simp add: le_val_def le_bytes_def be_val_be_bytes)

lemma frame_ok:
  assumes "state_aead_ok X" and "rec_ok c (rnd, rec)"
  obtains body where "frame X c n rnd rec = Inr (le_bytes 4 (length body) @ body)" "length body = 40 + length rec"
    "open_body X c n body = Inr rec"
proof -
  obtain ct t where ct: "sk_seal X (lc_key c) (rnd @ be_bytes 8 n) (log_aad c n) rec = Some (ct, t)" "length ct = length rec" "length t = 16"
    "sk_open X (lc_key c) (rnd @ be_bytes 8 n) (log_aad c n) ct t = Some rec"
    using assms(1) unfolding state_aead_ok_def by blast
  let ?b = "(rnd @ be_bytes 8 n) @ ct @ t"
  have l: "length rnd = 16" using assms(2) by (simp add: rec_ok_def)
  then have n: "length (rnd @ be_bytes 8 n) = 24" by simp
  then have "take 24 ?b = rnd @ be_bytes 8 n" "drop 24 (take (length ?b - 16) ?b) = ct" "drop (length ?b - 16) ?b = t"
    using ct(2,3) by (simp_all only: take_append drop_append) simp_all
  then have "open_body X c n ?b = Inr rec"
    using l ct(4) by (simp add: open_body_def NONCE_BYTES_def TAG_BYTES_def open_detached_def Let_def)
  moreover have "frame X c n rnd rec = Inr (le_bytes 4 (length ?b) @ ?b)" "length ?b = 40 + length rec"
    using ct l by (simp_all add: frame_def seal_detached_def NONCE_BYTES_def TAG_BYTES_def)
  ultimately show ?thesis using that by blast
qed

text \<open>What lies at an offset: no further record, damage, or a record with a body of some length.\<close>

datatype slot = NoMore | Damage | Body nat

definition slot_at :: "log_core \<Rightarrow> bytes \<Rightarrow> nat \<Rightarrow> slot" where
  "slot_at c f off =
     (let n = le_val (take 4 (drop off f)) in
      if length f - off < 4 then NoMore
      else if \<not> (MIN_BODY \<le> n \<and> n \<le> max_body c) then (if n = 0 \<and> rest_is_zero (drop (off + 4) f) then NoMore else Damage)
      else if length f - off < 4 + n then NoMore else Body n)"

definition body_at :: "bytes \<Rightarrow> nat \<Rightarrow> nat \<Rightarrow> bytes" where
  "body_at f off n = take n (drop (off + 4) f)"

lemma slot_BodyD: "slot_at c f off = Body n \<Longrightarrow> MIN_BODY \<le> n \<and> n \<le> max_body c \<and> off + 4 + n \<le> length f"
  by (auto simp: slot_at_def Let_def split: if_splits)

lemma next_record_slot:
  "next_record X (reader_at f c n off) =
     (case slot_at c f off of
        NoMore \<Rightarrow> ((reader_at f c n off)\<lparr>lr_torn := if length f - off = 0 then None else Some off, lr_done := True\<rparr>, Inr None)
      | Damage \<Rightarrow> ((reader_at f c n off)\<lparr>lr_done := True\<rparr>, Inl (Corrupt off))
      | Body k \<Rightarrow>
          (case open_body X c n (body_at f off k) of
             Inr p \<Rightarrow> (reader_at f c (Suc n) (off + 4 + k), Inr (Some p))
           | Inl err \<Rightarrow>
               if off + 4 + k = length f \<and> 0 < n then ((reader_at f c n off)\<lparr>lr_torn := Some off, lr_done := True\<rparr>, Inr None)
               else ((reader_at f c n off)\<lparr>lr_done := True\<rparr>, Inl err)))"
  by (auto simp: next_record_def slot_at_def reader_at_def body_at_def Let_def split: sum.split)

lemma scan_loop_slot:
  "scan_loop c f off n lst prev =
     (case slot_at c f off of
        NoMore \<Rightarrow> Inr (off, n, lst, prev)
      | Damage \<Rightarrow> Inl (Corrupt off)
      | Body k \<Rightarrow> scan_loop c f (off + 4 + k) (Suc n) (Some (off, k)) lst)"
  by (subst scan_loop.simps) (auto simp: slot_at_def Let_def)

lemma body_small: "n \<le> max_body c \<Longrightarrow> n < 2 ^ 32"
  using max_record_bytes_le [of "lc_label c"] by (simp add: max_body_def NONCE_BYTES_def TAG_BYTES_def)

lemma slot_at_body:
  assumes "f = pre @ le_bytes 4 (length body) @ body @ rest" "MIN_BODY \<le> length body" "length body \<le> max_body c"
  shows "slot_at c f (length pre) = Body (length body)" and "body_at f (length pre) (length body) = body"
  using assms le4 [OF body_small [OF assms(3)]] by (simp_all add: slot_at_def body_at_def)

lemma reader_at_simps [simp]:
  "lr_file (reader_at f c n off) = f" "lr_core (reader_at f c n off) = Some c" "lr_seq (reader_at f c n off) = n"
  "lr_offset (reader_at f c n off) = off" "lr_torn (reader_at f c n off) = None" "lr_done (reader_at f c n off) = False"
  "(reader_at f c n off)\<lparr>lr_torn := None\<rparr> = reader_at f c n off"
  by (simp_all add: reader_at_def)

lemma read_records_slot:
  "read_records X (reader_at f c n off) acc =
     (case slot_at c f off of
        NoMore \<Rightarrow> ((reader_at f c n off)\<lparr>lr_torn := if length f - off = 0 then None else Some off, lr_done := True\<rparr>, acc, None)
      | Damage \<Rightarrow> ((reader_at f c n off)\<lparr>lr_done := True\<rparr>, acc, Some (Corrupt off))
      | Body k \<Rightarrow>
          (case open_body X c n (body_at f off k) of
             Inr p \<Rightarrow> read_records X (reader_at f c (Suc n) (off + 4 + k)) (acc @ [p])
           | Inl err \<Rightarrow>
               if off + 4 + k = length f \<and> 0 < n then ((reader_at f c n off)\<lparr>lr_torn := Some off, lr_done := True\<rparr>, acc, None)
               else ((reader_at f c n off)\<lparr>lr_done := True\<rparr>, acc, Some err)))"
  by (subst read_records.simps) (auto simp: next_record_slot split: slot.split sum.split)

lemma read_frames:
  assumes "state_aead_ok X"
  shows "list_all (rec_ok c) rs \<Longrightarrow> f = pre @ frames X c n rs @ rest \<Longrightarrow>
    read_records X (reader_at f c n (length pre)) acc =
      read_records X (reader_at f c (n + length rs) (length pre + length (frames X c n rs))) (acc @ map snd rs)"
proof (induction rs arbitrary: n pre acc)
  case (Cons r rs)
  obtain rnd rec where r: "r = (rnd, rec)" by (cases r)
  have ok: "rec_ok c (rnd, rec)" using Cons.prems(1) r by simp
  obtain body where b: "frame X c n rnd rec = Inr (le_bytes 4 (length body) @ body)" "length body = 40 + length rec" "open_body X c n body = Inr rec"
    by (rule frame_ok [OF assms ok])
  have f: "f = pre @ le_bytes 4 (length body) @ body @ frames X c (Suc n) rs @ rest" using Cons.prems(2) by (simp add: r b(1))
  have "read_records X (reader_at f c n (length pre)) acc =
      read_records X (reader_at f c (Suc n) (length (pre @ le_bytes 4 (length body) @ body))) (acc @ [rec])"
    using slot_at_body [OF f, of c] b(2,3) ok
    by (subst read_records_slot) (simp add: MIN_BODY_def max_body_def NONCE_BYTES_def TAG_BYTES_def rec_ok_def add.assoc)
  also have "\<dots> = read_records X (reader_at f c (Suc n + length rs)
      (length (pre @ le_bytes 4 (length body) @ body) + length (frames X c (Suc n) rs))) ((acc @ [rec]) @ map snd rs)"
    by (rule Cons.IH) (use Cons.prems(1) f in simp_all)
  finally show ?case by (simp add: r b(1) add.assoc)
qed simp

text \<open>The tails a crash leaves: part of a record, or zeros.\<close>

definition torn_tail :: "log_core \<Rightarrow> bytes \<Rightarrow> bool" where
  "torn_tail c t \<longleftrightarrow>
     (\<exists>body k. MIN_BODY \<le> length body \<and> length body \<le> max_body c \<and> k < 4 + length body \<and> t = take k (le_bytes 4 (length body) @ body)) \<or>
     (\<exists>z. t = replicate z 0)"

lemma le_val_zeros: "le_val (replicate n 0) = 0"
proof -
  have "be_val (replicate n 0) = 0" by (induction n) (simp_all add: replicate_append_same [symmetric])
  then show ?thesis by (simp add: le_val_def)
qed

lemma slot_at_tail:
  assumes "torn_tail c t"
  shows "slot_at c (pre @ t) (length pre) = NoMore"
  using assms unfolding torn_tail_def
proof (elim disjE exE conjE)
  fix body k
  assume b: "MIN_BODY \<le> length body" "length body \<le> max_body c" "k < 4 + length body" "t = take k (le_bytes 4 (length body) @ body)"
  show ?thesis
  proof (cases "k < 4")
    case True
    then show ?thesis using b(4) by (simp add: slot_at_def)
  next
    case False
    then have "take 4 t = le_bytes 4 (length body)" using b(4) by (simp add: min_def)
    moreover have "length t < 4 + length body" using b(3,4) by simp
    ultimately show ?thesis using b(1,2) le4 [OF body_small [OF b(2)]] by (simp add: slot_at_def Let_def)
  qed
next
  fix z assume "t = replicate z 0"
  then show ?thesis by (simp add: slot_at_def Let_def rest_is_zero_def list_all_iff le_val_zeros MIN_BODY_def NONCE_BYTES_def)
qed

lemma read_image:
  assumes "state_aead_ok X" "list_all (rec_ok c) rs" "torn_tail c t" "f = pre @ frames X c n rs @ t"
  shows "read_records X (reader_at f c n (length pre)) acc =
    ((reader_at f c (n + length rs) (length f - length t))\<lparr>lr_torn := if t = [] then None else Some (length f - length t), lr_done := True\<rparr>,
     acc @ map snd rs, None)"
proof -
  have "slot_at c f (length (pre @ frames X c n rs)) = NoMore" using slot_at_tail [OF assms(3), of "pre @ frames X c n rs"] assms(4) by simp
  then have "read_records X (reader_at f c (n + length rs) (length (pre @ frames X c n rs))) (acc @ map snd rs) =
      ((reader_at f c (n + length rs) (length f - length t))\<lparr>lr_torn := if t = [] then None else Some (length f - length t), lr_done := True\<rparr>,
       acc @ map snd rs, None)"
    using assms(4) by (subst read_records_slot) simp
  then show ?thesis using read_frames [OF assms(1,2,4), of acc] by simp
qed

section \<open>The writer finds what the reader found\<close>

lemma read_bounds:
  "read_records X (reader_at f c n off) acc = (r, rs, err) \<Longrightarrow> off \<le> length f \<Longrightarrow> off \<le> lr_offset r \<and> lr_offset r \<le> length f"
proof (induction "length f - off" arbitrary: n off acc rule: less_induct)
  case less
  show ?case
  proof (cases "slot_at c f off")
    case (Body k)
    note b = slot_BodyD [OF Body]
    show ?thesis
    proof (cases "open_body X c n (body_at f off k)")
      case (Inr p)
      then have "read_records X (reader_at f c (Suc n) (off + 4 + k)) (acc @ [p]) = (r, rs, err)"
        using less.prems(1) Body by (subst (asm) read_records_slot) simp
      moreover have "length f - (off + 4 + k) < length f - off" using b by linarith
      ultimately show ?thesis using less.hyps b by fastforce
    qed (use less.prems Body in \<open>subst (asm) read_records_slot, auto split: if_splits\<close>)
  qed (use less.prems in \<open>subst (asm) read_records_slot, auto\<close>)+
qed

text \<open>Cutting the file where the reader stopped leaves the same records and a clean end.\<close>

lemma slot_at_take:
  assumes "slot_at c f off = Body k" "off + 4 + k \<le> m" "m \<le> length f"
  shows "slot_at c (take m f) off = Body k" and "body_at (take m f) off k = body_at f off k"
proof -
  have "take 4 (drop off (take m f)) = take 4 (drop off f)" "take k (drop (off + 4) (take m f)) = take k (drop (off + 4) f)"
    using assms(2) by (simp_all add: drop_take min_def)
  then show "slot_at c (take m f) off = Body k" "body_at (take m f) off k = body_at f off k"
    using assms by (auto simp: slot_at_def body_at_def Let_def split: if_splits)
qed

lemma read_cut:
  "read_records X (reader_at f c n off) acc = (r, rs, None) \<Longrightarrow> off \<le> length f \<Longrightarrow> m = lr_offset r \<Longrightarrow>
   read_records X (reader_at (take m f) c n off) acc = ((reader_at (take m f) c (lr_seq r) m)\<lparr>lr_done := True\<rparr>, rs, None)"
proof (induction "length f - off" arbitrary: n off acc rule: less_induct)
  case less
  have m: "off \<le> m" "m \<le> length f" using read_bounds [OF less.prems(1,2)] less.prems(3) by simp_all
  have stop: "read_records X (reader_at (take m f) c n off) acc = ((reader_at (take m f) c n m)\<lparr>lr_done := True\<rparr>, acc, None)" if "m = off"
    using that m by (subst read_records_slot) (simp add: slot_at_def)
  show ?case
  proof (cases "slot_at c f off")
    case NoMore
    then have "r = (reader_at f c n off)\<lparr>lr_torn := if length f - off = 0 then None else Some off, lr_done := True\<rparr>" "rs = acc"
      using less.prems(1) by (subst (asm) read_records_slot, simp)+
    then show ?thesis using stop less.prems(3) by simp
  next
    case Damage
    then show ?thesis using less.prems(1) by (subst (asm) read_records_slot) simp
  next
    case (Body k)
    note b = slot_BodyD [OF Body]
    show ?thesis
    proof (cases "open_body X c n (body_at f off k)")
      case (Inl e)
      then have "r = (reader_at f c n off)\<lparr>lr_torn := Some off, lr_done := True\<rparr>" "rs = acc"
        using less.prems(1) Body by (subst (asm) read_records_slot, simp split: if_splits)+
      then show ?thesis using stop less.prems(3) by simp
    next
      case (Inr p)
      then have rd: "read_records X (reader_at f c (Suc n) (off + 4 + k)) (acc @ [p]) = (r, rs, None)"
        using less.prems(1) Body by (subst (asm) read_records_slot) simp
      have le: "off + 4 + k \<le> m" using read_bounds [OF rd] b less.prems(3) by simp
      have "read_records X (reader_at (take m f) c (Suc n) (off + 4 + k)) (acc @ [p]) = ((reader_at (take m f) c (lr_seq r) m)\<lparr>lr_done := True\<rparr>, rs, None)"
        using less.hyps [OF _ rd _ less.prems(3)] b by auto
      then show ?thesis
        using slot_at_take [OF Body le m(2)] Inr by (subst read_records_slot) simp
    qed
  qed
qed

text \<open>\<open>opens X c f n o\<close>: the last frame seen by the scan is record \<open>n - 1\<close> and opens.\<close>

definition opens :: "skext \<Rightarrow> log_core \<Rightarrow> bytes \<Rightarrow> nat \<Rightarrow> (nat \<times> nat) option \<Rightarrow> bool" where
  "opens X c f n lst \<longleftrightarrow>
     (case lst of None \<Rightarrow> n = 0 | Some (o1, k) \<Rightarrow> 0 < n \<and> \<not> isl (open_body X c (n - 1) (body_at f o1 k)))"

lemma scan_loop_read:
  "read_records X (reader_at f c n off) acc = (r, rs, None) \<Longrightarrow> off \<le> length f \<Longrightarrow> opens X c f n lst \<Longrightarrow>
   (\<exists>lst' prev'. scan_loop c f off n lst prev = Inr (lr_offset r, lr_seq r, lst', prev') \<and> opens X c f (lr_seq r) lst') \<or>
   (\<exists>k prev'. scan_loop c f off n lst prev = Inr (length f, Suc (lr_seq r), Some (lr_offset r, k), prev') \<and> opens X c f (lr_seq r) prev' \<and>
      0 < lr_seq r \<and> isl (open_body X c (lr_seq r) (body_at f (lr_offset r) k)))"
proof (induction "length f - off" arbitrary: n off acc lst prev rule: less_induct)
  case less
  show ?case
  proof (cases "slot_at c f off")
    case NoMore
    then have "r = (reader_at f c n off)\<lparr>lr_torn := if length f - off = 0 then None else Some off, lr_done := True\<rparr>"
      using less.prems(1) by (subst (asm) read_records_slot) simp
    then show ?thesis using NoMore less.prems(3) by (subst scan_loop_slot) (simp add: reader_at_def)
  next
    case Damage
    then show ?thesis using less.prems(1) by (subst (asm) read_records_slot) simp
  next
    case (Body k)
    note b = slot_BodyD [OF Body]
    show ?thesis
    proof (cases "open_body X c n (body_at f off k)")
      case (Inl e)
      then have r: "r = (reader_at f c n off)\<lparr>lr_torn := Some off, lr_done := True\<rparr>" "off + 4 + k = length f" "0 < n"
        using less.prems(1) Body by (subst (asm) read_records_slot, simp split: if_splits)+
      have "scan_loop c f (length f) (Suc n) (Some (off, k)) lst = Inr (length f, Suc n, Some (off, k), lst)"
        by (subst scan_loop_slot) (simp add: slot_at_def)
      then have "scan_loop c f off n lst prev = Inr (length f, Suc n, Some (off, k), lst)"
        using Body r(2) by (subst scan_loop_slot) simp
      then show ?thesis using r Inl less.prems(3) by simp
    next
      case (Inr p)
      then have rd: "read_records X (reader_at f c (Suc n) (off + 4 + k)) (acc @ [p]) = (r, rs, None)"
        using less.prems(1) Body by (subst (asm) read_records_slot) simp
      have "opens X c f (Suc n) (Some (off, k))" using Inr by (simp add: opens_def)
      moreover have "scan_loop c f off n lst prev = scan_loop c f (off + 4 + k) (Suc n) (Some (off, k)) lst"
        using Body by (subst scan_loop_slot) simp
      moreover have "length f - (off + 4 + k) < length f - off" using b by linarith
      ultimately show ?thesis using less.hyps [OF _ rd, of "Some (off, k)" lst] b by simp
    qed
  qed
qed

lemma scan_read:
  assumes "read_records X (reader_at f c 0 22) [] = (r, rs, None)" "22 \<le> length f"
  shows "scan X c f = Inr (lr_seq r, lr_offset r)"
proof -
  have "opens X c f 0 None" by (simp add: opens_def)
  from scan_loop_read [OF assms this, of None] show ?thesis
    by (auto simp: scan_def LOG_HEADER_LEN_def opens_def body_at_def split: option.splits)
qed

lemma read_seq: "read_records X r acc = (r', rs, err) \<Longrightarrow> \<exists>ps. rs = acc @ ps \<and> lr_seq r' = lr_seq r + length ps \<and> lr_file r' = lr_file r"
proof (induction X r acc arbitrary: r' rs err rule: read_records.induct)
  case (1 X r acc)
  show ?case
  proof (cases "\<exists>q p. next_record X r = (q, Inr (Some p))")
    case True
    then obtain q p where q: "next_record X r = (q, Inr (Some p))" by blast
    then have "read_records X q (acc @ [p]) = (r', rs, err)" using 1(2) by (subst (asm) read_records.simps) simp
    from 1(1) [OF q [symmetric] refl refl this] next_record_some [OF q] show ?thesis by auto
  next
    case False
    then show ?thesis
      using 1(2) by (subst (asm) read_records.simps)
        (auto simp: next_record_def Let_def split: prod.splits option.splits sum.splits if_splits)
  qed
qed

lemma reader_open_header:
  assumes "core_new X cell l salt = Inr c" "length salt = 16"
  shows "reader_open X cell l (Some (log_header c @ b)) = Inr (Some (reader_at (log_header c @ b) c 0 22))"
    and "parse_header (log_header c) l = Inr salt" and "lc_label c = l" and "lc_salt c = salt"
proof -
  have c: "lc_label c = l" "lc_salt c = salt" using assms(1) by (auto simp: core_new_def split: sum.splits)
  then have p: "parse_header (log_header c) l = Inr salt" by (simp add: parse_header_def log_header_def nth_append)
  have "length (log_header c) = 22" using c assms(2) by simp
  then have "take 22 (log_header c @ b) = log_header c" "22 \<le> length (log_header c @ b)" "log_header c @ b \<noteq> []" by auto
  then show "reader_open X cell l (Some (log_header c @ b)) = Inr (Some (reader_at (log_header c @ b) c 0 22))"
    using p assms(1) by (simp add: reader_open_def reader_at_def LOG_HEADER_LEN_def)
  show "parse_header (log_header c) l = Inr salt" "lc_label c = l" "lc_salt c = salt" using p c by simp_all
qed

definition fault_free :: "open_io \<Rightarrow> bool" where
  "fault_free w \<longleftrightarrow> oi_dir w \<and> oi_create w = Created \<and> oi_reopen w \<and> oi_cut w = CutDone"

definition at_end :: "bytes \<Rightarrow> nat \<Rightarrow> log_writer \<Rightarrow> bool" where
  "at_end f n wr \<longleftrightarrow> lw_seq wr = n \<and> lw_end wr = length f \<and> lw_pos wr = length f"

lemma read_empty: "read_records X (reader_at f c 0 (length f)) [] = ((reader_at f c 0 (length f))\<lparr>lr_done := True\<rparr>, [], None)"
  by (subst read_records_slot) (simp add: slot_at_def)

lemma read_nothing: "read_log X cell l None = Inr ([], None, None)" "read_log X cell l (Some []) = Inr ([], None, None)"
  by (simp_all add: read_log_def reader_open_def) (subst read_records.simps, simp add: next_record_def)

lemma reopen_new:
  assumes "core_new X cell l salt = Inr c" "length salt = 16" "fault_free w" "file = None \<or> file = Some []"
  shows "open_append X cell l salt w file = (Some (log_header c), Inr \<lparr>lw_core = c, lw_seq = 0, lw_end = 22, lw_pos = 22\<rparr>)"
    and "read_log X cell l (Some (log_header c)) = Inr ([], None, None)"
proof -
  have l: "length (log_header c) = 22" using reader_open_header(4) [OF assms(1,2)] assms(2) by simp
  then show "open_append X cell l salt w file = (Some (log_header c), Inr \<lparr>lw_core = c, lw_seq = 0, lw_end = 22, lw_pos = 22\<rparr>)"
    using assms(1,3,4) by (auto simp: open_append_def create_file_def fault_free_def LOG_HEADER_LEN_def)
  show "read_log X cell l (Some (log_header c)) = Inr ([], None, None)"
    using reader_open_header(1) [OF assms(1,2), of "[]"] read_empty [of X "log_header c" c] l by (simp add: read_log_def reader_at_def)
qed

lemma reopen_old:
  assumes "read_log X cell l (Some f) = Inr (rs, torn, None)" "f \<noteq> []" "fault_free w"
  obtains m c where "m \<le> length f" "open_append X cell l salt w (Some f) = (Some (take m f), Inr \<lparr>lw_core = c, lw_seq = length rs, lw_end = m, lw_pos = m\<rparr>)"
    "read_log X cell l (Some (take m f)) = Inr (rs, None, None)"
proof -
  obtain salt0 c where c: "22 \<le> length f" "parse_header (take 22 f) l = Inr salt0" "core_new X cell l salt0 = Inr c"
    "reader_open X cell l (Some f) = Inr (Some (reader_at f c 0 22))"
    using assms(1,2) by (auto simp: read_log_def reader_open_def reader_at_def LOG_HEADER_LEN_def Let_def split: if_splits sum.splits)
  obtain r where r: "read_records X (reader_at f c 0 22) [] = (r, rs, None)"
    using assms(1) c(4) by (auto simp: read_log_def split: prod.splits)
  have m: "22 \<le> lr_offset r" "lr_offset r \<le> length f" using read_bounds [OF r c(1)] by simp_all
  have s: "scan X c f = Inr (length rs, lr_offset r)" using scan_read [OF r c(1)] read_seq [OF r] by (auto simp: reader_at_def)
  have "open_append X cell l salt w (Some f) =
      (Some (take (lr_offset r) f), Inr \<lparr>lw_core = c, lw_seq = length rs, lw_end = lr_offset r, lw_pos = lr_offset r\<rparr>)"
    using assms(3) c(1-3) s m(2) by (auto simp: open_append_def fault_free_def LOG_HEADER_LEN_def Let_def)
  moreover have "reader_open X cell l (Some (take (lr_offset r) f)) = Inr (Some (reader_at (take (lr_offset r) f) c 0 22))"
    using c(1-3) m by (auto simp: reader_open_def LOG_HEADER_LEN_def reader_at_def min_def)
  then have "read_log X cell l (Some (take (lr_offset r) f)) = Inr (rs, None, None)"
    using read_cut [OF r c(1) refl] by (simp add: read_log_def reader_at_def)
  ultimately show ?thesis using that m(2) by blast
qed

text \<open>
  C10: opening a log for appending keeps exactly what a reader sees. Whatever bytes the file holds, when reading it ends
  without an error the writer opens it, has counted the records the reader returned, stands right behind them, and the
  file it leaves reads to the same records with nothing torn; for a missing or empty file that is an empty log.
\<close>

theorem reopen_keeps_records:
  assumes "read_log X cell l file = Inr (rs, torn, None)" and "fault_free w" and "core_new X cell l salt = Inr c" and "length salt = 16"
  shows "\<exists>f wr. open_append X cell l salt w file = (Some f, Inr wr) \<and> at_end f (length rs) wr \<and>
    read_log X cell l (Some f) = Inr (rs, None, None)"
proof (cases "file = None \<or> file = Some []")
  case True
  then have "rs = []" using assms(1) read_nothing [of X cell l] by auto
  then show ?thesis
    using reopen_new [OF assms(3,4,2) True] reader_open_header(4) [OF assms(3,4)] assms(4) by (simp add: at_end_def)
next
  case False
  then obtain f where f: "file = Some f" "f \<noteq> []" by auto
  from reopen_old [OF assms(1) [unfolded f(1)] f(2) assms(2), of salt] show ?thesis
    unfolding f(1) at_end_def by (metis length_take log_writer.select_convs(2-4) min.absorb2)
qed

section \<open>Crashes\<close>

lemma frames_append: "frames X c n (rs @ rs') = frames X c n rs @ frames X c (n + length rs) rs'"
  by (induction rs arbitrary: n) auto

lemma frames_Cons:
  assumes "state_aead_ok X" "rec_ok c r"
  obtains body where "frames X c n (r # rs) = le_bytes 4 (length body) @ body @ frames X c (Suc n) rs" "MIN_BODY \<le> length body" "length body \<le> max_body c"
proof -
  obtain rnd rec where r: "r = (rnd, rec)" by (cases r)
  obtain body where "frame X c n rnd rec = Inr (le_bytes 4 (length body) @ body)" "length body = 40 + length rec"
    by (rule frame_ok [OF assms(1) assms(2) [unfolded r], of n])
  then show ?thesis
    using that [of body] assms(2) by (simp add: r MIN_BODY_def max_body_def NONCE_BYTES_def TAG_BYTES_def rec_ok_def)
qed

lemma cut_frames:
  assumes "state_aead_ok X"
  shows "list_all (rec_ok c) rs \<Longrightarrow> n \<le> length (frames X c k rs) \<Longrightarrow>
    \<exists>m t. m \<le> length rs \<and> take n (frames X c k rs) = frames X c k (take m rs) @ t \<and> torn_tail c t \<and>
      (m < length rs \<longrightarrow> n < length (frames X c k (take (Suc m) rs)))"
proof (induction rs arbitrary: n k)
  case Nil
  have "torn_tail c []" unfolding torn_tail_def by (metis replicate_0)
  then show ?case by simp
next
  case (Cons r rs)
  obtain body where b: "frames X c k (r # rs) = le_bytes 4 (length body) @ body @ frames X c (Suc k) rs" "MIN_BODY \<le> length body" "length body \<le> max_body c"
    by (rule frames_Cons [OF assms, of c r k rs]) (use Cons.prems(1) in simp_all)
  have cons: "frames X c k (r # xs) = frames X c k [r] @ frames X c (Suc k) xs" for xs using frames_append [of X c k "[r]" xs] by simp
  then have one: "frames X c k [r] = le_bytes 4 (length body) @ body" using b(1) by (metis append.assoc append_same_eq)
  have more: "frames X c k (r # xs) = le_bytes 4 (length body) @ body @ frames X c (Suc k) xs" for xs unfolding cons [of xs] one by simp
  show ?case
  proof (cases "n < 4 + length body")
    case True
    then have "take n (frames X c k (r # rs)) = take n (le_bytes 4 (length body) @ body)" using b(1) by simp
    moreover have "torn_tail c (take n (le_bytes 4 (length body) @ body))" unfolding torn_tail_def using True b(2,3) by blast
    ultimately show ?thesis using True more [of "[]"] by (intro exI [of _ 0]) (simp add: one)
  next
    case False
    then have "n - (4 + length body) \<le> length (frames X c (Suc k) rs)" using Cons.prems(2) b(1) by simp
    then obtain m t where m: "m \<le> length rs" "take (n - (4 + length body)) (frames X c (Suc k) rs) = frames X c (Suc k) (take m rs) @ t" "torn_tail c t"
      "m < length rs \<longrightarrow> n - (4 + length body) < length (frames X c (Suc k) (take (Suc m) rs))"
      using Cons.IH [of "n - (4 + length body)" "Suc k"] Cons.prems(1) by auto
    have "take n (frames X c k (r # rs)) = frames X c k (take (Suc m) (r # rs)) @ t"
      using m(2) False by (simp add: more)
    then show ?thesis
      using m(1,3,4) False by (intro exI [of _ "Suc m"] exI [of _ t]) (auto simp: more)
  qed
qed

lemma read_log_image:
  assumes "state_aead_ok X" "core_new X cell l salt = Inr c" "length salt = 16" "list_all (rec_ok c) rs" "torn_tail c t"
  shows "read_log X cell l (Some (log_image X c rs @ t)) = Inr (map snd rs, if t = [] then None else Some (length (log_image X c rs)), None)"
proof -
  have h: "length (log_header c) = 22" using reader_open_header(4) [OF assms(2,3)] assms(3) by simp
  have f: "log_image X c rs @ t = log_header c @ frames X c 0 rs @ t" by (simp add: log_image_def)
  from read_image [OF assms(1,4,5) f, of "[]"] h show ?thesis
    using reader_open_header(1) [OF assms(2,3), of "frames X c 0 rs @ t"] by (simp add: read_log_def log_image_def)
qed

lemma scan_image:
  assumes "state_aead_ok X" "core_new X cell l salt = Inr c" "length salt = 16" "list_all (rec_ok c) rs" "torn_tail c t"
  defines "f \<equiv> log_image X c rs @ t"
  shows "scan X c f = Inr (length rs, length (log_image X c rs))" and "parse_header (take LOG_HEADER_LEN f) l = Inr salt"
    and "LOG_HEADER_LEN \<le> length (log_image X c rs)"
proof -
  have h: "length (log_header c) = 22" "parse_header (log_header c) l = Inr salt"
    using reader_open_header(2,4) [OF assms(2,3)] assms(3) by simp_all
  have t: "take 22 f = log_header c" "22 \<le> length (log_image X c rs)" "22 \<le> length f" using h(1) by (simp_all add: f_def log_image_def)
  have f: "f = log_header c @ frames X c 0 rs @ t" by (simp add: f_def log_image_def)
  have "read_records X (reader_at f c 0 22) [] =
    ((reader_at f c (length rs) (length (log_image X c rs)))\<lparr>lr_torn := if t = [] then None else Some (length (log_image X c rs)), lr_done := True\<rparr>,
     map snd rs, None)"
    using read_image [OF assms(1,4,5) f, of "[]"] h(1) by (simp add: f_def)
  from scan_read [OF this t(3)] show "scan X c f = Inr (length rs, length (log_image X c rs))" by simp
  show "parse_header (take LOG_HEADER_LEN f) l = Inr salt" "LOG_HEADER_LEN \<le> length (log_image X c rs)"
    using t h(2) by (simp_all add: LOG_HEADER_LEN_def)
qed

lemma reopen_image:
  assumes "state_aead_ok X" "core_new X cell l salt = Inr c" "length salt = 16" "list_all (rec_ok c) rs" "torn_tail c t" "fault_free w"
  shows "open_append X cell l salt' w (Some (log_image X c rs @ t)) =
    (Some (log_image X c rs), Inr \<lparr>lw_core = c, lw_seq = length rs, lw_end = length (log_image X c rs), lw_pos = length (log_image X c rs)\<rparr>)"
  using scan_image [OF assms(1-5)] assms(2,6) by (auto simp: open_append_def fault_free_def Let_def)

text \<open>Under faults the file is cut to the complete records or left as it is.\<close>

lemma reopen_image_faulty:
  assumes "state_aead_ok X" "core_new X cell l salt = Inr c" "length salt = 16" "list_all (rec_ok c) rs" "torn_tail c t"
    "open_append X cell l salt' w (Some (log_image X c rs @ t)) = (file, r)"
  shows "file = Some (log_image X c rs @ t) \<and> isl r \<or>
    file = Some (log_image X c rs) \<and> (\<forall>wr. r = Inr wr \<longrightarrow> lw_core wr = c \<and> at_end (log_image X c rs) (length rs) wr)"
  using scan_image [OF assms(1-5)] assms(2,6)
  by (auto simp: open_append_def Let_def at_end_def split: if_splits cut_outcome.splits)

lemma torn_take: "torn_tail c t \<Longrightarrow> torn_tail c (take n t)"
  unfolding torn_tail_def by (elim disjE exE conjE) (metis min.strict_coboundedI2 take_take, metis take_replicate)

lemma read_cut_log:
  assumes "state_aead_ok X" "core_new X cell l salt = Inr c" "length salt = 16" "list_all (rec_ok c) rs" "torn_tail c t" "22 \<le> n"
  shows "\<exists>m torn. m \<le> length rs \<and> (m < length rs \<longrightarrow> n < length (log_image X c (take (Suc m) rs))) \<and>
    read_log X cell l (Some (take n (log_image X c rs @ t))) = Inr (map snd (take m rs), torn, None)"
proof (cases "n < length (log_image X c rs)")
  case False
  then have "take n (log_image X c rs @ t) = log_image X c rs @ take (n - length (log_image X c rs)) t" by simp
  then show ?thesis using read_log_image [OF assms(1-4) torn_take [OF assms(5)]] by (intro exI [of _ "length rs"]) simp
next
  case True
  have h: "length (log_header c) = 22" using reader_open_header(4) [OF assms(2,3)] assms(3) by simp
  then have "n - 22 \<le> length (frames X c 0 rs)" using True by (simp add: log_image_def)
  from cut_frames [OF assms(1,4) this] obtain m t' where m: "m \<le> length rs" "take (n - 22) (frames X c 0 rs) = frames X c 0 (take m rs) @ t'"
    "torn_tail c t'" "m < length rs \<longrightarrow> n - 22 < length (frames X c 0 (take (Suc m) rs))"
    by blast
  have img: "take n (log_image X c rs @ t) = log_image X c (take m rs) @ t'" using True assms(6) m(2) h by (simp add: log_image_def)
  have ok: "list_all (rec_ok c) (take m rs)" using assms(4) by (auto simp: list_all_iff dest: in_set_takeD)
  have "m < length rs \<longrightarrow> n < length (log_image X c (take (Suc m) rs))" using m(4) h assms(6) by (auto simp: log_image_def)
  then show ?thesis using read_log_image [OF assms(1-3) ok m(3)] m(1) img by auto
qed

lemma append_image:
  assumes "state_aead_ok X" "rec_ok c (rnd, rec)" "lw_core wr = c" "at_end (log_image X c rs) (length rs) wr"
  shows "\<exists>wr'. log_append X rnd Written rec (log_image X c rs, wr) = ((log_image X c (rs @ [(rnd, rec)]), wr'), Inr ()) \<and>
    lw_core wr' = c \<and> at_end (log_image X c (rs @ [(rnd, rec)])) (Suc (length rs)) wr'"
proof -
  obtain body where b: "frame X c (length rs) rnd rec = Inr (le_bytes 4 (length body) @ body)" by (rule frame_ok [OF assms(1,2)])
  show ?thesis
    using assms(2-4) b by (auto simp: log_append_def rec_ok_def at_end_def write_at_def log_image_def frames_append)
qed

fun append_all :: "skext \<Rightarrow> (bytes \<times> bytes) list \<Rightarrow> bytes \<times> log_writer \<Rightarrow> (bytes \<times> log_writer) \<times> (state_error + unit)" where
  "append_all X [] s = (s, Inr ())"
| "append_all X ((rnd, rec) # rs) s =
     (case log_append X rnd Written rec s of
        (s, Inl err) \<Rightarrow> (s, Inl err)
      | (s, Inr _) \<Rightarrow> append_all X rs s)"

lemma append_all_image:
  assumes "state_aead_ok X"
  shows "list_all (rec_ok c) new \<Longrightarrow> lw_core wr = c \<Longrightarrow> at_end (log_image X c rs) (length rs) wr \<Longrightarrow>
    \<exists>wr'. append_all X new (log_image X c rs, wr) = ((log_image X c (rs @ new), wr'), Inr ()) \<and>
      lw_core wr' = c \<and> at_end (log_image X c (rs @ new)) (length (rs @ new)) wr'"
proof (induction new arbitrary: rs wr)
  case (Cons r new)
  obtain rnd rec where r: "r = (rnd, rec)" by (cases r)
  obtain wr1 where w: "log_append X rnd Written rec (log_image X c rs, wr) = ((log_image X c (rs @ [r]), wr1), Inr ())" "lw_core wr1 = c"
    "at_end (log_image X c (rs @ [r])) (length (rs @ [r])) wr1"
    using append_image [OF assms _ Cons.prems(2,3)] Cons.prems(1) r by fastforce
  from Cons.IH [OF _ w(2,3)] w(1) Cons.prems(1) show ?case by (simp add: r)
qed simp

text \<open>
  C9: an append-only log survives a crash at any byte. Let records have been appended to a log and the file be cut at any
  byte behind its header. Reading returns exactly the records that were complete, opening for appending cuts the file back
  to them, and records appended from then on are read behind them, also when the file is then padded with zero bytes.
\<close>

theorem log_survives_crash:
  assumes "state_aead_ok X" and "core_new X cell l salt = Inr c" and "length salt = 16" and "list_all (rec_ok c) rs" and "list_all (rec_ok c) new"
    and "22 \<le> n" and "n \<le> length (log_image X c rs)" and "fault_free w"
  shows "\<exists>m \<le> length rs. length (log_image X c (take m rs)) \<le> n \<and> (m < length rs \<longrightarrow> n < length (log_image X c (take (Suc m) rs))) \<and>
    (\<exists>torn. read_log X cell l (Some (take n (log_image X c rs))) = Inr (map snd (take m rs), torn, None)) \<and>
    (\<exists>f wr wr'. open_append X cell l salt' w (Some (take n (log_image X c rs))) = (Some f, Inr wr) \<and>
       append_all X new (f, wr) = ((log_image X c (take m rs @ new), wr'), Inr ())) \<and>
    read_log X cell l (Some (log_image X c (take m rs @ new) @ replicate z 0)) =
      Inr (map snd (take m rs) @ map snd new, if z = 0 then None else Some (length (log_image X c (take m rs @ new))), None)"
proof -
  have h: "length (log_header c) = 22" using reader_open_header(4) [OF assms(2,3)] assms(3) by simp
  then have "n - 22 \<le> length (frames X c 0 rs)" using assms(7) by (simp add: log_image_def)
  from cut_frames [OF assms(1,4) this] obtain m t where m: "m \<le> length rs" "take (n - 22) (frames X c 0 rs) = frames X c 0 (take m rs) @ t"
    "torn_tail c t" "m < length rs \<longrightarrow> n - 22 < length (frames X c 0 (take (Suc m) rs))"
    by blast
  have img: "take n (log_image X c rs) = log_image X c (take m rs) @ t" using assms(6) m(2) h by (simp add: log_image_def)
  have ok: "list_all (rec_ok c) (take m rs)" using assms(4) by (auto simp: list_all_iff dest: in_set_takeD)
  have all: "list_all (rec_ok c) (take m rs @ new)" using ok assms(5) by simp
  let ?w = "\<lparr>lw_core = c, lw_seq = length (take m rs), lw_end = length (log_image X c (take m rs)), lw_pos = length (log_image X c (take m rs))\<rparr>"
  obtain wr' where "append_all X new (log_image X c (take m rs), ?w) = ((log_image X c (take m rs @ new), wr'), Inr ())"
    using append_all_image [OF assms(1,5), of ?w "take m rs"] by (auto simp: at_end_def)
  moreover have "torn_tail c (replicate z 0)" by (auto simp: torn_tail_def)
  from read_log_image [OF assms(1-3) all this]
  have "read_log X cell l (Some (log_image X c (take m rs @ new) @ replicate z 0)) =
      Inr (map snd (take m rs) @ map snd new, if z = 0 then None else Some (length (log_image X c (take m rs @ new))), None)"
    by simp
  moreover have "m < length rs \<longrightarrow> n < length (log_image X c (take (Suc m) rs))" using m(4) h assms(6) by (auto simp: log_image_def)
  moreover have "length (log_image X c (take m rs)) \<le> n" using arg_cong [OF img, of length] assms(7) by simp
  ultimately show ?thesis
    using read_log_image [OF assms(1-3) ok m(3)] reopen_image [OF assms(1-3) ok m(3) assms(8), of salt'] m(1) img by (intro exI [of _ m]) auto
qed

lemma append_result:
  assumes "state_aead_ok X" "lw_core wr = c" "at_end (log_image X c rs) (length rs) wr" "length rnd = 16" "log_append X rnd w rec (log_image X c rs, wr) = (s, Inr u)"
  shows "\<exists>wr'. s = (log_image X c (rs @ [(rnd, rec)]), wr') \<and> lw_core wr' = c \<and> at_end (log_image X c (rs @ [(rnd, rec)])) (Suc (length rs)) wr' \<and> rec_ok c (rnd, rec)"
proof -
  have ok: "rec_ok c (rnd, rec)" using assms(2,4,5) by (auto simp: log_append_def rec_ok_def split: if_splits)
  moreover have "w = Written" using assms(5) by (auto simp: log_append_def Let_def split: if_splits sum.splits write_outcome.splits)
  ultimately show ?thesis using append_image [OF assms(1) ok assms(2,3)] assms(5) by auto
qed

text \<open>An append under faults adds the record, leaves part of it, or leaves nothing.\<close>

lemma append_faulty:
  assumes "state_aead_ok X" "lw_core wr = c" "at_end (log_image X c rs) (length rs) wr" "length rnd = 16"
    "log_append X rnd w rec (log_image X c rs, wr) = ((f, wr'), r)"
  shows "(\<not> isl r \<longrightarrow> f = log_image X c (rs @ [(rnd, rec)]) \<and> lw_core wr' = c \<and> at_end f (Suc (length rs)) wr' \<and> rec_ok c (rnd, rec)) \<and>
    (isl r \<longrightarrow> (\<exists>t. torn_tail c t \<and> f = log_image X c rs @ t) \<or> f = log_image X c (rs @ [(rnd, rec)]) \<and> rec_ok c (rnd, rec))"
proof (cases r)
  case (Inr u)
  with assms(5) have "log_append X rnd w rec (log_image X c rs, wr) = ((f, wr'), Inr u)" by simp
  from append_result [OF assms(1-4) this] Inr show ?thesis by auto
next
  case (Inl err)
  have none: "torn_tail c []" unfolding torn_tail_def by (metis replicate_0)
  show ?thesis
  proof (cases "max_record_bytes (lc_label c) < length rec")
    case True
    then show ?thesis using assms(2,5) Inl none by (auto simp: log_append_def)
  next
    case False
    then have ok: "rec_ok c (rnd, rec)" using assms(4) by (simp add: rec_ok_def)
    obtain body where b: "frame X c (length rs) rnd rec = Inr (le_bytes 4 (length body) @ body)" "length body = 40 + length rec"
      by (rule frame_ok [OF assms(1) ok])
    let ?fr = "le_bytes 4 (length body) @ body"
    have range: "MIN_BODY \<le> length body" "length body \<le> max_body c"
      using b(2) ok by (simp_all add: MIN_BODY_def max_body_def NONCE_BYTES_def TAG_BYTES_def rec_ok_def)
    obtain n tr sk where w: "w = WriteFailed n tr sk"
      using assms(2,3,5) b(1) False Inl by (cases w) (auto simp: log_append_def at_end_def)
    have f: "f = (if tr then log_image X c rs else log_image X c rs @ take n ?fr)"
      using assms(2,3,5) b(1) False by (auto simp: w log_append_def at_end_def write_at_def Let_def)
    have "torn_tail c (take n ?fr)" if "n < length ?fr" unfolding torn_tail_def using that range by auto
    moreover have "log_image X c rs @ ?fr = log_image X c (rs @ [(rnd, rec)])" using b(1) by (simp add: log_image_def frames_append)
    ultimately have "(\<exists>t. torn_tail c t \<and> f = log_image X c rs @ t) \<or> f = log_image X c (rs @ [(rnd, rec)])"
      using f none by (cases "n < length ?fr") (auto simp del: take_append)
    then show ?thesis using Inl ok by auto
  qed
qed

section \<open>Rewriting and crashes\<close>

lemma rewrite_append_image:
  assumes "state_aead_ok X" "\<forall>i. length (ri_rnd w i) = 16"
  shows "lw_core wr = c \<Longrightarrow> at_end (log_image X c rs) (length rs) wr \<Longrightarrow> list_all (rec_ok c) rs \<Longrightarrow>
    rewrite_append X w i recs (log_image X c rs, wr) = ((f, wr'), True) \<Longrightarrow>
    \<exists>rs'. f = log_image X c rs' \<and> map snd rs' = map snd rs @ recs \<and> list_all (rec_ok c) rs'"
proof (induction recs arbitrary: i rs wr)
  case (Cons rec recs)
  obtain s u where a: "log_append X (ri_rnd w i) (ri_write w i) rec (log_image X c rs, wr) = (s, Inr u)"
    "rewrite_append X w (Suc i) recs s = ((f, wr'), True)"
    using Cons.prems(4) by (auto split: prod.splits sum.splits)
  let ?rs = "rs @ [(ri_rnd w i, rec)]"
  from append_result [OF assms(1) Cons.prems(1,2) _ a(1)] assms(2) obtain wr1 where
    s: "s = (log_image X c ?rs, wr1)" "lw_core wr1 = c" "at_end (log_image X c ?rs) (length ?rs) wr1" "rec_ok c (ri_rnd w i, rec)"
    by auto
  from Cons.IH [OF s(2,3) _ a(2) [unfolded s(1)]] Cons.prems(3) s(4) show ?case by auto
qed auto

lemma staged_image:
  assumes "state_aead_ok X" "\<forall>i. length (ri_rnd w i) = 16" "length (ri_salt w) = 16" "stage_log X cell l w recs tmp = (Some f, True)"
  shows "read_log X cell l (Some f) = Inr (recs, None, None)" and "adopt_staged_log X cell l True (Some f)"
    and "\<exists>c rs. core_new X cell l (ri_salt w) = Inr c \<and> list_all (rec_ok c) rs \<and> f = log_image X c rs \<and> map snd rs = recs"
proof -
  obtain c where c: "core_new X cell l (ri_salt w) = Inr c" "oi_dir (ri_open w)" "oi_create (ri_open w) = Created" "oi_reopen (ri_open w)"
    using assms(4) by (auto simp: stage_log_def create_file_def split: if_splits sum.splits create_outcome.splits prod.splits)
  have h: "length (log_header c) = 22" using reader_open_header(4) [OF c(1) assms(3)] assms(3) by simp
  let ?w = "\<lparr>lw_core = c, lw_seq = 0, lw_end = 22, lw_pos = 22\<rparr>"
  have cf: "create_file X cell l (ri_salt w) (ri_open w) tmp = (Some (log_image X c []), Inr ?w)"
    using c h by (simp add: create_file_def log_image_def LOG_HEADER_LEN_def)
  obtain wr' where "rewrite_append X w 0 recs (log_image X c [], ?w) = ((f, wr'), True)"
    using assms(4) cf by (auto simp: stage_log_def split: prod.splits if_splits)
  moreover have "at_end (log_image X c []) (length []) ?w" using h by (simp add: at_end_def log_image_def)
  ultimately obtain rs where rs: "f = log_image X c rs" "map snd rs = recs" "list_all (rec_ok c) rs"
    using rewrite_append_image [OF assms(1,2), of ?w c "[]" 0 recs f wr'] by auto
  have "torn_tail c []" unfolding torn_tail_def by (metis replicate_0)
  from read_log_image [OF assms(1) c(1) assms(3) rs(3) this] rs show "read_log X cell l (Some f) = Inr (recs, None, None)" by simp
  then show "adopt_staged_log X cell l True (Some f)"
    by (auto simp: adopt_staged_log_def read_log_def reader_open_def Let_def split: sum.splits option.splits prod.splits if_splits)
  show "\<exists>c rs. core_new X cell l (ri_salt w) = Inr c \<and> list_all (rec_ok c) rs \<and> f = log_image X c rs \<and> map snd rs = recs" using c(1) rs by blast
qed

section \<open>Reading ends\<close>

lemma next_record_done: "lr_done r \<Longrightarrow> snd (next_record X r) = Inr None"
  by (simp add: next_record_def split: option.split)

lemma next_record_error: "next_record X r = (r', Inl e) \<Longrightarrow> lr_done r'"
  by (auto simp: next_record_def Let_def split: option.splits if_splits sum.splits)

lemma reading_ends:
  "lr_file r = f \<Longrightarrow>
     \<exists>n \<le> Suc ((length f - lr_offset r) div 44). snd (next_record X (((\<lambda>r. fst (next_record X r)) ^^ n) r)) = Inr None"
proof (induction "length f - lr_offset r" arbitrary: r rule: less_induct)
  case less
  obtain r' y where n: "next_record X r = (r', y)" by (metis surj_pair)
  consider e where "y = Inl e" | "y = Inr None" | p where "y = Inr (Some p)" by (metis old.sum.exhaust option.exhaust)
  then show ?case
  proof cases
    case 1
    then show ?thesis using next_record_done [OF next_record_error, of X r] n by (intro exI [of _ 1]) simp
  next
    case 2
    then show ?thesis using n by (intro exI [of _ 0]) simp
  next
    case 3
    note s = next_record_some [OF n [unfolded 3]]
    have "length f - lr_offset r' < length f - lr_offset r" "lr_file r' = f" using s less.prems by auto
    then obtain k where k: "k \<le> Suc ((length f - lr_offset r') div 44)" "snd (next_record X (((\<lambda>r. fst (next_record X r)) ^^ k) r')) = Inr None"
      using less.hyps [of r'] by auto
    have "length f - lr_offset r' + 44 \<le> length f - lr_offset r" using s less.prems by simp
    then have "(length f - lr_offset r' + 44) div 44 \<le> (length f - lr_offset r) div 44" by (rule div_le_mono)
    then have "Suc k \<le> Suc ((length f - lr_offset r) div 44)" using k(1) by simp
    then show ?thesis using k(2) n by (intro exI [of _ "Suc k"]) (simp add: funpow_swap1 del: funpow.simps add: funpow_Suc_right)
  qed
qed

text \<open>
  C17: reading a log ends, whatever the file holds. A reader opened on any file of \<open>n\<close> bytes has ended (the call for the
  next record returns nothing) after at most \<open>n div 44 + 1\<close> calls, damage or not: a record occupies at least 44 bytes, and
  an error is the last thing a reader returns.
\<close>

theorem log_reading_ends:
  assumes "reader_open X cell l (Some f) = Inr (Some r)"
  shows "\<exists>n \<le> Suc (length f div 44). snd (next_record X (((\<lambda>r. fst (next_record X r)) ^^ n) r)) = Inr None"
proof -
  have "lr_file r = f" using assms by (auto simp: reader_open_def Let_def split: if_splits sum.splits)
  from reading_ends [OF this, of X] show ?thesis using div_le_mono [of "length f - lr_offset r" "length f" 44] by (meson diff_le_self le_trans Suc_le_mono)
qed

end
