(* ===== verification/Push_Outbox.thy ===== *)
theory Push_Outbox
  imports State_Log
begin

text \<open>
  The queue of files waiting to be sent, \<^verbatim>\<open>push/outbox.rs\<close>, over the encrypted record log: opening with recovery, storing,
  updating and removing jobs, and compaction. The state holds the queue in memory, the two files, and how much of the
  log is known to be on disk. JSON is a parameter; the order in which the map of jobs is iterated is an argument.
\<close>

section \<open>Jobs and records\<close>

record out_job =
  oj_id :: bytes
  oj_contact :: bytes
  oj_path :: bytes
  oj_name :: bytes
  oj_size :: u64
  oj_mtime :: u64
  oj_hash :: "bytes option"
  oj_offset :: u64
  oj_attempt :: u32
  oj_created :: u64

datatype out_rec = PutJob out_job | DelJob bytes

record pxext =
  px_core :: skext
  rec_to_vec :: "out_rec \<Rightarrow> bytes option"
  rec_from_slice :: "bytes \<Rightarrow> out_rec option"

section \<open>The queue\<close>

text \<open>
  The fields of the queue, and the files beside it: the log, the staged log and the logs set aside. \<open>ob_synced\<close> is not a
  field of the code; it counts the bytes of the log that a flush has put on disk, which a crash cannot take away.
\<close>

record outbox =
  ob_keys :: "key_cell option"
  ob_jobs :: "(bytes, out_job) fmap"
  ob_writer :: "log_writer option"
  ob_garbage :: nat
  ob_log :: "bytes option"
  ob_tmp :: "bytes option"
  ob_synced :: nat
  ob_aside :: "bytes list"

definition disabled :: outbox where
  "disabled =
     \<lparr>ob_keys = None, ob_jobs = fmempty, ob_writer = None, ob_garbage = 0, ob_log = None, ob_tmp = None, ob_synced = 0, ob_aside = []\<rparr>"

definition fold_record :: "pxext \<Rightarrow> (bytes, out_job) fmap \<times> nat \<Rightarrow> bytes \<Rightarrow> (bytes, out_job) fmap \<times> nat" where
  "fold_record X s rec =
     (case s of (jobs, garbage) \<Rightarrow>
        case rec_from_slice X rec of
          Some (PutJob j) \<Rightarrow> (fmupd (oj_id j) j jobs, if fmlookup jobs (oj_id j) = None then garbage else Suc garbage)
        | Some (DelJob i) \<Rightarrow> (fmdrop i jobs, garbage + 1 + (if fmlookup jobs i = None then 0 else 1))
        | None \<Rightarrow> (jobs, Suc garbage))"

text \<open>What one append meets: opening the log if it is not open, the nonce drawn, the write and the flush.\<close>

record append_io =
  ai_salt :: bytes
  ai_open :: open_io
  ai_rnd :: bytes
  ai_write :: write_outcome
  ai_sync :: bool

text \<open>Bytes known to be on disk when the file changes from \<open>old\<close> to \<open>new\<close> without a flush.\<close>

definition still_synced :: "bytes option \<Rightarrow> bytes option \<Rightarrow> nat \<Rightarrow> nat" where
  "still_synced old new n =
     (if new = old then n
      else (case (old, new) of
              (Some f, Some g) \<Rightarrow> if length f < LOG_HEADER_LEN then 0 else min n (length g)
            | _ \<Rightarrow> 0))"

definition out_append :: "pxext \<Rightarrow> key_cell \<Rightarrow> append_io \<Rightarrow> bytes \<Rightarrow> bool \<Rightarrow> outbox \<Rightarrow> outbox \<times> bool" where
  "out_append X cell w rec durable ob =
     (case (case ob_writer ob of
              Some wr \<Rightarrow> (ob_log ob, Inr wr)
            | None \<Rightarrow> open_append (px_core X) cell PushOutbox (ai_salt w) (ai_open w) (ob_log ob)) of
        (log, Inl _) \<Rightarrow> (ob\<lparr>ob_log := log, ob_synced := still_synced (ob_log ob) log (ob_synced ob)\<rparr>, False)
      | (log, Inr wr) \<Rightarrow>
          let ob = ob\<lparr>ob_log := log, ob_synced := still_synced (ob_log ob) log (ob_synced ob)\<rparr> in
          (case log_append (px_core X) (ai_rnd w) (ai_write w) rec (case log of None \<Rightarrow> [] | Some f \<Rightarrow> f, wr) of
             ((f, wr), r) \<Rightarrow>
               let synced = min (ob_synced ob) (length f); ob = ob\<lparr>ob_log := Some f\<rparr> in
               if isl r then (ob\<lparr>ob_writer := None, ob_synced := synced\<rparr>, False)
               else if \<not> durable then (ob\<lparr>ob_writer := Some wr, ob_synced := synced\<rparr>, True)
               else if ai_sync w then (ob\<lparr>ob_writer := Some wr, ob_synced := length f\<rparr>, True)
               else (ob\<lparr>ob_writer := None, ob_synced := synced\<rparr>, False)))"

definition live_records :: "pxext \<Rightarrow> out_job list \<Rightarrow> bytes list" where
  "live_records X order = List.map_filter (\<lambda>j. rec_to_vec X (PutJob j)) order"

definition rewrite_live :: "pxext \<Rightarrow> key_cell \<Rightarrow> rewrite_io \<Rightarrow> out_job list \<Rightarrow> outbox \<Rightarrow> outbox \<times> bool" where
  "rewrite_live X cell w order ob =
     (case rewrite_log (px_core X) cell PushOutbox w (live_records X order) (ob_log ob, ob_tmp ob) of
        ((log, tmp), ok) \<Rightarrow>
          (ob\<lparr>ob_log := log, ob_tmp := tmp,
              ob_synced := (if ok then (case log of None \<Rightarrow> 0 | Some f \<Rightarrow> length f) else still_synced (ob_log ob) log (ob_synced ob))\<rparr>, ok))"

text \<open>A rewrite and the order in which it sees the jobs.\<close>

type_synonym compaction = "rewrite_io \<times> ((bytes, out_job) fmap \<Rightarrow> out_job list)"

definition must_compact :: "bool \<Rightarrow> outbox \<Rightarrow> bool" where
  "must_compact when_any_garbage ob \<longleftrightarrow>
     fmsize (ob_jobs ob) * 2 + 256 < ob_garbage ob \<or> when_any_garbage \<and> 0 < ob_garbage ob"

definition compact_if_needed :: "pxext \<Rightarrow> compaction \<Rightarrow> bool \<Rightarrow> outbox \<Rightarrow> outbox" where
  "compact_if_needed X w when_any_garbage ob =
     (case ob_keys ob of
        None \<Rightarrow> ob
      | Some cell \<Rightarrow>
          if \<not> must_compact when_any_garbage ob then ob
          else
            (case rewrite_live X cell (fst w) (snd w (ob_jobs ob)) (ob\<lparr>ob_writer := None\<rparr>) of
               (ob, ok) \<Rightarrow> if ok then ob\<lparr>ob_garbage := 0\<rparr> else ob))"

definition get_job :: "bytes \<Rightarrow> outbox \<Rightarrow> out_job option" where
  "get_job i ob = fmlookup (ob_jobs ob) i"

text \<open>What a put or a removal does before the log is compacted; \<open>None\<close> when it returns early.\<close>

definition put_record :: "pxext \<Rightarrow> append_io \<Rightarrow> out_job \<Rightarrow> bool \<Rightarrow> outbox \<Rightarrow> outbox option" where
  "put_record X w j durable ob =
     (case ob_keys ob of
        None \<Rightarrow> None
      | Some cell \<Rightarrow>
          (case rec_to_vec X (PutJob j) of
             None \<Rightarrow> None
           | Some rec \<Rightarrow>
               (case out_append X cell w rec durable ob of
                  (ob, ok) \<Rightarrow>
                    Some (ob\<lparr>ob_jobs := fmupd (oj_id j) j (ob_jobs ob),
                             ob_garbage := (if ok \<and> fmlookup (ob_jobs ob) (oj_id j) \<noteq> None then Suc (ob_garbage ob) else ob_garbage ob)\<rparr>))))"

definition remove_record :: "pxext \<Rightarrow> append_io \<Rightarrow> bytes \<Rightarrow> outbox \<Rightarrow> outbox option" where
  "remove_record X w i ob =
     (case ob_keys ob of
        None \<Rightarrow> None
      | Some cell \<Rightarrow>
          if fmlookup (ob_jobs ob) i = None then None
          else
            let ob = ob\<lparr>ob_jobs := fmdrop i (ob_jobs ob)\<rparr>;
                ob = (case rec_to_vec X (DelJob i) of None \<Rightarrow> ob | Some rec \<Rightarrow> fst (out_append X cell w rec False ob))
            in Some (ob\<lparr>ob_garbage := ob_garbage ob + 2\<rparr>))"

definition put_job :: "pxext \<Rightarrow> append_io \<Rightarrow> compaction \<Rightarrow> out_job \<Rightarrow> bool \<Rightarrow> outbox \<Rightarrow> outbox" where
  "put_job X w cw j durable ob = (case put_record X w j durable ob of None \<Rightarrow> ob | Some ob \<Rightarrow> compact_if_needed X cw False ob)"

definition update_job :: "pxext \<Rightarrow> append_io \<Rightarrow> compaction \<Rightarrow> bytes \<Rightarrow> (out_job \<Rightarrow> out_job) \<Rightarrow> outbox \<Rightarrow> outbox" where
  "update_job X w cw i f ob = (case get_job i ob of None \<Rightarrow> ob | Some j \<Rightarrow> put_job X w cw (f j) False ob)"

definition remove_job :: "pxext \<Rightarrow> append_io \<Rightarrow> compaction \<Rightarrow> bytes \<Rightarrow> outbox \<Rightarrow> outbox" where
  "remove_job X w cw i ob = (case remove_record X w i ob of None \<Rightarrow> ob | Some ob \<Rightarrow> compact_if_needed X cw False ob)"

definition shred_dead :: "pxext \<Rightarrow> compaction \<Rightarrow> outbox \<Rightarrow> outbox \<times> bool" where
  "shred_dead X cw ob =
     (case ob_keys ob of
        None \<Rightarrow> (ob, True)
      | Some cell \<Rightarrow>
          if ob_garbage ob = 0 \<and> ob_log ob = None then (ob, True)
          else
            (case rewrite_live X cell (fst cw) (snd cw (ob_jobs ob)) (ob\<lparr>ob_writer := None\<rparr>) of
               (ob, ok) \<Rightarrow> (if ok then ob\<lparr>ob_garbage := 0\<rparr> else ob, ok)))"

section \<open>Opening\<close>

definition load_jobs :: "pxext \<Rightarrow> key_cell \<Rightarrow> bytes option \<Rightarrow> ((bytes, out_job) fmap \<times> nat) \<times> bool" where
  "load_jobs X cell log =
     (case reader_open (px_core X) cell PushOutbox log of
        Inl _ \<Rightarrow> ((fmempty, 0), True)
      | Inr None \<Rightarrow> ((fmempty, 0), False)
      | Inr (Some r) \<Rightarrow>
          (case read_records (px_core X) r [] of (r, rs, err) \<Rightarrow> (foldl (fold_record X) (fmempty, 0) rs, err \<noteq> None)))"

record open_queue_io =
  oq_renamed :: bool
  oq_aside :: bool
  oq_compact :: compaction

text \<open>The files of the queue are those of \<open>ob\<close>; opening again after adopting the staged file finds no staged file.\<close>

lemma adopt_some: "adopt_staged_log X cell l b tmp \<Longrightarrow> tmp \<noteq> None"
  by (cases tmp) (simp_all add: adopt_staged_log_def reader_open_def)

function open_outbox :: "pxext \<Rightarrow> open_queue_io \<Rightarrow> state_error + key_cell \<Rightarrow> outbox \<Rightarrow> outbox" where
  "open_outbox X w keys ob =
     (case keys of
        Inl _ \<Rightarrow> disabled\<lparr>ob_log := ob_log ob, ob_tmp := ob_tmp ob, ob_synced := ob_synced ob, ob_aside := ob_aside ob\<rparr>
      | Inr cell \<Rightarrow>
          (case load_jobs X cell (ob_log ob) of
             ((jobs, garbage), damaged) \<Rightarrow>
               if damaged \<and> adopt_staged_log (px_core X) cell PushOutbox (oq_renamed w) (ob_tmp ob)
               then open_outbox X w keys (ob\<lparr>ob_log := ob_tmp ob, ob_tmp := None, ob_synced := 0\<rparr>)
               else
                 let ob = (if damaged \<and> oq_aside w
                           then ob\<lparr>ob_log := None, ob_synced := 0, ob_aside := ob_aside ob @ (case ob_log ob of None \<Rightarrow> [] | Some f \<Rightarrow> [f])\<rparr>
                           else ob)
                 in compact_if_needed X (oq_compact w) True
                      (ob\<lparr>ob_keys := Some cell, ob_jobs := (if damaged then fmempty else jobs), ob_writer := None,
                          ob_garbage := (if damaged then 0 else garbage)\<rparr>)))"
  by pat_completeness auto
termination
  by (relation "measure (\<lambda>(X, w, keys, ob). if ob_tmp ob = None then 0 else 1)")
    (use adopt_some in auto)

declare open_outbox.simps [simp del]

section \<open>Runs\<close>

datatype out_event =
    EvPut out_job bool append_io compaction
  | EvUpdate bytes "out_job \<Rightarrow> out_job" append_io compaction
  | EvRemove bytes append_io compaction
  | EvShred compaction
  | EvRestart open_queue_io "state_error + key_cell"

fun out_step :: "pxext \<Rightarrow> outbox \<Rightarrow> out_event \<Rightarrow> outbox" where
  "out_step X ob (EvPut j durable w cw) = put_job X w cw j durable ob"
| "out_step X ob (EvUpdate i f w cw) = update_job X w cw i f ob"
| "out_step X ob (EvRemove i w cw) = remove_job X w cw i ob"
| "out_step X ob (EvShred cw) = fst (shred_dead X cw ob)"
| "out_step X ob (EvRestart w keys) = open_outbox X w keys ob"

section \<open>What the log says\<close>

definition out_laws :: "pxext \<Rightarrow> bool" where
  "out_laws X \<longleftrightarrow> state_aead_ok (px_core X) \<and> (\<forall>r. \<exists>b. rec_to_vec X r = Some b \<and> rec_from_slice X b = Some r)"

definition jobs_of :: "pxext \<Rightarrow> bytes list \<Rightarrow> (bytes, out_job) fmap" where
  "jobs_of X recs = fst (foldl (fold_record X) (fmempty, 0) recs)"

abbreviation image_of :: "pxext \<Rightarrow> log_core \<Rightarrow> (bytes \<times> bytes) list \<Rightarrow> bytes" where
  "image_of X \<equiv> log_image (px_core X)"

definition log_form :: "pxext \<Rightarrow> key_cell \<Rightarrow> log_core \<Rightarrow> (bytes \<times> bytes) list \<Rightarrow> bytes \<Rightarrow> outbox \<Rightarrow> bool" where
  "log_form X cell c rs t ob \<longleftrightarrow>
     core_new (px_core X) cell PushOutbox (lc_salt c) = Inr c \<and> length (lc_salt c) = 16 \<and> list_all (rec_ok c) rs \<and> torn_tail c t \<and>
     ob_log ob = Some (image_of X c rs @ t) \<and>
     (case ob_writer ob of None \<Rightarrow> True | Some wr \<Rightarrow> t = [] \<and> lw_core wr = c \<and> at_end (image_of X c rs) (length rs) wr)"

text \<open>\<open>kept X i c rs n\<close>: every reading of the log that goes at least as far as \<open>n\<close> bytes finds the job \<open>i\<close>.\<close>

definition kept :: "pxext \<Rightarrow> bytes \<Rightarrow> log_core \<Rightarrow> (bytes \<times> bytes) list \<Rightarrow> nat \<Rightarrow> bool" where
  "kept X i c rs n \<longleftrightarrow>
     (\<exists>k \<le> length rs. length (image_of X c (take k rs)) \<le> n \<and>
        (\<forall>m. k \<le> m \<and> m \<le> length rs \<longrightarrow> fmlookup (jobs_of X (map snd (take m rs))) i \<noteq> None))"

definition keyed :: "(bytes, out_job) fmap \<Rightarrow> bool" where
  "keyed jobs \<longleftrightarrow> (\<forall>i j. fmlookup jobs i = Some j \<longrightarrow> oj_id j = i)"

definition secured :: "pxext \<Rightarrow> key_cell \<Rightarrow> bytes \<Rightarrow> outbox \<Rightarrow> bool" where
  "secured X cell i ob \<longleftrightarrow>
     ob_keys ob = Some cell \<and> keyed (ob_jobs ob) \<and> fmlookup (ob_jobs ob) i \<noteq> None \<and>
     (\<exists>c rs t. log_form X cell c rs t ob \<and> kept X i c rs (ob_synced ob))"

lemma torn_nil [simp]: "torn_tail c []"
  unfolding torn_tail_def by (metis replicate_0)

lemma jobs_of_snoc: "jobs_of X (recs @ [b]) = fst (fold_record X (foldl (fold_record X) (fmempty, 0) recs) b)"
  by (simp add: jobs_of_def)

lemma jobs_of_keeps: "rec_from_slice X b \<noteq> Some (DelJob i) \<Longrightarrow> fmlookup (jobs_of X recs) i \<noteq> None \<Longrightarrow> fmlookup (jobs_of X (recs @ [b])) i \<noteq> None"
  unfolding jobs_of_snoc by (auto simp: fold_record_def jobs_of_def split: prod.split option.split out_rec.split)

lemma image_take_le: "length (image_of X c (take k rs)) \<le> length (image_of X c rs)"
proof -
  have "frames (px_core X) c 0 rs = frames (px_core X) c 0 (take k rs) @ frames (px_core X) c (0 + length (take k rs)) (drop k rs)"
    using frames_append [of "px_core X" c 0 "take k rs" "drop k rs"] by simp
  then show ?thesis by (simp add: log_image_def)
qed

lemma kept_mono: "kept X i c rs n \<Longrightarrow> n \<le> n' \<Longrightarrow> kept X i c rs n'"
  unfolding kept_def by (meson le_trans)

lemma kept_min: "kept X i c rs n \<Longrightarrow> length (image_of X c rs) \<le> l \<Longrightarrow> kept X i c rs (min n l)"
  unfolding kept_def by (meson image_take_le le_trans min.boundedI)

lemma kept_snoc:
  assumes "kept X i c rs n" "rec_from_slice X b \<noteq> Some (DelJob i)"
  shows "kept X i c (rs @ [(rnd, b)]) n"
proof -
  obtain k where k: "k \<le> length rs" "length (image_of X c (take k rs)) \<le> n"
    "\<And>m. k \<le> m \<Longrightarrow> m \<le> length rs \<Longrightarrow> fmlookup (jobs_of X (map snd (take m rs))) i \<noteq> None"
    using assms(1) unfolding kept_def by blast
  have "fmlookup (jobs_of X (map snd (take m (rs @ [(rnd, b)])))) i \<noteq> None" if "k \<le> m" "m \<le> Suc (length rs)" for m
  proof (cases "m \<le> length rs")
    case True
    then show ?thesis using k(3) that(1) by simp
  next
    case False
    then have "m = Suc (length rs)" using that(2) by simp
    then show ?thesis using jobs_of_keeps [OF assms(2) k(3) [OF k(1)]] by simp
  qed
  then show ?thesis unfolding kept_def using k(1,2) by (intro exI [of _ k]) simp
qed

lemma load_jobs_read:
  "load_jobs X cell log =
     (case read_log (px_core X) cell PushOutbox log of
        Inl _ \<Rightarrow> ((fmempty, 0), True)
      | Inr (rs, torn, err) \<Rightarrow> (foldl (fold_record X) (fmempty, 0) rs, err \<noteq> None))"
  by (simp add: load_jobs_def read_log_def split: sum.split option.split prod.split)

lemma log_formD:
  assumes "out_laws X" "log_form X cell c rs t ob"
  shows "state_aead_ok (px_core X)" "core_new (px_core X) cell PushOutbox (lc_salt c) = Inr c" "length (lc_salt c) = 16" "list_all (rec_ok c) rs"
    "torn_tail c t" "ob_log ob = Some (image_of X c rs @ t)"
  using assms by (simp_all add: out_laws_def log_form_def)

text \<open>Reading the log after the file was cut anywhere behind the synced part finds the job.\<close>

lemma kept_read:
  assumes "out_laws X" "log_form X cell c rs t ob" "kept X i c rs s" "s \<le> n"
  shows "\<exists>jobs g. load_jobs X cell (Some (take n (image_of X c rs @ t))) = ((jobs, g), False) \<and> fmlookup jobs i \<noteq> None"
proof -
  note f = log_formD [OF assms(1,2)]
  obtain k where k: "k \<le> length rs" "length (image_of X c (take k rs)) \<le> s"
    "\<And>m. k \<le> m \<Longrightarrow> m \<le> length rs \<Longrightarrow> fmlookup (jobs_of X (map snd (take m rs))) i \<noteq> None"
    using assms(3) unfolding kept_def by blast
  have "22 \<le> n" using k(2) assms(4) f(3) by (simp add: log_image_def)
  from read_cut_log [OF f(1-5) this] obtain m torn where m: "m \<le> length rs" "m < length rs \<longrightarrow> n < length (image_of X c (take (Suc m) rs))"
    "read_log (px_core X) cell PushOutbox (Some (take n (image_of X c rs @ t))) = Inr (map snd (take m rs), torn, None)"
    by blast
  have "k \<le> m"
  proof (rule ccontr)
    assume a: "\<not> k \<le> m"
    then have "take (Suc m) (take k rs) = take (Suc m) rs" by (simp add: min_def)
    then have "length (image_of X c (take (Suc m) rs)) \<le> length (image_of X c (take k rs))" using image_take_le by metis
    then show False using a k(1,2) m(2) assms(4) by simp
  qed
  then have "fmlookup (jobs_of X (map snd (take m rs))) i \<noteq> None" using k(3) m(1) by blast
  then show ?thesis using m(3) by (auto simp: load_jobs_read jobs_of_def intro: prod.collapse [symmetric])
qed

section \<open>Every operation keeps a secured job\<close>

lemma open_keeps:
  assumes "out_laws X" "log_form X cell c rs t ob" "kept X i c rs (ob_synced ob)" "ob_writer ob = None"
    "open_append (px_core X) cell PushOutbox salt w (ob_log ob) = (log, r)"
  defines "ob1 \<equiv> ob\<lparr>ob_log := log, ob_synced := still_synced (ob_log ob) log (ob_synced ob)\<rparr>"
  shows "\<exists>t'. log_form X cell c rs t' ob1 \<and> kept X i c rs (ob_synced ob1) \<and>
    (\<forall>wr. r = Inr wr \<longrightarrow> t' = [] \<and> lw_core wr = c \<and> at_end (image_of X c rs) (length rs) wr)"
proof -
  note f = log_formD [OF assms(1,2)]
  have long: "LOG_HEADER_LEN \<le> length (image_of X c rs)" using scan_image(3) [OF f(1-5)] .
  from reopen_image_faulty [OF f(1-5) assms(5) [unfolded f(6)]] show ?thesis
  proof (elim disjE conjE)
    assume "log = Some (image_of X c rs @ t)" "isl r"
    then show ?thesis using assms(2-4) f(6) by (intro exI [of _ t]) (auto simp: ob1_def log_form_def still_synced_def)
  next
    assume l: "log = Some (image_of X c rs)" and wr: "\<forall>wr. r = Inr wr \<longrightarrow> lw_core wr = c \<and> at_end (image_of X c rs) (length rs) wr"
    have "still_synced (ob_log ob) log (ob_synced ob) = (if t = [] then ob_synced ob else min (ob_synced ob) (length (image_of X c rs)))"
      using l f(6) long by (auto simp: still_synced_def)
    then have "kept X i c rs (still_synced (ob_log ob) log (ob_synced ob))" using assms(3) kept_min [OF assms(3)] by simp
    then show ?thesis using assms(2,4) l wr by (intro exI [of _ "[]"]) (auto simp: ob1_def log_form_def)
  qed
qed

lemma append_keeps:
  assumes "out_laws X" "log_form X cell c rs t ob" "kept X i c rs (ob_synced ob)" "length (ai_rnd w) = 16"
    "rec_from_slice X b \<noteq> Some (DelJob i)" "out_append X cell w b durable ob = (ob', ok)"
  shows "ob_keys ob' = ob_keys ob \<and> ob_jobs ob' = ob_jobs ob \<and> ob_tmp ob' = ob_tmp ob \<and> ob_garbage ob' = ob_garbage ob \<and>
    (\<exists>c rs t. log_form X cell c rs t ob' \<and> kept X i c rs (ob_synced ob'))"
proof -
  obtain log r where o: "(case ob_writer ob of Some wr \<Rightarrow> (ob_log ob, Inr wr)
      | None \<Rightarrow> open_append (px_core X) cell PushOutbox (ai_salt w) (ai_open w) (ob_log ob)) = (log, r)"
    by (metis surj_pair)
  define ob1 where "ob1 = ob\<lparr>ob_log := log, ob_synced := still_synced (ob_log ob) log (ob_synced ob)\<rparr>"
  obtain t' where t': "log_form X cell c rs t' ob1" "kept X i c rs (ob_synced ob1)"
    "\<And>wr. r = Inr wr \<Longrightarrow> t' = [] \<and> lw_core wr = c \<and> at_end (image_of X c rs) (length rs) wr"
  proof (cases "ob_writer ob")
    case None
    then show ?thesis using open_keeps [OF assms(1-3) None, of "ai_salt w" "ai_open w" log r] o that unfolding ob1_def by auto
  next
    case (Some wr)
    then show ?thesis using o assms(2,3) that [of t] by (auto simp: ob1_def still_synced_def log_form_def)
  qed
  note f = log_formD [OF assms(1) t'(1)]
  show ?thesis
  proof (cases r)
    case (Inl err)
    then have "ob' = ob1" using assms(6) o by (simp add: out_append_def ob1_def)
    then show ?thesis using t' by (auto simp: ob1_def)
  next
    case (Inr wr)
    obtain g wr' res where a: "log_append (px_core X) (ai_rnd w) (ai_write w) b (image_of X c rs, wr) = ((g, wr'), res)" by (metis surj_pair)
    have wr: "t' = []" "lw_core wr = c" "at_end (image_of X c rs) (length rs) wr" using t'(3) [OF Inr] by simp_all
    note af = append_faulty [OF f(1) wr(2,3) assms(4) a]
    have log: "log = Some (image_of X c rs)" using f(6) wr(1) by (simp add: ob1_def)
    have ob': "\<exists>s. ob' = ob1\<lparr>ob_log := Some g, ob_writer := (if isl res \<or> durable \<and> \<not> ai_sync w then None else Some wr'), ob_synced := s\<rparr> \<and>
        (s = min (ob_synced ob1) (length g) \<or> s = length g)"
      using assms(6) o Inr a log by (auto simp: out_append_def ob1_def Let_def split: if_splits)
    have "\<exists>rs2 t2. log_form X cell c rs2 t2 ob' \<and> kept X i c rs2 (ob_synced ob1) \<and> length (image_of X c rs2) \<le> length g"
    proof (cases "g = image_of X c (rs @ [(ai_rnd w, b)]) \<and> rec_ok c (ai_rnd w, b)")
      case True
      then show ?thesis
        using af ob' t'(1) kept_snoc [OF t'(2) assms(5), of "ai_rnd w"] f
        by (intro exI [of _ "rs @ [(ai_rnd w, b)]"] exI [of _ "[]"]) (auto simp: log_form_def)
    next
      case False
      then obtain t2 where "torn_tail c t2" "g = image_of X c rs @ t2" "isl res" using af by blast
      then show ?thesis using ob' t'(1,2) f by (intro exI [of _ rs] exI [of _ t2]) (auto simp: log_form_def)
    qed
    then obtain rs2 t2 where r2: "log_form X cell c rs2 t2 ob'" "kept X i c rs2 (ob_synced ob1)" "length (image_of X c rs2) \<le> length g" by blast
    obtain s where s: "ob_synced ob' = s" "s = min (ob_synced ob1) (length g) \<or> s = length g" using ob' by auto
    have "kept X i c rs2 s"
      using kept_min [OF r2(2,3)] kept_mono [OF kept_min [OF r2(2,3)], of "length g"] s(2) by auto
    then show ?thesis using r2(1) s(1) ob' by (auto simp: ob1_def)
  qed
qed

lemma fold_lookup:
  assumes "out_laws X"
  shows "fmlookup (fst (foldl (fold_record X) s (live_records X order))) i =
    (case find (\<lambda>j. oj_id j = i) (rev order) of None \<Rightarrow> fmlookup (fst s) i | Some j \<Rightarrow> Some j)"
proof (induction order rule: rev_induct)
  case (snoc j order)
  obtain b where b: "rec_to_vec X (PutJob j) = Some b" "rec_from_slice X b = Some (PutJob j)" using assms by (auto simp: out_laws_def)
  have "live_records X (order @ [j]) = live_records X order @ [b]" using b(1) by (simp add: live_records_def List.map_filter_def)
  then show ?case using snoc b(2) by (auto simp: fold_record_def split: prod.split)
qed (simp add: live_records_def List.map_filter_def)

lemma live_jobs:
  assumes "out_laws X" "keyed jobs" "set order = fmran' jobs"
  shows "jobs_of X (live_records X order) = jobs"
proof (rule fmap_ext)
  fix i
  show "fmlookup (jobs_of X (live_records X order)) i = fmlookup jobs i"
  proof (cases "find (\<lambda>j. oj_id j = i) (rev order)")
    case None
    then have "fmlookup jobs i = None"
      using assms(2,3) by (metis (mono_tags, lifting) find_None_iff fmran'I keyed_def not_None_eq set_rev)
    then show ?thesis using fold_lookup [OF assms(1), of "(fmempty, 0)" order i] None by (simp add: jobs_of_def)
  next
    case (Some j)
    then have "oj_id j = i" "j \<in> fmran' jobs" using assms(3) by (auto simp: find_Some_iff) (metis length_rev nth_mem set_rev)
    then have "fmlookup jobs i = Some j" using assms(2) by (auto simp: keyed_def fmran'_def)
    then show ?thesis using fold_lookup [OF assms(1), of "(fmempty, 0)" order i] Some by (simp add: jobs_of_def)
  qed
qed

lemma keyed_jobs_of: "keyed (jobs_of X recs)"
proof (induction recs rule: rev_induct)
  case (snoc b recs)
  then show ?case
    unfolding jobs_of_snoc by (auto simp: keyed_def jobs_of_def fold_record_def split: prod.splits option.splits out_rec.splits if_splits)
qed (simp add: jobs_of_def keyed_def)

definition benign_compaction :: "compaction \<Rightarrow> bool" where
  "benign_compaction cw \<longleftrightarrow>
     length (ri_salt (fst cw)) = 16 \<and> (\<forall>i. length (ri_rnd (fst cw) i) = 16) \<and> ri_rename (fst cw) \<and>
     (case ri_shred (fst cw) of ShredBroken _ \<Rightarrow> False | _ \<Rightarrow> True) \<and> (\<forall>jobs. set (snd cw jobs) = fmran' jobs)"

lemma staged_form:
  assumes "out_laws X" "benign_compaction cw" "keyed jobs" "fmlookup jobs i \<noteq> None"
    "stage_log (px_core X) cell PushOutbox (fst cw) (live_records X (snd cw jobs)) tmp = (Some f, True)"
  shows "\<exists>c rs. log_form X cell c rs [] (ob\<lparr>ob_log := Some f, ob_writer := None\<rparr>) \<and> kept X i c rs (length f)"
    and "adopt_staged_log (px_core X) cell PushOutbox True (Some f)"
    and "\<exists>g. load_jobs X cell (Some f) = ((jobs, g), False)"
proof -
  have ae: "state_aead_ok (px_core X)" using assms(1) by (simp add: out_laws_def)
  have w: "\<forall>i. length (ri_rnd (fst cw) i) = 16" "length (ri_salt (fst cw)) = 16" "set (snd cw jobs) = fmran' jobs"
    using assms(2) by (simp_all add: benign_compaction_def)
  note st = staged_image [OF ae w(1,2) assms(5)]
  note jobs = live_jobs [OF assms(1,3) w(3)]
  obtain c rs where c: "core_new (px_core X) cell PushOutbox (ri_salt (fst cw)) = Inr c" "list_all (rec_ok c) rs" "f = image_of X c rs"
    "map snd rs = live_records X (snd cw jobs)"
    using st(3) by blast
  have "lc_salt c = ri_salt (fst cw)" using reader_open_header(4) [OF c(1) w(2)] .
  then have "log_form X cell c rs [] (ob\<lparr>ob_log := Some f, ob_writer := None\<rparr>)" using c w(2) by (simp add: log_form_def)
  moreover have "kept X i c rs (length f)"
    unfolding kept_def using c(3,4) jobs assms(4) by (intro exI [of _ "length rs"]) (auto dest: le_antisym)
  ultimately show "\<exists>c rs. log_form X cell c rs [] (ob\<lparr>ob_log := Some f, ob_writer := None\<rparr>) \<and> kept X i c rs (length f)" by blast
  show "adopt_staged_log (px_core X) cell PushOutbox True (Some f)" using st(2) .
  show "\<exists>g. load_jobs X cell (Some f) = ((jobs, g), False)"
    using st(1) jobs by (simp add: load_jobs_read) (metis jobs_of_def prod.collapse)
qed

lemma compact_jobs [simp]: "ob_jobs (compact_if_needed X cw b ob) = ob_jobs ob"
  by (auto simp: compact_if_needed_def rewrite_live_def split: option.split prod.split)

lemma rewrite_secured:
  assumes "out_laws X" "benign_compaction cw" "secured X cell i ob" "rewrite_live X cell (fst cw) (snd cw (ob_jobs ob)) (ob\<lparr>ob_writer := None\<rparr>) = (ob', ok)"
  shows "secured X cell i (ob'\<lparr>ob_garbage := g\<rparr>)"
proof -
  obtain c rs t where s: "ob_keys ob = Some cell" "keyed (ob_jobs ob)" "fmlookup (ob_jobs ob) i \<noteq> None" "log_form X cell c rs t ob"
    "kept X i c rs (ob_synced ob)"
    using assms(3) unfolding secured_def by blast
  obtain tmp st where tmp: "stage_log (px_core X) cell PushOutbox (fst cw) (live_records X (snd cw (ob_jobs ob))) (ob_tmp ob) = (tmp, st)" by (metis surj_pair)
  show ?thesis
  proof (cases "\<exists>f. tmp = Some f \<and> st \<and> ri_shred (fst cw) \<noteq> ShredRefused")
    case True
    then obtain f where f: "tmp = Some f" "st" "ri_shred (fst cw) \<noteq> ShredRefused" by blast
    then have o': "ob' = ob\<lparr>ob_writer := None, ob_log := Some f, ob_tmp := None, ob_synced := length f\<rparr>"
      using assms(2,4) tmp
      by (auto simp: rewrite_live_def rewrite_log_def commit_shredding_def benign_compaction_def Let_def split: option.splits shred_outcome.splits)
    obtain c' rs' where "log_form X cell c' rs' [] (ob'\<lparr>ob_log := Some f, ob_writer := None\<rparr>)" "kept X i c' rs' (length f)"
      using staged_form(1) [OF assms(1,2) s(2,3), of cell "ob_tmp ob" f ob'] tmp f by auto
    then have "log_form X cell c' rs' [] (ob'\<lparr>ob_garbage := g\<rparr>)" "kept X i c' rs' (ob_synced (ob'\<lparr>ob_garbage := g\<rparr>))"
      by (simp_all add: o' log_form_def)
    then show ?thesis unfolding secured_def using s(1-3) o' by auto
  next
    case False
    then have "ob_log ob' = ob_log ob" "ob_synced ob' = ob_synced ob" "ob_writer ob' = None" "ob_keys ob' = ob_keys ob" "ob_jobs ob' = ob_jobs ob"
      using assms(4) tmp log_formD(6) [OF assms(1) s(4)]
      by (auto simp: rewrite_live_def rewrite_log_def commit_shredding_def still_synced_def split: option.splits bool.splits prod.splits)
    then show ?thesis using s by (auto simp: secured_def log_form_def)
  qed
qed

lemma compact_secured:
  assumes "out_laws X" "benign_compaction cw" "secured X cell i ob"
  shows "secured X cell i (compact_if_needed X cw b ob)"
proof -
  have k: "ob_keys ob = Some cell" using assms(3) by (simp add: secured_def)
  obtain ob' ok where r: "rewrite_live X cell (fst cw) (snd cw (ob_jobs ob)) (ob\<lparr>ob_writer := None\<rparr>) = (ob', ok)" by (metis surj_pair)
  have "secured X cell i (ob'\<lparr>ob_garbage := ob_garbage ob'\<rparr>)" "secured X cell i (ob'\<lparr>ob_garbage := 0\<rparr>)"
    using rewrite_secured [OF assms r] by blast+
  then show ?thesis using assms(3) k r by (simp add: compact_if_needed_def)
qed

lemma put_record_secured:
  assumes "out_laws X" "secured X cell i ob" "length (ai_rnd w) = 16" "put_record X w j durable ob = Some ob'"
  shows "secured X cell i ob'"
proof -
  obtain c rs t where s: "ob_keys ob = Some cell" "keyed (ob_jobs ob)" "fmlookup (ob_jobs ob) i \<noteq> None" "log_form X cell c rs t ob"
    "kept X i c rs (ob_synced ob)"
    using assms(2) unfolding secured_def by blast
  obtain b where b: "rec_to_vec X (PutJob j) = Some b" "rec_from_slice X b = Some (PutJob j)" using assms(1) by (auto simp: out_laws_def)
  obtain ob1 ok where a: "out_append X cell w b durable ob = (ob1, ok)" by (metis surj_pair)
  have "rec_from_slice X b \<noteq> Some (DelJob i)" using b(2) by simp
  from append_keeps [OF assms(1) s(4,5) assms(3) this a] obtain c rs t where
    k: "ob_keys ob1 = Some cell" "ob_jobs ob1 = ob_jobs ob" "log_form X cell c rs t ob1" "kept X i c rs (ob_synced ob1)"
    using s(1) by auto
  obtain g where o': "ob' = ob1\<lparr>ob_jobs := fmupd (oj_id j) j (ob_jobs ob), ob_garbage := g\<rparr>"
    using assms(4) s(1) b(1) a k(2) by (auto simp: put_record_def)
  then have "log_form X cell c rs t ob'" "kept X i c rs (ob_synced ob')" using k(3,4) by (simp_all add: log_form_def)
  then show ?thesis unfolding secured_def using o' k(1) s(2,3) by (auto simp: keyed_def)
qed

lemma remove_record_secured:
  assumes "out_laws X" "secured X cell i ob" "length (ai_rnd w) = 16" "remove_record X w k ob = Some ob'" "k \<noteq> i"
  shows "secured X cell i ob'"
proof -
  obtain c rs t where s: "ob_keys ob = Some cell" "keyed (ob_jobs ob)" "fmlookup (ob_jobs ob) i \<noteq> None" "log_form X cell c rs t ob"
    "kept X i c rs (ob_synced ob)"
    using assms(2) unfolding secured_def by blast
  let ?ob = "ob\<lparr>ob_jobs := fmdrop k (ob_jobs ob)\<rparr>"
  obtain b where b: "rec_to_vec X (DelJob k) = Some b" "rec_from_slice X b = Some (DelJob k)" using assms(1) by (auto simp: out_laws_def)
  obtain ob1 ok where a: "out_append X cell w b False ?ob = (ob1, ok)" by (metis surj_pair)
  have "rec_from_slice X b \<noteq> Some (DelJob i)" "log_form X cell c rs t ?ob" "kept X i c rs (ob_synced ?ob)"
    using b(2) assms(5) s(4,5) by (simp_all add: log_form_def)
  from append_keeps [OF assms(1) this(2,3) assms(3) this(1) a] obtain c rs t where
    k: "ob_keys ob1 = Some cell" "ob_jobs ob1 = fmdrop k (ob_jobs ob)" "log_form X cell c rs t ob1" "kept X i c rs (ob_synced ob1)"
    using s(1) by auto
  obtain g where o': "ob' = ob1\<lparr>ob_garbage := g\<rparr>"
    using assms(4) s(1) b(1) a by (auto simp: remove_record_def Let_def split: if_splits)
  then have "log_form X cell c rs t ob'" "kept X i c rs (ob_synced ob')" using k(3,4) by (simp_all add: log_form_def)
  then show ?thesis unfolding secured_def using o' k(1,2) s(2,3) assms(5) by (auto simp: keyed_def)
qed

text \<open>Opening a readable log: the queue is what the log says.\<close>

lemma open_readable:
  assumes "load_jobs X cell (ob_log ob) = ((jobs, g), False)"
  shows "open_outbox X w (Inr cell) ob =
    compact_if_needed X (oq_compact w) True (ob\<lparr>ob_keys := Some cell, ob_jobs := jobs, ob_writer := None, ob_garbage := g\<rparr>)"
  using assms by (subst open_outbox.simps) simp

lemma restart_secured:
  assumes "out_laws X" "secured X cell i ob" "benign_compaction (oq_compact w)"
  shows "secured X cell i (open_outbox X w (Inr cell) ob)"
proof -
  obtain c rs t where s: "ob_keys ob = Some cell" "keyed (ob_jobs ob)" "fmlookup (ob_jobs ob) i \<noteq> None" "log_form X cell c rs t ob"
    "kept X i c rs (ob_synced ob)"
    using assms(2) unfolding secured_def by blast
  obtain jobs g where j: "load_jobs X cell (ob_log ob) = ((jobs, g), False)" "fmlookup jobs i \<noteq> None"
    using kept_read [OF assms(1) s(4,5), of "max (ob_synced ob) (length (image_of X c rs @ t))"] log_formD(6) [OF assms(1) s(4)] by auto
  have "keyed jobs" using j(1) keyed_jobs_of [of X] by (auto simp: load_jobs_read jobs_of_def split: sum.splits prod.splits) (metis fst_conv jobs_of_def)
  then have "secured X cell i (ob\<lparr>ob_keys := Some cell, ob_jobs := jobs, ob_writer := None, ob_garbage := g\<rparr>)"
    unfolding secured_def using s(4,5) j(2) by (auto simp: log_form_def)
  then show ?thesis using open_readable [OF j(1)] compact_secured [OF assms(1,3)] by simp
qed

section \<open>Crashes\<close>

text \<open>Everything an event may meet, except that overwriting the old log breaks off or the staged file cannot be moved.\<close>

fun benign_event :: "key_cell \<Rightarrow> bytes \<Rightarrow> out_event \<Rightarrow> bool" where
  "benign_event cell i (EvPut j durable w cw) \<longleftrightarrow> length (ai_rnd w) = 16 \<and> benign_compaction cw"
| "benign_event cell i (EvUpdate k f w cw) \<longleftrightarrow> length (ai_rnd w) = 16 \<and> benign_compaction cw"
| "benign_event cell i (EvRemove k w cw) \<longleftrightarrow> k \<noteq> i \<and> length (ai_rnd w) = 16 \<and> benign_compaction cw"
| "benign_event cell i (EvShred cw) \<longleftrightarrow> benign_compaction cw"
| "benign_event cell i (EvRestart w keys) \<longleftrightarrow> keys = Inr cell \<and> benign_compaction (oq_compact w)"

text \<open>The state of the queue when the compaction of an event begins.\<close>

fun mid_state :: "pxext \<Rightarrow> outbox \<Rightarrow> out_event \<Rightarrow> outbox option" where
  "mid_state X ob (EvPut j durable w cw) = put_record X w j durable ob"
| "mid_state X ob (EvUpdate i f w cw) = (case get_job i ob of None \<Rightarrow> None | Some j \<Rightarrow> put_record X w (f j) False ob)"
| "mid_state X ob (EvRemove i w cw) = remove_record X w i ob"
| "mid_state X ob _ = None"

lemma mid_secured:
  assumes "out_laws X" "secured X cell i ob" "benign_event cell i e" "mid_state X ob e = Some ob'"
  shows "secured X cell i ob'"
  using assms(3,4) put_record_secured [OF assms(1,2)] remove_record_secured [OF assms(1,2)] by (cases e) (auto split: option.splits)

lemma step_secured:
  assumes "out_laws X" "secured X cell i ob" "benign_event cell i e"
  shows "secured X cell i (out_step X ob e)"
proof (cases e)
  case (EvShred cw)
  then have b: "benign_compaction cw" using assms(3) by simp
  have k: "ob_keys ob = Some cell" using assms(2) by (simp add: secured_def)
  obtain ob' ok where r: "rewrite_live X cell (fst cw) (snd cw (ob_jobs ob)) (ob\<lparr>ob_writer := None\<rparr>) = (ob', ok)" by (metis surj_pair)
  have "secured X cell i (ob'\<lparr>ob_garbage := ob_garbage ob'\<rparr>)" "secured X cell i (ob'\<lparr>ob_garbage := 0\<rparr>)"
    using rewrite_secured [OF assms(1) b assms(2) r] by blast+
  then show ?thesis using assms(2) k r EvShred by (simp add: shred_dead_def)
next
  case (EvRestart w keys)
  then show ?thesis using restart_secured [OF assms(1,2)] assms(3) by simp
qed (use assms(2,3) mid_secured [OF assms] compact_secured [OF assms(1)] in
  \<open>auto simp: put_job_def update_job_def remove_job_def split: option.splits\<close>)

lemma run_secured:
  assumes "out_laws X"
  shows "secured X cell i ob \<Longrightarrow> list_all (benign_event cell i) es \<Longrightarrow> secured X cell i (foldl (out_step X) ob es)"
  by (induction es arbitrary: ob) (use step_secured [OF assms] in auto)

text \<open>
  A queue that was opened and used: the log is missing, empty, or holds records and perhaps a torn one; and what storing
  a record durably without a fault means.
\<close>

definition queue_ok :: "pxext \<Rightarrow> key_cell \<Rightarrow> outbox \<Rightarrow> bool" where
  "queue_ok X cell ob \<longleftrightarrow>
     ob_keys ob = Some cell \<and> cell \<noteq> None \<and> keyed (ob_jobs ob) \<and>
     ((ob_log ob = None \<or> ob_log ob = Some []) \<and> ob_writer ob = None \<or> (\<exists>c rs t. log_form X cell c rs t ob))"

definition stores_durably :: "append_io \<Rightarrow> bool" where
  "stores_durably w \<longleftrightarrow> fault_free (ai_open w) \<and> length (ai_salt w) = 16 \<and> length (ai_rnd w) = 16 \<and> ai_write w = Written \<and> ai_sync w"

definition opened :: "pxext \<Rightarrow> key_cell \<Rightarrow> append_io \<Rightarrow> outbox \<Rightarrow> bytes option \<times> (state_error + log_writer)" where
  "opened X cell w ob =
     (case ob_writer ob of
        Some wr \<Rightarrow> (ob_log ob, Inr wr)
      | None \<Rightarrow> open_append (px_core X) cell PushOutbox (ai_salt w) (ai_open w) (ob_log ob))"

lemma opened_old:
  assumes "out_laws X" "log_form X cell c rs t ob" "stores_durably w"
  shows "\<exists>wr. opened X cell w ob = (Some (image_of X c rs), Inr wr) \<and> lw_core wr = c \<and> at_end (image_of X c rs) (length rs) wr"
proof (cases "ob_writer ob")
  case None
  note d = log_formD [OF assms(1,2)]
  have "fault_free (ai_open w)" using assms(3) by (simp add: stores_durably_def)
  then show ?thesis using None reopen_image [OF d(1-5)] d(6) by (simp add: opened_def at_end_def)
next
  case (Some wr)
  then show ?thesis using assms(2) by (simp add: opened_def log_form_def)
qed

lemma opened_new:
  assumes "stores_durably w" "cell \<noteq> None" "ob_log ob = None \<or> ob_log ob = Some []" "ob_writer ob = None"
  shows "\<exists>c wr. opened X cell w ob = (Some (image_of X c []), Inr wr) \<and> core_new (px_core X) cell PushOutbox (lc_salt c) = Inr c \<and>
    length (lc_salt c) = 16 \<and> lw_core wr = c \<and> at_end (image_of X c []) 0 wr"
proof -
  have w: "fault_free (ai_open w)" "length (ai_salt w) = 16" using assms(1) by (simp_all add: stores_durably_def)
  obtain c where c: "core_new (px_core X) cell PushOutbox (ai_salt w) = Inr c" using assms(2) by (auto simp: core_new_def doc_key_def)
  have "lc_salt c = ai_salt w" using reader_open_header(4) [OF c w(2)] .
  moreover have "image_of X c [] = log_header c" by (simp add: log_image_def)
  ultimately show ?thesis
    using reopen_new(1) [OF c w(2,1) assms(3)] assms(4) c w(2)
    by (intro exI [of _ c] exI [of _ "\<lparr>lw_core = c, lw_seq = 0, lw_end = 22, lw_pos = 22\<rparr>"]) (simp add: opened_def at_end_def)
qed

lemma append_opened:
  assumes "out_laws X" "stores_durably w" "length b \<le> max_record_bytes PushOutbox" "opened X cell w ob = (Some (image_of X c rs), Inr wr)"
    "core_new (px_core X) cell PushOutbox (lc_salt c) = Inr c" "length (lc_salt c) = 16" "list_all (rec_ok c) rs" "lw_core wr = c"
    "at_end (image_of X c rs) (length rs) wr"
  shows "\<exists>ob'. out_append X cell w b durable ob = (ob', True) \<and> log_form X cell c (rs @ [(ai_rnd w, b)]) [] ob' \<and>
    (durable \<longrightarrow> ob_synced ob' = length (image_of X c (rs @ [(ai_rnd w, b)]))) \<and>
    ob_keys ob' = ob_keys ob \<and> ob_jobs ob' = ob_jobs ob \<and> ob_tmp ob' = ob_tmp ob"
proof -
  have w: "length (ai_rnd w) = 16" "ai_write w = Written" "ai_sync w" using assms(2) by (simp_all add: stores_durably_def)
  have ae: "state_aead_ok (px_core X)" using assms(1) by (simp add: out_laws_def)
  have ok: "rec_ok c (ai_rnd w, b)" using assms(3) w(1) reader_open_header(3) [OF assms(5,6)] by (simp add: rec_ok_def)
  obtain wr' where a: "log_append (px_core X) (ai_rnd w) Written b (image_of X c rs, wr) = ((image_of X c (rs @ [(ai_rnd w, b)]), wr'), Inr ())"
    "lw_core wr' = c" "at_end (image_of X c (rs @ [(ai_rnd w, b)])) (Suc (length rs)) wr'"
    using append_image [OF ae ok assms(8,9)] by blast
  show ?thesis
    using assms(4-7) a ok w by (auto simp: out_append_def opened_def [symmetric] log_form_def Let_def)
qed

lemma put_secures:
  assumes "out_laws X" "queue_ok X cell ob" "stores_durably w" "rec_to_vec X (PutJob j) = Some b" "length b \<le> max_record_bytes PushOutbox"
  shows "\<exists>ob'. put_record X w j True ob = Some ob' \<and> secured X cell (oj_id j) ob'"
proof -
  obtain c rs wr where o: "opened X cell w ob = (Some (image_of X c rs), Inr wr)" "core_new (px_core X) cell PushOutbox (lc_salt c) = Inr c"
    "length (lc_salt c) = 16" "list_all (rec_ok c) rs" "lw_core wr = c" "at_end (image_of X c rs) (length rs) wr"
  proof (cases "\<exists>c rs t. log_form X cell c rs t ob")
    case True
    then obtain c rs t where f: "log_form X cell c rs t ob" by blast
    show ?thesis using that opened_old [OF assms(1) f assms(3)] log_formD [OF assms(1) f] by blast
  next
    case False
    then have "cell \<noteq> None" "ob_log ob = None \<or> ob_log ob = Some []" "ob_writer ob = None" using assms(2) by (auto simp: queue_ok_def)
    from opened_new [OF assms(3) this, of X] obtain c wr where "opened X cell w ob = (Some (image_of X c []), Inr wr)"
      "core_new (px_core X) cell PushOutbox (lc_salt c) = Inr c" "length (lc_salt c) = 16" "lw_core wr = c" "at_end (image_of X c []) 0 wr"
      by blast
    then show ?thesis using that [of c "[]" wr] by simp
  qed
  let ?rs = "rs @ [(ai_rnd w, b)]"
  from append_opened [OF assms(1,3,5) o, of True] obtain ob1 where a: "out_append X cell w b True ob = (ob1, True)" "log_form X cell c ?rs [] ob1"
    "ob_synced ob1 = length (image_of X c ?rs)" "ob_keys ob1 = Some cell" "ob_jobs ob1 = ob_jobs ob"
    using assms(2) by (auto simp: queue_ok_def)
  obtain g where p: "put_record X w j True ob = Some (ob1\<lparr>ob_jobs := fmupd (oj_id j) j (ob_jobs ob), ob_garbage := g\<rparr>)"
    using assms(2,4) a by (auto simp: put_record_def queue_ok_def)
  have "rec_from_slice X b = Some (PutJob j)" using assms(1,4) by (metis option.inject out_laws_def)
  then have "fmlookup (jobs_of X (map snd ?rs)) (oj_id j) \<noteq> None"
    using jobs_of_snoc [of X "map snd rs" b] by (simp add: fold_record_def split: prod.split)
  then have "kept X (oj_id j) c ?rs (length (image_of X c ?rs))"
    unfolding kept_def by (intro exI [of _ "length ?rs"]) (auto dest: le_antisym)
  moreover have "log_form X cell c ?rs [] (the (put_record X w j True ob))" using p a(2) by (simp add: log_form_def)
  ultimately have "secured X cell (oj_id j) (the (put_record X w j True ob))"
    unfolding secured_def using p assms(2) a(3-5) by (auto simp: queue_ok_def keyed_def)
  then show ?thesis using p by simp
qed

text \<open>
  The bytes written over an old log hide it: the four bytes that now stand where the length of the first record stood are
  not the length of a record. Of the random words the code draws, about one in 65000 is such a length.
\<close>

definition garbled :: "bytes \<Rightarrow> bool" where
  "garbled fill \<longleftrightarrow>
     (let n = le_val (take 4 (drop 16 fill)) in
      20 \<le> length fill \<and> n \<noteq> 0 \<and> \<not> (MIN_BODY \<le> n \<and> n \<le> NONCE_BYTES + max_record_bytes PushOutbox + TAG_BYTES))"

text \<open>
  What a crash leaves of the files: the log cut anywhere behind the part known to be on disk, with any staged file; or,
  between the staging of a compaction and the move of the staged file, the log either not yet or in part or wholly
  overwritten, with the staged file complete.
\<close>

definition interrupted :: "pxext \<Rightarrow> key_cell \<Rightarrow> compaction \<Rightarrow> outbox \<Rightarrow> outbox \<Rightarrow> bool" where
  "interrupted X cell cw ob ob' \<longleftrightarrow>
     (\<exists>n \<ge> ob_synced ob. ob_log ob' = map_option (take n) (ob_log ob)) \<or>
     (\<exists>f fill staged. ob_log ob = Some f \<and> ob_log ob' = Some (shred f fill) \<and> ob_tmp ob' = Some staged \<and>
        stage_log (px_core X) cell PushOutbox (fst cw) (live_records X (snd cw (ob_jobs ob))) (ob_tmp ob) = (Some staged, True) \<and>
        (fill = [] \<or> garbled fill))"

lemma garbled_damaged:
  assumes "core_new (px_core X) cell PushOutbox (lc_salt c) = Inr c" "length (lc_salt c) = 16" "4 \<le> length b" "garbled fill"
  shows "snd (load_jobs X cell (Some (shred (log_header c @ b) fill)))"
proof -
  let ?rest = "take (length b) (drop 16 fill) @ drop (6 + length fill) (log_header c @ b)"
  have l: "lc_label c = PushOutbox" "20 \<le> length fill" using reader_open_header(3) [OF assms(1,2)] assms(4) by (simp_all add: garbled_def Let_def)
  obtain c' where c': "core_new (px_core X) cell PushOutbox (take 16 fill) = Inr c'"
    using assms(1) by (auto simp: core_new_def split: sum.splits)
  then have k: "lc_label c' = PushOutbox" "lc_salt c' = take 16 fill" using reader_open_header(3,4) [OF c'] l(2) by simp_all
  have "length (log_header c) = 22" using assms(2) by simp
  moreover have "take 6 (log_header c @ b) = LOG_MAGIC @ [LOG_VERSION, label_id PushOutbox]"
    using l(1) by (simp add: log_header_def)
  moreover have "take (length b + 16) fill = take 16 fill @ take (length b) (drop 16 fill)" by (metis add.commute take_add)
  ultimately have f: "shred (log_header c @ b) fill = log_header c' @ ?rest"
    using k by (simp add: shred_def log_header_def add.commute)
  have t: "take 4 ?rest = take 4 (drop 16 fill)" "4 \<le> length ?rest" using assms(3) l(2) by auto
  have "next_record (px_core X) (reader_at (log_header c' @ ?rest) c' 0 22) =
      ((reader_at (log_header c' @ ?rest) c' 0 22)\<lparr>lr_done := True\<rparr>, Inl (Corrupt 22))"
    using t k l(2) assms(3,4) by (auto simp: next_record_def reader_at_def Let_def garbled_def max_body_def del: take_append)
  then have "read_records (px_core X) (reader_at (log_header c' @ ?rest) c' 0 22) [] =
      ((reader_at (log_header c' @ ?rest) c' 0 22)\<lparr>lr_done := True\<rparr>, [], Some (Corrupt 22))"
    by (subst read_records.simps) simp
  then show ?thesis
    using reader_open_header(1) [OF c', of ?rest] l(2) f by (simp add: load_jobs_read read_log_def)
qed

lemma secured_log:
  assumes "out_laws X" "secured X cell i ob" "ob_log ob = Some f"
  shows "\<exists>c b. f = log_header c @ b \<and> core_new (px_core X) cell PushOutbox (lc_salt c) = Inr c \<and> length (lc_salt c) = 16 \<and> 4 \<le> length b"
proof -
  obtain c rs t where s: "log_form X cell c rs t ob" "kept X i c rs (ob_synced ob)" using assms(2) unfolding secured_def by blast
  note d = log_formD [OF assms(1) s(1)]
  have "rs \<noteq> []" using s(2) by (auto simp: kept_def jobs_of_def)
  then obtain r rs' where rs: "rs = r # rs'" by (cases rs) auto
  then have "rec_ok c (fst r, snd r)" using d(4) by simp
  from frame_ok [OF d(1) this, of 0] obtain body where "frame (px_core X) c 0 (fst r) (snd r) = Inr (le_bytes 4 (length body) @ body)" by metis
  then have "image_of X c rs = log_header c @ le_bytes 4 (length body) @ body @ frames (px_core X) c (Suc 0) rs'"
    by (cases r) (simp add: log_image_def rs)
  then show ?thesis using d(2,3,6) assms(3) by (intro exI [of _ c] exI [of _ "le_bytes 4 (length body) @ body @ frames (px_core X) c (Suc 0) rs' @ t"]) simp
qed

lemma crash_recovers:
  assumes "out_laws X" "secured X cell i ob" "benign_compaction cw" "interrupted X cell cw ob ob'" "oq_renamed w"
  shows "get_job i (open_outbox X w (Inr cell) ob') \<noteq> None"
proof -
  obtain c rs t where s: "ob_keys ob = Some cell" "keyed (ob_jobs ob)" "fmlookup (ob_jobs ob) i \<noteq> None" "log_form X cell c rs t ob"
    "kept X i c rs (ob_synced ob)"
    using assms(2) unfolding secured_def by blast
  note f = log_formD [OF assms(1) s(4)]
  have cut: ?thesis if n: "ob_synced ob \<le> n" "ob_log ob' = map_option (take n) (ob_log ob)" for n
  proof -
    from kept_read [OF assms(1) s(4,5) n(1)] obtain jobs g where "load_jobs X cell (ob_log ob') = ((jobs, g), False)" "fmlookup jobs i \<noteq> None"
      using n(2) f(6) by auto
    then show ?thesis using open_readable by (simp add: get_job_def)
  qed
  have adopted: ?thesis if a: "ob_tmp ob' = Some staged" "snd (load_jobs X cell (ob_log ob'))"
    "stage_log (px_core X) cell PushOutbox (fst cw) (live_records X (snd cw (ob_jobs ob))) (ob_tmp ob) = (Some staged, True)" for staged
  proof -
    note st = staged_form [OF assms(1,3) s(2,3) a(3)]
    let ?ob = "ob'\<lparr>ob_log := Some staged, ob_tmp := None, ob_synced := 0\<rparr>"
    have "open_outbox X w (Inr cell) ob' = open_outbox X w (Inr cell) ?ob"
      using a(1,2) st(2) assms(5) by (subst open_outbox.simps) (auto split: prod.split)
    moreover obtain m where "load_jobs X cell (ob_log ?ob) = ((ob_jobs ob, m), False)" using st(3) by auto
    then have "ob_jobs (open_outbox X w (Inr cell) ?ob) = ob_jobs ob" using open_readable by simp
    ultimately show ?thesis using s(3) by (simp add: get_job_def)
  qed
  from assms(4) show ?thesis unfolding interrupted_def
  proof (elim disjE exE conjE)
    fix g fill staged
    assume a: "ob_log ob = Some g" "ob_log ob' = Some (shred g fill)" "ob_tmp ob' = Some staged" "garbled fill"
      "stage_log (px_core X) cell PushOutbox (fst cw) (live_records X (snd cw (ob_jobs ob))) (ob_tmp ob) = (Some staged, True)"
    have "snd (load_jobs X cell (ob_log ob'))" using secured_log [OF assms(1,2) a(1)] garbled_damaged a(2,4) by auto
    then show ?thesis using adopted [OF a(3)] a(5) by blast
  next
    fix g fill staged assume "ob_log ob = Some g" "ob_log ob' = Some (shred g fill)" "fill = []"
    then show ?thesis using cut [of "max (ob_synced ob) (length g)"] by (simp add: shred_def)
  qed (use cut in blast)
qed


section \<open>Without crashes the log mirrors the queue\<close>

text \<open>What the operations promise, on the map of jobs alone.\<close>

fun spec_step :: "(bytes, out_job) fmap \<Rightarrow> out_event \<Rightarrow> (bytes, out_job) fmap" where
  "spec_step jobs (EvPut j durable w cw) = fmupd (oj_id j) j jobs"
| "spec_step jobs (EvUpdate i f w cw) = (case fmlookup jobs i of None \<Rightarrow> jobs | Some j \<Rightarrow> fmupd (oj_id (f j)) (f j) jobs)"
| "spec_step jobs (EvRemove i w cw) = fmdrop i jobs"
| "spec_step jobs _ = jobs"

definition mirrors :: "pxext \<Rightarrow> key_cell \<Rightarrow> outbox \<Rightarrow> bool" where
  "mirrors X cell ob \<longleftrightarrow>
     ob_keys ob = Some cell \<and> cell \<noteq> None \<and> keyed (ob_jobs ob) \<and>
     ((ob_log ob = None \<or> ob_log ob = Some []) \<and> ob_writer ob = None \<and> ob_jobs ob = fmempty \<or>
      (\<exists>c rs t. log_form X cell c rs t ob \<and> jobs_of X (map snd rs) = ob_jobs ob))"

text \<open>No fault: the log can be opened and written, compaction works or is refused, and the records fit.\<close>

definition stores :: "pxext \<Rightarrow> append_io \<Rightarrow> out_rec \<Rightarrow> bool" where
  "stores X w r \<longleftrightarrow> stores_durably w \<and> (case rec_to_vec X r of None \<Rightarrow> False | Some b \<Rightarrow> length b \<le> max_record_bytes PushOutbox)"

fun smooth_event :: "pxext \<Rightarrow> key_cell \<Rightarrow> (bytes, out_job) fmap \<Rightarrow> out_event \<Rightarrow> bool" where
  "smooth_event X cell jobs (EvPut j durable w cw) \<longleftrightarrow> stores X w (PutJob j) \<and> benign_compaction cw"
| "smooth_event X cell jobs (EvUpdate k f w cw) \<longleftrightarrow>
     (case fmlookup jobs k of None \<Rightarrow> True | Some j \<Rightarrow> stores X w (PutJob (f j))) \<and> benign_compaction cw"
| "smooth_event X cell jobs (EvRemove k w cw) \<longleftrightarrow> stores X w (DelJob k) \<and> benign_compaction cw"
| "smooth_event X cell jobs (EvShred cw) \<longleftrightarrow> benign_compaction cw"
| "smooth_event X cell jobs (EvRestart w keys) \<longleftrightarrow> keys = Inr cell \<and> benign_compaction (oq_compact w)"

fun smooth_run :: "pxext \<Rightarrow> key_cell \<Rightarrow> (bytes, out_job) fmap \<Rightarrow> out_event list \<Rightarrow> bool" where
  "smooth_run X cell jobs [] \<longleftrightarrow> True"
| "smooth_run X cell jobs (e # es) \<longleftrightarrow> smooth_event X cell jobs e \<and> smooth_run X cell (spec_step jobs e) es"

lemma mirrorsI:
  "ob_keys ob = Some cell \<Longrightarrow> cell \<noteq> None \<Longrightarrow> keyed (ob_jobs ob) \<Longrightarrow> log_form X cell c rs t ob \<Longrightarrow> jobs_of X (map snd rs) = ob_jobs ob \<Longrightarrow> mirrors X cell ob"
  unfolding mirrors_def by blast

lemma mirror_opened:
  assumes "out_laws X" "mirrors X cell ob" "stores_durably w"
  obtains c rs wr where "opened X cell w ob = (Some (image_of X c rs), Inr wr)" "core_new (px_core X) cell PushOutbox (lc_salt c) = Inr c"
    "length (lc_salt c) = 16" "list_all (rec_ok c) rs" "lw_core wr = c" "at_end (image_of X c rs) (length rs) wr" "jobs_of X (map snd rs) = ob_jobs ob"
proof (cases "\<exists>c rs t. log_form X cell c rs t ob \<and> jobs_of X (map snd rs) = ob_jobs ob")
  case True
  then obtain c rs t where f: "log_form X cell c rs t ob" "jobs_of X (map snd rs) = ob_jobs ob" by blast
  show ?thesis using that opened_old [OF assms(1) f(1) assms(3)] log_formD [OF assms(1) f(1)] f(2) by blast
next
  case False
  then have "cell \<noteq> None" "ob_log ob = None \<or> ob_log ob = Some []" "ob_writer ob = None" "ob_jobs ob = fmempty"
    using assms(2) by (auto simp: mirrors_def)
  moreover from opened_new [OF assms(3) this(1-3), of X] obtain c wr where "opened X cell w ob = (Some (image_of X c []), Inr wr)"
    "core_new (px_core X) cell PushOutbox (lc_salt c) = Inr c" "length (lc_salt c) = 16" "lw_core wr = c" "at_end (image_of X c []) 0 wr"
    by blast
  ultimately show ?thesis using that [of c "[]" wr] by (simp add: jobs_of_def)
qed

lemma append_mirrors:
  assumes "out_laws X" "mirrors X cell ob" "stores X w r" "rec_to_vec X r = Some b" "out_append X cell w b durable ob = (ob', ok)"
    "jobs = fst (fold_record X (ob_jobs ob, 0) b)"
  shows "mirrors X cell (ob'\<lparr>ob_jobs := jobs, ob_garbage := g\<rparr>)" and "ob_keys ob' = Some cell" and "ob_jobs ob' = ob_jobs ob"
proof -
  have w: "stores_durably w" "length b \<le> max_record_bytes PushOutbox" using assms(3,4) by (auto simp: stores_def)
  obtain c rs wr where o: "opened X cell w ob = (Some (image_of X c rs), Inr wr)" "core_new (px_core X) cell PushOutbox (lc_salt c) = Inr c"
    "length (lc_salt c) = 16" "list_all (rec_ok c) rs" "lw_core wr = c" "at_end (image_of X c rs) (length rs) wr" "jobs_of X (map snd rs) = ob_jobs ob"
    by (rule mirror_opened [OF assms(1,2) w(1)])
  from append_opened [OF assms(1) w o(1-6), of durable] assms(5) have a: "log_form X cell c (rs @ [(ai_rnd w, b)]) [] ob'"
    "ob_keys ob' = ob_keys ob" "ob_jobs ob' = ob_jobs ob" by auto
  have j: "jobs_of X (map snd (rs @ [(ai_rnd w, b)])) = jobs"
    using o(7) assms(6) jobs_of_snoc [of X "map snd rs" b] by (auto simp: jobs_of_def fold_record_def split: prod.splits option.splits out_rec.splits)
  then have "keyed jobs" using keyed_jobs_of by metis
  moreover have "log_form X cell c (rs @ [(ai_rnd w, b)]) [] (ob'\<lparr>ob_jobs := jobs, ob_garbage := g\<rparr>)" using a(1) by (simp add: log_form_def)
  moreover have "ob_keys ob = Some cell" "cell \<noteq> None" using assms(2) by (simp_all add: mirrors_def)
  ultimately show "mirrors X cell (ob'\<lparr>ob_jobs := jobs, ob_garbage := g\<rparr>)"
    using a(2) j by (intro mirrorsI [of _ _ _ c "rs @ [(ai_rnd w, b)]" "[]"]) simp_all
  show "ob_keys ob' = Some cell" "ob_jobs ob' = ob_jobs ob" using a(2,3) assms(2) by (simp_all add: mirrors_def)
qed

lemma rewrite_mirrors:
  assumes "out_laws X" "benign_compaction cw" "mirrors X cell ob" "rewrite_live X cell (fst cw) (snd cw (ob_jobs ob)) (ob\<lparr>ob_writer := None\<rparr>) = (ob', ok)"
  shows "mirrors X cell (ob'\<lparr>ob_garbage := g\<rparr>)" and "ob_jobs ob' = ob_jobs ob"
proof -
  have m: "ob_keys ob = Some cell" "cell \<noteq> None" "keyed (ob_jobs ob)" using assms(3) by (simp_all add: mirrors_def)
  obtain tmp st where tmp: "stage_log (px_core X) cell PushOutbox (fst cw) (live_records X (snd cw (ob_jobs ob))) (ob_tmp ob) = (tmp, st)" by (metis surj_pair)
  show "ob_jobs ob' = ob_jobs ob" using assms(4) by (auto simp: rewrite_live_def split: prod.splits)
  show "mirrors X cell (ob'\<lparr>ob_garbage := g\<rparr>)"
  proof (cases "\<exists>f. tmp = Some f \<and> st \<and> (ob_log ob = None \<or> ri_shred (fst cw) \<noteq> ShredRefused)")
    case True
    then obtain f where f: "tmp = Some f" "st" "ob_log ob = None \<or> ri_shred (fst cw) \<noteq> ShredRefused" by blast
    then have o': "ob' = ob\<lparr>ob_writer := None, ob_log := Some f, ob_tmp := None, ob_synced := length f\<rparr>"
      using assms(2,4) tmp
      by (auto simp: rewrite_live_def rewrite_log_def commit_shredding_def benign_compaction_def Let_def split: option.splits shred_outcome.splits)
    have ae: "state_aead_ok (px_core X)" using assms(1) by (simp add: out_laws_def)
    have w: "\<forall>i. length (ri_rnd (fst cw) i) = 16" "length (ri_salt (fst cw)) = 16" "set (snd cw (ob_jobs ob)) = fmran' (ob_jobs ob)"
      using assms(2) by (simp_all add: benign_compaction_def)
    obtain c rs where c: "core_new (px_core X) cell PushOutbox (ri_salt (fst cw)) = Inr c" "list_all (rec_ok c) rs" "f = image_of X c rs"
      "map snd rs = live_records X (snd cw (ob_jobs ob))"
      using staged_image(3) [OF ae w(1,2), of cell PushOutbox "live_records X (snd cw (ob_jobs ob))" "ob_tmp ob" f] tmp f(1,2) by auto
    have "lc_salt c = ri_salt (fst cw)" using reader_open_header(4) [OF c(1) w(2)] .
    then have "log_form X cell c rs [] (ob'\<lparr>ob_garbage := g\<rparr>)" using c w(2) by (simp add: o' log_form_def)
    moreover have "jobs_of X (map snd rs) = ob_jobs ob" using live_jobs [OF assms(1) m(3) w(3)] c(4) by simp
    ultimately show ?thesis using m by (intro mirrorsI [of _ _ _ c rs "[]"]) (simp_all add: o')
  next
    case False
    then have "ob_log ob' = ob_log ob" "ob_writer ob' = None" "ob_keys ob' = ob_keys ob" "ob_jobs ob' = ob_jobs ob"
      using assms(4) tmp by (auto simp: rewrite_live_def rewrite_log_def commit_shredding_def split: option.splits bool.splits prod.splits)
    then show ?thesis using assms(3) by (auto simp: mirrors_def log_form_def)
  qed
qed

lemma compact_mirrors:
  assumes "out_laws X" "benign_compaction cw" "mirrors X cell ob"
  shows "mirrors X cell (compact_if_needed X cw b ob)"
proof -
  obtain ob' ok where r: "rewrite_live X cell (fst cw) (snd cw (ob_jobs ob)) (ob\<lparr>ob_writer := None\<rparr>) = (ob', ok)" by (metis surj_pair)
  have "mirrors X cell (ob'\<lparr>ob_garbage := ob_garbage ob'\<rparr>)" "mirrors X cell (ob'\<lparr>ob_garbage := 0\<rparr>)"
    using rewrite_mirrors(1) [OF assms r] by blast+
  then show ?thesis using assms(3) r by (auto simp: compact_if_needed_def mirrors_def)
qed

lemma mirror_load:
  assumes "out_laws X" "mirrors X cell ob"
  obtains g where "load_jobs X cell (ob_log ob) = ((ob_jobs ob, g), False)"
proof (cases "\<exists>c rs t. log_form X cell c rs t ob \<and> jobs_of X (map snd rs) = ob_jobs ob")
  case True
  then obtain c rs t where f: "log_form X cell c rs t ob" "jobs_of X (map snd rs) = ob_jobs ob" by blast
  note d = log_formD [OF assms(1) f(1)]
  have "load_jobs X cell (ob_log ob) = ((ob_jobs ob, snd (foldl (fold_record X) (fmempty, 0) (map snd rs))), False)"
    using read_log_image [OF d(1-5)] d(6) f(2) by (simp add: load_jobs_read jobs_of_def) (metis prod.collapse)
  then show ?thesis using that by blast
next
  case False
  then have "ob_log ob = None \<or> ob_log ob = Some []" "ob_jobs ob = fmempty" using assms(2) by (auto simp: mirrors_def)
  then show ?thesis using that [of 0] read_nothing [of "px_core X" cell PushOutbox] by (auto simp: load_jobs_read)
qed

lemma append_other_jobs:
  "out_append X cell w b durable (ob\<lparr>ob_jobs := jobs\<rparr>) =
     ((fst (out_append X cell w b durable ob))\<lparr>ob_jobs := jobs\<rparr>, snd (out_append X cell w b durable ob))"
proof -
  obtain log r where o: "(case ob_writer ob of Some wr \<Rightarrow> (ob_log ob, Inr wr)
      | None \<Rightarrow> open_append (px_core X) cell PushOutbox (ai_salt w) (ai_open w) (ob_log ob)) = (log, r)" by (metis surj_pair)
  then have o': "(case ob_writer (ob\<lparr>ob_jobs := jobs\<rparr>) of Some wr \<Rightarrow> (ob_log (ob\<lparr>ob_jobs := jobs\<rparr>), Inr wr)
      | None \<Rightarrow> open_append (px_core X) cell PushOutbox (ai_salt w) (ai_open w) (ob_log (ob\<lparr>ob_jobs := jobs\<rparr>))) = (log, r)"
    by (cases "ob_writer ob") simp_all
  show ?thesis
  proof (cases r)
    case (Inl e)
    then show ?thesis unfolding out_append_def o o' by simp
  next
    case (Inr wr)
    obtain f wr' r' where "log_append (px_core X) (ai_rnd w) (ai_write w) b (case log of None \<Rightarrow> [] | Some f \<Rightarrow> f, wr) = ((f, wr'), r')"
      by (metis surj_pair)
    then show ?thesis using Inr unfolding out_append_def o o' by (simp add: Let_def)
  qed
qed

lemma put_mirrors:
  assumes "out_laws X" "mirrors X cell ob" "stores X w (PutJob j)" "benign_compaction cw"
  shows "mirrors X cell (put_job X w cw j durable ob)" and "ob_jobs (put_job X w cw j durable ob) = fmupd (oj_id j) j (ob_jobs ob)"
proof -
  obtain b where b: "rec_to_vec X (PutJob j) = Some b" "rec_from_slice X b = Some (PutJob j)" using assms(1) by (auto simp: out_laws_def)
  obtain ob1 ok where a: "out_append X cell w b durable ob = (ob1, ok)" by (metis surj_pair)
  have k: "ob_keys ob = Some cell" using assms(2) by (simp add: mirrors_def)
  have j: "fst (fold_record X (ob_jobs ob, 0) b) = fmupd (oj_id j) j (ob_jobs ob)" using b(2) by (simp add: fold_record_def)
  note m = append_mirrors [OF assms(1-3) b(1) a j [symmetric]]
  obtain g where "put_record X w j durable ob = Some (ob1\<lparr>ob_jobs := fmupd (oj_id j) j (ob_jobs ob), ob_garbage := g\<rparr>)"
    using k b(1) a m(3) by (simp add: put_record_def)
  then show "mirrors X cell (put_job X w cw j durable ob)" "ob_jobs (put_job X w cw j durable ob) = fmupd (oj_id j) j (ob_jobs ob)"
    using compact_mirrors [OF assms(1,4) m(1)] by (simp_all add: put_job_def)
qed

lemma remove_mirrors:
  assumes "out_laws X" "mirrors X cell ob" "stores X w (DelJob i)" "benign_compaction cw"
  shows "mirrors X cell (remove_job X w cw i ob)" and "ob_jobs (remove_job X w cw i ob) = fmdrop i (ob_jobs ob)"
proof -
  obtain b where b: "rec_to_vec X (DelJob i) = Some b" "rec_from_slice X b = Some (DelJob i)" using assms(1) by (auto simp: out_laws_def)
  have k: "ob_keys ob = Some cell" using assms(2) by (simp add: mirrors_def)
  obtain ob1 ok where a: "out_append X cell w b False ob = (ob1, ok)" by (metis surj_pair)
  have j: "fst (fold_record X (ob_jobs ob, 0) b) = fmdrop i (ob_jobs ob)" using b(2) by (simp add: fold_record_def)
  note m = append_mirrors [OF assms(1-3) b(1) a j [symmetric]]
  have "out_append X cell w b False (ob\<lparr>ob_jobs := fmdrop i (ob_jobs ob)\<rparr>) = (ob1\<lparr>ob_jobs := fmdrop i (ob_jobs ob)\<rparr>, ok)"
    by (subst append_other_jobs) (simp add: a)
  then have "fmlookup (ob_jobs ob) i \<noteq> None \<Longrightarrow> \<exists>g. remove_record X w i ob = Some (ob1\<lparr>ob_jobs := fmdrop i (ob_jobs ob), ob_garbage := g\<rparr>)"
    using k b(1) by (auto simp: remove_record_def)
  then show "mirrors X cell (remove_job X w cw i ob)" "ob_jobs (remove_job X w cw i ob) = fmdrop i (ob_jobs ob)"
    using compact_mirrors [OF assms(1,4) m(1)] k assms(2)
    by (cases "fmlookup (ob_jobs ob) i", auto simp: remove_job_def remove_record_def fmdrop_absent)+
qed

lemma restart_mirrors:
  assumes "out_laws X" "mirrors X cell ob"
  shows "benign_compaction (oq_compact w) \<Longrightarrow> mirrors X cell (open_outbox X w (Inr cell) ob)" and "ob_jobs (open_outbox X w (Inr cell) ob) = ob_jobs ob"
proof -
  obtain g where g: "load_jobs X cell (ob_log ob) = ((ob_jobs ob, g), False)" by (rule mirror_load [OF assms])
  note o = open_readable [OF g]
  have "mirrors X cell (ob\<lparr>ob_keys := Some cell, ob_jobs := ob_jobs ob, ob_writer := None, ob_garbage := g\<rparr>)"
    using assms(2) by (auto simp: mirrors_def log_form_def)
  then show "benign_compaction (oq_compact w) \<Longrightarrow> mirrors X cell (open_outbox X w (Inr cell) ob)" using compact_mirrors [OF assms(1)] o by simp
  show "ob_jobs (open_outbox X w (Inr cell) ob) = ob_jobs ob" using o by simp
qed

lemma step_mirrors:
  assumes "out_laws X" "mirrors X cell ob" "smooth_event X cell (ob_jobs ob) e"
  shows "mirrors X cell (out_step X ob e) \<and> ob_jobs (out_step X ob e) = spec_step (ob_jobs ob) e"
proof (cases e)
  case (EvShred cw)
  obtain ob' ok where r: "rewrite_live X cell (fst cw) (snd cw (ob_jobs ob)) (ob\<lparr>ob_writer := None\<rparr>) = (ob', ok)" by (metis surj_pair)
  have b: "benign_compaction cw" "ob_keys ob = Some cell" using assms(2,3) EvShred by (simp_all add: mirrors_def)
  have "mirrors X cell (ob'\<lparr>ob_garbage := ob_garbage ob'\<rparr>)" "mirrors X cell (ob'\<lparr>ob_garbage := 0\<rparr>)" "ob_jobs ob' = ob_jobs ob"
    using rewrite_mirrors [OF assms(1) b(1) assms(2) r] by blast+
  then show ?thesis using assms(2) b(2) r EvShred by (simp add: shred_dead_def)
qed (use assms put_mirrors [OF assms(1,2)] remove_mirrors [OF assms(1,2)] restart_mirrors [OF assms(1,2)] in
  \<open>auto simp: update_job_def get_job_def split: option.splits\<close>)

text \<open>
  C8: the queue is the map it stands for. While files can be written, any sequence of puts, updates, removals, shreddings
  and restarts leaves exactly the jobs that the same operations leave in a map, and opening the queue again gives them
  back; when the log is compacted is not visible.
\<close>

theorem queue_refines_map:
  assumes "out_laws X" and "mirrors X cell ob" and "smooth_run X cell (ob_jobs ob) es" and "ob' = foldl (out_step X) ob es"
  shows "ob_jobs ob' = foldl spec_step (ob_jobs ob) es \<and> ob_jobs (open_outbox X w (Inr cell) ob') = foldl spec_step (ob_jobs ob) es"
proof -
  have "mirrors X cell (foldl (out_step X) ob es) \<and> ob_jobs (foldl (out_step X) ob es) = foldl spec_step (ob_jobs ob) es"
    using assms(2,3) by (induction es arbitrary: ob) (use step_mirrors [OF assms(1)] in auto)
  then show ?thesis using restart_mirrors(2) [OF assms(1)] assms(4) by simp
qed

text \<open>
  C35: a shredding that breaks off loses the queue. When overwriting the old log fails after it has written something, the
  complete staged copy is deleted as well: the call reports an error, the jobs are still there in memory, and after the
  next start the queue is empty.
\<close>

theorem broken_shred_loses_queue:
  assumes "ob_keys ob = Some cell" and "ob_log ob = Some f" and "ri_shred (fst cw) = ShredBroken fill" and "ri_remove (fst cw)"
    and "stage_log (px_core X) cell PushOutbox (fst cw) (live_records X (snd cw (ob_jobs ob))) (ob_tmp ob) = (Some staged, True)"
    and "snd (load_jobs X cell (Some (shred f fill)))"
  shows "\<exists>ob'. shred_dead X cw ob = (ob', False) \<and> ob_jobs ob' = ob_jobs ob \<and> ob_tmp ob' = None \<and>
    ob_jobs (open_outbox X io (Inr cell) ob') = fmempty"
proof -
  obtain s where s: "shred_dead X cw ob = (ob\<lparr>ob_writer := None, ob_log := Some (shred f fill), ob_tmp := None, ob_synced := s\<rparr>, False)"
    using assms(1-5) by (simp add: shred_dead_def rewrite_live_def rewrite_log_def commit_shredding_def)
  have "\<not> adopt_staged_log (px_core X) cell PushOutbox (oq_renamed io) None" using adopt_some by blast
  then have "ob_jobs (open_outbox X io (Inr cell) (ob\<lparr>ob_writer := None, ob_log := Some (shred f fill), ob_tmp := None, ob_synced := s\<rparr>)) = fmempty"
    using assms(6) by (subst open_outbox.simps) (auto simp: Let_def split: prod.split)
  then show ?thesis using s by simp
qed

section \<open>Every state is well formed\<close>

text \<open>
  Jobs are filed under their own ids, a queue without keys holds nothing, and no more of the log is taken to be on disk
  than there is.
\<close>

definition outbox_ok :: "outbox \<Rightarrow> bool" where
  "outbox_ok ob \<longleftrightarrow>
     keyed (ob_jobs ob) \<and> (ob_keys ob = None \<longrightarrow> ob_jobs ob = fmempty \<and> ob_writer ob = None \<and> ob_garbage ob = 0) \<and>
     (case ob_log ob of None \<Rightarrow> ob_synced ob = 0 | Some f \<Rightarrow> ob_synced ob \<le> length f)"

definition disk_ok :: "bytes option \<Rightarrow> nat \<Rightarrow> bool" where
  "disk_ok log n \<longleftrightarrow> (case log of None \<Rightarrow> n = 0 | Some f \<Rightarrow> n \<le> length f)"

lemma still_synced_ok: "disk_ok old n \<Longrightarrow> disk_ok new (still_synced old new n)"
  by (auto simp: disk_ok_def still_synced_def split: option.splits)

lemma append_ok:
  assumes "disk_ok (ob_log ob) (ob_synced ob)"
  shows "disk_ok (ob_log (fst (out_append X cell w b durable ob))) (ob_synced (fst (out_append X cell w b durable ob)))"
    and "ob_keys (fst (out_append X cell w b durable ob)) = ob_keys ob" and "ob_jobs (fst (out_append X cell w b durable ob)) = ob_jobs ob"
proof -
  obtain log r where o: "opened X cell w ob = (log, r)" by (metis surj_pair)
  show "disk_ok (ob_log (fst (out_append X cell w b durable ob))) (ob_synced (fst (out_append X cell w b durable ob)))"
    "ob_keys (fst (out_append X cell w b durable ob)) = ob_keys ob" "ob_jobs (fst (out_append X cell w b durable ob)) = ob_jobs ob"
    using still_synced_ok [OF assms, of log]
    unfolding out_append_def opened_def [symmetric] o
    by (auto simp: Let_def disk_ok_def split: sum.splits prod.splits option.splits)
qed

lemma rewrite_ok:
  assumes "disk_ok (ob_log ob) (ob_synced ob)" "rewrite_live X cell w order ob = (ob', ok)"
  shows "disk_ok (ob_log ob') (ob_synced ob')" "ob_jobs ob' = ob_jobs ob" "ob_keys ob' = ob_keys ob" "ob_writer ob' = ob_writer ob" "ob_garbage ob' = ob_garbage ob"
proof -
  obtain log tmp where "rewrite_log (px_core X) cell PushOutbox w (live_records X order) (ob_log ob, ob_tmp ob) = ((log, tmp), ok)"
    using assms(2) by (auto simp: rewrite_live_def split: prod.splits)
  then show "disk_ok (ob_log ob') (ob_synced ob')" "ob_jobs ob' = ob_jobs ob" "ob_keys ob' = ob_keys ob" "ob_writer ob' = ob_writer ob" "ob_garbage ob' = ob_garbage ob"
    using assms(2) still_synced_ok [OF assms(1), of log] by (auto simp: rewrite_live_def disk_ok_def split: option.splits)
qed

lemma outbox_ok_alt:
  "outbox_ok ob \<longleftrightarrow> keyed (ob_jobs ob) \<and> (ob_keys ob = None \<longrightarrow> ob_jobs ob = fmempty \<and> ob_writer ob = None \<and> ob_garbage ob = 0) \<and> disk_ok (ob_log ob) (ob_synced ob)"
  by (simp add: outbox_ok_def disk_ok_def)

lemma compact_ok: "outbox_ok ob \<Longrightarrow> outbox_ok (compact_if_needed X cw b ob)"
  using rewrite_ok [of "ob\<lparr>ob_writer := None\<rparr>" X] by (auto simp: compact_if_needed_def outbox_ok_alt split: option.split prod.split)

lemma shred_ok: "outbox_ok ob \<Longrightarrow> outbox_ok (fst (shred_dead X cw ob))"
  using rewrite_ok [of "ob\<lparr>ob_writer := None\<rparr>" X] by (auto simp: shred_dead_def outbox_ok_alt split: option.split prod.split)

lemma keyed_upd: "keyed jobs \<Longrightarrow> oj_id j = i \<Longrightarrow> keyed (fmupd i j jobs)" and keyed_drop: "keyed jobs \<Longrightarrow> keyed (fmdrop i jobs)"
  by (auto simp: keyed_def split: if_splits)

lemma put_record_ok: "outbox_ok ob \<Longrightarrow> put_record X w j durable ob = Some ob' \<Longrightarrow> outbox_ok ob'"
  using append_ok [of ob X] by (auto simp: put_record_def case_prod_beta outbox_ok_alt keyed_upd split: option.splits)

lemma put_ok: "outbox_ok ob \<Longrightarrow> outbox_ok (put_job X w cw j durable ob)"
  using put_record_ok [of ob X w j durable] by (auto simp: put_job_def intro: compact_ok split: option.split)

lemma remove_record_ok: "outbox_ok ob \<Longrightarrow> remove_record X w i ob = Some ob' \<Longrightarrow> outbox_ok ob'"
  using append_ok [of "ob\<lparr>ob_jobs := fmdrop i (ob_jobs ob)\<rparr>" X]
  by (auto simp: remove_record_def Let_def outbox_ok_alt keyed_drop split: option.splits if_splits)

lemma remove_ok: "outbox_ok ob \<Longrightarrow> outbox_ok (remove_job X w cw i ob)"
  using remove_record_ok [of ob X w i] by (auto simp: remove_job_def intro: compact_ok split: option.split)

lemma load_keyed: "load_jobs X cell log = ((jobs, g), d) \<Longrightarrow> keyed jobs"
  using keyed_jobs_of [of X]
  by (auto simp: load_jobs_def jobs_of_def keyed_def split: sum.splits option.splits prod.splits) (metis fst_conv)+

lemma open_ok: "disk_ok (ob_log ob) (ob_synced ob) \<Longrightarrow> outbox_ok (open_outbox X w keys ob)"
proof (induction X w keys ob rule: open_outbox.induct)
  case (1 X w keys ob)
  show ?case
  proof (cases keys)
    case (Inl e)
    then show ?thesis using 1(2) by (subst open_outbox.simps) (simp add: outbox_ok_alt disabled_def keyed_def)
  next
    case (Inr cell)
    obtain jobs g d where l: "load_jobs X cell (ob_log ob) = ((jobs, g), d)" by (metis surj_pair)
    show ?thesis
    proof (cases "d \<and> adopt_staged_log (px_core X) cell PushOutbox (oq_renamed w) (ob_tmp ob)")
      case True
      then show ?thesis using 1(1) [OF Inr l [symmetric] refl True] Inr l
        by (subst open_outbox.simps) (simp add: disk_ok_def split: option.split)
    next
      case False
      define ob' where "ob' = (if d \<and> oq_aside w
        then ob\<lparr>ob_log := None, ob_synced := 0, ob_aside := ob_aside ob @ (case ob_log ob of None \<Rightarrow> [] | Some f \<Rightarrow> [f])\<rparr> else ob)"
      have "keyed fmempty" by (simp add: keyed_def)
      then have "outbox_ok (ob'\<lparr>ob_keys := Some cell, ob_jobs := (if d then fmempty else jobs), ob_writer := None, ob_garbage := (if d then 0 else g)\<rparr>)"
        using load_keyed [OF l] 1(2) by (auto simp: outbox_ok_alt ob'_def disk_ok_def)
      then show ?thesis using False Inr l by (subst open_outbox.simps) (auto simp: Let_def ob'_def compact_ok)
    qed
  qed
qed

lemma step_ok: "outbox_ok ob \<Longrightarrow> outbox_ok (out_step X ob e)"
  by (cases e) (auto simp: update_job_def put_ok remove_ok shred_ok outbox_ok_alt [of ob] intro: open_ok split: option.split)

interpretation send_queue: machine "out_step X" outbox_ok for X
  by unfold_locales (rule step_ok)

text \<open>
  C18: the queue stays well formed whatever happens. From a queue opened on any files with any outcome for its keys, any
  sequence of operations with any write, flush, rename or removal errors keeps every job under its own id; a queue whose
  keys could not be loaded holds no job and opens no log; and what is taken to be on disk is a part of the file.
\<close>

theorem queue_well_formed:
  "outbox_ok (foldl (out_step X) (open_outbox X w keys (disabled\<lparr>ob_log := log, ob_tmp := tmp\<rparr>)) es)"
proof -
  have "outbox_ok (open_outbox X w keys (disabled\<lparr>ob_log := log, ob_tmp := tmp\<rparr>))" by (rule open_ok) (simp add: disk_ok_def disabled_def split: option.split)
  then show ?thesis by (rule send_queue.inv_run)
qed

end
