(* ===== verification/State_Examples.thy ===== *)
theory State_Examples
  imports Push_Outbox "HOL-Library.List_Lexorder"
begin

text \<open>
  Concrete instances for the record log and the queue: a cipher that copies its input, an encoding of records in place of
  JSON, a queue with two jobs; and the theorems about log and queue applied to them.
\<close>

section \<open>Instances\<close>

definition demo_sk :: skext where
  "demo_sk = \<lparr>sk_hkdf = (\<lambda>salt ikm info. replicate 32 3), sk_seal = (\<lambda>k n a p. Some (p, replicate 16 0)), sk_open = (\<lambda>k n a c t. Some c)\<rparr>"

lemma demo_sk_ok: "state_aead_ok demo_sk"
  by (simp add: state_aead_ok_def demo_sk_def)

text \<open>A list of byte strings as bytes: every byte behind a 1, every string closed by a 0.\<close>

definition put_string :: "bytes \<Rightarrow> bytes" where
  "put_string s = concat (map (\<lambda>b. [1, b]) s) @ [0]"

fun get_strings :: "bytes \<Rightarrow> bytes \<Rightarrow> bytes list" where
  "get_strings s [] = []"
| "get_strings s [_] = [s]"
| "get_strings s (t # b # bs) = (if t = 1 then get_strings (s @ [b]) bs else s # get_strings [] (b # bs))"

lemma get_put_string: "get_strings s (put_string t @ bs) = (s @ t) # get_strings [] bs"
proof (induction t arbitrary: s)
  case Nil
  then show ?case by (cases bs) (simp_all add: put_string_def)
qed (simp add: put_string_def)

lemma get_put_strings: "get_strings [] (concat (map put_string ss)) = ss"
  by (induction ss) (simp_all add: get_put_string)

lemma length_put_string [simp]: "length (put_string s) = 2 * length s + 1"
  by (simp add: put_string_def length_concat comp_def sum_list_triv)

definition demo_strings :: "out_rec \<Rightarrow> bytes list" where
  "demo_strings r =
     (case r of
        DelJob i \<Rightarrow> [i]
      | PutJob j \<Rightarrow>
          [oj_id j, oj_contact j, oj_path j, oj_name j, be_bytes 8 (unat (oj_size j)), be_bytes 8 (unat (oj_mtime j)),
           (case oj_hash j of None \<Rightarrow> [] | Some h \<Rightarrow> 1 # h), be_bytes 8 (unat (oj_offset j)), be_bytes 4 (unat (oj_attempt j)),
           be_bytes 8 (unat (oj_created j))])"

definition demo_rec :: "bytes list \<Rightarrow> out_rec option" where
  "demo_rec ss =
     (case ss of
        [i] \<Rightarrow> Some (DelJob i)
      | [i, c, p, n, s, t, h, off, a, cr] \<Rightarrow>
          Some (PutJob \<lparr>oj_id = i, oj_contact = c, oj_path = p, oj_name = n, oj_size = word_of_nat (be_val s), oj_mtime = word_of_nat (be_val t),
            oj_hash = (case h of [] \<Rightarrow> None | _ # h \<Rightarrow> Some h), oj_offset = word_of_nat (be_val off), oj_attempt = word_of_nat (be_val a),
            oj_created = word_of_nat (be_val cr)\<rparr>)
      | _ \<Rightarrow> None)"

definition demo_px :: pxext where
  "demo_px = \<lparr>px_core = demo_sk, rec_to_vec = (\<lambda>r. Some (concat (map put_string (demo_strings r)))),
     rec_from_slice = (\<lambda>b. demo_rec (get_strings [] b))\<rparr>"

lemma demo_rec_strings: "demo_rec (demo_strings r) = Some r"
  by (cases r) (simp_all add: demo_rec_def demo_strings_def word_be split: option.split)

lemma demo_px_ok: "out_laws demo_px"
  using demo_sk_ok by (simp add: out_laws_def demo_px_def get_put_strings demo_rec_strings)

definition demo_cell :: key_cell where "demo_cell = Some [7]"
definition demo_order :: "(bytes, out_job) fmap \<Rightarrow> out_job list" where "demo_order jobs = map snd (sorted_list_of_fmap jobs)"
definition demo_open :: open_io where "demo_open = \<lparr>oi_dir = True, oi_create = Created, oi_reopen = True, oi_cut = CutDone\<rparr>"
definition demo_append :: append_io where
  "demo_append = \<lparr>ai_salt = replicate 16 5, ai_open = demo_open, ai_rnd = replicate 16 6, ai_write = Written, ai_sync = True\<rparr>"
definition demo_rewrite :: rewrite_io where
  "demo_rewrite = \<lparr>ri_salt = replicate 16 8, ri_open = demo_open, ri_rnd = (\<lambda>i. replicate 16 9), ri_write = (\<lambda>i. Written), ri_sync = True,
     ri_fsync = True, ri_shred = Shredded [], ri_rename = True, ri_remove = True\<rparr>"
definition demo_compaction :: compaction where "demo_compaction = (demo_rewrite, demo_order)"
definition demo_queue :: outbox where "demo_queue = disabled\<lparr>ob_keys := Some demo_cell\<rparr>"
definition demo_reopen :: open_queue_io where "demo_reopen = \<lparr>oq_renamed = True, oq_aside = True, oq_compact = demo_compaction\<rparr>"
definition demo_job :: "bytes \<Rightarrow> out_job" where
  "demo_job i = \<lparr>oj_id = i, oj_contact = [1], oj_path = [2], oj_name = [3], oj_size = 10, oj_mtime = 4, oj_hash = None, oj_offset = 0,
     oj_attempt = 0, oj_created = 5\<rparr>"

lemma demo_order_set: "set (demo_order jobs) = fmran' jobs"
proof -
  have "set (demo_order jobs) = (\<lambda>k. the (fmlookup jobs k)) ` fset (fmdom jobs)" by (simp add: demo_order_def sorted_list_of_fmap_def image_image)
  also have "\<dots> = fmran' jobs" by (force simp: fmran'_def fmlookup_dom_iff)
  finally show ?thesis .
qed

lemma demo_compaction_ok: "benign_compaction demo_compaction"
  by (simp add: benign_compaction_def demo_compaction_def demo_rewrite_def demo_order_set)

lemma demo_append_ok: "stores_durably demo_append"
  by (simp add: stores_durably_def demo_append_def fault_free_def demo_open_def)

lemma demo_stores: "length i \<le> 100 \<Longrightarrow> stores demo_px demo_append (PutJob (demo_job i))" "length i \<le> 100 \<Longrightarrow> stores demo_px demo_append (DelJob i)"
  using demo_append_ok by (simp_all add: stores_def demo_px_def demo_strings_def demo_job_def max_record_bytes_def)

lemma demo_queue_ok: "queue_ok demo_px demo_cell demo_queue" "mirrors demo_px demo_cell demo_queue"
  by (simp_all add: queue_ok_def mirrors_def demo_queue_def disabled_def demo_cell_def keyed_def)

section \<open>Logs\<close>

definition demo_log :: log_core where "demo_log = \<lparr>lc_key = replicate 32 3, lc_label = PushOutbox, lc_salt = replicate 16 5\<rparr>"
definition demo_entries :: "(bytes \<times> bytes) list" where "demo_entries = [(replicate 16 6, [1, 2, 3]), (replicate 16 7, [4])]"

lemma demo_log_core: "core_new demo_sk demo_cell PushOutbox (replicate 16 5) = Inr demo_log"
  by (simp add: core_new_def doc_key_def demo_cell_def demo_sk_def demo_log_def)

lemma demo_entries_ok: "list_all (rec_ok demo_log) demo_entries"
  by (simp add: demo_entries_def rec_ok_def demo_log_def max_record_bytes_def)

lemma demo_open_ok: "fault_free demo_open"
  by (simp add: fault_free_def demo_open_def)

lemma demo_image_length: "length (log_image demo_sk demo_log demo_entries) = 114"
  by (simp add: log_image_def log_header_def demo_entries_def demo_log_def frame_def seal_detached_def demo_sk_def NONCE_BYTES_def TAG_BYTES_def)

theorem reopen_keeps_records_witness:
  "\<exists>f wr. open_append demo_sk demo_cell PushOutbox (replicate 16 5) demo_open (Some (log_image demo_sk demo_log demo_entries @ [0, 0, 0])) = (Some f, Inr wr) \<and>
     at_end f 2 wr \<and> read_log demo_sk demo_cell PushOutbox (Some f) = Inr ([[1, 2, 3], [4]], None, None)"
proof -
  have "torn_tail demo_log [0, 0, 0]" by (simp add: torn_tail_def) (metis replicate_0 replicate_Suc)
  from reopen_keeps_records [OF read_log_image [OF demo_sk_ok demo_log_core _ demo_entries_ok this] demo_open_ok demo_log_core]
  show ?thesis by (simp add: demo_entries_def numeral_2_eq_2)
qed

lemma demo_image_one: "length (log_image demo_sk demo_log (take (Suc 0) demo_entries)) = 69"
  by (simp add: log_image_def log_header_def demo_entries_def demo_log_def frame_def seal_detached_def demo_sk_def NONCE_BYTES_def TAG_BYTES_def)

theorem log_survives_crash_witness:
  "\<exists>torn. read_log demo_sk demo_cell PushOutbox (Some (take 80 (log_image demo_sk demo_log demo_entries))) = Inr ([[1, 2, 3]], torn, None)"
proof -
  have n: "80 \<le> length (log_image demo_sk demo_log demo_entries)" by (simp add: demo_image_length)
  have l: "length demo_entries = 2" and s: "length (replicate 16 (5 :: u8)) = 16" by (simp_all add: demo_entries_def)
  obtain m torn where m: "m \<le> 2" "length (log_image demo_sk demo_log (take m demo_entries)) \<le> 80"
    "m < 2 \<longrightarrow> 80 < length (log_image demo_sk demo_log (take (Suc m) demo_entries))"
    "read_log demo_sk demo_cell PushOutbox (Some (take 80 (log_image demo_sk demo_log demo_entries))) = Inr (map snd (take m demo_entries), torn, None)"
    using log_survives_crash [OF demo_sk_ok demo_log_core s demo_entries_ok demo_entries_ok _ n demo_open_ok, of "[]" 0] l by auto
  have t: "take 2 demo_entries = demo_entries" by (simp add: demo_entries_def)
  have "m \<noteq> 2" using m(2) demo_image_length t by auto
  moreover have "m \<noteq> 0" using m(3) demo_image_one by (cases m) auto
  ultimately have "m = 1" using m(1) by simp
  then show ?thesis using m(4) by (simp add: demo_entries_def)
qed

theorem log_reading_ends_witness:
  "\<exists>n \<le> 3. snd (next_record demo_sk (((\<lambda>r. fst (next_record demo_sk r)) ^^ n) (reader_at (log_image demo_sk demo_log demo_entries) demo_log 0 22))) = Inr None"
proof -
  have "reader_open demo_sk demo_cell PushOutbox (Some (log_image demo_sk demo_log demo_entries)) =
      Inr (Some (reader_at (log_image demo_sk demo_log demo_entries) demo_log 0 22))"
    unfolding log_image_def by (rule reader_open_header(1) [OF demo_log_core]) simp
  from log_reading_ends [OF this] show ?thesis by (simp add: demo_image_length)
qed

section \<open>Queues\<close>


theorem queue_refines_map_witness:
  "fmlookup (ob_jobs (open_outbox demo_px demo_reopen (Inr demo_cell)
     (foldl (out_step demo_px) demo_queue [EvPut (demo_job [1]) False demo_append demo_compaction, EvPut (demo_job [2]) True demo_append demo_compaction,
        EvRestart demo_reopen (Inr demo_cell), EvRemove [1] demo_append demo_compaction, EvShred demo_compaction]))) [2] = Some (demo_job [2])"
proof -
  let ?es = "[EvPut (demo_job [1]) False demo_append demo_compaction, EvPut (demo_job [2]) True demo_append demo_compaction,
        EvRestart demo_reopen (Inr demo_cell), EvRemove [1] demo_append demo_compaction, EvShred demo_compaction]"
  have "smooth_run demo_px demo_cell (ob_jobs demo_queue) ?es"
    using demo_stores demo_compaction_ok by (simp add: demo_reopen_def)
  from queue_refines_map [OF demo_px_ok demo_queue_ok(2) this refl, of demo_reopen]
  have "ob_jobs (open_outbox demo_px demo_reopen (Inr demo_cell) (foldl (out_step demo_px) demo_queue ?es)) = foldl spec_step (ob_jobs demo_queue) ?es" by blast
  then show ?thesis by (simp add: demo_job_def)
qed

text \<open>The log of a queue with one job, overwritten with bytes that are no length of a record.\<close>

lemma overwritten_unreadable:
  assumes "26 \<le> length f" "take 6 f = LOG_MAGIC @ [LOG_VERSION, label_id PushOutbox]"
  shows "snd (load_jobs demo_px demo_cell (Some (shred f (replicate (length f - 6) 255))))"
proof -
  define g where "g = shred f (replicate (length f - 6) 255)"
  have g: "g = (LOG_MAGIC @ [LOG_VERSION, label_id PushOutbox] @ replicate 16 255) @ replicate 4 255 @ replicate (length f - 26) 255"
    unfolding g_def shred_def assms(2) by (simp add: replicate_add [symmetric]) (use assms(1) in linarith)
  define c where "c = demo_log\<lparr>lc_salt := replicate 16 255\<rparr>"
  have c: "core_new demo_sk demo_cell PushOutbox (replicate 16 255) = Inr c"
    by (simp add: core_new_def doc_key_def demo_cell_def demo_sk_def demo_log_def c_def)
  have h: "g = log_header c @ replicate 4 255 @ replicate (length f - 26) 255" "length (log_header c) = 22"
    unfolding g by (simp_all add: log_header_def c_def demo_log_def)
  have r: "reader_open demo_sk demo_cell PushOutbox (Some g) = Inr (Some (reader_at g c 0 22))"
    unfolding h(1) by (rule reader_open_header(1) [OF c]) simp
  have "take 4 (drop 22 g) = replicate 4 255" "4 \<le> length g - 22" using h by simp_all
  moreover have "replicate 4 (255 :: u8) = [255, 255, 255, 255]" by (simp add: eval_nat_numeral)
  then have "le_val (replicate 4 255) = 4294967295" by (simp add: le_val_def be_val_def)
  moreover have "max_body c < 4294967295" by (simp add: max_body_def c_def demo_log_def max_record_bytes_def NONCE_BYTES_def TAG_BYTES_def)
  ultimately have "slot_at c g 22 = Damage" by (simp add: slot_at_def)
  then have "read_records demo_sk (reader_at g c 0 22) [] = ((reader_at g c 0 22)\<lparr>lr_done := True\<rparr>, [], Some (Corrupt 22))"
    by (subst read_records_slot) simp
  then show ?thesis unfolding g_def [symmetric] using r by (simp add: load_jobs_def demo_px_def)
qed

theorem broken_shred_loses_queue_witness:
  "\<exists>f cw ob'. let ob = demo_queue\<lparr>ob_log := Some f, ob_jobs := fmupd [1] (demo_job [1]) fmempty\<rparr> in
     load_jobs demo_px demo_cell (Some f) = ((ob_jobs ob, 0), False) \<and> shred_dead demo_px cw ob = (ob', False) \<and> ob_jobs ob' = ob_jobs ob \<and>
     ob_jobs (open_outbox demo_px demo_reopen (Inr demo_cell) ob') = fmempty"
proof -
  obtain b where b: "rec_to_vec demo_px (PutJob (demo_job [1])) = Some b" "length b \<le> max_record_bytes PushOutbox" "rec_from_slice demo_px b = Some (PutJob (demo_job [1]))"
    using demo_stores(1) [of "[1]"] demo_px_ok by (auto simp: stores_def out_laws_def split: option.splits) (metis option.inject)
  define f where "f = log_image demo_sk demo_log [(replicate 16 6, b)]"
  have ok: "list_all (rec_ok demo_log) [(replicate 16 6, b)]" using b(2) by (simp add: rec_ok_def demo_log_def)
  have len: "26 \<le> length f"
    by (simp add: f_def log_image_def log_header_def demo_log_def frame_def seal_detached_def demo_sk_def NONCE_BYTES_def TAG_BYTES_def)
  have hd: "take 6 f = LOG_MAGIC @ [LOG_VERSION, label_id PushOutbox]" by (simp add: f_def log_image_def log_header_def demo_log_def)
  have "read_log demo_sk demo_cell PushOutbox (Some f) = Inr ([b], None, None)"
    using read_log_image [OF demo_sk_ok demo_log_core _ ok torn_nil] by (simp add: f_def)
  then have l: "load_jobs demo_px demo_cell (Some f) = ((fmupd [1] (demo_job [1]) fmempty, 0), False)"
    using b(3) by (simp add: load_jobs_read fold_record_def demo_px_def demo_job_def)
  let ?jobs = "fmupd [1] (demo_job [1]) fmempty"
  let ?w = "demo_rewrite\<lparr>ri_shred := ShredBroken (replicate (length f - 6) 255)\<rparr>"
  have "demo_order ?jobs = [demo_job [1]]" by (simp add: demo_order_def sorted_list_of_fmap_def sorted_list_of_fset.rep_eq)
  then have live: "live_records demo_px (demo_order ?jobs) = [b]" using b(1) by (simp add: live_records_def List.map_filter_def)
  have "\<exists>staged. stage_log demo_sk demo_cell PushOutbox ?w [b] None = (Some staged, True)"
    using b(2) by (simp add: stage_log_def create_file_def core_new_def doc_key_def demo_cell_def demo_rewrite_def demo_open_def log_append_def
      demo_sk_def frame_def seal_detached_def)
  then obtain staged where st: "stage_log demo_sk demo_cell PushOutbox ?w [b] None = (Some staged, True)" by blast
  let ?ob = "demo_queue\<lparr>ob_log := Some f, ob_jobs := ?jobs\<rparr>" and ?cw = "(?w, demo_order)"
  have k: "ob_keys ?ob = Some demo_cell" "ob_log ?ob = Some f" "ob_jobs ?ob = ?jobs" "ob_tmp ?ob = None" by (simp_all add: demo_queue_def disabled_def)
  have sh: "ri_shred (fst ?cw) = ShredBroken (replicate (length f - 6) 255)" "ri_remove (fst ?cw)" by (simp_all add: demo_rewrite_def)
  have core: "px_core demo_px = demo_sk" by (simp add: demo_px_def)
  have "stage_log (px_core demo_px) demo_cell PushOutbox (fst ?cw) (live_records demo_px (snd ?cw (ob_jobs ?ob))) (ob_tmp ?ob) = (Some staged, True)"
    using st live k core by simp
  from broken_shred_loses_queue [OF k(1,2) sh this overwritten_unreadable [OF len hd], of demo_reopen]
  obtain ob' where "shred_dead demo_px ?cw ?ob = (ob', False)" "ob_jobs ob' = ?jobs" "ob_jobs (open_outbox demo_px demo_reopen (Inr demo_cell) ob') = fmempty"
    unfolding k(3) by blast
  then show ?thesis using l k(3) by (intro exI [of _ f] exI [of _ ?cw] exI [of _ ob']) (simp add: Let_def)
qed

end
