(* ===== verification/Mailbox_Wire.thy ===== *)
theory Mailbox_Wire
  imports Ratchet
begin

text \<open>
  The wire format between a node and the contacts that hold messages for it, \<^verbatim>\<open>chat/mailbox/wire.rs\<close> and \<^verbatim>\<open>ids.rs\<close>: one
  frame for a request, one for its answer. A request or answer is read back from its frame, whatever follows it, and
  no proper prefix of a frame is accepted.
\<close>

section \<open>Names and limits\<close>

definition MAX_FRAME_BODY :: nat where "MAX_FRAME_BODY = 1 + MAX_HEADER_BYTES + 4 + MAX_CIPHERTEXT"
definition MAX_ITEM_BYTES :: nat where "MAX_ITEM_BYTES = MAX_FRAME_BODY + 32"
definition MAX_LIST :: nat where "MAX_LIST = 64"
definition MAX_CUSTODY_BODY :: nat where "MAX_CUSTODY_BODY = 1 + 16 + 16 + 4 + MAX_ITEM_BYTES"
definition CUSTODY_STREAM_TAG :: u8 where "CUSTODY_STREAM_TAG = 0xC0"

definition REQ_DEPOSIT :: u8 where "REQ_DEPOSIT = 0x20"
definition REQ_LIST :: u8 where "REQ_LIST = 0x21"
definition REQ_FETCH :: u8 where "REQ_FETCH = 0x22"
definition REQ_DELETE :: u8 where "REQ_DELETE = 0x23"
definition RSP_DEPOSIT_OK :: u8 where "RSP_DEPOSIT_OK = 0x30"
definition RSP_LISTING :: u8 where "RSP_LISTING = 0x31"
definition RSP_ITEM :: u8 where "RSP_ITEM = 0x32"
definition RSP_DELETED :: u8 where "RSP_DELETED = 0x33"
definition RSP_REFUSED :: u8 where "RSP_REFUSED = 0x3f"

lemmas wire_tags = REQ_DEPOSIT_def REQ_LIST_def REQ_FETCH_def REQ_DELETE_def RSP_DEPOSIT_OK_def RSP_LISTING_def RSP_ITEM_def
  RSP_DELETED_def RSP_REFUSED_def

section \<open>Messages\<close>

datatype deposit_outcome = Stored | Duplicate
datatype custody_error = CuDisabled | NotTrusted | TooBig | CuFull | DepositorBudget
datatype wire_error = WireIo | BadLength nat | BadType u8 | WireMalformed string

datatype mb_request =
    ReqDeposit bytes bytes bytes
  | ReqList bytes u64
  | ReqFetch bytes bytes u64
  | ReqDelete bytes bytes

datatype mb_response =
    RspDeposited deposit_outcome
  | RspListing "bytes list"
  | RspItem "bytes option"
  | RspDeleted bool
  | RspRefused custody_error

fun error_code :: "custody_error \<Rightarrow> u8" where
  "error_code CuDisabled = 1"
| "error_code NotTrusted = 2"
| "error_code TooBig = 3"
| "error_code CuFull = 4"
| "error_code DepositorBudget = 5"

definition error_from_code :: "u8 \<Rightarrow> custody_error option" where
  "error_from_code c =
     (if c = 1 then Some CuDisabled
      else if c = 2 then Some NotTrusted
      else if c = 3 then Some TooBig
      else if c = 4 then Some CuFull
      else if c = 5 then Some DepositorBudget
      else None)"

definition mb_frame :: "u8 \<Rightarrow> bytes \<Rightarrow> bytes" where
  "mb_frame ty payload = be_bytes 4 (length payload + 1) @ ty # payload"

definition encode_request :: "mb_request \<Rightarrow> bytes" where
  "encode_request r =
     (case r of
        ReqDeposit tag item blob \<Rightarrow> mb_frame REQ_DEPOSIT (tag @ item @ be_bytes 4 (length blob) @ blob)
      | ReqList tag now \<Rightarrow> mb_frame REQ_LIST (tag @ be_bytes 8 (unat now))
      | ReqFetch tag item now \<Rightarrow> mb_frame REQ_FETCH (tag @ item @ be_bytes 8 (unat now))
      | ReqDelete tag item \<Rightarrow> mb_frame REQ_DELETE (tag @ item))"

definition encode_response :: "mb_response \<Rightarrow> bytes" where
  "encode_response r =
     (case r of
        RspDeposited out \<Rightarrow> mb_frame RSP_DEPOSIT_OK [case out of Stored \<Rightarrow> 0 | Duplicate \<Rightarrow> 1]
      | RspListing ids \<Rightarrow>
          let ids = take (min (length ids) MAX_LIST) ids in mb_frame RSP_LISTING (be_bytes 2 (length ids) @ concat ids)
      | RspItem item \<Rightarrow> mb_frame RSP_ITEM (case item of Some b \<Rightarrow> 1 # b | None \<Rightarrow> [0])
      | RspDeleted b \<Rightarrow> mb_frame RSP_DELETED [if b then 1 else 0]
      | RspRefused e \<Rightarrow> mb_frame RSP_REFUSED [error_code e])"

definition decode_body_request :: "bytes \<Rightarrow> wire_error + mb_request" where
  "decode_body_request body =
     (case body of
        [] \<Rightarrow> Inl (BadLength 0)
      | ty # payload \<Rightarrow>
          (let bad = WireMalformed ''request'' in
           if ty = REQ_DEPOSIT then
             need bad (rd_bytes 16 payload) (\<lambda>tag s.
             need bad (rd_bytes 16 s) (\<lambda>item s.
             need bad (rd_u32 s) (\<lambda>n s.
               if MAX_ITEM_BYTES < unat n then Inl (WireMalformed ''deposit size'')
               else need bad (rd_bytes (unat n) s) (\<lambda>blob _. Inr (ReqDeposit tag item blob)))))
           else if ty = REQ_LIST then
             need bad (rd_bytes 16 payload) (\<lambda>tag s. need bad (rd_u64 s) (\<lambda>now _. Inr (ReqList tag now)))
           else if ty = REQ_FETCH then
             need bad (rd_bytes 16 payload) (\<lambda>tag s.
             need bad (rd_bytes 16 s) (\<lambda>item s. need bad (rd_u64 s) (\<lambda>now _. Inr (ReqFetch tag item now))))
           else if ty = REQ_DELETE then
             need bad (rd_bytes 16 payload) (\<lambda>tag s. need bad (rd_bytes 16 s) (\<lambda>item _. Inr (ReqDelete tag item)))
           else Inl (BadType ty)))"

fun read_ids :: "nat \<Rightarrow> bytes \<Rightarrow> bytes list option" where
  "read_ids 0 s = Some []"
| "read_ids (Suc n) s = (case rd_bytes 16 s of None \<Rightarrow> None | Some (i, s) \<Rightarrow> map_option ((#) i) (read_ids n s))"

definition decode_body_response :: "bytes \<Rightarrow> wire_error + mb_response" where
  "decode_body_response body =
     (case body of
        [] \<Rightarrow> Inl (BadLength 0)
      | ty # payload \<Rightarrow>
          (let bad = WireMalformed ''response'' in
           if ty = RSP_DEPOSIT_OK then
             need bad (rd_u8 payload) (\<lambda>b _.
               if b = 0 then Inr (RspDeposited Stored)
               else if b = 1 then Inr (RspDeposited Duplicate)
               else Inl (WireMalformed ''deposit outcome''))
           else if ty = RSP_LISTING then
             need bad (rd_u16 payload) (\<lambda>n s.
               if MAX_LIST < unat n then Inl (WireMalformed ''listing count'')
               else case read_ids (unat n) s of None \<Rightarrow> Inl bad | Some ids \<Rightarrow> Inr (RspListing ids))
           else if ty = RSP_ITEM then
             need bad (rd_u8 payload) (\<lambda>b s.
               if b = 0 then Inr (RspItem None)
               else if b = 1 then Inr (RspItem (Some s))
               else Inl (WireMalformed ''item present''))
           else if ty = RSP_DELETED then need bad (rd_u8 payload) (\<lambda>b _. Inr (RspDeleted (b \<noteq> 0)))
           else if ty = RSP_REFUSED then
             need bad (rd_u8 payload) (\<lambda>b _.
               case error_from_code b of None \<Rightarrow> Inl (WireMalformed ''refusal reason'') | Some e \<Rightarrow> Inr (RspRefused e))
           else Inl (BadType ty)))"

definition split_frame :: "bytes \<Rightarrow> wire_error + bytes \<times> nat" where
  "split_frame b =
     (if length b < 4 then Inl (BadLength (length b))
      else
        let len = be_val (take 4 b) in
        if len = 0 \<or> MAX_CUSTODY_BODY < len then Inl (BadLength len)
        else if length b < 4 + len then Inl (BadLength (length b))
        else Inr (take len (drop 4 b), 4 + len))"

definition decode_request :: "bytes \<Rightarrow> wire_error + mb_request \<times> nat" where
  "decode_request b =
     (case split_frame b of
        Inl err \<Rightarrow> Inl err
      | Inr (body, used) \<Rightarrow> (case decode_body_request body of Inl err \<Rightarrow> Inl err | Inr r \<Rightarrow> Inr (r, used)))"

definition decode_response :: "bytes \<Rightarrow> wire_error + mb_response \<times> nat" where
  "decode_response b =
     (case split_frame b of
        Inl err \<Rightarrow> Inl err
      | Inr (body, used) \<Rightarrow> (case decode_body_response body of Inl err \<Rightarrow> Inl err | Inr r \<Rightarrow> Inr (r, used)))"

text \<open>Reading a frame from a stream that ends after \<open>s\<close>.\<close>

definition read_mb_frame :: "bytes \<Rightarrow> wire_error + bytes" where
  "read_mb_frame s =
     (if length s < 4 then Inl WireIo
      else
        let len = be_val (take 4 s) in
        if len = 0 \<or> MAX_CUSTODY_BODY < len then Inl (BadLength len)
        else if length s < 4 + len then Inl WireIo
        else Inr (take len (drop 4 s)))"

definition read_mb_request :: "bytes \<Rightarrow> wire_error + mb_request" where
  "read_mb_request s = (case read_mb_frame s of Inl err \<Rightarrow> Inl err | Inr body \<Rightarrow> decode_body_request body)"

definition read_mb_response :: "bytes \<Rightarrow> wire_error + mb_response" where
  "read_mb_response s = (case read_mb_frame s of Inl err \<Rightarrow> Inl err | Inr body \<Rightarrow> decode_body_response body)"

section \<open>Frames are read back\<close>

definition wf_request :: "mb_request \<Rightarrow> bool" where
  "wf_request r \<longleftrightarrow>
     (case r of
        ReqDeposit tag item blob \<Rightarrow> length tag = 16 \<and> length item = 16 \<and> length blob \<le> MAX_ITEM_BYTES
      | ReqList tag now \<Rightarrow> length tag = 16
      | ReqFetch tag item now \<Rightarrow> length tag = 16 \<and> length item = 16
      | ReqDelete tag item \<Rightarrow> length tag = 16 \<and> length item = 16)"

definition wf_response :: "mb_response \<Rightarrow> bool" where
  "wf_response r \<longleftrightarrow>
     (case r of
        RspListing ids \<Rightarrow> length ids \<le> MAX_LIST \<and> list_all (\<lambda>i. length i = 16) ids
      | RspItem (Some b) \<Rightarrow> length b \<le> MAX_ITEM_BYTES
      | _ \<Rightarrow> True)"

lemma item_bytes_value: "MAX_ITEM_BYTES = 17461"
  by (simp add: MAX_ITEM_BYTES_def MAX_FRAME_BODY_def MAX_HEADER_BYTES_def MAX_CIPHERTEXT_def MAX_PADDED_def TAG_LEN_def)

lemma split_mb_frame:
  assumes "length p + 1 \<le> MAX_CUSTODY_BODY"
  shows "split_frame (mb_frame ty p @ rest) = Inr (ty # p, length (mb_frame ty p))"
    and "n < length (mb_frame ty p) \<Longrightarrow> isl (split_frame (take n (mb_frame ty p)))"
    and "read_mb_frame (mb_frame ty p @ rest) = Inr (ty # p)"
proof -
  have v: "be_val (be_bytes 4 (length p + 1)) = length p + 1"
    using assms by (intro be_val_be_bytes) (simp add: MAX_CUSTODY_BODY_def item_bytes_value)
  show "split_frame (mb_frame ty p @ rest) = Inr (ty # p, length (mb_frame ty p))" "read_mb_frame (mb_frame ty p @ rest) = Inr (ty # p)"
    using assms v by (simp_all add: split_frame_def read_mb_frame_def mb_frame_def Let_def)
  assume n: "n < length (mb_frame ty p)"
  show "isl (split_frame (take n (mb_frame ty p)))"
  proof (cases "n < 4")
    case False
    then have "take 4 (take n (mb_frame ty p)) = be_bytes 4 (length p + 1)" by (simp add: mb_frame_def min_def)
    then show ?thesis using n v by (simp add: split_frame_def Let_def mb_frame_def)
  qed (use n in \<open>simp add: split_frame_def min_def\<close>)
qed

text \<open>The frame of a message: its type and its payload.\<close>

lemma request_frame:
  assumes "wf_request r"
  obtains ty p where "encode_request r = mb_frame ty p" "length p + 1 \<le> MAX_CUSTODY_BODY" "decode_body_request (ty # p) = Inr r"
proof (cases r)
  case (ReqDeposit tag item blob)
  have "length blob < 2 ^ LENGTH(32)" using assms ReqDeposit by (simp add: wf_request_def item_bytes_value)
  then have l: "unat (word_of_nat (length blob) :: u32) = length blob" by (simp add: unat_of_nat take_bit_nat_eq_self)
  then have "rd_u32 (be_bytes 4 (length blob) @ blob) = Some (word_of_nat (length blob), blob)" by (simp add: rd_u32_iff)
  then show ?thesis using assms ReqDeposit l that [of REQ_DEPOSIT "tag @ item @ be_bytes 4 (length blob) @ blob"]
    by (simp add: wf_request_def encode_request_def decode_body_request_def MAX_CUSTODY_BODY_def)
qed (use assms that in \<open>simp_all add: wf_request_def encode_request_def decode_body_request_def MAX_CUSTODY_BODY_def item_bytes_value wire_tags\<close>)

lemma read_ids_concat: "list_all (\<lambda>i. length i = 16) ids \<Longrightarrow> read_ids (length ids) (concat ids) = Some ids"
  by (induction ids) simp_all

lemma error_codes: "error_from_code (error_code e) = Some e"
  by (cases e) (simp_all add: error_from_code_def)

lemma response_frame:
  assumes "wf_response r"
  obtains ty p where "encode_response r = mb_frame ty p" "length p + 1 \<le> MAX_CUSTODY_BODY" "decode_body_response (ty # p) = Inr r"
proof (cases r)
  case (RspListing ids)
  have l: "length ids \<le> 64" "list_all (\<lambda>i. length i = 16) ids" using assms RspListing by (simp_all add: wf_response_def MAX_LIST_def)
  then have u: "unat (word_of_nat (length ids) :: u16) = length ids" by (simp add: unat_of_nat take_bit_nat_eq_self)
  then have "rd_u16 (be_bytes 2 (length ids) @ concat ids) = Some (word_of_nat (length ids), concat ids)" by (simp add: rd_u16_iff)
  moreover have "length (concat ids) = 16 * length ids" using l(2) by (induction ids) simp_all
  ultimately show ?thesis using l u that [of RSP_LISTING "be_bytes 2 (length ids) @ concat ids"] RspListing
    by (simp add: encode_response_def decode_body_response_def MAX_CUSTODY_BODY_def item_bytes_value wire_tags MAX_LIST_def read_ids_concat)
next
  case (RspItem item)
  then show ?thesis using assms that
    by (cases item) (simp_all add: wf_response_def encode_response_def decode_body_response_def MAX_CUSTODY_BODY_def wire_tags)
qed (use that in \<open>simp_all add: encode_response_def decode_body_response_def MAX_CUSTODY_BODY_def wire_tags error_codes split: deposit_outcome.splits\<close>)

lemma request_read: "wf_request r \<Longrightarrow> read_mb_request (encode_request r @ rest) = Inr r"
  by (rule request_frame) (auto simp: read_mb_request_def split_mb_frame(3))

lemma response_read: "wf_response r \<Longrightarrow> read_mb_response (encode_response r @ rest) = Inr r"
  by (rule response_frame) (auto simp: read_mb_response_def split_mb_frame(3))

lemma split_fails: "isl (split_frame b) \<Longrightarrow> isl (decode_request b) \<and> isl (decode_response b)"
  by (cases "split_frame b") (simp_all add: decode_request_def decode_response_def)

text \<open>
  Custody messages are read back. Every request and every answer within the limits is decoded from its frame, with any
  bytes behind it, to itself and to the length of the frame, by the decoder and by the stream reader; and every proper
  prefix of a frame is refused.
\<close>

theorem custody_messages_read_back:
  assumes "wf_request q" and "wf_response r"
  shows "decode_request (encode_request q @ rest) = Inr (q, length (encode_request q)) \<and> read_mb_request (encode_request q @ rest) = Inr q \<and>
    decode_response (encode_response r @ rest) = Inr (r, length (encode_response r)) \<and> read_mb_response (encode_response r @ rest) = Inr r \<and>
    (n < length (encode_request q) \<longrightarrow> isl (decode_request (take n (encode_request q)))) \<and>
    (n < length (encode_response r) \<longrightarrow> isl (decode_response (take n (encode_response r))))"
proof -
  obtain ty p where q: "encode_request q = mb_frame ty p" "length p + 1 \<le> MAX_CUSTODY_BODY" "decode_body_request (ty # p) = Inr q"
    by (rule request_frame [OF assms(1)])
  obtain ty' p' where r: "encode_response r = mb_frame ty' p'" "length p' + 1 \<le> MAX_CUSTODY_BODY" "decode_body_response (ty' # p') = Inr r"
    by (rule response_frame [OF assms(2)])
  show ?thesis
    using split_mb_frame [OF q(2)] split_mb_frame [OF r(2)] q(1,3) r(1,3)
    by (auto simp: decode_request_def [of "_ @ _"] decode_response_def [of "_ @ _"] read_mb_request_def read_mb_response_def split_fails)
qed

theorem custody_messages_read_back_witness:
  "decode_request (encode_request (ReqFetch (replicate 16 1) (replicate 16 2) 7) @ [9]) = Inr (ReqFetch (replicate 16 1) (replicate 16 2) 7, 45) \<and>
   read_mb_response (encode_response (RspItem (Some [1, 2, 3]))) = Inr (RspItem (Some [1, 2, 3]))"
proof -
  have "wf_request (ReqFetch (replicate 16 1) (replicate 16 2) 7)" "wf_response (RspItem (Some [1, 2, 3]))"
    by (simp_all add: wf_request_def wf_response_def item_bytes_value)
  note w = custody_messages_read_back [OF this]
  have "length (encode_request (ReqFetch (replicate 16 1) (replicate 16 2) 7)) = 45" by (simp add: encode_request_def mb_frame_def)
  then show ?thesis using w [of "[9]"] w [of "[]"] by simp
qed

end
