(* ===== verification/Mailbox_Holder.thy ===== *)
theory Mailbox_Holder
  imports Mailbox_Wire State_Crypto "HOL-Library.List_Lexorder" "HOL-Library.Product_Lexorder"
begin

text \<open>
  The store of sealed messages a node holds for contacts that are offline, \<^verbatim>\<open>chat/mailbox/holder.rs\<close>: limits, deposits,
  listings, fetches, deletions and expiry in memory, the snapshot of the held items and its restoration, and the store
  that seals the snapshot to disk. The order in which the map of items is iterated does not matter where expired items are
  removed, because removals commute.
\<close>

section \<open>Limits\<close>

definition HARD_MAX_TOTAL_BYTES :: nat where "HARD_MAX_TOTAL_BYTES = 4 * 1024 * 1024"
definition HARD_MAX_ITEMS :: nat where "HARD_MAX_ITEMS = 1024"
definition HARD_MAX_TTL_MS :: u64 where "HARD_MAX_TTL_MS = 30 * 86400000"
definition SNAPSHOT_VERSION :: u8 where "SNAPSHOT_VERSION = 1"

record custody_limits =
  cl_enabled :: bool
  cl_max_item_bytes :: nat
  cl_max_total_bytes :: nat
  cl_max_items :: nat
  cl_max_items_per_depositor :: nat
  cl_max_bytes_per_depositor :: nat
  cl_ttl_ms :: u64

definition default_limits :: custody_limits where
  "default_limits =
     \<lparr>cl_enabled = False, cl_max_item_bytes = MAX_ITEM_BYTES, cl_max_total_bytes = 2 * 1024 * 1024, cl_max_items = 256,
      cl_max_items_per_depositor = 64, cl_max_bytes_per_depositor = 512 * 1024, cl_ttl_ms = 14 * 86400000\<rparr>"

definition clamped :: "custody_limits \<Rightarrow> custody_limits" where
  "clamped l =
     l\<lparr>cl_max_item_bytes := min (cl_max_item_bytes l) MAX_ITEM_BYTES, cl_max_total_bytes := min (cl_max_total_bytes l) HARD_MAX_TOTAL_BYTES,
       cl_max_items := min (cl_max_items l) HARD_MAX_ITEMS, cl_ttl_ms := min (cl_ttl_ms l) HARD_MAX_TTL_MS\<rparr>"

text \<open>The settings of custody in the chat section of the configuration.\<close>

record custody_config =
  custody_enabled :: bool
  custody_max_total_bytes :: nat
  custody_max_items :: nat
  custody_ttl_days :: u64

definition from_config :: "custody_config \<Rightarrow> custody_limits" where
  "from_config c =
     clamped (default_limits\<lparr>cl_enabled := custody_enabled c, cl_max_total_bytes := custody_max_total_bytes c,
       cl_max_items := custody_max_items c, cl_ttl_ms := saturating_mul (custody_ttl_days c) 86400000\<rparr>)"

section \<open>The store in memory\<close>

type_synonym item_key = "bytes \<times> bytes"

record held =
  h_from :: bytes
  h_blob :: bytes
  h_expires :: u64
  h_order :: nat

record custody =
  cu_limits :: custody_limits
  cu_trusted :: "bytes fset"
  cu_items :: "(item_key, held) fmap"
  cu_bytes :: nat
  cu_per :: "(bytes, nat \<times> nat) fmap"
  cu_next :: nat

definition new_custody :: "custody_limits \<Rightarrow> custody" where
  "new_custody l =
     \<lparr>cu_limits = clamped l, cu_trusted = {||}, cu_items = fmempty, cu_bytes = 0, cu_per = fmempty, cu_next = 0\<rparr>"

definition remove_item :: "item_key \<Rightarrow> custody \<Rightarrow> custody \<times> bool" where
  "remove_item k s =
     (case fmlookup (cu_items s) k of
        None \<Rightarrow> (s, False)
      | Some h \<Rightarrow>
          let s = s\<lparr>cu_items := fmdrop k (cu_items s), cu_bytes := cu_bytes s - length (h_blob h)\<rparr> in
          (case fmlookup (cu_per s) (h_from h) of
             None \<Rightarrow> s
           | Some (n, b) \<Rightarrow>
               if n - 1 = 0 then s\<lparr>cu_per := fmdrop (h_from h) (cu_per s)\<rparr>
               else s\<lparr>cu_per := fmupd (h_from h) (n - 1, b - length (h_blob h)) (cu_per s)\<rparr>, True))"

definition remove_all :: "item_key list \<Rightarrow> custody \<Rightarrow> custody" where
  "remove_all ks s = foldl (\<lambda>s k. fst (remove_item k s)) s ks"

definition held_keys :: "(held \<Rightarrow> bool) \<Rightarrow> custody \<Rightarrow> item_key list" where
  "held_keys P s = map fst (filter (\<lambda>(_, h). P h) (sorted_list_of_fmap (cu_items s)))"

definition sweep_expired :: "u64 \<Rightarrow> custody \<Rightarrow> custody \<times> nat" where
  "sweep_expired now s = (let gone = held_keys (\<lambda>h. h_expires h \<le> now) s in (remove_all gone s, length gone))"

definition trust :: "bytes \<Rightarrow> custody \<Rightarrow> custody" where
  "trust i s = s\<lparr>cu_trusted := finsert i (cu_trusted s)\<rparr>"

definition revoke_trust :: "bytes \<Rightarrow> custody \<Rightarrow> custody" where
  "revoke_trust i s =
     (let s = s\<lparr>cu_trusted := cu_trusted s |-| {|i|}\<rparr> in remove_all (held_keys (\<lambda>h. h_from h = i) s) s)"

definition check_caller :: "bytes \<Rightarrow> custody \<Rightarrow> custody_error option" where
  "check_caller who s =
     (if \<not> cl_enabled (cu_limits s) then Some CuDisabled
      else if who |\<notin>| cu_trusted s then Some NotTrusted
      else None)"

definition spent_by :: "bytes \<Rightarrow> custody \<Rightarrow> nat \<times> nat" where
  "spent_by who s = (case fmlookup (cu_per s) who of None \<Rightarrow> (0, 0) | Some nb \<Rightarrow> nb)"

definition insert_item :: "item_key \<Rightarrow> bytes \<Rightarrow> bytes \<Rightarrow> u64 \<Rightarrow> custody \<Rightarrow> custody" where
  "insert_item k who blob expires s =
     (case spent_by who s of (n, b) \<Rightarrow>
        s\<lparr>cu_next := Suc (cu_next s), cu_bytes := cu_bytes s + length blob,
          cu_per := fmupd who (n + 1, b + length blob) (cu_per s),
          cu_items := fmupd k \<lparr>h_from = who, h_blob = blob, h_expires = expires, h_order = cu_next s\<rparr> (cu_items s)\<rparr>)"

definition over_budget :: "bytes \<Rightarrow> bytes \<Rightarrow> custody \<Rightarrow> bool" where
  "over_budget who blob s \<longleftrightarrow>
     (case spent_by who s of (n, b) \<Rightarrow>
        cl_max_items_per_depositor (cu_limits s) < n + 1 \<or> cl_max_bytes_per_depositor (cu_limits s) < b + length blob)"

definition no_room :: "bytes \<Rightarrow> custody \<Rightarrow> bool" where
  "no_room blob s \<longleftrightarrow>
     cl_max_items (cu_limits s) < fmsize (cu_items s) + 1 \<or> cl_max_total_bytes (cu_limits s) < cu_bytes s + length blob"

definition deposit :: "bytes \<Rightarrow> bytes \<Rightarrow> bytes \<Rightarrow> bytes \<Rightarrow> u64 \<Rightarrow> custody \<Rightarrow> custody \<times> (custody_error + deposit_outcome)" where
  "deposit who tag item blob now s =
     (case check_caller who s of
        Some err \<Rightarrow> (s, Inl err)
      | None \<Rightarrow>
          if blob = [] \<or> cl_max_item_bytes (cu_limits s) < length blob then (s, Inl TooBig)
          else
            let s = fst (sweep_expired now s) in
            if fmlookup (cu_items s) (tag, item) \<noteq> None then (s, Inr Duplicate)
            else if over_budget who blob s then (s, Inl DepositorBudget)
            else if no_room blob s then (s, Inl CuFull)
            else (insert_item (tag, item) who blob (saturating_add now (cl_ttl_ms (cu_limits s))) s, Inr Stored))"

definition list_items :: "bytes \<Rightarrow> bytes \<Rightarrow> u64 \<Rightarrow> custody \<Rightarrow> custody \<times> (custody_error + bytes list)" where
  "list_items who tag now s =
     (case check_caller who s of
        Some err \<Rightarrow> (s, Inl err)
      | None \<Rightarrow>
          let s = fst (sweep_expired now s);
              v = map (\<lambda>((_, i), h). (h_order h, i)) (filter (\<lambda>((t, _), _). t = tag) (sorted_list_of_fmap (cu_items s)))
          in (s, Inr (map snd (take MAX_LIST (sort v)))))"

definition fetch_item :: "bytes \<Rightarrow> bytes \<Rightarrow> bytes \<Rightarrow> u64 \<Rightarrow> custody \<Rightarrow> custody \<times> (custody_error + bytes option)" where
  "fetch_item who tag item now s =
     (case check_caller who s of
        Some err \<Rightarrow> (s, Inl err)
      | None \<Rightarrow> let s = fst (sweep_expired now s) in (s, Inr (map_option h_blob (fmlookup (cu_items s) (tag, item)))))"

definition delete_item :: "bytes \<Rightarrow> bytes \<Rightarrow> bytes \<Rightarrow> custody \<Rightarrow> custody \<times> (custody_error + bool)" where
  "delete_item who tag item s =
     (case check_caller who s of
        Some err \<Rightarrow> (s, Inl err)
      | None \<Rightarrow> (case remove_item (tag, item) s of (s, b) \<Rightarrow> (s, Inr b)))"

section \<open>Snapshots\<close>

definition snapshot_entry :: "item_key \<times> held \<Rightarrow> bytes" where
  "snapshot_entry e =
     (case e of ((tag, item), h) \<Rightarrow>
        tag @ item @ h_from h @ be_bytes 8 (unat (h_expires h)) @ be_bytes 4 (length (h_blob h)) @ h_blob h)"

definition by_order :: "custody \<Rightarrow> (item_key \<times> held) list" where
  "by_order s = sort_key (\<lambda>(_, h). h_order h) (sorted_list_of_fmap (cu_items s))"

definition snapshot :: "custody \<Rightarrow> bytes" where
  "snapshot s = SNAPSHOT_VERSION # be_bytes 4 (length (by_order s)) @ concat (map snapshot_entry (by_order s))"

text \<open>One entry: what is left of the buffer and the store after it; \<open>None\<close> ends the restoration.\<close>

definition restore_one :: "bytes \<Rightarrow> u64 \<Rightarrow> custody \<Rightarrow> (bytes \<times> custody) option" where
  "restore_one rest now s =
     (if length rest < 16 + 16 + 32 + 8 + 4 then None
      else
        let tag = take 16 rest; item = take 16 (drop 16 rest); from_id = take 32 (drop 32 rest);
            expires = word_of_nat (be_val (take 8 (drop 64 rest))); blen = be_val (take 4 (drop 72 rest));
            rest = drop 76 rest
        in
          if length rest < blen then None
          else
            let blob = take blen rest; rest = drop blen rest in
            if expires \<le> now \<or> blob = [] \<or> cl_max_item_bytes (cu_limits s) < length blob then Some (rest, s)
            else if over_budget from_id blob s \<or> no_room blob s then Some (rest, s)
            else Some (rest, insert_item (tag, item) from_id blob expires s))"

primrec restore_loop :: "nat \<Rightarrow> bytes \<Rightarrow> u64 \<Rightarrow> custody \<Rightarrow> custody" where
  "restore_loop 0 rest now s = s"
| "restore_loop (Suc n) rest now s = (case restore_one rest now s of None \<Rightarrow> s | Some (rest, s) \<Rightarrow> restore_loop n rest now s)"

definition restore :: "bytes \<Rightarrow> u64 \<Rightarrow> custody \<Rightarrow> custody" where
  "restore buf now s =
     (let s = s\<lparr>cu_items := fmempty, cu_bytes := 0, cu_per := fmempty, cu_next := 0\<rparr> in
      case buf of
        [] \<Rightarrow> s
      | ver # rest \<Rightarrow>
          if ver \<noteq> SNAPSHOT_VERSION \<or> length rest < 4 then s
          else restore_loop (be_val (take 4 rest)) (drop 4 rest) now s)"

section \<open>The store on disk\<close>

text \<open>\<open>dc_file\<close> is the document on disk; writing it replaces it as a whole or leaves it.\<close>

record disk_custody =
  dc_mem :: custody
  dc_off :: bool
  dc_file :: "bytes option"

record custody_env =
  ce_sk :: skext
  ce_cell :: key_cell
  ce_name :: bytes

definition open_custody :: "custody_env \<Rightarrow> custody_limits \<Rightarrow> u64 \<Rightarrow> bytes option \<Rightarrow> disk_custody" where
  "open_custody E l now file =
     (let mem = new_custody l in
      \<lparr>dc_mem = (case file of
                  None \<Rightarrow> mem
                | Some _ \<Rightarrow>
                    (case read_document (ce_sk E) (ce_cell E) ChatCustody (ce_name E) file of
                       Inl _ \<Rightarrow> mem
                     | Inr plain \<Rightarrow> restore plain now mem)),
       dc_off = False, dc_file = file\<rparr>)"

text \<open>What a write meets: the nonce drawn and whether the file is replaced.\<close>

type_synonym disk_io = "bytes \<times> bool"

definition persist :: "custody_env \<Rightarrow> disk_io \<Rightarrow> disk_custody \<Rightarrow> disk_custody" where
  "persist E w d =
     (if dc_off d then d
      else
        (case doc_seal (ce_sk E) (fst w) (ce_cell E) ChatCustody (ce_name E) (snapshot (dc_mem d)) of
           Inl _ \<Rightarrow> d\<lparr>dc_off := True\<rparr>
         | Inr f \<Rightarrow> if snd w then d\<lparr>dc_file := Some f\<rparr> else d\<lparr>dc_off := True\<rparr>))"

definition dc_trust :: "bytes \<Rightarrow> disk_custody \<Rightarrow> disk_custody" where
  "dc_trust i d = d\<lparr>dc_mem := trust i (dc_mem d)\<rparr>"

definition dc_revoke :: "custody_env \<Rightarrow> disk_io \<Rightarrow> bytes \<Rightarrow> disk_custody \<Rightarrow> disk_custody" where
  "dc_revoke E w i d = persist E w (d\<lparr>dc_mem := revoke_trust i (dc_mem d)\<rparr>)"

definition dc_deposit ::
  "custody_env \<Rightarrow> disk_io \<Rightarrow> bytes \<Rightarrow> bytes \<Rightarrow> bytes \<Rightarrow> bytes \<Rightarrow> u64 \<Rightarrow> disk_custody \<Rightarrow> disk_custody \<times> (custody_error + deposit_outcome)" where
  "dc_deposit E w who tag item blob now d =
     (case deposit who tag item blob now (dc_mem d) of
        (m, r) \<Rightarrow> let d = d\<lparr>dc_mem := m\<rparr> in (if r = Inr Stored then persist E w d else d, r))"

definition persist_smaller :: "custody_env \<Rightarrow> disk_io \<Rightarrow> disk_custody \<Rightarrow> custody \<times> (custody_error + 'r) \<Rightarrow> disk_custody \<times> (custody_error + 'r)" where
  "persist_smaller E w d res =
     (case res of (m, r) \<Rightarrow>
        let before = fmsize (cu_items (dc_mem d)); d = d\<lparr>dc_mem := m\<rparr> in
        (if \<not> isl r \<and> fmsize (cu_items m) \<noteq> before then persist E w d else d, r))"

definition dc_list :: "custody_env \<Rightarrow> disk_io \<Rightarrow> bytes \<Rightarrow> bytes \<Rightarrow> u64 \<Rightarrow> disk_custody \<Rightarrow> disk_custody \<times> (custody_error + bytes list)" where
  "dc_list E w who tag now d = persist_smaller E w d (list_items who tag now (dc_mem d))"

definition dc_fetch :: "custody_env \<Rightarrow> disk_io \<Rightarrow> bytes \<Rightarrow> bytes \<Rightarrow> bytes \<Rightarrow> u64 \<Rightarrow> disk_custody \<Rightarrow> disk_custody \<times> (custody_error + bytes option)" where
  "dc_fetch E w who tag item now d = persist_smaller E w d (fetch_item who tag item now (dc_mem d))"

definition dc_delete :: "custody_env \<Rightarrow> disk_io \<Rightarrow> bytes \<Rightarrow> bytes \<Rightarrow> bytes \<Rightarrow> disk_custody \<Rightarrow> disk_custody \<times> (custody_error + bool)" where
  "dc_delete E w who tag item d =
     (case delete_item who tag item (dc_mem d) of
        (m, r) \<Rightarrow> let d = d\<lparr>dc_mem := m\<rparr> in (if r = Inr True then persist E w d else d, r))"

definition dc_sweep :: "custody_env \<Rightarrow> disk_io \<Rightarrow> u64 \<Rightarrow> disk_custody \<Rightarrow> disk_custody \<times> nat" where
  "dc_sweep E w now d =
     (case sweep_expired now (dc_mem d) of
        (m, n) \<Rightarrow> let d = d\<lparr>dc_mem := m\<rparr> in (if 0 < n then persist E w d else d, n))"

section \<open>Removing\<close>

definition unspend :: "held \<Rightarrow> (bytes, nat \<times> nat) fmap \<Rightarrow> (bytes, nat \<times> nat) fmap" where
  "unspend h p =
     (case fmlookup p (h_from h) of
        None \<Rightarrow> p
      | Some (n, b) \<Rightarrow> if n - 1 = 0 then fmdrop (h_from h) p else fmupd (h_from h) (n - 1, b - length (h_blob h)) p)"

lemma remove_item_eq:
  "fst (remove_item k s) =
     (case fmlookup (cu_items s) k of
        None \<Rightarrow> s
      | Some h \<Rightarrow> s\<lparr>cu_items := fmdrop k (cu_items s), cu_bytes := cu_bytes s - length (h_blob h), cu_per := unspend h (cu_per s)\<rparr>)"
  by (auto simp: remove_item_def unspend_def Let_def split: option.split prod.split)

lemma unspend_lookup:
  "fmlookup (unspend h p) d =
     (if d = h_from h
      then (case fmlookup p d of None \<Rightarrow> None | Some (n, b) \<Rightarrow> if n - 1 = 0 then None else Some (n - 1, b - length (h_blob h)))
      else fmlookup p d)"
  by (simp add: unspend_def split: option.split prod.split)

lemma unspend_commutes: "unspend h (unspend h' p) = unspend h' (unspend h p)"
  by (rule fmap_ext) (simp add: unspend_lookup add.commute split: option.split prod.split)

lemma remove_commutes: "fst (remove_item k (fst (remove_item k' s))) = fst (remove_item k' (fst (remove_item k s)))"
proof (cases "k = k'")
  case False
  have "fmdrop k (fmdrop k' (cu_items s)) = fmdrop k' (fmdrop k (cu_items s))" by (rule fmap_ext) simp
  then show ?thesis using False
    by (cases "fmlookup (cu_items s) k"; cases "fmlookup (cu_items s) k'") (simp_all add: remove_item_eq unspend_commutes diff_commute)
qed simp

text \<open>The order in which items are removed does not matter.\<close>

lemma remove_all_any_order: "mset ks = mset ks' \<Longrightarrow> remove_all ks s = remove_all ks' s"
  unfolding remove_all_def foldl_conv_fold
  by (rule arg_cong [where f = "\<lambda>f. f s", OF fold_multiset_equiv]) (use remove_commutes in \<open>auto simp: fun_eq_iff\<close>)

lemma remove_all_Nil [simp]: "remove_all [] s = s" and remove_all_Cons [simp]: "remove_all (k # ks) s = remove_all ks (fst (remove_item k s))"
  by (simp_all add: remove_all_def)

lemma remove_item_frame [simp]:
  "cu_limits (fst (remove_item k s)) = cu_limits s" "cu_trusted (fst (remove_item k s)) = cu_trusted s" "cu_next (fst (remove_item k s)) = cu_next s"
  "cu_items (fst (remove_item k s)) = fmdrop k (cu_items s)" "snd (remove_item k s) = (fmlookup (cu_items s) k \<noteq> None)"
  by (auto simp: remove_item_def Let_def fmdrop_absent split: option.split prod.split)

lemma remove_all_frame [simp]:
  "cu_limits (remove_all ks s) = cu_limits s" "cu_trusted (remove_all ks s) = cu_trusted s" "cu_next (remove_all ks s) = cu_next s"
  by (induction ks arbitrary: s) simp_all

lemma remove_all_lookup: "fmlookup (cu_items (remove_all ks s)) k = (if k \<in> set ks then None else fmlookup (cu_items s) k)"
  by (induction ks arbitrary: s) auto

lemma held_keys_set: "set (held_keys P s) = {k. \<exists>h. fmlookup (cu_items s) k = Some h \<and> P h}"
  by (auto simp: held_keys_def sorted_list_of_fmap_def fmlookup_dom_iff image_iff)

lemma remove_held: "cu_items (remove_all (held_keys P s) s) = fmretain (\<lambda>k h. \<not> P h) (cu_items s)"
  by (rule fmap_ext) (auto simp: remove_all_lookup held_keys_set split: option.split)

lemma swept_items [simp]: "cu_items (fst (sweep_expired now s)) = fmretain (\<lambda>k h. now < h_expires h) (cu_items s)"
  by (simp add: sweep_expired_def Let_def remove_held not_le)

section \<open>Nobody uses more than the limits\<close>

text \<open>The sum of a measure over the values of a map.\<close>

definition weight :: "('v \<Rightarrow> nat) \<Rightarrow> ('k, 'v) fmap \<Rightarrow> nat" where
  "weight f m = (\<Sum>k \<in> fset (fmdom m). f (the (fmlookup m k)))"

lemma weight_empty [simp]: "weight f fmempty = 0"
  by (simp add: weight_def)

lemma weight_drop: "fmlookup m k = Some v \<Longrightarrow> weight f m = f v + weight f (fmdrop k m)"
proof -
  assume v: "fmlookup m k = Some v"
  then have k: "k \<in> fset (fmdom m)" by (simp add: fmlookup_dom_iff)
  have "weight f (fmdrop k m) = (\<Sum>x \<in> fset (fmdom m) - {k}. f (the (fmlookup m x)))"
    unfolding weight_def by (rule sum.cong) auto
  then show ?thesis using v k unfolding weight_def by (simp add: sum.remove)
qed

lemma weight_upd_new: "fmlookup m k = None \<Longrightarrow> weight f (fmupd k v m) = f v + weight f m"
  using weight_drop [of "fmupd k v m" k v f] fmdrop_absent [of m k] by (simp add: fmdrop_fmupd_same)

lemma weight_upd_le: "weight f (fmupd k v m) \<le> f v + weight f m"
proof (cases "fmlookup m k")
  case (Some w)
  have "fmupd k v m = fmupd k v (fmdrop k m)" by (rule fmap_ext) simp
  then show ?thesis using weight_upd_new [of "fmdrop k m" k f v] weight_drop [OF Some, of f] by simp
qed (simp add: weight_upd_new)

lemma weight_drop_le: "weight f (fmdrop k m) \<le> weight f m"
  by (cases "fmlookup m k") (use weight_drop [of m k _ f] in \<open>auto simp: fmdrop_absent\<close>)

definition blob_size :: "held \<Rightarrow> nat" where "blob_size h = length (h_blob h)"
definition one_of :: "bytes \<Rightarrow> held \<Rightarrow> nat" where "one_of d h = (if h_from h = d then 1 else 0)"
definition size_of :: "bytes \<Rightarrow> held \<Rightarrow> nat" where "size_of d h = (if h_from h = d then length (h_blob h) else 0)"

definition within_limits :: "custody \<Rightarrow> bool" where
  "within_limits s \<longleftrightarrow>
     weight blob_size (cu_items s) \<le> cu_bytes s \<and> cu_bytes s \<le> cl_max_total_bytes (cu_limits s) \<and>
     fmsize (cu_items s) \<le> cl_max_items (cu_limits s) \<and>
     (\<forall>d. weight (one_of d) (cu_items s) \<le> fst (spent_by d s) \<and> fst (spent_by d s) \<le> cl_max_items_per_depositor (cu_limits s) \<and>
          weight (size_of d) (cu_items s) \<le> snd (spent_by d s) \<and> snd (spent_by d s) \<le> cl_max_bytes_per_depositor (cu_limits s))"

lemma weight_zero_size: "weight (one_of d) m = 0 \<Longrightarrow> weight (size_of d) m = 0"
  by (auto simp: weight_def one_of_def size_of_def)

lemma remove_within: "within_limits s \<Longrightarrow> within_limits (fst (remove_item k s))"
proof (cases "fmlookup (cu_items s) k")
  case (Some h)
  assume w: "within_limits s"
  let ?m = "cu_items s" and ?s = "fst (remove_item k s)"
  have per: "spent_by d ?s = (if d = h_from h then (case spent_by d s of (n, b) \<Rightarrow> if n - 1 = 0 then (0, 0) else (n - 1, b - length (h_blob h))) else spent_by d s)" for d
    using Some by (auto simp: remove_item_eq spent_by_def unspend_lookup split: option.splits)
  have wt: "weight f ?m = f h + weight f (fmdrop k ?m)" for f using weight_drop [OF Some] .
  have "weight (one_of d) (fmdrop k ?m) \<le> fst (spent_by d ?s) \<and> fst (spent_by d ?s) \<le> cl_max_items_per_depositor (cu_limits s) \<and>
      weight (size_of d) (fmdrop k ?m) \<le> snd (spent_by d ?s) \<and> snd (spent_by d ?s) \<le> cl_max_bytes_per_depositor (cu_limits s)" for d
  proof (cases "d = h_from h")
    case True
    obtain n b where nb: "spent_by d s = (n, b)" by fastforce
    have le: "weight (one_of d) ?m \<le> n" "n \<le> cl_max_items_per_depositor (cu_limits s)" "weight (size_of d) ?m \<le> b" "b \<le> cl_max_bytes_per_depositor (cu_limits s)"
      using w nb by (auto simp: within_limits_def dest: spec [of _ d])
    have o: "weight (one_of d) (fmdrop k ?m) \<le> n - 1" "weight (size_of d) (fmdrop k ?m) \<le> b - length (h_blob h)"
      using le wt [of "one_of d"] wt [of "size_of d"] True by (simp_all add: one_of_def size_of_def)
    then show ?thesis using per [of d] nb True le weight_zero_size [of d "fmdrop k ?m"] by (auto split: if_splits)
  next
    case False
    then show ?thesis using w per [of d] weight_drop_le [of _ k ?m] by (auto simp: within_limits_def intro: le_trans)
  qed
  moreover have "weight blob_size (fmdrop k ?m) \<le> cu_bytes s - length (h_blob h)" using w wt [of blob_size] by (auto simp: within_limits_def blob_size_def)
  moreover have "fmsize (fmdrop k ?m) \<le> fmsize ?m" by (subst fmsize_drop) simp
  moreover have "cu_bytes ?s = cu_bytes s - length (h_blob h)" using Some by (simp add: remove_item_eq)
  ultimately show ?thesis using w by (auto simp: within_limits_def)
qed (simp add: remove_item_eq)

lemma remove_all_within: "within_limits s \<Longrightarrow> within_limits (remove_all ks s)"
  by (induction ks arbitrary: s) (simp_all add: remove_within)

lemma sweep_within: "within_limits s \<Longrightarrow> within_limits (fst (sweep_expired now s))"
  by (simp add: sweep_expired_def Let_def remove_all_within)

lemma insert_within:
  assumes "within_limits s" "\<not> over_budget who blob s" "\<not> no_room blob s"
  shows "within_limits (insert_item k who blob t s)"
proof -
  let ?h = "\<lparr>h_from = who, h_blob = blob, h_expires = t, h_order = cu_next s\<rparr>" and ?s = "insert_item k who blob t s"
  obtain n b where nb: "spent_by who s = (n, b)" by fastforce
  have i: "cu_items ?s = fmupd k ?h (cu_items s)" "cu_bytes ?s = cu_bytes s + length blob" "cu_limits ?s = cu_limits s"
    "spent_by d ?s = (if d = who then (n + 1, b + length blob) else spent_by d s)" for d
    using nb by (auto simp: insert_item_def spent_by_def)
  have d: "weight (one_of d) (cu_items ?s) \<le> fst (spent_by d ?s) \<and> fst (spent_by d ?s) \<le> cl_max_items_per_depositor (cu_limits s) \<and>
      weight (size_of d) (cu_items ?s) \<le> snd (spent_by d ?s) \<and> snd (spent_by d ?s) \<le> cl_max_bytes_per_depositor (cu_limits s)" for d
    using assms(1,2) nb weight_upd_le [of "one_of d" k ?h "cu_items s"] weight_upd_le [of "size_of d" k ?h "cu_items s"]
    unfolding within_limits_def i over_budget_def by (cases "d = who") (auto simp: one_of_def size_of_def dest: spec [of _ d])
  have "weight blob_size (cu_items ?s) \<le> cu_bytes ?s"
    using assms(1) weight_upd_le [of blob_size k ?h "cu_items s"] unfolding within_limits_def i by (simp add: blob_size_def)
  moreover have "fmsize (cu_items ?s) \<le> Suc (fmsize (cu_items s))" unfolding i(1) by (subst fmsize_upd) simp
  ultimately show ?thesis using assms(3) d unfolding within_limits_def no_room_def i(2,3) by auto
qed

lemma insert_frame [simp]: "cu_limits (insert_item k who blob t s) = cu_limits s" "cu_trusted (insert_item k who blob t s) = cu_trusted s"
  by (simp_all add: insert_item_def split: prod.split)

lemma deposit_within: "within_limits s \<Longrightarrow> within_limits (fst (deposit who tag item blob now s))"
  using sweep_within [of s now]
  by (auto simp: deposit_def Let_def intro: insert_within split: option.split)

lemma restore_one_within: "within_limits s \<Longrightarrow> restore_one rest now s = Some (rest', s') \<Longrightarrow> within_limits s' \<and> cu_limits s' = cu_limits s"
  by (auto simp: restore_one_def Let_def intro: insert_within split: if_splits)

lemma restore_loop_within: "within_limits s \<Longrightarrow> within_limits (restore_loop n rest now s) \<and> cu_limits (restore_loop n rest now s) = cu_limits s"
  by (induction n arbitrary: rest s) (auto dest: restore_one_within split: option.split)

lemma empty_within: "within_limits (s\<lparr>cu_items := fmempty, cu_bytes := 0, cu_per := fmempty, cu_next := 0\<rparr>)"
  by (simp add: within_limits_def spent_by_def fcard.rep_eq)

lemma restore_within: "within_limits (restore buf now s) \<and> cu_limits (restore buf now s) = cu_limits s"
proof -
  let ?s = "s\<lparr>cu_items := fmempty, cu_bytes := 0, cu_per := fmempty, cu_next := 0\<rparr>"
  have "within_limits ?s" "cu_limits ?s = cu_limits s" by (simp_all add: empty_within)
  then show ?thesis using restore_loop_within [OF empty_within, of _ _ _ s] by (auto simp: restore_def Let_def split: list.split)
qed

section \<open>Runs\<close>

datatype custody_event =
    CvTrust bytes
  | CvRevoke disk_io bytes
  | CvDeposit disk_io bytes bytes bytes bytes u64
  | CvList disk_io bytes bytes u64
  | CvFetch disk_io bytes bytes bytes u64
  | CvDelete disk_io bytes bytes bytes
  | CvSweep disk_io u64
  | CvReopen u64

fun custody_step :: "custody_env \<Rightarrow> custody_limits \<Rightarrow> disk_custody \<Rightarrow> custody_event \<Rightarrow> disk_custody" where
  "custody_step E l d (CvTrust i) = dc_trust i d"
| "custody_step E l d (CvRevoke w i) = dc_revoke E w i d"
| "custody_step E l d (CvDeposit w who tag item blob now) = fst (dc_deposit E w who tag item blob now d)"
| "custody_step E l d (CvList w who tag now) = fst (dc_list E w who tag now d)"
| "custody_step E l d (CvFetch w who tag item now) = fst (dc_fetch E w who tag item now d)"
| "custody_step E l d (CvDelete w who tag item) = fst (dc_delete E w who tag item d)"
| "custody_step E l d (CvSweep w now) = fst (dc_sweep E w now d)"
| "custody_step E l d (CvReopen now) = open_custody E l now (dc_file d)"

text \<open>What an event does to the items in memory; only a reopening looks at the file.\<close>

fun memory_step :: "custody \<Rightarrow> custody_event \<Rightarrow> custody" where
  "memory_step s (CvTrust i) = trust i s"
| "memory_step s (CvRevoke w i) = revoke_trust i s"
| "memory_step s (CvDeposit w who tag item blob now) = fst (deposit who tag item blob now s)"
| "memory_step s (CvList w who tag now) = fst (list_items who tag now s)"
| "memory_step s (CvFetch w who tag item now) = fst (fetch_item who tag item now s)"
| "memory_step s (CvDelete w who tag item) = fst (delete_item who tag item s)"
| "memory_step s (CvSweep w now) = fst (sweep_expired now s)"
| "memory_step s (CvReopen now) = s"

lemma persist_mem [simp]: "dc_mem (persist E w d) = dc_mem d"
  by (simp add: persist_def split: sum.split)

lemma step_memory: "(case e of CvReopen _ \<Rightarrow> False | _ \<Rightarrow> True) \<Longrightarrow> dc_mem (custody_step E l d e) = memory_step (dc_mem d) e"
  by (cases e)
    (auto simp: dc_trust_def dc_revoke_def dc_deposit_def dc_list_def dc_fetch_def dc_delete_def dc_sweep_def persist_smaller_def Let_def
      split: prod.splits)

lemma memory_step_within: "within_limits s \<Longrightarrow> within_limits (memory_step s e) \<and> cu_limits (memory_step s e) = cu_limits s"
proof (cases e)
  case (CvDeposit w who tag item blob now)
  assume "within_limits s"
  then show ?thesis using CvDeposit deposit_within [of s] by (auto simp: deposit_def Let_def sweep_expired_def split: option.split)
next
  case (CvRevoke w i)
  assume "within_limits s"
  then have "within_limits (s\<lparr>cu_trusted := cu_trusted s |-| {|i|}\<rparr>)" by (simp add: within_limits_def spent_by_def)
  then show ?thesis using CvRevoke by (simp add: revoke_trust_def remove_all_within Let_def)
next
  case (CvTrust i)
  assume "within_limits s"
  then show ?thesis using CvTrust by (simp add: trust_def within_limits_def spent_by_def)
qed (auto simp: list_items_def fetch_item_def delete_item_def Let_def sweep_expired_def case_prod_beta remove_within remove_all_within split: option.split)

lemma open_within: "within_limits (dc_mem (open_custody E l now file)) \<and> cu_limits (dc_mem (open_custody E l now file)) = clamped l"
proof -
  have "within_limits (new_custody l)" "cu_limits (new_custody l) = clamped l" by (simp_all add: within_limits_def new_custody_def spent_by_def fcard.rep_eq)
  then show ?thesis using restore_within [of _ now "new_custody l"] by (auto simp: open_custody_def Let_def split: option.split sum.split)
qed

interpretation custody: machine "custody_step E l" "\<lambda>d. within_limits (dc_mem d) \<and> cu_limits (dc_mem d) = clamped l" for E l
proof
  fix d :: disk_custody and e
  assume "within_limits (dc_mem d) \<and> cu_limits (dc_mem d) = clamped l"
  then show "within_limits (dc_mem (custody_step E l d e)) \<and> cu_limits (dc_mem (custody_step E l d e)) = clamped l"
    using memory_step_within [of "dc_mem d" e] step_memory [of e E l d] open_within [of E l] by (cases e) auto
qed

text \<open>
  C15: a holder never holds more than its limits. Whatever file it was opened on, whatever anyone asks of it in any order,
  with any clock values, write errors and reopenings, the held items and their bytes stay within the configured limits and
  within the hard ceilings, and what any one depositor occupies stays within the budget of a depositor.
\<close>

theorem holder_stays_within_limits:
  "let items = cu_items (dc_mem (foldl (custody_step E l) (open_custody E l now file) es)) in
     fmsize items \<le> min (cl_max_items l) 1024 \<and> weight blob_size items \<le> min (cl_max_total_bytes l) 4194304 \<and>
     weight (one_of d) items \<le> cl_max_items_per_depositor l \<and> weight (size_of d) items \<le> cl_max_bytes_per_depositor l"
proof -
  let ?s = "dc_mem (foldl (custody_step E l) (open_custody E l now file) es)"
  have w: "within_limits ?s" "cu_limits ?s = clamped l" using custody.inv_run [OF open_within] by blast+
  then show ?thesis unfolding within_limits_def Let_def w(2)
    by (auto simp: clamped_def HARD_MAX_ITEMS_def HARD_MAX_TOTAL_BYTES_def dest: spec [of _ d])
qed

end
