(* ===== verification/Mailbox_Disk.thy ===== *)
theory Mailbox_Disk
  imports Mailbox_Holder
begin

text \<open>
  Held messages over restarts: a snapshot is restored to the same unexpired items in the same order, and a message that
  was accepted and written is there until it expires or is deleted, whatever happens to other messages.
\<close>

section \<open>Well-formed stores\<close>

definition entry_ok :: "custody_limits \<Rightarrow> item_key \<times> held \<Rightarrow> bool" where
  "entry_ok l e \<longleftrightarrow>
     (case e of ((tag, item), h) \<Rightarrow>
        length tag = 16 \<and> length item = 16 \<and> length (h_from h) = 32 \<and> h_blob h \<noteq> [] \<and> length (h_blob h) \<le> cl_max_item_bytes l)"

definition store_ok :: "custody \<Rightarrow> bool" where
  "store_ok s \<longleftrightarrow>
     within_limits s \<and> cl_max_item_bytes (cu_limits s) \<le> MAX_ITEM_BYTES \<and> cl_max_items (cu_limits s) \<le> HARD_MAX_ITEMS \<and>
     (\<forall>k h. fmlookup (cu_items s) k = Some h \<longrightarrow> entry_ok (cu_limits s) (k, h) \<and> h_order h < cu_next s) \<and>
     (\<forall>k k' h h'. fmlookup (cu_items s) k = Some h \<longrightarrow> fmlookup (cu_items s) k' = Some h' \<longrightarrow> h_order h = h_order h' \<longrightarrow> k = k')"

section \<open>Restoring a snapshot\<close>

definition put_entry :: "custody \<Rightarrow> item_key \<times> held \<Rightarrow> custody" where
  "put_entry s e = (case e of (k, h) \<Rightarrow> insert_item k (h_from h) (h_blob h) (h_expires h) s)"

lemma restore_entry:
  assumes "entry_ok (cu_limits s) (k, h)" "cl_max_item_bytes (cu_limits s) \<le> MAX_ITEM_BYTES"
    "now < h_expires h \<Longrightarrow> \<not> over_budget (h_from h) (h_blob h) s \<and> \<not> no_room (h_blob h) s"
  shows "restore_one (snapshot_entry (k, h) @ rest) now s = Some (rest, if now < h_expires h then put_entry s (k, h) else s)"
proof -
  obtain tag item where k: "k = (tag, item)" by fastforce
  have l: "length tag = 16" "length item = 16" "length (h_from h) = 32" "h_blob h \<noteq> []" "length (h_blob h) \<le> cl_max_item_bytes (cu_limits s)"
    using assms(1) by (simp_all add: entry_ok_def k)
  then have "length (h_blob h) < 256 ^ 4" using assms(2) by (simp add: item_bytes_value)
  then have b: "be_val (be_bytes 4 (length (h_blob h))) = length (h_blob h)" by (rule be_val_be_bytes)
  have e: "(word_of_nat (be_val (be_bytes 8 (unat (h_expires h)))) :: u64) = h_expires h" by (rule word_be) simp
  show ?thesis using l b e assms(3) by (simp add: restore_one_def snapshot_entry_def k put_entry_def Let_def not_le [symmetric])
qed

lemma lookup_put_entry: "fmlookup (cu_items (put_entry s (k, h))) x = (if x = k then Some (h\<lparr>h_order := cu_next s\<rparr>) else fmlookup (cu_items s) x)"
  by (simp add: put_entry_def insert_item_def split: prod.split)

lemma put_entry_next: "cu_next (put_entry s e) = Suc (cu_next s)" "cu_limits (put_entry s e) = cu_limits s"
  by (simp_all add: put_entry_def insert_item_def split: prod.split)

text \<open>Entries put one after the other get consecutive orders.\<close>

lemma put_entries:
  "distinct (map fst es) \<Longrightarrow>
   (\<forall>i < length es. fmlookup (cu_items (foldl put_entry s es)) (fst (es ! i)) = Some ((snd (es ! i))\<lparr>h_order := cu_next s + i\<rparr>)) \<and>
   (\<forall>k. k \<notin> fst ` set es \<longrightarrow> fmlookup (cu_items (foldl put_entry s es)) k = fmlookup (cu_items s) k) \<and>
   cu_next (foldl put_entry s es) = cu_next s + length es \<and> cu_limits (foldl put_entry s es) = cu_limits s"
proof (induction es arbitrary: s)
  case (Cons e es)
  obtain a b h where e: "e = ((a, b), h)" by (cases e) auto
  note ih = Cons.IH [of "put_entry s e"]
  have "fmlookup (cu_items (foldl put_entry s (e # es))) (fst ((e # es) ! i)) = Some ((snd ((e # es) ! i))\<lparr>h_order := cu_next s + i\<rparr>)" if "i < length (e # es)" for i
    using that ih Cons.prems e by (cases i) (auto simp: put_entry_next lookup_put_entry)
  then show ?case using ih Cons.prems e by (auto simp: put_entry_next lookup_put_entry)
qed simp

definition exact :: "custody \<Rightarrow> bool" where
  "exact s \<longleftrightarrow>
     cu_bytes s = weight blob_size (cu_items s) \<and> (\<forall>d. spent_by d s = (weight (one_of d) (cu_items s), weight (size_of d) (cu_items s)))"

lemma put_entry_exact:
  assumes "exact s" "fmlookup (cu_items s) k = None"
  shows "exact (put_entry s (k, h))" and "weight f (cu_items (put_entry s (k, h))) = f (h\<lparr>h_order := cu_next s\<rparr>) + weight f (cu_items s)"
    and "fmsize (cu_items (put_entry s (k, h))) = Suc (fmsize (cu_items s))"
proof -
  let ?h = "h\<lparr>h_order := cu_next s\<rparr>"
  have i: "cu_items (put_entry s (k, h)) = fmupd k ?h (cu_items s)" by (cases h) (simp add: put_entry_def insert_item_def split: prod.split)
  show w: "weight f (cu_items (put_entry s (k, h))) = f ?h + weight f (cu_items s)" for f unfolding i by (rule weight_upd_new [OF assms(2)])
  show "fmsize (cu_items (put_entry s (k, h))) = Suc (fmsize (cu_items s))" unfolding i using assms(2) by (subst fmsize_upd) (simp add: fmlookup_None_iff)
  have "spent_by d (put_entry s (k, h)) = (weight (one_of d) (cu_items (put_entry s (k, h))), weight (size_of d) (cu_items (put_entry s (k, h))))" for d
    using assms(1) unfolding w by (auto simp: exact_def put_entry_def insert_item_def one_of_def size_of_def spent_by_def split: option.splits)
  moreover have "cu_bytes (put_entry s (k, h)) = weight blob_size (cu_items (put_entry s (k, h)))"
    using assms(1) unfolding w by (simp add: exact_def put_entry_def insert_item_def blob_size_def split: prod.split)
  ultimately show "exact (put_entry s (k, h))" by (simp add: exact_def)
qed

abbreviation live :: "u64 \<Rightarrow> item_key \<times> held \<Rightarrow> bool" where
  "live now e \<equiv> now < h_expires (snd e)"

text \<open>\<open>fits l es s\<close>: the entries \<open>es\<close> fit into the store \<open>s\<close>.\<close>

definition sum_of :: "(held \<Rightarrow> nat) \<Rightarrow> (item_key \<times> held) list \<Rightarrow> nat" where
  "sum_of f es = sum_list (map (f \<circ> snd) es)"

definition fits :: "(item_key \<times> held) list \<Rightarrow> custody \<Rightarrow> bool" where
  "fits es s \<longleftrightarrow>
     weight blob_size (cu_items s) + sum_of blob_size es \<le> cl_max_total_bytes (cu_limits s) \<and> fmsize (cu_items s) + length es \<le> cl_max_items (cu_limits s) \<and>
     (\<forall>d. weight (one_of d) (cu_items s) + sum_of (one_of d) es \<le> cl_max_items_per_depositor (cu_limits s) \<and>
          weight (size_of d) (cu_items s) + sum_of (size_of d) es \<le> cl_max_bytes_per_depositor (cu_limits s))"

lemma fits_room:
  assumes "exact s" "fits ((k, h) # es) s"
  shows "\<not> over_budget (h_from h) (h_blob h) s \<and> \<not> no_room (h_blob h) s"
proof -
  have "weight (one_of (h_from h)) (cu_items s) + 1 \<le> cl_max_items_per_depositor (cu_limits s)"
    "weight (size_of (h_from h)) (cu_items s) + length (h_blob h) \<le> cl_max_bytes_per_depositor (cu_limits s)"
    using assms(2) by (auto simp: fits_def sum_of_def one_of_def size_of_def dest: spec [of _ "h_from h"])
  then show ?thesis using assms by (auto simp: over_budget_def no_room_def exact_def fits_def sum_of_def blob_size_def)
qed

lemma fits_put:
  assumes "exact s" "fmlookup (cu_items s) k = None" "fits ((k, h) # es) s"
  shows "fits es (put_entry s (k, h))"
proof -
  have "blob_size (h\<lparr>h_order := cu_next s\<rparr>) = blob_size h" "one_of d (h\<lparr>h_order := cu_next s\<rparr>) = one_of d h" "size_of d (h\<lparr>h_order := cu_next s\<rparr>) = size_of d h" for d
    by (simp_all add: blob_size_def one_of_def size_of_def)
  then show ?thesis using assms(3) unfolding fits_def put_entry_exact(2,3) [OF assms(1,2)] put_entry_next by (auto simp: sum_of_def add.assoc add.left_commute)
qed

lemma restore_entries:
  assumes "cl_max_item_bytes (cu_limits s) \<le> MAX_ITEM_BYTES"
  shows "list_all (entry_ok (cu_limits s)) es \<Longrightarrow> distinct (map fst es) \<Longrightarrow> (\<forall>k \<in> fst ` set es. fmlookup (cu_items s) k = None) \<Longrightarrow> exact s \<Longrightarrow>
    fits (filter (live now) es) s \<Longrightarrow>
    restore_loop (length es) (concat (map snapshot_entry es)) now s = foldl put_entry s (filter (live now) es)"
  using assms
proof (induction es arbitrary: s)
  case (Cons e es)
  obtain k h where e: "e = (k, h)" by fastforce
  have n: "fmlookup (cu_items s) k = None" using Cons.prems(3) e by simp
  have r: "restore_one (snapshot_entry (k, h) @ concat (map snapshot_entry es)) now s =
      Some (concat (map snapshot_entry es), if now < h_expires h then put_entry s (k, h) else s)"
    by (rule restore_entry) (use Cons.prems e fits_room [OF Cons.prems(4)] in auto)
  show ?case
  proof (cases "now < h_expires h")
    case True
    have "fits (filter (live now) es) (put_entry s (k, h))" using fits_put [OF Cons.prems(4) n] Cons.prems(5) e True by simp
    moreover have "\<forall>x \<in> fst ` set es. fmlookup (cu_items (put_entry s (k, h))) x = None" using Cons.prems(2,3) e by (auto simp: lookup_put_entry)
    ultimately show ?thesis using Cons.IH [of "put_entry s (k, h)"] Cons.prems put_entry_exact(1) [OF Cons.prems(4) n] e True r by (simp add: put_entry_next)
  next
    case False
    then show ?thesis using Cons.IH [of s] Cons.prems e r by simp
  qed
qed simp

lemma graph_facts:
  "set (sorted_list_of_fmap m) = {(k, v). fmlookup m k = Some v}" "distinct (map fst (sorted_list_of_fmap m))"
  "sum_list (map (f \<circ> snd) (sorted_list_of_fmap m)) = weight f m" "length (sorted_list_of_fmap m) = fmsize m"
  by (auto simp: sorted_list_of_fmap_def fmlookup_dom_iff image_iff comp_def sorted_list_of_fset.rep_eq weight_def sum_list_distinct_conv_sum_set
      sum.distinct_set_conv_list fcard.rep_eq)

lemma by_order_facts:
  "set (by_order s) = {(k, h). fmlookup (cu_items s) k = Some h}" "distinct (map fst (by_order s))" "sum_of f (by_order s) = weight f (cu_items s)"
  "length (by_order s) = fmsize (cu_items s)" "sorted (map (\<lambda>e. h_order (snd e)) (by_order s))"
proof -
  let ?f = "\<lambda>e :: item_key \<times> held. h_order (snd e)"
  have b: "by_order s = sort_key ?f (sorted_list_of_fmap (cu_items s))" by (simp add: by_order_def case_prod_beta')
  show "set (by_order s) = {(k, h). fmlookup (cu_items s) k = Some h}" "length (by_order s) = fmsize (cu_items s)" "sorted (map ?f (by_order s))"
    by (simp_all add: b graph_facts)
  have m: "mset (map g (by_order s)) = mset (map g (sorted_list_of_fmap (cu_items s)))" for g :: "item_key \<times> held \<Rightarrow> 'x" by (simp add: b)
  show "distinct (map fst (by_order s))" using m [of fst] graph_facts(2) mset_eq_imp_distinct_iff by blast
  show "sum_of f (by_order s) = weight f (cu_items s)"
    unfolding sum_of_def graph_facts(3) [symmetric] by (metis m sum_mset_sum_list)
qed

lemma sum_of_filter_le: "sum_of f (filter P es) \<le> sum_of f es"
  by (induction es) (auto simp: sum_of_def)

text \<open>What a restart leaves: the entries that have not expired, in the order of their deposits, numbered from 0.\<close>

lemma restore_snapshot_entries:
  assumes "store_ok s" "cu_limits m = cu_limits s"
  shows "restore (snapshot s) now m =
    foldl put_entry (m\<lparr>cu_items := fmempty, cu_bytes := 0, cu_per := fmempty, cu_next := 0\<rparr>) (filter (live now) (by_order s))"
proof -
  let ?m = "m\<lparr>cu_items := fmempty, cu_bytes := 0, cu_per := fmempty, cu_next := 0\<rparr>"
  have w: "within_limits s" "cl_max_item_bytes (cu_limits s) \<le> MAX_ITEM_BYTES" "cl_max_items (cu_limits s) \<le> HARD_MAX_ITEMS"
    "\<forall>k h. fmlookup (cu_items s) k = Some h \<longrightarrow> entry_ok (cu_limits s) (k, h)"
    using assms(1) by (auto simp: store_ok_def)
  have "length (by_order s) \<le> 1024" using w(1,3) by (simp add: by_order_facts within_limits_def HARD_MAX_ITEMS_def)
  then have c: "be_val (be_bytes 4 (length (by_order s))) = length (by_order s)" by (intro be_val_be_bytes) simp
  have ok: "list_all (entry_ok (cu_limits ?m)) (by_order s)" using w(4) assms(2) by (auto simp: list_all_iff by_order_facts)
  have ex: "exact ?m" by (simp add: exact_def spent_by_def)
  have le: "sum_of f (filter (live now) (by_order s)) \<le> weight f (cu_items s)" for f using sum_of_filter_le [of f "live now" "by_order s"] by (simp add: by_order_facts)
  have "sum_of (one_of d) (filter (live now) (by_order s)) \<le> cl_max_items_per_depositor (cu_limits s)"
    "sum_of (size_of d) (filter (live now) (by_order s)) \<le> cl_max_bytes_per_depositor (cu_limits s)"
    "sum_of blob_size (filter (live now) (by_order s)) \<le> cl_max_total_bytes (cu_limits s)" for d
    using w(1) le unfolding within_limits_def by (meson le_trans)+
  moreover have "length (filter (live now) (by_order s)) \<le> cl_max_items (cu_limits s)"
    using w(1) length_filter_le [of "live now" "by_order s"] unfolding within_limits_def by_order_facts(4) by (meson le_trans)
  ultimately have "fits (filter (live now) (by_order s)) ?m" using assms(2) by (simp add: fits_def fcard.rep_eq)
  then have "restore_loop (length (by_order s)) (concat (map snapshot_entry (by_order s))) now ?m = foldl put_entry ?m (filter (live now) (by_order s))"
    by (intro restore_entries) (use w(2) assms(2) ok ex by_order_facts in auto)
  then show ?thesis using c by (simp add: restore_def snapshot_def Let_def)
qed

section \<open>Listings over a restart\<close>

definition of_tag :: "bytes \<Rightarrow> item_key \<times> held \<Rightarrow> bool" where
  "of_tag tag e \<longleftrightarrow> fst (fst e) = tag"

lemma listing_order:
  assumes "set es = {(k, h). fmlookup m k = Some h}" "distinct (map fst es)" "sorted_wrt (\<lambda>a b. h_order (snd a) < h_order (snd b)) es"
  shows "map snd (sort (map (\<lambda>((_, i), h). (h_order h, i)) (filter (\<lambda>((t, _), _). t = tag) (sorted_list_of_fmap m)))) =
    map (\<lambda>e. snd (fst e)) (filter (of_tag tag) es)"
proof -
  let ?g = "\<lambda>e :: item_key \<times> held. (h_order (snd e), snd (fst e))"
  have "distinct es" "distinct (sorted_list_of_fmap m)" using assms(2) graph_facts(2) [of m] by (simp_all add: distinct_map)
  moreover have "set es = set (sorted_list_of_fmap m)" unfolding graph_facts(1) by (rule assms(1))
  ultimately have "mset es = mset (sorted_list_of_fmap m)" by (simp add: set_eq_iff_mset_eq_distinct)
  then have "mset (map ?g (filter (of_tag tag) es)) = mset (map ?g (filter (of_tag tag) (sorted_list_of_fmap m)))" by simp
  moreover have "sorted_wrt (\<lambda>a b. ?g a \<le> ?g b) (filter (of_tag tag) es)"
    by (rule sorted_wrt_filter, rule sorted_wrt_mono_rel [OF _ assms(3)]) (simp add: less_eq_prod_simp)
  ultimately have "sort (map ?g (filter (of_tag tag) (sorted_list_of_fmap m))) = map ?g (filter (of_tag tag) es)"
    by (intro properties_for_sort) (simp_all add: sorted_map)
  moreover have "(\<lambda>((_, i), h). (h_order h, i)) = ?g" "(\<lambda>((t, _), _). t = tag) = of_tag tag" by (auto simp: of_tag_def)
  ultimately show ?thesis by (simp add: comp_def)
qed

text \<open>The entries as they are numbered after a restart.\<close>

definition renumbered :: "(item_key \<times> held) list \<Rightarrow> (item_key \<times> held) list" where
  "renumbered es = map (\<lambda>i. (fst (es ! i), (snd (es ! i))\<lparr>h_order := i\<rparr>)) [0..<length es]"

lemma renumbered_facts:
  assumes "distinct (map fst es)" "cu_items m = fmempty" "cu_next m = 0"
  shows "set (renumbered es) = {(k, h). fmlookup (cu_items (foldl put_entry m es)) k = Some h}"
    and "distinct (map fst (renumbered es))" and "sorted_wrt (\<lambda>a b. h_order (snd a) < h_order (snd b)) (renumbered es)"
    and "map (\<lambda>e. snd (fst e)) (filter (of_tag tag) (renumbered es)) = map (\<lambda>e. snd (fst e)) (filter (of_tag tag) es)"
proof -
  note p = put_entries [OF assms(1), of m]
  show "set (renumbered es) = {(k, h). fmlookup (cu_items (foldl put_entry m es)) k = Some h}"
  proof (intro set_eqI iffI)
    fix x assume "x \<in> set (renumbered es)"
    then show "x \<in> {(k, h). fmlookup (cu_items (foldl put_entry m es)) k = Some h}" using p assms(3) by (auto simp: renumbered_def)
  next
    fix x assume x: "x \<in> {(k, h). fmlookup (cu_items (foldl put_entry m es)) k = Some h}"
    obtain k h where k: "x = (k, h)" by fastforce
    then have "k \<in> fst ` set es" using p assms(2) x by (metis (mono_tags, lifting) case_prodD fmempty_lookup mem_Collect_eq option.distinct(1))
    then obtain i where i: "i < length es" "k = fst (es ! i)" by (auto simp: in_set_conv_nth)
    then have "h = (snd (es ! i))\<lparr>h_order := i\<rparr>" using p assms(3) x k by auto
    then show "x \<in> set (renumbered es)" using i k by (auto simp: renumbered_def)
  qed
  have f: "map fst (renumbered es) = map fst es" by (rule nth_equalityI) (simp_all add: renumbered_def)
  then show "distinct (map fst (renumbered es))" using assms(1) by simp
  show "sorted_wrt (\<lambda>a b. h_order (snd a) < h_order (snd b)) (renumbered es)" by (simp add: renumbered_def sorted_wrt_iff_nth_less)
  have "map (\<lambda>e. snd (fst e)) (filter (of_tag tag) xs) = map snd (filter (\<lambda>k. fst k = tag) (map fst xs))" for xs :: "(item_key \<times> held) list"
    by (induction xs) (simp_all add: of_tag_def)
  then show "map (\<lambda>e. snd (fst e)) (filter (of_tag tag) (renumbered es)) = map (\<lambda>e. snd (fst e)) (filter (of_tag tag) es)" using f by simp
qed

abbreviation emptied :: "custody \<Rightarrow> custody" where
  "emptied m \<equiv> m\<lparr>cu_items := fmempty, cu_bytes := 0, cu_per := fmempty, cu_next := 0\<rparr>"

lemma store_order:
  assumes "store_ok s"
  shows "sorted_wrt (\<lambda>a b. h_order (snd a) < h_order (snd b)) (by_order s)"
proof -
  have "sorted_wrt (\<lambda>a b. h_order (snd a) \<le> h_order (snd b)) (by_order s)" using by_order_facts(5) [of s] by (simp add: sorted_map)
  moreover have "distinct (by_order s)" using by_order_facts(2) [of s] by (simp add: distinct_map)
  ultimately have "sorted_wrt (\<lambda>a b. h_order (snd a) \<le> h_order (snd b) \<and> a \<noteq> b) (by_order s)"
    by (simp add: sorted_wrt_iff_nth_less distinct_conv_nth)
  moreover have "h_order (snd a) < h_order (snd b)" if "a \<in> set (by_order s)" "b \<in> set (by_order s)" "h_order (snd a) \<le> h_order (snd b) \<and> a \<noteq> b" for a b
  proof -
    obtain k h k' h' where e: "a = (k, h)" "b = (k', h')" by fastforce
    then have "fmlookup (cu_items s) k = Some h" "fmlookup (cu_items s) k' = Some h'" using that(1,2) by (auto simp: by_order_facts)
    moreover then have "k \<noteq> k'" using that(3) e by auto
    ultimately have "h_order h \<noteq> h_order h'" using assms unfolding store_ok_def by blast
    then show ?thesis using that(3) e by simp
  qed
  ultimately show ?thesis by (rule sorted_wrt_mono_rel [rotated]) auto
qed

lemma listing_of:
  assumes "store_ok s" "check_caller who s = None"
  shows "snd (list_items who tag now s) = Inr (map (\<lambda>e. snd (fst e)) (take MAX_LIST (filter (of_tag tag) (filter (live now) (by_order s)))))"
proof -
  let ?es = "filter (live now) (by_order s)" and ?m = "cu_items (fst (sweep_expired now s))"
  have "set ?es = {(k, h). fmlookup ?m k = Some h}" by (auto simp: by_order_facts split: option.splits if_splits)
  moreover have "distinct (map fst ?es)" using by_order_facts(2) [of s] by (simp add: distinct_map_filter)
  moreover have "sorted_wrt (\<lambda>a b. h_order (snd a) < h_order (snd b)) ?es" by (rule sorted_wrt_filter [OF store_order [OF assms(1)]])
  ultimately show ?thesis using assms(2) listing_order [of ?es ?m tag] by (simp add: list_items_def Let_def take_map flip: take_map)
qed

lemma restored_store:
  assumes "store_ok s" "cu_limits m = cu_limits s"
  shows "store_ok (restore (snapshot s) now m)"
    and "map_option (h_order_update (\<lambda>_. 0)) (fmlookup (cu_items (restore (snapshot s) now m)) k) =
      map_option (h_order_update (\<lambda>_. 0)) (fmlookup (fmretain (\<lambda>k h. now < h_expires h) (cu_items s)) k)"
    and "by_order (restore (snapshot s) now m) = renumbered (filter (live now) (by_order s))"
proof -
  let ?es = "filter (live now) (by_order s)" and ?r = "restore (snapshot s) now m"
  have d: "distinct (map fst ?es)" using by_order_facts(2) [of s] by (simp add: distinct_map_filter)
  have r: "?r = foldl put_entry (emptied m) ?es" by (rule restore_snapshot_entries [OF assms])
  note p = put_entries [OF d, of "emptied m"] and g = renumbered_facts [OF d, of "emptied m"]
  have lk: "(\<exists>i < length ?es. k = fst (?es ! i) \<and> h = (snd (?es ! i))\<lparr>h_order := i\<rparr>)" if "fmlookup (cu_items ?r) k = Some h" for k h
  proof -
    have "(k, h) \<in> set (renumbered ?es)" using that g(1) unfolding r by simp
    then show ?thesis by (auto simp: renumbered_def)
  qed
  have s: "\<forall>k h. fmlookup (cu_items s) k = Some h \<longrightarrow> entry_ok (cu_limits s) (k, h)" using assms(1) by (simp add: store_ok_def)
  have ok: "entry_ok (cu_limits s) (?es ! i)" if "i < length ?es" for i using nth_mem [OF that] s by (auto simp: by_order_facts)
  have "cu_next ?r = length ?es" "cu_limits ?r = cu_limits s" unfolding r using p assms(2) by simp_all
  moreover have "entry_ok (cu_limits s) (k, h) \<and> h_order h < length ?es" if l: "fmlookup (cu_items ?r) k = Some h" for k h
  proof -
    obtain i where "i < length ?es" "k = fst (?es ! i)" "h = (snd (?es ! i))\<lparr>h_order := i\<rparr>" using lk [OF l] by blast
    then show ?thesis using ok [of i] by (simp add: entry_ok_def case_prod_beta)
  qed
  moreover have "k = k'" if l: "fmlookup (cu_items ?r) k = Some h" "fmlookup (cu_items ?r) k' = Some h'" "h_order h = h_order h'" for k k' h h'
  proof -
    obtain i j where "k = fst (?es ! i)" "h = (snd (?es ! i))\<lparr>h_order := i\<rparr>" "k' = fst (?es ! j)" "h' = (snd (?es ! j))\<lparr>h_order := j\<rparr>"
      using lk [OF l(1)] lk [OF l(2)] by blast
    then show ?thesis using l(3) by simp
  qed
  ultimately show ok': "store_ok ?r" using assms restore_within [of "snapshot s" now m] unfolding store_ok_def by auto
  show "map_option (h_order_update (\<lambda>_. 0)) (fmlookup (cu_items ?r) k) = map_option (h_order_update (\<lambda>_. 0)) (fmlookup (fmretain (\<lambda>k h. now < h_expires h) (cu_items s)) k)"
  proof (cases "k \<in> fst ` set ?es")
    case True
    then obtain e where e: "e \<in> set ?es" "k = fst e" by blast
    obtain i where i: "i < length ?es" "k = fst (?es ! i)" using e(2) in_set_conv_nth [THEN iffD1, OF e(1)] by blast
    have "?es ! i \<in> set ?es" using i(1) by (rule nth_mem)
    then have "fmlookup (cu_items s) k = Some (snd (?es ! i))" "now < h_expires (snd (?es ! i))" using i(2) by (auto simp: by_order_facts)
    moreover have "fmlookup (cu_items ?r) k = Some ((snd (?es ! i))\<lparr>h_order := i\<rparr>)" unfolding r using p i by simp
    ultimately show ?thesis by simp
  next
    case False
    then have "fmlookup (cu_items ?r) k = None" unfolding r using p by (cases k) simp
    moreover have "fmlookup (fmretain (\<lambda>k h. now < h_expires h) (cu_items s)) k = None" using False by (force simp: by_order_facts split: option.splits)
    ultimately show ?thesis by simp
  qed
  have "distinct (renumbered ?es)" using g(2) by (simp add: distinct_map)
  moreover have "set (renumbered ?es) = set (by_order ?r)" using g(1) unfolding r by (simp add: by_order_facts)
  ultimately have "mset (by_order ?r) = mset (renumbered ?es)" using by_order_facts(2) [of ?r] by (simp add: set_eq_iff_mset_eq_distinct distinct_map)
  moreover have "sorted (map (\<lambda>e. h_order (snd e)) (renumbered ?es))" by (simp add: renumbered_def comp_def)
  moreover have "inj_on (\<lambda>e. h_order (snd e)) (set (renumbered ?es))" by (auto simp: renumbered_def inj_on_def)
  ultimately have "sort_key (\<lambda>e. h_order (snd e)) (by_order ?r) = renumbered ?es" by (metis mset_eq_setD sort_key_inj_key_eq)
  then show "by_order ?r = renumbered ?es" using by_order_facts(5) [of ?r] by (simp add: sorted_sort_id sort_key_id_if_sorted)
qed

lemma same_held: "g\<lparr>h_order := n\<rparr> = h\<lparr>h_order := n\<rparr> \<Longrightarrow> h_from g = h_from h \<and> h_blob g = h_blob h \<and> h_expires g = h_expires h" for g h :: held
  by (cases g; cases h) simp

lemma nth_filtered: "i < length (filter P xs) \<Longrightarrow> P (filter P xs ! i)"
  by (metis (mono_tags, lifting) mem_Collect_eq nth_mem set_filter)

lemma restore_trusted: "cu_trusted (restore buf now m) = cu_trusted m"
proof -
  have "cu_trusted s' = cu_trusted s" if "restore_one rest now s = Some (rest', s')" for rest rest' s s'
    using that by (auto simp: restore_one_def Let_def split: if_splits)
  then have "cu_trusted (restore_loop n rest now s) = cu_trusted s" for n rest s
    by (induction n arbitrary: rest s) (auto split: option.split)
  then show ?thesis by (simp add: restore_def Let_def split: list.split)
qed

text \<open>
  C19: held messages survive a restart unchanged. Restoring the snapshot of a store gives back exactly the items that have
  not expired, with sender, content and expiry, and every listing and every fetch of a caller who is trusted before and
  after answers the same as without the restart.
\<close>

theorem snapshot_restores:
  assumes "store_ok s" and "cu_limits m = cu_limits s" and "cu_trusted m = cu_trusted s" and "r = restore (snapshot s) now m"
  shows "map_option (h_order_update (\<lambda>_. 0)) (fmlookup (cu_items r) k) =
      map_option (h_order_update (\<lambda>_. 0)) (fmlookup (fmretain (\<lambda>k h. now < h_expires h) (cu_items s)) k) \<and>
    snd (list_items who tag now r) = snd (list_items who tag now s) \<and> snd (fetch_item who tag item now r) = snd (fetch_item who tag item now s)"
proof -
  have l: "store_ok r" "cu_limits r = cu_limits s" "by_order r = renumbered (filter (live now) (by_order s))"
    "map_option (h_order_update (\<lambda>_. 0)) (fmlookup (cu_items r) k) = map_option (h_order_update (\<lambda>_. 0)) (fmlookup (fmretain (\<lambda>k h. now < h_expires h) (cu_items s)) k)" for k
    using restored_store [OF assms(1,2)] restore_within [of "snapshot s" now m] assms(2,4) by auto
  have c: "check_caller who r = check_caller who s" using assms(3,4) l(2) by (simp add: check_caller_def restore_trusted)
  have "filter (live now) (renumbered (filter (live now) (by_order s))) = renumbered (filter (live now) (by_order s))"
    by (rule filter_True) (auto simp: renumbered_def nth_filtered [of _ "live now"])
  moreover have "map (\<lambda>e. snd (fst e)) (filter (of_tag tag) (renumbered (filter (live now) (by_order s)))) = map (\<lambda>e. snd (fst e)) (filter (of_tag tag) (filter (live now) (by_order s)))"
    by (rule renumbered_facts(4) [of _ "emptied m"]) (use by_order_facts(2) [of s] in \<open>simp_all add: distinct_map_filter\<close>)
  ultimately have "snd (list_items who tag now r) = snd (list_items who tag now s)"
    using c listing_of [OF l(1), of who tag now] listing_of [OF assms(1), of who tag now]
    by (cases "check_caller who s") (simp_all add: l(3) list_items_def flip: take_map)
  moreover have "map_option h_blob (fmlookup (cu_items (fst (sweep_expired now r))) (tag, item)) = map_option h_blob (fmlookup (cu_items (fst (sweep_expired now s))) (tag, item))"
    using l(4) [of "(tag, item)"] by (auto split: option.splits if_splits dest: same_held)
  then have "snd (fetch_item who tag item now r) = snd (fetch_item who tag item now s)"
    using c by (cases "check_caller who s") (simp_all add: fetch_item_def Let_def)
  ultimately show ?thesis using l(4) by blast
qed

section \<open>A deposited message is kept\<close>

definition holds :: "item_key \<Rightarrow> held \<Rightarrow> custody \<Rightarrow> bool" where
  "holds k h s \<longleftrightarrow> (\<exists>g. fmlookup (cu_items s) k = Some g \<and> h_from g = h_from h \<and> h_blob g = h_blob h \<and> h_expires g = h_expires h)"

text \<open>
  \<open>spares k h e\<close>: the event is well typed, carries a time before the item \<open>h\<close> under the key \<open>k\<close> expires, does not delete it
  and does not revoke its depositor.
\<close>

definition nonce_ok :: "disk_io \<Rightarrow> bool" where
  "nonce_ok w \<longleftrightarrow> length (fst w) = 24"

fun spares :: "item_key \<Rightarrow> held \<Rightarrow> custody_event \<Rightarrow> bool" where
  "spares k h (CvTrust i) \<longleftrightarrow> True"
| "spares k h (CvRevoke w i) \<longleftrightarrow> nonce_ok w \<and> i \<noteq> h_from h"
| "spares k h (CvDeposit w who tag item blob now) \<longleftrightarrow>
     nonce_ok w \<and> length who = 32 \<and> length tag = 16 \<and> length item = 16 \<and> now < h_expires h"
| "spares k h (CvList w who tag now) \<longleftrightarrow> nonce_ok w \<and> now < h_expires h"
| "spares k h (CvFetch w who tag item now) \<longleftrightarrow> nonce_ok w \<and> now < h_expires h"
| "spares k h (CvDelete w who tag item) \<longleftrightarrow> nonce_ok w \<and> (tag, item) \<noteq> k"
| "spares k h (CvSweep w now) \<longleftrightarrow> nonce_ok w \<and> now < h_expires h"
| "spares k h (CvReopen now) \<longleftrightarrow> now < h_expires h"

lemma fewer_ok:
  assumes "store_ok s" "within_limits s'" "cu_limits s' = cu_limits s" "cu_next s' = cu_next s"
    "\<And>k h. fmlookup (cu_items s') k = Some h \<Longrightarrow> fmlookup (cu_items s) k = Some h"
  shows "store_ok s'"
  using assms unfolding store_ok_def by metis

lemma remove_all_ok: "store_ok s \<Longrightarrow> store_ok (remove_all ks s)"
  by (rule fewer_ok [of s]) (auto simp: store_ok_def remove_all_within remove_all_lookup split: if_splits)

lemma trust_ok: "store_ok s \<Longrightarrow> store_ok (s\<lparr>cu_trusted := t\<rparr>)"
  by (rule fewer_ok [of s]) (auto simp: store_ok_def within_limits_def spent_by_def)

lemma insert_ok:
  assumes "store_ok s" "within_limits (insert_item k who blob t s)" "length (fst k) = 16" "length (snd k) = 16" "length who = 32" "blob \<noteq> []"
    "length blob \<le> cl_max_item_bytes (cu_limits s)"
  shows "store_ok (insert_item k who blob t s)"
proof -
  let ?h = "\<lparr>h_from = who, h_blob = blob, h_expires = t, h_order = cu_next s\<rparr>"
  have i: "cu_items (insert_item k who blob t s) = fmupd k ?h (cu_items s)" "cu_next (insert_item k who blob t s) = Suc (cu_next s)"
    by (simp_all add: insert_item_def split: prod.split)
  have e: "entry_ok (cu_limits s) (k, ?h)" using assms(3-7) by (simp add: entry_ok_def case_prod_beta)
  have o: "\<forall>k h. fmlookup (cu_items s) k = Some h \<longrightarrow> entry_ok (cu_limits s) (k, h) \<and> h_order h < cu_next s"
    "\<forall>k k' h h'. fmlookup (cu_items s) k = Some h \<longrightarrow> fmlookup (cu_items s) k' = Some h' \<longrightarrow> h_order h = h_order h' \<longrightarrow> k = k'"
    using assms(1) by (simp_all add: store_ok_def)
  have "entry_ok (cu_limits s) (k', h') \<and> h_order h' < Suc (cu_next s)" if "fmlookup (fmupd k ?h (cu_items s)) k' = Some h'" for k' h'
    using that e o(1) [rule_format, of k' h'] by (auto split: if_splits simp: less_Suc_eq)
  moreover have "a = b" if "fmlookup (fmupd k ?h (cu_items s)) a = Some x" "fmlookup (fmupd k ?h (cu_items s)) b = Some y" "h_order x = h_order y" for a b x y
  proof (cases "a = k \<or> b = k")
    case True
    then show ?thesis using that o(1) [rule_format, of a x] o(1) [rule_format, of b y] by (auto split: if_splits)
  next
    case False
    then show ?thesis using that o(2) [rule_format, of a x b y] by (auto split: if_splits)
  qed
  moreover have "cl_max_item_bytes (cu_limits s) \<le> MAX_ITEM_BYTES" "cl_max_items (cu_limits s) \<le> HARD_MAX_ITEMS" using assms(1) by (simp_all add: store_ok_def)
  ultimately show ?thesis using assms(2) unfolding store_ok_def i insert_frame by blast
qed

lemma deposit_ok:
  assumes "store_ok s" "length who = 32" "length tag = 16" "length item = 16"
  shows "store_ok (fst (deposit who tag item blob now s))"
proof -
  let ?s = "fst (sweep_expired now s)"
  have s: "store_ok ?s" "cu_limits ?s = cu_limits s" using assms(1) by (simp_all add: sweep_expired_def Let_def remove_all_ok)
  then have "within_limits ?s" by (simp add: store_ok_def)
  then have "store_ok (insert_item (tag, item) who blob (saturating_add now (cl_ttl_ms (cu_limits ?s))) ?s)"
    if "\<not> over_budget who blob ?s" "\<not> no_room blob ?s" "blob \<noteq> []" "length blob \<le> cl_max_item_bytes (cu_limits s)"
    using insert_ok [OF s(1) insert_within] that s(2) assms(2-4) by simp
  then show ?thesis using s(1) assms(1) by (auto simp: deposit_def Let_def not_less split: option.split)
qed

lemma memory_step_ok: "store_ok s \<Longrightarrow> spares k h e \<Longrightarrow> store_ok (memory_step s e)"
  by (cases e) (auto simp: deposit_ok trust_def revoke_trust_def list_items_def fetch_item_def delete_item_def sweep_expired_def Let_def case_prod_beta
    intro: remove_all_ok trust_ok remove_all_ok [of _ "[_]", simplified] split: option.split)

lemma memory_step_holds:
  assumes "holds k h s" "spares k h e"
  shows "holds k h (memory_step s e)"
proof -
  have keep: "holds k h (remove_all (held_keys P s') s')" if "holds k h s'" "\<And>g. h_from g = h_from h \<Longrightarrow> h_expires g = h_expires h \<Longrightarrow> \<not> P g" for P s'
    using that by (auto simp: holds_def remove_held)
  have sw: "holds k h (fst (sweep_expired now s))" if "now < h_expires h" for now
    using keep [OF assms(1), of "\<lambda>h. h_expires h \<le> now"] that by (simp add: sweep_expired_def Let_def not_le)
  show ?thesis
  proof (cases e)
    case (CvDeposit w who tag item blob now)
    have n: "now < h_expires h" using assms(2) CvDeposit by simp
    have "holds k h (insert_item (tag, item) who blob t s')" if "holds k h s'" "fmlookup (cu_items s') (tag, item) = None" for t s'
      using that by (auto simp: holds_def insert_item_def split: prod.split)
    then show ?thesis using CvDeposit sw [OF n] assms(1) by (auto simp: deposit_def Let_def split: option.split)
  next
    case (CvRevoke w i)
    have "holds k h (s\<lparr>cu_trusted := t\<rparr>)" for t using assms(1) by (simp add: holds_def)
    then show ?thesis using keep [of "s\<lparr>cu_trusted := cu_trusted s |-| {|i|}\<rparr>" "\<lambda>h. h_from h = i"] CvRevoke assms(2) by (auto simp: revoke_trust_def Let_def)
  qed (use assms sw in \<open>auto simp: trust_def holds_def list_items_def fetch_item_def delete_item_def Let_def case_prod_beta split: option.split\<close>)
qed

text \<open>\<open>on_disk E l k h d\<close>: the file holds a snapshot of a store that held the item.\<close>

definition on_disk :: "custody_env \<Rightarrow> custody_limits \<Rightarrow> item_key \<Rightarrow> held \<Rightarrow> disk_custody \<Rightarrow> bool" where
  "on_disk E l k h d \<longleftrightarrow>
     (\<exists>m. store_ok m \<and> cu_limits m = clamped l \<and> holds k h m \<and> dc_file d \<noteq> None \<and>
        read_document (ce_sk E) (ce_cell E) ChatCustody (ce_name E) (dc_file d) = Inr (snapshot m))"

definition keeps :: "custody_env \<Rightarrow> custody_limits \<Rightarrow> item_key \<Rightarrow> held \<Rightarrow> disk_custody \<Rightarrow> bool" where
  "keeps E l k h d \<longleftrightarrow> store_ok (dc_mem d) \<and> cu_limits (dc_mem d) = clamped l \<and> holds k h (dc_mem d) \<and> on_disk E l k h d"

lemma persist_on_disk:
  assumes "state_aead_ok (ce_sk E)" "nonce_ok w" "store_ok (dc_mem d)" "cu_limits (dc_mem d) = clamped l" "holds k h (dc_mem d)" "on_disk E l k h d"
  shows "on_disk E l k h (persist E w d)"
proof (cases "dc_off d \<or> \<not> snd w \<or> isl (doc_seal (ce_sk E) (fst w) (ce_cell E) ChatCustody (ce_name E) (snapshot (dc_mem d)))")
  case True
  then have "dc_file (persist E w d) = dc_file d" by (auto simp: persist_def split: sum.split)
  then show ?thesis using assms(6) by (simp add: on_disk_def)
next
  case False
  then obtain f where f: "doc_seal (ce_sk E) (fst w) (ce_cell E) ChatCustody (ce_name E) (snapshot (dc_mem d)) = Inr f"
    by (cases "doc_seal (ce_sk E) (fst w) (ce_cell E) ChatCustody (ce_name E) (snapshot (dc_mem d))") auto
  then have "dc_file (persist E w d) = Some f" using False by (simp add: persist_def)
  moreover have "read_document (ce_sk E) (ce_cell E) ChatCustody (ce_name E) (Some f) = Inr (snapshot (dc_mem d))"
    using doc_roundtrip(1) [OF assms(1) _ f] assms(2) by (simp add: nonce_ok_def)
  ultimately show ?thesis using assms(3-5) unfolding on_disk_def by auto
qed

lemma step_disk:
  assumes "\<nexists>now. e = CvReopen now"
  shows "custody_step E l d e = d\<lparr>dc_mem := memory_step (dc_mem d) e\<rparr> \<or>
    (\<exists>w. custody_step E l d e = persist E w (d\<lparr>dc_mem := memory_step (dc_mem d) e\<rparr>) \<and> (spares k h e \<longrightarrow> nonce_ok w))"
  using assms
  by (cases e)
    (auto simp: dc_trust_def dc_revoke_def dc_deposit_def dc_list_def dc_fetch_def dc_delete_def dc_sweep_def persist_smaller_def Let_def case_prod_beta)

lemma store_okD: "store_ok s \<Longrightarrow> within_limits s"
  by (simp add: store_ok_def)

lemma step_keeps:
  assumes "state_aead_ok (ce_sk E)" "keeps E l k h d" "spares k h e"
  shows "keeps E l k h (custody_step E l d e)"
proof (cases "\<exists>now. e = CvReopen now")
  case True
  then obtain now where e: "e = CvReopen now" by blast
  obtain m where m: "store_ok m" "cu_limits m = clamped l" "holds k h m" "dc_file d \<noteq> None"
    "read_document (ce_sk E) (ce_cell E) ChatCustody (ce_name E) (dc_file d) = Inr (snapshot m)"
    using assms(2) by (auto simp: keeps_def on_disk_def)
  let ?r = "restore (snapshot m) now (new_custody l)"
  have d: "custody_step E l d e = \<lparr>dc_mem = ?r, dc_off = False, dc_file = dc_file d\<rparr>" using m(4,5) e by (auto simp: open_custody_def Let_def)
  have lim: "cu_limits (new_custody l) = cu_limits m" using m(2) by (simp add: new_custody_def)
  note r = restored_store [OF m(1) lim, of now]
  obtain g where g: "fmlookup (cu_items m) k = Some g" "h_from g = h_from h" "h_blob g = h_blob h" "h_expires g = h_expires h"
    using m(3) by (auto simp: holds_def)
  have "now < h_expires g" using assms(3) e g(4) by simp
  then have "map_option (h_order_update (\<lambda>_. 0)) (fmlookup (cu_items ?r) k) = Some (g\<lparr>h_order := 0\<rparr>)" using r(2) [of k] g(1) by simp
  then obtain g' where g': "fmlookup (cu_items ?r) k = Some g'" "g'\<lparr>h_order := 0\<rparr> = g\<lparr>h_order := 0\<rparr>" by (cases "fmlookup (cu_items ?r) k") simp_all
  then have "holds k h ?r" unfolding holds_def using g(2-4) same_held [OF g'(2)] by (intro exI [of _ g']) simp
  moreover have "cu_limits ?r = clamped l" using restore_within [of "snapshot m" now "new_custody l"] lim m(2) by simp
  ultimately show ?thesis using r(1) assms(2) d by (simp add: keeps_def on_disk_def)
next
  case False
  then have mem: "dc_mem (custody_step E l d e) = memory_step (dc_mem d) e" by (intro step_memory) (auto split: custody_event.split)
  have k: "store_ok (memory_step (dc_mem d) e)" "holds k h (memory_step (dc_mem d) e)" "cu_limits (memory_step (dc_mem d) e) = clamped l"
    using assms(2,3) memory_step_ok [of "dc_mem d"] memory_step_holds [of k h "dc_mem d"] memory_step_within [of "dc_mem d" e] store_okD
    by (auto simp: keeps_def)
  let ?d = "d\<lparr>dc_mem := memory_step (dc_mem d) e\<rparr>"
  have o: "on_disk E l k h ?d" using assms(2) by (simp add: keeps_def on_disk_def)
  from step_disk [OF False, of E l d k h] have "on_disk E l k h (custody_step E l d e)"
    using o persist_on_disk [OF assms(1) _ _ _ _ o] k assms(3) by auto
  then show ?thesis using mem k by (simp add: keeps_def)
qed

lemma snapshot_length:
  assumes "store_ok s" "cl_max_total_bytes (cu_limits s) \<le> HARD_MAX_TOTAL_BYTES"
  shows "length (snapshot s) \<le> max_document_bytes ChatCustody"
proof -
  have "list_all (entry_ok (cu_limits s)) es \<Longrightarrow> length (concat (map snapshot_entry es)) = 76 * length es + sum_of blob_size es" for es
    by (induction es) (auto simp: snapshot_entry_def entry_ok_def sum_of_def blob_size_def)
  moreover have "list_all (entry_ok (cu_limits s)) (by_order s)" using assms(1) by (auto simp: store_ok_def list_all_iff by_order_facts)
  ultimately have "length (snapshot s) = 5 + 76 * fmsize (cu_items s) + weight blob_size (cu_items s)" by (simp add: snapshot_def by_order_facts)
  moreover have "fmsize (cu_items s) \<le> 1024" "weight blob_size (cu_items s) \<le> 4194304"
    using assms unfolding store_ok_def within_limits_def HARD_MAX_ITEMS_def HARD_MAX_TOTAL_BYTES_def by linarith+
  ultimately show ?thesis by (simp add: max_document_bytes_def)
qed

lemma deposit_stored:
  assumes "deposit who tag item blob now s = (m, Inr Stored)"
  shows "\<exists>n. fmlookup (cu_items m) (tag, item) =
    Some \<lparr>h_from = who, h_blob = blob, h_expires = saturating_add now (cl_ttl_ms (cu_limits s)), h_order = n\<rparr>"
  using assms by (auto simp: deposit_def Let_def insert_item_def sweep_expired_def split: option.splits if_splits prod.splits)

lemma seal_total:
  assumes "state_aead_ok X" "cell \<noteq> None" "length p \<le> max_document_bytes l"
  shows "\<exists>f. doc_seal X n cell l context p = Inr f"
proof -
  obtain key where k: "doc_key X cell l = Inr key" using assms(2) by (auto simp: doc_key_def)
  obtain c t where "sk_seal X key n (doc_aad l context) p = Some (c, t)" using assms(1) unfolding state_aead_ok_def by blast
  then show ?thesis using k assms(3) by (simp add: doc_seal_def seal_detached_def)
qed

lemma run_keeps:
  assumes "state_aead_ok (ce_sk E)"
  shows "keeps E l k h d \<Longrightarrow> list_all (spares k h) es \<Longrightarrow> keeps E l k h (foldl (custody_step E l) d es)"
  by (induction es arbitrary: d) (use step_keeps [OF assms] in auto)

text \<open>
  C12: a message that a holder accepted and wrote down is handed out until it expires. After the deposit let anything happen
  at the holder, deposits of others up to the limits, failed writes, restarts, revocations of other contacts, as long as the
  message is not deleted, its depositor not revoked and no request carries a time at or after its expiry. Then a contact
  that asks for the message gets exactly the bytes that were deposited.
\<close>

theorem deposited_message_kept:
  assumes "state_aead_ok (ce_sk E)" and "ce_cell E \<noteq> None" and "store_ok (dc_mem d)" and "cu_limits (dc_mem d) = clamped l" and "\<not> dc_off d"
    and "dc_deposit E w who tag item blob now d = (d', Inr Stored)" and "snd w" and "nonce_ok w"
    and "length who = 32" and "length tag = 16" and "length item = 16"
    and "h = \<lparr>h_from = who, h_blob = blob, h_expires = saturating_add now (min (cl_ttl_ms l) HARD_MAX_TTL_MS), h_order = 0\<rparr>"
    and "list_all (spares (tag, item) h) es" and "t < h_expires h"
  shows "snd (dc_fetch E w' who' tag item t (dc_trust who' (foldl (custody_step E l) d' es))) = Inr (Some blob)"
proof -
  obtain m where m: "deposit who tag item blob now (dc_mem d) = (m, Inr Stored)" "d' = persist E w (d\<lparr>dc_mem := m\<rparr>)"
    using assms(6) by (auto simp: dc_deposit_def Let_def split: prod.splits if_splits)
  have en: "cl_enabled l" using m(1) assms(4) by (auto simp: deposit_def check_caller_def clamped_def split: if_splits)
  have ok: "store_ok m" using deposit_ok [OF assms(3,9-11), of blob now] m(1) by simp
  have lm: "cu_limits m = clamped l" using memory_step_within [OF store_okD [OF assms(3)], of "CvDeposit w who tag item blob now"] m(1) assms(4) by simp
  have hm: "holds (tag, item) h m" using deposit_stored [OF m(1)] assms(4,12) by (auto simp: holds_def clamped_def)
  have "length (snapshot m) \<le> max_document_bytes ChatCustody" using snapshot_length [OF ok] lm by (simp add: clamped_def)
  then obtain f where f: "doc_seal (ce_sk E) (fst w) (ce_cell E) ChatCustody (ce_name E) (snapshot m) = Inr f"
    using assms(1,2) seal_total by blast
  then have "dc_file d' = Some f" "dc_mem d' = m" using m(2) assms(5,7) by (simp_all add: persist_def)
  moreover have "read_document (ce_sk E) (ce_cell E) ChatCustody (ce_name E) (Some f) = Inr (snapshot m)"
    using doc_roundtrip(1) [OF assms(1) _ f] assms(8) by (simp add: nonce_ok_def)
  ultimately have "keeps E l (tag, item) h d'" using ok lm hm by (auto simp: keeps_def on_disk_def)
  then have k: "keeps E l (tag, item) h (foldl (custody_step E l) d' es)" using run_keeps [OF assms(1) _ assms(13)] by blast
  then show ?thesis using assms(12,14) en by (auto simp: keeps_def holds_def dc_fetch_def dc_trust_def trust_def persist_smaller_def fetch_item_def check_caller_def
    Let_def clamped_def split: prod.split)
qed

end
