(* ===== verification/Mailbox_Client.thy ===== *)
theory Mailbox_Client
  imports Mailbox_Disk
begin

text \<open>
  Leaving messages with holders and collecting them, \<^verbatim>\<open>chat/mailbox/client.rs\<close>, \<^verbatim>\<open>transport.rs\<close>, \<^verbatim>\<open>ids.rs\<close> and the custody part of
  \<^verbatim>\<open>chat/service.rs\<close>. The client works over a transport, which is a record of four operations on a state of the network, as
  the trait in the code; the transport over the chat channel composes it with the wire format and the holders.
\<close>

section \<open>Names\<close>

definition TAG_CONTEXT :: string where "TAG_CONTEXT = ''miasma chat custody recipient tag v1''"
definition GROUP_TAG_CONTEXT :: string where "GROUP_TAG_CONTEXT = ''miasma chat custody group recipient tag v1''"
definition DIRECTED_TAG_CONTEXT :: string where "DIRECTED_TAG_CONTEXT = ''miasma directed invite custody recipient tag v1''"

text \<open>\<open>derive\<close> is \<^verbatim>\<open>blake3::derive_key\<close>.\<close>

definition for_recipient :: "(string \<Rightarrow> bytes \<Rightarrow> bytes) \<Rightarrow> bytes \<Rightarrow> bytes" where
  "for_recipient derive r = take 16 (derive TAG_CONTEXT r)"

definition for_group_recipient :: "(string \<Rightarrow> bytes \<Rightarrow> bytes) \<Rightarrow> bytes \<Rightarrow> bytes" where
  "for_group_recipient derive r = take 16 (derive GROUP_TAG_CONTEXT r)"

definition for_directed_recipient :: "(string \<Rightarrow> bytes \<Rightarrow> bytes) \<Rightarrow> bytes \<Rightarrow> bytes" where
  "for_directed_recipient derive r = take 16 (derive DIRECTED_TAG_CONTEXT r)"

definition item_id_of :: "bytes \<Rightarrow> bytes option" where
  "item_id_of wire = (case decode_envelope wire of Inl _ \<Rightarrow> None | Inr e \<Rightarrow> Some (env_id e))"

definition item_id_for_directed :: "bytes \<Rightarrow> bytes" where
  "item_id_for_directed envelope_id = take 16 envelope_id"

section \<open>Serving a request\<close>

definition answer :: "('a \<Rightarrow> mb_response) \<Rightarrow> disk_custody \<times> (custody_error + 'a) \<Rightarrow> disk_custody \<times> mb_response" where
  "answer f res = (case res of (d, Inl err) \<Rightarrow> (d, RspRefused err) | (d, Inr x) \<Rightarrow> (d, f x))"

definition serve_request :: "custody_env \<Rightarrow> disk_io \<Rightarrow> bytes \<Rightarrow> u64 \<Rightarrow> mb_request \<Rightarrow> disk_custody \<Rightarrow> disk_custody \<times> mb_response" where
  "serve_request E w who now req d =
     (case req of
        ReqDeposit tag item blob \<Rightarrow> answer RspDeposited (dc_deposit E w who tag item blob now d)
      | ReqList tag now_ms \<Rightarrow> answer RspListing (dc_list E w who tag now_ms d)
      | ReqFetch tag item now_ms \<Rightarrow> answer RspItem (dc_fetch E w who tag item now_ms d)
      | ReqDelete tag item \<Rightarrow> answer RspDeleted (dc_delete E w who tag item d))"

text \<open>The bytes read from the stream are those after the tag; no answer is \<open>None\<close>.\<close>

definition serve_custody :: "custody_env \<Rightarrow> disk_io \<Rightarrow> bytes \<Rightarrow> u64 \<Rightarrow> bytes \<Rightarrow> disk_custody \<Rightarrow> disk_custody \<times> bytes option" where
  "serve_custody E w who now stream d =
     (let d = dc_trust who d in
      case read_mb_request stream of
        Inl _ \<Rightarrow> (d, None)
      | Inr req \<Rightarrow> (case serve_request E w who now req d of (d, resp) \<Rightarrow> (d, Some (encode_response resp))))"

text \<open>A node of the network: who may write to it, its store if custody is on, its clock and what its next write meets.\<close>

record holder_node =
  hn_env :: custody_env
  hn_contacts :: "bytes fset"
  hn_custody :: "disk_custody option"
  hn_now :: u64
  hn_io :: disk_io

definition serve_stream :: "bytes \<Rightarrow> bytes \<Rightarrow> holder_node \<Rightarrow> holder_node \<times> bytes option" where
  "serve_stream who stream n =
     (case stream of
        [] \<Rightarrow> (n, None)
      | first # rest \<Rightarrow>
          if first \<noteq> CUSTODY_STREAM_TAG then (n, None)
          else
            (case hn_custody n of
               None \<Rightarrow> (n, None)
             | Some d \<Rightarrow>
                 if who |\<notin>| hn_contacts n then (n, None)
                 else (case serve_custody (hn_env n) (hn_io n) who (hn_now n) rest d of (d, out) \<Rightarrow> (n\<lparr>hn_custody := Some d\<rparr>, out))))"

section \<open>The transport\<close>

datatype mailbox_error = Unreachable | Refused custody_error

record 'n mb_transport =
  tr_deposit :: "'n \<Rightarrow> bytes \<Rightarrow> bytes \<Rightarrow> bytes \<Rightarrow> bytes \<Rightarrow> u64 \<Rightarrow> 'n \<times> (mailbox_error + deposit_outcome)"
  tr_list :: "'n \<Rightarrow> bytes \<Rightarrow> bytes \<Rightarrow> u64 \<Rightarrow> 'n \<times> (mailbox_error + bytes list)"
  tr_fetch :: "'n \<Rightarrow> bytes \<Rightarrow> bytes \<Rightarrow> bytes \<Rightarrow> u64 \<Rightarrow> 'n \<times> (mailbox_error + bytes option)"
  tr_delete :: "'n \<Rightarrow> bytes \<Rightarrow> bytes \<Rightarrow> bytes \<Rightarrow> 'n \<times> (mailbox_error + bool)"

text \<open>The nodes that can be reached, by their identifiers.\<close>

type_synonym mb_net = "(bytes, holder_node) fmap"

definition exchange :: "bytes \<Rightarrow> mb_net \<Rightarrow> bytes \<Rightarrow> mb_request \<Rightarrow> mb_net \<times> (mailbox_error + mb_response)" where
  "exchange me net holder req =
     (case fmlookup net holder of
        None \<Rightarrow> (net, Inl Unreachable)
      | Some n \<Rightarrow>
          (case serve_stream me (CUSTODY_STREAM_TAG # encode_request req) n of
             (n, out) \<Rightarrow>
               (fmupd holder n net,
                case out of
                  None \<Rightarrow> Inl Unreachable
                | Some b \<Rightarrow> (case read_mb_response b of Inl _ \<Rightarrow> Inl Unreachable | Inr r \<Rightarrow> Inr r))))"

definition chat_deposit :: "bytes \<Rightarrow> mb_net \<Rightarrow> bytes \<Rightarrow> bytes \<Rightarrow> bytes \<Rightarrow> bytes \<Rightarrow> u64 \<Rightarrow> mb_net \<times> (mailbox_error + deposit_outcome)" where
  "chat_deposit me net holder tag item blob now =
     (case exchange me net holder (ReqDeposit tag item blob) of
        (net, r) \<Rightarrow>
          (net, case r of Inl e \<Rightarrow> Inl e | Inr (RspDeposited x) \<Rightarrow> Inr x | Inr (RspRefused e) \<Rightarrow> Inl (Refused e) | Inr _ \<Rightarrow> Inl Unreachable))"

definition chat_list :: "bytes \<Rightarrow> mb_net \<Rightarrow> bytes \<Rightarrow> bytes \<Rightarrow> u64 \<Rightarrow> mb_net \<times> (mailbox_error + bytes list)" where
  "chat_list me net holder tag now =
     (case exchange me net holder (ReqList tag now) of
        (net, r) \<Rightarrow>
          (net, case r of Inl e \<Rightarrow> Inl e | Inr (RspListing x) \<Rightarrow> Inr x | Inr (RspRefused e) \<Rightarrow> Inl (Refused e) | Inr _ \<Rightarrow> Inl Unreachable))"

definition chat_fetch :: "bytes \<Rightarrow> mb_net \<Rightarrow> bytes \<Rightarrow> bytes \<Rightarrow> bytes \<Rightarrow> u64 \<Rightarrow> mb_net \<times> (mailbox_error + bytes option)" where
  "chat_fetch me net holder tag item now =
     (case exchange me net holder (ReqFetch tag item now) of
        (net, r) \<Rightarrow>
          (net, case r of Inl e \<Rightarrow> Inl e | Inr (RspItem x) \<Rightarrow> Inr x | Inr (RspRefused e) \<Rightarrow> Inl (Refused e) | Inr _ \<Rightarrow> Inl Unreachable))"

definition chat_delete :: "bytes \<Rightarrow> mb_net \<Rightarrow> bytes \<Rightarrow> bytes \<Rightarrow> bytes \<Rightarrow> mb_net \<times> (mailbox_error + bool)" where
  "chat_delete me net holder tag item =
     (case exchange me net holder (ReqDelete tag item) of
        (net, r) \<Rightarrow>
          (net, case r of Inl e \<Rightarrow> Inl e | Inr (RspDeleted x) \<Rightarrow> Inr x | Inr (RspRefused e) \<Rightarrow> Inl (Refused e) | Inr _ \<Rightarrow> Inl Unreachable))"

definition chat_transport :: "bytes \<Rightarrow> mb_net mb_transport" where
  "chat_transport me =
     \<lparr>tr_deposit = chat_deposit me, tr_list = chat_list me, tr_fetch = chat_fetch me, tr_delete = chat_delete me\<rparr>"

section \<open>The client\<close>

definition MAX_COLLECT :: nat where "MAX_COLLECT = 128"

record deposit_report =
  held_by :: "bytes list"
  failed_at :: "(bytes \<times> mailbox_error) list"

definition copies_of :: "nat \<Rightarrow> nat" where
  "copies_of copies = min (max copies 1) 8"

fun deposit_loop ::
  "'n mb_transport \<Rightarrow> nat \<Rightarrow> bytes \<Rightarrow> bytes \<Rightarrow> bytes \<Rightarrow> bytes \<Rightarrow> u64 \<Rightarrow> bytes list \<Rightarrow> 'n \<times> deposit_report \<Rightarrow> 'n \<times> deposit_report" where
  "deposit_loop T copies tag recipient item blob now [] s = s"
| "deposit_loop T copies tag recipient item blob now (h # hs) (n, rep) =
     (if h = recipient then deposit_loop T copies tag recipient item blob now hs (n, rep)
      else if copies \<le> length (held_by rep) then (n, rep)
      else
        (case tr_deposit T n h tag item blob now of
           (n, Inr _) \<Rightarrow> deposit_loop T copies tag recipient item blob now hs (n, rep\<lparr>held_by := held_by rep @ [h]\<rparr>)
         | (n, Inl e) \<Rightarrow> deposit_loop T copies tag recipient item blob now hs (n, rep\<lparr>failed_at := failed_at rep @ [(h, e)]\<rparr>)))"

definition deposit_tagged ::
  "'n mb_transport \<Rightarrow> nat \<Rightarrow> bytes \<Rightarrow> bytes list \<Rightarrow> bytes \<Rightarrow> bytes \<Rightarrow> bytes \<Rightarrow> bytes \<Rightarrow> u64 \<Rightarrow> 'n \<Rightarrow> 'n \<times> deposit_report" where
  "deposit_tagged T copies tag holders sender recipient item wire now n =
     deposit_loop T (copies_of copies) tag recipient item (sender @ wire) now holders (n, \<lparr>held_by = [], failed_at = []\<rparr>)"

record collect_report =
  cr_offered :: nat
  cr_taken :: nat
  cr_repeated :: nat
  cr_unreachable :: nat

text \<open>The state of a collection: network, what the receiver has become, report, and the sets of the loop.\<close>

record ('n, 'a) collecting =
  co_net :: 'n
  co_recv :: 'a
  co_rep :: collect_report
  co_seen :: "bytes fset"
  co_taken :: "bytes fset"
  co_delete :: "(bytes \<times> bytes) list"

fun collect_ids ::
  "'n mb_transport \<Rightarrow> ('a \<Rightarrow> bytes \<Rightarrow> bytes \<Rightarrow> 'a \<times> bool) \<Rightarrow> bytes \<Rightarrow> u64 \<Rightarrow> bytes \<Rightarrow> bytes list \<Rightarrow> ('n, 'a) collecting \<Rightarrow> ('n, 'a) collecting" where
  "collect_ids T rcv tag now h [] st = st"
| "collect_ids T rcv tag now h (i # ids) st =
     (if i |\<in>| co_seen st then
        collect_ids T rcv tag now h ids
          (st\<lparr>co_rep := (co_rep st)\<lparr>cr_repeated := Suc (cr_repeated (co_rep st))\<rparr>,
              co_delete := (if i |\<in>| co_taken st then co_delete st @ [(h, i)] else co_delete st)\<rparr>)
      else
        let st = st\<lparr>co_seen := finsert i (co_seen st)\<rparr> in
        if MAX_COLLECT < fcard (co_seen st) then st
        else
          (case tr_fetch T (co_net st) h tag i now of
             (n, Inl _) \<Rightarrow> st\<lparr>co_net := n, co_rep := (co_rep st)\<lparr>cr_unreachable := Suc (cr_unreachable (co_rep st))\<rparr>\<rparr>
           | (n, Inr None) \<Rightarrow> collect_ids T rcv tag now h ids (st\<lparr>co_net := n\<rparr>)
           | (n, Inr (Some b)) \<Rightarrow>
               if length b \<le> 32 then collect_ids T rcv tag now h ids (st\<lparr>co_net := n\<rparr>)
               else
                 (case rcv (co_recv st) (take 32 b) (drop 32 b) of
                    (a, ok) \<Rightarrow>
                      let st = st\<lparr>co_net := n, co_recv := a, co_rep := (co_rep st)\<lparr>cr_offered := Suc (cr_offered (co_rep st))\<rparr>\<rparr> in
                      collect_ids T rcv tag now h ids
                        (if ok
                         then st\<lparr>co_rep := (co_rep st)\<lparr>cr_taken := Suc (cr_taken (co_rep st))\<rparr>, co_taken := finsert i (co_taken st),
                                 co_delete := co_delete st @ [(h, i)]\<rparr>
                         else st))))"

fun collect_holders ::
  "'n mb_transport \<Rightarrow> ('a \<Rightarrow> bytes \<Rightarrow> bytes \<Rightarrow> 'a \<times> bool) \<Rightarrow> bytes \<Rightarrow> u64 \<Rightarrow> bytes \<Rightarrow> bytes list \<Rightarrow> ('n, 'a) collecting \<Rightarrow> ('n, 'a) collecting" where
  "collect_holders T rcv tag now me [] st = st"
| "collect_holders T rcv tag now me (h # hs) st =
     (if h = me then collect_holders T rcv tag now me hs st
      else
        (case tr_list T (co_net st) h tag now of
           (n, Inl _) \<Rightarrow>
             collect_holders T rcv tag now me hs
               (st\<lparr>co_net := n, co_rep := (co_rep st)\<lparr>cr_unreachable := Suc (cr_unreachable (co_rep st))\<rparr>\<rparr>)
         | (n, Inr ids) \<Rightarrow> collect_holders T rcv tag now me hs (collect_ids T rcv tag now h ids (st\<lparr>co_net := n\<rparr>))))"

definition collect_tagged ::
  "'n mb_transport \<Rightarrow> ('a \<Rightarrow> bytes \<Rightarrow> bytes \<Rightarrow> 'a \<times> bool) \<Rightarrow> bytes \<Rightarrow> bytes list \<Rightarrow> bytes \<Rightarrow> u64 \<Rightarrow> 'n \<Rightarrow> 'a \<Rightarrow> 'n \<times> 'a \<times> collect_report" where
  "collect_tagged T rcv tag holders me now n a =
     (let st = collect_holders T rcv tag now me holders
                 \<lparr>co_net = n, co_recv = a, co_rep = \<lparr>cr_offered = 0, cr_taken = 0, cr_repeated = 0, cr_unreachable = 0\<rparr>,
                  co_seen = {||}, co_taken = {||}, co_delete = []\<rparr>
      in (foldl (\<lambda>n (h, i). fst (tr_delete T n h tag i)) (co_net st) (co_delete st), co_recv st, co_rep st))"

definition client_deposit ::
  "(string \<Rightarrow> bytes \<Rightarrow> bytes) \<Rightarrow> 'n mb_transport \<Rightarrow> nat \<Rightarrow> bytes list \<Rightarrow> bytes \<Rightarrow> bytes \<Rightarrow> bytes \<Rightarrow> bytes \<Rightarrow> u64 \<Rightarrow> 'n \<Rightarrow> 'n \<times> deposit_report" where
  "client_deposit derive T copies holders sender recipient item wire now n =
     deposit_tagged T copies (for_recipient derive recipient) holders sender recipient item wire now n"

definition client_deposit_group ::
  "(string \<Rightarrow> bytes \<Rightarrow> bytes) \<Rightarrow> 'n mb_transport \<Rightarrow> nat \<Rightarrow> bytes list \<Rightarrow> bytes \<Rightarrow> bytes \<Rightarrow> bytes \<Rightarrow> bytes \<Rightarrow> u64 \<Rightarrow> 'n \<Rightarrow> 'n \<times> deposit_report" where
  "client_deposit_group derive T copies holders sender recipient item wire now n =
     deposit_tagged T copies (for_group_recipient derive recipient) holders sender recipient item wire now n"

definition client_deposit_directed ::
  "(string \<Rightarrow> bytes \<Rightarrow> bytes) \<Rightarrow> 'n mb_transport \<Rightarrow> nat \<Rightarrow> bytes list \<Rightarrow> bytes \<Rightarrow> bytes \<Rightarrow> bytes \<Rightarrow> bytes \<Rightarrow> u64 \<Rightarrow> 'n \<Rightarrow> 'n \<times> deposit_report" where
  "client_deposit_directed derive T copies holders sender recipient item wire now n =
     deposit_tagged T copies (for_directed_recipient derive recipient) holders sender recipient item wire now n"

definition client_collect ::
  "(string \<Rightarrow> bytes \<Rightarrow> bytes) \<Rightarrow> 'n mb_transport \<Rightarrow> ('a \<Rightarrow> bytes \<Rightarrow> bytes \<Rightarrow> 'a \<times> bool) \<Rightarrow> bytes list \<Rightarrow> bytes \<Rightarrow> u64 \<Rightarrow> 'n \<Rightarrow> 'a \<Rightarrow> 'n \<times> 'a \<times> collect_report" where
  "client_collect derive T rcv holders me now n a = collect_tagged T rcv (for_recipient derive me) holders me now n a"

definition client_collect_group ::
  "(string \<Rightarrow> bytes \<Rightarrow> bytes) \<Rightarrow> 'n mb_transport \<Rightarrow> ('a \<Rightarrow> bytes \<Rightarrow> bytes \<Rightarrow> 'a \<times> bool) \<Rightarrow> bytes list \<Rightarrow> bytes \<Rightarrow> u64 \<Rightarrow> 'n \<Rightarrow> 'a \<Rightarrow> 'n \<times> 'a \<times> collect_report" where
  "client_collect_group derive T rcv holders me now n a = collect_tagged T rcv (for_group_recipient derive me) holders me now n a"

definition client_collect_directed ::
  "(string \<Rightarrow> bytes \<Rightarrow> bytes) \<Rightarrow> 'n mb_transport \<Rightarrow> ('a \<Rightarrow> bytes \<Rightarrow> bytes \<Rightarrow> 'a \<times> bool) \<Rightarrow> bytes list \<Rightarrow> bytes \<Rightarrow> u64 \<Rightarrow> 'n \<Rightarrow> 'a \<Rightarrow> 'n \<times> 'a \<times> collect_report" where
  "client_collect_directed derive T rcv holders me now n a = collect_tagged T rcv (for_directed_recipient derive me) holders me now n a"

section \<open>The service\<close>

text \<open>\<open>contacts\<close> are the endpoints of the contacts in the order of the contact list, where a contact has one.\<close>

definition holders_for :: "bytes option list \<Rightarrow> bytes \<Rightarrow> bytes list" where
  "holders_for contacts peer = filter (\<lambda>i. i \<noteq> peer) (List.map_filter id contacts)"

definition deposit_with_holders ::
  "(string \<Rightarrow> bytes \<Rightarrow> bytes) \<Rightarrow> bool \<Rightarrow> bytes option list \<Rightarrow> bytes \<Rightarrow> nat \<Rightarrow> bytes \<Rightarrow> bytes \<Rightarrow> u64 \<Rightarrow> mb_net \<Rightarrow> mb_net \<times> nat" where
  "deposit_with_holders derive custody contacts me copies peer wire now net =
     (if \<not> custody then (net, 0)
      else
        (case item_id_of wire of
           None \<Rightarrow> (net, 0)
         | Some item \<Rightarrow>
             let holders = holders_for contacts peer in
             if holders = [] then (net, 0)
             else
               (case client_deposit derive (chat_transport me) copies holders me peer item wire now net of
                  (net, rep) \<Rightarrow> (net, length (held_by rep)))))"

text \<open>\<open>rcv\<close> is the acceptance of a message by the chat core; the round for groups that follows is not part of it.\<close>

definition collect_from_holders ::
  "(string \<Rightarrow> bytes \<Rightarrow> bytes) \<Rightarrow> bool \<Rightarrow> bytes option list \<Rightarrow> bytes \<Rightarrow> ('a \<Rightarrow> bytes \<Rightarrow> bytes \<Rightarrow> 'a \<times> bool) \<Rightarrow> u64 \<Rightarrow> mb_net \<Rightarrow> 'a \<Rightarrow> mb_net \<times> 'a" where
  "collect_from_holders derive custody contacts me rcv now net a =
     (if \<not> custody then (net, a)
      else
        let holders = List.map_filter id contacts in
        if holders = [] then (net, a)
        else (case client_collect derive (chat_transport me) rcv holders me now net a of (net, a, _) \<Rightarrow> (net, a)))"

definition deposit_directed_invite ::
  "(string \<Rightarrow> bytes \<Rightarrow> bytes) \<Rightarrow> bool \<Rightarrow> bytes option list \<Rightarrow> bytes \<Rightarrow> nat \<Rightarrow> bytes \<Rightarrow> bytes \<Rightarrow> bytes \<Rightarrow> u64 \<Rightarrow> mb_net \<Rightarrow> mb_net \<times> deposit_report option" where
  "deposit_directed_invite derive custody contacts me copies recipient item wire now net =
     (if \<not> custody then (net, None)
      else
        let holders = holders_for contacts recipient in
        if holders = [] then (net, None)
        else (case client_deposit_directed derive (chat_transport me) copies holders me recipient item wire now net of (net, rep) \<Rightarrow> (net, Some rep)))"

text \<open>\<open>own\<close> is the identity of the node, \<open>me\<close> the directed sharing key that the invites are for.\<close>

definition collect_directed_invites ::
  "(string \<Rightarrow> bytes \<Rightarrow> bytes) \<Rightarrow> bool \<Rightarrow> bytes option list \<Rightarrow> bytes \<Rightarrow> bytes \<Rightarrow> ('a \<Rightarrow> bytes \<Rightarrow> bytes \<Rightarrow> 'a \<times> bool) \<Rightarrow> u64 \<Rightarrow> mb_net \<Rightarrow> 'a \<Rightarrow>
   mb_net \<times> 'a \<times> collect_report option" where
  "collect_directed_invites derive custody contacts own me rcv now net a =
     (if \<not> custody then (net, a, None)
      else
        let holders = List.map_filter id contacts in
        if holders = [] then (net, a, None)
        else (case client_collect_directed derive (chat_transport own) rcv holders me now net a of (net, a, rep) \<Rightarrow> (net, a, Some rep)))"

end
