(* ===== verification/Mailbox_Delivery.thy ===== *)
theory Mailbox_Delivery
  imports Mailbox_Client
begin

text \<open>
  What collecting from holders achieves: over a transport whose holders hand out what they list, every message that is
  listed is offered to the receiver and, once taken, removed from every holder that listed it. The transport over the
  chat channel is such a transport.
\<close>

section \<open>Transports with honest holders\<close>

text \<open>
  \<open>up n h\<close>: the holder answers; \<open>stored n now h tag i\<close>: what it hands out; \<open>listed n now h tag\<close>: what it lists. Asking does not
  change what there is at that time, and a deletion removes one item.
\<close>

locale honest_transport =
  fixes T :: "'n mb_transport" and inv :: "'n \<Rightarrow> bool" and up :: "'n \<Rightarrow> bytes \<Rightarrow> bool"
    and stored :: "'n \<Rightarrow> u64 \<Rightarrow> bytes \<Rightarrow> bytes \<Rightarrow> bytes \<Rightarrow> bytes option" and listed :: "'n \<Rightarrow> u64 \<Rightarrow> bytes \<Rightarrow> bytes \<Rightarrow> bytes list"
  assumes listed_stored: "inv n \<Longrightarrow> i \<in> set (listed n now h tag) \<Longrightarrow> length i = 16 \<and> stored n now h tag i \<noteq> None"
    and list_law: "inv n \<Longrightarrow> length tag = 16 \<Longrightarrow> tr_list T n h tag now = (n', r) \<Longrightarrow>
      inv n' \<and> up n' = up n \<and> stored n' now = stored n now \<and> listed n' now = listed n now \<and> (if up n h then r = Inr (listed n now h tag) else isl r)"
    and fetch_law: "inv n \<Longrightarrow> length tag = 16 \<Longrightarrow> length i = 16 \<Longrightarrow> tr_fetch T n h tag i now = (n', r2) \<Longrightarrow>
      inv n' \<and> up n' = up n \<and> stored n' now = stored n now \<and> listed n' now = listed n now \<and> (if up n h then r2 = Inr (stored n now h tag i) else isl r2)"
    and delete_law: "inv n \<Longrightarrow> length tag = 16 \<Longrightarrow> length i = 16 \<Longrightarrow> tr_delete T n h tag i = (n', r3) \<Longrightarrow>
      inv n' \<and> up n' = up n \<and> stored n' now h' tag' j = (if up n h \<and> h' = h \<and> tag' = tag \<and> j = i then None else stored n now h' tag' j)"
begin

text \<open>
  The state of a collection that began at \<open>n0\<close>, for an item \<open>i\<close> with content \<open>b\<close>, after the holders \<open>H\<close>: if the item was seen it
  was offered, and if it was taken it is going to be deleted at every holder of \<open>H\<close>.
\<close>

definition progress ::
  "('a \<Rightarrow> bytes \<Rightarrow> bytes \<Rightarrow> 'a \<times> bool) \<Rightarrow> bytes set \<Rightarrow> bytes \<Rightarrow> u64 \<Rightarrow> bytes \<Rightarrow> bytes \<Rightarrow> 'n \<Rightarrow> bytes set \<Rightarrow> ('n, (bytes \<times> bytes) list \<times> 'a) collecting \<Rightarrow> bool" where
  "progress rcv ids tag now i b n0 H st \<longleftrightarrow>
     inv (co_net st) \<and> up (co_net st) = up n0 \<and> stored (co_net st) now = stored n0 now \<and> listed (co_net st) now = listed n0 now \<and>
     fset (co_seen st) \<subseteq> ids \<and> co_taken st |\<subseteq>| co_seen st \<and> (\<forall>x \<in> set (co_delete st). length (snd x) = 16) \<and>
     (i |\<in>| co_seen st \<longrightarrow> (take 32 b, drop 32 b) \<in> set (fst (co_recv st)) \<and> ((\<forall>a. snd (rcv a (take 32 b) (drop 32 b))) \<longrightarrow> i |\<in>| co_taken st)) \<and>
     (\<forall>h \<in> H. i |\<in>| co_seen st \<and> (i |\<in>| co_taken st \<longrightarrow> (h, i) \<in> set (co_delete st)))"

end

definition logging :: "('a \<Rightarrow> bytes \<Rightarrow> bytes \<Rightarrow> 'a \<times> bool) \<Rightarrow> (bytes \<times> bytes) list \<times> 'a \<Rightarrow> bytes \<Rightarrow> bytes \<Rightarrow> ((bytes \<times> bytes) list \<times> 'a) \<times> bool" where
  "logging rcv s x y = (case s of (log, a) \<Rightarrow> case rcv a x y of (a, ok) \<Rightarrow> ((log @ [(x, y)], a), ok))"

context honest_transport
begin

lemma ids_progress:
  assumes "length tag = 16" "up n0 h" "finite ids" "card ids \<le> MAX_COLLECT" "32 < length b" "stored n0 now h tag i \<in> {None, Some b}" "inv n0"
  shows "progress rcv ids tag now i b n0 H st \<Longrightarrow> set is \<subseteq> set (listed n0 now h tag) \<Longrightarrow> set is \<subseteq> ids \<Longrightarrow>
    progress rcv ids tag now i b n0 (if i \<in> set is then insert h H else H) (collect_ids T (logging rcv) tag now h is st)"
proof (induction "is" arbitrary: H st)
  case (Cons j "is")
  have j: "length j = 16" "stored n0 now h tag j \<noteq> None" using listed_stored [OF assms(7), of j now h tag] Cons.prems(2) by auto
  show ?case
  proof (cases "j |\<in>| co_seen st")
    case True
    let ?st = "st\<lparr>co_rep := (co_rep st)\<lparr>cr_repeated := Suc (cr_repeated (co_rep st))\<rparr>,
              co_delete := (if j |\<in>| co_taken st then co_delete st @ [(h, j)] else co_delete st)\<rparr>"
    have "progress rcv ids tag now i b n0 (if i = j then insert h H else H) ?st" using Cons.prems(1) True j(1) by (auto simp: progress_def)
    from Cons.IH [OF this] show ?thesis using True Cons.prems(2,3) by (auto simp: insert_commute split: if_splits)
  next
    case False
    let ?st = "st\<lparr>co_seen := finsert j (co_seen st)\<rparr>"
    have "fset (co_seen ?st) \<subseteq> ids" using Cons.prems(1,3) by (auto simp: progress_def)
    then have c: "fcard (co_seen ?st) \<le> MAX_COLLECT" using assms(3,4) card_mono le_trans unfolding fcard.rep_eq by blast
    obtain b' where b': "stored n0 now h tag j = Some b'" using j(2) by blast
    have st: "inv (co_net st)" "up (co_net st) = up n0" "stored (co_net st) now = stored n0 now" "listed (co_net st) now = listed n0 now"
      using Cons.prems(1) by (simp_all add: progress_def)
    obtain n r where f: "tr_fetch T (co_net st) h tag j now = (n, r)" by fastforce
    from fetch_law [OF st(1) assms(1) j(1) f] have n: "inv n" "up n = up n0" "stored n now = stored n0 now" "listed n now = listed n0 now" "r = Inr (Some b')"
      using st assms(2) b' by auto
    show ?thesis
    proof (cases "length b' \<le> 32")
      case True
      then have "i \<noteq> j" using b' assms(5,6) by auto
      then have "progress rcv ids tag now i b n0 H (?st\<lparr>co_net := n\<rparr>)" using Cons.prems(1,3) n by (auto simp: progress_def)
      from Cons.IH [OF this] show ?thesis using True False c f n(5) \<open>i \<noteq> j\<close> Cons.prems(2,3) by (simp add: Let_def)
    next
      case long: False
      obtain log a a' ok where r: "co_recv st = (log, a)" "rcv a (take 32 b') (drop 32 b') = (a', ok)" by (meson surj_pair)
      let ?st1 = "?st\<lparr>co_net := n, co_recv := (log @ [(take 32 b', drop 32 b')], a'), co_rep := (co_rep st)\<lparr>cr_offered := Suc (cr_offered (co_rep st))\<rparr>\<rparr>"
      let ?st2 = "if ok then ?st1\<lparr>co_rep := (co_rep ?st1)\<lparr>cr_taken := Suc (cr_taken (co_rep ?st1))\<rparr>, co_taken := finsert j (co_taken ?st1),
                                 co_delete := co_delete ?st1 @ [(h, j)]\<rparr> else ?st1"
      have "b' = b" if "i = j" using that b' assms(6) by auto
      moreover have "ok" if "\<forall>a. snd (rcv a (take 32 b') (drop 32 b'))" using that [rule_format, of a] r(2) by simp
      ultimately have "progress rcv ids tag now i b n0 (if i = j then insert h H else H) ?st2"
        using Cons.prems(1,3) n False j(1) r(1) by (auto simp: progress_def)
      from Cons.IH [OF this] show ?thesis using False long c f n(5) r Cons.prems(2,3) by (auto simp: Let_def logging_def insert_commute split: if_splits)
    qed
  qed
qed simp

lemma holders_progress:
  assumes "length tag = 16" "inv n0" "finite ids" "card ids \<le> MAX_COLLECT" "32 < length b" "\<And>h. up n0 h \<Longrightarrow> stored n0 now h tag i \<in> {None, Some b}"
  shows "progress rcv ids tag now i b n0 H st \<Longrightarrow> (\<And>h. h \<in> set hs \<Longrightarrow> set (listed n0 now h tag) \<subseteq> ids) \<Longrightarrow>
    progress rcv ids tag now i b n0 (H \<union> {h \<in> set hs. h \<noteq> me \<and> up n0 h \<and> i \<in> set (listed n0 now h tag)}) (collect_holders T (logging rcv) tag now me hs st)"
proof (induction hs arbitrary: H st)
  case (Cons h hs)
  have st: "inv (co_net st)" "up (co_net st) = up n0" "stored (co_net st) now = stored n0 now" "listed (co_net st) now = listed n0 now"
    using Cons.prems(1) by (simp_all add: progress_def)
  obtain n r where f: "tr_list T (co_net st) h tag now = (n, r)" by fastforce
  from list_law [OF st(1) assms(1) f]
  have n: "inv n" "up n = up n0" "stored n now = stored n0 now" "listed n now = listed n0 now" "if up n0 h then r = Inr (listed n0 now h tag) else isl r"
    using st by auto
  then have p: "progress rcv ids tag now i b n0 H (st\<lparr>co_net := n\<rparr>)" "progress rcv ids tag now i b n0 H (st\<lparr>co_net := n, co_rep := x\<rparr>)" for x
    using Cons.prems(1) by (simp_all add: progress_def)
  have sub: "set (listed n0 now h tag) \<subseteq> ids" "\<And>h. h \<in> set hs \<Longrightarrow> set (listed n0 now h tag) \<subseteq> ids" using Cons.prems(2) by auto
  have ih: "progress rcv ids tag now i b n0 (H' \<union> {h \<in> set hs. h \<noteq> me \<and> up n0 h \<and> i \<in> set (listed n0 now h tag)}) (collect_holders T (logging rcv) tag now me hs st')"
    if "progress rcv ids tag now i b n0 H' st'" for H' st' using Cons.IH [OF that] sub(2) by blast
  let ?S = "\<lambda>hs. {h \<in> set hs. h \<noteq> me \<and> up n0 h \<and> i \<in> set (listed n0 now h tag)}"
  show ?case
  proof (cases "h = me \<or> \<not> up n0 h")
    case True
    then have "?S (h # hs) = ?S hs" by auto
    then show ?thesis using True ih [OF Cons.prems(1)] ih [OF p(2)] f n(5) by (cases r) (simp_all split: if_splits)
  next
    case False
    then have "H \<union> ?S (h # hs) = (if i \<in> set (listed n0 now h tag) then insert h H else H) \<union> ?S hs" by auto
    moreover have "progress rcv ids tag now i b n0 (if i \<in> set (listed n0 now h tag) then insert h H else H)
        (collect_ids T (logging rcv) tag now h (listed n0 now h tag) (st\<lparr>co_net := n\<rparr>))"
      using ids_progress [OF assms(1) _ assms(3-5) _ assms(2) p(1), of h] False assms(6) sub(1) by blast
    ultimately show ?thesis using ih False f n(5) by simp
  qed
qed simp

lemma deletes:
  assumes "length tag = 16"
  shows "inv n \<Longrightarrow> (\<forall>x \<in> set ds. length (snd x) = 16) \<Longrightarrow>
    stored (foldl (\<lambda>n (h, i). fst (tr_delete T n h tag i)) n ds) now h tag' j = (if up n h \<and> tag' = tag \<and> (h, j) \<in> set ds then None else stored n now h tag' j)"
proof (induction ds arbitrary: n)
  case (Cons x ds)
  obtain g k where x: "x = (g, k)" by fastforce
  obtain n' r where d: "tr_delete T n g tag k = (n', r)" by fastforce
  have k: "length k = 16" using Cons.prems(2) x by simp
  have "inv n'" "up n' = up n" "\<And>h' tag' j. stored n' now h' tag' j = (if up n g \<and> h' = g \<and> tag' = tag \<and> j = k then None else stored n now h' tag' j)"
    using delete_law [OF Cons.prems(1) assms k d] by blast+
  then show ?case using Cons.IH [of n'] Cons.prems(2) x d by auto
qed simp

lemma progressD:
  assumes "progress rcv ids tag now i b n0 H st"
  shows "inv (co_net st)" "up (co_net st) = up n0" "\<forall>x \<in> set (co_delete st). length (snd x) = 16"
    "stored (co_net st) now = stored n0 now"
    "i |\<in>| co_seen st \<Longrightarrow> (take 32 b, drop 32 b) \<in> set (fst (co_recv st))"
    "i |\<in>| co_seen st \<Longrightarrow> \<forall>a. snd (rcv a (take 32 b) (drop 32 b)) \<Longrightarrow> i |\<in>| co_taken st"
    "h \<in> H \<Longrightarrow> i |\<in>| co_seen st" "h \<in> H \<Longrightarrow> i |\<in>| co_taken st \<Longrightarrow> (h, i) \<in> set (co_delete st)"
  using assms by (simp_all add: progress_def)

lemma item_collected:
  assumes "inv n" "length tag = 16" "card (\<Union>h \<in> set holders. set (listed n now h tag)) \<le> MAX_COLLECT" "32 < length b"
    "\<And>h. up n h \<Longrightarrow> stored n now h tag i \<in> {None, Some b}" "h \<in> set holders" "h \<noteq> me" "up n h" "i \<in> set (listed n now h tag)"
    "collect_tagged T (logging rcv) tag holders me now n ([], a) = (n', (log, a'), rep)"
  shows "(take 32 b, drop 32 b) \<in> set log \<and> ((\<forall>a. snd (rcv a (take 32 b) (drop 32 b))) \<longrightarrow> stored n' now h tag i = None)"
    and "stored n now g tag i = None \<Longrightarrow> stored n' now g tag i = None"
proof -
  let ?ids = "\<Union>h \<in> set holders. set (listed n now h tag)"
  let ?init = "\<lparr>co_net = n, co_recv = ([], a), co_rep = \<lparr>cr_offered = 0, cr_taken = 0, cr_repeated = 0, cr_unreachable = 0\<rparr>,
    co_seen = {||}, co_taken = {||}, co_delete = []\<rparr>"
  let ?st = "collect_holders T (logging rcv) tag now me holders ?init"
  have p0: "progress rcv ?ids tag now i b n {} ?init" using assms(1) by (simp add: progress_def)
  have fin: "finite ?ids" by simp
  have p: "progress rcv ?ids tag now i b n ({} \<union> {h \<in> set holders. h \<noteq> me \<and> up n h \<and> i \<in> set (listed n now h tag)}) ?st"
    by (rule holders_progress [OF assms(2,1) fin assms(3-5) p0]) blast+
  have h: "h \<in> {} \<union> {h \<in> set holders. h \<noteq> me \<and> up n h \<and> i \<in> set (listed n now h tag)}" using assms(6-9) by simp
  note s = progressD(7,8) [OF p h] and l = progressD(5,6) [OF p progressD(7) [OF p h]]
  have r: "co_recv ?st = (log, a')" "n' = foldl (\<lambda>n (h, i). fst (tr_delete T n h tag i)) (co_net ?st) (co_delete ?st)"
    using assms(10) by (simp_all add: collect_tagged_def Let_def)
  note q = progressD(1-4) [OF p]
  then have "stored n' now h tag i = None" if "(h, i) \<in> set (co_delete ?st)" using deletes [OF assms(2), of "co_net ?st" "co_delete ?st" now h tag i] that r(2) assms(8) by simp
  then show "(take 32 b, drop 32 b) \<in> set log \<and> ((\<forall>a. snd (rcv a (take 32 b) (drop 32 b))) \<longrightarrow> stored n' now h tag i = None)"
    using s(2) l r(1) by auto
  show "stored n now g tag i = None \<Longrightarrow> stored n' now g tag i = None"
    using deletes [OF assms(2) q(1,3), of now g tag i] q(4) r(2) by simp
qed

end

section \<open>The chat channel\<close>

definition net_ok :: "mb_net \<Rightarrow> bool" where
  "net_ok net \<longleftrightarrow> (\<forall>h n d. fmlookup net h = Some n \<longrightarrow> hn_custody n = Some d \<longrightarrow> store_ok (dc_mem d))"

definition answers :: "bytes \<Rightarrow> mb_net \<Rightarrow> bytes \<Rightarrow> bool" where
  "answers me net h \<longleftrightarrow>
     (case fmlookup net h of
        None \<Rightarrow> False
      | Some n \<Rightarrow> me |\<in>| hn_contacts n \<and> (case hn_custody n of None \<Rightarrow> False | Some d \<Rightarrow> cl_enabled (cu_limits (dc_mem d))))"

definition unexpired :: "u64 \<Rightarrow> disk_custody \<Rightarrow> (item_key, held) fmap" where
  "unexpired now d = fmretain (\<lambda>k h. now < h_expires h) (cu_items (dc_mem d))"

definition items_at :: "mb_net \<Rightarrow> u64 \<Rightarrow> bytes \<Rightarrow> (item_key, held) fmap" where
  "items_at net now h = (case fmlookup net h of None \<Rightarrow> fmempty | Some n \<Rightarrow> (case hn_custody n of None \<Rightarrow> fmempty | Some d \<Rightarrow> unexpired now d))"

definition ids_of :: "bytes \<Rightarrow> (item_key, held) fmap \<Rightarrow> bytes list" where
  "ids_of tag m = map snd (take MAX_LIST (sort (map (\<lambda>((_, i), h). (h_order h, i)) (filter (\<lambda>((t, _), _). t = tag) (sorted_list_of_fmap m)))))"

definition net_stored :: "mb_net \<Rightarrow> u64 \<Rightarrow> bytes \<Rightarrow> bytes \<Rightarrow> bytes \<Rightarrow> bytes option" where
  "net_stored net now h tag i = map_option h_blob (fmlookup (items_at net now h) (tag, i))"

definition net_listed :: "mb_net \<Rightarrow> u64 \<Rightarrow> bytes \<Rightarrow> bytes \<Rightarrow> bytes list" where
  "net_listed net now h tag = ids_of tag (items_at net now h)"

lemma ids_of_set: "i \<in> set (ids_of tag m) \<Longrightarrow> fmlookup m (tag, i) \<noteq> None"
proof -
  assume "i \<in> set (ids_of tag m)"
  then obtain n where "(n, i) \<in> set (sort (map (\<lambda>((_, i), h). (h_order h, i)) (filter (\<lambda>((t, _), _). t = tag) (sorted_list_of_fmap m))))"
    by (auto simp: ids_of_def dest: in_set_takeD)
  then show ?thesis by (auto simp: graph_facts(1))
qed

lemma ids_of_length: "length (ids_of tag m) \<le> MAX_LIST"
  by (simp add: ids_of_def)

text \<open>What serving a request does to a store.\<close>

lemma trusted_caller: "check_caller me (dc_mem (dc_trust me d)) = (if cl_enabled (cu_limits (dc_mem d)) then None else Some CuDisabled)"
  by (simp add: check_caller_def dc_trust_def trust_def)

lemma trust_keeps: "cu_items (dc_mem (dc_trust me d)) = cu_items (dc_mem d)" "cu_limits (dc_mem (dc_trust me d)) = cu_limits (dc_mem d)"
  "store_ok (dc_mem d) \<Longrightarrow> store_ok (dc_mem (dc_trust me d))"
  by (simp_all add: dc_trust_def trust_def trust_ok)

lemma swept_ok: "store_ok s \<Longrightarrow> store_ok (fst (sweep_expired now s))" "cu_limits (fst (sweep_expired now s)) = cu_limits s"
  by (simp_all add: sweep_expired_def Let_def remove_all_ok)

lemma served_list:
  assumes "store_ok (dc_mem d)" "serve_request E w me t (ReqList tag now) (dc_trust me d) = (d', resp)"
  shows "store_ok (dc_mem d') \<and> cu_limits (dc_mem d') = cu_limits (dc_mem d) \<and> unexpired now d' = unexpired now d \<and>
    resp = (if cl_enabled (cu_limits (dc_mem d)) then RspListing (ids_of tag (unexpired now d)) else RspRefused CuDisabled)"
proof -
  let ?m = "dc_mem (dc_trust me d)"
  have d: "dc_mem d' = fst (list_items me tag now ?m)" "resp = (case snd (list_items me tag now ?m) of Inl e \<Rightarrow> RspRefused e | Inr ids \<Rightarrow> RspListing ids)"
    using assms(2) by (auto simp: serve_request_def answer_def dc_list_def persist_smaller_def Let_def split: prod.splits sum.splits)
  show ?thesis using trust_keeps [where me = me and d = d] assms(1) swept_ok [where s = ?m and now = now] trusted_caller [where me = me and d = d] unfolding d
    by (auto simp: list_items_def Let_def unexpired_def d fmretain_retain ids_of_def)
qed

lemma served_fetch:
  assumes "store_ok (dc_mem d)" "serve_request E w me t (ReqFetch tag i now) (dc_trust me d) = (d', resp)"
  shows "store_ok (dc_mem d') \<and> cu_limits (dc_mem d') = cu_limits (dc_mem d) \<and> unexpired now d' = unexpired now d \<and>
    resp = (if cl_enabled (cu_limits (dc_mem d)) then RspItem (map_option h_blob (fmlookup (unexpired now d) (tag, i))) else RspRefused CuDisabled)"
proof -
  let ?m = "dc_mem (dc_trust me d)"
  have d: "dc_mem d' = fst (fetch_item me tag i now ?m)" "resp = (case snd (fetch_item me tag i now ?m) of Inl e \<Rightarrow> RspRefused e | Inr x \<Rightarrow> RspItem x)"
    using assms(2) by (auto simp: serve_request_def answer_def dc_fetch_def persist_smaller_def Let_def split: prod.splits sum.splits)
  show ?thesis using trust_keeps [where me = me and d = d] assms(1) swept_ok [where s = ?m and now = now] trusted_caller [where me = me and d = d] unfolding d
    by (auto simp: fetch_item_def Let_def unexpired_def d fmretain_retain)
qed

lemma served_delete:
  assumes "store_ok (dc_mem d)" "serve_request E w me t (ReqDelete tag i) (dc_trust me d) = (d', resp)"
  shows "store_ok (dc_mem d') \<and> cu_limits (dc_mem d') = cu_limits (dc_mem d) \<and>
    cu_items (dc_mem d') = (if cl_enabled (cu_limits (dc_mem d)) then fmdrop (tag, i) (cu_items (dc_mem d)) else cu_items (dc_mem d)) \<and>
    wf_response resp"
proof -
  let ?m = "dc_mem (dc_trust me d)"
  have d: "dc_mem d' = fst (delete_item me tag i ?m)" "resp = (case snd (delete_item me tag i ?m) of Inl e \<Rightarrow> RspRefused e | Inr x \<Rightarrow> RspDeleted x)"
    using assms(2) by (auto simp: serve_request_def answer_def dc_delete_def Let_def split: prod.splits sum.splits)
  show ?thesis using trust_keeps [where me = me and d = d] assms(1) remove_all_ok [of ?m "[(tag, i)]"] trusted_caller [where me = me and d = d] unfolding d
    by (auto simp: delete_item_def case_prod_beta wf_response_def)
qed

text \<open>An exchange is the request served at the holder, if the holder lets the caller in.\<close>

lemma exchange_served:
  assumes "wf_request req" "fmlookup net h = Some n" "hn_custody n = Some d" "me |\<in>| hn_contacts n"
    "serve_request (hn_env n) (hn_io n) me (hn_now n) req (dc_trust me d) = (d', resp)" "wf_response resp"
  shows "exchange me net h req = (fmupd h (n\<lparr>hn_custody := Some d'\<rparr>) net, Inr resp)"
  using assms request_read [OF assms(1), of "[]"] response_read [OF assms(6), of "[]"]
  by (simp add: exchange_def serve_stream_def serve_custody_def Let_def)

lemma exchange_refused:
  assumes "\<nexists>n d. fmlookup net h = Some n \<and> hn_custody n = Some d \<and> me |\<in>| hn_contacts n"
  shows "exchange me net h req = (net, Inl Unreachable)"
proof (cases "fmlookup net h")
  case (Some n)
  then have "serve_stream me (CUSTODY_STREAM_TAG # encode_request req) n = (n, None)" using assms by (auto simp: serve_stream_def split: option.split)
  moreover have "fmupd h n net = net" by (rule fmap_ext) (auto simp: Some)
  ultimately show ?thesis using Some by (simp add: exchange_def)
qed (simp add: exchange_def)

lemma unexpired_sizes:
  assumes "store_ok (dc_mem d)" "fmlookup (unexpired now d) (tag, i) = Some g"
  shows "length i = 16" "length (h_blob g) \<le> MAX_ITEM_BYTES"
  using assms unfolding store_ok_def by (auto simp: unexpired_def entry_ok_def split: option.splits if_splits) (meson le_trans)+

lemma listing_wf:
  assumes "store_ok (dc_mem d)"
  shows "wf_response (RspListing (ids_of tag (unexpired now d)))" and "wf_response (RspItem (map_option h_blob (fmlookup (unexpired now d) (tag, i))))"
  using assms unexpired_sizes [OF assms] ids_of_length ids_of_set by (auto simp: wf_response_def list_all_iff split: option.split) fastforce

lemma net_okD: "net_ok net \<Longrightarrow> fmlookup net h = Some n \<Longrightarrow> hn_custody n = Some d \<Longrightarrow> store_ok (dc_mem d)"
  by (simp add: net_ok_def)

lemma node_replaced:
  assumes "net_ok net" "fmlookup net h = Some n" "hn_custody n = Some d" "store_ok (dc_mem d')" "cu_limits (dc_mem d') = cu_limits (dc_mem d)"
    "net' = fmupd h (n\<lparr>hn_custody := Some d'\<rparr>) net"
  shows "net_ok net'" "answers me net' = answers me net" "items_at net' now h' = (if h' = h then unexpired now d' else items_at net now h')"
    "unexpired now d' = unexpired now d \<Longrightarrow> items_at net' now = items_at net now"
  using assms by (auto simp: net_ok_def answers_def items_at_def fun_eq_iff)

lemma let_in:
  assumes "net_ok net" "answers me net h"
  obtains n d where "fmlookup net h = Some n" "hn_custody n = Some d" "me |\<in>| hn_contacts n" "cl_enabled (cu_limits (dc_mem d))" "store_ok (dc_mem d)"
    "items_at net now h = unexpired now d"
  using assms by (auto simp: answers_def items_at_def net_ok_def split: option.splits)

lemma not_let_in:
  assumes "\<not> answers me net h" "fmlookup net h = Some n" "hn_custody n = Some d" "me |\<in>| hn_contacts n"
  shows "\<not> cl_enabled (cu_limits (dc_mem d))"
  using assms by (simp add: answers_def)

lemma chat_list_law:
  assumes "net_ok net" "length tag = 16" "chat_list me net h tag now = (net', r)"
  shows "net_ok net' \<and> answers me net' = answers me net \<and> items_at net' now = items_at net now \<and>
    (if answers me net h then r = Inr (net_listed net now h tag) else isl r)"
proof (cases "\<exists>n d. fmlookup net h = Some n \<and> hn_custody n = Some d \<and> me |\<in>| hn_contacts n")
  case True
  then obtain n d where n: "fmlookup net h = Some n" "hn_custody n = Some d" "me |\<in>| hn_contacts n" by blast
  have ok: "store_ok (dc_mem d)" by (rule net_okD [OF assms(1) n(1,2)])
  obtain d' resp where s: "serve_request (hn_env n) (hn_io n) me (hn_now n) (ReqList tag now) (dc_trust me d) = (d', resp)" by fastforce
  note l = served_list [OF ok s]
  have "wf_response resp" using l listing_wf(1) [OF ok] by (auto simp: wf_response_def [of "RspRefused _"])
  then have e: "exchange me net h (ReqList tag now) = (fmupd h (n\<lparr>hn_custody := Some d'\<rparr>) net, Inr resp)"
    by (intro exchange_served [OF _ n s]) (simp add: wf_request_def assms(2))
  have "answers me net h = cl_enabled (cu_limits (dc_mem d))" "items_at net now h = unexpired now d" using n by (simp_all add: answers_def items_at_def)
  then show ?thesis using l assms(3) e node_replaced(1,2,4) [OF assms(1) n(1,2) _ _ refl, of d'] by (auto simp: chat_list_def net_listed_def)
next
  case False
  then have "\<not> answers me net h" by (auto simp: answers_def split: option.splits)
  then show ?thesis using exchange_refused [OF False, of "ReqList tag now"] assms by (auto simp: chat_list_def)
qed

lemma chat_fetch_law:
  assumes "net_ok net" "length tag = 16" "length i = 16" "chat_fetch me net h tag i now = (net', r)"
  shows "net_ok net' \<and> answers me net' = answers me net \<and> items_at net' now = items_at net now \<and>
    (if answers me net h then r = Inr (net_stored net now h tag i) else isl r)"
proof (cases "\<exists>n d. fmlookup net h = Some n \<and> hn_custody n = Some d \<and> me |\<in>| hn_contacts n")
  case True
  then obtain n d where n: "fmlookup net h = Some n" "hn_custody n = Some d" "me |\<in>| hn_contacts n" by blast
  have ok: "store_ok (dc_mem d)" by (rule net_okD [OF assms(1) n(1,2)])
  obtain d' resp where s: "serve_request (hn_env n) (hn_io n) me (hn_now n) (ReqFetch tag i now) (dc_trust me d) = (d', resp)" by fastforce
  note l = served_fetch [OF ok s]
  have "wf_response resp" using l listing_wf(2) [OF ok] by (auto simp: wf_response_def [of "RspRefused _"])
  then have e: "exchange me net h (ReqFetch tag i now) = (fmupd h (n\<lparr>hn_custody := Some d'\<rparr>) net, Inr resp)"
    by (intro exchange_served [OF _ n s]) (simp add: wf_request_def assms(2,3))
  have "answers me net h = cl_enabled (cu_limits (dc_mem d))" "items_at net now h = unexpired now d" using n by (simp_all add: answers_def items_at_def)
  then show ?thesis using l assms(4) e node_replaced(1,2,4) [OF assms(1) n(1,2) _ _ refl, of d'] by (auto simp: chat_fetch_def net_stored_def)
next
  case False
  then have "\<not> answers me net h" by (auto simp: answers_def split: option.splits)
  then show ?thesis using exchange_refused [OF False, of "ReqFetch tag i now"] assms by (auto simp: chat_fetch_def)
qed

lemma chat_delete_law:
  assumes "net_ok net" "length tag = 16" "length i = 16" "chat_delete me net h tag i = (net', r)"
  shows "net_ok net' \<and> answers me net' = answers me net \<and>
    net_stored net' now h' tag' j = (if answers me net h \<and> h' = h \<and> tag' = tag \<and> j = i then None else net_stored net now h' tag' j)"
proof (cases "\<exists>n d. fmlookup net h = Some n \<and> hn_custody n = Some d \<and> me |\<in>| hn_contacts n")
  case True
  then obtain n d where n: "fmlookup net h = Some n" "hn_custody n = Some d" "me |\<in>| hn_contacts n" by blast
  have ok: "store_ok (dc_mem d)" by (rule net_okD [OF assms(1) n(1,2)])
  obtain d' resp where s: "serve_request (hn_env n) (hn_io n) me (hn_now n) (ReqDelete tag i) (dc_trust me d) = (d', resp)" by fastforce
  note l = served_delete [OF ok s]
  have e: "exchange me net h (ReqDelete tag i) = (fmupd h (n\<lparr>hn_custody := Some d'\<rparr>) net, Inr resp)"
    by (intro exchange_served [OF _ n s]) (use l in \<open>simp_all add: wf_request_def assms(2,3)\<close>)
  have "answers me net h = cl_enabled (cu_limits (dc_mem d))" "items_at net now h = unexpired now d" using n by (simp_all add: answers_def items_at_def)
  moreover have "fmlookup (unexpired now d') (tag', j) = (if answers me net h \<and> tag' = tag \<and> j = i then None else fmlookup (unexpired now d) (tag', j))"
    using l calculation(1) by (auto simp: unexpired_def)
  ultimately show ?thesis using l assms(4) e node_replaced(1-3) [OF assms(1) n(1,2) _ _ refl, of d'] by (auto simp: chat_delete_def net_stored_def)
next
  case False
  then have "\<not> answers me net h" by (auto simp: answers_def split: option.splits)
  then show ?thesis using exchange_refused [OF False, of "ReqDelete tag i"] assms by (auto simp: chat_delete_def)
qed

lemma same_items: "items_at net' now = items_at net now \<Longrightarrow> net_stored net' now = net_stored net now \<and> net_listed net' now = net_listed net now"
  by (simp add: net_stored_def net_listed_def fun_eq_iff)

interpretation chat: honest_transport "chat_transport me" net_ok "answers me" net_stored net_listed for me
proof
  fix n :: mb_net and now :: u64 and h tag i :: bytes
  assume n: "net_ok n" and i: "i \<in> set (net_listed n now h tag)"
  then have "fmlookup (items_at n now h) (tag, i) \<noteq> None" using ids_of_set by (simp add: net_listed_def)
  then show "length i = 16 \<and> net_stored n now h tag i \<noteq> None"
    using net_okD [OF n] unexpired_sizes(1) by (fastforce simp: net_stored_def items_at_def split: option.splits)
next
  fix n n' :: mb_net and now :: u64 and h tag :: bytes and r :: "mailbox_error + bytes list"
  assume a: "net_ok n" "length tag = 16" "tr_list (chat_transport me) n h tag now = (n', r)"
  then have c: "chat_list me n h tag now = (n', r)" by (simp add: chat_transport_def)
  note l = chat_list_law [OF a(1,2) c]
  then show "net_ok n' \<and> answers me n' = answers me n \<and> net_stored n' now = net_stored n now \<and> net_listed n' now = net_listed n now \<and>
      (if answers me n h then r = Inr (net_listed n now h tag) else isl r)"
    using same_items [of n' now n] by blast
next
  fix n n' :: mb_net and now :: u64 and h tag i :: bytes and r :: "mailbox_error + bytes option"
  assume a: "net_ok n" "length tag = 16" "length i = 16" "tr_fetch (chat_transport me) n h tag i now = (n', r)"
  then have c: "chat_fetch me n h tag i now = (n', r)" by (simp add: chat_transport_def)
  note l = chat_fetch_law [OF a(1-3) c]
  then show "net_ok n' \<and> answers me n' = answers me n \<and> net_stored n' now = net_stored n now \<and> net_listed n' now = net_listed n now \<and>
      (if answers me n h then r = Inr (net_stored n now h tag i) else isl r)"
    using same_items [of n' now n] by blast
next
  fix n n' :: mb_net and now :: u64 and h tag i h' tag' j :: bytes and r :: "mailbox_error + bool"
  assume a: "net_ok n" "length tag = 16" "length i = 16" "tr_delete (chat_transport me) n h tag i = (n', r)"
  then have c: "chat_delete me n h tag i = (n', r)" by (simp add: chat_transport_def)
  show "net_ok n' \<and> answers me n' = answers me n \<and>
      net_stored n' now h' tag' j = (if answers me n h \<and> h' = h \<and> tag' = tag \<and> j = i then None else net_stored n now h' tag' j)"
    by (rule chat_delete_law [OF a(1-3) c])
qed

section \<open>From sender to receiver\<close>

lemma ids_of_all:
  assumes "card {i. fmlookup m (tag, i) \<noteq> None} \<le> MAX_LIST"
  shows "set (ids_of tag m) = {i. fmlookup m (tag, i) \<noteq> None}"
proof -
  let ?xs = "filter (\<lambda>((t, _), _). t = tag) (sorted_list_of_fmap m)" and ?g = "\<lambda>((_, i), h). (h_order h, i)"
  have set_xs: "(\<lambda>e. snd (fst e)) ` set ?xs = {i. fmlookup m (tag, i) \<noteq> None}" by (force simp: graph_facts(1) image_iff)
  have "distinct (map fst ?xs)" using graph_facts(2) [of m] by (simp add: distinct_map_filter)
  then have "inj_on fst (set ?xs)" "distinct ?xs" by (simp_all add: distinct_map)
  then have "inj_on (\<lambda>e. snd (fst e)) (set ?xs)" by (auto simp: inj_on_def)
  from card_image [OF this] distinct_card [OF \<open>distinct ?xs\<close>] have "card ((\<lambda>e. snd (fst e)) ` set ?xs) = length ?xs" by (rule trans)
  then have "length ?xs = card {i. fmlookup m (tag, i) \<noteq> None}" by (simp only: set_xs)
  then have "take MAX_LIST (sort (map ?g ?xs)) = sort (map ?g ?xs)" using assms by simp
  then have "set (ids_of tag m) = snd ` ?g ` set ?xs" by (simp add: ids_of_def)
  also have "\<dots> = (\<lambda>e. snd (fst e)) ` set ?xs" by (force simp: image_iff)
  finally show ?thesis using set_xs by simp
qed

text \<open>
  \<open>only_copy tag item blob t net\<close>: whatever is held under the item is \<open>blob\<close> and has not expired at \<open>t\<close>; \<open>fresh_clock t net\<close>: a
  deposit made now lasts beyond \<open>t\<close>.
\<close>

definition only_copy :: "bytes \<Rightarrow> bytes \<Rightarrow> bytes \<Rightarrow> u64 \<Rightarrow> mb_net \<Rightarrow> bool" where
  "only_copy tag item blob t net \<longleftrightarrow>
     (\<forall>h n d g. fmlookup net h = Some n \<longrightarrow> hn_custody n = Some d \<longrightarrow> fmlookup (cu_items (dc_mem d)) (tag, item) = Some g \<longrightarrow>
        h_blob g = blob \<and> t < h_expires g)"

definition fresh_clock :: "u64 \<Rightarrow> mb_net \<Rightarrow> bool" where
  "fresh_clock t net \<longleftrightarrow>
     (\<forall>h n d. fmlookup net h = Some n \<longrightarrow> hn_custody n = Some d \<longrightarrow>
        hn_now n \<le> t \<and> t < saturating_add (hn_now n) (cl_ttl_ms (cu_limits (dc_mem d))))"

lemma served_deposit:
  assumes "store_ok (dc_mem d)" "length me = 32" "length tag = 16" "length item = 16" "blob \<noteq> []"
    "serve_request E w me t0 (ReqDeposit tag item blob) (dc_trust me d) = (d', resp)"
    "\<And>g. fmlookup (cu_items (dc_mem d)) (tag, item) = Some g \<Longrightarrow> h_blob g = blob \<and> t < h_expires g"
    "t0 \<le> t" "t < saturating_add t0 (cl_ttl_ms (cu_limits (dc_mem d)))"
  shows "store_ok (dc_mem d')" "cu_limits (dc_mem d') = cu_limits (dc_mem d)" "wf_response resp"
    "\<And>g. fmlookup (cu_items (dc_mem d')) (tag, item) = Some g \<Longrightarrow> h_blob g = blob \<and> t < h_expires g"
    "fmlookup (cu_items (dc_mem d)) (tag, item) \<noteq> None \<or> (\<exists>x. resp = RspDeposited x) \<Longrightarrow> fmlookup (cu_items (dc_mem d')) (tag, item) \<noteq> None"
proof -
  let ?m = "dc_mem (dc_trust me d)"
  obtain m r where m: "deposit me tag item blob t0 ?m = (m, r)" by fastforce
  have d: "dc_mem d' = m" "resp = (case r of Inl e \<Rightarrow> RspRefused e | Inr x \<Rightarrow> RspDeposited x)"
    using assms(6) m by (auto simp: serve_request_def answer_def dc_deposit_def Let_def split: prod.splits sum.splits)
  show "store_ok (dc_mem d')" using deposit_ok [OF trust_keeps(3) [OF assms(1)] assms(2-4)] m d(1) by (metis fst_conv)
  show "wf_response resp" by (simp add: d wf_response_def split: sum.split)
  show "cu_limits (dc_mem d') = cu_limits (dc_mem d)"
    using m swept_ok(2) by (auto simp: d deposit_def Let_def trust_keeps split: option.splits if_splits)
  have live: "t0 < h_expires g" if "fmlookup (cu_items (dc_mem d)) (tag, item) = Some g" for g using assms(7) [OF that] assms(8) by (meson le_less_trans)
  have c: "fmlookup (cu_items m) (tag, item) = fmlookup (cu_items (dc_mem d)) (tag, item) \<or> r = Inr Stored \<and>
      (\<exists>n. fmlookup (cu_items m) (tag, item) = Some \<lparr>h_from = me, h_blob = blob, h_expires = saturating_add t0 (cl_ttl_ms (cu_limits (dc_mem d))), h_order = n\<rparr>)"
  proof (cases "r = Inr Stored")
    case True
    then show ?thesis using deposit_stored [of me tag item blob t0 ?m m] m trust_keeps(2) [of me d] by simp
  next
    case False
    then have "m = ?m \<or> m = fst (sweep_expired t0 ?m)" using m by (auto simp: deposit_def Let_def split: option.splits if_splits)
    then show ?thesis using live by (cases "fmlookup (cu_items (dc_mem d)) (tag, item)") (auto simp: trust_keeps)
  qed
  then show "\<And>g. fmlookup (cu_items (dc_mem d')) (tag, item) = Some g \<Longrightarrow> h_blob g = blob \<and> t < h_expires g" using assms(7,9) d(1) by auto
  have dup: "fmlookup (cu_items (dc_mem d)) (tag, item) \<noteq> None" if "r = Inr Duplicate"
    using m that by (auto simp: deposit_def Let_def trust_keeps split: option.splits if_splits)
  assume "fmlookup (cu_items (dc_mem d)) (tag, item) \<noteq> None \<or> (\<exists>x. resp = RspDeposited x)"
  moreover have "r = Inr x" if "resp = RspDeposited x" for x using d(2) that by (cases r) simp_all
  moreover have "x = Stored \<or> x = Duplicate" for x by (cases x) simp_all
  ultimately have "fmlookup (cu_items (dc_mem d)) (tag, item) \<noteq> None \<or> r = Inr Stored" using dup by metis
  moreover have "fmlookup (cu_items m) (tag, item) \<noteq> None" if "r = Inr Stored" using deposit_stored m that by fastforce
  ultimately show "fmlookup (cu_items (dc_mem d')) (tag, item) \<noteq> None" using c d(1) by auto
qed

lemma chat_deposit_law:
  assumes "net_ok net" "only_copy tag item blob t net" "fresh_clock t net" "length me = 32" "length tag = 16" "length item = 16" "blob \<noteq> []"
    "length blob \<le> MAX_ITEM_BYTES" "chat_deposit me net h tag item blob t0 = (net', r)"
  shows "net_ok net' \<and> only_copy tag item blob t net' \<and> fresh_clock t net' \<and> answers you net' = answers you net"
    and "net_stored net t h' tag item \<noteq> None \<or> h' = h \<and> \<not> isl r \<Longrightarrow> net_stored net' t h' tag item \<noteq> None"
proof -
  have "(net_ok net' \<and> only_copy tag item blob t net' \<and> fresh_clock t net' \<and> answers you net' = answers you net) \<and>
    (net_stored net t h' tag item \<noteq> None \<or> h' = h \<and> \<not> isl r \<longrightarrow> net_stored net' t h' tag item \<noteq> None)"
  proof (cases "\<exists>n d. fmlookup net h = Some n \<and> hn_custody n = Some d \<and> me |\<in>| hn_contacts n")
    case True
    then obtain n d where n: "fmlookup net h = Some n" "hn_custody n = Some d" "me |\<in>| hn_contacts n" by blast
    have ok: "store_ok (dc_mem d)" by (rule net_okD [OF assms(1) n(1,2)])
    obtain d' resp where s: "serve_request (hn_env n) (hn_io n) me (hn_now n) (ReqDeposit tag item blob) (dc_trust me d) = (d', resp)" by fastforce
    have c: "\<And>g. fmlookup (cu_items (dc_mem d)) (tag, item) = Some g \<Longrightarrow> h_blob g = blob \<and> t < h_expires g"
      "hn_now n \<le> t" "t < saturating_add (hn_now n) (cl_ttl_ms (cu_limits (dc_mem d)))"
      using assms(2,3) n(1,2) by (auto simp: only_copy_def fresh_clock_def)
    note l = served_deposit [OF ok assms(4-7) s c]
    have e: "exchange me net h (ReqDeposit tag item blob) = (fmupd h (n\<lparr>hn_custody := Some d'\<rparr>) net, Inr resp)"
      by (intro exchange_served [OF _ n s]) (use l in \<open>simp_all add: wf_request_def assms(5,6,8)\<close>)
    then have net': "net' = fmupd h (n\<lparr>hn_custody := Some d'\<rparr>) net" "\<not> isl r \<longrightarrow> (\<exists>x. resp = RspDeposited x)"
      using assms(9) by (auto simp: chat_deposit_def split: mb_response.splits)
    note r = node_replaced [OF assms(1) n(1,2) l(1,2) net'(1)]
    have "only_copy tag item blob t net'" using assms(2) l(4) net'(1) unfolding only_copy_def by auto
    moreover have "fresh_clock t net'" using assms(3) l(2) n net'(1) unfolding fresh_clock_def by auto
    moreover have "net_stored net' t h' tag item \<noteq> None" if "net_stored net t h' tag item \<noteq> None \<or> h' = h \<and> \<not> isl r"
    proof (cases "h' = h")
      case True
      have "items_at net t h = unexpired t d" using n by (simp add: items_at_def)
      then have "fmlookup (cu_items (dc_mem d')) (tag, item) \<noteq> None" using that True l(5) net'(2) by (auto simp: net_stored_def unexpired_def split: option.splits)
      then show ?thesis using True r(3) [of t h'] l(4) by (auto simp: net_stored_def unexpired_def)
    next
      case False
      then show ?thesis using that r(3) [of t h'] by (simp add: net_stored_def)
    qed
    ultimately show ?thesis using r(1,2) by blast
  next
    case False
    then show ?thesis using exchange_refused [OF False, of "ReqDeposit tag item blob"] assms by (auto simp: chat_deposit_def)
  qed
  then show "net_ok net' \<and> only_copy tag item blob t net' \<and> fresh_clock t net' \<and> answers you net' = answers you net"
    "net_stored net t h' tag item \<noteq> None \<or> h' = h \<and> \<not> isl r \<Longrightarrow> net_stored net' t h' tag item \<noteq> None" by blast+
qed

lemma deposit_loop_law:
  assumes "length me = 32" "length tag = 16" "length item = 16" "blob \<noteq> []" "length blob \<le> MAX_ITEM_BYTES"
  shows "net_ok net \<Longrightarrow> only_copy tag item blob t net \<Longrightarrow> fresh_clock t net \<Longrightarrow> (\<forall>h \<in> set (held_by rep). net_stored net t h tag item \<noteq> None) \<Longrightarrow>
    deposit_loop (chat_transport me) c tag you item blob t0 hs (net, rep) = (net', rep') \<Longrightarrow>
    net_ok net' \<and> only_copy tag item blob t net' \<and> answers you net' = answers you net \<and> (\<forall>h \<in> set (held_by rep'). net_stored net' t h tag item \<noteq> None)"
proof (induction hs arbitrary: net rep)
  case (Cons h hs)
  show ?case
  proof (cases "h = you \<or> c \<le> length (held_by rep)")
    case True
    then show ?thesis using Cons.IH [OF Cons.prems(1-4)] Cons.prems by (auto split: if_splits)
  next
    case False
    obtain n r where d: "chat_deposit me net h tag item blob t0 = (n, r)" by fastforce
    note l = chat_deposit_law [OF Cons.prems(1-3) assms d]
    have n: "net_ok n" "only_copy tag item blob t n" "fresh_clock t n" "answers you n = answers you net" using l(1) [of you] by blast+
    have keep: "\<forall>h \<in> set (held_by rep). net_stored n t h tag item \<noteq> None" using Cons.prems(4) l(2) by blast
    show ?thesis
    proof (cases r)
      case (Inl e)
      then show ?thesis using Cons.IH [OF n(1-3), of "rep\<lparr>failed_at := failed_at rep @ [(h, e)]\<rparr>"] keep n(4) Cons.prems(5) False d by (simp add: chat_transport_def)
    next
      case (Inr x)
      then have "net_stored n t h tag item \<noteq> None" using l(2) [of h] by simp
      then show ?thesis using Inr Cons.IH [OF n(1-3), of "rep\<lparr>held_by := held_by rep @ [h]\<rparr>"] keep n(4) Cons.prems(5) False d by (simp add: chat_transport_def)
    qed
  qed
qed simp

text \<open>Messages left under a tag and collected under it; requests and answers travel as bytes over the chat channel.\<close>

lemma tagged_delivers:
  assumes "net_ok net" and "length sender = 32" and "length tag = 16" and "length item = 16" and "wire \<noteq> []" and "32 + length wire \<le> MAX_ITEM_BYTES"
    and "\<forall>h n d. fmlookup net h = Some n \<longrightarrow> hn_custody n = Some d \<longrightarrow> fmlookup (cu_items (dc_mem d)) (tag, item) = None"
    and "fresh_clock t net"
    and "deposit_tagged (chat_transport sender) copies tag holders sender recipient item wire t0 net = (net1, rep)"
    and "h \<in> set (held_by rep)" and "answers recipient net h" and "h \<in> set asked" and "h \<noteq> recipient"
    and "card (\<Union>h \<in> set asked. {i. net_stored net1 t h tag i \<noteq> None}) \<le> 64"
    and "collect_tagged (chat_transport recipient) (logging rcv) tag asked recipient t net1 ([], a) = (net2, (log, a'), rep')"
  shows "(sender, wire) \<in> set log \<and>
    ((\<forall>a. snd (rcv a sender wire)) \<longrightarrow> (\<forall>g \<in> set asked. g \<noteq> recipient \<longrightarrow> answers recipient net g \<longrightarrow> net_stored net2 t g tag item = None))"
proof -
  let ?b = "sender @ wire"
  have "only_copy tag item ?b t net" using assms(7) by (auto simp: only_copy_def)
  from deposit_loop_law [OF assms(2-4) _ _ assms(1) this assms(8) _ assms(9) [unfolded deposit_tagged_def]]
  have n: "net_ok net1" "only_copy tag item ?b t net1" "answers recipient net1 = answers recipient net" "\<forall>h \<in> set (held_by rep). net_stored net1 t h tag item \<noteq> None"
    using assms(2,5,6) by auto
  have same: "net_stored net1 t h tag item \<in> {None, Some ?b}" for h
    using n(2) by (auto simp: net_stored_def items_at_def unexpired_def only_copy_def split: option.splits if_splits)
  have fin: "finite {i. net_stored net1 t h tag i \<noteq> None}" for h
    by (rule finite_subset [of _ "snd ` fset (fmdom (items_at net1 t h))"]) (force simp: net_stored_def fmlookup_dom_iff image_iff)+
  have "card {i. net_stored net1 t g tag i \<noteq> None} \<le> MAX_LIST" if "g \<in> set asked" for g
  proof -
    have "card {i. net_stored net1 t g tag i \<noteq> None} \<le> card (\<Union>h \<in> set asked. {i. net_stored net1 t h tag i \<noteq> None})"
      by (rule card_mono) (use fin that in auto)
    then show ?thesis using assms(14) by (simp add: MAX_LIST_def)
  qed
  then have listed: "set (net_listed net1 t g tag) = {i. net_stored net1 t g tag i \<noteq> None}" if "g \<in> set asked" for g
    using ids_of_all [of "items_at net1 t g" tag] that by (simp add: net_listed_def net_stored_def)
  have "card (\<Union>h \<in> set asked. set (net_listed net1 t h tag)) \<le> MAX_COLLECT" using assms(14) listed by (simp add: MAX_COLLECT_def)
  note c = chat.item_collected [OF n(1) assms(3) this _ same _ _ _ _ assms(15)]
  have b: "32 < length ?b" "take 32 ?b = sender" "drop 32 ?b = wire" using assms(2,5) by auto
  have "(sender, wire) \<in> set log" using c(1) [OF b(1) assms(12,13)] n(3,4) b(2,3) assms(10-12) listed by simp
  moreover have "net_stored net2 t g tag item = None"
    if g: "g \<in> set asked" "g \<noteq> recipient" "answers recipient net g" "\<forall>a. snd (rcv a sender wire)" for g
  proof (cases "net_stored net1 t g tag item = None")
    case True
    then show ?thesis using c(2) [OF b(1) assms(12,13)] n(3,4) assms(10-12) listed by simp
  qed (use c(1) [OF b(1) g(1,2)] n(3) b(2,3) g listed in auto)
  ultimately show ?thesis by blast
qed

lemma envelope_fits:
  assumes "item_id_of wire = Some item"
  shows "length item = 16" and "wire \<noteq> []" and "32 + length wire \<le> MAX_ITEM_BYTES"
proof -
  obtain e where e: "decode_envelope wire = Inr e" "item = env_id e" using assms by (auto simp: item_id_of_def split: sum.splits)
  then have "wf_envelope e" "encode_envelope e = wire" using chat_envelope.dec_wf chat_envelope.enc_dec by blast+
  then show "length item = 16" "wire \<noteq> []" "32 + length wire \<le> MAX_ITEM_BYTES"
    using e(2) by (auto simp: wf_envelope_def wf_header_def encode_envelope_def header_bytes_def item_bytes_value MAX_CIPHERTEXT_def MAX_PADDED_def TAG_LEN_def split: option.splits)
qed

lemma deposit_loop_held:
  "deposit_loop T c tag you item b t hs (n, rep) = (n', rep') \<Longrightarrow> set (held_by rep') \<subseteq> set (held_by rep) \<union> {h \<in> set hs. h \<noteq> you}"
  by (induction hs arbitrary: n rep) (auto split: if_splits prod.splits sum.splits, (fastforce)+)

text \<open>
  C11: a message left with holders reaches the recipient. Let a chat service leave a sealed message with its contacts and
  report at least one copy, and let those contacts also be contacts of the recipient and let the recipient in. Then a
  collection by the recipient, before the message expires and with at most 64 messages waiting, hands sender and message to
  its chat core; and when the core accepts the message, no holder has a copy of it any more.
\<close>

theorem mailbox_delivers:
  assumes "\<forall>c x. length (derive c x) = 32" and "net_ok net" and "length me = 32" and "item_id_of wire = Some item"
    and "\<forall>h n d. fmlookup net h = Some n \<longrightarrow> hn_custody n = Some d \<longrightarrow> fmlookup (cu_items (dc_mem d)) (for_recipient derive peer, item) = None"
    and "fresh_clock t net"
    and "deposit_with_holders derive True contacts me copies peer wire t0 net = (net1, k)" and "0 < k"
    and "\<forall>h \<in> set (holders_for contacts peer). answers peer net h \<and> Some h \<in> set contacts'"
    and "card (\<Union>h \<in> {h. Some h \<in> set contacts'}. {i. net_stored net1 t h (for_recipient derive peer) i \<noteq> None}) \<le> 64"
    and "collect_from_holders derive True contacts' peer (logging rcv) t net1 ([], a) = (net2, log, a')"
  shows "(me, wire) \<in> set log \<and>
    ((\<forall>a. snd (rcv a me wire)) \<longrightarrow> (\<forall>h \<in> set (holders_for contacts peer). net_stored net2 t h (for_recipient derive peer) item = None))"
proof -
  let ?tag = "for_recipient derive peer" and ?asked = "List.map_filter id contacts'"
  have tag: "length ?tag = 16" using assms(1) by (simp add: for_recipient_def)
  obtain rep where d: "deposit_tagged (chat_transport me) copies ?tag (holders_for contacts peer) me peer item wire t0 net = (net1, rep)" "k = length (held_by rep)"
    using assms(4,7,8) by (auto simp: deposit_with_holders_def client_deposit_def Let_def split: if_splits prod.splits)
  then obtain h where h: "h \<in> set (held_by rep)" using assms(8) by (cases "held_by rep") auto
  then have h': "h \<in> set (holders_for contacts peer)" "h \<noteq> peer" using deposit_loop_held d(1) by (fastforce simp: deposit_tagged_def)+
  have asked: "set ?asked = {h. Some h \<in> set contacts'}" by (force simp: List.map_filter_def)
  then have "?asked \<noteq> []" using assms(9) h' by auto
  then obtain rep' where c: "collect_tagged (chat_transport peer) (logging rcv) ?tag ?asked peer t net1 ([], a) = (net2, (log, a'), rep')"
    using assms(11) by (auto simp: collect_from_holders_def client_collect_def Let_def split: prod.splits)
  note f = envelope_fits [OF assms(4)]
  have "card (\<Union>h \<in> set ?asked. {i. net_stored net1 t h ?tag i \<noteq> None}) \<le> 64" "h \<in> set ?asked" "answers peer net h"
    using assms(9,10) asked h' by auto
  from tagged_delivers [OF assms(2,3) tag f assms(5,6) d(1) h(1) this(3,2) h'(2) this(1) c]
  show ?thesis using assms(9) asked by (auto simp: holders_for_def)
qed

section \<open>Where it fails\<close>

text \<open>
  C36: any contact empties a holder. Listing and fetching use the time that the request carries: a contact that lists any tag
  with the largest time makes the holder drop every message it holds, for whomever and from whomever.
\<close>

theorem client_clock_empties_holder:
  assumes "hn_custody n = Some d" and "cl_enabled (cu_limits (dc_mem d))" and "who |\<in>| hn_contacts n" and "length tag = 16"
    and "serve_stream who (CUSTODY_STREAM_TAG # encode_request (ReqList tag (- 1))) n = (n', out)"
  shows "\<exists>d'. hn_custody n' = Some d' \<and> cu_items (dc_mem d') = fmempty"
proof -
  let ?m = "dc_mem (dc_trust who d)"
  have r: "read_mb_request (encode_request (ReqList tag (- 1))) = Inr (ReqList tag (- 1))"
    using request_read [of "ReqList tag (- 1)" "[]"] assms(4) by (simp add: wf_request_def)
  obtain d' resp where s: "serve_request (hn_env n) (hn_io n) who (hn_now n) (ReqList tag (- 1)) (dc_trust who d) = (d', resp)" by fastforce
  then have "hn_custody n' = Some d'" using assms r by (auto simp: serve_stream_def serve_custody_def Let_def)
  moreover have "dc_mem d' = fst (list_items who tag (- 1) ?m)"
    using s by (auto simp: serve_request_def answer_def dc_list_def persist_smaller_def Let_def split: prod.splits sum.splits)
  moreover have "cu_items (fst (list_items who tag (- 1) ?m)) = fmretain (\<lambda>k h. - 1 < h_expires h) (cu_items ?m)"
    using trusted_caller [where me = who and d = d] assms(2) by (simp add: list_items_def Let_def)
  moreover have "fmretain (\<lambda>k h. - 1 < h_expires h) m = fmempty" for m :: "(item_key, held) fmap"
    by (rule fmap_ext) (simp split: option.split add: word_not_simps)
  ultimately show ?thesis by simp
qed

text \<open>
  C37: a holder that lists a message and does not hand it out keeps the others from delivering it. An item counts as seen when
  it is listed, before it is fetched: when the first holder lists an item and then has nothing under it, the copy of the second
  holder is not asked for in this collection.
\<close>

theorem empty_listing_starves:
  assumes "h1 \<noteq> me" and "h2 \<noteq> me" and "tr_list T n h1 tag now = (n1, Inr [i])" and "tr_fetch T n1 h1 tag i now = (n2, Inr None)"
    and "tr_list T n2 h2 tag now = (n3, Inr [i])"
  shows "collect_tagged T rcv tag [h1, h2] me now n a = (n3, a, \<lparr>cr_offered = 0, cr_taken = 0, cr_repeated = 1, cr_unreachable = 0\<rparr>)"
  using assms by (simp add: collect_tagged_def Let_def MAX_COLLECT_def fcard.rep_eq)

end
