(* ===== verification/Mailbox_Examples.thy ===== *)
theory Mailbox_Examples
  imports Mailbox_Delivery State_Examples
begin

text \<open>
  Concrete mailboxes: a holder with the limits that the service opens it with, one message, a network of one holder; and the
  theorems about mailboxes applied to them.
\<close>

section \<open>Instances\<close>

definition demo_limits :: custody_limits where "demo_limits = default_limits\<lparr>cl_enabled := True\<rparr>"
definition demo_tag :: bytes where "demo_tag = replicate 16 1"
definition demo_item :: bytes where "demo_item = replicate 16 2"
definition demo_sender :: bytes where "demo_sender = replicate 32 3"
definition demo_recipient :: bytes where "demo_recipient = replicate 32 4"
definition demo_holder :: bytes where "demo_holder = replicate 32 5"
definition demo_wire :: bytes where
  "demo_wire = encode_envelope \<lparr>env_id = demo_item, env_header = \<lparr>dh_pub = replicate 32 7, hd_pn = 0, hd_n = 0, init_ek = None\<rparr>, ciphertext = replicate 16 9\<rparr>"
definition demo_derive :: "string \<Rightarrow> bytes \<Rightarrow> bytes" where "demo_derive c x = replicate 32 1"
definition demo_env :: custody_env where "demo_env = \<lparr>ce_sk = demo_sk, ce_cell = demo_cell, ce_name = [8]\<rparr>"
definition demo_io :: disk_io where "demo_io = (replicate 24 6, True)"
definition demo_empty :: disk_custody where "demo_empty = open_custody demo_env demo_limits 100 None"
definition demo_held :: custody where
  "demo_held = insert_item (demo_tag, demo_item) demo_sender (demo_sender @ demo_wire) (100 + 14 * 86400000) (trust demo_sender (new_custody demo_limits))"

lemmas demo_mailbox = demo_tag_def demo_item_def demo_sender_def demo_recipient_def demo_holder_def

lemma demo_lengths: "length demo_tag = 16" "length demo_item = 16" "length demo_sender = 32" "length demo_recipient = 32"
  by (simp_all add: demo_mailbox)

lemma demo_item_id: "item_id_of demo_wire = Some demo_item"
  by (simp add: item_id_of_def demo_wire_def chat_envelope.dec_enc wf_envelope_def wf_header_def demo_lengths TAG_LEN_def MAX_CIPHERTEXT_def)

lemma demo_wire_length: "length demo_wire = 80" "demo_wire \<noteq> []"
  by (simp_all add: demo_wire_def demo_lengths encode_envelope_def header_bytes_def)

lemma demo_recipient_tag: "for_recipient demo_derive demo_recipient = demo_tag"
  by (simp add: for_recipient_def demo_derive_def demo_tag_def)

lemmas demo_wire = demo_item_id demo_wire_length demo_recipient_tag

lemma demo_apart: "demo_holder \<noteq> demo_recipient" "demo_holder \<noteq> demo_sender" "demo_sender \<noteq> demo_recipient"
  by (simp_all add: demo_mailbox eval_nat_numeral)

lemma demo_clamped: "clamped demo_limits = demo_limits"
  by (simp add: clamped_def demo_limits_def default_limits_def MAX_ITEM_BYTES_def HARD_MAX_TOTAL_BYTES_def HARD_MAX_ITEMS_def HARD_MAX_TTL_MS_def)

lemma demo_new_limits: "cu_limits (new_custody l) = clamped l"
  by (simp add: new_custody_def)

lemma demo_ttl: "cl_ttl_ms demo_limits = 14 * 86400000"
  by (simp add: demo_limits_def default_limits_def)

lemma demo_new_ok: "store_ok (new_custody l)"
  by (simp add: store_ok_def within_limits_def new_custody_def clamped_def spent_by_def weight_def fcard.rep_eq)

lemma demo_empty_eq: "demo_empty = \<lparr>dc_mem = new_custody demo_limits, dc_off = False, dc_file = None\<rparr>"
  by (simp add: demo_empty_def open_custody_def)

lemma demo_sweep: "fst (sweep_expired now (trust i (new_custody l))) = trust i (new_custody l)"
  by (simp add: sweep_expired_def held_keys_def trust_def new_custody_def sorted_list_of_fmap_def sorted_list_of_fset.rep_eq)

lemma demo_deposit: "deposit demo_sender demo_tag demo_item (demo_sender @ demo_wire) 100 (trust demo_sender (new_custody demo_limits)) = (demo_held, Inr Stored)"
  unfolding deposit_def demo_sweep
  by (simp add: demo_held_def check_caller_def trust_def new_custody_def demo_clamped over_budget_def no_room_def spent_by_def demo_lengths demo_wire_length
      saturating_add_def Let_def fcard.rep_eq) (simp add: demo_limits_def default_limits_def item_bytes_value)

lemma demo_held_ok: "store_ok demo_held"
  using deposit_ok [OF trust_ok [OF demo_new_ok], of demo_sender demo_tag demo_item] demo_deposit demo_lengths by (metis fst_conv trust_def)

lemma demo_held_items:
  "cu_items demo_held = fmupd (demo_tag, demo_item) \<lparr>h_from = demo_sender, h_blob = demo_sender @ demo_wire, h_expires = 100 + 14 * 86400000, h_order = 0\<rparr> fmempty"
  "cu_limits demo_held = demo_limits" "cu_trusted demo_held = {|demo_sender|}"
  by (simp_all add: demo_held_def insert_item_def trust_def new_custody_def spent_by_def demo_clamped)

section \<open>One holder\<close>

theorem snapshot_restores_witness:
  "snd (fetch_item demo_sender demo_tag demo_item 200 (restore (snapshot demo_held) 200 (trust demo_sender (new_custody demo_limits)))) = Inr (Some (demo_sender @ demo_wire))"
proof -
  have "cu_limits (trust demo_sender (new_custody demo_limits)) = cu_limits demo_held" "cu_trusted (trust demo_sender (new_custody demo_limits)) = cu_trusted demo_held"
    by (simp_all add: demo_held_items trust_def new_custody_def demo_clamped)
  from snapshot_restores [OF demo_held_ok this refl, of 200 "(demo_tag, demo_item)" demo_sender demo_tag demo_item]
  have "snd (fetch_item demo_sender demo_tag demo_item 200 (restore (snapshot demo_held) 200 (trust demo_sender (new_custody demo_limits)))) =
    snd (fetch_item demo_sender demo_tag demo_item 200 demo_held)" by blast
  also have "\<dots> = Inr (Some (demo_sender @ demo_wire))"
    by (simp add: fetch_item_def check_caller_def demo_held_items demo_limits_def Let_def)
  finally show ?thesis .
qed

theorem deposited_message_kept_witness:
  "snd (dc_fetch demo_env demo_io demo_recipient demo_tag demo_item 500 (dc_trust demo_recipient
     (foldl (custody_step demo_env demo_limits) (fst (dc_deposit demo_env demo_io demo_sender demo_tag demo_item (demo_sender @ demo_wire) 100 (dc_trust demo_sender demo_empty)))
        [CvReopen 200, CvTrust demo_recipient, CvDeposit demo_io demo_recipient demo_tag (replicate 16 7) [1] 300, CvReopen 400]))) = Inr (Some (demo_sender @ demo_wire))"
proof -
  obtain d' where d: "dc_deposit demo_env demo_io demo_sender demo_tag demo_item (demo_sender @ demo_wire) 100 (dc_trust demo_sender demo_empty) = (d', Inr Stored)"
    using demo_deposit by (simp add: dc_deposit_def dc_trust_def demo_empty_eq)
  show ?thesis unfolding d fst_conv
    by (rule deposited_message_kept [OF _ _ _ _ _ d _ _ demo_lengths(3,1,2) refl])
      (simp_all add: demo_env_def demo_sk_ok demo_cell_def dc_trust_def demo_empty_eq trust_def trust_ok demo_new_ok demo_new_limits
        demo_io_def nonce_ok_def demo_lengths saturating_add_def demo_ttl HARD_MAX_TTL_MS_def)
qed

section \<open>A network\<close>

definition demo_node :: holder_node where
  "demo_node = \<lparr>hn_env = demo_env, hn_contacts = {|demo_sender, demo_recipient|}, hn_custody = Some demo_empty, hn_now = 100, hn_io = demo_io\<rparr>"

definition demo_net :: mb_net where "demo_net = fmupd demo_holder demo_node fmempty"

definition demo_accept :: "nat \<Rightarrow> bytes \<Rightarrow> bytes \<Rightarrow> nat \<times> bool" where "demo_accept n sender wire = (Suc n, True)"

text \<open>The network after the deposit.\<close>

definition demo_stored :: mb_net where
  "demo_stored = fmupd demo_holder (demo_node\<lparr>hn_custody := Some (persist demo_env demo_io (demo_empty\<lparr>dc_mem := demo_held\<rparr>))\<rparr>) fmempty"

lemma demo_net_deposit: "deposit_with_holders demo_derive True [Some demo_holder] demo_sender 3 demo_recipient demo_wire 100 demo_net = (demo_stored, 1)"
proof -
  let ?d = "persist demo_env demo_io (demo_empty\<lparr>dc_mem := demo_held\<rparr>)"
  have "dc_deposit demo_env demo_io demo_sender demo_tag demo_item (demo_sender @ demo_wire) 100 (dc_trust demo_sender demo_empty) = (?d, Inr Stored)"
    using demo_deposit by (simp add: dc_deposit_def dc_trust_def demo_empty_eq Let_def)
  then have s: "serve_request (hn_env demo_node) (hn_io demo_node) demo_sender (hn_now demo_node) (ReqDeposit demo_tag demo_item (demo_sender @ demo_wire))
    (dc_trust demo_sender demo_empty) = (?d, RspDeposited Stored)"
    by (simp add: serve_request_def answer_def demo_node_def)
  have "exchange demo_sender demo_net demo_holder (ReqDeposit demo_tag demo_item (demo_sender @ demo_wire)) = (demo_stored, Inr (RspDeposited Stored))"
    using exchange_served [OF _ _ _ _ s, of demo_net demo_holder]
    by (simp add: demo_net_def demo_stored_def demo_node_def wf_request_def wf_response_def demo_lengths demo_wire_length item_bytes_value)
  then show ?thesis using demo_apart
    by (simp add: deposit_with_holders_def demo_wire holders_for_def client_deposit_def deposit_tagged_def chat_transport_def chat_deposit_def copies_of_def)
qed

theorem mailbox_delivers_witness:
  "\<exists>net2 log a. collect_from_holders demo_derive True [Some demo_holder] demo_recipient (logging demo_accept) 200 demo_stored ([], 0) = (net2, log, a) \<and>
     (demo_sender, demo_wire) \<in> set log \<and> net_stored net2 200 demo_holder demo_tag demo_item = None"
proof -
  obtain net2 log a where c: "collect_from_holders demo_derive True [Some demo_holder] demo_recipient (logging demo_accept) 200 demo_stored ([], 0) = (net2, log, a)"
    by (metis prod.exhaust)
  have e: "\<forall>c x. length (demo_derive c x) = 32" by (simp add: demo_derive_def)
  have ok: "net_ok demo_net" by (simp add: net_ok_def demo_net_def demo_node_def demo_empty_eq demo_new_ok)
  have f: "fresh_clock 200 demo_net"
    by (simp add: fresh_clock_def demo_net_def demo_node_def demo_empty_eq demo_new_limits demo_clamped saturating_add_def demo_ttl)
  have n: "\<forall>h n d. fmlookup demo_net h = Some n \<longrightarrow> hn_custody n = Some d \<longrightarrow> fmlookup (cu_items (dc_mem d)) (for_recipient demo_derive demo_recipient, demo_item) = None"
    by (simp add: demo_net_def demo_node_def demo_empty_eq new_custody_def)
  have up: "\<forall>h \<in> set (holders_for [Some demo_holder] demo_recipient). answers demo_recipient demo_net h \<and> Some h \<in> set [Some demo_holder]"
    by (simp add: holders_for_def answers_def demo_net_def demo_node_def demo_empty_eq demo_new_limits clamped_def demo_limits_def)
  have "dc_mem (persist demo_env demo_io (demo_empty\<lparr>dc_mem := demo_held\<rparr>)) = demo_held" by (simp add: persist_def split: sum.split)
  then have "(\<Union>h \<in> {h. Some h \<in> set [Some demo_holder]}. {i. net_stored demo_stored 200 h (for_recipient demo_derive demo_recipient) i \<noteq> None}) \<subseteq> {demo_item}"
    by (auto simp: net_stored_def items_at_def unexpired_def demo_stored_def demo_held_items split: if_splits option.splits)
  from card_mono [OF _ this]
  have "card (\<Union>h \<in> {h. Some h \<in> set [Some demo_holder]}. {i. net_stored demo_stored 200 h (for_recipient demo_derive demo_recipient) i \<noteq> None}) \<le> 64" by simp
  from mailbox_delivers [OF e ok demo_lengths(3) demo_item_id n f demo_net_deposit _ up this c] c
  show ?thesis using demo_apart(1) by (simp add: demo_accept_def demo_recipient_tag holders_for_def)
qed

theorem client_clock_empties_holder_witness:
  "\<exists>d. hn_custody (fst (serve_stream demo_recipient (CUSTODY_STREAM_TAG # encode_request (ReqList demo_item (- 1))) (demo_node\<lparr>hn_custody := Some (demo_empty\<lparr>dc_mem := demo_held\<rparr>)\<rparr>))) = Some d \<and>
     cu_items (dc_mem d) = fmempty \<and> cu_items demo_held \<noteq> fmempty"
proof -
  let ?n = "demo_node\<lparr>hn_custody := Some (demo_empty\<lparr>dc_mem := demo_held\<rparr>)\<rparr>"
  have "cu_items demo_held \<noteq> fmempty" by (metis demo_held_items(1) fmempty_lookup fmupd_lookup option.distinct(1))
  then show ?thesis
    using client_clock_empties_holder [of ?n "demo_empty\<lparr>dc_mem := demo_held\<rparr>" demo_recipient demo_item, OF _ _ _ _ prod.collapse [symmetric]]
    by (simp add: demo_held_items demo_limits_def demo_node_def demo_lengths)
qed

text \<open>Two holders, of which the second has the message and the first only lists it.\<close>

definition demo_transport :: "unit mb_transport" where
  "demo_transport =
     \<lparr>tr_deposit = (\<lambda>n h tag i b now. (n, Inl Unreachable)), tr_list = (\<lambda>n h tag now. (n, Inr [demo_item])),
      tr_fetch = (\<lambda>n h tag i now. (n, Inr (if h = demo_sender then Some (demo_sender @ demo_wire) else None))), tr_delete = (\<lambda>n h tag i. (n, Inr True))\<rparr>"

theorem empty_listing_starves_witness:
  "collect_tagged demo_transport demo_accept demo_tag [demo_holder, demo_sender] demo_recipient 200 () 0 =
     ((), 0, \<lparr>cr_offered = 0, cr_taken = 0, cr_repeated = 1, cr_unreachable = 0\<rparr>) \<and>
   tr_fetch demo_transport () demo_sender demo_tag demo_item 200 = ((), Inr (Some (demo_sender @ demo_wire)))"
  using empty_listing_starves [of demo_holder demo_recipient demo_sender demo_transport "()" demo_tag 200 "()" demo_item "()" "()" demo_accept 0] demo_apart
  by (simp add: demo_transport_def)

end
