(* ===== verification/Spec2Isabelle.thy ===== *)
theory Spec2Isabelle
  imports Directed_Protocol Directed_Offers Call_Signal Call_State Fragment Membership Local_Store Ratchet_Delivery Onion_Examples State_Examples Mailbox_Examples
begin

text \<open>
  \<^bold>\<open>The Miasma protocol.\<close> Miasma stores a content as encrypted pieces spread over peers and gives it back from any
  large enough subset of them; users share contents with each other, chat and call over the same network. The Rust
  workspace is under \<^verbatim>\<open>crates/\<close>; almost all of the logic is in \<^verbatim>\<open>crates/miasma-core/src\<close>, and the file names below are
  relative to it. This development models the parts of it whose behaviour is decided by the code of the repository and
  proves what makes them correct. Every theory opens with a note on what it holds.

  \<^bold>\<open>How the code is read.\<close> Rust integers are words of their width, with wrapping, saturating and checked operations
  written out; a \<^verbatim>\<open>usize\<close> that counts elements or bytes in memory is a natural number. Byte strings and texts are lists of
  bytes, structs are records, enums are datatypes with the same constructors, a \<^verbatim>\<open>HashMap\<close> is a finite map whose
  iteration order is an argument wherever the result depends on it. An operation on \<^verbatim>\<open>&mut self\<close> is a function that
  returns the new state with its result; a \<^verbatim>\<open>Result\<close> is a sum with the error on the left and the error texts dropped; a
  panic is a value of its own. The clock, random draws, answers of the network and outcomes of file operations are
  arguments. Code outside the repository (ciphers, hashes, signatures, Reed-Solomon and Shamir, bincode, libp2p) is a
  record of functions (\<open>ext\<close>, \<open>cext\<close>, \<open>sext\<close>, \<open>rext\<close>, \<open>oext\<close>, \<open>orext\<close>, \<open>gext\<close>, \<dots>); what the code relies on is a named
  law over it, such as "the cipher opens what it sealed", and each law is shown to hold of a concrete instance.

  \<^bold>\<open>Shared vocabulary.\<close> \<open>Prelude\<close>: integers, byte strings, finite maps, and the locales the components interpret.
  \<open>machine\<close> is an event-driven state machine with an invariant, \<open>terminal_machine\<close> adds states that are never left,
  \<open>budget_machine\<close> a bounded number of effects, \<open>codec\<close> a decoder that accepts exactly the encodings. \<open>Byte_Reader\<close>: the
  cursor of the chat codecs. \<open>Chunks\<close>: chunking, little-endian integers.

  \<^bold>\<open>Content.\<close> \<open>Erasure\<close> (\<^verbatim>\<open>crypto/\<close>), \<open>Object_Format\<close> (\<^verbatim>\<open>format/\<close>) and \<open>Dissolution\<close> (\<^verbatim>\<open>pipeline.rs\<close>, \<^verbatim>\<open>share.rs\<close>,
  \<^verbatim>\<open>dissolution/\<close>) take a content apart and put it together: any usable subset of the pieces gives back the content, in both
  formats and for segmented files, and a result that is returned hashes to the identifier asked for. \<open>Retrieval\<close>
  (\<^verbatim>\<open>retrieval/\<close>, \<^verbatim>\<open>network/types.rs\<close>, the entry points of \<^verbatim>\<open>network/coordinator.rs\<close>) collects pieces from holders that are slow,
  dead or lying: collection is sound and complete, and retrieval over the network returns the content as soon as enough
  holders answer. \<open>Transport\<close> (\<^verbatim>\<open>transport/payload.rs\<close>, \<^verbatim>\<open>retrieval/transport_source.rs\<close>) selects transports and the steps an
  anonymity policy takes; the step that is called relayed can dial the holder. \<open>Local_Store\<close> (\<^verbatim>\<open>store.rs\<close>) keeps pieces on disk under
  quotas, counted by an index; what an index that cannot be read does to the pieces is part of the model.

  \<^bold>\<open>Onion routing.\<close> \<open>Onion_Packet\<close> (\<^verbatim>\<open>onion/packet.rs\<close>) builds and peels layers, \<open>Onion_Relay\<close> (\<^verbatim>\<open>network/onion_relay.rs\<close>, the onion
  handler of \<^verbatim>\<open>network/node.rs\<close>, \<^verbatim>\<open>network/cover_ack.rs\<close>, the onion retrievals of \<^verbatim>\<open>network/coordinator.rs\<close>) is what a node does with
  them, \<open>Onion_Circuit\<close> composes an initiator, two relays and a target with their stores: a request is served and its
  answer readable at the initiator, cells have one length, a layer is processed once, and content is retrieved over
  circuits. \<open>Onion_Examples\<close> instantiates the parameters.

  \<^bold>\<open>Directed sharing.\<close> \<open>Directed_Envelope\<close>, \<open>Directed_State\<close>, \<open>Directed_Inbox\<close>, \<open>Directed_Protocol\<close> and \<open>Directed_Offers\<close>
  (\<^verbatim>\<open>directed/\<close>, with the handlers in \<^verbatim>\<open>network/node.rs\<close> and \<^verbatim>\<open>daemon/mod.rs\<close>): envelopes that open only after the recipient showed
  and the sender typed back a code. In the second version of the protocol confirmation needs the code, guesses are bounded
  and expiry is enforced. In the first version this holds up to what a holder hands over for the recipient, which is stored as
  it comes; \<open>Directed_Protocol\<close> interleaves the requests of peers, the daemon and the local calls, a retrieval in two parts.
  Offers are taken once, and the records on disk follow the state machines under failing writes.

  \<^bold>\<open>Chat and calls.\<close> \<open>Ratchet\<close> and \<open>Ratchet_Delivery\<close> (\<^verbatim>\<open>chat/crypto.rs\<close>): two sessions over a network that delays, reorders and
  injects deliver every message, positions are never reused, sessions survive being stored. \<open>Membership\<close>
  (\<^verbatim>\<open>chat/group/membership.rs\<close>): signed chains of group descriptors, who can extend them, when concurrent changes
  converge, and how one who leaves can undo a removal. \<open>Call_Signal\<close> and \<open>Call_State\<close> (\<^verbatim>\<open>chat/call/\<close>): call signalling and the call state machine between two parties.
  \<open>Fragment\<close> (\<^verbatim>\<open>protocol/fragment.rs\<close>): handshake fragments are reassembled in any order within bounds.

  \<^bold>\<open>Mailboxes.\<close> Contacts hold sealed messages for each other while the recipient is offline (\<^verbatim>\<open>chat/mailbox/\<close>, with the custody
  functions of \<^verbatim>\<open>chat/service.rs\<close>). \<open>Mailbox_Wire\<close> (\<^verbatim>\<open>wire.rs\<close>) is the protocol, \<open>Mailbox_Holder\<close> and \<open>Mailbox_Disk\<close> (\<^verbatim>\<open>holder.rs\<close>) the
  store of a holder over the sealed documents: it stays within its limits, and what it accepted and wrote is there until
  it expires, over restarts and failed writes. \<open>Mailbox_Client\<close> (\<^verbatim>\<open>client.rs\<close>, \<^verbatim>\<open>transport.rs\<close>, \<^verbatim>\<open>ids.rs\<close>) leaves and collects messages,
  \<open>Mailbox_Delivery\<close> composes client, protocol and holders: the locale \<open>honest_transport\<close> states what a collection needs of
  a transport, the chat channel satisfies it, and a message that was left is delivered. Two theorems show how a contact
  can keep messages from being delivered. \<open>Mailbox_Examples\<close> instantiates the parameters.

  \<^bold>\<open>State on disk.\<close> \<open>State_Crypto\<close> (\<^verbatim>\<open>state_crypto/mod.rs\<close>, \<^verbatim>\<open>doc.rs\<close>): key cells and their erasure, sealed documents. \<open>State_Log\<close>
  (\<^verbatim>\<open>state_crypto/log.rs\<close>): the encrypted record log with its reader, its writer and the staged rewrite; the writer finds what the
  reader finds, a log cut at any byte keeps its complete records, and reading any file ends. \<open>Push_Outbox\<close> (\<^verbatim>\<open>push/outbox.rs\<close>): the
  queue of files to be sent, over that log; it refines a map of jobs, keeps a durably stored job through crashes and
  all errors but those of two steps of a compaction, and stays well formed; a failure of the first of the two loses it. \<open>State_Examples\<close> instantiates the parameters.

  \<^bold>\<open>Bounds and recursion.\<close> No definition takes fuel: the loops of the code are recursions over a list or functions with a
  termination measure (the bytes left of a file, the staged file that is used up, the unfinished candidates of a
  collection), and events that may repeat for ever are sequences of steps, for which the theorems speak about every finite
  run. Capacities and limits are the constants of the code.

  \<^bold>\<open>Not modelled.\<close> Sockets, TLS and the libp2p swarm, devices and codecs of calls, operating system key stores, and the user
  interfaces (\<^verbatim>\<open>miasma-cli\<close>, \<^verbatim>\<open>miasma-desktop\<close>, \<^verbatim>\<open>miasma-ffi\<close>, \<^verbatim>\<open>miasma-wasm\<close>, \<^verbatim>\<open>android\<close>, \<^verbatim>\<open>ios\<close>, \<^verbatim>\<open>web\<close>), because what they do is decided outside the
  repository; their results are arguments where the models need them. Also left out: the asynchronous services around the
  modelled components (chat engine, group engine, transfers, the service that works off the send queue, the
  daemon's dispatch), peer descriptors, credentials and routing scores, replication and repair, updates, recovery of the
  root key, the migration of old state, and \<^verbatim>\<open>miasma-bridge\<close>. Timing and resource use are not modelled anywhere, and neither
  is the erasure of secrets from memory.
\<close>

end
